(* ===== verification/Kit_Prelude.thy ===== *)
theory Kit_Prelude
  imports Main "HOL-Library.Word"
begin

text \<open>
  Shared vocabulary of the development: machine words, the loop combinators that stand for the
  C \<open>for\<close> loops over arrays of words, and the facts about bits of minterm numbers.

  An array of \<open>unsigned\<close> is a list of 32-bit words; a C loop that writes it is a fold of list
  updates over the sequence of index values the loop takes, in the loop's order. A minterm is a
  natural number whose bit \<open>v\<close> is the value of variable \<open>v\<close>.
\<close>

unbundle bit_operations_syntax

type_synonym u32 = "32 word"
type_synonym words = "u32 list"

named_theorems tt_simps \<open>reading a truth table after an operation\<close>
named_theorems mask_simps \<open>bits of the constant masks of the variables 0 to 4\<close>

section \<open>Results\<close>

text \<open>
  The outcome of an operation that may fail: memory that runs out, a failed \<open>assert\<close>, what C leaves
  undefined, and the end of the fuel of a recursion. The theorems show when none of them happens.
\<close>

datatype kit_error = OutOfMemory | AssertFailed | Undefined | OutOfFuel

type_synonym 'a res = "kit_error + 'a"

definition res_bind :: "'a res \<Rightarrow> ('a \<Rightarrow> 'b res) \<Rightarrow> 'b res" where
  "res_bind r f = (case r of Inl e \<Rightarrow> Inl e | Inr x \<Rightarrow> f x)"

lemma res_bind_simps [simp]:
  "res_bind (Inl e) f = Inl e" "res_bind (Inr x) f = f x"
  by (simp_all add: res_bind_def)

lemma res_bind_Inr: "res_bind r f = Inr y \<longleftrightarrow> (\<exists>x. r = Inr x \<and> f x = Inr y)"
  by (cases r) auto

lemma res_bind_Inl: "res_bind r f = Inl e \<longleftrightarrow> r = Inl e \<or> (\<exists>x. r = Inr x \<and> f x = Inl e)"
  by (cases r) auto

lemma res_bind_assoc: "res_bind (res_bind r f) h = res_bind r (\<lambda>x. res_bind (f x) h)"
  by (cases r) simp_all

lemma res_bind_cong [fundef_cong]:
  "r = r' \<Longrightarrow> (\<And>x. r' = Inr x \<Longrightarrow> f x = f' x) \<Longrightarrow> res_bind r f = res_bind r' f'"
  by (cases r') auto

text \<open>What holds of the result of an operation that does not fail.\<close>

definition returns :: "'a res \<Rightarrow> ('a \<Rightarrow> bool) \<Rightarrow> bool" where
  "returns r P \<longleftrightarrow> (case r of Inl e \<Rightarrow> False | Inr x \<Rightarrow> P x)"

lemma returns_simps [simp]: "returns (Inr x) P = P x" "\<not> returns (Inl e) P"
  by (simp_all add: returns_def)

lemma returnsE: "returns r P \<Longrightarrow> (\<And>x. r = Inr x \<Longrightarrow> P x \<Longrightarrow> thesis) \<Longrightarrow> thesis"
  by (cases r) auto

lemma returns_mono: "returns r P \<Longrightarrow> (\<And>x. P x \<Longrightarrow> Q x) \<Longrightarrow> returns r Q"
  by (cases r) auto

lemma returns_bind: "returns r P \<Longrightarrow> (\<And>x. P x \<Longrightarrow> returns (f x) Q) \<Longrightarrow> returns (res_bind r f) Q"
  by (cases r) auto

text \<open>A loop over a list of indices whose body may fail.\<close>

primrec run_loop :: "nat list \<Rightarrow> (nat \<Rightarrow> 's \<Rightarrow> 's res) \<Rightarrow> 's \<Rightarrow> 's res" where
  "run_loop [] body s = Inr s"
| "run_loop (i # is) body s = res_bind (body i s) (run_loop is body)"

lemma run_loop_append: "run_loop (xs @ ys) body s = res_bind (run_loop xs body s) (run_loop ys body)"
proof (induction xs arbitrary: s)
  case (Cons x xs)
  then show ?case by (cases "body x s") simp_all
qed simp

lemma run_loop_up:
  assumes "I a s" "a \<le> b" "\<And>i s. a \<le> i \<Longrightarrow> i < b \<Longrightarrow> I i s \<Longrightarrow> returns (body i s) (I (Suc i))"
  shows "returns (run_loop [a..<b] body s) (I b)"
  using assms(2,3)
proof (induction b rule: dec_induct)
  case base
  then show ?case using assms(1) by simp
next
  case (step k)
  then have "returns (run_loop [a..<k] body s) (I k)" by simp
  then have "returns (res_bind (run_loop [a..<k] body s) (run_loop [k] body)) (I (Suc k))"
  proof (rule returns_bind)
    fix x assume "I k x"
    then show "returns (run_loop [k] body x) (I (Suc k))"
      using step.prems [of k x] step.hyps(1) by (auto elim: returnsE)
  qed
  then show ?case using step.hyps(1) by (simp add: run_loop_append)
qed

lemma run_loop_down:
  assumes "I b s" "a \<le> b" "\<And>i s. a \<le> i \<Longrightarrow> i < b \<Longrightarrow> I (Suc i) s \<Longrightarrow> returns (body i s) (I i)"
  shows "returns (run_loop (rev [a..<b]) body s) (I a)"
  using assms(2,1,3)
proof (induction b arbitrary: s rule: dec_induct)
  case (step k)
  then have "returns (body k s) (I k)" by simp
  then have "returns (res_bind (body k s) (run_loop (rev [a..<k]) body)) (I a)"
    by (rule returns_bind) (use step in auto)
  then show ?case using step.hyps(1) by simp
qed simp

section \<open>Loops\<close>

text \<open>\<open>for ( i = 0; i < n; i++ ) body\<close>\<close>

definition for_up :: "nat \<Rightarrow> (nat \<Rightarrow> 'a \<Rightarrow> 'a) \<Rightarrow> 'a \<Rightarrow> 'a" where
  "for_up n body = fold body [0..<n]"

text \<open>\<open>for ( w = n-1; w >= 0; w-- ) body\<close>\<close>

definition for_down :: "nat \<Rightarrow> (nat \<Rightarrow> 'a \<Rightarrow> 'a) \<Rightarrow> 'a \<Rightarrow> 'a" where
  "for_down n body = fold body (rev [0..<n])"

text \<open>\<open>for ( k = 0; k < n; k += d ) body\<close> for \<open>d > 0\<close>\<close>

definition for_step :: "nat \<Rightarrow> nat \<Rightarrow> (nat \<Rightarrow> 'a \<Rightarrow> 'a) \<Rightarrow> 'a \<Rightarrow> 'a" where
  "for_step n d body = fold (\<lambda>j. body (j * d)) [0..<(n + d - 1) div d]"

text \<open>
  The loop nest over the word pairs of a variable above 4:
  \<^verbatim>\<open>
    for ( k = 0; k < nWords; k += 2*Step )
    {
        for ( i = 0; i < Step; i++ )  body of p[i], p[Step+i];
        p += 2*Step;
    }
  \<close>
  The pointer advances together with \<open>k\<close>, so the body works on the indices \<open>k+i\<close> and
  \<open>k+Step+i\<close>.
\<close>

definition for_pairs :: "nat \<Rightarrow> nat \<Rightarrow> (nat \<Rightarrow> nat \<Rightarrow> 'a \<Rightarrow> 'a) \<Rightarrow> 'a \<Rightarrow> 'a" where
  "for_pairs n Step body =
     for_step n (2 * Step) (\<lambda>k. for_up Step (\<lambda>i. body (k + i) (k + Step + i)))"

text \<open>Loops that return at the first index with a property; the indices in the loop's order.\<close>

definition any_up :: "nat \<Rightarrow> (nat \<Rightarrow> bool) \<Rightarrow> bool" where
  "any_up n P = list_ex P [0..<n]"

definition any_down :: "nat \<Rightarrow> (nat \<Rightarrow> bool) \<Rightarrow> bool" where
  "any_down n P = list_ex P (rev [0..<n])"

definition any_pairs :: "nat \<Rightarrow> nat \<Rightarrow> (nat \<Rightarrow> nat \<Rightarrow> bool) \<Rightarrow> bool" where
  "any_pairs n Step P =
     list_ex (\<lambda>j. list_ex (\<lambda>i. P (j * (2 * Step) + i) (j * (2 * Step) + Step + i)) [0..<Step])
       [0..<(n + 2 * Step - 1) div (2 * Step)]"

lemma any_up_iff [simp]: "any_up n P \<longleftrightarrow> (\<exists>i<n. P i)"
  by (auto simp: any_up_def list_ex_iff)

lemma any_down_iff [simp]: "any_down n P \<longleftrightarrow> (\<exists>i<n. P i)"
  by (auto simp: any_down_def list_ex_iff)

lemma for_up_0 [simp]: "for_up 0 body p = p"
  by (simp add: for_up_def)

lemma for_up_Suc [simp]: "for_up (Suc n) body p = body n (for_up n body p)"
  by (simp add: for_up_def)

lemma for_down_0 [simp]: "for_down 0 body p = p"
  by (simp add: for_down_def)

lemma for_down_Suc [simp]: "for_down (Suc n) body p = for_down n body (body n p)"
  by (simp add: for_down_def)

text \<open>An invariant of the body is an invariant of the loop.\<close>

lemma for_up_invariant:
  assumes "I 0 p" and "\<And>i q. i < n \<Longrightarrow> I i q \<Longrightarrow> I (Suc i) (body i q)"
  shows "I n (for_up n body p)"
  using assms by (induction n) auto

lemma for_up_cong:
  "(\<And>i q. i < n \<Longrightarrow> body i q = body' i q) \<Longrightarrow> for_up n body p = for_up n body' p"
  by (induction n) auto

section \<open>Loops that update an array\<close>

text \<open>Every entry below the bound is replaced by a function of its index and its old value.\<close>

lemma for_up_length [simp]:
  "length (for_up n (\<lambda>i p. p[i := f i p]) p) = length p"
  by (induction n) auto

lemma for_up_nth [simp]:
  "j < length p \<Longrightarrow> for_up n (\<lambda>i p. p[i := f i (p ! i)]) p ! j = (if j < n then f j (p ! j) else p ! j)"
  by (induction n) (auto simp: nth_list_update less_Suc_eq)

lemma for_down_length [simp]:
  "length (for_down n (\<lambda>i p. p[i := f i p]) p) = length p"
  by (induction n arbitrary: p) auto

lemma for_down_nth [simp]:
  "j < length p \<Longrightarrow> for_down n (\<lambda>i p. p[i := f i (p ! i)]) p ! j = (if j < n then f j (p ! j) else p ! j)"
  by (induction n arbitrary: p) (auto simp: nth_list_update less_Suc_eq)

lemma for_up_nth_const [simp]:
  "j < length p \<Longrightarrow> for_up n (\<lambda>i p. p[i := f i]) p ! j = (if j < n then f j else p ! j)"
  using for_up_nth [where f = "\<lambda>i _. f i"] by simp

lemma for_down_nth_const [simp]:
  "j < length p \<Longrightarrow> for_down n (\<lambda>i p. p[i := f i]) p ! j = (if j < n then f j else p ! j)"
  using for_down_nth [where f = "\<lambda>i _. f i"] by simp

text \<open>
  The loop nest over pairs, flattened: it visits the pairs \<open>(lo, hi)\<close> with \<open>lo\<close> the indices
  whose bit \<open>s\<close> is 0 and \<open>hi = lo + 2 ^ s\<close>.
\<close>

definition pair_list :: "nat \<Rightarrow> nat \<Rightarrow> (nat \<times> nat) list" where
  "pair_list n Step = concat (map (\<lambda>j. map (\<lambda>i. (j * (2 * Step) + i, j * (2 * Step) + Step + i)) [0..<Step])
     [0..<(n + 2 * Step - 1) div (2 * Step)])"

lemma fold_concat_fold: "fold f (concat xss) = fold (fold f) xss"
  by (induction xss) auto

lemma for_pairs_pair_list: "for_pairs n Step body = fold (\<lambda>(lo, hi). body lo hi) (pair_list n Step)"
proof -
  have inner: "for_up Step (\<lambda>i. body (k + i) (k + Step + i)) =
      fold (\<lambda>(lo, hi). body lo hi) (map (\<lambda>i. (k + i, k + Step + i)) [0..<Step])" for k
    by (simp add: for_up_def fold_map comp_def)
  show ?thesis
    by (simp add: for_pairs_def for_step_def inner pair_list_def fold_concat_fold fold_map comp_def)
qed

lemma any_pairs_pair_list: "any_pairs n Step P = (\<exists>(lo, hi) \<in> set (pair_list n Step). P lo hi)"
  by (force simp: any_pairs_def pair_list_def list_ex_iff)

lemma for_pairs_invariant:
  assumes "I p" and "\<And>lo hi q. (lo, hi) \<in> set (pair_list n Step) \<Longrightarrow> I q \<Longrightarrow> I (body lo hi q)"
  shows "I (for_pairs n Step body p)"
proof -
  have "set ps \<subseteq> set (pair_list n Step) \<Longrightarrow> I q \<Longrightarrow> I (fold (\<lambda>(lo, hi). body lo hi) ps q)" for ps q
    using assms(2) by (induction ps arbitrary: q) auto
  then show ?thesis
    using assms(1) by (simp add: for_pairs_pair_list)
qed

text \<open>A fold that writes both entries of each pair, over pairs of distinct indices.\<close>

lemma fold_pairs_length:
  "length (fold (\<lambda>(lo, hi) p. p[lo := f lo hi p, hi := g lo hi p]) ps p) = length p"
  by (induction ps arbitrary: p) (auto split: prod.splits)

lemma fold_pairs_nth_other:
  "j \<notin> fst ` set ps \<Longrightarrow> j \<notin> snd ` set ps \<Longrightarrow>
   fold (\<lambda>(lo, hi) p. p[lo := f lo hi p, hi := g lo hi p]) ps p ! j = p ! j"
  by (induction ps arbitrary: p) (auto split: prod.splits)

lemma fold_pairs_nth:
  assumes "distinct (map fst ps @ map snd ps)"
    and "\<forall>(lo, hi) \<in> set ps. lo < length p \<and> hi < length p"
    and "(lo, hi) \<in> set ps"
  shows "fold (\<lambda>(lo, hi) p. p[lo := f lo hi (p ! lo) (p ! hi), hi := g lo hi (p ! lo) (p ! hi)]) ps p ! lo
           = f lo hi (p ! lo) (p ! hi) \<and>
         fold (\<lambda>(lo, hi) p. p[lo := f lo hi (p ! lo) (p ! hi), hi := g lo hi (p ! lo) (p ! hi)]) ps p ! hi
           = g lo hi (p ! lo) (p ! hi)"
  using assms
proof (induction ps arbitrary: p)
  case Nil
  then show ?case by simp
next
  case (Cons ab ps)
  obtain a b where ab: "ab = (a, b)" by force
  let ?q = "p[a := f a b (p ! a) (p ! b), b := g a b (p ! a) (p ! b)]"
  show ?case
  proof (cases "(lo, hi) = (a, b)")
    case True
    have "a \<notin> fst ` set ps" "a \<notin> snd ` set ps" "b \<notin> fst ` set ps" "b \<notin> snd ` set ps" "a \<noteq> b"
      using Cons.prems(1) ab by auto
    moreover have "a < length p" "b < length p"
      using Cons.prems(2) ab by auto
    ultimately show ?thesis
      using True by (simp add: ab fold_pairs_nth_other [where f = "\<lambda>lo hi p. f lo hi (p ! lo) (p ! hi)"
            and g = "\<lambda>lo hi p. g lo hi (p ! lo) (p ! hi)"])
  next
    case False
    with Cons.prems ab have mem: "(lo, hi) \<in> set ps" by auto
    then have "lo \<in> fst ` set ps" "hi \<in> snd ` set ps" by force+
    then have "lo \<noteq> a" "lo \<noteq> b" "hi \<noteq> a" "hi \<noteq> b"
      using Cons.prems(1) ab by auto
    then have same: "?q ! lo = p ! lo" "?q ! hi = p ! hi" by auto
    have "\<forall>(lo, hi) \<in> set ps. lo < length ?q \<and> hi < length ?q"
      using Cons.prems(2) by auto
    moreover have "distinct (map fst ps @ map snd ps)"
      using Cons.prems(1) by simp
    ultimately show ?thesis
      using Cons.IH [of ?q] mem same ab by simp
  qed
qed

section \<open>Minterms and their bits\<close>

lemma bit_div_32 [simp]: "bit (m div 32 :: nat) k = bit m (k + 5)"
  using drop_bit_eq_div [of 5 m] bit_drop_bit_eq [of 5 m] by (simp add: add.commute)

lemma bit_mod_32 [simp]: "bit (m mod 32 :: nat) k \<longleftrightarrow> k < 5 \<and> bit m k"
  using take_bit_eq_mod [of 5 m] bit_take_bit_iff [of 5 m k] by simp

lemma split_32: "(m::nat) = 32 * (m div 32) + m mod 32"
  by simp

text \<open>Changing variable \<open>v\<close> of a minterm acts on the word index or on the bit index.\<close>

lemma unset_bit_div_32 [simp]:
  "unset_bit v (m::nat) div 32 = (if v < 5 then m div 32 else unset_bit (v - 5) (m div 32))"
  by (rule bit_eqI) (auto simp: bit_simps)

lemma unset_bit_mod_32 [simp]:
  "unset_bit v (m::nat) mod 32 = (if v < 5 then unset_bit v (m mod 32) else m mod 32)"
  by (rule bit_eqI) (auto simp: bit_simps)

lemma set_bit_div_32 [simp]:
  "Bit_Operations.set_bit v (m::nat) div 32 =
     (if v < 5 then m div 32 else Bit_Operations.set_bit (v - 5) (m div 32))"
  by (rule bit_eqI) (auto simp: bit_simps)

lemma set_bit_mod_32 [simp]:
  "Bit_Operations.set_bit v (m::nat) mod 32 =
     (if v < 5 then Bit_Operations.set_bit v (m mod 32) else m mod 32)"
  by (rule bit_eqI) (auto simp: bit_simps)

lemma flip_bit_div_32 [simp]:
  "flip_bit v (m::nat) div 32 = (if v < 5 then m div 32 else flip_bit (v - 5) (m div 32))"
  by (rule bit_eqI) (auto simp: bit_simps)

lemma flip_bit_mod_32 [simp]:
  "flip_bit v (m::nat) mod 32 = (if v < 5 then flip_bit v (m mod 32) else m mod 32)"
  by (rule bit_eqI) (auto simp: bit_simps)

lemma less_exp_bits: "(m::nat) < 2 ^ n \<longleftrightarrow> (\<forall>k. bit m k \<longrightarrow> k < n)"
proof -
  have "m < 2 ^ n \<longleftrightarrow> take_bit n m = m"
    by (simp add: take_bit_nat_eq_self_iff)
  also have "\<dots> \<longleftrightarrow> (\<forall>k. bit m k \<longrightarrow> k < n)"
    by (auto simp: bit_eq_iff bit_simps)
  finally show ?thesis .
qed

lemma unset_bit_less [simp, intro]: "m < 2 ^ n \<Longrightarrow> unset_bit v (m::nat) < 2 ^ n"
  by (auto simp: less_exp_bits bit_simps)

lemma set_bit_less [simp, intro]: "m < 2 ^ n \<Longrightarrow> v < n \<Longrightarrow> Bit_Operations.set_bit v (m::nat) < 2 ^ n"
  by (auto simp: less_exp_bits bit_simps)

lemma flip_bit_less [simp, intro]: "m < 2 ^ n \<Longrightarrow> v < n \<Longrightarrow> flip_bit v (m::nat) < 2 ^ n"
  by (auto simp: less_exp_bits bit_simps)

lemma set_bit_eq_add: "\<not> bit m v \<Longrightarrow> Bit_Operations.set_bit v (m::nat) = m + 2 ^ v"
proof -
  assume a: "\<not> bit m v"
  have "m + 2 ^ v = m OR 2 ^ v"
    by (rule disjunctive_add) (use a in \<open>auto simp: bit_simps\<close>)
  then show ?thesis
    by (simp add: set_bit_eq_or push_bit_eq_mult)
qed

lemma unset_bit_eq_diff: "bit m v \<Longrightarrow> unset_bit v (m::nat) = m - 2 ^ v"
proof -
  assume a: "bit m v"
  have "Bit_Operations.set_bit v (unset_bit v m) = unset_bit v m + 2 ^ v"
    by (rule set_bit_eq_add) (simp add: bit_simps)
  moreover have "Bit_Operations.set_bit v (unset_bit v m) = m"
    by (rule bit_eqI) (use a in \<open>auto simp: bit_simps\<close>)
  ultimately show ?thesis by simp
qed

lemma bit_imp_exp_le: "bit (m::nat) v \<Longrightarrow> 2 ^ v \<le> m"
  using less_exp_bits [of m v] by (meson linorder_not_less less_irrefl)

lemma unset_bit_id: "\<not> bit m v \<Longrightarrow> unset_bit v (m::nat) = m"
  by (rule bit_eqI) (auto simp: bit_simps)

lemma set_bit_id: "bit m v \<Longrightarrow> Bit_Operations.set_bit v (m::nat) = m"
  by (rule bit_eqI) (auto simp: bit_simps)

lemma set_unset_bit [simp]: "Bit_Operations.set_bit v (unset_bit v (m::nat)) = Bit_Operations.set_bit v m"
  by (rule bit_eqI) (auto simp: bit_simps)

lemma unset_set_bit [simp]: "unset_bit v (Bit_Operations.set_bit v (m::nat)) = unset_bit v m"
  by (rule bit_eqI) (auto simp: bit_simps)

lemma bit_add_exp: "bit (m + 2 ^ v :: nat) v \<longleftrightarrow> \<not> bit m v"
  by (simp add: bit_iff_odd div_add_self2)

lemma bit_diff_exp: "2 ^ v \<le> m \<Longrightarrow> bit (m - 2 ^ v :: nat) v \<longleftrightarrow> \<not> bit m v"
  using bit_add_exp [of "m - 2 ^ v" v] by simp

section \<open>The loop nest over pairs\<close>

lemma pair_list_block_count:
  assumes "n = m * (2 * Step)" and "0 < Step"
  shows "(n + 2 * Step - 1) div (2 * Step) = (m::nat)"
proof -
  have "n + 2 * Step - 1 = (2 * Step - 1) + m * (2 * Step)" using assms by simp
  then show ?thesis using assms by (simp only: div_mult_self1 div_less)
qed

lemma block_index_bit:
  assumes "i < 2 ^ s"
  shows "\<not> bit (j * (2 * 2 ^ s) + i :: nat) s"
proof -
  have "(j * (2 * 2 ^ s) + i) div 2 ^ s = 2 * j"
    using assms by (simp add: mult.assoc [symmetric] div_mult_self3 [of "2 ^ s" "j * 2" for s, simplified])
  then show ?thesis by (simp add: bit_iff_odd)
qed

lemma pair_list_mem:
  assumes n: "n = m * (2 * 2 ^ s)"
  shows "(lo, hi) \<in> set (pair_list n (2 ^ s)) \<longleftrightarrow> lo < n \<and> \<not> bit lo s \<and> hi = lo + 2 ^ s"
proof
  assume "(lo, hi) \<in> set (pair_list n (2 ^ s))"
  then obtain j i where ij: "j < m" "i < 2 ^ s" "lo = j * (2 * 2 ^ s) + i" "hi = j * (2 * 2 ^ s) + 2 ^ s + i"
    using pair_list_block_count [OF n] by (auto simp: pair_list_def)
  have "lo < (j + 1) * (2 * 2 ^ s)" using ij by simp
  also have "\<dots> \<le> m * (2 * 2 ^ s)" using ij(1) by (intro mult_le_mono1) simp
  finally show "lo < n \<and> \<not> bit lo s \<and> hi = lo + 2 ^ s"
    using ij n block_index_bit [OF ij(2), of j] by auto
next
  assume a: "lo < n \<and> \<not> bit lo s \<and> hi = lo + 2 ^ s"
  define j where "j = lo div (2 * 2 ^ s)"
  define i where "i = lo mod (2 * 2 ^ s)"
  have lo: "lo = j * (2 * 2 ^ s) + i" by (simp only: j_def i_def div_mult_mod_eq)
  have "j < m" using a n by (simp add: j_def less_mult_imp_div_less)
  moreover have "i < 2 ^ s"
  proof (rule ccontr)
    assume "\<not> i < 2 ^ s"
    then have "2 ^ s \<le> i" by simp
    moreover have "i < 2 * 2 ^ s" by (simp add: i_def)
    ultimately have "bit lo s"
      using block_index_bit [of "i - 2 ^ s" s j] bit_diff_exp [of s lo] lo
      by (metis (no_types, lifting) Nat.add_diff_assoc add_diff_inverse_nat diff_diff_left le_add2 less_diff_conv2
          mult_2 le_trans)
    with a show False by simp
  qed
  ultimately show "(lo, hi) \<in> set (pair_list n (2 ^ s))"
    using pair_list_block_count [OF n] a lo by (auto simp: pair_list_def intro!: image_eqI)
qed

lemma block_starts_distinct: "distinct (concat (map (\<lambda>j. map (\<lambda>i. j * (2 * 2 ^ s) + i) [0..<2 ^ s]) [0..<m::nat])) \<and>
   (\<forall>x \<in> set (concat (map (\<lambda>j. map (\<lambda>i. j * (2 * 2 ^ s) + i) [0..<2 ^ s]) [0..<m])). x < m * (2 * 2 ^ s))"
proof (induction m)
  case (Suc m)
  let ?xs = "concat (map (\<lambda>j. map (\<lambda>i. j * (2 * 2 ^ s) + i) [0..<2 ^ s]) [0..<m])"
  let ?ys = "map (\<lambda>i. m * (2 * 2 ^ s) + i) [0..<2 ^ s::nat]"
  have split: "concat (map (\<lambda>j. map (\<lambda>i. j * (2 * 2 ^ s) + i) [0..<2 ^ s]) [0..<Suc m]) = ?xs @ ?ys"
    by simp
  have ys: "\<forall>y \<in> set ?ys. m * (2 * 2 ^ s) \<le> y \<and> y < Suc m * (2 * 2 ^ s)"
    by simp
  have dys: "distinct ?ys" by (simp add: distinct_map inj_on_def)
  have xs: "distinct ?xs" "\<forall>x \<in> set ?xs. x < m * (2 * 2 ^ s)" using Suc by blast+
  have disj: "set ?xs \<inter> set ?ys = {}" using xs(2) ys by (meson disjoint_iff linorder_not_less)
  have "\<forall>x \<in> set ?xs. x < Suc m * (2 * 2 ^ s)" using xs(2)
    by (meson less_le_trans lessI less_imp_le mult_le_mono1)
  then show ?case
    unfolding split distinct_append set_append using xs(1) dys disj ys by blast
qed simp

lemma pair_list_distinct:
  assumes n: "n = m * (2 * 2 ^ s)"
  shows "distinct (map fst (pair_list n (2 ^ s)) @ map snd (pair_list n (2 ^ s)))"
proof -
  have lows: "map fst (pair_list n (2 ^ s)) =
      concat (map (\<lambda>j. map (\<lambda>i. j * (2 * 2 ^ s) + i) [0..<2 ^ s]) [0..<m])"
    using pair_list_block_count [OF n] by (simp add: pair_list_def map_concat comp_def)
  have "map snd (pair_list n (2 ^ s)) = map (\<lambda>i. i + 2 ^ s) (map fst (pair_list n (2 ^ s)))"
    using pair_list_mem [OF n] by (auto simp: list_eq_iff_nth_eq) (metis nth_mem prod.collapse)
  moreover have "distinct (map fst (pair_list n (2 ^ s)))"
    using lows block_starts_distinct [of s m] by simp
  moreover have "lo \<noteq> lo' + 2 ^ s" if "(lo, hi) \<in> set (pair_list n (2 ^ s))"
      "(lo', hi') \<in> set (pair_list n (2 ^ s))" for lo lo' hi hi'
    using that pair_list_mem [OF n] bit_add_exp by metis
  ultimately show ?thesis
    by (auto simp: distinct_map inj_on_def)
qed

text \<open>
  The contract of every loop nest over pairs: entry \<open>j\<close> of the result is computed from the two
  entries whose indices differ from \<open>j\<close> in bit \<open>s\<close> only.
\<close>

lemma for_pairs_nth:
  assumes n: "n = m * (2 * 2 ^ s)" and len: "n \<le> length p" and j: "j < length p"
    and body: "\<And>lo hi q. lo < hi \<Longrightarrow> hi < length p \<Longrightarrow> length q = length p \<Longrightarrow>
      body lo hi q = q[lo := f lo hi (q ! lo) (q ! hi), hi := g lo hi (q ! lo) (q ! hi)]"
  shows "for_pairs n (2 ^ s) body p ! j =
    (if j < n then
       (let lo = unset_bit s j; hi = Bit_Operations.set_bit s j
        in (if bit j s then g else f) lo hi (p ! lo) (p ! hi))
     else p ! j)"
    and "length (for_pairs n (2 ^ s) body p) = length p"
proof -
  let ?ps = "pair_list n (2 ^ s)"
  let ?b = "\<lambda>(lo, hi) q. q[lo := f lo hi (q ! lo) (q ! hi), hi := g lo hi (q ! lo) (q ! hi)]"
  have in_range: "lo < hi \<and> hi < n" if "(lo, hi) \<in> set ?ps" for lo hi
  proof -
    from that have lo: "lo < n" "\<not> bit lo s" "hi = lo + 2 ^ s" using pair_list_mem [OF n] by auto
    define r where "r = lo mod (2 * 2 ^ s)"
    have "r + 2 ^ s < 2 * 2 ^ s"
      using lo(2) block_index_bit [of "r - 2 ^ s" s "lo div (2 * 2 ^ s)"] bit_diff_exp [of s lo] r_def
      by (metis (no_types, opaque_lifting) add_less_cancel_right bit_take_bit_iff bit_imp_exp_le less_exp_bits
          less_Suc_eq lessI linorder_not_less mod_less_divisor mult_2 power_Suc take_bit_eq_mod zero_less_numeral
          zero_less_power)
    then have "lo + 2 ^ s < (lo div (2 * 2 ^ s) + 1) * (2 * 2 ^ s)"
      by (subst (1) div_mult_mod_eq [symmetric, of lo "2 * 2 ^ s"]) (simp add: r_def)
    also have "\<dots> \<le> n"
      using lo(1) n by (simp only: n, intro mult_le_mono1) (simp add: less_mult_imp_div_less Suc_leI)
    finally show ?thesis using lo(3) by simp
  qed
  have flat: "set qs \<subseteq> set ?ps \<Longrightarrow> length q = length p \<Longrightarrow>
      fold (\<lambda>(lo, hi). body lo hi) qs q = fold ?b qs q" for qs q
  proof (induction qs arbitrary: q)
    case (Cons ab qs)
    obtain a b where ab: "ab = (a, b)" by force
    with Cons.prems in_range [of a b] len have "body a b q = ?b (a, b) q"
      by (auto intro!: body)
    with Cons ab show ?case by simp
  qed simp
  have eq: "for_pairs n (2 ^ s) body p = fold ?b ?ps p"
    by (simp add: for_pairs_pair_list flat)
  show "length (for_pairs n (2 ^ s) body p) = length p"
    by (simp add: eq fold_pairs_length)
  show "for_pairs n (2 ^ s) body p ! j =
    (if j < n then
       (let lo = unset_bit s j; hi = Bit_Operations.set_bit s j
        in (if bit j s then g else f) lo hi (p ! lo) (p ! hi))
     else p ! j)"
  proof (cases "j < n")
    case False
    then have "j \<notin> fst ` set ?ps" "j \<notin> snd ` set ?ps"
      using in_range by (force dest: less_trans)+
    then show ?thesis using False by (simp add: eq fold_pairs_nth_other)
  next
    case True
    let ?lo = "unset_bit s j" and ?hi = "Bit_Operations.set_bit s j"
    have "\<not> bit ?lo s" by (simp add: bit_simps)
    moreover have "?hi = ?lo + 2 ^ s"
      using set_bit_eq_add [of ?lo s] by (simp add: bit_simps set_unset_bit)
    moreover have "?lo \<le> j"
      using unset_bit_eq_diff [of j s] unset_bit_id [of j s] by (cases "bit j s") auto
    ultimately have mem: "(?lo, ?hi) \<in> set ?ps"
      using True pair_list_mem [OF n] by auto
    have "\<forall>(lo, hi) \<in> set ?ps. lo < length p \<and> hi < length p"
      using in_range len by fastforce
    note nth = fold_pairs_nth [OF pair_list_distinct [OF n] this mem, of f g]
    show ?thesis
      using nth True by (cases "bit j s") (simp_all add: eq Let_def set_bit_id unset_bit_id)
  qed
qed

section \<open>Scanning for a minimum\<close>

text \<open>
  The loops \<open>if ( best > val(i) ) { best = val(i); arg = i; }\<close> over a list of indices: the first
  index with the smallest value wins, unless no value is below the initial bound.
\<close>

definition scan_min :: "('a \<Rightarrow> 'b :: linorder) \<Rightarrow> 'a list \<Rightarrow> 'b \<times> 'c \<Rightarrow> ('a \<Rightarrow> 'c) \<Rightarrow> 'b \<times> 'c" where
  "scan_min val is start name = fold (\<lambda>i (best, arg). if best > val i then (val i, name i) else (best, arg)) is start"

lemma scan_min_Nil [simp]: "scan_min val [] start name = start"
  by (simp add: scan_min_def)

lemma scan_min_snoc: "scan_min val (xs @ [x]) start name =
    (case scan_min val xs start name of (best, arg) \<Rightarrow> if best > val x then (val x, name x) else (best, arg))"
  by (simp add: scan_min_def)

lemma scan_min_spec:
  assumes "scan_min val is (b0, a0) name = (best, arg)"
  shows "(best, arg) = (b0, a0) \<and> (\<forall>i \<in> set is. b0 \<le> val i) \<or>
    (\<exists>ps i qs. is = ps @ i # qs \<and> best = val i \<and> arg = name i \<and> val i < b0 \<and>
      (\<forall>j \<in> set ps. val i < val j) \<and> (\<forall>j \<in> set qs. val i \<le> val j))"
  using assms
proof (induction "is" arbitrary: best arg rule: rev_induct)
  case (snoc x xs)
  obtain b a where ba: "scan_min val xs (b0, a0) name = (b, a)" by force
  have step: "(best, arg) = (if b > val x then (val x, name x) else (b, a))"
    using snoc.prems ba by (simp add: scan_min_def)
  have all: "\<forall>j \<in> set xs. b \<le> val j" and b: "b \<le> b0"
    using snoc.IH [OF ba] by (auto simp: less_imp_le)
  show ?case
  proof (cases "val x < b")
    case True
    then have "\<forall>j \<in> set xs. val x < val j" "val x < b0" using all b by auto
    then show ?thesis using True step by (intro disjI2 exI [of _ xs] exI [of _ x] exI [of _ "[]"]) auto
  next
    case False
    then have eq: "best = b" "arg = a" using step by simp_all
    from snoc.IH [OF ba] show ?thesis
    proof (elim disjE exE conjE)
      fix ps i qs
      assume "xs = ps @ i # qs" "b = val i" "a = name i" "val i < b0"
        "\<forall>j \<in> set ps. val i < val j" "\<forall>j \<in> set qs. val i \<le> val j"
      then show ?thesis
        using False eq by (intro disjI2 exI [of _ ps] exI [of _ i] exI [of _ "qs @ [x]"]) auto
    qed (use False eq in auto)
  qed
qed (simp add: scan_min_def)

text \<open>The conclusion without the order of the list, and the scan that skips some indices.\<close>

lemma scan_min_filter:
  "fold (\<lambda>i (best, arg). if \<not> P i then (best, arg) else if best > val i then (val i, name i) else (best, arg)) is start =
   scan_min val (filter P is) start name"
proof (induction "is" arbitrary: start)
  case (Cons i "is")
  then show ?case by (cases start) (simp add: scan_min_def)
qed simp

lemma scan_min_set:
  assumes "scan_min val is (b0, a0) name = (best, arg)"
  shows "(best, arg) = (b0, a0) \<and> (\<forall>i \<in> set is. b0 \<le> val i) \<or>
    (\<exists>i \<in> set is. best = val i \<and> arg = name i \<and> val i < b0 \<and> (\<forall>j \<in> set is. val i \<le> val j))"
  using scan_min_spec [OF assms] by (elim disjE exE conjE) (auto simp: less_imp_le)

section \<open>Exchanging neighbours\<close>

definition swap_pos :: "nat \<Rightarrow> nat \<Rightarrow> nat" where
  "swap_pos k i = (if i = k then Suc k else if i = Suc k then k else i)"

lemma swap_pos_swap_pos [simp]: "swap_pos k (swap_pos k i) = i"
  by (simp add: swap_pos_def)

end
