(* ===== verification/Kit_Count.thy ===== *)
theory Kit_Count
  imports Kit_Words
begin

text \<open>
  Searching and counting bits in one word (\<open>src/abc-master/src/bool/kit/kit.h\<close>): the first bit, the test for a
  power of two and the branch-free count of ones. The count is proved equal to the number of
  bits of the word: each of its five lines adds neighbouring digits, which turns a number whose
  digits in base \<open>B\<close> are small into one with the same digit sum in base \<open>B * B\<close>.
\<close>

definition Kit_WordFindFirstBit :: "u32 \<Rightarrow> int" where
  "Kit_WordFindFirstBit uWord =
     (case find (\<lambda>i. (uWord AND push_bit i 1) \<noteq> 0) [0..<32] of Some i \<Rightarrow> int i | None \<Rightarrow> -1)"

definition Kit_WordHasOneBit :: "u32 \<Rightarrow> bool" where
  "Kit_WordHasOneBit uWord \<longleftrightarrow> (uWord AND (uWord - 1)) = 0"

definition Kit_WordCountOnes :: "u32 \<Rightarrow> nat" where
  "Kit_WordCountOnes uWord0 =
    (let uWord = (uWord0 AND 0x55555555) + (drop_bit 1 uWord0 AND 0x55555555);
         uWord = (uWord AND 0x33333333) + (drop_bit 2 uWord AND 0x33333333);
         uWord = (uWord AND 0x0F0F0F0F) + (drop_bit 4 uWord AND 0x0F0F0F0F);
         uWord = (uWord AND 0x00FF00FF) + (drop_bit 8 uWord AND 0x00FF00FF)
     in unat ((uWord AND 0x0000FFFF) + drop_bit 16 uWord))"

text \<open>The number of ones of a word.\<close>

definition ones :: "u32 \<Rightarrow> nat" where
  "ones w = card {i. i < 32 \<and> bit w i}"

section \<open>Digit sums\<close>

text \<open>The digits of even position, spread back, and the sum of all digits.\<close>

lemma div_smaller: "\<not> (B < 2 \<or> x = 0) \<Longrightarrow> x div B < (x::nat)"
  by simp

lemma div_div_smaller: "\<not> (B < 2 \<or> x = 0) \<Longrightarrow> x div B div B < (x::nat)"
  by (meson div_le_dividend div_smaller le_less_trans)

function even_digits :: "nat \<Rightarrow> nat \<Rightarrow> nat" where
  "even_digits B x = (if B < 2 \<or> x = 0 then 0 else x mod B + B * B * even_digits B (x div B div B))"
  by pat_completeness auto
termination
  by (relation "measure snd") (auto simp: div_div_smaller)

function digit_sum :: "nat \<Rightarrow> nat \<Rightarrow> nat" where
  "digit_sum B x = (if B < 2 \<or> x = 0 then 0 else x mod B + digit_sum B (x div B))"
  by pat_completeness auto
termination
  by (relation "measure snd") auto

function digits_le :: "nat \<Rightarrow> nat \<Rightarrow> nat \<Rightarrow> bool" where
  "digits_le c B x = (if B < 2 \<or> x = 0 then True else x mod B \<le> c \<and> digits_le c B (x div B))"
  by pat_completeness auto
termination
  by (relation "measure (\<lambda>(c, B, x). x)") auto

declare even_digits.simps [simp del] digit_sum.simps [simp del] digits_le.simps [simp del]

lemma even_digits_0 [simp]: "even_digits B 0 = 0"
  by (simp add: even_digits.simps)

lemma digit_sum_0 [simp]: "digit_sum B 0 = 0"
  by (simp add: digit_sum.simps)

lemma digits_le_0 [simp]: "digits_le c B 0"
  by (simp add: digits_le.simps)

lemma even_digits_unfold: "2 \<le> B \<Longrightarrow> even_digits B x = x mod B + B * B * even_digits B (x div B div B)"
  by (subst even_digits.simps) simp

lemma digit_sum_unfold: "2 \<le> B \<Longrightarrow> digit_sum B x = x mod B + digit_sum B (x div B)"
  by (subst digit_sum.simps) simp

lemma digits_le_unfold: "2 \<le> B \<Longrightarrow> digits_le c B x \<longleftrightarrow> x mod B \<le> c \<and> digits_le c B (x div B)"
  by (subst digits_le.simps) simp

text \<open>One line of the bit count, on numbers.\<close>

definition add_digits :: "nat \<Rightarrow> nat \<Rightarrow> nat" where
  "add_digits B x = even_digits B x + even_digits B (x div B)"

lemma add_digits_unfold:
  "2 \<le> B \<Longrightarrow> add_digits B x = (x mod B + x div B mod B) + B * B * add_digits B (x div B div B)"
  by (simp add: add_digits_def even_digits_unfold [of B x] even_digits_unfold [of B "x div B"] algebra_simps)

lemma add_digits_split:
  assumes B: "2 \<le> B" and small: "2 * c < B * B" and x: "digits_le c B x"
  shows "add_digits B x mod (B * B) = x mod B + x div B mod B"
    and "add_digits B x div (B * B) = add_digits B (x div B div B)"
proof -
  have "x mod B + x div B mod B < B * B"
    using x small digits_le_unfold [OF B, of c x] digits_le_unfold [OF B, of c "x div B"] by simp
  then show "add_digits B x mod (B * B) = x mod B + x div B mod B"
    and "add_digits B x div (B * B) = add_digits B (x div B div B)"
    using B by (simp_all add: add_digits_unfold [OF B, of x])
qed

lemma digits_le_div: "2 \<le> B \<Longrightarrow> digits_le c B x \<Longrightarrow> digits_le c B (x div B)"
  using digits_le_unfold by blast

lemma add_digits_sum:
  assumes B: "2 \<le> B" and small: "2 * c < B * B"
  shows "digits_le c B x \<Longrightarrow>
    digit_sum (B * B) (add_digits B x) = digit_sum B x \<and> digits_le (2 * c) (B * B) (add_digits B x)"
proof (induction x rule: less_induct)
  case (less x)
  have BB: "2 \<le> B * B" using B by (metis le_trans mult_le_mono2 nat_mult_1_right one_le_numeral)
  show ?case
  proof (cases "x = 0")
    case True
    then show ?thesis by (simp add: add_digits_def)
  next
    case False
    then have smaller: "x div B div B < x"
      using B by (intro div_div_smaller) auto
    have d: "digits_le c B (x div B div B)" "x mod B \<le> c" "x div B mod B \<le> c"
      using less.prems B by (auto simp: digits_le_unfold [OF B, of c x] digits_le_unfold [OF B, of c "x div B"])
    note IH = less.IH [OF smaller d(1)]
    note sp = add_digits_split [OF B small less.prems]
    have "digit_sum (B * B) (add_digits B x) = x mod B + x div B mod B + digit_sum B (x div B div B)"
      using IH by (simp add: digit_sum_unfold [OF BB, of "add_digits B x"] sp)
    also have "\<dots> = digit_sum B x"
      by (simp add: digit_sum_unfold [OF B, of x] digit_sum_unfold [OF B, of "x div B"])
    finally show ?thesis
      using IH d by (simp add: digits_le_unfold [OF BB, of _ "add_digits B x"] sp)
  qed
qed

lemma add_digits_bound:
  assumes B: "2 \<le> B" and small: "2 * c < B * B"
  shows "digits_le c B x \<Longrightarrow> x < (B * B) ^ n \<Longrightarrow> add_digits B x < (B * B) ^ n"
proof (induction n arbitrary: x)
  case 0
  then show ?case by (simp add: add_digits_def)
next
  case (Suc n)
  have "x div B div B < (B * B) ^ n"
    using Suc.prems(2) B by (simp add: div_mult2_eq [symmetric] div_less_iff_less_mult mult.commute mult.assoc)
  moreover have "digits_le c B (x div B div B)"
    using Suc.prems(1) digits_le_div [OF B] by blast
  ultimately have "add_digits B x div (B * B) < (B * B) ^ n"
    using Suc.IH by (simp add: add_digits_split(2) [OF B small Suc.prems(1)])
  then show ?case using B by (simp add: div_less_iff_less_mult mult.commute)
qed

section \<open>Digits and masks\<close>

lemma bit_even_digits: "0 < k \<Longrightarrow> bit (even_digits (2 ^ k) x) i \<longleftrightarrow> bit x i \<and> even (i div k)"
proof (induction x arbitrary: i rule: less_induct)
  case (less x)
  have B: "(2::nat) \<le> 2 ^ k" using less.prems by (cases k) auto
  show ?case
  proof (cases "x = 0")
    case False
    have "x div 2 ^ k div 2 ^ k < x"
      using False B by (intro div_div_smaller) auto
    note IH = less.IH [OF this less.prems]
    have "even_digits (2 ^ k) x = take_bit k x + push_bit (2 * k) (even_digits (2 ^ k) (x div 2 ^ k div 2 ^ k))"
      by (subst even_digits_unfold [OF B])
         (simp add: take_bit_eq_mod push_bit_eq_mult power_add mult_2 mult_2_right mult.commute)
    also have "\<dots> = take_bit k x OR push_bit (2 * k) (even_digits (2 ^ k) (x div 2 ^ k div 2 ^ k))"
      by (rule disjunctive_add) (auto simp: bit_simps)
    also have "bit \<dots> i \<longleftrightarrow> bit x i \<and> even (i div k)"
    proof (cases "i < 2 * k")
      case True
      have "i div k = 1" if "\<not> i < k"
        using div_add_self2 [of k "i - k"] that True less.prems by simp
      then have "i div k = (if i < k then 0 else 1)"
        by simp
      then show ?thesis using True by (auto simp: bit_simps)
    next
      case False
      have "i div k = (i - 2 * k) div k + 2"
        using div_mult_self1 [of k "i - 2 * k" 2] False less.prems by simp
      moreover have "bit (x div 2 ^ k div 2 ^ k) (i - 2 * k) = bit x i"
        using False by (simp add: bit_iff_odd div_mult2_eq [symmetric] power_add [symmetric])
      ultimately show ?thesis using False IH by (simp add: bit_simps)
    qed
    finally show ?thesis .
  qed simp
qed

text \<open>One line of the bit count on words is one digit addition on numbers.\<close>

lemma add_digits_word:
  assumes k: "0 < k" and mask: "\<And>i. bit (M :: u32) i \<longleftrightarrow> i < 32 \<and> even (i div k)"
    and small: "2 * c < 2 ^ k * 2 ^ k" and n: "2 * k * n = 32" and d: "digits_le c (2 ^ k) (unat w)"
  shows "unat ((w AND M) + (drop_bit k w AND M)) = add_digits (2 ^ k) (unat w)"
proof -
  have unat_and: "unat (v AND M) = even_digits (2 ^ k) (unat v)" for v
    by (rule bit_eqI) (auto simp: bit_even_digits [OF k] bit_simps mask bit_unsigned_iff dest: bit_less_32)
  have "unat (drop_bit k w) = unat w div 2 ^ k"
    by (simp only: drop_bit_eq_div [symmetric], rule bit_eqI) (auto simp: bit_simps dest: bit_less_32)
  then have sum: "unat (w AND M) + unat (drop_bit k w AND M) = add_digits (2 ^ k) (unat w)"
    by (simp add: unat_and add_digits_def)
  have B: "(2::nat) \<le> 2 ^ k" using k by (cases k) auto
  have BB: "((2::nat) ^ k * 2 ^ k) ^ n = 2 ^ 32"
    by (simp flip: power_add power_mult n add: mult_2)
  have "unat w < 2 ^ 32" using unsigned_less [of w] by simp
  then have "add_digits (2 ^ k) (unat w) < 2 ^ 32"
    using add_digits_bound [OF B small d, of n] BB by simp
  then show ?thesis
    using sum by (simp add: unat_word_ariths(1))
qed

lemma mask_by_enumeration:
  "list_all (\<lambda>i. bit M i = P i) [0..<32] \<Longrightarrow> bit (M :: u32) i \<longleftrightarrow> i < 32 \<and> P i"
  using bit_less_32 by (auto simp: list_all_iff)

lemma count_masks:
  "bit (0x55555555 :: u32) i \<longleftrightarrow> i < 32 \<and> even (i div 1)"
  "bit (0x33333333 :: u32) i \<longleftrightarrow> i < 32 \<and> even (i div 2)"
  "bit (0x0F0F0F0F :: u32) i \<longleftrightarrow> i < 32 \<and> even (i div 4)"
  "bit (0x00FF00FF :: u32) i \<longleftrightarrow> i < 32 \<and> even (i div 8)"
  "bit (0x0000FFFF :: u32) i \<longleftrightarrow> i < 32 \<and> even (i div 16)"
  by (rule mask_by_enumeration, code_simp)+

section \<open>The bit count\<close>

lemma digits_le_2: "digits_le (Suc 0) 2 x"
proof (induction x rule: less_induct)
  case (less x)
  have "x mod 2 \<le> Suc 0" by presburger
  then show ?case using less by (subst digits_le.simps) simp
qed

lemma digit_sum_2: "x < 2 ^ n \<Longrightarrow> digit_sum 2 x = card {i. i < n \<and> bit x i}"
proof (induction n arbitrary: x)
  case (Suc n)
  let ?S = "{i. i < n \<and> bit (x div 2) i}"
  have "card (Suc ` ?S) = card ?S" by (simp add: card_image)
  moreover have "{i. i < Suc n \<and> bit x i} = (if odd x then insert 0 (Suc ` ?S) else Suc ` ?S)"
    by (auto simp: bit_0 bit_Suc less_Suc_eq_0_disj)
  moreover have "finite (Suc ` ?S)" "0 \<notin> Suc ` ?S" by auto
  ultimately have "card {i. i < Suc n \<and> bit x i} = x mod 2 + card ?S"
    by (simp add: odd_iff_mod_2_eq_one)
  moreover have "digit_sum 2 (x div 2) = card ?S"
    using Suc by (intro Suc.IH) simp
  ultimately show ?case
    by (simp add: digit_sum_unfold [of 2 x])
qed simp

lemma digit_sum_small: "2 \<le> B \<Longrightarrow> x < B \<Longrightarrow> digit_sum B x = x"
  by (simp add: digit_sum_unfold)

lemma unat_u32_less: "unat (v :: u32) < 2 ^ 32"
proof -
  have "unsigned v < (2 :: nat) ^ LENGTH(32)" by (rule unsigned_less)
  then show ?thesis by simp
qed

theorem Kit_WordCountOnes_ones: "Kit_WordCountOnes w = ones w"
proof -
  define w1 where "w1 = (w AND 0x55555555) + (drop_bit 1 w AND 0x55555555)"
  define w2 where "w2 = (w1 AND 0x33333333) + (drop_bit 2 w1 AND 0x33333333)"
  define w3 where "w3 = (w2 AND 0x0F0F0F0F) + (drop_bit 4 w2 AND 0x0F0F0F0F)"
  define w4 where "w4 = (w3 AND 0x00FF00FF) + (drop_bit 8 w3 AND 0x00FF00FF)"
  define w5 where "w5 = (w4 AND 0x0000FFFF) + (drop_bit 16 w4 AND 0x0000FFFF)"
  have d0: "digits_le 1 (2 ^ 1) (unat w)" by (simp add: digits_le_2)
  have u1: "unat w1 = add_digits 2 (unat w)"
    unfolding w1_def using add_digits_word [OF _ count_masks(1) _ _ d0, of 16] by simp
  note s1 = add_digits_sum [of 2 1 "unat w", folded u1, simplified]
  have u2: "unat w2 = add_digits 4 (unat w1)"
    unfolding w2_def using add_digits_word [OF _ count_masks(2), of 2 8 w1] s1 d0 by simp
  note s2 = add_digits_sum [of 4 2 "unat w1", folded u2, simplified]
  have u3: "unat w3 = add_digits 16 (unat w2)"
    unfolding w3_def using add_digits_word [OF _ count_masks(3), of 4 4 w2] s1 s2 d0 by simp
  note s3 = add_digits_sum [of 16 4 "unat w2", folded u3, simplified]
  have u4: "unat w4 = add_digits 256 (unat w3)"
    unfolding w4_def using add_digits_word [OF _ count_masks(4), of 8 2 w3] s1 s2 s3 d0 by simp
  note s4 = add_digits_sum [of 256 8 "unat w3", folded u4, simplified]
  have u5: "unat w5 = add_digits 65536 (unat w4)"
    unfolding w5_def using add_digits_word [OF _ count_masks(5), of 16 1 w4] s1 s2 s3 s4 d0 by simp
  note s5 = add_digits_sum [of 65536 16 "unat w4", folded u5, simplified]
  have "drop_bit 16 w4 AND 0x0000FFFF = drop_bit 16 w4"
    by (simp only: u32_eq_iff bit_and_iff bit_drop_bit_eq count_masks(5))
       (auto dest: bit_less_32)
  then have "Kit_WordCountOnes w = unat w5"
    by (simp add: Kit_WordCountOnes_def Let_def w1_def w2_def w3_def w4_def w5_def)
  also have "unat w5 = digit_sum 4294967296 (unat w5)"
    using unat_u32_less [of w5] by (simp add: digit_sum_small)
  also have "\<dots> = digit_sum 2 (unat w)"
    using s1 s2 s3 s4 s5 d0 by simp
  also have "\<dots> = card {i. i < 32 \<and> bit (unat w) i}"
    using unat_u32_less [of w] by (intro digit_sum_2) simp
  also have "\<dots> = ones w"
    by (simp add: ones_def bit_unsigned_iff)
  finally show ?thesis .
qed

lemma ones_0 [simp]: "ones 0 = 0"
  by (simp add: ones_def)

lemma ones_le_32: "ones w \<le> 32"
  using card_mono [of "{..<32}" "{i. i < 32 \<and> bit w i}"] by (auto simp: ones_def)

lemma ones_eq_0: "ones w = 0 \<longleftrightarrow> w = 0"
  by (auto simp: ones_def u32_eq_iff)

lemma ones_disjoint: "v AND w = 0 \<Longrightarrow> ones (v OR w) = ones v + ones w"
proof -
  assume "v AND w = 0"
  then have "{i. i < 32 \<and> bit v i} \<inter> {i. i < 32 \<and> bit w i} = {}"
    by (auto simp: u32_eq_iff bit_simps)
  moreover have "{i. i < 32 \<and> bit (v OR w) i} = {i. i < 32 \<and> bit v i} \<union> {i. i < 32 \<and> bit w i}"
    by (auto simp: bit_simps)
  ultimately show ?thesis by (simp add: ones_def card_Un_disjoint)
qed

lemma ones_complement: "ones (NOT w) = 32 - ones w"
proof -
  have "w AND NOT w = 0" "w OR NOT w = -1"
    by (auto simp: u32_eq_iff bit_simps)
  moreover have "ones (-1) = 32" by (simp add: ones_def)
  ultimately show ?thesis using ones_disjoint [of w "NOT w"] by simp
qed

section \<open>The first bit and powers of two\<close>

theorem Kit_WordFindFirstBit_spec:
  "Kit_WordFindFirstBit w =
     (if w = 0 then -1 else int (LEAST i. bit w i))"
proof (cases "w = 0")
  case True
  then show ?thesis by (simp add: Kit_WordFindFirstBit_def find_None_iff split: option.split)
next
  case False
  then obtain k where k: "k < 32" "bit w k" by (auto simp: word_nonzero_bit)
  have "find (\<lambda>i. (w AND push_bit i 1) \<noteq> 0) [0..<32] \<noteq> None"
    using k by (auto simp: find_None_iff)
  then obtain i where i: "find (\<lambda>i. (w AND push_bit i 1) \<noteq> 0) [0..<32] = Some i" by auto
  then have "i < 32 \<and> bit w i \<and> (\<forall>j<i. \<not> bit w j)"
    by (auto simp: find_Some_iff)
  then have "(LEAST i. bit w i) = i"
    by (intro Least_equality) (auto simp: not_less [symmetric])
  then show ?thesis using i False by (simp add: Kit_WordFindFirstBit_def)
qed

lemma nat_and_pred: "(2 ^ i * (2 * q + 1) AND (2 ^ i * (2 * q + 1) - 1) :: nat) = 2 ^ i * 2 * q"
proof -
  have "2 ^ i * (2 * q + 1) - 1 = push_bit (Suc i) q + mask i"
    by (simp add: push_bit_eq_mult mask_eq_exp_minus_1 algebra_simps)
  also have "\<dots> = push_bit (Suc i) q OR mask i"
    by (rule disjunctive_add) (auto simp: bit_simps)
  finally have pred: "2 ^ i * (2 * q + 1) - 1 = push_bit (Suc i) q OR mask i" .
  have "2 ^ i * (2 * q + 1) = push_bit (Suc i) q + 2 ^ i"
    by (simp add: push_bit_eq_mult algebra_simps)
  also have "\<dots> = push_bit (Suc i) q OR 2 ^ i"
    by (rule disjunctive_add) (auto simp: bit_simps bit_0)
  finally have self: "2 ^ i * (2 * q + 1) = push_bit (Suc i) q OR 2 ^ i" .
  then have "(2 ^ i * (2 * q + 1) AND (2 ^ i * (2 * q + 1) - 1)) =
      (push_bit (Suc i) q OR 2 ^ i) AND (push_bit (Suc i) q OR mask i)"
    using pred by (simp only: self)
  also have "\<dots> = push_bit (Suc i) q"
    by (rule bit_eqI) (auto simp: bit_simps bit_0)
  finally show ?thesis by (simp add: push_bit_eq_mult)
qed

theorem Kit_WordHasOneBit_spec: "Kit_WordHasOneBit w \<longleftrightarrow> ones w \<le> 1"
proof (cases "w = 0")
  case False
  then obtain k where k: "k < 32" "bit w k" by (auto simp: word_nonzero_bit)
  define i where "i = (LEAST i. bit w i)"
  have i: "bit w i" "\<And>j. j < i \<Longrightarrow> \<not> bit w j"
    using LeastI [of "bit w" k] not_less_Least k by (auto simp: i_def)
  have "bit (unat w) i" "\<And>j. j < i \<Longrightarrow> \<not> bit (unat w) j"
    using i by (auto simp: bit_unsigned_iff)
  then have low: "take_bit i (unat w) = 0" and "odd (drop_bit i (unat w))"
    by (auto simp: bit_eq_iff bit_simps bit_iff_odd_drop_bit [symmetric])
  then obtain q where high: "drop_bit i (unat w) = 2 * q + 1" by (auto elim: oddE)
  have "unat w = push_bit i (drop_bit i (unat w)) + take_bit i (unat w)"
    by (rule bits_ident [symmetric])
  also have "\<dots> = 2 ^ i * (2 * q + 1)"
    by (simp only: low high push_bit_eq_mult add_0_right mult.commute [of "2 * q + 1"])
  finally have q: "unat w = 2 ^ i * (2 * q + 1)" .
  have pred: "unat (w - 1) = unat w - 1"
    using False by (rule unat_minus_one)
  have "unat (w AND (w - 1)) = unat w AND unat (w - 1)"
    by (rule unsigned_and_eq)
  also have "\<dots> = 2 ^ i * 2 * q"
    by (simp only: pred q nat_and_pred)
  finally have and_eq: "unat (w AND (w - 1)) = 2 ^ i * 2 * q" .
  have "Kit_WordHasOneBit w \<longleftrightarrow> unat (w AND (w - 1)) = 0"
    by (simp only: Kit_WordHasOneBit_def unat_0_iff)
  also have "\<dots> \<longleftrightarrow> q = 0"
    by (simp add: and_eq)
  also have "\<dots> \<longleftrightarrow> (\<forall>j. bit w j \<longrightarrow> j = i)"
  proof
    assume "q = 0"
    then have "unat w = 2 ^ i" using q by simp
    moreover have "bit (unat w) j = bit w j" for j
      by (simp add: bit_unsigned_iff)
    moreover have "bit (2 ^ i :: nat) j \<longleftrightarrow> j = i" for j
      by (auto simp: bit_exp_iff)
    ultimately show "\<forall>j. bit w j \<longrightarrow> j = i" by simp
  next
    assume only: "\<forall>j. bit w j \<longrightarrow> j = i"
    have "bit w j \<longleftrightarrow> j = i" for j using only i(1) by blast
    then have "unat w = 2 ^ i"
      by (intro bit_eqI) (auto simp: bit_unsigned_iff bit_exp_iff)
    then show "q = 0" using q by simp
  qed
  also have "\<dots> \<longleftrightarrow> ones w \<le> 1"
    using i(1) by (auto simp: ones_def card_le_Suc0_iff_eq dest: bit_less_32)
  finally show ?thesis .
qed (simp add: Kit_WordHasOneBit_def)

section \<open>Properties\<close>

text \<open>The branch-free count of the ones of a word is the number of its bits that are set, for all 2^32 words.\<close>

theorem Kit_WordCountOnes_correct: "Kit_WordCountOnes w = card {i. i < 32 \<and> bit w i}"
  by (simp only: Kit_WordCountOnes_ones ones_def)

text \<open>The test for a word with one bit accepts the words with at most one bit: the word 0 passes it too.\<close>

theorem Kit_WordHasOneBit_correct: "Kit_WordHasOneBit w \<longleftrightarrow> card {i. i < 32 \<and> bit w i} \<le> 1"
  by (simp only: Kit_WordHasOneBit_spec ones_def)

end
