(* ===== verification/Kit_Ops.thy ===== *)
theory Kit_Ops
  imports Kit_Count
begin

text \<open>
  The array-level inline functions of \<open>src/abc-master/src/bool/kit/kit.h\<close>: comparison, search, counting and
  the word-wise Boolean operations on truth tables, and the table of a variable.

  An output array is a value that is returned with its new contents. Every loop here reads at
  the index it writes, so the same equations hold when an input array is the output array.
\<close>

section \<open>Searching and counting\<close>

definition Kit_TruthCountOnes :: "words \<Rightarrow> nat \<Rightarrow> nat" where
  "Kit_TruthCountOnes pIn nVars =
     for_down (Kit_TruthWordNum nVars) (\<lambda>w Counter. Counter + Kit_WordCountOnes (pIn ! w)) 0"

definition Kit_TruthFindFirstBit :: "words \<Rightarrow> nat \<Rightarrow> int" where
  "Kit_TruthFindFirstBit pIn nVars =
     (case find (\<lambda>w. pIn ! w \<noteq> 0) [0..<Kit_TruthWordNum nVars] of
        Some w \<Rightarrow> 32 * int w + Kit_WordFindFirstBit (pIn ! w)
      | None \<Rightarrow> -1)"

definition Kit_TruthFindFirstZero :: "words \<Rightarrow> nat \<Rightarrow> int" where
  "Kit_TruthFindFirstZero pIn nVars =
     (case find (\<lambda>w. NOT (pIn ! w) \<noteq> 0) [0..<Kit_TruthWordNum nVars] of
        Some w \<Rightarrow> 32 * int w + Kit_WordFindFirstBit (NOT (pIn ! w))
      | None \<Rightarrow> -1)"

section \<open>Comparison\<close>

definition Kit_TruthIsEqual :: "words \<Rightarrow> words \<Rightarrow> nat \<Rightarrow> bool" where
  "Kit_TruthIsEqual pIn0 pIn1 nVars =
     (\<not> any_down (Kit_TruthWordNum nVars) (\<lambda>w. pIn0 ! w \<noteq> pIn1 ! w))"

definition Kit_TruthIsEqualWithCare :: "words \<Rightarrow> words \<Rightarrow> words \<Rightarrow> nat \<Rightarrow> bool" where
  "Kit_TruthIsEqualWithCare pIn0 pIn1 pCare nVars =
     (\<not> any_down (Kit_TruthWordNum nVars) (\<lambda>w. (pIn0 ! w AND pCare ! w) \<noteq> (pIn1 ! w AND pCare ! w)))"

definition Kit_TruthIsOpposite :: "words \<Rightarrow> words \<Rightarrow> nat \<Rightarrow> bool" where
  "Kit_TruthIsOpposite pIn0 pIn1 nVars =
     (\<not> any_down (Kit_TruthWordNum nVars) (\<lambda>w. pIn0 ! w \<noteq> NOT (pIn1 ! w)))"

definition Kit_TruthIsEqualWithPhase :: "words \<Rightarrow> words \<Rightarrow> nat \<Rightarrow> bool" where
  "Kit_TruthIsEqualWithPhase pIn0 pIn1 nVars =
     (if (pIn0 ! 0 AND 1) = (pIn1 ! 0 AND 1)
      then \<not> any_down (Kit_TruthWordNum nVars) (\<lambda>w. pIn0 ! w \<noteq> pIn1 ! w)
      else \<not> any_down (Kit_TruthWordNum nVars) (\<lambda>w. pIn0 ! w \<noteq> NOT (pIn1 ! w)))"

definition Kit_TruthIsConst0 :: "words \<Rightarrow> nat \<Rightarrow> bool" where
  "Kit_TruthIsConst0 pIn nVars = (\<not> any_down (Kit_TruthWordNum nVars) (\<lambda>w. pIn ! w \<noteq> 0))"

definition Kit_TruthIsConst1 :: "words \<Rightarrow> nat \<Rightarrow> bool" where
  "Kit_TruthIsConst1 pIn nVars = (\<not> any_down (Kit_TruthWordNum nVars) (\<lambda>w. pIn ! w \<noteq> NOT 0))"

definition Kit_TruthIsImply :: "words \<Rightarrow> words \<Rightarrow> nat \<Rightarrow> bool" where
  "Kit_TruthIsImply pIn1 pIn2 nVars =
     (\<not> any_down (Kit_TruthWordNum nVars) (\<lambda>w. (pIn1 ! w AND NOT (pIn2 ! w)) \<noteq> 0))"

definition Kit_TruthIsDisjoint :: "words \<Rightarrow> words \<Rightarrow> nat \<Rightarrow> bool" where
  "Kit_TruthIsDisjoint pIn1 pIn2 nVars =
     (\<not> any_down (Kit_TruthWordNum nVars) (\<lambda>w. (pIn1 ! w AND pIn2 ! w) \<noteq> 0))"

definition Kit_TruthIsDisjoint3 :: "words \<Rightarrow> words \<Rightarrow> words \<Rightarrow> nat \<Rightarrow> bool" where
  "Kit_TruthIsDisjoint3 pIn1 pIn2 pIn3 nVars =
     (\<not> any_down (Kit_TruthWordNum nVars) (\<lambda>w. (pIn1 ! w AND pIn2 ! w AND pIn3 ! w) \<noteq> 0))"

section \<open>Word-wise operations\<close>

definition Kit_TruthCopy :: "words \<Rightarrow> words \<Rightarrow> nat \<Rightarrow> words" where
  "Kit_TruthCopy pOut pIn nVars =
     for_down (Kit_TruthWordNum nVars) (\<lambda>w pOut. pOut[w := pIn ! w]) pOut"

definition Kit_TruthClear :: "words \<Rightarrow> nat \<Rightarrow> words" where
  "Kit_TruthClear pOut nVars =
     for_down (Kit_TruthWordNum nVars) (\<lambda>w pOut. pOut[w := 0]) pOut"

definition Kit_TruthFill :: "words \<Rightarrow> nat \<Rightarrow> words" where
  "Kit_TruthFill pOut nVars =
     for_down (Kit_TruthWordNum nVars) (\<lambda>w pOut. pOut[w := NOT 0]) pOut"

definition Kit_TruthNot :: "words \<Rightarrow> words \<Rightarrow> nat \<Rightarrow> words" where
  "Kit_TruthNot pOut pIn nVars =
     for_down (Kit_TruthWordNum nVars) (\<lambda>w pOut. pOut[w := NOT (pIn ! w)]) pOut"

definition Kit_TruthAnd :: "words \<Rightarrow> words \<Rightarrow> words \<Rightarrow> nat \<Rightarrow> words" where
  "Kit_TruthAnd pOut pIn0 pIn1 nVars =
     for_down (Kit_TruthWordNum nVars) (\<lambda>w pOut. pOut[w := pIn0 ! w AND pIn1 ! w]) pOut"

definition Kit_TruthOr :: "words \<Rightarrow> words \<Rightarrow> words \<Rightarrow> nat \<Rightarrow> words" where
  "Kit_TruthOr pOut pIn0 pIn1 nVars =
     for_down (Kit_TruthWordNum nVars) (\<lambda>w pOut. pOut[w := pIn0 ! w OR pIn1 ! w]) pOut"

definition Kit_TruthXor :: "words \<Rightarrow> words \<Rightarrow> words \<Rightarrow> nat \<Rightarrow> words" where
  "Kit_TruthXor pOut pIn0 pIn1 nVars =
     for_down (Kit_TruthWordNum nVars) (\<lambda>w pOut. pOut[w := pIn0 ! w XOR pIn1 ! w]) pOut"

definition Kit_TruthSharp :: "words \<Rightarrow> words \<Rightarrow> words \<Rightarrow> nat \<Rightarrow> words" where
  "Kit_TruthSharp pOut pIn0 pIn1 nVars =
     for_down (Kit_TruthWordNum nVars) (\<lambda>w pOut. pOut[w := pIn0 ! w AND NOT (pIn1 ! w)]) pOut"

definition Kit_TruthNand :: "words \<Rightarrow> words \<Rightarrow> words \<Rightarrow> nat \<Rightarrow> words" where
  "Kit_TruthNand pOut pIn0 pIn1 nVars =
     for_down (Kit_TruthWordNum nVars) (\<lambda>w pOut. pOut[w := NOT (pIn0 ! w AND pIn1 ! w)]) pOut"

definition Kit_TruthAndPhase :: "words \<Rightarrow> words \<Rightarrow> words \<Rightarrow> nat \<Rightarrow> bool \<Rightarrow> bool \<Rightarrow> words" where
  "Kit_TruthAndPhase pOut pIn0 pIn1 nVars fCompl0 fCompl1 =
    (if fCompl0 \<and> fCompl1 then
       for_down (Kit_TruthWordNum nVars) (\<lambda>w pOut. pOut[w := NOT (pIn0 ! w OR pIn1 ! w)]) pOut
     else if fCompl0 \<and> \<not> fCompl1 then
       for_down (Kit_TruthWordNum nVars) (\<lambda>w pOut. pOut[w := NOT (pIn0 ! w) AND pIn1 ! w]) pOut
     else if \<not> fCompl0 \<and> fCompl1 then
       for_down (Kit_TruthWordNum nVars) (\<lambda>w pOut. pOut[w := pIn0 ! w AND NOT (pIn1 ! w)]) pOut
     else
       for_down (Kit_TruthWordNum nVars) (\<lambda>w pOut. pOut[w := pIn0 ! w AND pIn1 ! w]) pOut)"

definition Kit_TruthOrPhase :: "words \<Rightarrow> words \<Rightarrow> words \<Rightarrow> nat \<Rightarrow> bool \<Rightarrow> bool \<Rightarrow> words" where
  "Kit_TruthOrPhase pOut pIn0 pIn1 nVars fCompl0 fCompl1 =
    (if fCompl0 \<and> fCompl1 then
       for_down (Kit_TruthWordNum nVars) (\<lambda>w pOut. pOut[w := NOT (pIn0 ! w AND pIn1 ! w)]) pOut
     else if fCompl0 \<and> \<not> fCompl1 then
       for_down (Kit_TruthWordNum nVars) (\<lambda>w pOut. pOut[w := NOT (pIn0 ! w) OR pIn1 ! w]) pOut
     else if \<not> fCompl0 \<and> fCompl1 then
       for_down (Kit_TruthWordNum nVars) (\<lambda>w pOut. pOut[w := pIn0 ! w OR NOT (pIn1 ! w)]) pOut
     else
       for_down (Kit_TruthWordNum nVars) (\<lambda>w pOut. pOut[w := pIn0 ! w OR pIn1 ! w]) pOut)"

definition Kit_TruthMux :: "words \<Rightarrow> words \<Rightarrow> words \<Rightarrow> words \<Rightarrow> nat \<Rightarrow> words" where
  "Kit_TruthMux pOut pIn0 pIn1 pCtrl nVars =
     for_down (Kit_TruthWordNum nVars)
       (\<lambda>w pOut. pOut[w := (pIn0 ! w AND NOT (pCtrl ! w)) OR (pIn1 ! w AND pCtrl ! w)]) pOut"

definition Kit_TruthMuxPhase :: "words \<Rightarrow> words \<Rightarrow> words \<Rightarrow> words \<Rightarrow> nat \<Rightarrow> bool \<Rightarrow> words" where
  "Kit_TruthMuxPhase pOut pIn0 pIn1 pCtrl nVars fComp0 =
    (if fComp0 then
       for_down (Kit_TruthWordNum nVars)
         (\<lambda>w pOut. pOut[w := (NOT (pIn0 ! w) AND NOT (pCtrl ! w)) OR (pIn1 ! w AND pCtrl ! w)]) pOut
     else
       for_down (Kit_TruthWordNum nVars)
         (\<lambda>w pOut. pOut[w := (pIn0 ! w AND NOT (pCtrl ! w)) OR (pIn1 ! w AND pCtrl ! w)]) pOut)"

text \<open>The masks of the variables 0 to 4, written out at every use in the code.\<close>

definition var_masks :: "u32 list" where
  "var_masks = [0xAAAAAAAA, 0xCCCCCCCC, 0xF0F0F0F0, 0xFF00FF00, 0xFFFF0000]"

definition Kit_TruthIthVar :: "words \<Rightarrow> nat \<Rightarrow> nat \<Rightarrow> words" where
  "Kit_TruthIthVar pTruth nVars iVar =
    (let nWords = (if nVars \<le> 5 then 1 else 2 ^ (nVars - 5)) in
     if iVar < 5 then
       for_up nWords (\<lambda>k pTruth. pTruth[k := var_masks ! iVar]) pTruth
     else
       for_up nWords (\<lambda>k pTruth.
         if (k AND push_bit (iVar - 5) 1) \<noteq> 0 then pTruth[k := NOT 0] else pTruth[k := 0]) pTruth)"

section \<open>The contract of the word-wise loops\<close>

lemma length_for_down_words [simp]:
  "length (for_down n (\<lambda>w p. p[w := F w]) p) = length p"
  by simp

lemma tt_bit_for_down:
  "tt_ok p n \<Longrightarrow> m < tt_size n \<Longrightarrow>
   tt_bit (for_down (Kit_TruthWordNum n) (\<lambda>w p. p[w := F w]) p) m = bit (F (m div 32)) (m mod 32)"
  by (simp add: tt_bit_def tt_ok_def tt_size_word)

lemma bit_NOT_u32 [simp]: "b < 32 \<Longrightarrow> bit (NOT (w :: u32)) b \<longleftrightarrow> \<not> bit w b"
  by (simp add: bit_simps)

lemma mod_32_less [simp]: "(m::nat) mod 32 < 32"
  by simp

lemmas kit_op_defs = Kit_TruthCopy_def Kit_TruthClear_def Kit_TruthFill_def Kit_TruthNot_def
  Kit_TruthAnd_def Kit_TruthOr_def Kit_TruthXor_def Kit_TruthSharp_def Kit_TruthNand_def
  Kit_TruthAndPhase_def Kit_TruthOrPhase_def Kit_TruthMux_def Kit_TruthMuxPhase_def

lemma length_kit_ops [simp]:
  "length (Kit_TruthCopy p a n) = length p" "length (Kit_TruthClear p n) = length p"
  "length (Kit_TruthFill p n) = length p" "length (Kit_TruthNot p a n) = length p"
  "length (Kit_TruthAnd p a b n) = length p" "length (Kit_TruthOr p a b n) = length p"
  "length (Kit_TruthXor p a b n) = length p" "length (Kit_TruthSharp p a b n) = length p"
  "length (Kit_TruthNand p a b n) = length p" "length (Kit_TruthAndPhase p a b n c d) = length p"
  "length (Kit_TruthOrPhase p a b n c d) = length p" "length (Kit_TruthMux p a b e n) = length p"
  "length (Kit_TruthMuxPhase p a b e n c) = length p"
  by (simp_all add: kit_op_defs)

lemma tt_ok_kit_ops [simp]:
  "tt_ok (Kit_TruthCopy p a n) k = tt_ok p k" "tt_ok (Kit_TruthClear p n) k = tt_ok p k"
  "tt_ok (Kit_TruthFill p n) k = tt_ok p k" "tt_ok (Kit_TruthNot p a n) k = tt_ok p k"
  "tt_ok (Kit_TruthAnd p a b n) k = tt_ok p k" "tt_ok (Kit_TruthOr p a b n) k = tt_ok p k"
  "tt_ok (Kit_TruthSharp p a b n) k = tt_ok p k" "tt_ok (Kit_TruthXor p a b n) k = tt_ok p k"
  by (simp_all add: tt_ok_def)

lemma tt_bit_kit_ops:
  assumes "tt_ok p n" "m < tt_size n"
  shows "tt_bit (Kit_TruthCopy p a n) m = tt_bit a m"
    and "\<not> tt_bit (Kit_TruthClear p n) m"
    and "tt_bit (Kit_TruthFill p n) m"
    and "tt_bit (Kit_TruthNot p a n) m \<longleftrightarrow> \<not> tt_bit a m"
    and "tt_bit (Kit_TruthAnd p a b n) m \<longleftrightarrow> tt_bit a m \<and> tt_bit b m"
    and "tt_bit (Kit_TruthOr p a b n) m \<longleftrightarrow> tt_bit a m \<or> tt_bit b m"
    and "tt_bit (Kit_TruthXor p a b n) m \<longleftrightarrow> tt_bit a m \<noteq> tt_bit b m"
    and "tt_bit (Kit_TruthSharp p a b n) m \<longleftrightarrow> tt_bit a m \<and> \<not> tt_bit b m"
    and "tt_bit (Kit_TruthNand p a b n) m \<longleftrightarrow> \<not> (tt_bit a m \<and> tt_bit b m)"
    and "tt_bit (Kit_TruthAndPhase p a b n c d) m \<longleftrightarrow> (tt_bit a m \<noteq> c) \<and> (tt_bit b m \<noteq> d)"
    and "tt_bit (Kit_TruthOrPhase p a b n c d) m \<longleftrightarrow> (tt_bit a m \<noteq> c) \<or> (tt_bit b m \<noteq> d)"
    and "tt_bit (Kit_TruthMux p a b e n) m \<longleftrightarrow> (if tt_bit e m then tt_bit b m else tt_bit a m)"
    and "tt_bit (Kit_TruthMuxPhase p a b e n c) m \<longleftrightarrow> (if tt_bit e m then tt_bit b m else tt_bit a m \<noteq> c)"
  by (auto simp: kit_op_defs tt_bit_for_down [OF assms] tt_bit_def [of a] tt_bit_def [of b] tt_bit_def [of e] bit_simps)

section \<open>Comparison is comparison of Boolean functions\<close>

lemma all_words_bits:
  "(\<forall>w<Kit_TruthWordNum n. \<forall>b<32. P w b) \<longleftrightarrow> (\<forall>m<tt_size n. P (m div 32) (m mod 32))"
proof (safe)
  fix m assume "\<forall>w<Kit_TruthWordNum n. \<forall>b<32. P w b" "m < tt_size n"
  then show "P (m div 32) (m mod 32)" by (simp add: tt_size_word)
next
  fix w b :: nat
  assume a: "\<forall>m<tt_size n. P (m div 32) (m mod 32)" "w < Kit_TruthWordNum n" "b < 32"
  then have "(32 * w + b) div 32 = w" "(32 * w + b) mod 32 = b" by auto
  with a show "P w b"
    by (metis tt_size_word)
qed

lemma Kit_TruthIsEqual_iff:
  "Kit_TruthIsEqual p q n \<longleftrightarrow> (\<forall>m<tt_size n. tt_bit p m = tt_bit q m)"
  by (simp add: Kit_TruthIsEqual_def u32_eq_iff tt_bit_def all_words_bits)

lemma Kit_TruthIsEqualWithCare_iff:
  "Kit_TruthIsEqualWithCare p q c n \<longleftrightarrow> (\<forall>m<tt_size n. tt_bit c m \<longrightarrow> tt_bit p m = tt_bit q m)"
  by (auto simp: Kit_TruthIsEqualWithCare_def u32_eq_iff bit_simps tt_bit_def all_words_bits)

lemma Kit_TruthIsOpposite_iff:
  "Kit_TruthIsOpposite p q n \<longleftrightarrow> (\<forall>m<tt_size n. tt_bit p m \<noteq> tt_bit q m)"
  by (auto simp: Kit_TruthIsOpposite_def u32_eq_iff tt_bit_def all_words_bits)

lemma Kit_TruthIsConst0_iff: "Kit_TruthIsConst0 p n \<longleftrightarrow> (\<forall>m<tt_size n. \<not> tt_bit p m)"
  by (simp add: Kit_TruthIsConst0_def u32_eq_iff tt_bit_def all_words_bits)

lemma Kit_TruthIsConst1_iff: "Kit_TruthIsConst1 p n \<longleftrightarrow> (\<forall>m<tt_size n. tt_bit p m)"
  by (simp add: Kit_TruthIsConst1_def u32_eq_iff tt_bit_def all_words_bits)

lemma Kit_TruthIsImply_iff: "Kit_TruthIsImply p q n \<longleftrightarrow> (\<forall>m<tt_size n. tt_bit p m \<longrightarrow> tt_bit q m)"
  using all_words_bits [of n "\<lambda>w b. bit (p ! w) b \<longrightarrow> bit (q ! w) b"]
  by (auto simp: Kit_TruthIsImply_def u32_eq_iff bit_simps tt_bit_def)

lemma Kit_TruthIsDisjoint_iff:
  "Kit_TruthIsDisjoint p q n \<longleftrightarrow> (\<forall>m<tt_size n. \<not> (tt_bit p m \<and> tt_bit q m))"
  using all_words_bits [of n "\<lambda>w b. \<not> (bit (p ! w) b \<and> bit (q ! w) b)"]
  by (auto simp: Kit_TruthIsDisjoint_def u32_eq_iff bit_simps tt_bit_def)

lemma Kit_TruthIsDisjoint3_iff:
  "Kit_TruthIsDisjoint3 p q r n \<longleftrightarrow> (\<forall>m<tt_size n. \<not> (tt_bit p m \<and> tt_bit q m \<and> tt_bit r m))"
  using all_words_bits [of n "\<lambda>w b. \<not> (bit (p ! w) b \<and> bit (q ! w) b \<and> bit (r ! w) b)"]
  by (auto simp: Kit_TruthIsDisjoint3_def u32_eq_iff bit_simps tt_bit_def)

lemma word_and_1_eq: "((v :: u32) AND 1) = (w AND 1) \<longleftrightarrow> bit v 0 = bit w 0"
  by (auto simp: u32_eq_iff bit_simps dest: spec [of _ 0])

text \<open>
  Equality up to complement: the phase is decided at minterm 0, so the two loops together accept
  exactly the equal and the opposite functions.
\<close>

lemma Kit_TruthIsEqualWithPhase_iff:
  "Kit_TruthIsEqualWithPhase p q n \<longleftrightarrow>
     (\<forall>m<tt_size n. tt_bit p m = tt_bit q m) \<or> (\<forall>m<tt_size n. tt_bit p m \<noteq> tt_bit q m)"
proof -
  have "0 < tt_size n" by (simp add: tt_size_def)
  moreover have "(p ! 0 AND 1) = (q ! 0 AND 1) \<longleftrightarrow> tt_bit p 0 = tt_bit q 0"
    by (simp add: word_and_1_eq tt_bit_def)
  ultimately show ?thesis
    using Kit_TruthIsEqual_iff [of p q n] Kit_TruthIsOpposite_iff [of p q n]
    unfolding Kit_TruthIsEqualWithPhase_def Kit_TruthIsEqual_def Kit_TruthIsOpposite_def
    by (cases "tt_bit p 0 = tt_bit q 0") auto
qed

section \<open>Counting and searching minterms\<close>

lemma card_div_mod_32:
  "card {m. m < 32 * n \<and> Q (m div 32) (m mod 32)} = (\<Sum>w<(n::nat). card {b. b < 32 \<and> Q w b})"
proof (induction n)
  case (Suc n)
  have "{m. m < 32 * Suc n \<and> Q (m div 32) (m mod 32)} =
      {m. m < 32 * n \<and> Q (m div 32) (m mod 32)} \<union> (\<lambda>b. 32 * n + b) ` {b. b < 32 \<and> Q n b}"
    (is "?A = ?B \<union> ?C")
  proof (rule set_eqI)
    fix m
    show "m \<in> ?A \<longleftrightarrow> m \<in> ?B \<union> ?C"
    proof (cases "m < 32 * n")
      case False
      then obtain b where b: "m = 32 * n + b" using le_Suc_ex not_less by blast
      have "(32 * n + b) div 32 = n \<and> (32 * n + b) mod 32 = b" if "b < 32"
        using that by simp
      then show ?thesis by (auto simp: b)
    qed auto
  qed
  moreover have "?B \<inter> ?C = {}" by auto
  moreover have "card ?C = card {b. b < 32 \<and> Q n b}" by (simp add: card_image)
  ultimately show ?case using Suc by (simp add: card_Un_disjoint)
qed simp

lemma card_by_words: "card {m. m < 32 * n \<and> tt_bit p m} = (\<Sum>w<n. ones (p ! w))"
  by (simp add: tt_bit_def ones_def card_div_mod_32 [of n "\<lambda>w b. bit (p ! w) b"])

lemma for_down_sum: "for_down n (\<lambda>w c. c + f w) a = a + (\<Sum>w<n. f w :: nat)"
  by (induction n arbitrary: a) auto

lemma for_up_sum: "for_up n (\<lambda>w c. c + f w) a = a + (\<Sum>w<n. f w :: nat)"
  by (induction n) auto

theorem Kit_TruthCountOnes_card:
  "Kit_TruthCountOnes p n = card {m. m < tt_size n \<and> tt_bit p m}"
  by (simp add: Kit_TruthCountOnes_def for_down_sum Kit_WordCountOnes_ones tt_size_def card_by_words)

lemma Least_word:
  assumes w: "w < n" "p ! w \<noteq> 0" "\<And>v. v < w \<Longrightarrow> p ! v = 0"
  shows "(LEAST m. tt_bit p m) = 32 * w + (LEAST b. bit (p ! w) b)"
proof (rule Least_equality)
  obtain k where k: "k < 32" "bit (p ! w) k" using w(2) by (auto simp: word_nonzero_bit)
  define b where "b = (LEAST b. bit (p ! w) b)"
  have b: "bit (p ! w) b" "b < 32"
    using LeastI [of "bit (p ! w)", OF k(2)] by (auto simp: b_def dest: bit_less_32)
  then have "(32 * w + b) div 32 = w" "(32 * w + b) mod 32 = b" by auto
  then show "tt_bit p (32 * w + (LEAST b. bit (p ! w) b))"
    using b by (simp add: tt_bit_def flip: b_def)
  fix m assume m: "tt_bit p m"
  have "w \<le> m div 32"
  proof (rule ccontr)
    assume "\<not> w \<le> m div 32"
    then have "p ! (m div 32) = 0" by (intro w(3)) simp
    with m show False by (simp add: tt_bit_def)
  qed
  moreover have "b \<le> m mod 32" if "m div 32 = w"
    using m that by (auto simp: b_def tt_bit_def intro: Least_le)
  ultimately show "32 * w + (LEAST b. bit (p ! w) b) \<le> m"
    unfolding b_def [symmetric]
    using b(2) div_mult_mod_eq [of m 32] by (cases "m div 32 = w") (simp, linarith)+
qed

theorem Kit_TruthFindFirstBit_spec:
  "Kit_TruthFindFirstBit p n =
    (if \<forall>m<tt_size n. \<not> tt_bit p m then -1 else int (LEAST m. tt_bit p m))"
proof (cases "find (\<lambda>w. p ! w \<noteq> 0) [0..<Kit_TruthWordNum n]")
  case None
  then have "Kit_TruthIsConst0 p n" by (auto simp: Kit_TruthIsConst0_def find_None_iff)
  then show ?thesis using None by (auto simp: Kit_TruthFindFirstBit_def Kit_TruthIsConst0_iff)
next
  case (Some w)
  then have w: "w < Kit_TruthWordNum n" "p ! w \<noteq> 0" "\<And>v. v < w \<Longrightarrow> p ! v = 0"
    by (auto simp: find_Some_iff)
  then have "\<not> Kit_TruthIsConst0 p n" by (auto simp: Kit_TruthIsConst0_def)
  then show ?thesis
    using Some w Least_word [OF w]
    by (auto simp: Kit_TruthFindFirstBit_def Kit_TruthIsConst0_iff Kit_WordFindFirstBit_spec)
qed

lemma Kit_TruthFindFirstZero_NOT:
  "Kit_TruthWordNum n \<le> length p \<Longrightarrow> Kit_TruthFindFirstZero p n = Kit_TruthFindFirstBit (map (NOT) p) n"
proof -
  assume len: "Kit_TruthWordNum n \<le> length p"
  have "find (\<lambda>w. NOT (p ! w) \<noteq> 0) [0..<Kit_TruthWordNum n] =
      find (\<lambda>w. map (NOT) p ! w \<noteq> 0) [0..<Kit_TruthWordNum n]"
    using len by (intro find_cong) auto
  moreover have "w < length p" if "find (\<lambda>w. map (NOT) p ! w \<noteq> 0) [0..<Kit_TruthWordNum n] = Some w" for w
    using that len by (auto simp: find_Some_iff)
  ultimately show ?thesis
    unfolding Kit_TruthFindFirstZero_def Kit_TruthFindFirstBit_def
    by (auto split: option.split)
qed

section \<open>The table of a variable\<close>

lemma var_masks_bit [mask_simps]: "v < 5 \<Longrightarrow> bit (var_masks ! v) b \<longleftrightarrow> b < 32 \<and> bit b v"
proof -
  have "list_all (\<lambda>v. list_all (\<lambda>b. bit (var_masks ! v) b = bit b v) [0..<32]) [0..<5]"
    by code_simp
  then show "v < 5 \<Longrightarrow> bit (var_masks ! v) b \<longleftrightarrow> b < 32 \<and> bit b v"
    using bit_less_32 by (cases "b < 32") (auto simp: list_all_iff)
qed

lemma nat_and_exp_eq_0 [simp]: "(k AND 2 ^ v :: nat) = 0 \<longleftrightarrow> \<not> bit k v"
proof -
  have "(k AND 2 ^ v :: nat) = (if bit k v then 2 ^ v else 0)"
    by (rule bit_eqI) (auto simp: bit_simps)
  then show ?thesis by simp
qed

theorem tt_bit_Kit_TruthIthVar:
  assumes "tt_ok p n" "m < tt_size n"
  shows "tt_bit (Kit_TruthIthVar p n v) m = bit m v"
proof -
  have n: "(if n \<le> 5 then 1 else 2 ^ (n - 5)) = Kit_TruthWordNum n"
    by (simp add: Kit_TruthWordNum_def)
  have upd: "(\<lambda>k p. if bit k (v - 5) then p[k := NOT 0] else p[k := 0]) =
      (\<lambda>k p. p[k := (if bit k (v - 5) then NOT 0 else 0 :: u32)])"
    by (auto simp: fun_eq_iff)
  show ?thesis
    using assms by (auto simp: Kit_TruthIthVar_def Let_def n upd tt_bit_def tt_ok_def tt_size_word var_masks_bit)
qed

section \<open>Properties\<close>

text \<open>The comparison that ignores the phase holds exactly for tables of equal or of opposite functions.\<close>

theorem Kit_TruthIsEqualWithPhase_correct:
  "Kit_TruthIsEqualWithPhase p q n \<longleftrightarrow>
     (\<forall>m \<in> {..<tt_size n}. tt_bit p m = tt_bit q m) \<or> (\<forall>m \<in> {..<tt_size n}. tt_bit p m \<noteq> tt_bit q m)"
  by (simp add: Kit_TruthIsEqualWithPhase_iff Ball_def)

theorem Kit_TruthIsEqualWithPhase_witness: "\<not> Kit_TruthIsEqualWithPhase [0x5] [0x4] 5"
proof -
  have "0 < tt_size 5" "1 < tt_size 5" "tt_bit [0x5] 0 \<noteq> tt_bit [0x4] 0" "tt_bit [0x5] 1 = tt_bit [0x4] 1"
    by code_simp+
  then show ?thesis using Kit_TruthIsEqualWithPhase_correct [of "[0x5]" "[0x4]" 5] by blast
qed

text \<open>
  The search for the first one of a table gives the least minterm of the function, or -1 when
  the function is constant 0; the search for the first zero is the same search on the complement.
\<close>

theorem Kit_TruthFindFirst_correct:
  assumes "tt_ok p n"
  shows "Kit_TruthFindFirstBit p n =
      (if \<exists>m<tt_size n. tt_bit p m then int (LEAST m. tt_bit p m) else -1) \<and>
    Kit_TruthFindFirstZero p n = Kit_TruthFindFirstBit (map (NOT) p) n"
  using Kit_TruthFindFirstBit_spec [of p n] Kit_TruthFindFirstZero_NOT [of n p] assms
  by (auto simp: tt_ok_def)

theorem Kit_TruthFindFirst_witness:
  "Kit_TruthFindFirstBit [0, 0x10] 6 = int (LEAST m. tt_bit [0, 0x10] m)"
proof -
  have "tt_bit [0, 0x10] 36" "36 < tt_size 6" by code_simp+
  then show ?thesis using Kit_TruthFindFirst_correct [of "[0, 0x10]" 6] by (auto simp: tt_ok_def Kit_TruthWordNum_def)
qed

end
