(* ===== verification/Kit_Truth.thy ===== *)
theory Kit_Truth
  imports Kit_Ops
begin

text \<open>
  Operations on one variable of a truth table (\<open>src/abc-master/src/bool/kit/kitTruth.c\<close>): cofactors,
  quantification, Boolean difference, multiplexing, complementing a variable, and the tests and
  counts that depend on one variable. Each definition has the switch of the code: five cases
  with a mask and a shift for the variables inside a word, and the loop nest over pairs of words
  for the others. Each operation is then specified by one equation over minterms that does not
  mention the case.

  The variants with a separate output array are used by the code on arrays that do not overlap. The
  assertion \<open>iVar < nVars\<close> at the start of each function is the hypothesis \<open>v < n\<close> of its equation.
\<close>

section \<open>Cofactors\<close>

definition Kit_TruthCofactor0 :: "words \<Rightarrow> nat \<Rightarrow> nat \<Rightarrow> words" where
  "Kit_TruthCofactor0 pTruth nVars iVar =
  (let nWords = Kit_TruthWordNum nVars in
   if iVar = 0 then
     for_up nWords (\<lambda>i pTruth. pTruth[i := (pTruth ! i AND 0x55555555) OR push_bit 1 (pTruth ! i AND 0x55555555)]) pTruth
   else if iVar = 1 then
     for_up nWords (\<lambda>i pTruth. pTruth[i := (pTruth ! i AND 0x33333333) OR push_bit 2 (pTruth ! i AND 0x33333333)]) pTruth
   else if iVar = 2 then
     for_up nWords (\<lambda>i pTruth. pTruth[i := (pTruth ! i AND 0x0F0F0F0F) OR push_bit 4 (pTruth ! i AND 0x0F0F0F0F)]) pTruth
   else if iVar = 3 then
     for_up nWords (\<lambda>i pTruth. pTruth[i := (pTruth ! i AND 0x00FF00FF) OR push_bit 8 (pTruth ! i AND 0x00FF00FF)]) pTruth
   else if iVar = 4 then
     for_up nWords (\<lambda>i pTruth. pTruth[i := (pTruth ! i AND 0x0000FFFF) OR push_bit 16 (pTruth ! i AND 0x0000FFFF)]) pTruth
   else (let Step = 2 ^ (iVar - 5) in
     for_pairs nWords Step (\<lambda>lo hi pTruth. pTruth[hi := pTruth ! lo]) pTruth))"

definition Kit_TruthCofactor1 :: "words \<Rightarrow> nat \<Rightarrow> nat \<Rightarrow> words" where
  "Kit_TruthCofactor1 pTruth nVars iVar =
  (let nWords = Kit_TruthWordNum nVars in
   if iVar = 0 then
     for_up nWords (\<lambda>i pTruth. pTruth[i := (pTruth ! i AND 0xAAAAAAAA) OR drop_bit 1 (pTruth ! i AND 0xAAAAAAAA)]) pTruth
   else if iVar = 1 then
     for_up nWords (\<lambda>i pTruth. pTruth[i := (pTruth ! i AND 0xCCCCCCCC) OR drop_bit 2 (pTruth ! i AND 0xCCCCCCCC)]) pTruth
   else if iVar = 2 then
     for_up nWords (\<lambda>i pTruth. pTruth[i := (pTruth ! i AND 0xF0F0F0F0) OR drop_bit 4 (pTruth ! i AND 0xF0F0F0F0)]) pTruth
   else if iVar = 3 then
     for_up nWords (\<lambda>i pTruth. pTruth[i := (pTruth ! i AND 0xFF00FF00) OR drop_bit 8 (pTruth ! i AND 0xFF00FF00)]) pTruth
   else if iVar = 4 then
     for_up nWords (\<lambda>i pTruth. pTruth[i := (pTruth ! i AND 0xFFFF0000) OR drop_bit 16 (pTruth ! i AND 0xFFFF0000)]) pTruth
   else (let Step = 2 ^ (iVar - 5) in
     for_pairs nWords Step (\<lambda>lo hi pTruth. pTruth[lo := pTruth ! hi]) pTruth))"

definition Kit_TruthCofactor0New :: "words \<Rightarrow> words \<Rightarrow> nat \<Rightarrow> nat \<Rightarrow> words" where
  "Kit_TruthCofactor0New pOut pIn nVars iVar =
  (let nWords = Kit_TruthWordNum nVars in
   if iVar = 0 then
     for_up nWords (\<lambda>i pOut. pOut[i := (pIn ! i AND 0x55555555) OR push_bit 1 (pIn ! i AND 0x55555555)]) pOut
   else if iVar = 1 then
     for_up nWords (\<lambda>i pOut. pOut[i := (pIn ! i AND 0x33333333) OR push_bit 2 (pIn ! i AND 0x33333333)]) pOut
   else if iVar = 2 then
     for_up nWords (\<lambda>i pOut. pOut[i := (pIn ! i AND 0x0F0F0F0F) OR push_bit 4 (pIn ! i AND 0x0F0F0F0F)]) pOut
   else if iVar = 3 then
     for_up nWords (\<lambda>i pOut. pOut[i := (pIn ! i AND 0x00FF00FF) OR push_bit 8 (pIn ! i AND 0x00FF00FF)]) pOut
   else if iVar = 4 then
     for_up nWords (\<lambda>i pOut. pOut[i := (pIn ! i AND 0x0000FFFF) OR push_bit 16 (pIn ! i AND 0x0000FFFF)]) pOut
   else (let Step = 2 ^ (iVar - 5) in
     for_pairs nWords Step (\<lambda>lo hi pOut. pOut[hi := pIn ! lo, lo := pIn ! lo]) pOut))"

definition Kit_TruthCofactor1New :: "words \<Rightarrow> words \<Rightarrow> nat \<Rightarrow> nat \<Rightarrow> words" where
  "Kit_TruthCofactor1New pOut pIn nVars iVar =
  (let nWords = Kit_TruthWordNum nVars in
   if iVar = 0 then
     for_up nWords (\<lambda>i pOut. pOut[i := (pIn ! i AND 0xAAAAAAAA) OR drop_bit 1 (pIn ! i AND 0xAAAAAAAA)]) pOut
   else if iVar = 1 then
     for_up nWords (\<lambda>i pOut. pOut[i := (pIn ! i AND 0xCCCCCCCC) OR drop_bit 2 (pIn ! i AND 0xCCCCCCCC)]) pOut
   else if iVar = 2 then
     for_up nWords (\<lambda>i pOut. pOut[i := (pIn ! i AND 0xF0F0F0F0) OR drop_bit 4 (pIn ! i AND 0xF0F0F0F0)]) pOut
   else if iVar = 3 then
     for_up nWords (\<lambda>i pOut. pOut[i := (pIn ! i AND 0xFF00FF00) OR drop_bit 8 (pIn ! i AND 0xFF00FF00)]) pOut
   else if iVar = 4 then
     for_up nWords (\<lambda>i pOut. pOut[i := (pIn ! i AND 0xFFFF0000) OR drop_bit 16 (pIn ! i AND 0xFFFF0000)]) pOut
   else (let Step = 2 ^ (iVar - 5) in
     for_pairs nWords Step (\<lambda>lo hi pOut. pOut[hi := pIn ! hi, lo := pIn ! hi]) pOut))"

section \<open>Quantification\<close>

definition Kit_TruthExist :: "words \<Rightarrow> nat \<Rightarrow> nat \<Rightarrow> words" where
  "Kit_TruthExist pTruth nVars iVar =
  (let nWords = Kit_TruthWordNum nVars in
   if iVar = 0 then
     for_up nWords (\<lambda>i pTruth. pTruth[i := pTruth ! i OR (drop_bit 1 (pTruth ! i AND 0xAAAAAAAA) OR push_bit 1 (pTruth ! i AND 0x55555555))]) pTruth
   else if iVar = 1 then
     for_up nWords (\<lambda>i pTruth. pTruth[i := pTruth ! i OR (drop_bit 2 (pTruth ! i AND 0xCCCCCCCC) OR push_bit 2 (pTruth ! i AND 0x33333333))]) pTruth
   else if iVar = 2 then
     for_up nWords (\<lambda>i pTruth. pTruth[i := pTruth ! i OR (drop_bit 4 (pTruth ! i AND 0xF0F0F0F0) OR push_bit 4 (pTruth ! i AND 0x0F0F0F0F))]) pTruth
   else if iVar = 3 then
     for_up nWords (\<lambda>i pTruth. pTruth[i := pTruth ! i OR (drop_bit 8 (pTruth ! i AND 0xFF00FF00) OR push_bit 8 (pTruth ! i AND 0x00FF00FF))]) pTruth
   else if iVar = 4 then
     for_up nWords (\<lambda>i pTruth. pTruth[i := pTruth ! i OR (drop_bit 16 (pTruth ! i AND 0xFFFF0000) OR push_bit 16 (pTruth ! i AND 0x0000FFFF))]) pTruth
   else (let Step = 2 ^ (iVar - 5) in
     for_pairs nWords Step (\<lambda>lo hi pTruth.
        let pTruth = pTruth[lo := pTruth ! lo OR pTruth ! hi] in pTruth[hi := pTruth ! lo]) pTruth))"

definition Kit_TruthExistNew :: "words \<Rightarrow> words \<Rightarrow> nat \<Rightarrow> nat \<Rightarrow> words" where
  "Kit_TruthExistNew pRes pTruth nVars iVar =
  (let nWords = Kit_TruthWordNum nVars in
   if iVar = 0 then
     for_up nWords (\<lambda>i pRes. pRes[i := (pTruth ! i OR drop_bit 1 (pTruth ! i AND 0xAAAAAAAA)) OR push_bit 1 (pTruth ! i AND 0x55555555)]) pRes
   else if iVar = 1 then
     for_up nWords (\<lambda>i pRes. pRes[i := (pTruth ! i OR drop_bit 2 (pTruth ! i AND 0xCCCCCCCC)) OR push_bit 2 (pTruth ! i AND 0x33333333)]) pRes
   else if iVar = 2 then
     for_up nWords (\<lambda>i pRes. pRes[i := (pTruth ! i OR drop_bit 4 (pTruth ! i AND 0xF0F0F0F0)) OR push_bit 4 (pTruth ! i AND 0x0F0F0F0F)]) pRes
   else if iVar = 3 then
     for_up nWords (\<lambda>i pRes. pRes[i := (pTruth ! i OR drop_bit 8 (pTruth ! i AND 0xFF00FF00)) OR push_bit 8 (pTruth ! i AND 0x00FF00FF)]) pRes
   else if iVar = 4 then
     for_up nWords (\<lambda>i pRes. pRes[i := (pTruth ! i OR drop_bit 16 (pTruth ! i AND 0xFFFF0000)) OR push_bit 16 (pTruth ! i AND 0x0000FFFF)]) pRes
   else (let Step = 2 ^ (iVar - 5) in
     for_pairs nWords Step (\<lambda>lo hi pRes.
        let pRes = pRes[lo := pTruth ! lo OR pTruth ! hi] in pRes[hi := pRes ! lo]) pRes))"

definition Kit_TruthForall :: "words \<Rightarrow> nat \<Rightarrow> nat \<Rightarrow> words" where
  "Kit_TruthForall pTruth nVars iVar =
  (let nWords = Kit_TruthWordNum nVars in
   if iVar = 0 then
     for_up nWords (\<lambda>i pTruth. pTruth[i := pTruth ! i AND (drop_bit 1 (pTruth ! i AND 0xAAAAAAAA) OR push_bit 1 (pTruth ! i AND 0x55555555))]) pTruth
   else if iVar = 1 then
     for_up nWords (\<lambda>i pTruth. pTruth[i := pTruth ! i AND (drop_bit 2 (pTruth ! i AND 0xCCCCCCCC) OR push_bit 2 (pTruth ! i AND 0x33333333))]) pTruth
   else if iVar = 2 then
     for_up nWords (\<lambda>i pTruth. pTruth[i := pTruth ! i AND (drop_bit 4 (pTruth ! i AND 0xF0F0F0F0) OR push_bit 4 (pTruth ! i AND 0x0F0F0F0F))]) pTruth
   else if iVar = 3 then
     for_up nWords (\<lambda>i pTruth. pTruth[i := pTruth ! i AND (drop_bit 8 (pTruth ! i AND 0xFF00FF00) OR push_bit 8 (pTruth ! i AND 0x00FF00FF))]) pTruth
   else if iVar = 4 then
     for_up nWords (\<lambda>i pTruth. pTruth[i := pTruth ! i AND (drop_bit 16 (pTruth ! i AND 0xFFFF0000) OR push_bit 16 (pTruth ! i AND 0x0000FFFF))]) pTruth
   else (let Step = 2 ^ (iVar - 5) in
     for_pairs nWords Step (\<lambda>lo hi pTruth.
        let pTruth = pTruth[lo := pTruth ! lo AND pTruth ! hi] in pTruth[hi := pTruth ! lo]) pTruth))"

definition Kit_TruthForallNew :: "words \<Rightarrow> words \<Rightarrow> nat \<Rightarrow> nat \<Rightarrow> words" where
  "Kit_TruthForallNew pRes pTruth nVars iVar =
  (let nWords = Kit_TruthWordNum nVars in
   if iVar = 0 then
     for_up nWords (\<lambda>i pRes. pRes[i := pTruth ! i AND (drop_bit 1 (pTruth ! i AND 0xAAAAAAAA) OR push_bit 1 (pTruth ! i AND 0x55555555))]) pRes
   else if iVar = 1 then
     for_up nWords (\<lambda>i pRes. pRes[i := pTruth ! i AND (drop_bit 2 (pTruth ! i AND 0xCCCCCCCC) OR push_bit 2 (pTruth ! i AND 0x33333333))]) pRes
   else if iVar = 2 then
     for_up nWords (\<lambda>i pRes. pRes[i := pTruth ! i AND (drop_bit 4 (pTruth ! i AND 0xF0F0F0F0) OR push_bit 4 (pTruth ! i AND 0x0F0F0F0F))]) pRes
   else if iVar = 3 then
     for_up nWords (\<lambda>i pRes. pRes[i := pTruth ! i AND (drop_bit 8 (pTruth ! i AND 0xFF00FF00) OR push_bit 8 (pTruth ! i AND 0x00FF00FF))]) pRes
   else if iVar = 4 then
     for_up nWords (\<lambda>i pRes. pRes[i := pTruth ! i AND (drop_bit 16 (pTruth ! i AND 0xFFFF0000) OR push_bit 16 (pTruth ! i AND 0x0000FFFF))]) pRes
   else (let Step = 2 ^ (iVar - 5) in
     for_pairs nWords Step (\<lambda>lo hi pRes.
        let pRes = pRes[lo := pTruth ! lo AND pTruth ! hi] in pRes[hi := pRes ! lo]) pRes))"

definition Kit_TruthUniqueNew :: "words \<Rightarrow> words \<Rightarrow> nat \<Rightarrow> nat \<Rightarrow> words" where
  "Kit_TruthUniqueNew pRes pTruth nVars iVar =
  (let nWords = Kit_TruthWordNum nVars in
   if iVar = 0 then
     for_up nWords (\<lambda>i pRes. pRes[i := pTruth ! i XOR (drop_bit 1 (pTruth ! i AND 0xAAAAAAAA) OR push_bit 1 (pTruth ! i AND 0x55555555))]) pRes
   else if iVar = 1 then
     for_up nWords (\<lambda>i pRes. pRes[i := pTruth ! i XOR (drop_bit 2 (pTruth ! i AND 0xCCCCCCCC) OR push_bit 2 (pTruth ! i AND 0x33333333))]) pRes
   else if iVar = 2 then
     for_up nWords (\<lambda>i pRes. pRes[i := pTruth ! i XOR (drop_bit 4 (pTruth ! i AND 0xF0F0F0F0) OR push_bit 4 (pTruth ! i AND 0x0F0F0F0F))]) pRes
   else if iVar = 3 then
     for_up nWords (\<lambda>i pRes. pRes[i := pTruth ! i XOR (drop_bit 8 (pTruth ! i AND 0xFF00FF00) OR push_bit 8 (pTruth ! i AND 0x00FF00FF))]) pRes
   else if iVar = 4 then
     for_up nWords (\<lambda>i pRes. pRes[i := pTruth ! i XOR (drop_bit 16 (pTruth ! i AND 0xFFFF0000) OR push_bit 16 (pTruth ! i AND 0x0000FFFF))]) pRes
   else (let Step = 2 ^ (iVar - 5) in
     for_pairs nWords Step (\<lambda>lo hi pRes.
        let pRes = pRes[lo := pTruth ! lo XOR pTruth ! hi] in pRes[hi := pRes ! lo]) pRes))"

section \<open>Composition from cofactors, and complementing a variable\<close>

definition Kit_TruthMuxVar :: "words \<Rightarrow> words \<Rightarrow> words \<Rightarrow> nat \<Rightarrow> nat \<Rightarrow> words" where
  "Kit_TruthMuxVar pOut pCof0 pCof1 nVars iVar =
  (let nWords = Kit_TruthWordNum nVars in
   if iVar = 0 then
     for_up nWords (\<lambda>i pOut. pOut[i := (pCof0 ! i AND 0x55555555) OR (pCof1 ! i AND 0xAAAAAAAA)]) pOut
   else if iVar = 1 then
     for_up nWords (\<lambda>i pOut. pOut[i := (pCof0 ! i AND 0x33333333) OR (pCof1 ! i AND 0xCCCCCCCC)]) pOut
   else if iVar = 2 then
     for_up nWords (\<lambda>i pOut. pOut[i := (pCof0 ! i AND 0x0F0F0F0F) OR (pCof1 ! i AND 0xF0F0F0F0)]) pOut
   else if iVar = 3 then
     for_up nWords (\<lambda>i pOut. pOut[i := (pCof0 ! i AND 0x00FF00FF) OR (pCof1 ! i AND 0xFF00FF00)]) pOut
   else if iVar = 4 then
     for_up nWords (\<lambda>i pOut. pOut[i := (pCof0 ! i AND 0x0000FFFF) OR (pCof1 ! i AND 0xFFFF0000)]) pOut
   else (let Step = 2 ^ (iVar - 5) in
     for_pairs nWords Step (\<lambda>lo hi pOut. pOut[lo := pCof0 ! lo, hi := pCof1 ! hi]) pOut))"

definition Kit_TruthMuxVarPhase :: "words \<Rightarrow> words \<Rightarrow> words \<Rightarrow> nat \<Rightarrow> nat \<Rightarrow> bool \<Rightarrow> words" where
  "Kit_TruthMuxVarPhase pOut pCof0 pCof1 nVars iVar fCompl0 =
  (if \<not> fCompl0 then Kit_TruthMuxVar pOut pCof0 pCof1 nVars iVar else
  (let nWords = Kit_TruthWordNum nVars in
   if iVar = 0 then
     for_up nWords (\<lambda>i pOut. pOut[i := (NOT (pCof0 ! i) AND 0x55555555) OR (pCof1 ! i AND 0xAAAAAAAA)]) pOut
   else if iVar = 1 then
     for_up nWords (\<lambda>i pOut. pOut[i := (NOT (pCof0 ! i) AND 0x33333333) OR (pCof1 ! i AND 0xCCCCCCCC)]) pOut
   else if iVar = 2 then
     for_up nWords (\<lambda>i pOut. pOut[i := (NOT (pCof0 ! i) AND 0x0F0F0F0F) OR (pCof1 ! i AND 0xF0F0F0F0)]) pOut
   else if iVar = 3 then
     for_up nWords (\<lambda>i pOut. pOut[i := (NOT (pCof0 ! i) AND 0x00FF00FF) OR (pCof1 ! i AND 0xFF00FF00)]) pOut
   else if iVar = 4 then
     for_up nWords (\<lambda>i pOut. pOut[i := (NOT (pCof0 ! i) AND 0x0000FFFF) OR (pCof1 ! i AND 0xFFFF0000)]) pOut
   else (let Step = 2 ^ (iVar - 5) in
     for_pairs nWords Step (\<lambda>lo hi pOut. pOut[lo := NOT (pCof0 ! lo), hi := pCof1 ! hi]) pOut)))"

definition Kit_TruthChangePhase :: "words \<Rightarrow> nat \<Rightarrow> nat \<Rightarrow> words" where
  "Kit_TruthChangePhase pTruth nVars iVar =
  (let nWords = Kit_TruthWordNum nVars in
   if iVar = 0 then
     for_up nWords (\<lambda>i pTruth. pTruth[i := push_bit 1 (pTruth ! i AND 0x55555555) OR drop_bit 1 (pTruth ! i AND 0xAAAAAAAA)]) pTruth
   else if iVar = 1 then
     for_up nWords (\<lambda>i pTruth. pTruth[i := push_bit 2 (pTruth ! i AND 0x33333333) OR drop_bit 2 (pTruth ! i AND 0xCCCCCCCC)]) pTruth
   else if iVar = 2 then
     for_up nWords (\<lambda>i pTruth. pTruth[i := push_bit 4 (pTruth ! i AND 0x0F0F0F0F) OR drop_bit 4 (pTruth ! i AND 0xF0F0F0F0)]) pTruth
   else if iVar = 3 then
     for_up nWords (\<lambda>i pTruth. pTruth[i := push_bit 8 (pTruth ! i AND 0x00FF00FF) OR drop_bit 8 (pTruth ! i AND 0xFF00FF00)]) pTruth
   else if iVar = 4 then
     for_up nWords (\<lambda>i pTruth. pTruth[i := push_bit 16 (pTruth ! i AND 0x0000FFFF) OR drop_bit 16 (pTruth ! i AND 0xFFFF0000)]) pTruth
   else (let Step = 2 ^ (iVar - 5) in
     for_pairs nWords Step (\<lambda>lo hi pTruth.
        let Temp = pTruth ! lo in pTruth[lo := pTruth ! hi, hi := Temp]) pTruth))"

section \<open>Tests and counts on one variable\<close>

definition Kit_TruthVarInSupport :: "words \<Rightarrow> nat \<Rightarrow> nat \<Rightarrow> bool" where
  "Kit_TruthVarInSupport pTruth nVars iVar =
  (let nWords = Kit_TruthWordNum nVars in
   if iVar = 0 then
     any_up nWords (\<lambda>i. (pTruth ! i AND 0x55555555) \<noteq> drop_bit 1 (pTruth ! i AND 0xAAAAAAAA))
   else if iVar = 1 then
     any_up nWords (\<lambda>i. (pTruth ! i AND 0x33333333) \<noteq> drop_bit 2 (pTruth ! i AND 0xCCCCCCCC))
   else if iVar = 2 then
     any_up nWords (\<lambda>i. (pTruth ! i AND 0x0F0F0F0F) \<noteq> drop_bit 4 (pTruth ! i AND 0xF0F0F0F0))
   else if iVar = 3 then
     any_up nWords (\<lambda>i. (pTruth ! i AND 0x00FF00FF) \<noteq> drop_bit 8 (pTruth ! i AND 0xFF00FF00))
   else if iVar = 4 then
     any_up nWords (\<lambda>i. (pTruth ! i AND 0x0000FFFF) \<noteq> drop_bit 16 (pTruth ! i AND 0xFFFF0000))
   else (let Step = 2 ^ (iVar - 5) in
     any_pairs nWords Step (\<lambda>lo hi. pTruth ! lo \<noteq> pTruth ! hi)))"

definition Kit_TruthVarIsVacuous :: "words \<Rightarrow> words \<Rightarrow> nat \<Rightarrow> nat \<Rightarrow> bool" where
  "Kit_TruthVarIsVacuous pOnset pOffset nVars iVar =
  (let nWords = Kit_TruthWordNum nVars in
   if iVar = 0 then
     \<not> any_up nWords (\<lambda>i. (((pOnset ! i AND drop_bit 1 (pOffset ! i)) OR (pOffset ! i AND drop_bit 1 (pOnset ! i))) AND 0x55555555) \<noteq> 0)
   else if iVar = 1 then
     \<not> any_up nWords (\<lambda>i. (((pOnset ! i AND drop_bit 2 (pOffset ! i)) OR (pOffset ! i AND drop_bit 2 (pOnset ! i))) AND 0x33333333) \<noteq> 0)
   else if iVar = 2 then
     \<not> any_up nWords (\<lambda>i. (((pOnset ! i AND drop_bit 4 (pOffset ! i)) OR (pOffset ! i AND drop_bit 4 (pOnset ! i))) AND 0x0F0F0F0F) \<noteq> 0)
   else if iVar = 3 then
     \<not> any_up nWords (\<lambda>i. (((pOnset ! i AND drop_bit 8 (pOffset ! i)) OR (pOffset ! i AND drop_bit 8 (pOnset ! i))) AND 0x00FF00FF) \<noteq> 0)
   else if iVar = 4 then
     \<not> any_up nWords (\<lambda>i. (((pOnset ! i AND drop_bit 16 (pOffset ! i)) OR (pOffset ! i AND drop_bit 16 (pOnset ! i))) AND 0x0000FFFF) \<noteq> 0)
   else (let Step = 2 ^ (iVar - 5) in
     \<not> any_pairs nWords Step (\<lambda>lo hi. ((pOnset ! lo AND pOffset ! hi) OR (pOffset ! lo AND pOnset ! hi)) \<noteq> 0)))"

definition Kit_TruthCofactor0Count :: "words \<Rightarrow> nat \<Rightarrow> nat \<Rightarrow> nat" where
  "Kit_TruthCofactor0Count pTruth nVars iVar =
  (let nWords = Kit_TruthWordNum nVars in
   if iVar = 0 then
     for_up nWords (\<lambda>i Counter. Counter + Kit_WordCountOnes (pTruth ! i AND 0x55555555)) 0
   else if iVar = 1 then
     for_up nWords (\<lambda>i Counter. Counter + Kit_WordCountOnes (pTruth ! i AND 0x33333333)) 0
   else if iVar = 2 then
     for_up nWords (\<lambda>i Counter. Counter + Kit_WordCountOnes (pTruth ! i AND 0x0F0F0F0F)) 0
   else if iVar = 3 then
     for_up nWords (\<lambda>i Counter. Counter + Kit_WordCountOnes (pTruth ! i AND 0x00FF00FF)) 0
   else if iVar = 4 then
     for_up nWords (\<lambda>i Counter. Counter + Kit_WordCountOnes (pTruth ! i AND 0x0000FFFF)) 0
   else (let Step = 2 ^ (iVar - 5) in
     for_pairs nWords Step (\<lambda>lo hi Counter. Counter + Kit_WordCountOnes (pTruth ! lo)) 0))"

definition Kit_TruthBooleanDiffCount :: "words \<Rightarrow> nat \<Rightarrow> nat \<Rightarrow> nat" where
  "Kit_TruthBooleanDiffCount pTruth nVars iVar =
  (let nWords = Kit_TruthWordNum nVars in
   if iVar = 0 then
     for_up nWords (\<lambda>i Counter. Counter + Kit_WordCountOnes ((pTruth ! i XOR drop_bit 1 (pTruth ! i)) AND 0x55555555)) 0
   else if iVar = 1 then
     for_up nWords (\<lambda>i Counter. Counter + Kit_WordCountOnes ((pTruth ! i XOR drop_bit 2 (pTruth ! i)) AND 0x33333333)) 0
   else if iVar = 2 then
     for_up nWords (\<lambda>i Counter. Counter + Kit_WordCountOnes ((pTruth ! i XOR drop_bit 4 (pTruth ! i)) AND 0x0F0F0F0F)) 0
   else if iVar = 3 then
     for_up nWords (\<lambda>i Counter. Counter + Kit_WordCountOnes ((pTruth ! i XOR drop_bit 8 (pTruth ! i)) AND 0x00FF00FF)) 0
   else if iVar = 4 then
     for_up nWords (\<lambda>i Counter. Counter + Kit_WordCountOnes ((pTruth ! i XOR drop_bit 16 (pTruth ! i)) AND 0x0000FFFF)) 0
   else (let Step = 2 ^ (iVar - 5) in
     for_pairs nWords Step (\<lambda>lo hi Counter. Counter + Kit_WordCountOnes (pTruth ! lo XOR pTruth ! hi)) 0))"

section \<open>One equation per operation\<close>

text \<open>The masks of the low halves, with \<open>var_masks\<close> for the high halves.\<close>

definition low_masks :: "u32 list" where
  "low_masks = [0x55555555, 0x33333333, 0x0F0F0F0F, 0x00FF00FF, 0x0000FFFF]"

lemma low_masks_bit [mask_simps]: "v < 5 \<Longrightarrow> bit (low_masks ! v) b \<longleftrightarrow> b < 32 \<and> \<not> bit b v"
proof -
  have "list_all (\<lambda>v. list_all (\<lambda>b. bit (low_masks ! v) b = (\<not> bit b v)) [0..<32]) [0..<5]"
    by code_simp
  then show "v < 5 \<Longrightarrow> bit (low_masks ! v) b \<longleftrightarrow> b < 32 \<and> \<not> bit b v"
    using bit_less_32 by (cases "b < 32") (auto simp: list_all_iff)
qed

lemma less_5_cases: "v < 5 \<Longrightarrow> v = 0 \<or> v = 1 \<or> v = 2 \<or> v = 3 \<or> v = (4::nat)"
  by auto

lemma set_bit_less_32: "v < 5 \<Longrightarrow> b < 32 \<Longrightarrow> Bit_Operations.set_bit v b < (32::nat)"
  using set_bit_less [of b 5 v] by simp

lemma unset_bit_less_32: "b < 32 \<Longrightarrow> unset_bit v b < (32::nat)"
  using unset_bit_less [of b 5 v] by simp

text \<open>Shifting the masked halves of a word reads the partner bit.\<close>

lemma bit_push_low [mask_simps]:
  assumes "v < 5" "b < 32"
  shows "bit (push_bit (2 ^ v) ((x :: u32) AND low_masks ! v)) b \<longleftrightarrow> bit b v \<and> bit x (unset_bit v b)"
proof (cases "bit b v")
  case True
  then show ?thesis
    using assms bit_imp_exp_le [OF True] bit_diff_exp [of v b]
    by (auto simp: bit_simps low_masks_bit unset_bit_eq_diff)
next
  case False
  then show ?thesis
    using assms bit_diff_exp [of v b] by (auto simp: bit_simps low_masks_bit)
qed

lemma bit_drop_high [mask_simps]:
  assumes "v < 5" "b < 32"
  shows "bit (drop_bit (2 ^ v) ((x :: u32) AND var_masks ! v)) b \<longleftrightarrow>
    \<not> bit b v \<and> bit x (Bit_Operations.set_bit v b)"
proof (cases "bit b v")
  case False
  then show ?thesis
    using assms set_bit_less_32 [OF assms] bit_add_exp [of b v]
    by (auto simp: bit_simps var_masks_bit set_bit_eq_add add.commute)
next
  case True
  then show ?thesis
    using assms bit_add_exp [of b v] by (auto simp: bit_simps var_masks_bit add.commute)
qed

lemma bit_and_low [mask_simps]:
  "v < 5 \<Longrightarrow> b < 32 \<Longrightarrow> bit ((x :: u32) AND low_masks ! v) b \<longleftrightarrow> \<not> bit b v \<and> bit x b"
  by (auto simp: bit_simps low_masks_bit)

lemma bit_and_high [mask_simps]:
  "v < 5 \<Longrightarrow> b < 32 \<Longrightarrow> bit ((x :: u32) AND var_masks ! v) b \<longleftrightarrow> bit b v \<and> bit x b"
  by (auto simp: bit_simps var_masks_bit)

lemmas partner_simps = bit_or_iff bit_and_iff bit_xor_iff

text \<open>The two forms an operation has, and what each does to a minterm.\<close>

lemma word_num_blocks:
  assumes "5 \<le> v" "v < n"
  obtains k where "Kit_TruthWordNum n = k * (2 * 2 ^ (v - 5))"
proof -
  have "n - 5 = (n - Suc v) + Suc (v - 5)" using assms by simp
  then have "Kit_TruthWordNum n = 2 ^ (n - Suc v) * (2 * 2 ^ (v - 5))"
    unfolding Kit_TruthWordNum_alt by (simp only: power_add power_Suc)
  then show ?thesis using that by blast
qed

lemma tt_bit_high:
  assumes "tt_ok p n" "m < tt_size n" "5 \<le> v" "v < n"
    and body: "\<And>lo hi q. lo < hi \<Longrightarrow> hi < length p \<Longrightarrow> length q = length p \<Longrightarrow>
      body lo hi q = q[lo := f lo hi (q ! lo) (q ! hi), hi := g lo hi (q ! lo) (q ! hi)]"
  shows "tt_bit (for_pairs (Kit_TruthWordNum n) (2 ^ (v - 5)) body p) m =
    (let lo = unset_bit v m div 32; hi = Bit_Operations.set_bit v m div 32
     in bit ((if bit m v then g else f) lo hi (p ! lo) (p ! hi)) (m mod 32))"
proof -
  obtain k where k: "Kit_TruthWordNum n = k * (2 * 2 ^ (v - 5))"
    using word_num_blocks [OF assms(3,4)] by blast
  have len: "Kit_TruthWordNum n \<le> length p" and m: "m div 32 < Kit_TruthWordNum n"
    using assms by (auto simp: tt_ok_def tt_size_word)
  have b: "bit (m div 32) (v - 5) = bit m v" using assms(3) by simp
  have eq: "unset_bit v m div 32 = unset_bit (v - 5) (m div 32)"
    "Bit_Operations.set_bit v m div 32 = Bit_Operations.set_bit (v - 5) (m div 32)"
    using assms(3) by simp_all
  have "m div 32 < length p" using m len by simp
  from for_pairs_nth(1) [where f = f and g = g, OF k len this body]
  have "for_pairs (Kit_TruthWordNum n) (2 ^ (v - 5)) body p ! (m div 32) =
      (if bit m v then g else f) (unset_bit (v - 5) (m div 32)) (Bit_Operations.set_bit (v - 5) (m div 32))
        (p ! unset_bit (v - 5) (m div 32)) (p ! Bit_Operations.set_bit (v - 5) (m div 32))"
    using m by (simp only: Let_def b if_True)
  then show ?thesis
    by (simp only: tt_bit_def eq Let_def)
qed

lemma tt_bit_switch:
  assumes ok: "tt_ok p n" "v < n" "m < tt_size n"
    and low: "v < 5 \<Longrightarrow> res = for_up (Kit_TruthWordNum n) bl p"
      "\<And>i q. i < length p \<Longrightarrow> length q = length p \<Longrightarrow> bl i q = q[i := F i (q ! i)]"
    and high: "\<not> v < 5 \<Longrightarrow> res = for_pairs (Kit_TruthWordNum n) (2 ^ (v - 5)) bh p"
      "\<And>lo hi q. lo < hi \<Longrightarrow> hi < length p \<Longrightarrow> length q = length p \<Longrightarrow>
        bh lo hi q = q[lo := f lo hi (q ! lo) (q ! hi), hi := g lo hi (q ! lo) (q ! hi)]"
  shows "tt_bit res m =
    (if v < 5 then bit (F (m div 32) (p ! (m div 32))) (m mod 32)
     else (let lo = unset_bit v m div 32; hi = Bit_Operations.set_bit v m div 32
           in bit ((if bit m v then g else f) lo hi (p ! lo) (p ! hi)) (m mod 32)))"
proof (cases "v < 5")
  case True
  have len: "Kit_TruthWordNum n \<le> length p" and m: "m div 32 < Kit_TruthWordNum n"
    using ok by (auto simp: tt_ok_def tt_size_word)
  have eq: "k \<le> length p \<Longrightarrow> for_up k bl p = for_up k (\<lambda>i q. q[i := F i (q ! i)]) p" for k
  proof (induction k)
    case (Suc k)
    moreover have "length (for_up k (\<lambda>i q. q[i := F i (q ! i)]) p) = length p" by simp
    ultimately show ?case using Suc.prems by (simp only: for_up_Suc Suc_leD Suc_le_eq low(2))
  qed (simp only: for_up_0)
  have "res ! (m div 32) = for_up (Kit_TruthWordNum n) (\<lambda>i q. q[i := F i (q ! i)]) p ! (m div 32)"
    by (simp only: low(1) [OF True] eq [OF len])
  also have "\<dots> = F (m div 32) (p ! (m div 32))"
    using m len by (simp only: for_up_nth [where f = F] if_True less_le_trans)
  finally show ?thesis
    using True by (simp only: tt_bit_def if_True)
next
  case False
  then have "5 \<le> v" by (simp only: not_less)
  from tt_bit_high [where f = f and g = g and body = bh, OF ok(1,3) this ok(2) high(2)]
  show ?thesis
    by (simp only: high(1) [OF False] False if_False)
qed

text \<open>The frame: words beyond the table are not written, and the length stays.\<close>

lemma length_for_pairs_gen [simp]:
  "(\<And>lo hi q. length (body lo hi q) = length q) \<Longrightarrow> length (for_pairs k s body p) = length p"
  by (rule for_pairs_invariant [where I = "\<lambda>q. length q = length p"]) auto

lemma length_for_up_gen [simp]:
  "(\<And>i q. length (body i q) = length q) \<Longrightarrow> length (for_up k body p) = length p"
  by (induction k) auto

lemmas kit_var_defs = Kit_TruthCofactor0_def Kit_TruthCofactor1_def Kit_TruthCofactor0New_def
  Kit_TruthCofactor1New_def Kit_TruthExist_def Kit_TruthExistNew_def Kit_TruthForall_def
  Kit_TruthForallNew_def Kit_TruthUniqueNew_def Kit_TruthMuxVar_def Kit_TruthMuxVarPhase_def
  Kit_TruthChangePhase_def

lemma length_kit_var [simp]:
  "length (Kit_TruthCofactor0 p n v) = length p" "length (Kit_TruthCofactor1 p n v) = length p"
  "length (Kit_TruthCofactor0New p a n v) = length p" "length (Kit_TruthCofactor1New p a n v) = length p"
  "length (Kit_TruthExist p n v) = length p" "length (Kit_TruthExistNew p a n v) = length p"
  "length (Kit_TruthForall p n v) = length p" "length (Kit_TruthForallNew p a n v) = length p"
  "length (Kit_TruthUniqueNew p a n v) = length p" "length (Kit_TruthMuxVar p a b n v) = length p"
  "length (Kit_TruthMuxVarPhase p a b n v c) = length p" "length (Kit_TruthChangePhase p n v) = length p"
  by (simp_all add: kit_var_defs Let_def)

text \<open>The cases of the switch inside a word, as one loop over a mask and a shift.\<close>

lemmas switch_simps = low_masks_def var_masks_def Let_def

lemma list_update_frame: "lo < hi \<Longrightarrow> q[lo := x, hi := q ! hi] = q[lo := x]"
  by (metis list_update_id list_update_swap nat_neq_iff)

lemma partner_id:
  "bit m v \<Longrightarrow> v < 5 \<Longrightarrow> Bit_Operations.set_bit v (m mod 32) = (m :: nat) mod 32"
  "\<not> bit m v \<Longrightarrow> unset_bit v (m mod 32) = m mod 32"
  "bit m v \<Longrightarrow> \<not> v < 5 \<Longrightarrow> Bit_Operations.set_bit (v - 5) (m div 32) = m div 32"
  "\<not> bit m v \<Longrightarrow> \<not> v < 5 \<Longrightarrow> unset_bit (v - 5) (m div 32) = m div 32"
  using set_bit_id [of "m mod 32" v] unset_bit_id [of "m mod 32" v]
    set_bit_id [of "m div 32" "v - 5"] unset_bit_id [of "m div 32" "v - 5"]
  by (auto simp: bit_simps)

lemma flip_bit_cases:
  "bit m v \<Longrightarrow> flip_bit v m = unset_bit v (m :: nat)"
  "\<not> bit m v \<Longrightarrow> flip_bit v m = Bit_Operations.set_bit v m"
  by (simp_all add: flip_bit_eq_if)

lemmas read_simps = bit_or_iff bit_xor_iff bit_and_iff bit_not_iff mask_simps unset_bit_id set_bit_id
  partner_id flip_bit_cases list_update_frame tt_bit_def Let_def

lemma Cofactor0_low:
  "v < 5 \<Longrightarrow> Kit_TruthCofactor0 p n v = for_up (Kit_TruthWordNum n)
     (\<lambda>i p. p[i := (p ! i AND low_masks ! v) OR push_bit (2 ^ v) (p ! i AND low_masks ! v)]) p"
  by (drule less_5_cases, elim disjE) (simp_all add: Kit_TruthCofactor0_def switch_simps)

lemma tt_bit_Kit_TruthCofactor0 [tt_simps]:
  assumes ok: "tt_ok p n" "v < n" "m < tt_size n"
  shows "tt_bit (Kit_TruthCofactor0 p n v) m = tt_bit p (unset_bit v m)"
proof -
  have high: "\<not> v < 5 \<Longrightarrow> Kit_TruthCofactor0 p n v =
      for_pairs (Kit_TruthWordNum n) (2 ^ (v - 5)) (\<lambda>lo hi p. p[hi := p ! lo]) p"
    by (simp add: Kit_TruthCofactor0_def Let_def)
  show ?thesis
    by (subst tt_bit_switch [OF ok Cofactor0_low _ high, where f = "\<lambda>lo hi x y. x" and g = "\<lambda>lo hi x y. x"
          and F = "\<lambda>i x. (x AND low_masks ! v) OR push_bit (2 ^ v) (x AND low_masks ! v)"])
       (cases "bit m v", auto simp: read_simps simp del: push_bit_and drop_bit_and)
qed


lemma Cofactor1_low:
  "v < 5 \<Longrightarrow> Kit_TruthCofactor1 p n v = for_up (Kit_TruthWordNum n)
     (\<lambda>i p. p[i := (p ! i AND var_masks ! v) OR drop_bit (2 ^ v) (p ! i AND var_masks ! v)]) p"
  by (drule less_5_cases, elim disjE) (simp_all add: kit_var_defs switch_simps)

lemma tt_bit_Kit_TruthCofactor1 [tt_simps]:
  assumes ok: "tt_ok p n" "v < n" "m < tt_size n"
  shows "tt_bit (Kit_TruthCofactor1 p n v) m = tt_bit p (Bit_Operations.set_bit v m)"
proof -
  have high: "\<not> v < 5 \<Longrightarrow> Kit_TruthCofactor1 p n v =
      for_pairs (Kit_TruthWordNum n) (2 ^ (v - 5)) (\<lambda>lo hi p. p[lo := p ! hi]) p"
    by (simp add: kit_var_defs Let_def)
  show ?thesis
    by (subst tt_bit_switch [OF ok Cofactor1_low _ high, where f = "\<lambda>lo hi x y. y"
          and g = "\<lambda>lo hi x y. y" and F = "\<lambda>i x. (x AND var_masks ! v) OR drop_bit (2 ^ v) (x AND var_masks ! v)"],
        assumption, rule refl, assumption, simp add: Let_def list_update_swap list_update_frame,
        (cases "bit m v"; simp add: read_simps del: push_bit_and drop_bit_and; auto))
qed

lemma Cofactor0New_low:
  "v < 5 \<Longrightarrow> Kit_TruthCofactor0New q p n v = for_up (Kit_TruthWordNum n)
     (\<lambda>i q. q[i := (p ! i AND low_masks ! v) OR push_bit (2 ^ v) (p ! i AND low_masks ! v)]) q"
  by (drule less_5_cases, elim disjE) (simp_all add: kit_var_defs switch_simps)

lemma tt_bit_Kit_TruthCofactor0New [tt_simps]:
  assumes ok: "tt_ok q n" "v < n" "m < tt_size n"
  shows "tt_bit (Kit_TruthCofactor0New q p n v) m = tt_bit p (unset_bit v m)"
proof -
  have high: "\<not> v < 5 \<Longrightarrow> Kit_TruthCofactor0New q p n v =
      for_pairs (Kit_TruthWordNum n) (2 ^ (v - 5)) (\<lambda>lo hi q. q[hi := p ! lo, lo := p ! lo]) q"
    by (simp add: kit_var_defs Let_def)
  show ?thesis
    by (subst tt_bit_switch [OF ok Cofactor0New_low _ high, where f = "\<lambda>lo hi x y. p ! lo"
          and g = "\<lambda>lo hi x y. p ! lo" and F = "\<lambda>i x. (p ! i AND low_masks ! v) OR push_bit (2 ^ v) (p ! i AND low_masks ! v)"],
        assumption, rule refl, assumption, simp add: Let_def list_update_swap list_update_frame,
        (cases "bit m v"; simp add: read_simps del: push_bit_and drop_bit_and; auto))
qed

lemma Cofactor1New_low:
  "v < 5 \<Longrightarrow> Kit_TruthCofactor1New q p n v = for_up (Kit_TruthWordNum n)
     (\<lambda>i q. q[i := (p ! i AND var_masks ! v) OR drop_bit (2 ^ v) (p ! i AND var_masks ! v)]) q"
  by (drule less_5_cases, elim disjE) (simp_all add: kit_var_defs switch_simps)

lemma tt_bit_Kit_TruthCofactor1New [tt_simps]:
  assumes ok: "tt_ok q n" "v < n" "m < tt_size n"
  shows "tt_bit (Kit_TruthCofactor1New q p n v) m = tt_bit p (Bit_Operations.set_bit v m)"
proof -
  have high: "\<not> v < 5 \<Longrightarrow> Kit_TruthCofactor1New q p n v =
      for_pairs (Kit_TruthWordNum n) (2 ^ (v - 5)) (\<lambda>lo hi q. q[hi := p ! hi, lo := p ! hi]) q"
    by (simp add: kit_var_defs Let_def)
  show ?thesis
    by (subst tt_bit_switch [OF ok Cofactor1New_low _ high, where f = "\<lambda>lo hi x y. p ! hi"
          and g = "\<lambda>lo hi x y. p ! hi" and F = "\<lambda>i x. (p ! i AND var_masks ! v) OR drop_bit (2 ^ v) (p ! i AND var_masks ! v)"],
        assumption, rule refl, assumption, simp add: Let_def list_update_swap list_update_frame,
        (cases "bit m v"; simp add: read_simps del: push_bit_and drop_bit_and; auto))
qed

lemma Exist_low:
  "v < 5 \<Longrightarrow> Kit_TruthExist p n v = for_up (Kit_TruthWordNum n)
     (\<lambda>i p. p[i := p ! i OR (drop_bit (2 ^ v) (p ! i AND var_masks ! v) OR push_bit (2 ^ v) (p ! i AND low_masks ! v))]) p"
  by (drule less_5_cases, elim disjE) (simp_all add: kit_var_defs switch_simps)

lemma tt_bit_Kit_TruthExist [tt_simps]:
  assumes ok: "tt_ok p n" "v < n" "m < tt_size n"
  shows "tt_bit (Kit_TruthExist p n v) m = (tt_bit p (unset_bit v m) \<or> tt_bit p (Bit_Operations.set_bit v m))"
proof -
  have high: "\<not> v < 5 \<Longrightarrow> Kit_TruthExist p n v =
      for_pairs (Kit_TruthWordNum n) (2 ^ (v - 5)) (\<lambda>lo hi p. let p = p[lo := p ! lo OR p ! hi] in p[hi := p ! lo]) p"
    by (simp add: kit_var_defs Let_def)
  show ?thesis
    by (subst tt_bit_switch [OF ok Exist_low _ high, where f = "\<lambda>lo hi x y. x OR y"
          and g = "\<lambda>lo hi x y. x OR y" and F = "\<lambda>i x. x OR (drop_bit (2 ^ v) (x AND var_masks ! v) OR push_bit (2 ^ v) (x AND low_masks ! v))"],
        assumption, rule refl, assumption, simp add: Let_def list_update_swap list_update_frame,
        (cases "bit m v"; simp add: read_simps del: push_bit_and drop_bit_and; auto))
qed

lemma ExistNew_low:
  "v < 5 \<Longrightarrow> Kit_TruthExistNew q p n v = for_up (Kit_TruthWordNum n)
     (\<lambda>i q. q[i := (p ! i OR drop_bit (2 ^ v) (p ! i AND var_masks ! v)) OR push_bit (2 ^ v) (p ! i AND low_masks ! v)]) q"
  by (drule less_5_cases, elim disjE) (simp_all add: kit_var_defs switch_simps)

lemma tt_bit_Kit_TruthExistNew [tt_simps]:
  assumes ok: "tt_ok q n" "v < n" "m < tt_size n"
  shows "tt_bit (Kit_TruthExistNew q p n v) m = (tt_bit p (unset_bit v m) \<or> tt_bit p (Bit_Operations.set_bit v m))"
proof -
  have high: "\<not> v < 5 \<Longrightarrow> Kit_TruthExistNew q p n v =
      for_pairs (Kit_TruthWordNum n) (2 ^ (v - 5)) (\<lambda>lo hi q. let q = q[lo := p ! lo OR p ! hi] in q[hi := q ! lo]) q"
    by (simp add: kit_var_defs Let_def)
  show ?thesis
    by (subst tt_bit_switch [OF ok ExistNew_low _ high, where f = "\<lambda>lo hi x y. p ! lo OR p ! hi"
          and g = "\<lambda>lo hi x y. p ! lo OR p ! hi" and F = "\<lambda>i x. (p ! i OR drop_bit (2 ^ v) (p ! i AND var_masks ! v)) OR push_bit (2 ^ v) (p ! i AND low_masks ! v)"],
        assumption, rule refl, assumption, simp add: Let_def list_update_swap list_update_frame,
        (cases "bit m v"; simp add: read_simps del: push_bit_and drop_bit_and; auto))
qed

lemma Forall_low:
  "v < 5 \<Longrightarrow> Kit_TruthForall p n v = for_up (Kit_TruthWordNum n)
     (\<lambda>i p. p[i := p ! i AND (drop_bit (2 ^ v) (p ! i AND var_masks ! v) OR push_bit (2 ^ v) (p ! i AND low_masks ! v))]) p"
  by (drule less_5_cases, elim disjE) (simp_all add: kit_var_defs switch_simps)

lemma tt_bit_Kit_TruthForall [tt_simps]:
  assumes ok: "tt_ok p n" "v < n" "m < tt_size n"
  shows "tt_bit (Kit_TruthForall p n v) m = (tt_bit p (unset_bit v m) \<and> tt_bit p (Bit_Operations.set_bit v m))"
proof -
  have high: "\<not> v < 5 \<Longrightarrow> Kit_TruthForall p n v =
      for_pairs (Kit_TruthWordNum n) (2 ^ (v - 5)) (\<lambda>lo hi p. let p = p[lo := p ! lo AND p ! hi] in p[hi := p ! lo]) p"
    by (simp add: kit_var_defs Let_def)
  show ?thesis
    by (subst tt_bit_switch [OF ok Forall_low _ high, where f = "\<lambda>lo hi x y. x AND y"
          and g = "\<lambda>lo hi x y. x AND y" and F = "\<lambda>i x. x AND (drop_bit (2 ^ v) (x AND var_masks ! v) OR push_bit (2 ^ v) (x AND low_masks ! v))"],
        assumption, rule refl, assumption, simp add: Let_def list_update_swap list_update_frame,
        (cases "bit m v"; simp add: read_simps del: push_bit_and drop_bit_and; auto))
qed

lemma ForallNew_low:
  "v < 5 \<Longrightarrow> Kit_TruthForallNew q p n v = for_up (Kit_TruthWordNum n)
     (\<lambda>i q. q[i := p ! i AND (drop_bit (2 ^ v) (p ! i AND var_masks ! v) OR push_bit (2 ^ v) (p ! i AND low_masks ! v))]) q"
  by (drule less_5_cases, elim disjE) (simp_all add: kit_var_defs switch_simps)

lemma tt_bit_Kit_TruthForallNew [tt_simps]:
  assumes ok: "tt_ok q n" "v < n" "m < tt_size n"
  shows "tt_bit (Kit_TruthForallNew q p n v) m = (tt_bit p (unset_bit v m) \<and> tt_bit p (Bit_Operations.set_bit v m))"
proof -
  have high: "\<not> v < 5 \<Longrightarrow> Kit_TruthForallNew q p n v =
      for_pairs (Kit_TruthWordNum n) (2 ^ (v - 5)) (\<lambda>lo hi q. let q = q[lo := p ! lo AND p ! hi] in q[hi := q ! lo]) q"
    by (simp add: kit_var_defs Let_def)
  show ?thesis
    by (subst tt_bit_switch [OF ok ForallNew_low _ high, where f = "\<lambda>lo hi x y. p ! lo AND p ! hi"
          and g = "\<lambda>lo hi x y. p ! lo AND p ! hi" and F = "\<lambda>i x. p ! i AND (drop_bit (2 ^ v) (p ! i AND var_masks ! v) OR push_bit (2 ^ v) (p ! i AND low_masks ! v))"],
        assumption, rule refl, assumption, simp add: Let_def list_update_swap list_update_frame,
        (cases "bit m v"; simp add: read_simps del: push_bit_and drop_bit_and; auto))
qed

lemma UniqueNew_low:
  "v < 5 \<Longrightarrow> Kit_TruthUniqueNew q p n v = for_up (Kit_TruthWordNum n)
     (\<lambda>i q. q[i := p ! i XOR (drop_bit (2 ^ v) (p ! i AND var_masks ! v) OR push_bit (2 ^ v) (p ! i AND low_masks ! v))]) q"
  by (drule less_5_cases, elim disjE) (simp_all add: kit_var_defs switch_simps)

lemma tt_bit_Kit_TruthUniqueNew [tt_simps]:
  assumes ok: "tt_ok q n" "v < n" "m < tt_size n"
  shows "tt_bit (Kit_TruthUniqueNew q p n v) m = (tt_bit p (unset_bit v m) \<noteq> tt_bit p (Bit_Operations.set_bit v m))"
proof -
  have high: "\<not> v < 5 \<Longrightarrow> Kit_TruthUniqueNew q p n v =
      for_pairs (Kit_TruthWordNum n) (2 ^ (v - 5)) (\<lambda>lo hi q. let q = q[lo := p ! lo XOR p ! hi] in q[hi := q ! lo]) q"
    by (simp add: kit_var_defs Let_def)
  show ?thesis
    by (subst tt_bit_switch [OF ok UniqueNew_low _ high, where f = "\<lambda>lo hi x y. p ! lo XOR p ! hi"
          and g = "\<lambda>lo hi x y. p ! lo XOR p ! hi" and F = "\<lambda>i x. p ! i XOR (drop_bit (2 ^ v) (p ! i AND var_masks ! v) OR push_bit (2 ^ v) (p ! i AND low_masks ! v))"],
        assumption, rule refl, assumption, simp add: Let_def list_update_swap list_update_frame,
        (cases "bit m v"; simp add: read_simps del: push_bit_and drop_bit_and; auto))
qed

lemma MuxVar_low:
  "v < 5 \<Longrightarrow> Kit_TruthMuxVar q p0 p1 n v = for_up (Kit_TruthWordNum n)
     (\<lambda>i q. q[i := (p0 ! i AND low_masks ! v) OR (p1 ! i AND var_masks ! v)]) q"
  by (drule less_5_cases, elim disjE) (simp_all add: kit_var_defs switch_simps)

lemma tt_bit_Kit_TruthMuxVar [tt_simps]:
  assumes ok: "tt_ok q n" "v < n" "m < tt_size n"
  shows "tt_bit (Kit_TruthMuxVar q p0 p1 n v) m = (if bit m v then tt_bit p1 m else tt_bit p0 m)"
proof -
  have high: "\<not> v < 5 \<Longrightarrow> Kit_TruthMuxVar q p0 p1 n v =
      for_pairs (Kit_TruthWordNum n) (2 ^ (v - 5)) (\<lambda>lo hi q. q[lo := p0 ! lo, hi := p1 ! hi]) q"
    by (simp add: kit_var_defs Let_def)
  show ?thesis
    by (subst tt_bit_switch [OF ok MuxVar_low _ high, where f = "\<lambda>lo hi x y. p0 ! lo"
          and g = "\<lambda>lo hi x y. p1 ! hi" and F = "\<lambda>i x. (p0 ! i AND low_masks ! v) OR (p1 ! i AND var_masks ! v)"],
        assumption, rule refl, assumption, simp add: Let_def list_update_swap list_update_frame,
        (cases "bit m v"; simp add: read_simps del: push_bit_and drop_bit_and; auto))
qed

lemma MuxVarPhase_low:
  "v < 5 \<Longrightarrow> Kit_TruthMuxVarPhase q p0 p1 n v True = for_up (Kit_TruthWordNum n)
     (\<lambda>i q. q[i := (NOT (p0 ! i) AND low_masks ! v) OR (p1 ! i AND var_masks ! v)]) q"
  by (drule less_5_cases, elim disjE) (simp_all add: kit_var_defs switch_simps)

lemma tt_bit_Kit_TruthMuxVarPhase [tt_simps]:
  assumes ok: "tt_ok q n" "v < n" "m < tt_size n"
  shows "tt_bit (Kit_TruthMuxVarPhase q p0 p1 n v True) m = (if bit m v then tt_bit p1 m else \<not> tt_bit p0 m)"
proof -
  have high: "\<not> v < 5 \<Longrightarrow> Kit_TruthMuxVarPhase q p0 p1 n v True =
      for_pairs (Kit_TruthWordNum n) (2 ^ (v - 5)) (\<lambda>lo hi q. q[lo := NOT (p0 ! lo), hi := p1 ! hi]) q"
    by (simp add: kit_var_defs Let_def)
  show ?thesis
    by (subst tt_bit_switch [OF ok MuxVarPhase_low _ high, where f = "\<lambda>lo hi x y. NOT (p0 ! lo)"
          and g = "\<lambda>lo hi x y. p1 ! hi" and F = "\<lambda>i x. (NOT (p0 ! i) AND low_masks ! v) OR (p1 ! i AND var_masks ! v)"],
        assumption, rule refl, assumption, simp add: Let_def list_update_swap list_update_frame,
        (cases "bit m v"; simp add: read_simps del: push_bit_and drop_bit_and; auto))
qed

lemma ChangePhase_low:
  "v < 5 \<Longrightarrow> Kit_TruthChangePhase p n v = for_up (Kit_TruthWordNum n)
     (\<lambda>i p. p[i := push_bit (2 ^ v) (p ! i AND low_masks ! v) OR drop_bit (2 ^ v) (p ! i AND var_masks ! v)]) p"
  by (drule less_5_cases, elim disjE) (simp_all add: kit_var_defs switch_simps)

lemma tt_bit_Kit_TruthChangePhase [tt_simps]:
  assumes ok: "tt_ok p n" "v < n" "m < tt_size n"
  shows "tt_bit (Kit_TruthChangePhase p n v) m = tt_bit p (flip_bit v m)"
proof -
  have high: "\<not> v < 5 \<Longrightarrow> Kit_TruthChangePhase p n v =
      for_pairs (Kit_TruthWordNum n) (2 ^ (v - 5)) (\<lambda>lo hi p. let t = p ! lo in p[lo := p ! hi, hi := t]) p"
    by (simp add: kit_var_defs Let_def)
  show ?thesis
    by (subst tt_bit_switch [OF ok ChangePhase_low _ high, where f = "\<lambda>lo hi x y. y"
          and g = "\<lambda>lo hi x y. x" and F = "\<lambda>i x. push_bit (2 ^ v) (x AND low_masks ! v) OR drop_bit (2 ^ v) (x AND var_masks ! v)"],
        assumption, rule refl, assumption, simp add: Let_def list_update_swap list_update_frame,
        (cases "bit m v"; simp add: read_simps del: push_bit_and drop_bit_and; auto))
qed

section \<open>Support\<close>

lemma any_pairs_partners:
  assumes "5 \<le> v" "v < n"
  shows "any_pairs (Kit_TruthWordNum n) (2 ^ (v - 5)) P \<longleftrightarrow>
    (\<exists>j<Kit_TruthWordNum n. P (unset_bit (v - 5) j) (Bit_Operations.set_bit (v - 5) j))"
proof -
  obtain k where k: "Kit_TruthWordNum n = k * (2 * 2 ^ (v - 5))"
    using word_num_blocks [OF assms] by blast
  have small: "unset_bit (v - 5) j < Kit_TruthWordNum n" if "j < Kit_TruthWordNum n" for j
    using that by (simp add: Kit_TruthWordNum_alt)
  have hi: "Bit_Operations.set_bit (v - 5) j = unset_bit (v - 5) j + 2 ^ (v - 5)" for j :: nat
    using set_bit_eq_add [of "unset_bit (v - 5) j" "v - 5"] by (simp add: bit_simps)
  show ?thesis
    unfolding any_pairs_pair_list
  proof (intro iffI)
    assume "\<exists>(lo, hi) \<in> set (pair_list (Kit_TruthWordNum n) (2 ^ (v - 5))). P lo hi"
    then obtain lo where "lo < Kit_TruthWordNum n" "\<not> bit lo (v - 5)" "P lo (lo + 2 ^ (v - 5))"
      using pair_list_mem [OF k] by auto
    then show "\<exists>j<Kit_TruthWordNum n. P (unset_bit (v - 5) j) (Bit_Operations.set_bit (v - 5) j)"
      by (intro exI [of _ lo]) (simp add: unset_bit_id set_bit_eq_add)
  next
    assume "\<exists>j<Kit_TruthWordNum n. P (unset_bit (v - 5) j) (Bit_Operations.set_bit (v - 5) j)"
    then obtain j where "j < Kit_TruthWordNum n" "P (unset_bit (v - 5) j) (Bit_Operations.set_bit (v - 5) j)"
      by blast
    moreover have "\<not> bit (unset_bit (v - 5) j) (v - 5)" by (simp add: bit_simps)
    ultimately have "(unset_bit (v - 5) j, Bit_Operations.set_bit (v - 5) j)
        \<in> set (pair_list (Kit_TruthWordNum n) (2 ^ (v - 5)))"
      using pair_list_mem [OF k] small hi by simp
    then show "\<exists>(lo, hi) \<in> set (pair_list (Kit_TruthWordNum n) (2 ^ (v - 5))). P lo hi"
      using \<open>P _ _\<close> by blast
  qed
qed

text \<open>
  A test that looks at pairs of bits and at pairs of words finds a minterm whose two partners are
  related, whatever the variable.
\<close>

lemma tt_partner_exists:
  assumes "tt_ok p n" "v < n"
    and low: "v < 5 \<Longrightarrow> res \<longleftrightarrow> (\<exists>i<Kit_TruthWordNum n. \<exists>b<32. \<not> bit b v \<and>
      R (bit (p ! i) b) (bit (p ! i) (Bit_Operations.set_bit v b)) (bit (q ! i) b) (bit (q ! i) (Bit_Operations.set_bit v b)))"
    and high: "5 \<le> v \<Longrightarrow> res \<longleftrightarrow> any_pairs (Kit_TruthWordNum n) (2 ^ (v - 5))
      (\<lambda>lo hi. \<exists>b<32. R (bit (p ! lo) b) (bit (p ! hi) b) (bit (q ! lo) b) (bit (q ! hi) b))"
  shows "res \<longleftrightarrow> (\<exists>m<tt_size n. R (tt_bit p (unset_bit v m)) (tt_bit p (Bit_Operations.set_bit v m))
      (tt_bit q (unset_bit v m)) (tt_bit q (Bit_Operations.set_bit v m)))"
proof -
  have words: "(\<exists>i<Kit_TruthWordNum n. \<exists>b<32. Q i b) \<longleftrightarrow> (\<exists>m<tt_size n. Q (m div 32) (m mod 32))" for Q
    using all_words_bits [of n "\<lambda>i b. \<not> Q i b"] by blast
  show ?thesis
  proof (cases "v < 5")
    case True
    have "res \<longleftrightarrow> (\<exists>m<tt_size n. \<not> bit m v \<and> R (tt_bit p m) (tt_bit p (Bit_Operations.set_bit v m))
        (tt_bit q m) (tt_bit q (Bit_Operations.set_bit v m)))"
      using True by (simp add: low [OF True] words tt_bit_def)
    also have "\<dots> \<longleftrightarrow> (\<exists>m<tt_size n. R (tt_bit p (unset_bit v m)) (tt_bit p (Bit_Operations.set_bit v m))
      (tt_bit q (unset_bit v m)) (tt_bit q (Bit_Operations.set_bit v m)))" (is "(\<exists>m<_. ?P m) = (\<exists>m<_. ?Q m)")
    proof
      assume "\<exists>m<tt_size n. ?P m"
      then show "\<exists>m<tt_size n. ?Q m" by (auto simp: unset_bit_id)
    next
      assume "\<exists>m<tt_size n. ?Q m"
      then obtain m where m: "m < tt_size n" "?Q m" by blast
      then have "unset_bit v m < tt_size n" "?P (unset_bit v m)"
        by (simp_all add: tt_size_exp bit_unset_bit_iff)
      then show "\<exists>m<tt_size n. ?P m" by blast
    qed
    finally show ?thesis .
  next
    case False
    then have v: "5 \<le> v" by simp
    show ?thesis
      using False by (simp add: high [OF v] any_pairs_partners [OF v assms(2)] words tt_bit_def)
  qed
qed

lemma VarInSupport_low:
  "v < 5 \<Longrightarrow> Kit_TruthVarInSupport p n v \<longleftrightarrow> (\<exists>i<Kit_TruthWordNum n.
     (p ! i AND low_masks ! v) \<noteq> drop_bit (2 ^ v) (p ! i AND var_masks ! v))"
  by (drule less_5_cases, elim disjE) (simp_all add: Kit_TruthVarInSupport_def switch_simps del: drop_bit_and)

lemma Kit_TruthVarInSupport_iff:
  assumes "tt_ok p n" "v < n"
  shows "Kit_TruthVarInSupport p n v \<longleftrightarrow>
    (\<exists>m<tt_size n. tt_bit p (unset_bit v m) \<noteq> tt_bit p (Bit_Operations.set_bit v m))"
proof (rule tt_partner_exists [OF assms, where R = "\<lambda>a b c d. a \<noteq> b"])
  assume v: "v < 5"
  show "Kit_TruthVarInSupport p n v \<longleftrightarrow> (\<exists>i<Kit_TruthWordNum n. \<exists>b<32. \<not> bit b v \<and>
      (bit (p ! i) b \<noteq> bit (p ! i) (Bit_Operations.set_bit v b)))"
    using v by (auto simp: VarInSupport_low u32_eq_iff bit_and_low bit_drop_high simp del: drop_bit_and)
next
  assume "5 \<le> v"
  then show "Kit_TruthVarInSupport p n v \<longleftrightarrow> any_pairs (Kit_TruthWordNum n) (2 ^ (v - 5))
      (\<lambda>lo hi. \<exists>b<32. bit (p ! lo) b \<noteq> bit (p ! hi) b)"
    by (simp add: Kit_TruthVarInSupport_def Let_def u32_eq_iff)
qed

lemma VarIsVacuous_low:
  "v < 5 \<Longrightarrow> Kit_TruthVarIsVacuous p q n v \<longleftrightarrow> \<not> (\<exists>i<Kit_TruthWordNum n.
     (((p ! i AND drop_bit (2 ^ v) (q ! i)) OR (q ! i AND drop_bit (2 ^ v) (p ! i))) AND low_masks ! v) \<noteq> 0)"
  by (drule less_5_cases, elim disjE) (simp_all add: Kit_TruthVarIsVacuous_def switch_simps)

lemma Kit_TruthVarIsVacuous_iff:
  assumes "tt_ok p n" "v < n"
  shows "Kit_TruthVarIsVacuous p q n v \<longleftrightarrow>
    \<not> (\<exists>m<tt_size n. tt_bit p (unset_bit v m) \<and> tt_bit q (Bit_Operations.set_bit v m) \<or>
        tt_bit q (unset_bit v m) \<and> tt_bit p (Bit_Operations.set_bit v m))"
proof -
  have "(\<not> Kit_TruthVarIsVacuous p q n v) \<longleftrightarrow>
     (\<exists>m<tt_size n. tt_bit p (unset_bit v m) \<and> tt_bit q (Bit_Operations.set_bit v m) \<or>
        tt_bit q (unset_bit v m) \<and> tt_bit p (Bit_Operations.set_bit v m))"
  proof (rule tt_partner_exists [OF assms, where R = "\<lambda>a b c d. a \<and> d \<or> c \<and> b"])
    assume v: "v < 5"
    have "bit (((x AND drop_bit (2 ^ v) y) OR (y AND drop_bit (2 ^ v) x)) AND low_masks ! v) b \<longleftrightarrow>
        \<not> bit b v \<and> (bit x b \<and> bit y (Bit_Operations.set_bit v b) \<or>
          bit y b \<and> bit x (Bit_Operations.set_bit v b))" if "b < 32" for x y b
      using v that by (cases "bit b v") (simp_all add: low_masks_bit bit_simps set_bit_eq_add add.commute)
    then show "(\<not> Kit_TruthVarIsVacuous p q n v) \<longleftrightarrow> (\<exists>i<Kit_TruthWordNum n. \<exists>b<32. \<not> bit b v \<and>
      (bit (p ! i) b \<and> bit (q ! i) (Bit_Operations.set_bit v b) \<or>
       bit (q ! i) b \<and> bit (p ! i) (Bit_Operations.set_bit v b)))"
      using v by (simp add: VarIsVacuous_low word_nonzero_bit cong: conj_cong)
  next
    assume "5 \<le> v"
    then show "(\<not> Kit_TruthVarIsVacuous p q n v) \<longleftrightarrow> any_pairs (Kit_TruthWordNum n) (2 ^ (v - 5))
      (\<lambda>lo hi. \<exists>b<32. bit (p ! lo) b \<and> bit (q ! hi) b \<or> bit (q ! lo) b \<and> bit (p ! hi) b)"
      by (simp add: Kit_TruthVarIsVacuous_def Let_def word_nonzero_bit bit_simps)
  qed
  then show ?thesis by blast
qed

section \<open>Counting in one cofactor\<close>

lemma for_pairs_sum:
  assumes n: "n = k * (2 * 2 ^ s)"
  shows "for_pairs n (2 ^ s) (\<lambda>lo hi c. c + f lo hi) 0 =
    (\<Sum>lo | lo < n \<and> \<not> bit lo s. f lo (Bit_Operations.set_bit s lo) :: nat)"
proof -
  let ?ps = "pair_list n (2 ^ s)"
  have "fold (\<lambda>(lo, hi) c. c + f lo hi) ps a = a + (\<Sum>(lo, hi) \<leftarrow> ps. f lo hi)" for ps a
    by (induction ps arbitrary: a) (auto simp: add.assoc)
  then have "for_pairs n (2 ^ s) (\<lambda>lo hi c. c + f lo hi) 0 = (\<Sum>(lo, hi) \<leftarrow> ?ps. f lo hi)"
    by (simp add: for_pairs_pair_list)
  also have "\<dots> = (\<Sum>(lo, hi) \<in> set ?ps. f lo hi)"
    using pair_list_distinct [OF n] by (intro sum_list_distinct_conv_sum_set) (auto simp: distinct_map)
  also have "set ?ps = (\<lambda>lo. (lo, Bit_Operations.set_bit s lo)) ` {lo. lo < n \<and> \<not> bit lo s}"
    using pair_list_mem [OF n] by (auto simp: set_bit_eq_add image_iff)
  also have "(\<Sum>(lo, hi) \<in> \<dots>. f lo hi) = (\<Sum>lo | lo < n \<and> \<not> bit lo s. f lo (Bit_Operations.set_bit s lo))"
    by (subst sum.reindex) (auto simp: inj_on_def)
  finally show ?thesis .
qed

text \<open>A count over bits and a count over words are the same count of minterms.\<close>

lemma tt_partner_count:
  assumes "v < n"
    and low: "v < 5 \<Longrightarrow> res = for_up (Kit_TruthWordNum n) (\<lambda>i c. c + Kit_WordCountOnes (W i)) 0"
      "\<And>i b. v < 5 \<Longrightarrow> b < 32 \<Longrightarrow> bit (W i) b \<longleftrightarrow>
         \<not> bit b v \<and> R (bit (p ! i) b) (bit (p ! i) (Bit_Operations.set_bit v b))"
    and high: "5 \<le> v \<Longrightarrow> res = for_pairs (Kit_TruthWordNum n) (2 ^ (v - 5))
         (\<lambda>lo hi c. c + Kit_WordCountOnes (V lo hi)) 0"
      "\<And>lo hi b. 5 \<le> v \<Longrightarrow> b < 32 \<Longrightarrow> bit (V lo hi) b \<longleftrightarrow> R (bit (p ! lo) b) (bit (p ! hi) b)"
  shows "res = card {m. m < tt_size n \<and> \<not> bit m v \<and> R (tt_bit p m) (tt_bit p (Bit_Operations.set_bit v m))}"
proof (cases "v < 5")
  case True
  have "res = (\<Sum>w<Kit_TruthWordNum n. card {b. b < 32 \<and> \<not> bit b v \<and>
      R (bit (p ! w) b) (bit (p ! w) (Bit_Operations.set_bit v b))})"
    using low(2) [OF True]
    by (simp add: low(1) [OF True] for_up_sum Kit_WordCountOnes_ones ones_def cong: conj_cong)
  also have "\<dots> = card {m. m < 32 * Kit_TruthWordNum n \<and> \<not> bit (m mod 32) v \<and>
      R (bit (p ! (m div 32)) (m mod 32)) (bit (p ! (m div 32)) (Bit_Operations.set_bit v (m mod 32)))}"
    by (rule card_div_mod_32 [symmetric])
  finally show ?thesis
    using True by (simp add: tt_size_def tt_bit_def)
next
  case False
  then have v: "5 \<le> v" by simp
  let ?N = "Kit_TruthWordNum n"
  let ?hi = "Bit_Operations.set_bit (v - 5)"
  obtain k where k: "?N = k * (2 * 2 ^ (v - 5))"
    using word_num_blocks [OF v assms(1)] by blast
  have ones: "Kit_WordCountOnes (V lo hi) = card {b. b < 32 \<and> R (bit (p ! lo) b) (bit (p ! hi) b)}" for lo hi
    using high(2) [OF v] by (simp add: Kit_WordCountOnes_ones ones_def cong: conj_cong)
  have "res = (\<Sum>lo | lo < ?N \<and> \<not> bit lo (v - 5). card {b. b < 32 \<and> R (bit (p ! lo) b) (bit (p ! ?hi lo) b)})"
    by (simp add: high(1) [OF v] for_pairs_sum [OF k] ones)
  also have "\<dots> = (\<Sum>lo<?N. card {b. b < 32 \<and> \<not> bit lo (v - 5) \<and> R (bit (p ! lo) b) (bit (p ! ?hi lo) b)})"
    by (rule sum.mono_neutral_cong_left) auto
  also have "\<dots> = card {m. m < 32 * ?N \<and> \<not> bit (m div 32) (v - 5) \<and>
      R (bit (p ! (m div 32)) (m mod 32)) (bit (p ! ?hi (m div 32)) (m mod 32))}"
    by (rule card_div_mod_32 [symmetric])
  finally show ?thesis
    using v by (simp add: tt_size_def tt_bit_def)
qed

lemma Cofactor0Count_low:
  "v < 5 \<Longrightarrow> Kit_TruthCofactor0Count p n v =
     for_up (Kit_TruthWordNum n) (\<lambda>i c. c + Kit_WordCountOnes (p ! i AND low_masks ! v)) 0"
  by (drule less_5_cases, elim disjE) (simp_all add: Kit_TruthCofactor0Count_def switch_simps)

lemma Kit_TruthCofactor0Count_card:
  assumes "v < n"
  shows "Kit_TruthCofactor0Count p n v = card {m. m < tt_size n \<and> \<not> bit m v \<and> tt_bit p m}"
  by (rule tt_partner_count [OF assms Cofactor0Count_low, where R = "\<lambda>a b. a" and V = "\<lambda>lo hi. p ! lo"])
     (simp_all add: bit_and_low Kit_TruthCofactor0Count_def Let_def)

lemma BooleanDiffCount_low:
  "v < 5 \<Longrightarrow> Kit_TruthBooleanDiffCount p n v = for_up (Kit_TruthWordNum n)
     (\<lambda>i c. c + Kit_WordCountOnes ((p ! i XOR drop_bit (2 ^ v) (p ! i)) AND low_masks ! v)) 0"
  by (drule less_5_cases, elim disjE) (simp_all add: Kit_TruthBooleanDiffCount_def switch_simps)

lemma Kit_TruthBooleanDiffCount_card:
  assumes "v < n"
  shows "Kit_TruthBooleanDiffCount p n v =
    card {m. m < tt_size n \<and> \<not> bit m v \<and> tt_bit p m \<noteq> tt_bit p (Bit_Operations.set_bit v m)}"
  by (rule tt_partner_count [OF assms BooleanDiffCount_low, where R = "\<lambda>a b. a \<noteq> b"
        and V = "\<lambda>lo hi. p ! lo XOR p ! hi"])
     (auto simp: low_masks_bit Kit_TruthBooleanDiffCount_def Let_def bit_simps set_bit_eq_add add.commute)

section \<open>Properties\<close>

text \<open>
  Shannon expansion is undone by the multiplexer: writing the two cofactors of a function under
  one of its variables into any buffer gives the table of the function back.
\<close>

theorem Kit_Truth_cofactor_mux_roundtrip:
  assumes "tt_ok q n" "tt_ok q0 n" "tt_ok q1 n" "v < n" "j < Kit_TruthWordNum n"
  shows "Kit_TruthMuxVar q (Kit_TruthCofactor0New q0 p n v) (Kit_TruthCofactor1New q1 p n v) n v ! j = p ! j"
  by (rule tt_bit_eqI [OF _ assms(5)]) (use assms(1-4) in \<open>auto simp: tt_simps unset_bit_id set_bit_id\<close>)

theorem Kit_Truth_cofactor_mux_roundtrip_witness:
  "Kit_TruthMuxVar [0, 0] (Kit_TruthCofactor0New [0, 0] [3, 9] 6 5) (Kit_TruthCofactor1New [0, 0] [3, 9] 6 5) 6 5 ! 1 = 9"
  using Kit_Truth_cofactor_mux_roundtrip [of "[0, 0]" 6 "[0, 0]" "[0, 0]" 5 1 "[3, 9]"]
  by (simp add: tt_ok_def Kit_TruthWordNum_def)

text \<open>
  The copying operations agree with the operations in place: existential and universal
  quantification, and both cofactors, give the same words whether the table is overwritten or
  written to another buffer.
\<close>

theorem Kit_Truth_new_agrees_in_place:
  assumes "tt_ok q n" "tt_ok p n" "v < n" "j < Kit_TruthWordNum n"
  shows "Kit_TruthExistNew q p n v ! j = Kit_TruthExist p n v ! j \<and>
    Kit_TruthForallNew q p n v ! j = Kit_TruthForall p n v ! j \<and>
    Kit_TruthCofactor0New q p n v ! j = Kit_TruthCofactor0 p n v ! j \<and>
    Kit_TruthCofactor1New q p n v ! j = Kit_TruthCofactor1 p n v ! j"
  using assms by (intro conjI tt_bit_eqI [OF _ assms(4)]) (simp_all add: tt_simps)

theorem Kit_Truth_new_agrees_in_place_witness:
  "Kit_TruthExistNew [0] [0x90] 3 1 ! 0 = Kit_TruthExist [0x90] 3 1 ! 0"
  using Kit_Truth_new_agrees_in_place [of "[0]" 3 "[0x90]" 1 0] by (simp add: tt_ok_def Kit_TruthWordNum_def)

text \<open>
  The Boolean difference of a function is the exclusive or of its cofactors, and the function
  that counts its onset without computing it counts each pair of minterms once.
\<close>

theorem Kit_TruthBooleanDiff_correct:
  assumes "tt_ok q n" "v < n"
  shows "2 * Kit_TruthBooleanDiffCount p n v = Kit_TruthCountOnes (Kit_TruthUniqueNew q p n v) n"
proof -
  let ?D = "\<lambda>m. tt_bit p (unset_bit v m) \<noteq> tt_bit p (Bit_Operations.set_bit v m)"
  let ?A = "{m. m < tt_size n \<and> \<not> bit m v \<and> ?D m}" and ?B = "{m. m < tt_size n \<and> bit m v \<and> ?D m}"
  have "bij_betw (Bit_Operations.set_bit v) ?A ?B"
    using assms(2)
    by (intro bij_betw_byWitness [where f' = "unset_bit v"])
       (auto simp: bit_simps tt_size_exp unset_bit_id set_bit_id simp flip: bit_eq_iff)
  then have "card ?B = card ?A" by (simp add: bij_betw_same_card)
  moreover have "{m. m < tt_size n \<and> ?D m} = ?A \<union> ?B" by auto
  moreover have "card (?A \<union> ?B) = card ?A + card ?B" by (rule card_Un_disjoint) auto
  moreover have "?A = {m. m < tt_size n \<and> \<not> bit m v \<and> tt_bit p m \<noteq> tt_bit p (Bit_Operations.set_bit v m)}"
    by (auto simp: unset_bit_id)
  moreover have "{m. m < tt_size n \<and> tt_bit (Kit_TruthUniqueNew q p n v) m} = {m. m < tt_size n \<and> ?D m}"
    using assms by (auto simp: tt_simps)
  ultimately show ?thesis
    by (simp add: Kit_TruthCountOnes_card Kit_TruthBooleanDiffCount_card [OF assms(2)])
qed

theorem Kit_TruthBooleanDiff_witness:
  "2 * Kit_TruthBooleanDiffCount [0x88888888] 2 0 = Kit_TruthCountOnes (Kit_TruthUniqueNew [0] [0x88888888] 2 0) 2"
  using Kit_TruthBooleanDiff_correct [of "[0]" 2 0 "[0x88888888]"] by (simp add: tt_ok_def Kit_TruthWordNum_def)

text \<open>Changing the phase of a variable twice gives the table back.\<close>

theorem Kit_TruthChangePhase_involution:
  assumes "tt_ok p n" "v < n" "j < Kit_TruthWordNum n"
  shows "Kit_TruthChangePhase (Kit_TruthChangePhase p n v) n v ! j = p ! j"
proof (rule tt_bit_eqI [OF _ assms(3)])
  fix m assume m: "m < tt_size n"
  then have "flip_bit v m < tt_size n" using assms(2) by (cases "bit m v") (auto simp: tt_size_exp flip_bit_cases)
  moreover have "tt_ok (Kit_TruthChangePhase p n v) n" using assms(1) by (simp add: tt_ok_def)
  moreover have "flip_bit v (flip_bit v m) = m" by (rule bit_eqI) (auto simp: bit_simps)
  ultimately show "tt_bit (Kit_TruthChangePhase (Kit_TruthChangePhase p n v) n v) m = tt_bit p m"
    using assms(1,2) m by (simp add: tt_simps)
qed

theorem Kit_TruthChangePhase_involution_witness:
  "Kit_TruthChangePhase (Kit_TruthChangePhase [0x12345678, 7] 6 5) 6 5 ! 0 = 0x12345678"
  using Kit_TruthChangePhase_involution [of "[0x12345678, 7]" 6 5 0] by (simp add: tt_ok_def Kit_TruthWordNum_def)

end
