(* ===== verification/Kit_Support.thy ===== *)
theory Kit_Support
  imports Kit_Truth
begin

text \<open>
  The operations of \<open>src/abc-master/src/bool/kit/kitTruth.c\<close> that are built from the one-variable
  operations: quantification over a set of variables, support, symmetry, the choice of a
  cofactoring variable, and the counts in cofactors.

  What these clients need of a one-variable operation is the interface \<open>var_operator\<close>; a
  quantifier is an operator that combines the two cofactors.
\<close>

section \<open>The interface of the one-variable operations\<close>

definition vars_loop :: "(words \<Rightarrow> nat \<Rightarrow> nat \<Rightarrow> words) \<Rightarrow> nat \<Rightarrow> u32 \<Rightarrow> words \<Rightarrow> words" where
  "vars_loop oper nVars uMask pRes =
     for_up nVars (\<lambda>v pRes. if (uMask AND push_bit v 1) \<noteq> 0 then oper pRes nVars v else pRes) pRes"

text \<open>The minterms that agree with \<open>m\<close> outside the first \<open>k\<close> variables of the mask.\<close>

definition same_outside :: "u32 \<Rightarrow> nat \<Rightarrow> nat \<Rightarrow> nat \<Rightarrow> bool" where
  "same_outside uMask k m m' \<longleftrightarrow> (\<forall>v. \<not> (v < k \<and> bit uMask v) \<longrightarrow> bit m' v = bit m v)"

locale var_operator =
  fixes oper :: "words \<Rightarrow> nat \<Rightarrow> nat \<Rightarrow> words"
    and sem :: "nat \<Rightarrow> (nat \<Rightarrow> bool) \<Rightarrow> nat \<Rightarrow> bool"
  assumes oper_length: "length (oper p n v) = length p"
    and oper_bit: "tt_ok p n \<Longrightarrow> v < n \<Longrightarrow> m < tt_size n \<Longrightarrow> tt_bit (oper p n v) m = sem v (tt_bit p) m"
    and sem_local: "v < n \<Longrightarrow> m < tt_size n \<Longrightarrow> (\<And>k. k < tt_size n \<Longrightarrow> f k = g k) \<Longrightarrow> sem v f m = sem v g m"
begin

lemma oper_ok: "tt_ok (oper p n v) k = tt_ok p k"
  by (simp add: tt_ok_def oper_length)

lemma loop_length: "length (vars_loop oper n msk p) = length p"
  unfolding vars_loop_def
  by (rule for_up_invariant [where I = "\<lambda>_ q. length q = length p"]) (auto simp: oper_length)

text \<open>The loop over a mask composes the meanings of the operator, in the order of the variables.\<close>

lemma loop_bit:
  assumes ok: "tt_ok p n" and m: "m < tt_size n"
  shows "tt_bit (vars_loop oper n msk p) m =
    fold (\<lambda>v f. if bit msk v then sem v f else f) [0..<n] (tt_bit p) m"
proof -
  let ?step = "\<lambda>v f. if bit msk v then sem v f else f"
  let ?body = "\<lambda>v q. if (msk AND push_bit v 1) \<noteq> 0 then oper q n v else q"
  have "k \<le> n \<Longrightarrow> tt_ok (for_up k ?body p) n \<and>
      (\<forall>m<tt_size n. tt_bit (for_up k ?body p) m = fold ?step [0..<k] (tt_bit p) m)" for k
  proof (induction k)
    case (Suc k)
    then show ?case
      using sem_local [of k n _ "tt_bit (for_up k ?body p)" "fold ?step [0..<k] (tt_bit p)"]
      by (simp add: oper_ok oper_bit)
  qed (simp add: ok)
  from this [of n] m show ?thesis by (simp add: vars_loop_def)
qed

end

text \<open>A quantifier combines the values at the two partners of a minterm.\<close>

locale var_quantifier =
  fixes oper :: "words \<Rightarrow> nat \<Rightarrow> nat \<Rightarrow> words"
    and comb :: "bool \<Rightarrow> bool \<Rightarrow> bool"
    and collect :: "(nat \<Rightarrow> bool) \<Rightarrow> nat set \<Rightarrow> bool"
  assumes quant_length: "length (oper p n v) = length p"
    and quant_bit: "tt_ok p n \<Longrightarrow> v < n \<Longrightarrow> m < tt_size n \<Longrightarrow>
      tt_bit (oper p n v) m = comb (tt_bit p (unset_bit v m)) (tt_bit p (Bit_Operations.set_bit v m))"
    and collect_one: "collect f {m} = f m"
    and collect_Un: "comb (collect f A) (collect f B) = collect f (A \<union> B)"

sublocale var_quantifier \<subseteq>
  var_operator oper "\<lambda>v f m. comb (f (unset_bit v m)) (f (Bit_Operations.set_bit v m))"
  by unfold_locales (auto simp: quant_length quant_bit tt_size_exp)

context var_quantifier
begin

text \<open>Quantifying over a mask collects the values of all minterms that agree outside of it.\<close>

lemma loop_collect:
  assumes "tt_ok p n" "m < tt_size n"
  shows "tt_bit (vars_loop oper n msk p) m = collect (tt_bit p) {m'. same_outside msk n m m'}"
proof -
  let ?sem = "\<lambda>v f m. comb (f (unset_bit v m)) (f (Bit_Operations.set_bit v m))"
  have "fold (\<lambda>v f. if bit msk v then ?sem v f else f) [0..<k] f m = collect f {m'. same_outside msk k m m'}"
    for k f m
  proof (induction k arbitrary: m)
    case 0
    have "{m'. same_outside msk 0 m m'} = {m}"
      by (auto simp: same_outside_def bit_eq_iff)
    then show ?case by (simp add: collect_one)
  next
    case (Suc k)
    show ?case
    proof (cases "bit msk k")
      case False
      then have "same_outside msk (Suc k) m = same_outside msk k m"
        by (auto simp: same_outside_def fun_eq_iff less_Suc_eq)
      then show ?thesis using False Suc by simp
    next
      case True
      have "same_outside msk (Suc k) m m' \<longleftrightarrow>
          same_outside msk k (unset_bit k m) m' \<or> same_outside msk k (Bit_Operations.set_bit k m) m'" for m'
        using True
        by (cases "bit m' k") (auto simp: same_outside_def bit_unset_bit_iff bit_set_bit_iff less_Suc_eq)
      then show ?thesis
        using True Suc by (simp add: collect_Un Collect_disj_eq)
    qed
  qed
  then show ?thesis by (simp add: loop_bit [OF assms])
qed

end

section \<open>The operations meet the interface\<close>

interpretation cofactor0: var_operator Kit_TruthCofactor0 "\<lambda>v f m. f (unset_bit v m)"
  by unfold_locales (auto simp: tt_simps tt_size_exp)

interpretation cofactor1: var_operator Kit_TruthCofactor1 "\<lambda>v f m. f (Bit_Operations.set_bit v m)"
  by unfold_locales (auto simp: tt_simps tt_size_exp)

interpretation change_phase: var_operator Kit_TruthChangePhase "\<lambda>v f m. f (flip_bit v m)"
  by unfold_locales (auto simp: tt_simps tt_size_exp)

interpretation exist: var_quantifier Kit_TruthExist "(\<or>)" "\<lambda>f A. \<exists>m\<in>A. f m"
  by unfold_locales (auto simp: tt_simps)

interpretation forall: var_quantifier Kit_TruthForall "(\<and>)" "\<lambda>f A. \<forall>m\<in>A. f m"
  by unfold_locales (auto simp: tt_simps)

section \<open>Quantification over a set of variables\<close>

definition Kit_TruthExistSet :: "words \<Rightarrow> words \<Rightarrow> nat \<Rightarrow> u32 \<Rightarrow> words" where
  "Kit_TruthExistSet pRes pTruth nVars uMask =
    (let pRes = Kit_TruthCopy pRes pTruth nVars in
     for_up nVars (\<lambda>v pRes.
       if (uMask AND push_bit v 1) \<noteq> 0 then Kit_TruthExist pRes nVars v else pRes) pRes)"

definition Kit_TruthForallSet :: "words \<Rightarrow> words \<Rightarrow> nat \<Rightarrow> u32 \<Rightarrow> words" where
  "Kit_TruthForallSet pRes pTruth nVars uMask =
    (let pRes = Kit_TruthCopy pRes pTruth nVars in
     for_up nVars (\<lambda>v pRes.
       if (uMask AND push_bit v 1) \<noteq> 0 then Kit_TruthForall pRes nVars v else pRes) pRes)"

lemma same_outside_size:
  "m < tt_size n \<Longrightarrow> same_outside msk n m m' \<Longrightarrow> m' < tt_size n"
  by (auto simp: tt_size_exp less_exp_bits same_outside_def) (metis less_max_iff_disj)

lemma tt_bit_Kit_TruthExistSet:
  assumes "tt_ok q n" "m < tt_size n"
  shows "tt_bit (Kit_TruthExistSet q p n msk) m \<longleftrightarrow> (\<exists>m'. same_outside msk n m m' \<and> tt_bit p m')"
proof -
  have "Kit_TruthExistSet q p n msk = vars_loop Kit_TruthExist n msk (Kit_TruthCopy q p n)"
    by (simp add: Kit_TruthExistSet_def vars_loop_def)
  then show ?thesis
    using assms exist.loop_collect [of "Kit_TruthCopy q p n" n m msk]
    by (auto simp: tt_bit_kit_ops same_outside_size)
qed

lemma tt_bit_Kit_TruthForallSet:
  assumes "tt_ok q n" "m < tt_size n"
  shows "tt_bit (Kit_TruthForallSet q p n msk) m \<longleftrightarrow> (\<forall>m'. same_outside msk n m m' \<longrightarrow> tt_bit p m')"
proof -
  have "Kit_TruthForallSet q p n msk = vars_loop Kit_TruthForall n msk (Kit_TruthCopy q p n)"
    by (simp add: Kit_TruthForallSet_def vars_loop_def)
  then show ?thesis
    using assms forall.loop_collect [of "Kit_TruthCopy q p n" n m msk]
    by (auto simp: tt_bit_kit_ops same_outside_size)
qed

section \<open>Support\<close>

definition Kit_TruthSupportSize :: "words \<Rightarrow> nat \<Rightarrow> nat" where
  "Kit_TruthSupportSize pTruth nVars =
     for_up nVars (\<lambda>i Counter. Counter + of_bool (Kit_TruthVarInSupport pTruth nVars i)) 0"

definition Kit_TruthSupport :: "words \<Rightarrow> nat \<Rightarrow> u32" where
  "Kit_TruthSupport pTruth nVars =
     for_up nVars (\<lambda>i Support.
       if Kit_TruthVarInSupport pTruth nVars i then Support OR push_bit i 1 else Support) 0"

text \<open>The variables a function of \<open>n\<close> variables depends on.\<close>

definition tt_support :: "(nat \<Rightarrow> bool) \<Rightarrow> nat \<Rightarrow> nat set" where
  "tt_support f n = {v. v < n \<and> (\<exists>m<tt_size n. f (unset_bit v m) \<noteq> f (Bit_Operations.set_bit v m))}"

lemma tt_support_finite [simp]: "finite (tt_support f n)"
  by (simp add: tt_support_def)

lemma Kit_TruthVarInSupport_support:
  "tt_ok p n \<Longrightarrow> v < n \<Longrightarrow> Kit_TruthVarInSupport p n v \<longleftrightarrow> v \<in> tt_support (tt_bit p) n"
  by (simp add: Kit_TruthVarInSupport_iff tt_support_def)

lemma Kit_TruthSupportSize_card:
  assumes "tt_ok p n"
  shows "Kit_TruthSupportSize p n = card (tt_support (tt_bit p) n)"
proof -
  have "Kit_TruthSupportSize p n = (\<Sum>i<n. of_bool (i \<in> tt_support (tt_bit p) n))"
    using assms by (simp add: Kit_TruthSupportSize_def for_up_sum Kit_TruthVarInSupport_support)
  also have "\<dots> = card ({..<n} \<inter> tt_support (tt_bit p) n)"
    by (simp add: of_bool_def sum.If_cases)
  also have "{..<n} \<inter> tt_support (tt_bit p) n = tt_support (tt_bit p) n"
    by (auto simp: tt_support_def)
  finally show ?thesis .
qed

lemma bit_Kit_TruthSupport:
  assumes "tt_ok p n" "n \<le> 32"
  shows "bit (Kit_TruthSupport p n) v \<longleftrightarrow> v \<in> tt_support (tt_bit p) n"
proof -
  let ?body = "\<lambda>i S. if Kit_TruthVarInSupport p n i then S OR push_bit i (1 :: u32) else S"
  have "bit (for_up k ?body 0) v \<longleftrightarrow> v < k \<and> v \<in> tt_support (tt_bit p) n" if "k \<le> n" for k
    using that assms(2)
    by (induction k)
       (auto simp: Kit_TruthVarInSupport_support [OF assms(1)] bit_simps less_Suc_eq)
  from this [of n] show ?thesis
    by (auto simp: Kit_TruthSupport_def tt_support_def)
qed

lemma ones_Kit_TruthSupport:
  assumes "tt_ok p n" "n \<le> 32"
  shows "Kit_WordCountOnes (Kit_TruthSupport p n) = card (tt_support (tt_bit p) n)"
proof -
  have "{i. i < 32 \<and> bit (Kit_TruthSupport p n) i} = tt_support (tt_bit p) n"
    using assms by (auto simp: bit_Kit_TruthSupport tt_support_def)
  then show ?thesis by (simp add: Kit_WordCountOnes_ones ones_def)
qed

lemma tt_support_cong:
  "(\<And>m. m < tt_size n \<Longrightarrow> f m = g m) \<Longrightarrow> tt_support f n = tt_support g n"
  by (auto simp: tt_support_def tt_size_exp)

section \<open>Symmetry\<close>

text \<open>
  The last two arguments are buffers for the cofactors; without them (\<open>NULL\<close> in the code) static
  arrays of 32 words are used.
\<close>

definition Kit_TruthVarsSymm :: "words \<Rightarrow> nat \<Rightarrow> nat \<Rightarrow> nat \<Rightarrow> words option \<Rightarrow> words option \<Rightarrow> bool" where
  "Kit_TruthVarsSymm pTruth nVars iVar0 iVar1 pCof0 pCof1 =
    (let pCof0 = (case pCof0 of None \<Rightarrow> replicate 32 0 | Some b \<Rightarrow> b);
         pCof1 = (case pCof1 of None \<Rightarrow> replicate 32 0 | Some b \<Rightarrow> b);
         pCof0 = Kit_TruthCopy pCof0 pTruth nVars;
         pCof0 = Kit_TruthCofactor0 pCof0 nVars iVar0;
         pCof0 = Kit_TruthCofactor1 pCof0 nVars iVar1;
         pCof1 = Kit_TruthCopy pCof1 pTruth nVars;
         pCof1 = Kit_TruthCofactor1 pCof1 nVars iVar0;
         pCof1 = Kit_TruthCofactor0 pCof1 nVars iVar1
     in Kit_TruthIsEqual pCof0 pCof1 nVars)"

definition Kit_TruthVarsAntiSymm :: "words \<Rightarrow> nat \<Rightarrow> nat \<Rightarrow> nat \<Rightarrow> words option \<Rightarrow> words option \<Rightarrow> bool" where
  "Kit_TruthVarsAntiSymm pTruth nVars iVar0 iVar1 pCof0 pCof1 =
    (let pCof0 = (case pCof0 of None \<Rightarrow> replicate 32 0 | Some b \<Rightarrow> b);
         pCof1 = (case pCof1 of None \<Rightarrow> replicate 32 0 | Some b \<Rightarrow> b);
         pCof0 = Kit_TruthCopy pCof0 pTruth nVars;
         pCof0 = Kit_TruthCofactor0 pCof0 nVars iVar0;
         pCof0 = Kit_TruthCofactor0 pCof0 nVars iVar1;
         pCof1 = Kit_TruthCopy pCof1 pTruth nVars;
         pCof1 = Kit_TruthCofactor1 pCof1 nVars iVar0;
         pCof1 = Kit_TruthCofactor1 pCof1 nVars iVar1
     in Kit_TruthIsEqual pCof0 pCof1 nVars)"

definition buffer_ok :: "words option \<Rightarrow> nat \<Rightarrow> bool" where
  "buffer_ok b n \<longleftrightarrow> (case b of None \<Rightarrow> n \<le> 10 | Some p \<Rightarrow> tt_ok p n)"

lemma buffer_ok_tt_ok: "buffer_ok b n \<Longrightarrow> tt_ok (case b of None \<Rightarrow> replicate 32 0 | Some p \<Rightarrow> p) n"
proof (cases b)
  case None
  assume "buffer_ok b n"
  then have "(2::nat) ^ (n - 5) \<le> 2 ^ 5" using None by (intro power_increasing) (auto simp: buffer_ok_def)
  then show ?thesis using None by (simp add: tt_ok_def Kit_TruthWordNum_alt)
qed (simp add: buffer_ok_def)

text \<open>Minterms with the values \<open>a\<close> and \<open>b\<close> given to two variables.\<close>

definition assign2 :: "nat \<Rightarrow> nat \<Rightarrow> bool \<Rightarrow> bool \<Rightarrow> nat \<Rightarrow> nat" where
  "assign2 v w a b m =
    (let m = (if b then Bit_Operations.set_bit w m else unset_bit w m)
     in if a then Bit_Operations.set_bit v m else unset_bit v m)"

lemma Kit_TruthVarsSymm_assign2:
  assumes "buffer_ok b0 n" "buffer_ok b1 n" "v < n" "w < n"
  shows "Kit_TruthVarsSymm p n v w b0 b1 \<longleftrightarrow>
    (\<forall>m<tt_size n. tt_bit p (assign2 v w False True m) = tt_bit p (assign2 v w True False m))"
  using buffer_ok_tt_ok [OF assms(1)] buffer_ok_tt_ok [OF assms(2)] assms(3,4)
  by (simp add: Kit_TruthVarsSymm_def Let_def Kit_TruthIsEqual_iff cofactor0.oper_bit cofactor1.oper_bit
      cofactor0.oper_ok cofactor1.oper_ok tt_bit_kit_ops(1) assign2_def tt_size_exp)

lemma Kit_TruthVarsAntiSymm_assign2:
  assumes "buffer_ok b0 n" "buffer_ok b1 n" "v < n" "w < n"
  shows "Kit_TruthVarsAntiSymm p n v w b0 b1 \<longleftrightarrow>
    (\<forall>m<tt_size n. tt_bit p (assign2 v w False False m) = tt_bit p (assign2 v w True True m))"
  using buffer_ok_tt_ok [OF assms(1)] buffer_ok_tt_ok [OF assms(2)] assms(3,4)
  by (simp add: Kit_TruthVarsAntiSymm_def Let_def Kit_TruthIsEqual_iff cofactor0.oper_bit cofactor1.oper_bit
      cofactor0.oper_ok cofactor1.oper_ok tt_bit_kit_ops(1) assign2_def tt_size_exp)

section \<open>Choosing a cofactoring variable\<close>

text \<open>
  The static buffer of 16 words is filled by \<open>Kit_TruthCopy\<close> before every use; the model starts
  each use from a buffer of zeros.
\<close>

fun Kit_TruthMinCofSuppOverlap_loop :: "words \<Rightarrow> nat \<Rightarrow> nat list \<Rightarrow> nat \<Rightarrow> int \<Rightarrow> nat \<times> int" where
  "Kit_TruthMinCofSuppOverlap_loop pTruth nVars [] ValueMin VarMin = (ValueMin, VarMin)"
| "Kit_TruthMinCofSuppOverlap_loop pTruth nVars (i # is) ValueMin VarMin =
    (let uCofactor = Kit_TruthCopy (replicate 16 0) pTruth nVars;
         uCofactor = Kit_TruthCofactor0 uCofactor nVars i;
         uSupp0 = Kit_TruthSupport uCofactor nVars;
         nVars0 = Kit_WordCountOnes uSupp0;
         uCofactor = Kit_TruthCopy uCofactor pTruth nVars;
         uCofactor = Kit_TruthCofactor1 uCofactor nVars i;
         uSupp1 = Kit_TruthSupport uCofactor nVars;
         nVars1 = Kit_WordCountOnes uSupp1;
         ValueCur = Kit_WordCountOnes (uSupp0 AND uSupp1);
         (ValueMin, VarMin) = (if ValueMin > ValueCur \<and> nVars0 \<le> 5 \<and> nVars1 \<le> 5
                               then (ValueCur, int i) else (ValueMin, VarMin))
     in if ValueMin = 0 then (ValueMin, VarMin)
        else Kit_TruthMinCofSuppOverlap_loop pTruth nVars is ValueMin VarMin)"

definition Kit_TruthMinCofSuppOverlap :: "words \<Rightarrow> nat \<Rightarrow> nat \<times> int" where
  "Kit_TruthMinCofSuppOverlap pTruth nVars =
     Kit_TruthMinCofSuppOverlap_loop pTruth nVars [0..<nVars] 32 (-1)"

fun Kit_TruthBestCofVar_body :: "words \<Rightarrow> nat \<Rightarrow> nat \<Rightarrow> nat \<times> int \<times> words \<times> words \<Rightarrow> nat \<times> int \<times> words \<times> words" where
  "Kit_TruthBestCofVar_body pTruth nVars i (nSuppSizeMin, iBestVar, pCof0, pCof1) =
    (let pCof0 = Kit_TruthCofactor0New pCof0 pTruth nVars i;
         pCof1 = Kit_TruthCofactor1New pCof1 pTruth nVars i;
         nSuppSizeCur0 = Kit_TruthSupportSize pCof0 nVars;
         nSuppSizeCur1 = Kit_TruthSupportSize pCof1 nVars;
         nSuppSizeCur = nSuppSizeCur0 + nSuppSizeCur1
     in if nSuppSizeMin > nSuppSizeCur then (nSuppSizeCur, int i, pCof0, pCof1)
        else (nSuppSizeMin, iBestVar, pCof0, pCof1))"

definition Kit_TruthBestCofVar :: "words \<Rightarrow> nat \<Rightarrow> words \<Rightarrow> words \<Rightarrow> int \<times> words \<times> words" where
  "Kit_TruthBestCofVar pTruth nVars pCof0 pCof1 =
    (if Kit_TruthIsConst0 pTruth nVars \<or> Kit_TruthIsConst1 pTruth nVars then (-1, pCof0, pCof1) else
     let (nSuppSizeMin, iBestVar, pCof0, pCof1) =
       for_up nVars (Kit_TruthBestCofVar_body pTruth nVars) (100000000, -1, pCof0, pCof1);
       pCof0 = Kit_TruthCofactor0New pCof0 pTruth nVars (nat iBestVar);
       pCof1 = Kit_TruthCofactor1New pCof1 pTruth nVars (nat iBestVar)
     in (iBestVar, pCof0, pCof1))"

text \<open>The supports of the two cofactors of a function.\<close>

definition cof_support :: "bool \<Rightarrow> words \<Rightarrow> nat \<Rightarrow> nat \<Rightarrow> nat set" where
  "cof_support c p n v =
     tt_support (\<lambda>m. tt_bit p (if c then Bit_Operations.set_bit v m else unset_bit v m)) n"

lemma cof_support_finite [simp]: "finite (cof_support c p n v)"
  by (simp add: cof_support_def)

lemma cof_support_subset: "cof_support c p n v \<subseteq> {..<n}"
  by (auto simp: cof_support_def tt_support_def)

definition overlap :: "words \<Rightarrow> nat \<Rightarrow> nat \<Rightarrow> nat" where
  "overlap p n v = card (cof_support False p n v \<inter> cof_support True p n v)"

definition small_cofs :: "words \<Rightarrow> nat \<Rightarrow> nat \<Rightarrow> bool" where
  "small_cofs p n v \<longleftrightarrow> card (cof_support False p n v) \<le> 5 \<and> card (cof_support True p n v) \<le> 5"

lemma tt_ok_static16: "n \<le> 9 \<Longrightarrow> tt_ok (replicate 16 0) n"
proof -
  assume "n \<le> 9"
  then have "(2::nat) ^ (n - 5) \<le> 2 ^ 4" by (intro power_increasing) auto
  then show ?thesis by (simp add: tt_ok_def Kit_TruthWordNum_alt)
qed

lemma MinCofSuppOverlap_step:
  assumes n: "n \<le> 9" and i: "i < n"
  shows "Kit_TruthMinCofSuppOverlap_loop p n (i # is) V A =
    (let (V, A) = (if V > overlap p n i \<and> small_cofs p n i then (overlap p n i, int i) else (V, A))
     in if V = 0 then (V, A) else Kit_TruthMinCofSuppOverlap_loop p n is V A)"
proof -
  define c0 where "c0 = Kit_TruthCofactor0 (Kit_TruthCopy (replicate 16 0) p n) n i"
  define c1 where "c1 = Kit_TruthCofactor1 (Kit_TruthCopy c0 p n) n i"
  have ok: "tt_ok c0 n" "tt_ok c1 n"
    using tt_ok_static16 [OF n] by (simp_all add: c0_def c1_def cofactor0.oper_ok cofactor1.oper_ok)
  have "tt_support (tt_bit c0) n = cof_support False p n i"
    unfolding cof_support_def c0_def using tt_ok_static16 [OF n] i
    by (intro tt_support_cong) (simp add: tt_simps tt_bit_kit_ops(1) tt_size_exp)
  moreover have "tt_support (tt_bit c1) n = cof_support True p n i"
    unfolding cof_support_def c1_def using ok i
    by (intro tt_support_cong) (simp add: tt_simps tt_bit_kit_ops(1) tt_size_exp)
  ultimately have supp: "bit (Kit_TruthSupport c0 n) v \<longleftrightarrow> v \<in> cof_support False p n i"
    "bit (Kit_TruthSupport c1 n) v \<longleftrightarrow> v \<in> cof_support True p n i" for v
    using ok n by (simp_all add: bit_Kit_TruthSupport)
  have sub: "cof_support c p n i \<subseteq> {..<32}" for c
    using cof_support_subset n by fastforce
  have count: "Kit_WordCountOnes (Kit_TruthSupport c0 n) = card (cof_support False p n i)"
    "Kit_WordCountOnes (Kit_TruthSupport c1 n) = card (cof_support True p n i)"
    "Kit_WordCountOnes (Kit_TruthSupport c0 n AND Kit_TruthSupport c1 n) = overlap p n i"
    using sub by (auto simp: Kit_WordCountOnes_ones ones_def supp overlap_def bit_and_iff
        intro!: arg_cong [where f = card])
  show ?thesis
    by (simp add: Let_def flip: c0_def) (auto simp: small_cofs_def count Let_def simp flip: c1_def)
qed

lemma MinCofSuppOverlap_scan:
  "n \<le> 9 \<Longrightarrow> set is \<subseteq> {..<n} \<Longrightarrow>
   Kit_TruthMinCofSuppOverlap_loop p n is V A = scan_min (overlap p n) (filter (small_cofs p n) is) (V, A) int"
proof (induction "is" arbitrary: V A)
  case (Cons i "is")
  have zero: "scan_min (overlap p n) js (0, a) int = (0, a)" for js and a
    by (induction js) (auto simp: scan_min_def)
  show ?case
    using Cons.prems zero
    by (subst MinCofSuppOverlap_step)
       (auto simp: Cons.IH Let_def scan_min_def zero [unfolded scan_min_def] split: if_splits)
qed (simp add: scan_min_def)

text \<open>
  The result is the smallest overlap of the supports of the two cofactors among the variables
  whose cofactors have at most five variables each, with the first variable that attains it.
\<close>

lemma Kit_TruthMinCofSuppOverlap_min:
  assumes "n \<le> 9" "Kit_TruthMinCofSuppOverlap p n = (V, A)"
  shows "(\<forall>i<n. \<not> small_cofs p n i) \<and> V = 32 \<and> A = -1 \<or>
    (\<exists>i<n. A = int i \<and> small_cofs p n i \<and> V = overlap p n i \<and>
       (\<forall>j<n. small_cofs p n j \<longrightarrow> overlap p n i \<le> overlap p n j \<and>
         (j < i \<longrightarrow> overlap p n i < overlap p n j)))"
proof -
  have small: "overlap p n i < 32" for i
    using card_mono [of "{..<n}" "cof_support False p n i \<inter> cof_support True p n i"]
      le_infI1 [OF cof_support_subset] assms(1) by (fastforce simp: overlap_def)
  have scan: "scan_min (overlap p n) (filter (small_cofs p n) [0..<n]) (32, -1) int = (V, A)"
    using assms MinCofSuppOverlap_scan [of n "[0..<n]" p 32 "-1"]
    by (simp add: Kit_TruthMinCofSuppOverlap_def atLeast0LessThan)
  from scan_min_spec [OF scan] show ?thesis
  proof (elim disjE exE conjE)
    assume "(V, A) = (32, -1)" "\<forall>i \<in> set (filter (small_cofs p n) [0..<n]). 32 \<le> overlap p n i"
    then show ?thesis using small by (fastforce simp: not_le [symmetric])
  next
    fix ps i qs
    assume split: "filter (small_cofs p n) [0..<n] = ps @ i # qs"
      and V: "V = overlap p n i" and A: "A = int i"
      and before: "\<forall>j \<in> set ps. overlap p n i < overlap p n j"
      and after: "\<forall>j \<in> set qs. overlap p n i \<le> overlap p n j"
    have sorted: "sorted (ps @ i # qs)"
      unfolding split [symmetric] by (simp add: sorted_wrt_filter)
    have "set (filter (small_cofs p n) [0..<n]) = set (ps @ i # qs)"
      by (simp only: split)
    then have mem: "i < n" "small_cofs p n i"
      "\<And>j. j < n \<Longrightarrow> small_cofs p n j \<Longrightarrow> j \<in> set ps \<or> j = i \<or> j \<in> set qs"
      by (auto simp: set_eq_iff)
    have "j < i \<Longrightarrow> j \<notin> set qs" for j using sorted by (auto simp: sorted_append)
    then show ?thesis
      using V A before after mem
      by (intro disjI2 exI [of _ i]) (auto simp: less_imp_le dest!: mem(3))
  qed
qed

definition cof_cost :: "words \<Rightarrow> nat \<Rightarrow> nat \<Rightarrow> nat" where
  "cof_cost p n v = card (cof_support False p n v) + card (cof_support True p n v)"

lemma cof_cost_le: "cof_cost p n v \<le> 2 * n"
  using card_mono [OF _ cof_support_subset [of False p n v]] card_mono [OF _ cof_support_subset [of True p n v]]
  by (simp add: cof_cost_def)

lemma tt_ok_CofactorNew [simp]:
  "tt_ok (Kit_TruthCofactor0New q p n v) k = tt_ok q k" "tt_ok (Kit_TruthCofactor1New q p n v) k = tt_ok q k"
  by (simp_all add: tt_ok_def)

lemma SupportSize_CofactorNew:
  assumes "tt_ok q n" "v < n"
  shows "Kit_TruthSupportSize (Kit_TruthCofactor0New q p n v) n = card (cof_support False p n v)"
    and "Kit_TruthSupportSize (Kit_TruthCofactor1New q p n v) n = card (cof_support True p n v)"
  using assms
  by (auto simp: Kit_TruthSupportSize_card cof_support_def tt_simps
      intro!: arg_cong [where f = card] tt_support_cong)

lemma Kit_TruthBestCofVar_best:
  assumes best: "Kit_TruthBestCofVar p n c0 c1 = (A, d0, d1)"
    and ok: "tt_ok c0 n" "tt_ok c1 n" and n: "0 < n" "n \<le> 32"
    and nonconst: "\<exists>m<tt_size n. tt_bit p m" "\<exists>m<tt_size n. \<not> tt_bit p m"
  shows "\<exists>i<n. A = int i \<and> (\<forall>j<n. cof_cost p n i \<le> cof_cost p n j) \<and>
    (\<forall>m<tt_size n. tt_bit d0 m = tt_bit p (unset_bit i m) \<and>
       tt_bit d1 m = tt_bit p (Bit_Operations.set_bit i m))"
proof -
  let ?body = "Kit_TruthBestCofVar_body p n"
  obtain V A' e0 e1 where loop: "for_up n ?body (100000000, -1, c0, c1) = (V, A', e0, e1)"
    by (metis prod_cases4)
  have inv: "k \<le> n \<Longrightarrow> for_up k ?body (100000000, -1, c0, c1) = (V, A, e0, e1) \<Longrightarrow>
      scan_min (cof_cost p n) [0..<k] (100000000, -1) int = (V, A) \<and> tt_ok e0 n \<and> tt_ok e1 n" for k V A e0 e1
  proof (induction k arbitrary: V A e0 e1)
    case 0
    then show ?case using ok by (simp add: scan_min_def)
  next
    case (Suc k)
    obtain V' A' f0 f1 where prev: "for_up k ?body (100000000, -1, c0, c1) = (V', A', f0, f1)"
      by (metis prod_cases4)
    have IH: "scan_min (cof_cost p n) [0..<k] (100000000, -1) int = (V', A')" "tt_ok f0 n" "tt_ok f1 n"
      using Suc.IH [OF _ prev] Suc.prems(1) by auto
    have "?body k (V', A', f0, f1) = (V, A, e0, e1)"
      using Suc.prems(2) prev by simp
    then show ?case
      using IH Suc.prems(1)
      by (auto simp: SupportSize_CofactorNew scan_min_snoc Let_def cof_cost_def [symmetric] split: if_splits)
  qed
  have scan: "scan_min (cof_cost p n) [0..<n] (100000000, -1) int = (V, A')" and e: "tt_ok e0 n" "tt_ok e1 n"
    using inv [OF order_refl loop] by auto
  have "\<not> Kit_TruthIsConst0 p n" "\<not> Kit_TruthIsConst1 p n"
    using nonconst by (auto simp: Kit_TruthIsConst0_iff Kit_TruthIsConst1_iff)
  then have res: "A = A'" "d0 = Kit_TruthCofactor0New e0 p n (nat A')" "d1 = Kit_TruthCofactor1New e1 p n (nat A')"
    using best loop by (auto simp: Kit_TruthBestCofVar_def Let_def)
  have "\<exists>i<n. A' = int i \<and> (\<forall>j<n. cof_cost p n i \<le> cof_cost p n j)"
    using scan_min_spec [OF scan]
  proof (elim disjE exE conjE)
    assume "\<forall>i \<in> set [0..<n]. 100000000 \<le> cof_cost p n i"
    then have "100000000 \<le> cof_cost p n 0" using n by simp
    then show ?thesis using cof_cost_le [of p n 0] n by simp
  next
    fix ps i qs
    assume split: "[0..<n] = ps @ i # qs" "V = cof_cost p n i" "A' = int i"
      "\<forall>j \<in> set ps. cof_cost p n i < cof_cost p n j" "\<forall>j \<in> set qs. cof_cost p n i \<le> cof_cost p n j"
    have "set [0..<n] = set (ps @ i # qs)" by (simp only: split(1))
    then have mem: "i < n" "\<And>j. j < n \<Longrightarrow> j \<in> set ps \<or> j = i \<or> j \<in> set qs"
      by (auto simp: set_eq_iff)
    show ?thesis using split(2-) mem(1) by (intro exI [of _ i]) (auto simp: less_imp_le dest!: mem(2))
  qed
  then show ?thesis using res e by (auto simp: tt_simps)
qed

section \<open>Counts\<close>

definition Kit_TruthXorCount :: "words \<Rightarrow> words \<Rightarrow> nat \<Rightarrow> nat" where
  "Kit_TruthXorCount pTruth0 pTruth1 nVars =
     for_up (Kit_TruthWordNum nVars) (\<lambda>i Counter. Counter + Kit_WordCountOnes (pTruth0 ! i XOR pTruth1 ! i)) 0"

definition Kit_TruthCountOnesInCofsSlow :: "words \<Rightarrow> nat \<Rightarrow> nat list \<Rightarrow> words \<Rightarrow> nat list \<times> words" where
  "Kit_TruthCountOnesInCofsSlow pTruth nVars pStore pAux =
     for_up nVars (\<lambda>i (pStore, pAux).
       let pAux = Kit_TruthCofactor0New pAux pTruth nVars i;
           pStore = pStore[2 * i + 0 := Kit_TruthCountOnes pAux nVars div 2];
           pAux = Kit_TruthCofactor1New pAux pTruth nVars i;
           pStore = pStore[2 * i + 1 := Kit_TruthCountOnes pAux nVars div 2]
       in (pStore, pAux)) (pStore, pAux)"

lemma Kit_TruthXorCount_card:
  "Kit_TruthXorCount p q n = card {m. m < tt_size n \<and> tt_bit p m \<noteq> tt_bit q m}"
  using card_div_mod_32 [of "Kit_TruthWordNum n" "\<lambda>w b. bit (p ! w) b \<noteq> bit (q ! w) b"]
  by (simp add: Kit_TruthXorCount_def for_up_sum Kit_WordCountOnes_ones ones_def bit_simps tt_size_def tt_bit_def)

text \<open>Minterms come in pairs that differ in one variable, and a cofactor takes both or none.\<close>

lemma card_both_partners:
  assumes "v < n"
  shows "card {m. m < tt_size n \<and> Q (unset_bit v m)} = 2 * card {m. m < tt_size n \<and> \<not> bit m v \<and> Q m}"
proof -
  let ?A = "{m. m < tt_size n \<and> \<not> bit m v \<and> Q m}"
  have "{m. m < tt_size n \<and> Q (unset_bit v m)} = ?A \<union> Bit_Operations.set_bit v ` ?A" (is "?L = _")
  proof (rule set_eqI)
    fix m
    have "m \<in> Bit_Operations.set_bit v ` ?A \<longleftrightarrow> m < tt_size n \<and> bit m v \<and> Q (unset_bit v m)"
    proof
      assume "m < tt_size n \<and> bit m v \<and> Q (unset_bit v m)"
      moreover then have "m = Bit_Operations.set_bit v (unset_bit v m)" by (simp add: set_bit_id)
      ultimately show "m \<in> Bit_Operations.set_bit v ` ?A"
        by (intro image_eqI [where x = "unset_bit v m"]) (auto simp: bit_simps tt_size_exp)
    qed (use assms in \<open>auto simp: bit_simps tt_size_exp unset_bit_id\<close>)
    then show "m \<in> ?L \<longleftrightarrow> m \<in> ?A \<union> Bit_Operations.set_bit v ` ?A"
      by (auto simp: unset_bit_id)
  qed
  moreover have "?A \<inter> Bit_Operations.set_bit v ` ?A = {}" by (auto simp: bit_simps)
  moreover have "inj_on (Bit_Operations.set_bit v) ?A"
    by (rule inj_onI) (metis (no_types, lifting) mem_Collect_eq unset_bit_id unset_set_bit)
  ultimately show ?thesis by (simp add: card_Un_disjoint card_image)
qed

lemma card_partner_set:
  assumes "v < n"
  shows "card {m. m < tt_size n \<and> Q (Bit_Operations.set_bit v m)} = 2 * card {m. m < tt_size n \<and> bit m v \<and> Q m}"
proof -
  have "card {m. m < tt_size n \<and> \<not> bit m v \<and> Q (Bit_Operations.set_bit v m)} = card {m. m < tt_size n \<and> bit m v \<and> Q m}"
    by (rule bij_betw_same_card [of "Bit_Operations.set_bit v"],
        rule bij_betw_byWitness [where f' = "unset_bit v"])
       (use assms in \<open>auto simp: tt_size_exp bit_simps unset_bit_id set_bit_id\<close>)
  then show ?thesis
    using card_both_partners [OF assms, of "\<lambda>m. Q (Bit_Operations.set_bit v m)"] by simp
qed

lemma Kit_TruthCountOnesInCofsSlow_card:
  assumes ok: "tt_ok aux n" and store: "length st = 2 * n"
    and res: "Kit_TruthCountOnesInCofsSlow p n st aux = (st', aux')" and i: "i < n"
  shows "st' ! (2 * i) = card {m. m < tt_size n \<and> \<not> bit m i \<and> tt_bit p m} \<and>
    st' ! (2 * i + 1) = card {m. m < tt_size n \<and> bit m i \<and> tt_bit p m}"
proof -
  let ?body = "\<lambda>i (pStore, pAux).
       let pAux = Kit_TruthCofactor0New pAux p n i;
           pStore = pStore[2 * i + 0 := Kit_TruthCountOnes pAux n div 2];
           pAux = Kit_TruthCofactor1New pAux p n i;
           pStore = pStore[2 * i + 1 := Kit_TruthCountOnes pAux n div 2]
       in (pStore, pAux)"
  have cof0: "Kit_TruthCountOnes (Kit_TruthCofactor0New q p n k) n div 2 =
      card {m. m < tt_size n \<and> \<not> bit m k \<and> tt_bit p m}" if "tt_ok q n" "k < n" for q k
    using that card_both_partners [OF that(2), of "tt_bit p"]
    by (simp add: Kit_TruthCountOnes_card tt_simps cong: conj_cong)
  have cof1: "Kit_TruthCountOnes (Kit_TruthCofactor1New q p n k) n div 2 =
      card {m. m < tt_size n \<and> bit m k \<and> tt_bit p m}" if "tt_ok q n" "k < n" for q k
    using that card_partner_set [OF that(2), of "tt_bit p"]
    by (simp add: Kit_TruthCountOnes_card tt_simps cong: conj_cong)
  define P where "P = (\<lambda>k (st', aux'). tt_ok aux' n \<and> length st' = 2 * n \<and> (\<forall>i<k.
      st' ! (2 * i) = card {m. m < tt_size n \<and> \<not> bit m i \<and> tt_bit p m} \<and>
      st' ! (2 * i + 1) = card {m. m < tt_size n \<and> bit m i \<and> tt_bit p m}))"
  have "P n (for_up n ?body (st, aux))"
  proof (rule for_up_invariant)
    show "P k sa \<Longrightarrow> k < n \<Longrightarrow> P (Suc k) (?body k sa)" for k and sa :: "nat list \<times> words"
      by (cases sa) (auto simp: P_def Let_def cof0 cof1 nth_list_update less_Suc_eq)
  qed (use ok store in \<open>auto simp: P_def\<close>)
  then show ?thesis
    using res i by (simp add: Kit_TruthCountOnesInCofsSlow_def P_def)
qed

section \<open>Properties\<close>

text \<open>
  Quantification over a set of variables: the result of the existential (universal) one holds
  at a minterm when the function holds at some (every) minterm that differs only in the variables
  of the mask.
\<close>

theorem Kit_Truth_quantifier_sets_correct:
  assumes "tt_ok q n" "m < tt_size n"
  shows "(tt_bit (Kit_TruthExistSet q p n msk) m \<longleftrightarrow> (\<exists>m'. same_outside msk n m m' \<and> tt_bit p m')) \<and>
    (tt_bit (Kit_TruthForallSet q p n msk) m \<longleftrightarrow> \<not> (\<exists>m'. same_outside msk n m m' \<and> \<not> tt_bit p m'))"
  using tt_bit_Kit_TruthExistSet [OF assms] tt_bit_Kit_TruthForallSet [OF assms] by blast

theorem Kit_Truth_quantifier_sets_witness:
  "tt_bit (Kit_TruthExistSet [0] [0x80000000] 5 0x1F) 0"
proof -
  have "(31 :: nat) = mask 5" "(0x1F :: u32) = mask 5" by (simp_all add: mask_eq_exp_minus_1)
  then have "bit (31 :: nat) v \<longleftrightarrow> v < 5" "bit (0x1F :: u32) v \<longleftrightarrow> v < 5" for v
    by (auto simp only: bit_mask_iff possible_bit_word) simp_all
  then have "same_outside 0x1F 5 0 31" by (simp add: same_outside_def)
  moreover have "tt_bit [0x80000000] 31" "0 < tt_size 5" "tt_ok [0] 5" by code_simp+
  ultimately show ?thesis using Kit_Truth_quantifier_sets_correct [of "[0]" 5 0 "[0x80000000]" "0x1F"] by blast
qed

text \<open>
  The support of a function is computed exactly: a bit of the support word is set for the
  variables the function depends on, and the size is their number.
\<close>

theorem Kit_TruthSupport_correct:
  assumes "tt_ok p n" "n \<le> 32"
  shows "(bit (Kit_TruthSupport p n) v \<longleftrightarrow>
      v < n \<and> (\<exists>m<tt_size n. tt_bit p (unset_bit v m) \<noteq> tt_bit p (Bit_Operations.set_bit v m))) \<and>
    Kit_TruthSupportSize p n = Kit_WordCountOnes (Kit_TruthSupport p n)"
  using assms by (simp add: bit_Kit_TruthSupport tt_support_def Kit_TruthSupportSize_card ones_Kit_TruthSupport)

theorem Kit_TruthSupport_witness:
  "Kit_TruthSupportSize [0x88888888] 5 = Kit_WordCountOnes (Kit_TruthSupport [0x88888888] 5)"
  using Kit_TruthSupport_correct [of "[0x88888888]" 5] by (simp add: tt_ok_def Kit_TruthWordNum_def)

text \<open>
  The symmetry test of two variables compares the two mixed cofactors, the antisymmetry test
  the two equal ones, with given buffers or with the static ones.
\<close>

theorem Kit_TruthVarsSymm_correct:
  assumes "buffer_ok b0 n" "buffer_ok b1 n" "v < n" "w < n"
  shows "(Kit_TruthVarsSymm p n v w b0 b1 \<longleftrightarrow>
      \<not> (\<exists>m<tt_size n. tt_bit p (assign2 v w False True m) \<noteq> tt_bit p (assign2 v w True False m))) \<and>
    (Kit_TruthVarsAntiSymm p n v w b0 b1 \<longleftrightarrow>
      \<not> (\<exists>m<tt_size n. tt_bit p (assign2 v w False False m) \<noteq> tt_bit p (assign2 v w True True m)))"
  using Kit_TruthVarsSymm_assign2 [OF assms, of p] Kit_TruthVarsAntiSymm_assign2 [OF assms, of p] by blast

theorem Kit_TruthVarsSymm_witness:
  "\<not> Kit_TruthVarsSymm [0x22222222] 5 0 1 None None"
proof -
  have "tt_bit [0x22222222] (assign2 0 1 False True 0) \<noteq> tt_bit [0x22222222] (assign2 0 1 True False 0)" "0 < tt_size 5"
    by code_simp+
  then show ?thesis
    using Kit_TruthVarsSymm_correct [of None 5 None 0 1 "[0x22222222]"] by (auto simp: buffer_ok_def)
qed

text \<open>
  The variable chosen for cofactoring is the first one with the smallest overlap of the
  supports of its cofactors, among the variables whose cofactors depend on at most five variables
  each; without such a variable the values 32 and -1 are left.
\<close>

theorem Kit_TruthMinCofSuppOverlap_correct:
  assumes "n \<le> 9" "Kit_TruthMinCofSuppOverlap p n = (V, A)"
  shows "(\<forall>i<n. \<not> small_cofs p n i) \<and> V = 32 \<and> A = -1 \<or>
    (\<exists>i<n. A = int i \<and> small_cofs p n i \<and> V = overlap p n i \<and>
       (\<forall>j<n. small_cofs p n j \<longrightarrow> overlap p n i \<le> overlap p n j \<and>
         (j < i \<longrightarrow> overlap p n i < overlap p n j)))"
  by (rule Kit_TruthMinCofSuppOverlap_min [OF assms])

theorem Kit_TruthMinCofSuppOverlap_witness:
  "\<exists>V A. Kit_TruthMinCofSuppOverlap [0x88888888] 2 = (V, A) \<and> (A = -1 \<longrightarrow> V = 32)"
proof -
  obtain V A where r: "Kit_TruthMinCofSuppOverlap [0x88888888] 2 = (V, A)" by (metis surj_pair)
  show ?thesis using Kit_TruthMinCofSuppOverlap_correct [OF _ r] r by auto
qed

text \<open>
  For a function that is not constant the best cofactoring variable has cofactors of the
  smallest total support, and the buffers are left with its two cofactors.
\<close>

theorem Kit_TruthBestCofVar_correct:
  assumes "Kit_TruthBestCofVar p n c0 c1 = (A, d0, d1)" "tt_ok c0 n" "tt_ok c1 n" "0 < n" "n \<le> 32"
    and "m0 < tt_size n" "tt_bit p m0" "m1 < tt_size n" "\<not> tt_bit p m1"
  shows "\<exists>i<n. A = int i \<and> (\<forall>j<n. cof_cost p n i \<le> cof_cost p n j) \<and>
    (\<forall>m<tt_size n. tt_bit d0 m = tt_bit p (unset_bit i m) \<and> tt_bit d1 m = tt_bit p (Bit_Operations.set_bit i m))"
  by (rule Kit_TruthBestCofVar_best [OF assms(1-5)]) (use assms(6-) in auto)

theorem Kit_TruthBestCofVar_witness:
  "\<exists>i<2. fst (Kit_TruthBestCofVar [0x88888888] 2 [0] [0]) = int i"
proof -
  obtain A d0 d1 where r: "Kit_TruthBestCofVar [0x88888888] 2 [0] [0] = (A, d0, d1)" by (metis prod_cases3)
  have "3 < tt_size 2" "tt_bit [0x88888888] 3" "0 < tt_size 2" "\<not> tt_bit [0x88888888] 0" by code_simp+
  then show ?thesis
    using Kit_TruthBestCofVar_correct [OF r, of 3 0] r by (auto simp: tt_ok_def Kit_TruthWordNum_def)
qed

end
