(* ===== verification/Kit_Isop.thy ===== *)
theory Kit_Isop
  imports Kit_Truth
begin

text \<open>
  Irredundant sum-of-products (\<open>src/abc-master/src/bool/kit/kitIsop.c\<close>): the Minato-Morreale
  recursion on one word (\<open>Kit_TruthIsop5_rec\<close>) and on tables (\<open>Kit_TruthIsop_rec\<close>), and the entry
  point that tries both polarities (\<open>Kit_TruthIsop\<close>).

  The memory of the computation is one growing array (\<open>Vec_Int_t\<close>): a fetch hands out the next
  words of it and fails at the capacity. Fetched regions never overlap and none is written after
  its last use, so the model passes their contents by value and keeps the size of the array.
  A failed fetch (\<open>nCubes = -1\<close> in the code) is the error \<open>OutOfMemory\<close>, a failed \<open>assert\<close> is
  \<open>AssertFailed\<close>; the theorems show that no assertion fails. (\<open>Undefined\<close> is for
  what C leaves undefined: a division by zero, a shift by a negative number, a recursion without end.)
\<close>

section \<open>Results and memory\<close>

text \<open>The capacity and the size of the array; \<open>Vec_IntFetch\<close> fails when the size would exceed it.\<close>

record Vec_Int =
  nCap :: nat
  nSize :: nat

definition Vec_IntFetch :: "Vec_Int \<Rightarrow> nat \<Rightarrow> Vec_Int res" where
  "Vec_IntFetch p nWords =
    (if nWords = 0 then Inl OutOfMemory
     else let p = p\<lparr>nSize := nSize p + nWords\<rparr>
          in if nSize p > nCap p then Inl OutOfMemory else Inr p)"

text \<open>A cover: the cubes, and the number of literals. The number of cubes is the length.\<close>

record Kit_Sop =
  nLits :: nat
  pCubes :: "u32 list"

definition nCubes :: "Kit_Sop \<Rightarrow> nat" where
  "nCubes s = length (pCubes s)"

text \<open>\<open>for ( Var = nVars-1; Var >= 0; Var-- ) if ( P(Var) ) break;\<close>\<close>

fun top_var :: "(nat \<Rightarrow> bool) \<Rightarrow> nat \<Rightarrow> nat option" where
  "top_var P 0 = None"
| "top_var P (Suc v) = (if P v then Some v else top_var P v)"

lemma top_var_Some: "top_var P n = Some v \<Longrightarrow> v < n \<and> P v \<and> (\<forall>w. v < w \<and> w < n \<longrightarrow> \<not> P w)"
  by (induction n) (auto split: if_splits simp: less_Suc_eq)

lemma top_var_None: "top_var P n = None \<longleftrightarrow> (\<forall>v<n. \<not> P v)"
  by (induction n) (auto simp: less_Suc_eq)

section \<open>The recursion\<close>

text \<open>The cubes of the three subproblems with their literals of the variable.\<close>

definition isop_join :: "nat \<Rightarrow> Kit_Sop \<Rightarrow> Kit_Sop \<Rightarrow> Kit_Sop \<Rightarrow> Kit_Sop" where
  "isop_join Var cRes0 cRes1 cRes2 =
    \<lparr> nLits = nLits cRes0 + nLits cRes1 + nLits cRes2 + nCubes cRes0 + nCubes cRes1,
      pCubes = map (\<lambda>u. u OR push_bit (2 * Var + 0) 1) (pCubes cRes0) @
               map (\<lambda>u. u OR push_bit (2 * Var + 1) 1) (pCubes cRes1) @ pCubes cRes2 \<rparr>"

function Kit_TruthIsop5_rec :: "u32 \<Rightarrow> u32 \<Rightarrow> nat \<Rightarrow> Vec_Int \<Rightarrow> (u32 \<times> Kit_Sop \<times> Vec_Int) res" where
  "Kit_TruthIsop5_rec uOn uOnDc nVars vStore =
    (if \<not> (nVars \<le> 5 \<and> (uOn AND NOT uOnDc) = 0) then Inl AssertFailed
     else if uOn = 0 then Inr (0, \<lparr>nLits = 0, pCubes = []\<rparr>, vStore)
     else if uOnDc = 0xFFFFFFFF then
       res_bind (Vec_IntFetch vStore 1) (\<lambda>vStore. Inr (0xFFFFFFFF, \<lparr>nLits = 0, pCubes = [0]\<rparr>, vStore))
     else case top_var (\<lambda>Var. Kit_TruthVarInSupport [uOn] 5 Var \<or> Kit_TruthVarInSupport [uOnDc] 5 Var) nVars of
       None \<Rightarrow> Inl AssertFailed
     | Some Var \<Rightarrow>
        (let uOn0 = Kit_TruthCofactor0 [uOn] (Var + 1) Var ! 0;
             uOn1 = Kit_TruthCofactor1 [uOn] (Var + 1) Var ! 0;
             uOnDc0 = Kit_TruthCofactor0 [uOnDc] (Var + 1) Var ! 0;
             uOnDc1 = Kit_TruthCofactor1 [uOnDc] (Var + 1) Var ! 0
         in res_bind (Kit_TruthIsop5_rec (uOn0 AND NOT uOnDc1) uOnDc0 Var vStore) (\<lambda>(uRes0, cRes0, vStore).
            res_bind (Kit_TruthIsop5_rec (uOn1 AND NOT uOnDc0) uOnDc1 Var vStore) (\<lambda>(uRes1, cRes1, vStore).
            res_bind (Kit_TruthIsop5_rec ((uOn0 AND NOT uRes0) OR (uOn1 AND NOT uRes1)) (uOnDc0 AND uOnDc1) Var vStore)
              (\<lambda>(uRes2, cRes2, vStore).
            res_bind (Vec_IntFetch vStore (nCubes cRes0 + nCubes cRes1 + nCubes cRes2)) (\<lambda>vStore.
              Inr (uRes2 OR ((uRes0 AND NOT (var_masks ! Var)) OR (uRes1 AND var_masks ! Var)),
                   isop_join Var cRes0 cRes1 cRes2, vStore)))))))"
  by pat_completeness auto
termination
  by (relation "measure (\<lambda>(_, _, n, _). n)") (auto dest: top_var_Some)

declare Kit_TruthIsop5_rec.simps [simp del]

function Kit_TruthIsop_rec :: "words \<Rightarrow> words \<Rightarrow> nat \<Rightarrow> Vec_Int \<Rightarrow> (words \<times> Kit_Sop \<times> Vec_Int) res" where
  "Kit_TruthIsop_rec puOn puOnDc nVars vStore =
    (let nWordsAll = Kit_TruthWordNum nVars in
     res_bind (Vec_IntFetch vStore nWordsAll) (\<lambda>vStore.
     let pTemp = replicate nWordsAll 0 in
     if Kit_TruthIsConst0 puOn nVars then
       Inr (Kit_TruthClear pTemp nVars, \<lparr>nLits = 0, pCubes = []\<rparr>, vStore)
     else if Kit_TruthIsConst1 puOnDc nVars then
       res_bind (Vec_IntFetch vStore 1) (\<lambda>vStore.
         Inr (Kit_TruthFill pTemp nVars, \<lparr>nLits = 0, pCubes = [0]\<rparr>, vStore))
     else case top_var (\<lambda>Var. Kit_TruthVarInSupport puOn nVars Var \<or> Kit_TruthVarInSupport puOnDc nVars Var) nVars of
       None \<Rightarrow> Inl AssertFailed
     | Some Var \<Rightarrow>
       if Var < 5 then
         res_bind (Kit_TruthIsop5_rec (puOn ! 0) (puOnDc ! 0) (Var + 1) vStore) (\<lambda>(uRes, cRes, vStore).
           Inr (for_up nWordsAll (\<lambda>i pTemp. pTemp[i := uRes]) pTemp, cRes, vStore))
       else
        (let nWords = Kit_TruthWordNum Var;
             puOn0 = puOn; puOn1 = drop nWords puOn;
             puOnDc0 = puOnDc; puOnDc1 = drop nWords puOnDc;
             pTemp0 = take nWords pTemp; pTemp1 = drop nWords pTemp;
             pTemp0 = Kit_TruthSharp pTemp0 puOn0 puOnDc1 Var
         in res_bind (Kit_TruthIsop_rec pTemp0 puOnDc0 Var vStore) (\<lambda>(puRes0, cRes0, vStore).
            let pTemp1 = Kit_TruthSharp pTemp1 puOn1 puOnDc0 Var in
            res_bind (Kit_TruthIsop_rec pTemp1 puOnDc1 Var vStore) (\<lambda>(puRes1, cRes1, vStore).
            let pTemp0 = Kit_TruthSharp pTemp0 puOn0 puRes0 Var;
                pTemp1 = Kit_TruthSharp pTemp1 puOn1 puRes1 Var;
                pTemp0 = Kit_TruthOr pTemp0 pTemp0 pTemp1 Var;
                pTemp1 = Kit_TruthAnd pTemp1 puOnDc0 puOnDc1 Var in
            res_bind (Kit_TruthIsop_rec pTemp0 pTemp1 Var vStore) (\<lambda>(puRes2, cRes2, vStore).
            res_bind (Vec_IntFetch vStore (nCubes cRes0 + nCubes cRes1 + nCubes cRes2)) (\<lambda>vStore.
            let pTemp0 = Kit_TruthOr pTemp0 puRes0 puRes2 Var;
                pTemp1 = Kit_TruthOr pTemp1 puRes1 puRes2 Var;
                pTemp = pTemp0 @ pTemp1;
                nWords = 2 * nWords;
                pTemp = fold (\<lambda>i. for_up nWords (\<lambda>k pTemp. pTemp[i * nWords + k := pTemp ! k]))
                          [1..<nWordsAll div nWords] pTemp
            in Inr (pTemp, isop_join Var cRes0 cRes1 cRes2, vStore))))))))"
  by pat_completeness auto
termination
  by (relation "measure (\<lambda>(_, _, n, _). n)") (auto dest: top_var_Some)

declare Kit_TruthIsop_rec.simps [simp del]

text \<open>
  The entry point. The memory is cleared and grown to the limit, so only its capacity matters; the
  cover is left in the memory (no cover when the size is set to -1). The table is complemented
  and complemented back, so it is part of the result.
\<close>

definition KIT_ISOP_MEM_LIMIT :: nat where
  "KIT_ISOP_MEM_LIMIT = 2 ^ 20"

definition Kit_TruthIsop :: "words \<Rightarrow> nat \<Rightarrow> nat \<Rightarrow> bool \<Rightarrow> (int \<times> u32 list option \<times> words) res" where
  "Kit_TruthIsop puTruth nVars cap fTryBoth =
    (if \<not> nVars \<le> 16 then Inl AssertFailed else
     let vMemory = \<lparr>nCap = max cap KIT_ISOP_MEM_LIMIT, nSize = 0\<rparr> in
     case Kit_TruthIsop_rec puTruth puTruth nVars vMemory of
       Inl OutOfMemory \<Rightarrow> Inr (-1, None, puTruth)
     | Inl e \<Rightarrow> Inl e
     | Inr (pResult, cRes, vMemory) \<Rightarrow>
        if \<not> Kit_TruthIsEqual puTruth pResult nVars then Inl AssertFailed
        else if nCubes cRes = 0 \<or> nCubes cRes = 1 \<and> pCubes cRes ! 0 = 0 then
          Inr (0, Some (take (nCubes cRes) [0]), puTruth)
        else if fTryBoth then
          (let puTruth = Kit_TruthNot puTruth puTruth nVars in
           case Kit_TruthIsop_rec puTruth puTruth nVars vMemory of
             Inl OutOfMemory \<Rightarrow> Inr (0, Some (pCubes cRes), Kit_TruthNot puTruth puTruth nVars)
           | Inl e \<Rightarrow> Inl e
           | Inr (pResult, cRes2, vMemory) \<Rightarrow>
              if \<not> Kit_TruthIsEqual puTruth pResult nVars then Inl AssertFailed
              else if nCubes cRes > nCubes cRes2 \<or> nCubes cRes = nCubes cRes2 \<and> nLits cRes > nLits cRes2
              then Inr (1, Some (pCubes cRes2), Kit_TruthNot puTruth puTruth nVars)
              else Inr (0, Some (pCubes cRes), Kit_TruthNot puTruth puTruth nVars))
        else Inr (0, Some (pCubes cRes), puTruth))"

section \<open>What a cover means\<close>

text \<open>Bit \<open>2v\<close> of a cube is the negative literal of variable \<open>v\<close>, bit \<open>2v+1\<close> the positive one.\<close>

definition isop_cube :: "u32 \<Rightarrow> nat \<Rightarrow> bool" where
  "isop_cube u m \<longleftrightarrow> (\<forall>v<16. (bit u (2 * v) \<longrightarrow> \<not> bit m v) \<and> (bit u (2 * v + 1) \<longrightarrow> bit m v))"

definition isop_cover :: "u32 list \<Rightarrow> nat \<Rightarrow> bool" where
  "isop_cover cs m \<longleftrightarrow> (\<exists>u \<in> set cs. isop_cube u m)"

lemma isop_cover_simps [simp]:
  "\<not> isop_cover [] m" "isop_cover (u # cs) m \<longleftrightarrow> isop_cube u m \<or> isop_cover cs m"
  "isop_cover (cs @ ds) m \<longleftrightarrow> isop_cover cs m \<or> isop_cover ds m"
  by (auto simp: isop_cover_def)

lemma isop_cube_0 [simp]: "isop_cube 0 m"
  by (simp add: isop_cube_def)

text \<open>A function of the first \<open>n\<close> variables, and the functions of a word and of a table.\<close>

definition fun_dep :: "nat \<Rightarrow> (nat \<Rightarrow> bool) \<Rightarrow> bool" where
  "fun_dep n f \<longleftrightarrow> (\<forall>m. f (take_bit n m) = f m)"

definition word_fun :: "u32 \<Rightarrow> nat \<Rightarrow> bool" where
  "word_fun w m = bit w (take_bit 5 m)"

definition tt_fun :: "words \<Rightarrow> nat \<Rightarrow> nat \<Rightarrow> bool" where
  "tt_fun p n m = tt_bit p (take_bit (max 5 n) m)"

definition cof0 :: "nat \<Rightarrow> (nat \<Rightarrow> bool) \<Rightarrow> nat \<Rightarrow> bool" where
  "cof0 v f m = f (unset_bit v m)"

definition cof1 :: "nat \<Rightarrow> (nat \<Rightarrow> bool) \<Rightarrow> nat \<Rightarrow> bool" where
  "cof1 v f m = f (Bit_Operations.set_bit v m)"

text \<open>
  The contract of the recursion, for an onset \<open>f\<close> and an upper bound \<open>d\<close>: the cover and the table
  are the same function, it lies between the bounds, the literals are over the first \<open>n\<close> variables,
  the literals are counted, and every cube is needed: some onset minterm is covered by no other
  cube of the list.
\<close>

definition cubes_below :: "nat \<Rightarrow> u32 list \<Rightarrow> bool" where
  "cubes_below n cs \<longleftrightarrow> (\<forall>u \<in> set cs. \<forall>i. bit u i \<longrightarrow> i < 2 * n)"

definition isop_ok :: "nat \<Rightarrow> (nat \<Rightarrow> bool) \<Rightarrow> (nat \<Rightarrow> bool) \<Rightarrow> (nat \<Rightarrow> bool) \<Rightarrow> Kit_Sop \<Rightarrow> bool" where
  "isop_ok n f d r c \<longleftrightarrow>
    (\<forall>m. f m \<longrightarrow> r m) \<and> (\<forall>m. r m \<longrightarrow> d m) \<and> (\<forall>m. isop_cover (pCubes c) m = r m) \<and>
    cubes_below n (pCubes c) \<and>
    nLits c = (\<Sum>u \<leftarrow> pCubes c. ones u) \<and>
    (\<forall>u \<in> set (pCubes c). \<exists>m. f m \<and> filter (\<lambda>w. isop_cube w m) (pCubes c) = [u])"

lemma isop_okD:
  assumes "isop_ok n f d r c"
  shows "f m \<Longrightarrow> r m" "r m \<Longrightarrow> d m" "isop_cover (pCubes c) m = r m"
    "cubes_below n (pCubes c)" "nLits c = (\<Sum>u \<leftarrow> pCubes c. ones u)"
    "u \<in> set (pCubes c) \<Longrightarrow> \<exists>m. f m \<and> filter (\<lambda>w. isop_cube w m) (pCubes c) = [u]"
  using assms by (auto simp: isop_ok_def)

lemma isop_ok_mono: "isop_ok k f d r c \<Longrightarrow> k \<le> n \<Longrightarrow> isop_ok n f d r c"
  unfolding isop_ok_def cubes_below_def by (meson less_le_trans mult_le_mono2)

lemma isop_ok_const0: "(\<And>m. \<not> f m) \<Longrightarrow> (\<And>m. \<not> r m) \<Longrightarrow> isop_ok n f d r \<lparr>nLits = 0, pCubes = []\<rparr>"
  by (simp add: isop_ok_def cubes_below_def)

lemma isop_ok_const1:
  "(\<And>m. d m) \<Longrightarrow> (\<And>m. r m) \<Longrightarrow> f m0 \<Longrightarrow> isop_ok n f d r \<lparr>nLits = 0, pCubes = [0]\<rparr>"
  by (auto simp: isop_ok_def cubes_below_def)

text \<open>The literal added by the join.\<close>

lemma even_odd_index [simp]: "Suc (2 * a) \<noteq> 2 * b" "2 * b \<noteq> Suc (2 * a)"
  by presburger+

lemma isop_cube_neg:
  assumes "v < 16"
  shows "isop_cube (Kit_CubeSetLit u (2 * v)) m \<longleftrightarrow> isop_cube u m \<and> \<not> bit m v"
  unfolding isop_cube_def using assms by auto

lemma isop_cube_pos:
  assumes "v < 16"
  shows "isop_cube (Kit_CubeSetLit u (Suc (2 * v))) m \<longleftrightarrow> isop_cube u m \<and> bit m v"
  unfolding isop_cube_def using assms by auto

lemma ones_add_lit: "i < 32 \<Longrightarrow> \<not> bit u i \<Longrightarrow> ones (Kit_CubeSetLit u i) = Suc (ones u)"
proof -
  assume a: "i < 32" "\<not> bit u i"
  then have "{j. j < 32 \<and> bit (Kit_CubeSetLit u i) j} = insert i {j. j < 32 \<and> bit u j}" by auto
  then show ?thesis using a by (simp add: ones_def)
qed

definition same_below :: "nat \<Rightarrow> nat \<Rightarrow> nat \<Rightarrow> bool" where
  "same_below v m m' \<longleftrightarrow> (\<forall>w<v. bit m w = bit m' w)"

lemma same_below_simps [simp]:
  "same_below v m m" "same_below v (unset_bit v m) m" "same_below v (Bit_Operations.set_bit v m) m"
  by (auto simp: same_below_def bit_simps)

lemma isop_cube_same:
  assumes "cubes_below v cs" "u \<in> set cs" "same_below v m m'"
  shows "isop_cube u m = isop_cube u m'"
proof -
  have "(bit u (2 * w) \<or> bit u (2 * w + 1)) \<Longrightarrow> bit m w = bit m' w" for w
    using assms unfolding cubes_below_def same_below_def by fastforce
  then show ?thesis unfolding isop_cube_def by blast
qed

lemma filter_same:
  "cubes_below v cs \<Longrightarrow> same_below v m m' \<Longrightarrow>
   filter (\<lambda>u. isop_cube u m) cs = filter (\<lambda>u. isop_cube u m') cs"
  by (intro filter_cong refl isop_cube_same)

lemma cover_same: "cubes_below v cs \<Longrightarrow> same_below v m m' \<Longrightarrow> isop_cover cs m = isop_cover cs m'"
  unfolding isop_cover_def using isop_cube_same by blast

section \<open>One step of the recursion\<close>

lemma pCubes_isop_join:
  "pCubes (isop_join v c0 c1 c2) = map (\<lambda>u. Kit_CubeSetLit u (2 * v)) (pCubes c0) @
     map (\<lambda>u. Kit_CubeSetLit u (Suc (2 * v))) (pCubes c1) @ pCubes c2"
  by (simp add: isop_join_def Kit_CubeSetLit_def)

lemma filter_isop_neg:
  "v < 16 \<Longrightarrow> filter (\<lambda>w. isop_cube w m) (map (\<lambda>u. Kit_CubeSetLit u (2 * v)) cs) =
     (if bit m v then [] else map (\<lambda>u. Kit_CubeSetLit u (2 * v)) (filter (\<lambda>w. isop_cube w m) cs))"
  by (induction cs) (auto simp: isop_cube_neg)

lemma filter_isop_pos:
  "v < 16 \<Longrightarrow> filter (\<lambda>w. isop_cube w m) (map (\<lambda>u. Kit_CubeSetLit u (Suc (2 * v))) cs) =
     (if bit m v then map (\<lambda>u. Kit_CubeSetLit u (Suc (2 * v))) (filter (\<lambda>w. isop_cube w m) cs) else [])"
  by (induction cs) (auto simp: isop_cube_pos)

lemma isop_cover_neg:
  "v < 16 \<Longrightarrow> isop_cover (map (\<lambda>u. Kit_CubeSetLit u (2 * v)) cs) m \<longleftrightarrow> \<not> bit m v \<and> isop_cover cs m"
  by (induction cs) (auto simp: isop_cube_neg)

lemma isop_cover_pos:
  "v < 16 \<Longrightarrow> isop_cover (map (\<lambda>u. Kit_CubeSetLit u (Suc (2 * v))) cs) m \<longleftrightarrow> bit m v \<and> isop_cover cs m"
  by (induction cs) (auto simp: isop_cube_pos)

lemma filter_uncovered: "\<not> isop_cover cs m \<Longrightarrow> filter (\<lambda>u. isop_cube u m) cs = []"
  by (induction cs) auto

lemma sum_list_add_lits:
  "i < 32 \<Longrightarrow> (\<forall>u \<in> set cs. \<not> bit u i) \<Longrightarrow>
   (\<Sum>u \<leftarrow> map (\<lambda>u. Kit_CubeSetLit u i) cs. ones u) = (\<Sum>u \<leftarrow> cs. ones u) + length cs"
  by (induction cs) (auto simp: ones_add_lit)

lemma isop_ok_join:
  assumes v: "v < 16"
    and h0: "isop_ok v (\<lambda>m. cof0 v f m \<and> \<not> cof1 v d m) (cof0 v d) r0 c0"
    and h1: "isop_ok v (\<lambda>m. cof1 v f m \<and> \<not> cof0 v d m) (cof1 v d) r1 c1"
    and h2: "isop_ok v (\<lambda>m. cof0 v f m \<and> \<not> r0 m \<or> cof1 v f m \<and> \<not> r1 m)
      (\<lambda>m. cof0 v d m \<and> cof1 v d m) r2 c2"
  shows "isop_ok (Suc v) f d (\<lambda>m. r2 m \<or> (if bit m v then r1 m else r0 m)) (isop_join v c0 c1 c2)"
    (is "isop_ok _ f d ?r ?c")
proof -
  note d0 = isop_okD [OF h0] and d1 = isop_okD [OF h1] and d2 = isop_okD [OF h2]
  let ?un = "unset_bit v" and ?st = "Bit_Operations.set_bit v"
  have id: "bit m v \<Longrightarrow> ?st m = m" "\<not> bit m v \<Longrightarrow> ?un m = m" for m :: nat
    by (simp_all add: set_bit_id unset_bit_id)
  have r_other: "r0 (?un m) = r0 m" "r1 (?st m) = r1 m" "r2 (?un m) = r2 m" "r2 (?st m) = r2 m" for m
    unfolding d0(3) [symmetric] d1(3) [symmetric] d2(3) [symmetric]
    by (simp_all add: cover_same [OF d0(4)] cover_same [OF d1(4)] cover_same [OF d2(4)])
  have upper: "?r m \<Longrightarrow> d m" for m
    using d0(2) [of m] d1(2) [of m] d2(2) [of m] id [of m] by (auto simp: cof0_def cof1_def split: if_splits)
  have lower: "f m \<Longrightarrow> ?r m" for m
    using d2(1) [of m] id [of m] by (cases "bit m v") (auto simp: cof0_def cof1_def)
  have cover: "isop_cover (pCubes ?c) m = ?r m" for m
    unfolding pCubes_isop_join isop_cover_simps isop_cover_neg [OF v] isop_cover_pos [OF v]
    by (auto simp: d0(3) d1(3) d2(3))
  have lits: "cubes_below (Suc v) (pCubes ?c)"
    using v d0(4) d1(4) d2(4) unfolding pCubes_isop_join cubes_below_def by fastforce
  have count: "nLits ?c = (\<Sum>u \<leftarrow> pCubes ?c. ones u)"
  proof -
    have "\<forall>u \<in> set (pCubes c0). \<not> bit u (2 * v)" "\<forall>u \<in> set (pCubes c1). \<not> bit u (Suc (2 * v))"
      using d0(4) d1(4) unfolding cubes_below_def by force+
    then show ?thesis
      using v unfolding pCubes_isop_join map_append sum_list_append
      by (subst (1 2) sum_list_add_lits) (simp_all add: isop_join_def nCubes_def d0(5) d1(5) d2(5))
  qed
  have needed: "\<exists>m. f m \<and> filter (\<lambda>w. isop_cube w m) (pCubes ?c) = [u]" if mem: "u \<in> set (pCubes ?c)" for u
  proof -
    consider (neg) w where "w \<in> set (pCubes c0)" "u = Kit_CubeSetLit w (2 * v)"
      | (pos) w where "w \<in> set (pCubes c1)" "u = Kit_CubeSetLit w (Suc (2 * v))"
      | (rest) "u \<in> set (pCubes c2)"
      using mem unfolding pCubes_isop_join by auto
    then show ?thesis
    proof cases
      case neg
      then obtain m where m: "cof0 v f m" "\<not> cof1 v d m" "filter (\<lambda>w. isop_cube w m) (pCubes c0) = [w]"
        using d0(6) by blast
      have "\<not> isop_cover (pCubes c2) (?un m)"
        using m(2) d2(2) [of m] by (auto simp: d2(3) r_other)
      then have "filter (\<lambda>w. isop_cube w (?un m)) (pCubes ?c) = [u]"
        using m(3) filter_same [OF d0(4) same_below_simps(2), of m]
        unfolding pCubes_isop_join filter_append filter_isop_neg [OF v] filter_isop_pos [OF v]
        by (simp add: filter_uncovered bit_unset_bit_iff neg(2))
      then show ?thesis using m(1) by (auto simp: cof0_def)
    next
      case pos
      then obtain m where m: "cof1 v f m" "\<not> cof0 v d m" "filter (\<lambda>w. isop_cube w m) (pCubes c1) = [w]"
        using d1(6) by blast
      have "\<not> isop_cover (pCubes c2) (?st m)"
        using m(2) d2(2) [of m] by (auto simp: d2(3) r_other)
      then have "filter (\<lambda>w. isop_cube w (?st m)) (pCubes ?c) = [u]"
        using m(3) filter_same [OF d1(4) same_below_simps(3), of m]
        unfolding pCubes_isop_join filter_append filter_isop_neg [OF v] filter_isop_pos [OF v]
        by (simp add: filter_uncovered bit_set_bit_iff pos(2))
      then show ?thesis using m(1) by (auto simp: cof1_def)
    next
      case rest
      then obtain m where m: "cof0 v f m \<and> \<not> r0 m \<or> cof1 v f m \<and> \<not> r1 m"
          "filter (\<lambda>w. isop_cube w m) (pCubes c2) = [u]"
        using d2(6) by blast
      define k where "k = (if cof0 v f m \<and> \<not> r0 m then ?un m else ?st m)"
      have "f k" using m(1) by (auto simp: k_def cof0_def cof1_def)
      moreover have "filter (\<lambda>w. isop_cube w k) (pCubes c2) = [u]"
        using m(2) filter_same [OF d2(4), of k m] by (simp add: k_def)
      moreover have "bit k v \<Longrightarrow> \<not> isop_cover (pCubes c1) k" "\<not> bit k v \<Longrightarrow> \<not> isop_cover (pCubes c0) k"
        using m(1) by (auto simp: k_def d0(3) d1(3) r_other bit_unset_bit_iff bit_set_bit_iff split: if_splits)
      ultimately show ?thesis
        unfolding pCubes_isop_join filter_append filter_isop_neg [OF v] filter_isop_pos [OF v]
        by (intro exI [of _ k]) (auto simp: filter_uncovered)
    qed
  qed
  show ?thesis
    unfolding isop_ok_def using lower upper cover lits count needed by blast
qed

text \<open>An irredundant cover over \<open>n\<close> variables has at most \<open>2^n\<close> cubes, all different.\<close>

lemma isop_ok_distinct:
  assumes "isop_ok n f d r c"
  shows "distinct (pCubes c)"
proof (rule ccontr)
  assume "\<not> distinct (pCubes c)"
  then obtain xs ys zs u where u: "pCubes c = xs @ [u] @ ys @ [u] @ zs"
    using not_distinct_decomp by blast
  then obtain m where m: "filter (\<lambda>w. isop_cube w m) (pCubes c) = [u]"
    using isop_okD(6) [OF assms, of u] by auto
  then have "u \<in> set (filter (\<lambda>w. isop_cube w m) (pCubes c))" by simp
  then have "isop_cube u m" by simp
  with m show False unfolding u by (auto simp: append_eq_Cons_conv)
qed

lemma isop_ok_cubes_le:
  assumes ok: "isop_ok n f d r c"
  shows "nCubes c \<le> 2 ^ n"
proof -
  have "\<exists>m. filter (\<lambda>w. isop_cube w (take_bit n m)) (pCubes c) = [u]" if mem: "u \<in> set (pCubes c)" for u
  proof -
    obtain m where m: "filter (\<lambda>w. isop_cube w m) (pCubes c) = [u]"
      using isop_okD(6) [OF ok mem] by blast
    have "same_below n (take_bit n m) m" by (simp add: same_below_def bit_simps)
    from filter_same [OF isop_okD(4) [OF ok] this] m show ?thesis by auto
  qed
  then obtain g where g: "\<And>u. u \<in> set (pCubes c) \<Longrightarrow>
      filter (\<lambda>w. isop_cube w (take_bit n (g u))) (pCubes c) = [u]"
    by metis
  have "inj_on (\<lambda>u. take_bit n (g u)) (set (pCubes c))"
    by (rule inj_onI) (metis g list.inject)
  moreover have "(\<lambda>u. take_bit n (g u)) ` set (pCubes c) \<subseteq> {..<2 ^ n}"
    by auto
  ultimately have "card (set (pCubes c)) \<le> card {..<2 ^ n :: nat}"
    by (intro card_inj_on_le) auto
  then show ?thesis
    using isop_ok_distinct [OF ok] by (simp add: nCubes_def distinct_card)
qed

section \<open>Dependence on variables\<close>

lemma cof_simps [simp]:
  "cof0 v (\<lambda>m. f m \<and> g m) = (\<lambda>m. cof0 v f m \<and> cof0 v g m)"
  "cof1 v (\<lambda>m. f m \<and> g m) = (\<lambda>m. cof1 v f m \<and> cof1 v g m)"
  by (auto simp: cof0_def cof1_def)

lemma take_bit_Suc_partner:
  "bit m v \<Longrightarrow> take_bit (Suc v) m = Bit_Operations.set_bit v (take_bit v (m :: nat))"
  "\<not> bit m v \<Longrightarrow> take_bit (Suc v) m = take_bit v (m :: nat)"
  by (rule bit_eqI, auto simp: bit_simps less_Suc_eq)+

lemma fun_dep_step: "fun_dep (Suc v) f \<Longrightarrow> cof0 v f = cof1 v f \<Longrightarrow> fun_dep v f"
  unfolding fun_dep_def
proof (intro allI)
  fix m assume dep: "\<forall>m. f (take_bit (Suc v) m) = f m" and eq: "cof0 v f = cof1 v f"
  have "f (Bit_Operations.set_bit v (take_bit v m)) = f (take_bit v m)"
    using fun_cong [OF eq, of "take_bit v m"] by (simp add: cof0_def cof1_def unset_bit_id bit_take_bit_iff)
  then show "f (take_bit v m) = f m"
    using dep take_bit_Suc_partner [of m v] by metis
qed

lemma fun_dep_mono: "fun_dep k f \<Longrightarrow> k \<le> n \<Longrightarrow> fun_dep n f"
  unfolding fun_dep_def by (metis min_absorb2 min_absorb1 take_bit_take_bit)

lemma fun_dep_cof:
  assumes dep: "fun_dep (Suc v) f"
  shows "fun_dep v (cof0 v f)" "fun_dep v (cof1 v f)"
proof -
  have eq: "take_bit (Suc v) (unset_bit v (take_bit v m)) = take_bit (Suc v) (unset_bit v m)"
    "take_bit (Suc v) (Bit_Operations.set_bit v (take_bit v m)) = take_bit (Suc v) (Bit_Operations.set_bit v m)"
    for m :: nat
    by (rule bit_eqI, auto simp: bit_simps less_Suc_eq)+
  have f: "f m = f (take_bit (Suc v) m)" for m using dep by (simp add: fun_dep_def)
  show "fun_dep v (cof0 v f)" "fun_dep v (cof1 v f)"
    unfolding fun_dep_def cof0_def cof1_def
    using f [of "unset_bit v (take_bit v _)"] f [of "unset_bit v _"]
      f [of "Bit_Operations.set_bit v (take_bit v _)"] f [of "Bit_Operations.set_bit v _"]
    by (simp_all only: eq simp_thms)
qed

lemma fun_dep_conn:
  "fun_dep n f \<Longrightarrow> fun_dep n g \<Longrightarrow> fun_dep n (\<lambda>m. f m \<and> g m)"
  "fun_dep n f \<Longrightarrow> fun_dep n g \<Longrightarrow> fun_dep n (\<lambda>m. f m \<or> g m)"
  "fun_dep n f \<Longrightarrow> fun_dep n (\<lambda>m. \<not> f m)"
  by (auto simp: fun_dep_def)

lemma isop_ok_dep: "isop_ok n f d r c \<Longrightarrow> fun_dep n r"
proof -
  assume ok: "isop_ok n f d r c"
  have "same_below n (take_bit n m) m" for m by (simp add: same_below_def bit_simps)
  from cover_same [OF isop_okD(4) [OF ok] this] show ?thesis
    by (simp add: fun_dep_def isop_okD(3) [OF ok])
qed

lemma fun_dep_above:
  assumes "fun_dep n f" "\<And>w. v \<le> w \<Longrightarrow> w < n \<Longrightarrow> cof0 w f = cof1 w f" "v \<le> n"
  shows "fun_dep v f"
proof -
  have "k \<le> n - v \<Longrightarrow> fun_dep (n - k) f" for k
  proof (induction k)
    case (Suc k)
    have j: "Suc (n - Suc k) = n - k" "v \<le> n - Suc k" "n - Suc k < n" "k \<le> n - v"
      using Suc.prems by linarith+
    from Suc.IH [OF j(4)] have "fun_dep (Suc (n - Suc k)) f" by (simp only: j(1))
    from fun_dep_step [OF this assms(2) [OF j(2,3)]] show ?case .
  qed (use assms in simp)
  from this [of "n - v"] show ?thesis using assms(3) by simp
qed

text \<open>The search for the topmost variable, for tests that miss no variable of the support.\<close>

lemma top_var_dep:
  assumes "fun_dep n f" "\<And>w. w < n \<Longrightarrow> \<not> P w \<Longrightarrow> cof0 w f = cof1 w f"
  shows "top_var P n = Some v \<Longrightarrow> fun_dep (Suc v) f"
    and "top_var P n = None \<Longrightarrow> fun_dep 0 f"
proof -
  assume "top_var P n = Some v"
  from top_var_Some [OF this] show "fun_dep (Suc v) f"
    by (intro fun_dep_above [OF assms(1)] assms(2)) auto
next
  assume "top_var P n = None"
  then show "fun_dep 0 f"
    by (intro fun_dep_above [OF assms(1)] assms(2)) (auto simp: top_var_None)
qed

lemma fun_dep_0: "fun_dep 0 f \<Longrightarrow> f m = f m'"
  unfolding fun_dep_def by (metis take_bit_0)

section \<open>One word\<close>

lemma word_fun_simps [simp]:
  "word_fun 0 m = False" "word_fun 0xFFFFFFFF m = True"
  "word_fun (x AND y) m \<longleftrightarrow> word_fun x m \<and> word_fun y m"
  "word_fun (x OR y) m \<longleftrightarrow> word_fun x m \<or> word_fun y m"
  "word_fun (NOT x) m \<longleftrightarrow> \<not> word_fun x m"
proof -
  have b: "take_bit 5 m < 32" using take_bit_nat_less_exp [of 5 m] by simp
  show "word_fun 0 m = False" "word_fun (x AND y) m \<longleftrightarrow> word_fun x m \<and> word_fun y m"
    "word_fun (x OR y) m \<longleftrightarrow> word_fun x m \<or> word_fun y m" "word_fun (NOT x) m \<longleftrightarrow> \<not> word_fun x m"
    using b by (simp_all add: word_fun_def bit_and_iff bit_or_iff)
  have "(0xFFFFFFFF :: u32) = NOT 0" by simp
  then show "word_fun 0xFFFFFFFF m = True"
    using b by (simp only: word_fun_def bit_NOT_u32) simp
qed

lemma word_fun_var_mask: "v < 5 \<Longrightarrow> word_fun (var_masks ! v) m = bit m v"
  using take_bit_nat_less_exp [of 5 m] by (simp add: word_fun_def var_masks_bit bit_take_bit_iff)

lemma word_fun_all: "(\<forall>m. word_fun x m = word_fun y m) \<longleftrightarrow> x = y"
proof
  assume a: "\<forall>m. word_fun x m = word_fun y m"
  have "bit x b = bit y b" if "b < 32" for b
  proof -
    have "take_bit 5 b = b" using that by (simp add: take_bit_nat_eq_self_iff)
    then show ?thesis using spec [OF a, of b] by (simp add: word_fun_def)
  qed
  then show "x = y" by (simp add: u32_eq_iff)
qed simp

lemma fun_dep_word_fun: "fun_dep 5 (word_fun w)"
  by (simp add: fun_dep_def word_fun_def)

lemma word_fun_tt_bit: "word_fun w m = tt_bit [w] (take_bit 5 m)"
proof -
  have "take_bit 5 m < 32" using take_bit_nat_less_exp [of 5 m] by simp
  then show ?thesis by (simp add: word_fun_def tt_bit_def)
qed

lemma tt_bit_word: "m < 32 \<Longrightarrow> tt_bit p m = word_fun (p ! 0) m"
  by (simp add: tt_bit_def word_fun_def take_bit_nat_eq_self)

lemma take_bit_5_less: "take_bit 5 (m::nat) < 32"
  using take_bit_nat_less_exp [of 5 m] by simp

lemma word_fun_cofactors:
  assumes "v < 5"
  shows "word_fun (Kit_TruthCofactor0 [w] (Suc v) v ! 0) = cof0 v (word_fun w)"
    and "word_fun (Kit_TruthCofactor1 [w] (Suc v) v ! 0) = cof1 v (word_fun w)"
proof -
  have ok: "tt_ok [w] (Suc v)" "tt_size (Suc v) = 32"
    using assms by (auto simp: tt_ok_def tt_size_def Kit_TruthWordNum_def)
  have tb: "unset_bit v (take_bit 5 m) = take_bit 5 (unset_bit v m)"
    "Bit_Operations.set_bit v (take_bit 5 m) = take_bit 5 (Bit_Operations.set_bit v m)" for m :: nat
    using assms by (auto intro!: bit_eqI simp: bit_simps)
  have "word_fun (Kit_TruthCofactor0 [w] (Suc v) v ! 0) m = cof0 v (word_fun w) m"
    "word_fun (Kit_TruthCofactor1 [w] (Suc v) v ! 0) m = cof1 v (word_fun w) m" for m
  proof -
    have "word_fun (p ! 0) m = tt_bit p (take_bit 5 m)" for p
      using tt_bit_word [OF take_bit_5_less] fun_dep_word_fun [of "p ! 0"] by (simp add: fun_dep_def)
    then show "word_fun (Kit_TruthCofactor0 [w] (Suc v) v ! 0) m = cof0 v (word_fun w) m"
      "word_fun (Kit_TruthCofactor1 [w] (Suc v) v ! 0) m = cof1 v (word_fun w) m"
      using ok take_bit_5_less [of m] by (simp_all add: tt_simps tb cof0_def cof1_def word_fun_tt_bit)
  qed
  then show "word_fun (Kit_TruthCofactor0 [w] (Suc v) v ! 0) = cof0 v (word_fun w)"
    "word_fun (Kit_TruthCofactor1 [w] (Suc v) v ! 0) = cof1 v (word_fun w)"
    by (simp_all only: fun_eq_iff, blast+)
qed

lemma VarInSupport_word:
  assumes "v < 5"
  shows "\<not> Kit_TruthVarInSupport [w] 5 v \<longleftrightarrow> cof0 v (word_fun w) = cof1 v (word_fun w)"
proof -
  have ok: "tt_ok [w] 5" "tt_size 5 = 32" by (auto simp: tt_ok_def tt_size_def Kit_TruthWordNum_def)
  have tb: "unset_bit v (take_bit 5 m) = take_bit 5 (unset_bit v m)"
    "Bit_Operations.set_bit v (take_bit 5 m) = take_bit 5 (Bit_Operations.set_bit v m)" for m :: nat
    using assms by (auto intro!: bit_eqI simp: bit_simps)
  have "(\<forall>m<32. Q m) \<longleftrightarrow> (\<forall>m. Q (take_bit 5 m))" for Q :: "nat \<Rightarrow> bool"
  proof
    assume a: "\<forall>m. Q (take_bit 5 m)"
    show "\<forall>m<32. Q m"
    proof (intro allI impI)
      fix m :: nat assume "m < 32"
      then have "take_bit 5 m = m" by (simp add: take_bit_nat_eq_self_iff)
      with a show "Q m" by metis
    qed
  qed (use take_bit_5_less in blast)
  then show ?thesis
    using ok assms by (auto simp: Kit_TruthVarInSupport_iff fun_eq_iff cof0_def cof1_def word_fun_tt_bit tb)
qed

section \<open>Memory\<close>

text \<open>
  An upper bound of the words fetched by the recursion: three subproblems, and at most
  \<open>2^(n+1)\<close> cubes and a table for the problem itself.
\<close>

fun isop_mem :: "nat \<Rightarrow> nat \<Rightarrow> nat" where
  "isop_mem c 0 = c"
| "isop_mem c (Suc n) = 3 * isop_mem c n + 3 * 2 ^ n"

lemma isop_mem_ge: "c \<le> isop_mem c n"
  by (induction n) auto

lemma isop_mem_mono: "k \<le> n \<Longrightarrow> isop_mem c k \<le> isop_mem c n"
  by (rule lift_Suc_mono_le [of "isop_mem c"]) auto

lemma isop_mem_2: "isop_mem 2 n = isop_mem 1 n + 3 ^ n"
  by (induction n) auto

lemma isop_mem_closed: "isop_mem 2 n + 3 * 2 ^ n = 5 * 3 ^ n"
  by (induction n) auto

lemma isop_mem_exp: "2 ^ n \<le> isop_mem (Suc c) n"
  by (induction n) auto

lemma isop_mem_step:
  "v < n \<Longrightarrow> 3 * isop_mem c v + 2 * 2 ^ v + 2 ^ (n - 1) \<le> isop_mem c n"
proof (induction n)
  case (Suc n)
  show ?case
  proof (cases "v = n")
    case False
    then have "v < n" using Suc.prems by simp
    moreover from this have "(2::nat) ^ n = 2 * 2 ^ (n - 1)" by (cases n) auto
    ultimately show ?thesis using Suc.IH by simp
  qed simp
qed simp

lemma Vec_IntFetch_cases:
  "case Vec_IntFetch st k of
     Inl e \<Rightarrow> e = OutOfMemory \<and> (k = 0 \<or> nCap st < nSize st + k)
   | Inr st' \<Rightarrow> 0 < k \<and> nCap st' = nCap st \<and> nSize st' = nSize st + k"
  by (auto simp: Vec_IntFetch_def Let_def)

text \<open>What a call with \<open>k\<close> words to spend does: it stays within them, or it had too few.\<close>

definition isop_run :: "nat \<Rightarrow> Vec_Int \<Rightarrow> ('a \<times> Kit_Sop \<times> Vec_Int) res \<Rightarrow> ('a \<Rightarrow> Kit_Sop \<Rightarrow> bool) \<Rightarrow> bool" where
  "isop_run k st res P \<longleftrightarrow> (case res of
     Inl e \<Rightarrow> e = OutOfMemory \<and> nCap st < nSize st + k
   | Inr (r, c, st') \<Rightarrow> P r c \<and> nCap st' = nCap st \<and> nSize st' \<le> nSize st + k)"

lemma isop_run_mono:
  "isop_run k st res P \<Longrightarrow> k \<le> k' \<Longrightarrow> (\<And>r c. P r c \<Longrightarrow> P' r c) \<Longrightarrow> isop_run k' st res P'"
  by (auto simp: isop_run_def split: sum.splits)

lemma isop_run_bind:
  assumes "isop_run k st res P"
    and "\<And>r c st'. P r c \<Longrightarrow> nCap st' = nCap st \<Longrightarrow> nSize st' \<le> nSize st + k \<Longrightarrow> isop_run j st' (f (r, c, st')) Q"
  shows "isop_run (k + j) st (res_bind res f) Q"
proof (cases res)
  case (Inl e)
  then show ?thesis using assms(1) by (simp add: isop_run_def)
next
  case (Inr x)
  obtain r c st' where x: "x = (r, c, st')" by (cases x)
  with Inr assms(1) have "P r c" "nCap st' = nCap st" "nSize st' \<le> nSize st + k"
    by (auto simp: isop_run_def)
  with assms(2) [of r c st'] show ?thesis
    using Inr x by (auto simp: isop_run_def split: sum.splits)
qed

lemma isop_run_fetch:
  assumes "0 < k" "\<And>st'. nCap st' = nCap st \<Longrightarrow> nSize st' = nSize st + k \<Longrightarrow> isop_run j st' (f st') Q"
  shows "isop_run (k + j) st (res_bind (Vec_IntFetch st k) f) Q"
proof (cases "Vec_IntFetch st k")
  case (Inl e)
  then show ?thesis using Vec_IntFetch_cases [where st = st and k = k] assms(1) by (simp add: isop_run_def)
next
  case (Inr st')
  then have st': "nCap st' = nCap st" "nSize st' = nSize st + k"
    using Vec_IntFetch_cases [where st = st and k = k] by simp_all
  with assms(2) [OF this] show ?thesis
    using Inr by (auto simp: isop_run_def split: sum.splits)
qed

lemma isop_run_return: "P r c \<Longrightarrow> isop_run k st (Inr (r, c, st)) P"
  by (simp add: isop_run_def)

section \<open>Correctness on one word\<close>

lemma isop_split:
  assumes "isop_ok v f0 d0 r0 c0" "isop_ok v f1 d1 r1 c1" "isop_ok v f2 d2 r2 c2"
  shows "nCubes c0 + nCubes c1 + nCubes c2 \<le> 3 * 2 ^ v"
  using isop_ok_cubes_le [OF assms(1)] isop_ok_cubes_le [OF assms(2)] isop_ok_cubes_le [OF assms(3)] by simp

lemma isop_run_join:
  assumes join: "isop_ok (Suc v) f d r (isop_join v c0 c1 c2)" and f: "f m0"
  shows "isop_run (2 * 2 ^ v) st
    (res_bind (Vec_IntFetch st (nCubes c0 + nCubes c1 + nCubes c2)) (\<lambda>st. Inr (R, isop_join v c0 c1 c2, st)))
    (\<lambda>R' c. R' = R \<and> isop_ok (Suc v) f d r c)"
proof -
  have len: "nCubes (isop_join v c0 c1 c2) = nCubes c0 + nCubes c1 + nCubes c2"
    by (simp add: isop_join_def nCubes_def)
  then have "nCubes c0 + nCubes c1 + nCubes c2 \<le> 2 * 2 ^ v"
    using isop_ok_cubes_le [OF join] by simp
  moreover have "0 < nCubes c0 + nCubes c1 + nCubes c2"
    using isop_okD(1) [OF join f] isop_okD(3) [OF join, of m0] unfolding len [symmetric]
    by (auto simp: nCubes_def)
  then have "isop_run (nCubes c0 + nCubes c1 + nCubes c2 + 0) st
    (res_bind (Vec_IntFetch st (nCubes c0 + nCubes c1 + nCubes c2)) (\<lambda>st. Inr (R, isop_join v c0 c1 c2, st)))
    (\<lambda>R' c. R' = R \<and> isop_ok (Suc v) f d r c)"
    using join by (intro isop_run_fetch isop_run_return) simp_all
  ultimately show ?thesis by (auto elim: isop_run_mono)
qed

lemma Kit_TruthIsop5_rec_run:
  assumes "n \<le> 5" "fun_dep n (word_fun f)" "fun_dep n (word_fun d)" "\<And>m. word_fun f m \<Longrightarrow> word_fun d m"
  shows "isop_run (isop_mem 1 n) st (Kit_TruthIsop5_rec f d n st)
    (\<lambda>r c. isop_ok n (word_fun f) (word_fun d) (word_fun r) c)"
  using assms
proof (induction n arbitrary: f d st rule: less_induct)
  case (less n f d st)
  have guard: "n \<le> 5 \<and> (f AND NOT d) = 0"
    using less.prems by (auto simp flip: word_fun_all)
  let ?sup = "\<lambda>v. Kit_TruthVarInSupport [f] 5 v \<or> Kit_TruthVarInSupport [d] 5 v"
  have supp: "\<not> ?sup w \<Longrightarrow> cof0 w (word_fun f) = cof1 w (word_fun f) \<and> cof0 w (word_fun d) = cof1 w (word_fun d)"
    if "w < n" for w using that guard VarInSupport_word by auto
  show ?case
  proof (cases "f = 0 \<or> d = 0xFFFFFFFF")
    case True
    show ?thesis
    proof (cases "f = 0")
      case True
      then show ?thesis using guard
        by (subst Kit_TruthIsop5_rec.simps) (simp add: isop_run_return isop_ok_const0)
    next
      case False
      then obtain m0 where "word_fun f m0" using word_fun_all [of f 0] by auto
      have eq: "Kit_TruthIsop5_rec f d n st =
          res_bind (Vec_IntFetch st 1) (\<lambda>st. Inr (0xFFFFFFFF, \<lparr>nLits = 0, pCubes = [0]\<rparr>, st))"
        using True False guard by (subst Kit_TruthIsop5_rec.simps) auto
      have "isop_run (1 + 0) st (Kit_TruthIsop5_rec f d n st)
          (\<lambda>r c. isop_ok n (word_fun f) (word_fun d) (word_fun r) c)"
        unfolding eq using \<open>word_fun f m0\<close> True False
        by (intro isop_run_fetch isop_run_return isop_ok_const1) auto
      then show ?thesis using isop_mem_ge [of 1 n] by (auto elim: isop_run_mono)
    qed
  next
    case False
    then obtain m0 where m0: "word_fun f m0" using word_fun_all [of f 0] by auto
    obtain m1 where m1: "\<not> word_fun d m1" using False word_fun_all [of d "0xFFFFFFFF"] by auto
    show ?thesis
    proof (cases "top_var ?sup n")
      case None
      have "fun_dep 0 (word_fun d)"
        using less.prems supp None by (intro top_var_dep(2) [of n _ ?sup]) auto
      moreover have "fun_dep 0 (word_fun f)"
        using less.prems supp None by (intro top_var_dep(2) [of n _ ?sup]) auto
      ultimately show ?thesis
        using m0 m1 fun_dep_0 less.prems(4) by metis
    next
      case (Some v)
      have v: "v < n" "v < 5" using top_var_Some [OF Some] guard by auto
      have dep: "fun_dep (Suc v) (word_fun f)" "fun_dep (Suc v) (word_fun d)"
        using less.prems supp Some by (auto intro!: top_var_dep(1) [of n _ ?sup v])
      define f0 where "f0 = Kit_TruthCofactor0 [f] (v + 1) v ! 0"
      define f1 where "f1 = Kit_TruthCofactor1 [f] (v + 1) v ! 0"
      define d0 where "d0 = Kit_TruthCofactor0 [d] (v + 1) v ! 0"
      define d1 where "d1 = Kit_TruthCofactor1 [d] (v + 1) v ! 0"
      have wf: "word_fun f0 = cof0 v (word_fun f)" "word_fun f1 = cof1 v (word_fun f)"
        "word_fun d0 = cof0 v (word_fun d)" "word_fun d1 = cof1 v (word_fun d)"
        using v by (simp_all add: f0_def f1_def d0_def d1_def word_fun_cofactors)
      let ?F = "word_fun f" and ?D = "word_fun d" and ?M = "isop_mem 1 v"
      let ?P0 = "\<lambda>r c. isop_ok v (\<lambda>m. cof0 v ?F m \<and> \<not> cof1 v ?D m) (cof0 v ?D) (word_fun r) c"
      let ?P1 = "\<lambda>r c. isop_ok v (\<lambda>m. cof1 v ?F m \<and> \<not> cof0 v ?D m) (cof1 v ?D) (word_fun r) c"
      let ?P2 = "\<lambda>r0 r1 r c. isop_ok v (\<lambda>m. cof0 v ?F m \<and> \<not> word_fun r0 m \<or> cof1 v ?F m \<and> \<not> word_fun r1 m)
        (\<lambda>m. cof0 v ?D m \<and> cof1 v ?D m) (word_fun r) c"
      note deps = fun_dep_cof [OF dep(1)] fun_dep_cof [OF dep(2)]
      have FD: "cof0 v ?F m \<Longrightarrow> cof0 v ?D m" "cof1 v ?F m \<Longrightarrow> cof1 v ?D m" for m
        using less.prems(4) by (auto simp: cof0_def cof1_def)
      have R0: "isop_run ?M st (Kit_TruthIsop5_rec (f0 AND NOT d1) d0 v st) ?P0" for st
        using less.IH [of v "f0 AND NOT d1" d0 st] v FD deps by (simp add: wf fun_dep_conn)
      have R1: "isop_run ?M st (Kit_TruthIsop5_rec (f1 AND NOT d0) d1 v st) ?P1" for st
        using less.IH [of v "f1 AND NOT d0" d1 st] v FD deps by (simp add: wf fun_dep_conn)
      have R2: "isop_run ?M st (Kit_TruthIsop5_rec ((f0 AND NOT r0) OR (f1 AND NOT r1)) (d0 AND d1) v st) (?P2 r0 r1)"
        if "?P0 r0 c0" "?P1 r1 c1" for r0 c0 r1 c1 st
      proof -
        have "cof0 v ?F m \<and> \<not> word_fun r0 m \<or> cof1 v ?F m \<and> \<not> word_fun r1 m \<Longrightarrow> cof0 v ?D m \<and> cof1 v ?D m" for m
          using isop_okD(1) [OF that(1), of m] isop_okD(1) [OF that(2), of m] FD by blast
        then show ?thesis
          using less.IH [of v "(f0 AND NOT r0) OR (f1 AND NOT r1)" "d0 AND d1" st] v deps
            isop_ok_dep [OF that(1)] isop_ok_dep [OF that(2)] by (simp add: wf fun_dep_conn)
      qed
      let ?R = "\<lambda>r0 r1 r2. r2 OR ((r0 AND NOT (var_masks ! v)) OR (r1 AND var_masks ! v))"
      have eq: "Kit_TruthIsop5_rec f d n st =
          res_bind (Kit_TruthIsop5_rec (f0 AND NOT d1) d0 v st) (\<lambda>(r0, c0, st).
          res_bind (Kit_TruthIsop5_rec (f1 AND NOT d0) d1 v st) (\<lambda>(r1, c1, st).
          res_bind (Kit_TruthIsop5_rec ((f0 AND NOT r0) OR (f1 AND NOT r1)) (d0 AND d1) v st) (\<lambda>(r2, c2, st).
          res_bind (Vec_IntFetch st (nCubes c0 + nCubes c1 + nCubes c2)) (\<lambda>st.
            Inr (?R r0 r1 r2, isop_join v c0 c1 c2, st)))))"
        using False guard Some
        by (subst Kit_TruthIsop5_rec.simps) (simp only: Let_def f0_def d0_def f1_def d1_def simp_thms de_Morgan_disj if_False option.case)
      have join: "isop_ok (Suc v) ?F ?D (word_fun (?R r0 r1 r2)) (isop_join v c0 c1 c2)"
        if "?P0 r0 c0" "?P1 r1 c1" "?P2 r0 r1 r2 c2" for r0 c0 r1 c1 r2 c2
      proof -
        have "word_fun (?R r0 r1 r2) = (\<lambda>m. word_fun r2 m \<or> (if bit m v then word_fun r1 m else word_fun r0 m))"
          using v by (auto simp: fun_eq_iff word_fun_var_mask)
        with isop_ok_join [OF _ that] v show ?thesis by simp
      qed
      have "isop_run (?M + (?M + (?M + 2 * 2 ^ v))) st (Kit_TruthIsop5_rec f d n st)
        (\<lambda>r c. isop_ok (Suc v) ?F ?D (word_fun r) c)"
        unfolding eq
      proof (rule isop_run_bind [OF R0], simp only: prod.case, rule isop_run_bind [OF R1], simp only: prod.case,
          rule isop_run_bind [OF R2], assumption, assumption, simp only: prod.case)
        fix r0 c0 st0 r1 c1 st1 r2 c2 st2
        assume P: "?P0 r0 c0" "?P1 r1 c1" "?P2 r0 r1 r2 c2"
        show "isop_run (2 * 2 ^ v) st2 (res_bind (Vec_IntFetch st2 (nCubes c0 + nCubes c1 + nCubes c2)) (\<lambda>st.
            Inr (?R r0 r1 r2, isop_join v c0 c1 c2, st))) (\<lambda>r c. isop_ok (Suc v) ?F ?D (word_fun r) c)"
          by (rule isop_run_mono [OF isop_run_join [OF join [OF P] m0] order_refl]) simp
      qed
      moreover have "?M + (?M + (?M + 2 * 2 ^ v)) \<le> isop_mem 1 n"
        using isop_mem_step [OF v(1), of 1] by simp
      ultimately show ?thesis
        using isop_ok_mono v(1) by (auto elim!: isop_run_mono)
    qed
  qed
qed

section \<open>Correctness on tables\<close>

lemma all_tt_take_bit: "(\<forall>m<tt_size n. Q m) \<longleftrightarrow> (\<forall>m. Q (take_bit (max 5 n) m))"
proof
  assume a: "\<forall>m. Q (take_bit (max 5 n) m)"
  show "\<forall>m<tt_size n. Q m"
  proof (intro allI impI)
    fix m assume "m < tt_size n"
    then have "take_bit (max 5 n) m = m" by (simp add: take_bit_nat_eq_self_iff tt_size_exp)
    with a show "Q m" by metis
  qed
qed (simp add: tt_size_exp)

lemma tt_take_bit_less [simp]: "take_bit (max 5 n) m < tt_size n"
  by (simp add: tt_size_exp)

lemma Kit_TruthIsConst_fun:
  "Kit_TruthIsConst0 p n \<longleftrightarrow> (\<forall>m. \<not> tt_fun p n m)" "Kit_TruthIsConst1 p n \<longleftrightarrow> (\<forall>m. tt_fun p n m)"
  unfolding Kit_TruthIsConst0_iff Kit_TruthIsConst1_iff all_tt_take_bit tt_fun_def by (rule refl)+

lemma Kit_TruthIsEqual_fun: "Kit_TruthIsEqual p q n \<longleftrightarrow> tt_fun p n = tt_fun q n"
  unfolding Kit_TruthIsEqual_iff all_tt_take_bit tt_fun_def fun_eq_iff by (rule refl)

lemma take_bit_partner:
  "v < k \<Longrightarrow> take_bit k (unset_bit v m) = unset_bit v (take_bit k (m :: nat))"
  "v < k \<Longrightarrow> take_bit k (Bit_Operations.set_bit v m) = Bit_Operations.set_bit v (take_bit k (m :: nat))"
  by (rule bit_eqI, auto simp: bit_simps)+

lemma VarInSupport_fun:
  assumes "tt_ok p n" "v < n"
  shows "\<not> Kit_TruthVarInSupport p n v \<longleftrightarrow> cof0 v (tt_fun p n) = cof1 v (tt_fun p n)"
  unfolding Kit_TruthVarInSupport_iff [OF assms]
  using all_tt_take_bit [of n "\<lambda>m. tt_bit p (unset_bit v m) = tt_bit p (Bit_Operations.set_bit v m)"] assms(2)
  by (auto simp: fun_eq_iff cof0_def cof1_def tt_fun_def take_bit_partner)

lemma tt_fun_ops:
  assumes "tt_ok q n"
  shows "tt_fun (Kit_TruthSharp q a b n) n m \<longleftrightarrow> tt_fun a n m \<and> \<not> tt_fun b n m"
    and "tt_fun (Kit_TruthAnd q a b n) n m \<longleftrightarrow> tt_fun a n m \<and> tt_fun b n m"
    and "tt_fun (Kit_TruthOr q a b n) n m \<longleftrightarrow> tt_fun a n m \<or> tt_fun b n m"
    and "tt_fun (Kit_TruthNot q a n) n m \<longleftrightarrow> \<not> tt_fun a n m"
    and "\<not> tt_fun (Kit_TruthClear q n) n m" and "tt_fun (Kit_TruthFill q n) n m"
  using assms by (simp_all add: tt_fun_def tt_bit_kit_ops)

lemma tt_fun_halves:
  assumes v: "5 \<le> v" "v < n" and ok: "tt_ok p n" and dep: "fun_dep (Suc v) (tt_fun p n)"
  shows "cof0 v (tt_fun p n) = tt_fun p v"
    and "cof1 v (tt_fun p n) = tt_fun (drop (Kit_TruthWordNum v) p) v"
proof -
  have low: "take_bit (Suc v) (unset_bit v m) = take_bit v m"
    "take_bit (Suc v) (Bit_Operations.set_bit v m) = take_bit v m + 2 ^ v" for m :: nat
  proof -
    show "take_bit (Suc v) (unset_bit v m) = take_bit v m"
      by (rule bit_eqI) (auto simp: bit_simps less_Suc_eq)
    have "take_bit (Suc v) (Bit_Operations.set_bit v m) = Bit_Operations.set_bit v (take_bit v m)"
      by (rule bit_eqI) (auto simp: bit_simps less_Suc_eq)
    then show "take_bit (Suc v) (Bit_Operations.set_bit v m) = take_bit v m + 2 ^ v"
      by (simp add: set_bit_eq_add bit_take_bit_iff)
  qed
  have fold_dep: "tt_fun p n = (\<lambda>m. tt_bit p (take_bit (Suc v) m))"
  proof (rule ext)
    fix m have "tt_fun p n m = tt_fun p n (take_bit (Suc v) m)" using dep by (simp add: fun_dep_def)
    also have "\<dots> = tt_bit p (take_bit (Suc v) m)" using v by (simp add: tt_fun_def min_absorb2 max_def)
    finally show "tt_fun p n m = tt_bit p (take_bit (Suc v) m)" .
  qed
  have max: "max 5 v = v" using v by simp
  show "cof0 v (tt_fun p n) = tt_fun p v"
    unfolding fold_dep by (simp add: fun_eq_iff cof0_def low tt_fun_def max del: take_bit_Suc)
  have N: "(2::nat) ^ v = 32 * Kit_TruthWordNum v"
    using tt_size_exp [of v] by (simp add: tt_size_def max)
  have "Kit_TruthWordNum v \<le> Kit_TruthWordNum n"
    unfolding Kit_TruthWordNum_alt using v by (intro power_increasing) auto
  then have "Kit_TruthWordNum v \<le> length p"
    using ok unfolding tt_ok_def by (rule le_trans)
  then have "tt_bit p (k + 2 ^ v) = tt_bit (drop (Kit_TruthWordNum v) p) k" for k
    unfolding N by (simp add: tt_bit_def add.commute)
  then show "cof1 v (tt_fun p n) = tt_fun (drop (Kit_TruthWordNum v) p) v"
    unfolding fold_dep by (simp add: fun_eq_iff cof1_def low tt_fun_def max)
qed

lemma tt_fun_one_word:
  assumes "v < 5" "fun_dep (Suc v) (tt_fun p n)"
  shows "word_fun (p ! 0) = tt_fun p n"
proof -
  have "fun_dep 5 (tt_fun p n)" using assms by (auto elim: fun_dep_mono)
  then have "tt_fun p n m = tt_fun p n (take_bit 5 m)" for m by (simp add: fun_dep_def)
  also have "tt_fun p n (take_bit 5 m) = word_fun (p ! 0) m" for m
    using tt_bit_word [OF take_bit_5_less, of p m] fun_dep_word_fun [of "p ! 0"]
    by (simp add: tt_fun_def fun_dep_def min_absorb2)
  finally show ?thesis by (simp add: fun_eq_iff)
qed

lemma tt_fun_replicated_word:
  "tt_fun (for_up (Kit_TruthWordNum n) (\<lambda>i p. p[i := u]) (replicate (Kit_TruthWordNum n) 0)) n = word_fun u"
proof (rule ext)
  fix m
  have "take_bit (max 5 n) m div 32 < Kit_TruthWordNum n"
    using tt_take_bit_less [of n m] by (simp only: tt_size_word)
  moreover have "take_bit (max 5 n) m mod 32 = take_bit 5 m"
    using take_bit_eq_mod [of 5 "take_bit (max 5 n) m"] by (simp add: take_bit_take_bit min_absorb1)
  ultimately show "tt_fun (for_up (Kit_TruthWordNum n) (\<lambda>i p. p[i := u]) (replicate (Kit_TruthWordNum n) 0)) n m
      = word_fun u m"
    by (simp add: tt_fun_def tt_bit_def word_fun_def)
qed

text \<open>Copying the first block over the rest of the array.\<close>

lemma for_up_copy_block:
  "k \<le> off \<Longrightarrow> off + k \<le> length p \<Longrightarrow> j < length p \<Longrightarrow>
   for_up k (\<lambda>k p. p[off + k := p ! k]) p ! j = (if off \<le> j \<and> j < off + k then p ! (j - off) else p ! j)"
  by (induction k arbitrary: j) (auto simp: nth_list_update length_for_up_gen)

lemma fold_copy_blocks:
  assumes "0 < N"
  shows "1 \<le> q \<Longrightarrow> q * N \<le> length p \<Longrightarrow>
    length (fold (\<lambda>i. for_up N (\<lambda>k p. p[i * N + k := p ! k])) [1..<q] p) = length p \<and>
    (\<forall>j<length p. fold (\<lambda>i. for_up N (\<lambda>k p. p[i * N + k := p ! k])) [1..<q] p ! j =
      (if j < q * N then p ! (j mod N) else p ! j))"
proof (induction q)
  case (Suc q)
  show ?case
  proof (cases "q = 0")
    case False
    let ?r = "fold (\<lambda>i. for_up N (\<lambda>k p. p[i * N + k := p ! k])) [1..<q] p"
    have IH: "length ?r = length p" "\<And>j. j < length p \<Longrightarrow> ?r ! j = (if j < q * N then p ! (j mod N) else p ! j)"
      using Suc False by auto
    have "N \<le> q * N" using False by (cases q) auto
    moreover have "q * N + N \<le> length p" using Suc.prems by simp
    ultimately have N: "N \<le> q * N" "N < length p" using assms by linarith+
    have up: "fold (\<lambda>i. for_up N (\<lambda>k p. p[i * N + k := p ! k])) [1..<Suc q] p =
        for_up N (\<lambda>k p. p[q * N + k := p ! k]) ?r"
      using False by simp
    have "for_up N (\<lambda>k p. p[q * N + k := p ! k]) ?r ! j =
        (if j < Suc q * N then p ! (j mod N) else p ! j)" if j: "j < length p" for j
    proof (cases "q * N \<le> j \<and> j < q * N + N")
      case True
      then have "j - q * N < N" by auto
      moreover have "j mod N = j - q * N"
        using True by (metis add.commute calculation le_add_diff_inverse2 mod_less mod_mult_self1)
      ultimately show ?thesis
        using True j N Suc.prems IH by (subst for_up_copy_block) auto
    next
      case False
      then show ?thesis
        using j N Suc.prems IH by (subst for_up_copy_block) auto
    qed
    moreover have "length (for_up N (\<lambda>k p. p[q * N + k := p ! k]) ?r) = length p"
      by (subst length_for_up_gen) (simp_all only: length_list_update IH(1))
    ultimately show ?thesis unfolding up by blast
  qed (use assms in simp)
qed simp

lemma WordNum_halves: "5 \<le> v \<Longrightarrow> v < n \<Longrightarrow> 2 * Kit_TruthWordNum v \<le> Kit_TruthWordNum n"
proof -
  assume "5 \<le> v" "v < n"
  then have "Suc (v - 5) \<le> n - 5" by simp
  from power_increasing [OF this, of "2::nat"] show ?thesis by (simp add: Kit_TruthWordNum_alt)
qed

lemma WordNum_divides: "5 \<le> v \<Longrightarrow> v < n \<Longrightarrow>
    Kit_TruthWordNum n div (2 * Kit_TruthWordNum v) * (2 * Kit_TruthWordNum v) = Kit_TruthWordNum n \<and>
    1 \<le> Kit_TruthWordNum n div (2 * Kit_TruthWordNum v)"
proof -
  assume v: "5 \<le> v" "v < n"
  have "n - 5 = (n - Suc v) + Suc (v - 5)" using v by simp
  then have "Kit_TruthWordNum n = 2 ^ (n - Suc v) * (2 * Kit_TruthWordNum v)"
    unfolding Kit_TruthWordNum_alt by (simp only: power_add power_Suc)
  then show ?thesis by simp
qed

text \<open>The resulting table: two halves, and the copies of the pair in the rest of the array.\<close>

lemma tt_fun_copied_halves:
  assumes v: "5 \<le> v" "v < n"
    and len: "length A = Kit_TruthWordNum v" "length A + length B = Kit_TruthWordNum n"
  defines "N \<equiv> 2 * Kit_TruthWordNum v"
  defines "R \<equiv> fold (\<lambda>i. for_up N (\<lambda>k p. p[i * N + k := p ! k])) [1..<Kit_TruthWordNum n div N] (A @ B)"
  shows "length R = Kit_TruthWordNum n"
    and "tt_fun R n m \<longleftrightarrow> (if bit m v then tt_fun B v m else tt_fun A v m)"
proof -
  have N: "0 < N" "1 \<le> Kit_TruthWordNum n div N" "Kit_TruthWordNum n div N * N = Kit_TruthWordNum n"
    using WordNum_divides [OF v] by (simp_all add: N_def)
  note copy = fold_copy_blocks [OF N(1,2), of "A @ B"]
  show lenR: "length R = Kit_TruthWordNum n"
    using copy N(3) len(2) unfolding R_def by simp
  let ?m = "take_bit n m"
  have max: "max 5 n = n" "max 5 v = v" using v by auto
  have m: "?m div 32 < Kit_TruthWordNum n"
    using tt_take_bit_less [of n m] by (simp only: max tt_size_word)
  have R: "R ! (?m div 32) = (A @ B) ! (?m div 32 mod N)"
    using copy N(3) len(2) m unfolding R_def by simp
  have N_exp: "N = 2 ^ (Suc (v - 5))" using v by (simp add: N_def Kit_TruthWordNum_alt)
  have "?m div 32 mod N = take_bit (Suc (v - 5)) (drop_bit 5 ?m)"
    by (simp add: N_exp take_bit_eq_mod drop_bit_eq_div)
  also have "\<dots> = (if bit m v then take_bit v m div 32 + Kit_TruthWordNum v else take_bit v m div 32)"
  proof -
    have "take_bit (Suc (v - 5)) (drop_bit 5 ?m) =
        (if bit m v then Bit_Operations.set_bit (v - 5) (drop_bit 5 (take_bit v m)) else drop_bit 5 (take_bit v m))"
      using v by (intro bit_eqI) (auto simp: bit_simps less_Suc_eq)
    moreover have "\<not> bit (drop_bit 5 (take_bit v m)) (v - 5)" using v by (simp add: bit_simps)
    ultimately show ?thesis
      by (simp add: set_bit_eq_add drop_bit_eq_div Kit_TruthWordNum_alt)
  qed
  finally have idx: "?m div 32 mod N = (if bit m v then take_bit v m div 32 + Kit_TruthWordNum v else take_bit v m div 32)" .
  have "take_bit v m < tt_size v" using tt_take_bit_less [of v m] by (simp only: max)
  then have small: "take_bit v m div 32 < Kit_TruthWordNum v" by (simp only: tt_size_word)
  have low: "?m mod 32 = take_bit v m mod 32"
    using v by (intro bit_eqI) (auto simp: bit_take_bit_iff)
  show "tt_fun R n m \<longleftrightarrow> (if bit m v then tt_fun B v m else tt_fun A v m)"
    using small unfolding tt_fun_def tt_bit_def max R idx low
    by (simp add: nth_append len(1))
qed

lemma tt_ok_le: "tt_ok p n \<Longrightarrow> v \<le> n \<Longrightarrow> tt_ok p v"
  unfolding tt_ok_def Kit_TruthWordNum_alt by (meson diff_le_mono le_trans one_le_numeral power_increasing)

lemma tt_ok_drop:
  assumes "5 \<le> v" "v < n" "tt_ok p n"
  shows "tt_ok (drop (Kit_TruthWordNum v) p) v"
  using WordNum_halves [OF assms(1,2)] assms(3) by (simp add: tt_ok_def)

lemma isop_mem_tables:
  assumes "5 \<le> v" "v < n"
  shows "Kit_TruthWordNum n + (isop_mem 2 v + (isop_mem 2 v + (isop_mem 2 v + 2 * 2 ^ v))) \<le> isop_mem 2 n"
proof -
  have "Kit_TruthWordNum n \<le> 2 ^ (n - 1)"
    unfolding Kit_TruthWordNum_alt using assms by (intro power_increasing) auto
  then show ?thesis using isop_mem_step [OF assms(2), of 2] by simp
qed

lemma isop_mem_small: "Kit_TruthWordNum n + isop_mem 1 n \<le> isop_mem 2 n"
proof -
  have "Kit_TruthWordNum n \<le> 3 ^ (n - 5)"
    unfolding Kit_TruthWordNum_alt by (rule power_mono) auto
  also have "\<dots> \<le> (3::nat) ^ n" by (rule power_increasing) auto
  finally show ?thesis by (simp add: isop_mem_2)
qed

text \<open>The three subproblems of the recursion on tables, and the join of their results.\<close>

definition isop_table_ok :: "nat \<Rightarrow> words \<Rightarrow> words \<Rightarrow> words \<Rightarrow> Kit_Sop \<Rightarrow> bool" where
  "isop_table_ok n f d r c \<longleftrightarrow>
     length r = Kit_TruthWordNum n \<and> isop_ok n (tt_fun f n) (tt_fun d n) (tt_fun r n) c"

definition isop_table_pre :: "nat \<Rightarrow> words \<Rightarrow> words \<Rightarrow> bool" where
  "isop_table_pre n f d \<longleftrightarrow> tt_ok f n \<and> tt_ok d n \<and> fun_dep n (tt_fun f n) \<and> fun_dep n (tt_fun d n) \<and>
     (\<forall>m. tt_fun f n m \<longrightarrow> tt_fun d n m)"

lemma fun_dep_tt_fun: "5 \<le> n \<Longrightarrow> fun_dep n (tt_fun p n)"
  by (simp add: fun_dep_def tt_fun_def max_def)

lemma isop_table_preI:
  "5 \<le> n \<Longrightarrow> tt_ok f n \<Longrightarrow> tt_ok d n \<Longrightarrow> (\<And>m. tt_fun f n m \<Longrightarrow> tt_fun d n m) \<Longrightarrow> isop_table_pre n f d"
  by (simp add: isop_table_pre_def fun_dep_tt_fun)

lemma isop_table_okD: "isop_table_ok n f d r c \<Longrightarrow> isop_ok n (tt_fun f n) (tt_fun d n) (tt_fun r n) c"
  by (simp add: isop_table_ok_def)

lemma tt_ok_isop_table: "isop_table_ok n f d r c \<Longrightarrow> tt_ok r n"
  by (simp add: isop_table_ok_def tt_ok_def)

lemma Kit_TruthIsop_rec_run:
  assumes "n \<le> 16" "isop_table_pre n f d"
  shows "isop_run (isop_mem 2 n) st (Kit_TruthIsop_rec f d n st) (isop_table_ok n f d)"
  using assms
proof (induction n arbitrary: f d st rule: less_induct)
  case (less n f d st)
  let ?F = "tt_fun f n" and ?D = "tt_fun d n" and ?W = "Kit_TruthWordNum n"
  have pre: "tt_ok f n" "tt_ok d n" "fun_dep n ?F" "fun_dep n ?D" "\<And>m. ?F m \<Longrightarrow> ?D m"
    using less.prems(2) by (simp_all add: isop_table_pre_def)
  define T where "T = replicate ?W (0 :: u32)"
  have T: "tt_ok T n" "length T = ?W" by (simp_all add: T_def tt_ok_def)
  let ?sup = "\<lambda>v. Kit_TruthVarInSupport f n v \<or> Kit_TruthVarInSupport d n v"
  have supp: "\<not> ?sup w \<Longrightarrow> cof0 w ?F = cof1 w ?F \<and> cof0 w ?D = cof1 w ?D" if "w < n" for w
    using that VarInSupport_fun pre by auto
  consider (zero) "Kit_TruthIsConst0 f n" | (one) "\<not> Kit_TruthIsConst0 f n" "Kit_TruthIsConst1 d n"
    | (rec) "\<not> Kit_TruthIsConst0 f n" "\<not> Kit_TruthIsConst1 d n" by blast
  then show ?case
  proof cases
    case zero
    have eq: "Kit_TruthIsop_rec f d n st =
        res_bind (Vec_IntFetch st ?W) (\<lambda>st. Inr (Kit_TruthClear T n, \<lparr>nLits = 0, pCubes = []\<rparr>, st))"
      using zero by (subst Kit_TruthIsop_rec.simps) (simp add: T_def Let_def)
    have "isop_run (?W + 0) st (Kit_TruthIsop_rec f d n st) (isop_table_ok n f d)"
      unfolding eq using zero T
      by (intro isop_run_fetch isop_run_return)
         (auto simp: isop_table_ok_def Kit_TruthIsConst_fun tt_fun_ops intro!: isop_ok_const0)
    then show ?thesis using isop_mem_small [of n] by (auto elim: isop_run_mono)
  next
    case one
    then obtain m0 where m0: "?F m0" by (auto simp: Kit_TruthIsConst_fun)
    have eq: "Kit_TruthIsop_rec f d n st =
        res_bind (Vec_IntFetch st ?W) (\<lambda>st. res_bind (Vec_IntFetch st 1)
          (\<lambda>st. Inr (Kit_TruthFill T n, \<lparr>nLits = 0, pCubes = [0]\<rparr>, st)))"
      using one by (subst Kit_TruthIsop_rec.simps) (simp add: T_def Let_def)
    have "isop_run (?W + (1 + 0)) st (Kit_TruthIsop_rec f d n st) (isop_table_ok n f d)"
      unfolding eq using one T m0
      by (intro isop_run_fetch isop_run_return)
         (auto simp: isop_table_ok_def Kit_TruthIsConst_fun tt_fun_ops intro!: isop_ok_const1)
    then show ?thesis using isop_mem_small [of n] isop_mem_ge [of 1 n] by (auto elim: isop_run_mono)
  next
    case rec
    then obtain m0 m1 where m0: "?F m0" and m1: "\<not> ?D m1" by (auto simp: Kit_TruthIsConst_fun)
    show ?thesis
    proof (cases "top_var ?sup n")
      case None
      have "fun_dep 0 ?D" "fun_dep 0 ?F"
        using pre supp None by (auto intro!: top_var_dep(2) [of n _ ?sup])
      then show ?thesis using m0 m1 fun_dep_0 pre(5) by metis
    next
      case (Some v)
      have vn: "v < n" using top_var_Some [OF Some] by simp
      have dep: "fun_dep (Suc v) ?F" "fun_dep (Suc v) ?D"
        using pre supp Some by (auto intro!: top_var_dep(1) [of n _ ?sup v])
      show ?thesis
      proof (cases "v < 5")
        case True
        have eq: "Kit_TruthIsop_rec f d n st =
            res_bind (Vec_IntFetch st ?W) (\<lambda>st. res_bind (Kit_TruthIsop5_rec (f ! 0) (d ! 0) (Suc v) st)
              (\<lambda>(u, c, st). Inr (for_up ?W (\<lambda>i p. p[i := u]) T, c, st)))"
          using rec Some True by (subst Kit_TruthIsop_rec.simps) (simp add: T_def Let_def)
        have wf: "word_fun (f ! 0) = ?F" "word_fun (d ! 0) = ?D"
          using tt_fun_one_word True dep by blast+
        have run5: "isop_run (isop_mem 1 (Suc v)) st (Kit_TruthIsop5_rec (f ! 0) (d ! 0) (Suc v) st)
            (\<lambda>r c. isop_ok (Suc v) ?F ?D (word_fun r) c)" for st
          using Kit_TruthIsop5_rec_run [of "Suc v" "f ! 0" "d ! 0" st] True dep pre(5) by (simp add: wf)
        have "isop_run (?W + (isop_mem 1 (Suc v) + 0)) st (Kit_TruthIsop_rec f d n st) (isop_table_ok n f d)"
          unfolding eq
        proof (rule isop_run_fetch, simp, rule isop_run_bind [OF run5], simp only: prod.case, rule isop_run_return)
          fix u c assume "isop_ok (Suc v) ?F ?D (word_fun u) c"
          with vn show "isop_table_ok n f d (for_up ?W (\<lambda>i p. p[i := u]) T) c"
            unfolding isop_table_ok_def T_def tt_fun_replicated_word
            by (auto intro: isop_ok_mono)
        qed
        moreover have "?W + (isop_mem 1 (Suc v) + 0) \<le> isop_mem 2 n"
          using isop_mem_mono [of "Suc v" n 1] isop_mem_small [of n] vn by simp
        ultimately show ?thesis by (auto elim: isop_run_mono)
      next
        case False
        then have v: "5 \<le> v" by simp
        let ?N = "Kit_TruthWordNum v"
        define f1 where "f1 = drop ?N f"
        define d1 where "d1 = drop ?N d"
        define X where "X = Kit_TruthSharp (take ?N T) f d1 v"
        define Y where "Y = Kit_TruthSharp (drop ?N T) f1 d v"
        define X' where "X' = (\<lambda>r0 r1. Kit_TruthOr (Kit_TruthSharp X f r0 v) (Kit_TruthSharp X f r0 v)
          (Kit_TruthSharp Y f1 r1 v) v)"
        define Y' where "Y' = (\<lambda>r1. Kit_TruthAnd (Kit_TruthSharp Y f1 r1 v) d d1 v)"
        define R where "R = (\<lambda>r0 r1 r2. fold (\<lambda>i. for_up (2 * ?N) (\<lambda>k p. p[i * (2 * ?N) + k := p ! k]))
          [1..<?W div (2 * ?N)] (Kit_TruthOr (X' r0 r1) r0 r2 v @ Kit_TruthOr (Y' r1) r1 r2 v))"
        have halves: "cof0 v ?F = tt_fun f v" "cof1 v ?F = tt_fun f1 v"
            "cof0 v ?D = tt_fun d v" "cof1 v ?D = tt_fun d1 v"
          unfolding f1_def d1_def using tt_fun_halves [OF v vn] pre dep by blast+
        have NW: "2 * ?N \<le> ?W" by (rule WordNum_halves [OF v vn])
        have lenXY: "length X = ?N" "length Y = ?W - ?N"
          using NW by (simp_all add: X_def Y_def T)
        have ok: "tt_ok f v" "tt_ok d v" "tt_ok f1 v" "tt_ok d1 v" "tt_ok X v" "tt_ok Y v"
          "tt_ok (take ?N T) v" "tt_ok (drop ?N T) v"
          using pre vn tt_ok_drop [OF v vn] NW unfolding f1_def d1_def
          by (auto intro: tt_ok_le simp: tt_ok_def lenXY T)
        have FD: "tt_fun f v m \<Longrightarrow> tt_fun d v m" "tt_fun f1 v m \<Longrightarrow> tt_fun d1 v m" for m
          unfolding halves [symmetric] using pre(5) by (auto simp: cof0_def cof1_def)
        have ops: "tt_fun X v m \<longleftrightarrow> tt_fun f v m \<and> \<not> tt_fun d1 v m" "tt_fun Y v m \<longleftrightarrow> tt_fun f1 v m \<and> \<not> tt_fun d v m"
          "tt_fun (X' r0 r1) v m \<longleftrightarrow> tt_fun f v m \<and> \<not> tt_fun r0 v m \<or> tt_fun f1 v m \<and> \<not> tt_fun r1 v m"
          "tt_fun (Y' r1) v m \<longleftrightarrow> tt_fun d v m \<and> tt_fun d1 v m" for r0 r1 m
          using ok by (simp_all add: X_def Y_def X'_def Y'_def tt_fun_ops)
        have eq: "Kit_TruthIsop_rec f d n st = res_bind (Vec_IntFetch st ?W) (\<lambda>st.
            res_bind (Kit_TruthIsop_rec X d v st) (\<lambda>(r0, c0, st).
            res_bind (Kit_TruthIsop_rec Y d1 v st) (\<lambda>(r1, c1, st).
            res_bind (Kit_TruthIsop_rec (X' r0 r1) (Y' r1) v st) (\<lambda>(r2, c2, st).
            res_bind (Vec_IntFetch st (nCubes c0 + nCubes c1 + nCubes c2)) (\<lambda>st.
              Inr (R r0 r1 r2, isop_join v c0 c1 c2, st))))))"
          using rec Some False
          by (subst Kit_TruthIsop_rec.simps)
             (simp only: Let_def f1_def d1_def X_def Y_def X'_def Y'_def R_def T_def if_False option.case)
        have v16: "v \<le> 16" "v < 16" using vn less.prems(1) by auto
        have R0: "isop_run (isop_mem 2 v) st (Kit_TruthIsop_rec X d v st) (isop_table_ok v X d)" for st
          using FD ok v by (intro less.IH vn v16 isop_table_preI) (auto simp: ops)
        have R1: "isop_run (isop_mem 2 v) st (Kit_TruthIsop_rec Y d1 v st) (isop_table_ok v Y d1)" for st
          using FD ok v by (intro less.IH vn v16 isop_table_preI) (auto simp: ops)
        have R2: "isop_run (isop_mem 2 v) st (Kit_TruthIsop_rec (X' r0 r1) (Y' r1) v st)
            (isop_table_ok v (X' r0 r1) (Y' r1))"
          if P: "isop_table_ok v X d r0 c0" "isop_table_ok v Y d1 r1 c1" for r0 c0 r1 c1 st
        proof (intro less.IH vn v16 isop_table_preI v)
          show "tt_ok (X' r0 r1) v" "tt_ok (Y' r1) v" using ok by (simp_all add: X'_def Y'_def)
          show "tt_fun (X' r0 r1) v m \<Longrightarrow> tt_fun (Y' r1) v m" for m
            using isop_okD(1) [OF isop_table_okD [OF P(1)], of m] isop_okD(1) [OF isop_table_okD [OF P(2)], of m] FD [of m]
            unfolding ops by blast
        qed
        have join: "isop_ok (Suc v) ?F ?D (tt_fun (R r0 r1 r2) n) (isop_join v c0 c1 c2)"
            "length (R r0 r1 r2) = ?W"
          if P: "isop_table_ok v X d r0 c0" "isop_table_ok v Y d1 r1 c1" "isop_table_ok v (X' r0 r1) (Y' r1) r2 c2"
          for r0 c0 r1 c1 r2 c2
        proof -
          have len: "length (Kit_TruthOr (X' r0 r1) r0 r2 v) = ?N"
            "length (Kit_TruthOr (X' r0 r1) r0 r2 v) + length (Kit_TruthOr (Y' r1) r1 r2 v) = ?W"
            using NW by (simp_all add: X'_def Y'_def lenXY)
          show "length (R r0 r1 r2) = ?W" unfolding R_def by (rule tt_fun_copied_halves(1) [OF v vn len])
          have okX': "tt_ok (X' r0 r1) v" "tt_ok (Y' r1) v" using ok by (simp_all add: X'_def Y'_def)
          have Rf: "tt_fun (R r0 r1 r2) n = (\<lambda>m. tt_fun r2 v m \<or> (if bit m v then tt_fun r1 v m else tt_fun r0 v m))"
            unfolding R_def tt_fun_copied_halves(2) [OF v vn len] fun_eq_iff tt_fun_ops(3) [OF okX'(1)]
              tt_fun_ops(3) [OF okX'(2)] by auto
          note P' = P [THEN isop_table_okD]
          have "tt_fun X v = (\<lambda>m. cof0 v ?F m \<and> \<not> cof1 v ?D m)" "tt_fun Y v = (\<lambda>m. cof1 v ?F m \<and> \<not> cof0 v ?D m)"
            "tt_fun (X' r0 r1) v = (\<lambda>m. cof0 v ?F m \<and> \<not> tt_fun r0 v m \<or> cof1 v ?F m \<and> \<not> tt_fun r1 v m)"
            "tt_fun (Y' r1) v = (\<lambda>m. cof0 v ?D m \<and> cof1 v ?D m)"
            by (simp_all only: fun_eq_iff ops halves simp_thms)
          note sub = P' [unfolded this]
          have "isop_ok (Suc v) ?F ?D (\<lambda>m. tt_fun r2 v m \<or> (if bit m v then tt_fun r1 v m else tt_fun r0 v m))
              (isop_join v c0 c1 c2)"
            by (rule isop_ok_join [OF v16(2)]) (use sub in \<open>simp_all only: halves\<close>)
          then show "isop_ok (Suc v) ?F ?D (tt_fun (R r0 r1 r2) n) (isop_join v c0 c1 c2)"
            unfolding Rf .
        qed
        have "isop_run (?W + (isop_mem 2 v + (isop_mem 2 v + (isop_mem 2 v + 2 * 2 ^ v)))) st
            (Kit_TruthIsop_rec f d n st) (isop_table_ok n f d)"
          unfolding eq
        proof (rule isop_run_fetch, simp, rule isop_run_bind [OF R0], simp only: prod.case,
            rule isop_run_bind [OF R1], simp only: prod.case,
            rule isop_run_bind [OF R2], assumption, assumption, simp only: prod.case)
          fix st0 r0 c0 st1 r1 c1 st2 r2 c2 st3
          assume P: "isop_table_ok v X d r0 c0" "isop_table_ok v Y d1 r1 c1" "isop_table_ok v (X' r0 r1) (Y' r1) r2 c2"
          show "isop_run (2 * 2 ^ v) st3 (res_bind (Vec_IntFetch st3 (nCubes c0 + nCubes c1 + nCubes c2)) (\<lambda>st.
              Inr (R r0 r1 r2, isop_join v c0 c1 c2, st))) (isop_table_ok n f d)"
          proof (rule isop_run_mono [OF isop_run_join [OF join(1) [OF P] m0] order_refl])
            fix r c assume "r = R r0 r1 r2 \<and> isop_ok (Suc v) ?F ?D (tt_fun (R r0 r1 r2) n) c"
            then show "isop_table_ok n f d r c"
              using join(2) [OF P] vn unfolding isop_table_ok_def by (auto intro: isop_ok_mono)
          qed
        qed
        then show ?thesis using isop_mem_tables [OF v vn] by (auto elim: isop_run_mono)
      qed
    qed
  qed
qed

section \<open>The entry point\<close>

text \<open>An irredundant cover of a function of \<open>n\<close> variables.\<close>

definition isop_of :: "nat \<Rightarrow> (nat \<Rightarrow> bool) \<Rightarrow> u32 list \<Rightarrow> bool" where
  "isop_of n f cs \<longleftrightarrow> (\<forall>m. isop_cover cs m = f m) \<and> cubes_below n cs \<and>
     (\<forall>u \<in> set cs. \<exists>m. f m \<and> filter (\<lambda>w. isop_cube w m) cs = [u])"

lemma isop_ok_isop_of: "isop_ok n f f r c \<Longrightarrow> isop_of n f (pCubes c) \<and> (\<forall>m. r m = f m)"
  by (auto simp: isop_ok_def isop_of_def)

lemma Kit_TruthNot_involution: "Kit_TruthNot (Kit_TruthNot p p n) (Kit_TruthNot p p n) n = p"
  by (rule nth_equalityI) (simp_all add: Kit_TruthNot_def)

lemma isop_pre_same: "tt_ok p n \<Longrightarrow> fun_dep n (tt_fun p n) \<Longrightarrow> isop_table_pre n p p"
  by (simp add: isop_table_pre_def)

lemma tt_fun_Not: "tt_ok p n \<Longrightarrow> tt_fun (Kit_TruthNot p p n) n = (\<lambda>m. \<not> tt_fun p n m)"
  by (simp add: fun_eq_iff tt_fun_ops)

lemma isop_mem_limit: "n \<le> 10 \<Longrightarrow> 2 * isop_mem 2 n \<le> KIT_ISOP_MEM_LIMIT"
proof -
  assume "n \<le> 10"
  from isop_mem_mono [OF this, of 2] have "isop_mem 2 n \<le> isop_mem 2 10" .
  also have "\<dots> \<le> 5 * 3 ^ 10" using isop_mem_closed [of 10] by linarith
  finally show ?thesis by (simp add: KIT_ISOP_MEM_LIMIT_def)
qed

text \<open>
  For every table of at most 16 variables the computation ends without a failed assertion, gives
  the table back, and either reports -1 for lack of memory or leaves an irredundant cover of the
  function (return value 0) or of its complement (return value 1). Up to 10 variables the memory
  limit is never reached.
\<close>

lemma Kit_TruthIsop_correct:
  assumes n: "n \<le> 16" and ok: "tt_ok p n" and dep: "fun_dep n (tt_fun p n)"
  shows "\<exists>ret cover. Kit_TruthIsop p n cap both = Inr (ret, cover, p) \<and>
    (case cover of
       None \<Rightarrow> ret = -1 \<and> 10 < n
     | Some cs \<Rightarrow> (ret = 0 \<or> ret = 1 \<and> both) \<and> isop_of n (\<lambda>m. tt_fun p n m \<noteq> (ret = 1)) cs)"
proof -
  let ?st = "\<lparr>nCap = max cap KIT_ISOP_MEM_LIMIT, nSize = 0\<rparr>"
  have limit: "nCap ?st < k \<Longrightarrow> k \<le> 2 * isop_mem 2 n \<Longrightarrow> 10 < n" for k
    using isop_mem_limit [of n] by (auto simp: not_le [symmetric])
  note run = Kit_TruthIsop_rec_run [OF n isop_pre_same [OF ok dep], of ?st]
  show ?thesis
  proof (cases "Kit_TruthIsop_rec p p n ?st")
    case (Inl e)
    then have "e = OutOfMemory" "10 < n"
      using run limit [of "isop_mem 2 n"] by (simp_all add: isop_run_def)
    then show ?thesis using Inl n by (simp add: Kit_TruthIsop_def Let_def)
  next
    case (Inr x)
    obtain r c st where x: "x = (r, c, st)" by (cases x)
    have tab: "isop_table_ok n p p r c" and st: "nCap st = nCap ?st" "nSize st \<le> isop_mem 2 n"
      using run Inr x by (auto simp: isop_run_def)
    have c: "isop_of n (tt_fun p n) (pCubes c)" and eq: "Kit_TruthIsEqual p r n"
      using isop_ok_isop_of [OF isop_table_okD [OF tab]] by (auto simp: Kit_TruthIsEqual_fun)
    show ?thesis
    proof (cases "nCubes c = 0 \<or> nCubes c = 1 \<and> pCubes c ! 0 = 0")
      case True
      then have "take (nCubes c) [0] = pCubes c"
        by (auto simp: nCubes_def length_Suc_conv)
      then show ?thesis using Inr x n eq True c by (simp add: Kit_TruthIsop_def Let_def)
    next
      case nontrivial: False
      show ?thesis
      proof (cases both)
        case False
        then show ?thesis using Inr x n eq nontrivial c by (auto simp: Kit_TruthIsop_def Let_def)
      next
        case True
        let ?q = "Kit_TruthNot p p n"
        have q: "tt_ok ?q n" "fun_dep n (tt_fun ?q n)"
          using ok dep by (simp_all add: tt_fun_Not fun_dep_conn)
        note run2 = Kit_TruthIsop_rec_run [OF n isop_pre_same [OF q], of st]
        show ?thesis
        proof (cases "Kit_TruthIsop_rec ?q ?q n st")
          case (Inl e)
          then have "e = OutOfMemory" using run2 by (simp add: isop_run_def)
          then show ?thesis
            using Inl Inr x n eq nontrivial c True
            by (auto simp: Kit_TruthIsop_def Let_def Kit_TruthNot_involution)
        next
          case Inr2: (Inr y)
          obtain r2 c2 st2 where y: "y = (r2, c2, st2)" by (cases y)
          have tab2: "isop_table_ok n ?q ?q r2 c2" using run2 Inr2 y by (simp add: isop_run_def)
          have "isop_of n (\<lambda>m. \<not> tt_fun p n m) (pCubes c2)" "Kit_TruthIsEqual ?q r2 n"
            using isop_ok_isop_of [OF isop_table_okD [OF tab2]] by (auto simp: Kit_TruthIsEqual_fun tt_fun_Not [OF ok])
          then show ?thesis
            using Inr2 y Inr x n eq nontrivial c True
            by (auto simp: Kit_TruthIsop_def Let_def Kit_TruthNot_involution)
        qed
      qed
    qed
  qed
qed

text \<open>A constant function is found before any recursion, in the direct polarity.\<close>

lemma Kit_TruthIsop_const:
  assumes n: "n \<le> 16" and c: "\<And>m. tt_fun p n m = c"
  shows "Kit_TruthIsop p n cap both = Inr (0, Some (if c then [0] else []), p)"
proof -
  let ?st = "\<lparr>nCap = max cap KIT_ISOP_MEM_LIMIT, nSize = 0\<rparr>" and ?W = "Kit_TruthWordNum n"
  let ?T = "replicate ?W (0 :: u32)"
  have "(2::nat) ^ (n - 5) \<le> 2 ^ 11" using n by (intro power_increasing) auto
  then have W: "0 < ?W" "?W + 1 \<le> KIT_ISOP_MEM_LIMIT"
    by (simp_all add: Kit_TruthWordNum_alt KIT_ISOP_MEM_LIMIT_def)
  then have fetch: "Vec_IntFetch ?st ?W = Inr (?st\<lparr>nSize := ?W\<rparr>)"
    "Vec_IntFetch \<lparr>nCap = max cap KIT_ISOP_MEM_LIMIT, nSize = ?W\<rparr> (Suc 0) = Inr (?st\<lparr>nSize := Suc ?W\<rparr>)"
    by (simp_all add: Vec_IntFetch_def)
  have T: "tt_ok ?T n" by (simp add: tt_ok_def)
  have bits: "tt_bit p m = c" if "m < tt_size n" for m
  proof -
    have "take_bit (max 5 n) m = m" using that by (simp add: tt_size_exp take_bit_nat_eq_self_iff)
    then show ?thesis using c [of m] by (simp add: tt_fun_def)
  qed
  have size: "0 < tt_size n" by (simp add: tt_size_def)
  show ?thesis
  proof (cases c)
    case True
    then have "\<not> Kit_TruthIsConst0 p n" "Kit_TruthIsConst1 p n"
      using bits size by (auto simp: Kit_TruthIsConst0_iff Kit_TruthIsConst1_iff)
    then have "Kit_TruthIsop_rec p p n ?st = Inr (Kit_TruthFill ?T n, \<lparr>nLits = 0, pCubes = [0]\<rparr>, ?st\<lparr>nSize := Suc ?W\<rparr>)"
      by (subst Kit_TruthIsop_rec.simps) (simp add: fetch Let_def)
    moreover have "Kit_TruthIsEqual p (Kit_TruthFill ?T n) n"
      using bits True by (auto simp: Kit_TruthIsEqual_iff tt_bit_kit_ops [OF T])
    ultimately show ?thesis using n True by (simp add: Kit_TruthIsop_def Let_def nCubes_def)
  next
    case False
    then have "Kit_TruthIsConst0 p n" using bits by (auto simp: Kit_TruthIsConst0_iff)
    then have "Kit_TruthIsop_rec p p n ?st = Inr (Kit_TruthClear ?T n, \<lparr>nLits = 0, pCubes = []\<rparr>, ?st\<lparr>nSize := ?W\<rparr>)"
      by (subst Kit_TruthIsop_rec.simps) (simp add: fetch Let_def)
    moreover have "Kit_TruthIsEqual p (Kit_TruthClear ?T n) n"
      using bits False by (auto simp: Kit_TruthIsEqual_iff tt_bit_kit_ops [OF T])
    ultimately show ?thesis using n False by (simp add: Kit_TruthIsop_def Let_def nCubes_def)
  qed
qed

section \<open>Memory that a call takes\<close>













section \<open>Properties\<close>

text \<open>
  C16. For tables of at most 10 variables the computation returns: it leaves the table as it was and
  an irredundant cover of the function (return value 0) or, when both polarities are tried, perhaps
  of its complement (return value 1).
\<close>

theorem Kit_TruthIsop_returns:
  assumes "n \<le> 10" "tt_ok p n" "fun_dep n (tt_fun p n)"
  shows "\<exists>ret cs. Kit_TruthIsop p n cap both = Inr (ret, Some cs, p) \<and>
    (ret = 0 \<or> ret = 1 \<and> both) \<and> isop_of n (\<lambda>m. tt_fun p n m \<noteq> (ret = 1)) cs"
  using Kit_TruthIsop_correct [of n p cap both] assms by (auto split: option.splits)

theorem Kit_TruthIsop_returns_witness:
  "\<exists>ret cs. Kit_TruthIsop [0x88888888] 5 0 True = Inr (ret, Some cs, [0x88888888]) \<and>
    isop_of 5 (\<lambda>m. tt_fun [0x88888888] 5 m \<noteq> (ret = 1)) cs"
  using Kit_TruthIsop_returns [of 5 "[0x88888888]" 0 True]
  by (auto simp: tt_ok_def Kit_TruthWordNum_def fun_dep_tt_fun)



text \<open>
  C18. The recursion on an onset and an upper bound (a function with don't-cares) ends with a cover
  and a table of one function between the two, uses at most \<open>5 * 3 ^ n\<close> words of memory, and fails
  only when the memory holds fewer.
\<close>

theorem Kit_TruthIsop_rec_between:
  assumes "n \<le> 16" "isop_table_pre n f d"
  shows "case Kit_TruthIsop_rec f d n st of
      Inl e \<Rightarrow> e = OutOfMemory \<and> nCap st < nSize st + 5 * 3 ^ n
    | Inr (r, c, st') \<Rightarrow> isop_table_ok n f d r c \<and> nSize st' \<le> nSize st + 5 * 3 ^ n"
proof -
  have "isop_mem 2 n \<le> 5 * 3 ^ n" using isop_mem_closed [of n] by linarith
  then show ?thesis
    using Kit_TruthIsop_rec_run [OF assms, of st] by (auto simp: isop_run_def split: sum.splits)
qed

theorem Kit_TruthIsop_rec_between_witness:
  "\<exists>r c st'. Kit_TruthIsop_rec [0x80808080] [0x88888888] 5 \<lparr>nCap = 5000, nSize = 0\<rparr> = Inr (r, c, st') \<and>
     isop_table_ok 5 [0x80808080] [0x88888888] r c"
proof -
  have "list_all (\<lambda>m. tt_bit [0x80808080] m \<longrightarrow> tt_bit [0x88888888] m) [0..<32]" by code_simp
  then have "tt_fun [0x80808080] 5 m \<longrightarrow> tt_fun [0x88888888] 5 m" for m
    using take_bit_5_less [of m] by (simp add: tt_fun_def list_all_iff)
  then have "isop_table_pre 5 [0x80808080] [0x88888888]"
    by (intro isop_table_preI) (auto simp: tt_ok_def Kit_TruthWordNum_def)
  from Kit_TruthIsop_rec_between [OF _ this, of "\<lparr>nCap = 5000, nSize = 0\<rparr>"] show ?thesis
    by (auto split: sum.splits)
qed

end
