(* ===== verification/Kit_Sop.thy ===== *)
theory Kit_Sop
  imports Kit_Isop
begin

text \<open>
  Algebraic operations on covers (\<open>src/abc-master/src/bool/kit/kitSop.c\<close>): creation, division by a
  literal, by a cube and by a cover, common cubes, the choice of literals and the quick divisor.

  A cover is its array of cubes, whose length is \<open>nCubes\<close> (the field \<open>nLits\<close> is not used here).
  The macro \<open>Kit_SopForEachCube\<close> stops at the end of the array or at the first cube that is 0;
  \<open>sop_cubes\<close> are the cubes it visits. Arrays are allocated in the memory of the computation; an
  array of no cubes is the null pointer, which is never written.

  In the covers of this theory bit \<open>2v\<close> is the positive literal of variable \<open>v\<close> and \<open>2v+1\<close> the
  negative one. The algebraic facts hold for any valuation of the literals.
\<close>

section \<open>The operations\<close>

definition sop_alloc :: "Vec_Int \<Rightarrow> nat \<Rightarrow> Vec_Int res" where
  "sop_alloc vMemory n = (if n = 0 then Inr vMemory else Vec_IntFetch vMemory n)"

definition sop_cubes :: "u32 list \<Rightarrow> u32 list" where
  "sop_cubes cSop = takeWhile (\<lambda>uCube. uCube \<noteq> 0) cSop"

text \<open>\<open>Kit_SopForEachCube( cSop, uCube, i ) if ( P(uCube) ) break;\<close>, the index at the end\<close>

fun sop_scan :: "(u32 \<Rightarrow> bool) \<Rightarrow> u32 list \<Rightarrow> nat" where
  "sop_scan P [] = 0"
| "sop_scan P (uCube # cSop) = (if uCube = 0 \<or> P uCube then 0 else Suc (sop_scan P cSop))"

definition Kit_SopCreate :: "u32 list \<Rightarrow> Vec_Int \<Rightarrow> (u32 list \<times> Vec_Int) res" where
  "Kit_SopCreate vInput vMemory =
     res_bind (sop_alloc vMemory (length vInput)) (\<lambda>vMemory. Inr (vInput, vMemory))"

definition inverse_cube :: "u32 \<Rightarrow> u32" where
  "inverse_cube uCube =
    (let uMask = (uCube OR drop_bit 1 uCube) AND 0x55555555;
         uMask = uMask OR push_bit 1 uMask
     in uCube XOR uMask)"

definition Kit_SopCreateInverse :: "u32 list \<Rightarrow> Vec_Int \<Rightarrow> (u32 list \<times> Vec_Int) res" where
  "Kit_SopCreateInverse vInput vMemory =
     res_bind (sop_alloc vMemory (length vInput)) (\<lambda>vMemory. Inr (map inverse_cube vInput, vMemory))"

definition Kit_SopDup :: "u32 list \<Rightarrow> Vec_Int \<Rightarrow> (u32 list \<times> Vec_Int) res" where
  "Kit_SopDup cSop vMemory =
     res_bind (sop_alloc vMemory (length cSop)) (\<lambda>vMemory. Inr (sop_cubes cSop, vMemory))"

text \<open>The cubes are overwritten from the start of the array, behind the reading position.\<close>

definition Kit_SopDivideByLiteralQuo :: "u32 list \<Rightarrow> nat \<Rightarrow> u32 list" where
  "Kit_SopDivideByLiteralQuo cSop iLit =
     map (\<lambda>uCube. Kit_CubeRemLit uCube iLit) (filter (\<lambda>uCube. Kit_CubeHasLit uCube iLit) (sop_cubes cSop))"

definition Kit_SopDivideByCube ::
  "u32 list \<Rightarrow> u32 list \<Rightarrow> Vec_Int \<Rightarrow> (u32 list \<times> u32 list \<times> Vec_Int) res" where
  "Kit_SopDivideByCube cSop cDiv vMemory =
    (if length cDiv \<noteq> 1 then Inl AssertFailed else
     let uDiv = cDiv ! 0 in
     res_bind (sop_alloc vMemory (length cSop)) (\<lambda>vMemory.
     res_bind (sop_alloc vMemory (length cSop)) (\<lambda>vMemory.
       Inr (map (\<lambda>uCube. Kit_CubeSharp uCube uDiv) (filter (\<lambda>uCube. Kit_CubeContains uCube uDiv) (sop_cubes cSop)),
            filter (\<lambda>uCube. \<not> Kit_CubeContains uCube uDiv) (sop_cubes cSop), vMemory))))"

text \<open>
  Division by a cover. The cubes that go into a product are marked in the array; \<open>matches\<close> is the
  test of the two inner searches.
\<close>

definition divide_matches :: "u32 \<Rightarrow> u32 \<Rightarrow> u32 \<Rightarrow> bool" where
  "divide_matches uQuo uDiv2 uCube2 \<longleftrightarrow>
     \<not> Kit_CubeIsMarked uCube2 \<and> Kit_CubeContains uCube2 uDiv2 \<and> uQuo = Kit_CubeSharp uCube2 uDiv2"

fun divide_check :: "u32 list \<Rightarrow> u32 \<Rightarrow> nat \<Rightarrow> nat \<Rightarrow> u32 list \<Rightarrow> bool" where
  "divide_check cSop uQuo k k2 [] = True"
| "divide_check cSop uQuo k k2 (uDiv2 # cDiv) =
    (if uDiv2 = 0 then False
     else if k2 = k then divide_check cSop uQuo k (Suc k2) cDiv
     else if sop_scan (divide_matches uQuo uDiv2) cSop = length cSop then False
     else divide_check cSop uQuo k (Suc k2) cDiv)"

fun divide_mark :: "u32 list \<Rightarrow> u32 \<Rightarrow> nat \<Rightarrow> nat \<Rightarrow> u32 list \<Rightarrow> u32 list res" where
  "divide_mark cSop uQuo k k2 [] = Inr cSop"
| "divide_mark cSop uQuo k k2 (uDiv2 # cDiv) =
    (if uDiv2 = 0 then Inr cSop
     else if k2 = k then divide_mark cSop uQuo k (Suc k2) cDiv
     else let i2 = sop_scan (divide_matches uQuo uDiv2) cSop in
       if \<not> i2 < length cSop then Inl AssertFailed
       else divide_mark (cSop[i2 := Kit_CubeMark (cSop ! i2)]) uQuo k (Suc k2) cDiv)"

fun divide_loop :: "u32 list \<Rightarrow> nat list \<Rightarrow> u32 list \<Rightarrow> u32 list \<Rightarrow> (u32 list \<times> u32 list) res" where
  "divide_loop cDiv [] cSop vQuo = Inr (cSop, vQuo)"
| "divide_loop cDiv (i # is) cSop vQuo =
    (let uCube = cSop ! i in
     if uCube = 0 then Inr (cSop, vQuo)
     else if Kit_CubeIsMarked uCube then divide_loop cDiv is cSop vQuo
     else let k = sop_scan (\<lambda>uDiv. Kit_CubeContains uCube uDiv) cDiv in
       if k = length cDiv then divide_loop cDiv is cSop vQuo
       else let uQuo = Kit_CubeSharp uCube (cDiv ! k) in
         if \<not> divide_check cSop uQuo k 0 cDiv then divide_loop cDiv is cSop vQuo
         else res_bind (divide_mark (cSop[i := Kit_CubeMark uCube]) uQuo k 0 cDiv)
           (\<lambda>cSop. divide_loop cDiv is cSop (vQuo @ [uQuo])))"

definition Kit_SopDivideInternal ::
  "u32 list \<Rightarrow> u32 list \<Rightarrow> Vec_Int \<Rightarrow> (u32 list \<times> u32 list \<times> u32 list \<times> Vec_Int) res" where
  "Kit_SopDivideInternal cSop cDiv vMemory =
    (if \<not> length cSop \<ge> length cDiv then Inl AssertFailed
     else if length cDiv = 0 then Inl Undefined
     else if length cDiv = 1 then
       res_bind (Kit_SopDivideByCube cSop cDiv vMemory) (\<lambda>(vQuo, vRem, vMemory). Inr (cSop, vQuo, vRem, vMemory))
     else
       res_bind (sop_alloc vMemory (length cSop div length cDiv)) (\<lambda>vMemory.
       res_bind (divide_loop cDiv [0..<length cSop] cSop []) (\<lambda>(cSop, vQuo).
       let nCubesRem = length cSop - length vQuo * length cDiv in
       res_bind (sop_alloc vMemory nCubesRem) (\<lambda>vMemory.
       let vRem = filter (\<lambda>uCube. \<not> Kit_CubeIsMarked uCube) (sop_cubes cSop);
           cSop = map (\<lambda>uCube. if Kit_CubeIsMarked uCube then Kit_CubeUnmark uCube else uCube) (sop_cubes cSop)
                  @ dropWhile (\<lambda>uCube. uCube \<noteq> 0) cSop
       in if nCubesRem \<noteq> length vRem then Inl AssertFailed
          else Inr (cSop, vQuo, vRem, vMemory)))))"

definition Kit_SopCommonCube :: "u32 list \<Rightarrow> u32" where
  "Kit_SopCommonCube cSop = fold (\<lambda>uCube uMask. uMask AND uCube) (sop_cubes cSop) (NOT 0)"

definition Kit_SopMakeCubeFree :: "u32 list \<Rightarrow> u32 list" where
  "Kit_SopMakeCubeFree cSop =
    (let uMask = Kit_SopCommonCube cSop in
     if uMask = 0 then cSop
     else map (\<lambda>uCube. Kit_CubeSharp uCube uMask) (sop_cubes cSop) @ dropWhile (\<lambda>uCube. uCube \<noteq> 0) cSop)"

definition Kit_SopIsCubeFree :: "u32 list \<Rightarrow> bool" where
  "Kit_SopIsCubeFree cSop \<longleftrightarrow> Kit_SopCommonCube cSop = 0"

definition Kit_SopCommonCubeCover :: "u32 list \<Rightarrow> Vec_Int \<Rightarrow> (u32 list \<times> Vec_Int) res" where
  "Kit_SopCommonCubeCover cSop vMemory =
    (if \<not> length cSop > 0 then Inl AssertFailed
     else res_bind (sop_alloc vMemory 1) (\<lambda>vMemory. Inr ([Kit_SopCommonCube cSop], vMemory)))"

text \<open>The number of cubes with a literal, counted by each of the next three functions.\<close>

definition lit_count :: "u32 list \<Rightarrow> nat \<Rightarrow> nat" where
  "lit_count cSop i = fold (\<lambda>uCube nLitsCur. if Kit_CubeHasLit uCube i then nLitsCur + 1 else nLitsCur) (sop_cubes cSop) 0"

definition Kit_SopAnyLiteral :: "u32 list \<Rightarrow> nat \<Rightarrow> int" where
  "Kit_SopAnyLiteral cSop nLts =
     (case find (\<lambda>i. lit_count cSop i > 1) [0..<nLts] of Some i \<Rightarrow> int i | None \<Rightarrow> -1)"

text \<open>The flag \<open>fUseFirst\<close> of the code is the constant 1, so that the first of equal literals is taken.\<close>

definition Kit_SopWorstLiteral :: "u32 list \<Rightarrow> nat \<Rightarrow> int" where
  "Kit_SopWorstLiteral cSop nLts =
    (let (nLitsMin, iMin) =
       for_up nLts (\<lambda>i (nLitsMin, iMin).
         let nLitsCur = lit_count cSop i in
         if nLitsCur < 2 then (nLitsMin, iMin)
         else if nLitsMin > nLitsCur then (nLitsCur, int i) else (nLitsMin, iMin)) (1000000, -1)
     in if nLitsMin < 1000000 then iMin else -1)"

definition Kit_SopBestLiteral :: "u32 list \<Rightarrow> nat \<Rightarrow> u32 \<Rightarrow> int" where
  "Kit_SopBestLiteral cSop nLts uMask =
    (let (nLitsMax, iMax) =
       for_up nLts (\<lambda>i (nLitsMax, iMax).
         if \<not> Kit_CubeHasLit uMask i then (nLitsMax, iMax)
         else let nLitsCur = int (lit_count cSop i) in
           if nLitsCur < 2 then (nLitsMax, iMax)
           else if nLitsMax < nLitsCur then (nLitsCur, int i) else (nLitsMax, iMax)) (-1, -1)
     in if nLitsMax \<ge> 0 then iMax else -1)"

definition Kit_SopBestLiteralCover :: "u32 list \<Rightarrow> u32 \<Rightarrow> nat \<Rightarrow> Vec_Int \<Rightarrow> (u32 list \<times> Vec_Int) res" where
  "Kit_SopBestLiteralCover cSop uCube nLts vMemory =
    (let iLitBest = Kit_SopBestLiteral cSop nLts uCube in
     res_bind (sop_alloc vMemory 1) (\<lambda>vMemory.
       if iLitBest < 0 then Inl Undefined else Inr ([Kit_CubeSetLit 0 (nat iLitBest)], vMemory)))"

section \<open>Literals of cubes\<close>

text \<open>A cube as a set of literals, a cover as a list of such sets.\<close>

definition lits :: "u32 \<Rightarrow> nat set" where
  "lits u = {i. bit u i}"

lemma lits_less: "lits u \<subseteq> {..<32}"
  by (auto simp: lits_def bit_less_32)

lemma finite_lits [simp]: "finite (lits u)"
  using lits_less finite_subset by blast

lemma lits_inject [simp]: "lits u = lits v \<longleftrightarrow> u = v"
  by (auto simp: lits_def intro: bit_eqI)

lemma lits_empty [simp]: "lits u = {} \<longleftrightarrow> u = 0"
  using lits_inject [of u 0] by (simp add: lits_def)

lemma ones_lits: "ones u = card (lits u)"
proof -
  have "{i. i < 32 \<and> bit u i} = lits u" by (auto simp: lits_def bit_less_32)
  then show ?thesis by (simp add: ones_def)
qed

lemma lits_ops [simp]:
  "lits (u AND v) = lits u \<inter> lits v" "lits (u OR v) = lits u \<union> lits v"
  "lits (Kit_CubeSharp u v) = lits u - lits v"
  "lits (Kit_CubeRemLit u i) = lits u - {i}" "lits 0 = {}"
  by (auto simp: lits_def bit_simps Kit_CubeSharp_def Kit_CubeRemLit_def bit_less_32)

lemma lits_Kit_CubeSetLit [simp]: "i < 32 \<Longrightarrow> lits (Kit_CubeSetLit u i) = insert i (lits u)"
  by (auto simp: lits_def)

lemma Kit_CubeContains_lits: "Kit_CubeContains u d \<longleftrightarrow> lits d \<subseteq> lits u"
  by (auto simp: Kit_CubeContains_bit lits_def bit_less_32)

lemma Kit_CubeHasLit_lits: "Kit_CubeHasLit u i \<longleftrightarrow> i \<in> lits u"
  by (simp add: Kit_CubeHasLit_def lits_def word_greater_zero_iff)

text \<open>The value of a cube and of a cover under a valuation of the literals.\<close>

definition cube_val :: "(nat \<Rightarrow> bool) \<Rightarrow> u32 \<Rightarrow> bool" where
  "cube_val f u \<longleftrightarrow> (\<forall>i \<in> lits u. f i)"

definition cover_val :: "(nat \<Rightarrow> bool) \<Rightarrow> u32 list \<Rightarrow> bool" where
  "cover_val f cs \<longleftrightarrow> (\<exists>u \<in> set cs. cube_val f u)"

text \<open>
  The covers that are factored: at least one cube, no cube empty or contained in another, the
  literals below the marking bit, and fewer cubes than the initial minimum of
  \<open>Kit_SopWorstLiteral\<close>.
\<close>

definition antichain :: "u32 list \<Rightarrow> bool" where
  "antichain cs \<longleftrightarrow> distinct cs \<and> (\<forall>u \<in> set cs. \<forall>w \<in> set cs. lits u \<subseteq> lits w \<longrightarrow> u = w)"

definition sop_ok :: "u32 list \<Rightarrow> bool" where
  "sop_ok cs \<longleftrightarrow> cs \<noteq> [] \<and> antichain cs \<and> (\<forall>u \<in> set cs. u \<noteq> 0 \<and> \<not> bit u 31) \<and> length cs < 1000000"

lemma antichainD: "antichain cs \<Longrightarrow> u \<in> set cs \<Longrightarrow> w \<in> set cs \<Longrightarrow> lits u \<subseteq> lits w \<Longrightarrow> u = w"
  by (auto simp: antichain_def)

lemma sop_cubes_id: "(\<forall>u \<in> set cs. u \<noteq> 0) \<Longrightarrow> sop_cubes cs = cs"
  by (auto simp: sop_cubes_def takeWhile_eq_all_conv)

lemma sop_ok_cubes: "sop_ok cs \<Longrightarrow> sop_cubes cs = cs"
  by (auto simp: sop_ok_def intro: sop_cubes_id)

lemma antichain_nonzero: "antichain cs \<Longrightarrow> 1 < length cs \<Longrightarrow> u \<in> set cs \<Longrightarrow> u \<noteq> 0"
proof
  assume a: "antichain cs" "1 < length cs" "u \<in> set cs" "u = 0"
  then have "\<forall>w \<in> set cs. w = 0" by (metis antichainD empty_subsetI lits_ops(5))
  then have "set cs \<subseteq> {0}" by auto
  then have "card (set cs) \<le> 1" using card_mono [of "{0::u32}" "set cs"] by simp
  then show False using a by (simp add: antichain_def distinct_card)
qed

section \<open>Division by a cover\<close>

text \<open>The search over the cubes of a cover without the cube 0.\<close>

lemma sop_scan_le: "sop_scan P cs \<le> length cs"
  by (induction cs) auto

lemma sop_scan_found:
  "0 \<notin> set cs \<Longrightarrow> sop_scan P cs < length cs \<Longrightarrow> P (cs ! sop_scan P cs)"
  by (induction cs) auto

lemma sop_scan_length: "0 \<notin> set cs \<Longrightarrow> sop_scan P cs = length cs \<longleftrightarrow> (\<forall>u \<in> set cs. \<not> P u)"
  by (induction cs) auto

text \<open>The array of a cover in which the cubes of a set are marked.\<close>

definition marked :: "u32 set \<Rightarrow> u32 list \<Rightarrow> u32 list" where
  "marked M C = map (\<lambda>u. if u \<in> M then Kit_CubeMark u else u) C"

definition unmarked_cover :: "u32 list \<Rightarrow> bool" where
  "unmarked_cover C \<longleftrightarrow> distinct C \<and> (\<forall>u \<in> set C. u \<noteq> 0 \<and> \<not> bit u 31)"

lemma lits_Kit_CubeMark: "lits (Kit_CubeMark u) = insert 31 (lits u)"
  by (simp add: Kit_CubeMark_def)

lemma marked_length [simp]: "length (marked M C) = length C"
  by (simp add: marked_def)

lemma marked_nth: "j < length C \<Longrightarrow> marked M C ! j = (if C ! j \<in> M then Kit_CubeMark (C ! j) else C ! j)"
  by (simp add: marked_def)

lemma marked_is_marked:
  "unmarked_cover C \<Longrightarrow> j < length C \<Longrightarrow> Kit_CubeIsMarked (marked M C ! j) \<longleftrightarrow> C ! j \<in> M"
  using nth_mem [of j C] by (auto simp: marked_nth Kit_CubeMark_def unmarked_cover_def)

lemma marked_nonzero: "unmarked_cover C \<Longrightarrow> 0 \<notin> set (marked M C)"
proof
  assume C: "unmarked_cover C" and z: "0 \<in> set (marked M C)"
  from z obtain u where u: "u \<in> set C" "0 = (if u \<in> M then Kit_CubeMark u else u)"
    by (auto simp: marked_def)
  moreover have "Kit_CubeMark u \<noteq> 0" using lits_Kit_CubeMark [of u] by (metis insert_not_empty lits_empty)
  ultimately show False using C by (auto simp: unmarked_cover_def split: if_splits)
qed

lemma marked_update:
  assumes "unmarked_cover C" "j < length C" "C ! j \<notin> M"
  shows "(marked M C)[j := Kit_CubeMark (marked M C ! j)] = marked (insert (C ! j) M) C"
proof (rule nth_equalityI)
  fix i assume "i < length ((marked M C)[j := Kit_CubeMark (marked M C ! j)])"
  then have i: "i < length C" by simp
  show "(marked M C)[j := Kit_CubeMark (marked M C ! j)] ! i = marked (insert (C ! j) M) C ! i"
    using assms i by (cases "i = j") (auto simp: marked_nth unmarked_cover_def nth_eq_iff_index_eq)
qed simp

text \<open>A cube matches a quotient cube and a divisor cube when it is their disjoint product.\<close>

definition hit :: "u32 set \<Rightarrow> u32 list \<Rightarrow> u32 \<Rightarrow> u32 \<Rightarrow> bool" where
  "hit M C q d \<longleftrightarrow> lits q \<inter> lits d = {} \<and> q OR d \<in> set C \<and> q OR d \<notin> M"

lemma divide_matches_prod:
  "divide_matches q d u \<longleftrightarrow> \<not> Kit_CubeIsMarked u \<and> lits q \<inter> lits d = {} \<and> u = q OR d"
proof -
  have "lits d \<subseteq> lits u \<and> lits q = lits u - lits d \<longleftrightarrow> lits q \<inter> lits d = {} \<and> lits u = lits q \<union> lits d"
    by blast
  then show ?thesis
    by (simp add: divide_matches_def Kit_CubeContains_lits flip: lits_inject)
qed

lemma scan_marked:
  assumes C: "unmarked_cover C"
  shows "sop_scan (divide_matches q d) (marked M C) \<noteq> length C \<longleftrightarrow> hit M C q d"
    and "hit M C q d \<Longrightarrow> sop_scan (divide_matches q d) (marked M C) < length C \<and>
      C ! sop_scan (divide_matches q d) (marked M C) = q OR d"
proof -
  let ?i = "sop_scan (divide_matches q d) (marked M C)"
  note zero = marked_nonzero [OF C, of M]
  have "(\<exists>u \<in> set (marked M C). divide_matches q d u) \<longleftrightarrow> hit M C q d"
  proof
    assume "\<exists>u \<in> set (marked M C). divide_matches q d u"
    then obtain j where j: "j < length C" "divide_matches q d (marked M C ! j)"
      by (auto simp: in_set_conv_nth)
    then have "C ! j \<notin> M" "lits q \<inter> lits d = {}" "C ! j = q OR d"
      using marked_is_marked [OF C j(1), of M] by (auto simp: divide_matches_prod marked_nth)
    then show "hit M C q d"
      unfolding hit_def using nth_mem [OF j(1)] by metis
  next
    assume h: "hit M C q d"
    then obtain j where j: "j < length C" "C ! j = q OR d" by (auto simp: hit_def in_set_conv_nth)
    then have "divide_matches q d (marked M C ! j)"
      unfolding divide_matches_prod marked_is_marked [OF C j(1), of M] using h j by (simp add: hit_def marked_nth)
    then show "\<exists>u \<in> set (marked M C). divide_matches q d u"
      using j(1) nth_mem [of j "marked M C"] by auto
  qed
  then show iff: "?i \<noteq> length C \<longleftrightarrow> hit M C q d"
    using sop_scan_length [OF zero, of "divide_matches q d"] by auto
  assume "hit M C q d"
  with iff have i: "?i < length C" using sop_scan_le [of "divide_matches q d" "marked M C"] by simp
  then have "divide_matches q d (marked M C ! ?i)" using sop_scan_found [OF zero] by simp
  then show "?i < length C \<and> C ! ?i = q OR d"
    using i marked_is_marked [OF C i, of M] by (auto simp: divide_matches_prod marked_nth)
qed

lemma divide_check_iff:
  "unmarked_cover C \<Longrightarrow> 0 \<notin> set ds \<Longrightarrow>
   divide_check (marked M C) q k k2 ds \<longleftrightarrow> (\<forall>j<length ds. k2 + j \<noteq> k \<longrightarrow> hit M C q (ds ! j))"
proof (induction ds arbitrary: k2)
  case (Cons d ds)
  have "(\<forall>j<Suc (length ds). k2 + j \<noteq> k \<longrightarrow> hit M C q ((d # ds) ! j)) \<longleftrightarrow>
      (k2 \<noteq> k \<longrightarrow> hit M C q d) \<and> (\<forall>j<length ds. Suc k2 + j \<noteq> k \<longrightarrow> hit M C q (ds ! j))"
    by (auto simp: less_Suc_eq_0_disj)
  then show ?case using Cons scan_marked(1) [OF Cons.prems(1), of q d M] by auto
qed simp

lemma prod_inject:
  "lits q \<inter> lits d = {} \<Longrightarrow> lits q \<inter> lits d' = {} \<Longrightarrow> q OR d = q OR d' \<longleftrightarrow> d = d'"
proof
  assume "lits q \<inter> lits d = {}" "lits q \<inter> lits d' = {}" "q OR d = q OR d'"
  then have "lits q \<union> lits d = lits q \<union> lits d'" by (metis lits_ops(2))
  with \<open>lits q \<inter> lits d = {}\<close> \<open>lits q \<inter> lits d' = {}\<close> have "lits d = lits d'" by blast
  then show "d = d'" by simp
qed simp

lemma divide_mark_eq:
  "unmarked_cover C \<Longrightarrow> 0 \<notin> set ds \<Longrightarrow> distinct ds \<Longrightarrow>
   (\<forall>j<length ds. k2 + j \<noteq> k \<longrightarrow> hit M C q (ds ! j)) \<Longrightarrow>
   divide_mark (marked M C) q k k2 ds =
     Inr (marked (M \<union> {q OR ds ! j | j. j < length ds \<and> k2 + j \<noteq> k}) C)"
proof (induction ds arbitrary: k2 M)
  case (Cons d ds)
  have split: "{q OR (d # ds) ! j | j. j < length (d # ds) \<and> k2 + j \<noteq> k} =
      (if k2 = k then {} else {q OR d}) \<union> {q OR ds ! j | j. j < length ds \<and> Suc k2 + j \<noteq> k}"
    (is "?L = ?R")
  proof (rule set_eqI)
    fix x
    have "x \<in> ?L \<longleftrightarrow> (\<exists>j<Suc (length ds). k2 + j \<noteq> k \<and> x = q OR (d # ds) ! j)" by auto
    also have "\<dots> \<longleftrightarrow> (k2 \<noteq> k \<and> x = q OR d) \<or> (\<exists>j<length ds. Suc k2 + j \<noteq> k \<and> x = q OR ds ! j)"
      by (simp only: Ex_less_Suc2 nth_Cons_0 nth_Cons_Suc add_0_right add_Suc_right add_Suc)
    also have "\<dots> \<longleftrightarrow> x \<in> ?R" by auto
    finally show "x \<in> ?L \<longleftrightarrow> x \<in> ?R" .
  qed
  have hits: "\<forall>j<length ds. Suc k2 + j \<noteq> k \<longrightarrow> hit M C q (ds ! j)"
    using Cons.prems(4) by (auto dest: spec [of _ "Suc _"])
  show ?case
  proof (cases "k2 = k")
    case True
    then show ?thesis
      using Cons.IH [of "Suc k2" M] Cons.prems hits unfolding split by simp
  next
    case False
    then have h: "hit M C q d" using Cons.prems(4) by auto
    let ?i = "sop_scan (divide_matches q d) (marked M C)"
    have i: "?i < length C" "C ! ?i = q OR d" using scan_marked(2) [OF Cons.prems(1) h] by auto
    have "\<forall>j<length ds. Suc k2 + j \<noteq> k \<longrightarrow> hit (insert (q OR d) M) C q (ds ! j)"
    proof (intro allI impI)
      fix j assume j: "j < length ds" "Suc k2 + j \<noteq> k"
      then have "hit M C q (ds ! j)" "ds ! j \<noteq> d" using hits Cons.prems(3) by auto
      then show "hit (insert (q OR d) M) C q (ds ! j)"
        using h prod_inject [of q "ds ! j" d] by (auto simp: hit_def)
    qed
    moreover have "(marked M C)[?i := Kit_CubeMark (marked M C ! ?i)] = marked (insert (q OR d) M) C"
      using marked_update [OF Cons.prems(1) i(1), of M] i(2) h by (simp add: hit_def)
    ultimately show ?thesis
      using Cons.IH [of "Suc k2" "insert (q OR d) M"] Cons.prems(1-3) False i unfolding split
      by (simp add: Let_def)
  qed
qed simp

text \<open>What the outer loop keeps, with the cubes before index \<open>i\<close> handled.\<close>

definition products :: "u32 list \<Rightarrow> u32 list \<Rightarrow> u32 set" where
  "products Q D = {q OR d | q d. q \<in> set Q \<and> d \<in> set D}"

definition disjoint_covers :: "u32 list \<Rightarrow> u32 list \<Rightarrow> bool" where
  "disjoint_covers Q D \<longleftrightarrow> (\<forall>q \<in> set Q. \<forall>d \<in> set D. lits q \<inter> lits d = {})"

lemma productsI: "q \<in> set Q \<Longrightarrow> d \<in> set D \<Longrightarrow> q OR d \<in> products Q D"
  by (auto simp: products_def)

text \<open>A cube whose products with all divisor cubes are in the cover.\<close>

definition divides_out :: "u32 list \<Rightarrow> u32 list \<Rightarrow> u32 \<Rightarrow> bool" where
  "divides_out C D c \<longleftrightarrow> (\<forall>d \<in> set D. lits c \<inter> lits d = {} \<and> c OR d \<in> set C)"

definition divide_inv :: "u32 list \<Rightarrow> u32 list \<Rightarrow> nat \<Rightarrow> u32 set \<Rightarrow> u32 list \<Rightarrow> bool" where
  "divide_inv C D i M Q \<longleftrightarrow> M = products Q D \<and> M \<subseteq> set C \<and> disjoint_covers Q D \<and> distinct Q \<and>
     (\<forall>j<i. \<forall>c. divides_out C D c \<longrightarrow> (\<exists>d \<in> set D. C ! j = c OR d) \<longrightarrow> c \<in> set Q)"

lemma prod_unique:
  assumes D: "antichain D" "d \<in> set D" "d' \<in> set D" and eq: "c OR d = q OR d'"
    and disj: "lits c \<inter> lits d = {}" "lits c \<inter> lits d' = {}" "lits q \<inter> lits d' = {}"
  shows "d = d' \<and> c = q"
proof -
  have u: "lits c \<union> lits d = lits q \<union> lits d'" using eq by (metis lits_ops(2))
  then have "lits d' \<subseteq> lits d" using disj(2) by blast
  then have d: "d' = d" using antichainD D by blast
  then have "lits c = lits q" using u disj by blast
  then show ?thesis using d by simp
qed

lemma divides_out_in_products:
  assumes "antichain D" "divides_out C D c" "d \<in> set D" "disjoint_covers Q D" "c OR d \<in> products Q D"
  shows "c \<in> set Q"
proof -
  obtain q d' where q: "q \<in> set Q" "d' \<in> set D" "c OR d = q OR d'"
    using assms(5) by (auto simp: products_def)
  then have "c = q"
    using prod_unique [OF assms(1,3) q(2,3)] assms by (auto simp: divides_out_def disjoint_covers_def)
  then show ?thesis using q by simp
qed

lemma divide_inv_skip:
  assumes inv: "divide_inv C D i M Q"
    and i: "\<And>c d. divides_out C D c \<Longrightarrow> d \<in> set D \<Longrightarrow> C ! i = c OR d \<Longrightarrow> c \<in> set Q"
  shows "divide_inv C D (Suc i) M Q"
  using inv i unfolding divide_inv_def less_Suc_eq by blast

lemma divide_inv_take:
  assumes inv: "divide_inv C D i M Q" and D: "antichain D" and d0: "d0 \<in> set D" "C ! i = q OR d0"
    and hits: "\<And>d. d \<in> set D \<Longrightarrow> d \<noteq> d0 \<Longrightarrow> hit M C q d"
    and new: "C ! i \<in> set C" "C ! i \<notin> M" "lits q \<inter> lits d0 = {}"
  shows "divide_inv C D (Suc i) (M \<union> {q OR d | d. d \<in> set D}) (Q @ [q])"
proof -
  have disj: "lits q \<inter> lits d = {}" "q OR d \<in> set C" if "d \<in> set D" for d
    using hits [OF that] new d0 by (cases "d = d0", auto simp: hit_def)+
  have "q \<notin> set Q" using inv new(2) d0 by (auto simp: divide_inv_def products_def)
  moreover have "c \<in> set (Q @ [q])" if "divides_out C D c" "d \<in> set D" "C ! i = c OR d" for c d
  proof -
    have "c OR d = q OR d0" using that(3) d0(2) by simp
    from prod_unique [OF D that(2) d0(1) this] show ?thesis
      using that(1,2) d0(1) new(3) by (simp add: divides_out_def)
  qed
  moreover have "products (Q @ [q]) D = products Q D \<union> {q OR d | d. d \<in> set D}"
    by (auto simp: products_def)
  ultimately show ?thesis
    using inv disj unfolding divide_inv_def disjoint_covers_def less_Suc_eq by auto
qed

lemma divide_loop_inv:
  assumes C: "unmarked_cover C" and D: "antichain D" "0 \<notin> set D"
  shows "i \<le> length C \<Longrightarrow> divide_inv C D i M Q \<Longrightarrow>
    \<exists>M' Q'. divide_loop D [i..<length C] (marked M C) Q = Inr (marked M' C, Q') \<and> divide_inv C D (length C) M' Q'"
proof (induction "length C - i" arbitrary: i M Q)
  case 0
  then show ?case by auto
next
  case (Suc l)
  then have i: "i < length C" and l: "l = length C - Suc i" by auto
  then have upt: "[i..<length C] = i # [Suc i..<length C]" by (simp add: upt_conv_Cons)
  have inv: "M = products Q D" "disjoint_covers Q D" using Suc.prems(2) by (auto simp: divide_inv_def)
  have nz: "marked M C ! i \<noteq> 0" using marked_nonzero [OF C, of M] nth_mem [of i "marked M C"] i by (metis marked_length)
  note next_step = Suc.hyps(1) [OF l] and mk = marked_is_marked [OF C i, of M]
  define k where "k = sop_scan (\<lambda>d. Kit_CubeContains (C ! i) d) D"
  show ?case
  proof (cases "C ! i \<in> M")
    case True
    then have "divide_inv C D (Suc i) M Q"
      using divides_out_in_products [OF D(1)] inv by (intro divide_inv_skip [OF Suc.prems(2)]) auto
    then show ?thesis
      using next_step [of M Q] i nz True mk by (simp add: upt Let_def del: upt_Suc)
  next
    case False
    then have u: "marked M C ! i = C ! i" using i by (simp add: marked_nth)
    show ?thesis
    proof (cases "k = length D")
      case True
      then have "\<forall>d \<in> set D. \<not> lits d \<subseteq> lits (C ! i)"
        using sop_scan_length [OF D(2), of "\<lambda>d. Kit_CubeContains (C ! i) d"] by (simp add: k_def Kit_CubeContains_lits)
      then have "divide_inv C D (Suc i) M Q"
        by (intro divide_inv_skip [OF Suc.prems(2)]) auto
      then show ?thesis
        using next_step [of M Q] i nz True False mk u by (simp add: upt Let_def k_def del: upt_Suc)
    next
      case k_neq: False
      then have k: "k < length D" using sop_scan_le [of _ D] by (simp add: k_def le_neq_implies_less)
      define d0 where "d0 = D ! k"
      define q where "q = Kit_CubeSharp (C ! i) d0"
      have d0: "d0 \<in> set D" using k by (simp add: d0_def)
      have "lits d0 \<subseteq> lits (C ! i)"
        using sop_scan_found [OF D(2) k [unfolded k_def], folded k_def]
        unfolding Kit_CubeContains_lits d0_def .
      then have "lits (C ! i) = lits (q OR d0)" by (auto simp: q_def)
      moreover have "lits q \<inter> lits d0 = {}" by (auto simp: q_def)
      ultimately have prod: "C ! i = q OR d0" "lits q \<inter> lits d0 = {}" by (simp_all only: lits_inject)
      have index: "(\<forall>j<length D. 0 + j \<noteq> k \<longrightarrow> hit M' C q (D ! j)) \<longleftrightarrow> (\<forall>d \<in> set D. d \<noteq> d0 \<longrightarrow> hit M' C q d)" for M'
        using D(1) k by (auto simp: antichain_def d0_def all_set_conv_all_nth nth_eq_iff_index_eq)
      show ?thesis
      proof (cases "divide_check (marked M C) q k 0 D")
        case check: False
        have "divide_inv C D (Suc i) M Q"
        proof (rule divide_inv_skip [OF Suc.prems(2)])
          fix c d assume c: "divides_out C D c" "d \<in> set D" "C ! i = c OR d"
          have "c OR d = q OR d0" using c(3) prod(1) by simp
          from prod_unique [OF D(1) c(2) d0 this] have cq: "d = d0 \<and> c = q"
            using c(1,2) d0 prod(2) by (simp add: divides_out_def)
          show "c \<in> set Q"
          proof (rule ccontr)
            assume "c \<notin> set Q"
            then have "c OR d \<notin> M" if "d \<in> set D" for d
              using divides_out_in_products [OF D(1) c(1) that] inv by auto
            then have "\<forall>d \<in> set D. d \<noteq> d0 \<longrightarrow> hit M C q d"
              using c(1) cq by (auto simp: divides_out_def hit_def)
            then show False using check divide_check_iff [OF C D(2), of M q k 0] index [of M] by blast
          qed
        qed
        then show ?thesis
          using next_step [of M Q] i nz k False mk u check
          by (simp add: upt Let_def q_def d0_def flip: k_def del: upt_Suc)
      next
        case check: True
        then have hits: "hit M C q d" if "d \<in> set D" "d \<noteq> d0" for d
          using divide_check_iff [OF C D(2), of M q k 0] index [of M] that by blast
        let ?M = "M \<union> {q OR d | d. d \<in> set D}"
        have "divide_inv C D (Suc i) ?M (Q @ [q])"
          using divide_inv_take [OF Suc.prems(2) D(1) d0 prod(1) hits _ False prod(2)] i by simp
        moreover have "divide_mark ((marked M C)[i := Kit_CubeMark (C ! i)]) q k 0 D = Inr (marked ?M C)"
        proof -
          have "hit (insert (C ! i) M) C q d" if "d \<in> set D" "d \<noteq> d0" for d
            using hits [OF that] prod prod_inject [of q d d0] that(2) by (auto simp: hit_def)
          then have "\<forall>j<length D. 0 + j \<noteq> k \<longrightarrow> hit (insert (C ! i) M) C q (D ! j)"
            using index [of "insert (C ! i) M"] by blast
          then have "divide_mark (marked (insert (C ! i) M) C) q k 0 D =
              Inr (marked (insert (C ! i) M \<union> {q OR D ! j | j. j < length D \<and> 0 + j \<noteq> k}) C)"
            using D by (intro divide_mark_eq [OF C]) (simp_all add: antichain_def)
          moreover have "insert (C ! i) M \<union> {q OR D ! j | j. j < length D \<and> 0 + j \<noteq> k} = ?M"
            unfolding prod(1) d0_def using k by (auto simp: in_set_conv_nth)
          ultimately show ?thesis
            using marked_update [OF C i False] u by simp
        qed
        ultimately show ?thesis
          using next_step [of ?M "Q @ [q]"] i nz k False mk u check
          by (simp add: upt Let_def q_def d0_def flip: k_def del: upt_Suc)
      qed
    qed
  qed
qed

section \<open>The result of a division\<close>

text \<open>
  A computation that yields a result with \<open>P\<close>, unless \<open>B\<close> holds and the memory is exhausted; \<open>B\<close>
  says that the memory is smaller than what the computation may need. \<open>within st k st'\<close> says that
  the computation took at most \<open>k\<close> words of memory.
\<close>

definition res_ok :: "bool \<Rightarrow> 'a res \<Rightarrow> ('a \<Rightarrow> bool) \<Rightarrow> bool" where
  "res_ok B r P \<longleftrightarrow> (case r of Inl e \<Rightarrow> e = OutOfMemory \<and> B | Inr x \<Rightarrow> P x)"

definition within :: "Vec_Int \<Rightarrow> nat \<Rightarrow> Vec_Int \<Rightarrow> bool" where
  "within st k st' \<longleftrightarrow> nCap st' = nCap st \<and> nSize st' \<le> nSize st + k"

definition lacks :: "Vec_Int \<Rightarrow> nat \<Rightarrow> bool" where
  "lacks st k \<longleftrightarrow> nCap st < nSize st + k"

lemma within_refl [simp]: "within st k st"
  by (simp add: within_def)

lemma within_trans: "within st j st1 \<Longrightarrow> within st1 k st2 \<Longrightarrow> j + k \<le> l \<Longrightarrow> within st l st2"
  by (simp add: within_def)

lemma within_lacks: "within st j st1 \<Longrightarrow> lacks st1 k \<Longrightarrow> j + k \<le> l \<Longrightarrow> lacks st l"
  by (simp add: within_def lacks_def)

lemma lacks_mono: "lacks st j \<Longrightarrow> j \<le> l \<Longrightarrow> lacks st l"
  by (simp add: lacks_def)

lemma res_ok_Inr [simp]: "res_ok B (Inr x) P \<longleftrightarrow> P x"
  by (simp add: res_ok_def)

lemma res_ok_bind:
  "res_ok B r P \<Longrightarrow> (\<And>x. P x \<Longrightarrow> res_ok B (f x) Q) \<Longrightarrow> res_ok B (res_bind r f) Q"
  by (cases r) (auto simp: res_ok_def)

lemma res_ok_mono: "res_ok A r P \<Longrightarrow> (A \<Longrightarrow> B) \<Longrightarrow> (\<And>x. P x \<Longrightarrow> Q x) \<Longrightarrow> res_ok B r Q"
  by (cases r) (auto simp: res_ok_def)

lemma res_ok_returns: "res_ok B r P \<Longrightarrow> \<not> B \<Longrightarrow> \<exists>x. r = Inr x \<and> P x"
  by (cases r) (auto simp: res_ok_def)

lemma res_ok_alloc:
  assumes "lacks st n \<Longrightarrow> B" "\<And>st'. within st n st' \<Longrightarrow> res_ok B (f st') Q"
  shows "res_ok B (res_bind (sop_alloc st n) f) Q"
  using assms
  by (auto simp: sop_alloc_def Vec_IntFetch_def Let_def res_ok_def within_def lacks_def)

definition division :: "u32 list \<Rightarrow> u32 list \<Rightarrow> u32 list \<Rightarrow> u32 list \<Rightarrow> bool" where
  "division C D Q R \<longleftrightarrow> disjoint_covers Q D \<and> distinct Q \<and> products Q D \<subseteq> set C \<and>
     R = filter (\<lambda>u. u \<notin> products Q D) C \<and> (\<forall>c. divides_out C D c \<longrightarrow> c \<in> set Q)"

lemma sop_ok_unmarked: "sop_ok C \<Longrightarrow> unmarked_cover C"
  by (auto simp: sop_ok_def unmarked_cover_def antichain_def)

lemma card_products:
  assumes "antichain D" "disjoint_covers Q D" "distinct Q"
  shows "card (products Q D) = length Q * length D"
proof -
  have "products Q D = (\<lambda>(q, d). q OR d) ` (set Q \<times> set D)" by (auto simp: products_def)
  moreover have "inj_on (\<lambda>(q, d). q OR d) (set Q \<times> set D)"
  proof (rule inj_onI)
    fix x y assume xy: "x \<in> set Q \<times> set D" "y \<in> set Q \<times> set D" "(\<lambda>(q, d). q OR d) x = (\<lambda>(q, d). q OR d) y"
    then show "x = y"
      using prod_unique [OF assms(1), of "snd x" "snd y" "fst x" "fst y"] assms(2)
      by (auto simp: disjoint_covers_def)
  qed
  ultimately show ?thesis
    using assms by (simp add: card_image card_cartesian_product distinct_card antichain_def)
qed

lemma division_length:
  assumes C: "distinct C" and D: "antichain D" and dv: "division C D Q R"
  shows "length C = length Q * length D + length R"
proof -
  have "card (set C) = card (products Q D) + card (set C - products Q D)"
    using dv by (metis card_Diff_subset List.finite_set card_mono division_def finite_subset le_add_diff_inverse)
  moreover have "set R = set C - products Q D" using dv by (auto simp: division_def)
  moreover have "distinct R" using dv C by (simp add: division_def)
  ultimately show ?thesis
    using C card_products [OF D] dv by (metis distinct_card division_def)
qed

lemma Kit_SopDivideByCube_division:
  assumes C: "sop_ok C"
  shows "res_ok (lacks st (2 * length C)) (Kit_SopDivideByCube C [d] st)
    (\<lambda>(Q, R, st'). division C [d] Q R \<and> within st (2 * length C) st')"
proof -
  let ?Q = "map (\<lambda>u. Kit_CubeSharp u d) (filter (\<lambda>u. Kit_CubeContains u d) C)"
  let ?R = "filter (\<lambda>u. \<not> Kit_CubeContains u d) C"
  have rejoin: "Kit_CubeSharp u d OR d = u" if "Kit_CubeContains u d" for u
    using that by (rule Kit_CubeSharp_or)
  have prods: "products ?Q [d] = {u \<in> set C. Kit_CubeContains u d}"
  proof -
    have "products ?Q [d] = (\<lambda>u. Kit_CubeSharp u d OR d) ` {u \<in> set C. Kit_CubeContains u d}"
      by (auto simp: products_def)
    also have "\<dots> = (\<lambda>u. u) ` {u \<in> set C. Kit_CubeContains u d}"
      by (rule image_cong) (auto simp: rejoin)
    finally show ?thesis by simp
  qed
  have "distinct ?Q"
    using C rejoin by (auto simp: distinct_map inj_on_def sop_ok_def antichain_def) metis
  moreover have "c \<in> set ?Q" if "divides_out C [d] c" for c
  proof -
    have "c OR d \<in> set C" "Kit_CubeContains (c OR d) d" "Kit_CubeSharp (c OR d) d = c"
      using that by (auto simp: divides_out_def Kit_CubeContains_lits simp flip: lits_inject)
    then show ?thesis by force
  qed
  ultimately have "division C [d] ?Q ?R"
    unfolding division_def prods by (auto simp: disjoint_covers_def intro!: filter_cong)
  then show ?thesis
    by (auto simp: Kit_SopDivideByCube_def sop_ok_cubes [OF C] mult_2
        intro!: res_ok_alloc intro: lacks_mono within_lacks within_trans)
qed

lemma Kit_SopDivideInternal_division:
  assumes C: "sop_ok C" and D: "antichain D" "0 \<notin> set D" "D \<noteq> []" "length D \<le> length C"
  shows "res_ok (lacks st (2 * length C)) (Kit_SopDivideInternal C D st)
    (\<lambda>(C', Q, R, st'). C' = C \<and> division C D Q R \<and> within st (2 * length C) st')"
proof (cases "length D = 1")
  case True
  then obtain d where d: "D = [d]" by (auto simp: length_Suc_conv)
  have "res_ok (lacks st (2 * length C)) (res_bind (Kit_SopDivideByCube C [d] st) (\<lambda>(Q, R, st). Inr (C, Q, R, st)))
      (\<lambda>(C', Q, R, st'). C' = C \<and> division C D Q R \<and> within st (2 * length C) st')"
    by (rule res_ok_bind [OF Kit_SopDivideByCube_division [OF C]]) (auto simp: d)
  then show ?thesis using D by (simp add: Kit_SopDivideInternal_def d)
next
  case False
  note U = sop_ok_unmarked [OF C]
  have start: "marked {} C = C" by (simp add: marked_def)
  have "divide_inv C D 0 {} []" by (simp add: divide_inv_def products_def disjoint_covers_def)
  from divide_loop_inv [OF U D(1,2) _ this, unfolded start]
  obtain M Q where loop: "divide_loop D [0..<length C] C [] = Inr (marked M C, Q)"
    and inv: "divide_inv C D (length C) M Q" by auto
  have M: "M = products Q D" "M \<subseteq> set C" "disjoint_covers Q D" "distinct Q" using inv by (auto simp: divide_inv_def)
  have complete: "c \<in> set Q" if c: "divides_out C D c" for c
  proof -
    obtain d where d: "d \<in> set D" using D(3) by (meson last_in_set)
    then obtain j where "j < length C" "C ! j = c OR d"
      using c by (metis divides_out_def in_set_conv_nth)
    then show ?thesis using inv c d by (auto simp: divide_inv_def)
  qed
  let ?R = "filter (\<lambda>u. u \<notin> products Q D) C"
  have dv: "division C D Q ?R" using M complete by (auto simp: division_def)
  have visited: "sop_cubes (marked M C) = marked M C"
    using marked_nonzero [OF U] by (intro sop_cubes_id) metis
  then have rest: "dropWhile (\<lambda>u. u \<noteq> 0) (marked M C) = []"
    unfolding sop_cubes_def by (metis append_self_conv takeWhile_dropWhile_id)
  have rem: "filter (\<lambda>u. \<not> Kit_CubeIsMarked u) (marked M C) = ?R"
  proof -
    have "\<forall>u \<in> set C. \<not> bit u 31" using U by (auto simp: unmarked_cover_def)
    then have "filter (\<lambda>u. \<not> Kit_CubeIsMarked u) (marked M C) = filter (\<lambda>u. u \<notin> M) C"
      unfolding marked_def by (induction C) auto
    then show ?thesis by (simp add: M(1))
  qed
  have restore: "map (\<lambda>u. if Kit_CubeIsMarked u then Kit_CubeUnmark u else u) (marked M C) = C"
    using U unfolding marked_def unmarked_cover_def
    by (auto simp: Kit_CubeUnmark_Mark intro!: map_idI)
  have len: "length C - length Q * length D = length ?R"
    using division_length [OF _ D(1) dv] U by (simp add: unmarked_cover_def)
  have "length D \<noteq> 0" using D(3) by simp
  then have "Kit_SopDivideInternal C D st =
      res_bind (sop_alloc st (length C div length D)) (\<lambda>st.
      res_bind (sop_alloc st (length ?R)) (\<lambda>st. Inr (C, Q, ?R, st)))"
    using False D(4) len
    by (simp add: Kit_SopDivideInternal_def loop Let_def visited rest rem restore del: Kit_CubeIsMarked_bit)
  moreover have "length C div length D + length ?R \<le> 2 * length C"
    using div_le_dividend [of "length C" "length D"] length_filter_le [of "\<lambda>u. u \<notin> products Q D" C] by linarith
  ultimately show ?thesis
    using dv by (auto intro!: res_ok_alloc intro: lacks_mono [OF _ add_leD1] within_lacks within_trans)
qed

section \<open>Counting literals\<close>

lemma lit_count_length: "lit_count cs i = length (filter (\<lambda>u. i \<in> lits u) (sop_cubes cs))"
proof -
  have "fold (\<lambda>u n. if Kit_CubeHasLit u i then n + 1 else n) us n = n + length (filter (\<lambda>u. i \<in> lits u) us)" for us n
    by (induction us arbitrary: n) (auto simp: Kit_CubeHasLit_lits)
  then show ?thesis by (simp add: lit_count_def)
qed

lemma lit_count_le: "lit_count cs i \<le> length cs"
  unfolding lit_count_length sop_cubes_def
  by (metis le_trans length_filter_le length_takeWhile_le)

lemma Kit_SopAnyLiteral_iff:
  "Kit_SopAnyLiteral cs n = -1 \<longleftrightarrow> (\<forall>i<n. lit_count cs i < 2)"
  by (auto simp: Kit_SopAnyLiteral_def find_None_iff split: option.split) (auto simp: find_Some_iff)

text \<open>
  The least frequent literal among those that occur in at least two cubes, for covers of fewer
  cubes than the initial bound of the search.
\<close>

lemma Kit_SopWorstLiteral_cases:
  "Kit_SopWorstLiteral cs n = -1 \<and> (length cs < 1000000 \<longrightarrow> (\<forall>i<n. lit_count cs i < 2)) \<or>
   (\<exists>i<n. Kit_SopWorstLiteral cs n = int i \<and> 2 \<le> lit_count cs i \<and>
      (\<forall>j<n. 2 \<le> lit_count cs j \<longrightarrow> lit_count cs i \<le> lit_count cs j))"
proof -
  let ?scan = "scan_min (lit_count cs) (filter (\<lambda>i. 2 \<le> lit_count cs i) [0..<n]) (1000000, -1) int"
  obtain m a where r: "?scan = (m, a)" by force
  have w: "Kit_SopWorstLiteral cs n = (if m < 1000000 then a else -1)"
    using scan_min_filter [of "\<lambda>i. 2 \<le> lit_count cs i" "lit_count cs" int "[0..<n]" "(1000000, -1)"] r
    by (simp add: Kit_SopWorstLiteral_def for_up_def Let_def not_le)
  have small: "lit_count cs j < 1000000" if "length cs < 1000000" for j
    using lit_count_le [of cs j] that by simp
  from scan_min_set [OF r] show ?thesis
  proof (elim disjE bexE conjE)
    assume "(m, a) = (1000000, -1)" "\<forall>i \<in> set (filter (\<lambda>i. 2 \<le> lit_count cs i) [0..<n]). 1000000 \<le> lit_count cs i"
    then show ?thesis using w small by (fastforce simp: not_le [symmetric])
  next
    fix i assume "i \<in> set (filter (\<lambda>i. 2 \<le> lit_count cs i) [0..<n])" "m = lit_count cs i" "a = int i"
      "lit_count cs i < 1000000" "\<forall>j \<in> set (filter (\<lambda>i. 2 \<le> lit_count cs i) [0..<n]). lit_count cs i \<le> lit_count cs j"
    then show ?thesis using w by auto
  qed
qed

text \<open>The most frequent literal of a mask among those that occur in at least two cubes.\<close>

lemma Kit_SopBestLiteral_cases:
  "Kit_SopBestLiteral cs n u = -1 \<and> (\<forall>i<n. Kit_CubeHasLit u i \<longrightarrow> lit_count cs i < 2) \<or>
   (\<exists>i<n. Kit_SopBestLiteral cs n u = int i \<and> Kit_CubeHasLit u i \<and> 2 \<le> lit_count cs i \<and>
      (\<forall>j<n. Kit_CubeHasLit u j \<longrightarrow> lit_count cs j \<le> lit_count cs i))"
proof -
  let ?P = "\<lambda>i. Kit_CubeHasLit u i \<and> 2 \<le> lit_count cs i"
  let ?val = "\<lambda>i. - int (lit_count cs i)"
  let ?body = "\<lambda>i (nLitsMax, iMax). if \<not> Kit_CubeHasLit u i then (nLitsMax, iMax)
         else let nLitsCur = int (lit_count cs i) in
           if nLitsCur < 2 then (nLitsMax, iMax)
           else if nLitsMax < nLitsCur then (nLitsCur, int i) else (nLitsMax, iMax)"
  obtain m a where r: "scan_min ?val (filter ?P [0..<n]) (1, -1) int = (m, a)" by force
  have dual: "fold ?body is (k, b) = (case fold (\<lambda>i (best, arg). if \<not> ?P i then (best, arg)
      else if best > ?val i then (?val i, int i) else (best, arg)) is (- k, b) of (m, a) \<Rightarrow> (- m, a))" for "is" k b
    by (induction "is" arbitrary: k b) (auto simp: Let_def)
  have w: "Kit_SopBestLiteral cs n u = (if - m \<ge> 0 then a else -1)"
    using dual [of "[0..<n]" "-1" "-1"] scan_min_filter [of ?P ?val int "[0..<n]" "(1, -1)"] r
    by (simp add: Kit_SopBestLiteral_def for_up_def)
  from scan_min_set [OF r] show ?thesis
  proof (elim disjE bexE conjE)
    assume "(m, a) = (1, -1)" "\<forall>i \<in> set (filter ?P [0..<n]). 1 \<le> ?val i"
    then show ?thesis using w by (fastforce simp: not_le [symmetric])
  next
    fix i assume i: "i \<in> set (filter ?P [0..<n])" "m = ?val i" "a = int i"
      "\<forall>j \<in> set (filter ?P [0..<n]). ?val i \<le> ?val j"
    then have "lit_count cs j \<le> lit_count cs i" if "j < n" "Kit_CubeHasLit u j" for j
      using that by (cases "2 \<le> lit_count cs j") auto
    then show ?thesis using i w by auto
  qed
qed

section \<open>Common cubes and kernels\<close>

lemma bit_common_fold:
  "bit (fold (\<lambda>u m. m AND u) us m) i \<longleftrightarrow> bit m i \<and> (\<forall>u \<in> set us. bit u i)"
  by (induction us arbitrary: m) (auto simp: bit_and_iff)

lemma lits_Kit_SopCommonCube:
  "lits (Kit_SopCommonCube cs) = {i. i < 32 \<and> (\<forall>u \<in> set (sop_cubes cs). i \<in> lits u)}"
proof -
  have "bit (NOT 0 :: u32) i \<longleftrightarrow> i < 32" for i by (auto simp: bit_simps)
  then show ?thesis unfolding lits_def Kit_SopCommonCube_def bit_common_fold by auto
qed

lemma Kit_SopCommonCube_sub: "u \<in> set (sop_cubes cs) \<Longrightarrow> lits (Kit_SopCommonCube cs) \<subseteq> lits u"
  by (auto simp: lits_Kit_SopCommonCube)

text \<open>A cover of at least two cubes, none of them contained in another.\<close>

definition divisor_ok :: "u32 list \<Rightarrow> bool" where
  "divisor_ok C \<longleftrightarrow> sop_ok C \<and> 2 \<le> length C"

lemma divisor_okI:
  assumes "antichain C" "2 \<le> length C" "length C < 1000000" "\<And>u. u \<in> set C \<Longrightarrow> \<not> bit u 31"
  shows "divisor_ok C"
  using assms antichain_nonzero [OF assms(1)] by (auto simp: divisor_ok_def sop_ok_def)

lemma sop_ok_sharp_map:
  assumes C: "antichain C" and m: "\<And>u. u \<in> set C \<Longrightarrow> lits m \<subseteq> lits u"
  shows "antichain (map (\<lambda>u. Kit_CubeSharp u m) C)"
proof -
  have inj: "u = w" if "u \<in> set C" "w \<in> set C" "lits u - lits m \<subseteq> lits w - lits m" for u w
    using that m [OF that(2)] antichainD [OF C that(1,2)] by blast
  then have "inj_on (\<lambda>u. Kit_CubeSharp u m) (set C)"
    by (intro inj_onI) (metis lits_ops(3) subset_refl)
  then show ?thesis
    using C inj by (auto simp: antichain_def distinct_map)
qed

lemma Kit_SopMakeCubeFree_map:
  assumes "0 \<notin> set C"
  shows "Kit_SopMakeCubeFree C = map (\<lambda>u. Kit_CubeSharp u (Kit_SopCommonCube C)) C"
proof -
  have "sop_cubes C = C" using assms by (intro sop_cubes_id) metis
  then have "dropWhile (\<lambda>u. u \<noteq> 0) C = []"
    unfolding sop_cubes_def by (metis append_self_conv takeWhile_dropWhile_id)
  moreover have "Kit_CubeSharp u 0 = u" for u by (simp add: Kit_CubeSharp_def)
  ultimately show ?thesis using \<open>sop_cubes C = C\<close> by (simp add: Kit_SopMakeCubeFree_def Let_def)
qed

lemma divisor_ok_zero: "divisor_ok C \<Longrightarrow> 0 \<notin> set C"
  by (auto simp: divisor_ok_def sop_ok_def)

lemma divides_out_sharp:
  assumes "0 \<notin> set C" "D = map (\<lambda>u. Kit_CubeSharp u m) C" "\<And>u. u \<in> set C \<Longrightarrow> lits m \<subseteq> lits u"
  shows "divides_out C D m"
proof -
  have "m OR Kit_CubeSharp u m = u" if "u \<in> set C" for u
    using assms(3) [OF that] by (simp flip: lits_inject) blast
  then show ?thesis using assms(2) by (auto simp: divides_out_def)
qed

text \<open>Removing the common cube leaves an antichain of as many cubes, and the cube divides it out.\<close>

lemma Kit_SopMakeCubeFree_kernel:
  assumes C: "divisor_ok C"
  shows "divisor_ok (Kit_SopMakeCubeFree C)" and "length (Kit_SopMakeCubeFree C) = length C"
    and "divides_out C (Kit_SopMakeCubeFree C) (Kit_SopCommonCube C)"
proof -
  have C': "antichain C" "2 \<le> length C" "length C < 1000000" "\<And>u. u \<in> set C \<Longrightarrow> \<not> bit u 31"
    using C by (auto simp: divisor_ok_def sop_ok_def)
  note map = Kit_SopMakeCubeFree_map [OF divisor_ok_zero [OF C]]
  have sub: "lits (Kit_SopCommonCube C) \<subseteq> lits u" if "u \<in> set C" for u
    using that Kit_SopCommonCube_sub [of u C] sop_ok_cubes [of C] C by (simp add: divisor_ok_def)
  show len: "length (Kit_SopMakeCubeFree C) = length C" by (simp add: map)
  show "divisor_ok (Kit_SopMakeCubeFree C)"
    using C' len sop_ok_sharp_map [OF C'(1) sub] by (intro divisor_okI) (auto simp: map)
  show "divides_out C (Kit_SopMakeCubeFree C) (Kit_SopCommonCube C)"
    by (rule divides_out_sharp [OF divisor_ok_zero [OF C] map sub])
qed

text \<open>The quotient by a literal of at least two cubes.\<close>

lemma Kit_SopDivideByLiteralQuo_kernel:
  assumes C: "sop_ok C" and i: "2 \<le> lit_count C i"
  shows "divisor_ok (Kit_SopDivideByLiteralQuo C i)"
    and "length (Kit_SopDivideByLiteralQuo C i) = lit_count C i"
    and "i < 32" "divides_out C (Kit_SopDivideByLiteralQuo C i) (Kit_CubeSetLit 0 i)"
proof -
  let ?F = "filter (\<lambda>u. i \<in> lits u) C"
  have map: "Kit_SopDivideByLiteralQuo C i = map (\<lambda>u. Kit_CubeRemLit u i) ?F"
    by (simp add: Kit_SopDivideByLiteralQuo_def sop_ok_cubes [OF C] Kit_CubeHasLit_lits)
  show len: "length (Kit_SopDivideByLiteralQuo C i) = lit_count C i"
    by (simp add: map lit_count_length sop_ok_cubes [OF C])
  have "2 \<le> length ?F" using i unfolding lit_count_length sop_ok_cubes [OF C] .
  then have "?F \<noteq> []" by (metis list.size(3) not_numeral_le_zero)
  then obtain u where "u \<in> set ?F" by (meson last_in_set)
  then show i32: "i < 32" using lits_less by auto
  have rem: "Kit_CubeRemLit u i = Kit_CubeSharp u (Kit_CubeSetLit 0 i)" for u
    using i32 by (simp flip: lits_inject)
  have F: "antichain ?F" "0 \<notin> set ?F" "\<And>u. u \<in> set ?F \<Longrightarrow> lits (Kit_CubeSetLit 0 i) \<subseteq> lits u"
    using C i32 by (auto simp: sop_ok_def antichain_def)
  have anti: "antichain (Kit_SopDivideByLiteralQuo C i)"
    unfolding map rem by (rule sop_ok_sharp_map [OF F(1,3)])
  show "divisor_ok (Kit_SopDivideByLiteralQuo C i)"
  proof (rule divisor_okI [OF anti])
    show "2 \<le> length (Kit_SopDivideByLiteralQuo C i)" using i len by simp
    show "length (Kit_SopDivideByLiteralQuo C i) < 1000000"
      using len lit_count_le [of C i] C by (simp add: sop_ok_def)
    show "\<not> bit w 31" if "w \<in> set (Kit_SopDivideByLiteralQuo C i)" for w
      using that C by (auto simp: map rem sop_ok_def)
  qed
  have "divides_out ?F (Kit_SopDivideByLiteralQuo C i) (Kit_CubeSetLit 0 i)"
    by (rule divides_out_sharp [OF F(2) _ F(3)]) (simp_all add: map rem)
  then show "divides_out C (Kit_SopDivideByLiteralQuo C i) (Kit_CubeSetLit 0 i)"
    by (auto simp: divides_out_def)
qed

lemma divides_out_trans:
  assumes "divides_out C C1 c1" "divides_out C1 D c2"
  shows "divides_out C D (c1 OR c2)"
  unfolding divides_out_def
proof
  fix d assume d: "d \<in> set D"
  then have d2: "lits c2 \<inter> lits d = {}" "c2 OR d \<in> set C1" using assms(2) by (auto simp: divides_out_def)
  have "lits c1 \<inter> lits (c2 OR d) = {} \<and> c1 OR (c2 OR d) \<in> set C"
    using assms(1) d2(2) unfolding divides_out_def by blast
  then show "lits (c1 OR c2) \<inter> lits d = {} \<and> (c1 OR c2) OR d \<in> set C"
    using d2(1) by (auto simp: or.assoc)
qed

text \<open>The number of literals of a cover, which every step of kerneling and factoring reduces.\<close>

definition weight :: "u32 list \<Rightarrow> nat" where
  "weight cs = (\<Sum>u \<leftarrow> cs. card (lits u))"

lemma weight_simps [simp]:
  "weight [] = 0" "weight (u # cs) = card (lits u) + weight cs" "weight (cs @ ds) = weight cs + weight ds"
  by (simp_all add: weight_def)

lemma weight_filter: "weight (filter P cs) \<le> weight cs"
  by (induction cs) auto

lemma weight_sharp: "weight (map (\<lambda>u. Kit_CubeSharp u m) cs) \<le> weight cs"
  by (induction cs) (auto intro!: add_mono card_mono)

lemma weight_sop_cubes: "weight (sop_cubes cs) + weight (dropWhile (\<lambda>u. u \<noteq> 0) cs) = weight cs"
  unfolding sop_cubes_def by (metis takeWhile_dropWhile_id weight_simps(3))

lemma weight_MakeCubeFree: "weight (Kit_SopMakeCubeFree cs) \<le> weight cs"
  using weight_sop_cubes [of cs] weight_sharp [of _ "sop_cubes cs"]
  by (simp add: Kit_SopMakeCubeFree_def Let_def) (metis add_le_mono1)

lemma weight_RemLit:
  "\<forall>u \<in> set us. i \<in> lits u \<Longrightarrow> weight (map (\<lambda>u. Kit_CubeRemLit u i) us) + length us = weight us"
proof (induction us)
  case (Cons u us)
  then have "card (lits u - {i}) + 1 = card (lits u)"
    by (metis List.set_simps(2) Suc_eq_plus1 card_Suc_Diff1 finite_lits insertI1)
  then show ?case using Cons by simp
qed simp

lemma weight_DivideByLiteralQuo:
  "0 < lit_count cs i \<Longrightarrow> weight (Kit_SopDivideByLiteralQuo cs i) < weight cs"
proof -
  assume a: "0 < lit_count cs i"
  let ?F = "filter (\<lambda>u. i \<in> lits u) (sop_cubes cs)"
  have "weight (map (\<lambda>u. Kit_CubeRemLit u i) ?F) + length ?F = weight ?F"
    by (rule weight_RemLit) simp
  moreover have "weight ?F \<le> weight (sop_cubes cs)" by (rule weight_filter)
  moreover have "0 < length ?F" using a by (simp only: lit_count_length)
  ultimately have "weight (map (\<lambda>u. Kit_CubeRemLit u i) ?F) < weight cs"
    using weight_sop_cubes [of cs] by linarith
  then show ?thesis by (simp add: Kit_SopDivideByLiteralQuo_def Kit_CubeHasLit_lits)
qed

function Kit_SopDivisorZeroKernel_rec :: "u32 list \<Rightarrow> nat \<Rightarrow> u32 list" where
  "Kit_SopDivisorZeroKernel_rec cSop nLts =
    (let iLit = Kit_SopWorstLiteral cSop nLts in
     if iLit = -1 then cSop
     else Kit_SopDivisorZeroKernel_rec
       (Kit_SopMakeCubeFree (Kit_SopDivideByLiteralQuo cSop (nat iLit))) nLts)"
  by pat_completeness auto
termination
proof (relation "measure (\<lambda>(cs, n). weight cs)")
  fix cs n iLit assume i: "iLit = Kit_SopWorstLiteral cs n" "iLit \<noteq> -1"
  then have "0 < lit_count cs (nat iLit)" using Kit_SopWorstLiteral_cases [of cs n] by auto
  from weight_DivideByLiteralQuo [OF this] weight_MakeCubeFree [of "Kit_SopDivideByLiteralQuo cs (nat iLit)"]
  show "((Kit_SopMakeCubeFree (Kit_SopDivideByLiteralQuo cs (nat iLit)), n), cs, n) \<in> measure (\<lambda>(cs, n). weight cs)"
    by simp
qed simp

declare Kit_SopDivisorZeroKernel_rec.simps [simp del]

text \<open>No result (\<open>None\<close>) stands for the return value 0.\<close>

definition Kit_SopDivisor :: "u32 list \<Rightarrow> nat \<Rightarrow> Vec_Int \<Rightarrow> (u32 list option \<times> Vec_Int) res" where
  "Kit_SopDivisor cSop nLts vMemory =
    (if length cSop \<le> 1 then Inr (None, vMemory)
     else if Kit_SopAnyLiteral cSop nLts = -1 then Inr (None, vMemory)
     else res_bind (Kit_SopDup cSop vMemory) (\<lambda>(cResult, vMemory).
       let cResult = Kit_SopDivisorZeroKernel_rec cResult nLts in
       if \<not> length cResult > 0 then Inl AssertFailed else Inr (Some cResult, vMemory)))"

text \<open>The kernel is a quotient of the cover by a cube, and no literal is left in two of its cubes.\<close>

lemma Kit_SopDivisorZeroKernel_rec_kernel:
  assumes "divisor_ok C"
  shows "divisor_ok (Kit_SopDivisorZeroKernel_rec C n) \<and>
    length (Kit_SopDivisorZeroKernel_rec C n) \<le> length C \<and>
    (\<forall>i<n. lit_count (Kit_SopDivisorZeroKernel_rec C n) i < 2) \<and>
    (\<exists>c. divides_out C (Kit_SopDivisorZeroKernel_rec C n) c \<and> ((\<exists>i<n. 2 \<le> lit_count C i) \<longrightarrow> c \<noteq> 0))"
  using assms
proof (induction C n rule: Kit_SopDivisorZeroKernel_rec.induct)
  case (1 C n)
  have C: "sop_ok C" "length C < 1000000" using "1.prems" by (auto simp: divisor_ok_def sop_ok_def)
  show ?case
  proof (cases "Kit_SopWorstLiteral C n = -1")
    case True
    then have few: "\<forall>i<n. lit_count C i < 2" using Kit_SopWorstLiteral_cases [of C n] C(2) by auto
    moreover have "divides_out C C 0" by (simp add: divides_out_def)
    ultimately show ?thesis
      using True "1.prems" by (subst (1 2 3 4) Kit_SopDivisorZeroKernel_rec.simps) (auto simp: Let_def not_le [symmetric])
  next
    case False
    then obtain i where i: "i < n" "Kit_SopWorstLiteral C n = int i" "2 \<le> lit_count C i"
      using Kit_SopWorstLiteral_cases [of C n] by auto
    let ?Q = "Kit_SopDivideByLiteralQuo C i"
    let ?K = "Kit_SopMakeCubeFree ?Q"
    note Q = Kit_SopDivideByLiteralQuo_kernel [OF C(1) i(3)]
    note K = Kit_SopMakeCubeFree_kernel [OF Q(1)]
    have rec: "Kit_SopDivisorZeroKernel_rec C n = Kit_SopDivisorZeroKernel_rec ?K n"
      using False i(2) by (subst Kit_SopDivisorZeroKernel_rec.simps) (simp add: Let_def)
    have len: "length ?K \<le> length C" using K(2) Q(2) lit_count_le [of C i] by simp
    define c1 where "c1 = Kit_CubeSetLit 0 i OR Kit_SopCommonCube ?Q"
    have c1: "divides_out C ?K c1" unfolding c1_def by (rule divides_out_trans [OF Q(4) K(3)])
    have "lits c1 \<noteq> {}" using Q(3) by (simp add: c1_def)
    then have nz: "c1 OR c \<noteq> 0" for c by (metis Un_empty lits_empty lits_ops(2))
    have IH: "divisor_ok (Kit_SopDivisorZeroKernel_rec ?K n) \<and>
        length (Kit_SopDivisorZeroKernel_rec ?K n) \<le> length ?K \<and>
        (\<forall>i<n. lit_count (Kit_SopDivisorZeroKernel_rec ?K n) i < 2) \<and>
        (\<exists>c. divides_out ?K (Kit_SopDivisorZeroKernel_rec ?K n) c \<and> ((\<exists>i<n. 2 \<le> lit_count ?K i) \<longrightarrow> c \<noteq> 0))"
      using "1.IH" [OF refl] False i(2) K(1) by simp
    then obtain c where c: "divides_out ?K (Kit_SopDivisorZeroKernel_rec ?K n) c" by blast
    show ?thesis
      unfolding rec using IH len divides_out_trans [OF c1 c] nz [of c] by (meson le_trans)
  qed
qed

text \<open>
  The quotient by a cube: the cubes that contain it, without its literals. A kernel is a quotient of at
  least two cubes that is cube-free (no literal is in all of its cubes); its level is 0 when no literal is in two.
\<close>

definition quotient_by :: "u32 set \<Rightarrow> u32 \<Rightarrow> u32 set" where
  "quotient_by C c = (\<lambda>u. Kit_CubeSharp u c) ` {u \<in> C. lits c \<subseteq> lits u}"

definition cube_free :: "u32 set \<Rightarrow> bool" where
  "cube_free D \<longleftrightarrow> (\<forall>i. \<exists>d\<in>D. i \<notin> lits d)"

lemma quotient_by_union:
  assumes "quotient_by (quotient_by C a) b \<noteq> {}"
  shows "quotient_by (quotient_by C a) b = quotient_by C (a OR b)"
proof -
  have sharp: "Kit_CubeSharp (Kit_CubeSharp u a) b = Kit_CubeSharp u (a OR b)" for u
    by (auto simp flip: lits_inject)
  obtain v where "lits b \<subseteq> lits v - lits a" using assms by (auto simp: quotient_by_def)
  then have "lits b \<subseteq> lits (Kit_CubeSharp u a) \<longleftrightarrow> lits b \<subseteq> lits u" for u by auto
  then have "lits a \<subseteq> lits u \<and> lits b \<subseteq> lits (Kit_CubeSharp u a) \<longleftrightarrow> lits (a OR b) \<subseteq> lits u" for u by auto
  then have "{u \<in> C. lits (a OR b) \<subseteq> lits u} = {u \<in> C. lits a \<subseteq> lits u \<and> lits b \<subseteq> lits (Kit_CubeSharp u a)}" by blast
  then show ?thesis by (auto simp: quotient_by_def simp flip: sharp)
qed

lemma quotient_by_literal:
  assumes "sop_ok C" "i < 32"
  shows "set (Kit_SopDivideByLiteralQuo C i) = quotient_by (set C) (Kit_CubeSetLit 0 i)"
proof -
  have "Kit_CubeRemLit u i = Kit_CubeSharp u (Kit_CubeSetLit 0 i)" for u using assms(2) by (simp flip: lits_inject)
  then show ?thesis using assms
    by (auto simp: Kit_SopDivideByLiteralQuo_def sop_ok_cubes Kit_CubeHasLit_lits quotient_by_def)
qed

lemma quotient_by_common:
  assumes "divisor_ok C"
  shows "set (Kit_SopMakeCubeFree C) = quotient_by (set C) (Kit_SopCommonCube C)" "cube_free (set (Kit_SopMakeCubeFree C))"
proof -
  note map = Kit_SopMakeCubeFree_map [OF divisor_ok_zero [OF assms]]
  have C: "sop_cubes C = C" "C \<noteq> []" using assms sop_ok_cubes by (auto simp: divisor_ok_def)
  then show "set (Kit_SopMakeCubeFree C) = quotient_by (set C) (Kit_SopCommonCube C)"
    using Kit_SopCommonCube_sub [of _ C] by (auto simp: map quotient_by_def)
  have "\<exists>u\<in>set C. i \<notin> lits (Kit_CubeSharp u (Kit_SopCommonCube C))" for i
    using C lits_less by (cases "i \<in> lits (Kit_SopCommonCube C)") (auto simp: lits_Kit_SopCommonCube dest: last_in_set)
  then show "cube_free (set (Kit_SopMakeCubeFree C))" by (auto simp: cube_free_def map)
qed

lemma Kit_SopDivisorZeroKernel_rec_quotient:
  assumes "divisor_ok C"
  shows "\<exists>c. set (Kit_SopDivisorZeroKernel_rec C n) = quotient_by (set C) c \<and>
    ((\<exists>i<n. 2 \<le> lit_count C i) \<longrightarrow> c \<noteq> 0 \<and> cube_free (set (Kit_SopDivisorZeroKernel_rec C n)))"
  using assms
proof (induction C n rule: Kit_SopDivisorZeroKernel_rec.induct)
  case (1 C n)
  have C: "sop_ok C" "length C < 1000000" using "1.prems" by (auto simp: divisor_ok_def sop_ok_def)
  show ?case
  proof (cases "Kit_SopWorstLiteral C n = -1")
    case True
    have "Kit_CubeSharp u 0 = u" for u by (simp add: Kit_CubeSharp_def)
    then have "set C = quotient_by (set C) 0" by (simp add: quotient_by_def)
    moreover have "\<not> (\<exists>i<n. 2 \<le> lit_count C i)" using Kit_SopWorstLiteral_cases [of C n] C(2) True by auto
    moreover have "Kit_SopDivisorZeroKernel_rec C n = C" using True by (simp add: Kit_SopDivisorZeroKernel_rec.simps Let_def)
    ultimately show ?thesis by auto
  next
    case False
    then obtain i where i: "i < n" "Kit_SopWorstLiteral C n = int i" "2 \<le> lit_count C i"
      using Kit_SopWorstLiteral_cases [of C n] by auto
    let ?Q = "Kit_SopDivideByLiteralQuo C i"
    let ?K = "Kit_SopMakeCubeFree ?Q"
    define a where "a = Kit_CubeSetLit 0 i" define b where "b = Kit_SopCommonCube ?Q"
    note Q = Kit_SopDivideByLiteralQuo_kernel [OF C(1) i(3)]
    note K = Kit_SopMakeCubeFree_kernel [OF Q(1)] quotient_by_common [OF Q(1), folded b_def]
    have rec: "Kit_SopDivisorZeroKernel_rec C n = Kit_SopDivisorZeroKernel_rec ?K n"
      using False i(2) by (subst Kit_SopDivisorZeroKernel_rec.simps) (simp add: Let_def)
    have ne: "divisor_ok D \<Longrightarrow> set D \<noteq> {}" for D by (auto simp: divisor_ok_def)
    have set_K: "set ?K = quotient_by (set C) (a OR b)"
      using quotient_by_union [of "set C" a b] ne [OF K(1)] K(4) quotient_by_literal [OF C(1) Q(3), folded a_def] by simp
    obtain c where c: "set (Kit_SopDivisorZeroKernel_rec ?K n) = quotient_by (set ?K) c"
        "(\<exists>i<n. 2 \<le> lit_count ?K i) \<longrightarrow> cube_free (set (Kit_SopDivisorZeroKernel_rec ?K n))"
      using "1.IH" [OF refl] False i(2) K(1) by auto
    have ker: "divisor_ok (Kit_SopDivisorZeroKernel_rec ?K n)" using Kit_SopDivisorZeroKernel_rec_kernel [OF K(1)] by blast
    have "set (Kit_SopDivisorZeroKernel_rec C n) = quotient_by (set C) ((a OR b) OR c)"
      using quotient_by_union [of "set C" "a OR b" c] ne [OF ker] c(1) set_K rec by simp
    moreover have "lits a \<noteq> {}" using Q(3) by (simp add: a_def)
    then have "(a OR b) OR c \<noteq> 0" by (metis Un_empty lits_empty lits_ops(2))
    moreover have "cube_free (set (Kit_SopDivisorZeroKernel_rec C n))"
    proof (cases "\<exists>i<n. 2 \<le> lit_count ?K i")
      case False
      have len: "length ?K < 1000000" using K(1) by (simp add: divisor_ok_def sop_ok_def)
      have "Kit_SopWorstLiteral ?K n = -1" using Kit_SopWorstLiteral_cases [of ?K n] False len by auto
      then have "Kit_SopDivisorZeroKernel_rec ?K n = ?K" by (simp add: Kit_SopDivisorZeroKernel_rec.simps [of ?K] Let_def)
      then show ?thesis using K(5) rec by simp
    qed (use c(2) rec in simp)
    ultimately show ?thesis by blast
  qed
qed

lemma Kit_SopDivisor_spec:
  assumes C: "sop_ok C"
  shows "res_ok (lacks st (length C)) (Kit_SopDivisor C n st) (\<lambda>(r, st'). within st (length C) st' \<and> (case r of
      None \<Rightarrow> length C \<le> 1 \<or> (\<forall>i<n. lit_count C i < 2)
    | Some D \<Rightarrow> divisor_ok D \<and> length D \<le> length C \<and> (\<exists>c. divides_out C D c \<and> c \<noteq> 0)))"
proof (cases "length C \<le> 1 \<or> Kit_SopAnyLiteral C n = -1")
  case True
  then show ?thesis by (auto simp: Kit_SopDivisor_def Kit_SopAnyLiteral_iff)
next
  case False
  then have K: "divisor_ok C" using C by (auto simp: divisor_ok_def)
  have ex: "\<exists>i<n. 2 \<le> lit_count C i" using False by (auto simp: Kit_SopAnyLiteral_iff not_less)
  let ?D = "Kit_SopDivisorZeroKernel_rec C n"
  have D: "divisor_ok ?D" "length ?D \<le> length C" "\<exists>c. divides_out C ?D c \<and> c \<noteq> 0"
    using Kit_SopDivisorZeroKernel_rec_kernel [OF K, of n] ex by blast+
  then have "0 < length ?D" by (auto simp: divisor_ok_def)
  then have "Kit_SopDivisor C n st = res_bind (sop_alloc st (length C)) (\<lambda>st. Inr (Some ?D, st))"
    using False by (cases "sop_alloc st (length C)")
      (simp_all add: Kit_SopDivisor_def Kit_SopDup_def sop_ok_cubes [OF C] Let_def)
  then show ?thesis using D by (auto intro!: res_ok_alloc)
qed

section \<open>What a division means\<close>

lemma cube_val_or: "cube_val f (q OR d) \<longleftrightarrow> cube_val f q \<and> cube_val f d"
  by (auto simp: cube_val_def)

text \<open>The cover is the product of divisor and quotient, plus the remainder.\<close>

lemma division_val:
  assumes "division C D Q R"
  shows "cover_val f C \<longleftrightarrow> cover_val f Q \<and> cover_val f D \<or> cover_val f R"
proof -
  have "set C = products Q D \<union> set R" using assms by (auto simp: division_def)
  moreover have "(\<exists>u \<in> products Q D. cube_val f u) \<longleftrightarrow> cover_val f Q \<and> cover_val f D"
  proof
    assume "\<exists>u \<in> products Q D. cube_val f u"
    then show "cover_val f Q \<and> cover_val f D" by (auto simp: products_def cover_val_def cube_val_or)
  next
    assume "cover_val f Q \<and> cover_val f D"
    then obtain q d where "q \<in> set Q" "cube_val f q" "d \<in> set D" "cube_val f d" by (auto simp: cover_val_def)
    then have "q OR d \<in> products Q D" "cube_val f (q OR d)" by (auto simp: cube_val_or intro: productsI)
    then show "\<exists>u \<in> products Q D. cube_val f u" by blast
  qed
  ultimately show ?thesis by (auto simp: cover_val_def)
qed

lemma weight_set: "distinct cs \<Longrightarrow> weight cs = (\<Sum>u \<in> set cs. card (lits u))"
  by (simp add: weight_def sum_list_distinct_conv_sum_set)

lemma division_weight:
  assumes C: "distinct C" and D: "antichain D" and dv: "division C D Q R"
  shows "weight C = length D * weight Q + length Q * weight D + weight R"
proof -
  have Q: "distinct Q" "disjoint_covers Q D" using dv by (auto simp: division_def)
  have D': "distinct D" using D by (simp add: antichain_def)
  have R: "distinct R" "set R = set C - products Q D" using dv C by (auto simp: division_def)
  have P: "products Q D = (\<lambda>(q, d). q OR d) ` (set Q \<times> set D)" by (auto simp: products_def)
  have inj: "inj_on (\<lambda>(q, d). q OR d) (set Q \<times> set D)"
  proof (rule inj_onI)
    fix x y assume xy: "x \<in> set Q \<times> set D" "y \<in> set Q \<times> set D" "(\<lambda>(q, d). q OR d) x = (\<lambda>(q, d). q OR d) y"
    then show "x = y"
      using prod_unique [OF D, of "snd x" "snd y" "fst x" "fst y"] Q by (auto simp: disjoint_covers_def)
  qed
  have "(\<Sum>u \<in> products Q D. card (lits u)) = (\<Sum>(q, d) \<in> set Q \<times> set D. card (lits (q OR d)))"
    unfolding P by (subst sum.reindex [OF inj]) (simp add: case_prod_unfold)
  also have "\<dots> = (\<Sum>(q, d) \<in> set Q \<times> set D. card (lits q) + card (lits d))"
    using Q by (intro sum.cong) (auto simp: disjoint_covers_def card_Un_disjoint)
  also have "\<dots> = (\<Sum>q \<in> set Q. \<Sum>d \<in> set D. card (lits q) + card (lits d))"
    by (simp add: sum.cartesian_product)
  also have "\<dots> = length D * weight Q + length Q * weight D"
    using Q D' by (simp add: sum.distrib sum_distrib_left weight_set distinct_card)
  finally have prods: "(\<Sum>u \<in> products Q D. card (lits u)) = length D * weight Q + length Q * weight D" .
  have "weight C = (\<Sum>u \<in> products Q D. card (lits u)) + (\<Sum>u \<in> set C - products Q D. card (lits u))"
    using sum.subset_diff [of "products Q D" "set C" "\<lambda>u. card (lits u)"] dv C
    by (simp add: weight_set division_def add.commute)
  then show ?thesis using prods R by (simp add: weight_set)
qed

lemma division_antichain:
  assumes C: "sop_ok C" and D: "antichain D" "D \<noteq> []" and dv: "division C D Q R"
  shows "antichain Q" "antichain R" "R \<noteq> [] \<Longrightarrow> sop_ok R" "length Q \<le> length C"
    "\<And>u. u \<in> set Q \<Longrightarrow> \<not> bit u 31"
proof -
  have C': "antichain C" "distinct C" using C by (auto simp: sop_ok_def antichain_def)
  obtain d where d: "d \<in> set D" using D(2) by (meson last_in_set)
  have Q: "lits q \<inter> lits d = {}" "q OR d \<in> set C" if "q \<in> set Q" for q
    using dv d that productsI [OF that d] by (auto simp: division_def disjoint_covers_def)
  show "antichain Q"
    unfolding antichain_def
  proof (intro conjI ballI impI)
    show "distinct Q" using dv by (simp add: division_def)
    fix u w assume uw: "u \<in> set Q" "w \<in> set Q" "lits u \<subseteq> lits w"
    then have "lits (u OR d) \<subseteq> lits (w OR d)" by auto
    then have "u OR d = w OR d" using antichainD [OF C'(1)] Q(2) uw by blast
    then have "lits u \<union> lits d = lits w \<union> lits d" by (metis lits_ops(2))
    then have "lits u = lits w" using Q(1) [OF uw(1)] Q(1) [OF uw(2)] by blast
    then show "u = w" by simp
  qed
  show R: "antichain R" using dv C' by (auto simp: division_def antichain_def)
  have "length R \<le> length C" "set R \<subseteq> set C" using dv by (auto simp: division_def)
  then show "sop_ok R" if "R \<noteq> []" using that R C by (auto simp: sop_ok_def)
  obtain d' D' where "D = d' # D'" using D(2) by (cases D) auto
  then show "length Q \<le> length C" using division_length [OF C'(2) D(1) dv] by simp
  show "\<not> bit u 31" if "u \<in> set Q" for u
    using Q(2) [OF that] C by (auto simp: sop_ok_def bit_or_iff)
qed

section \<open>The change of literal encoding\<close>

definition isop_lit :: "nat \<Rightarrow> nat \<Rightarrow> bool" where
  "isop_lit m i \<longleftrightarrow> bit m (i div 2) = odd i"

definition sop_lit :: "nat \<Rightarrow> nat \<Rightarrow> bool" where
  "sop_lit m i \<longleftrightarrow> bit m (i div 2) = even i"

lemma isop_cube_val: "isop_cube u m \<longleftrightarrow> cube_val (isop_lit m) u"
proof
  assume a: "isop_cube u m"
  show "cube_val (isop_lit m) u"
    unfolding cube_val_def
  proof
    fix i assume i: "i \<in> lits u"
    then have "i < 32" using lits_less by blast
    then have v: "i div 2 < 16" by simp
    have "i = 2 * (i div 2) \<or> i = 2 * (i div 2) + 1" by presburger
    then show "isop_lit m i"
      using a v i unfolding isop_cube_def isop_lit_def lits_def
      by (metis even_mult_iff even_plus_one_iff even_numeral mem_Collect_eq)
  qed
qed (auto simp: isop_cube_def cube_val_def isop_lit_def lits_def)

definition partner :: "nat \<Rightarrow> nat" where
  "partner i = (if even i then Suc i else i - 1)"

lemma partner_simps [simp]: "partner (partner i) = i" "partner i div 2 = i div 2"
  by (auto simp: partner_def elim: oddE)

lemma lits_inverse_cube:
  assumes "\<And>i. i \<in> lits u \<Longrightarrow> partner i \<notin> lits u"
  shows "i \<in> lits (inverse_cube u) \<longleftrightarrow> partner i \<in> lits u"
proof -
  have low: "bit (0x55555555 :: u32) i \<longleftrightarrow> i < 32 \<and> even i" for i
    using low_masks_bit [of 0 i] by (simp add: low_masks_def bit_0)
  define w where "w = (u OR drop_bit 1 u) AND 0x55555555"
  have w: "bit w i \<longleftrightarrow> even i \<and> (bit u i \<or> bit u (Suc i))" for i
    using bit_less_32 [of u i] bit_less_32 [of u "Suc i"]
    unfolding w_def bit_and_iff low by (auto simp: bit_or_iff bit_drop_bit_eq)
  have "bit (push_bit 1 w) i \<longleftrightarrow> 1 \<le> i \<and> i < 32 \<and> bit w (i - 1)"
    unfolding bit_push_bit_iff possible_bit_word by auto
  then have "bit (inverse_cube u) i \<longleftrightarrow> bit u i \<noteq> (bit w i \<or> 1 \<le> i \<and> i < 32 \<and> bit w (i - 1))"
    by (simp only: inverse_cube_def Let_def bit_xor_iff bit_or_iff flip: w_def)
  moreover have "i < 32" if "odd i" "i - 1 < 32" using that by presburger
  ultimately have "bit (inverse_cube u) i \<longleftrightarrow> bit u i \<noteq> (bit u i \<or> bit u (partner i))"
    using bit_less_32 [of u i] bit_less_32 [of u "Suc i"] bit_less_32 [of u "i - 1"]
    by (cases "even i") (auto simp: w partner_def elim!: oddE)
  then show ?thesis
    using assms [of i] bit_less_32 [of u i] bit_less_32 [of u "partner i"]
    by (auto simp: lits_def partner_def)
qed

text \<open>The cubes of an irredundant cover have no variable in both phases.\<close>

definition sat_cube :: "u32 \<Rightarrow> bool" where
  "sat_cube u \<longleftrightarrow> (\<forall>i \<in> lits u. partner i \<notin> lits u)"

lemma lits_inverse_sat: "sat_cube u \<Longrightarrow> lits (inverse_cube u) = partner ` lits u"
proof (rule set_eqI)
  fix i assume "sat_cube u"
  then have "i \<in> lits (inverse_cube u) \<longleftrightarrow> partner i \<in> lits u"
    by (intro lits_inverse_cube) (simp add: sat_cube_def)
  then show "i \<in> lits (inverse_cube u) \<longleftrightarrow> i \<in> partner ` lits u"
    by (metis imageE image_eqI partner_simps(1))
qed

lemma inj_partner: "inj partner"
  by (metis injI partner_simps(1))

lemma sop_lit_partner: "sop_lit m (partner i) \<longleftrightarrow> isop_lit m i"
  unfolding sop_lit_def isop_lit_def partner_simps by (auto simp: partner_def)

lemma sop_cube_inverse: "sat_cube u \<Longrightarrow> cube_val (sop_lit m) (inverse_cube u) \<longleftrightarrow> isop_cube u m"
  by (simp add: isop_cube_val cube_val_def lits_inverse_sat sop_lit_partner)

lemma sat_cubeI: "isop_cube u m \<Longrightarrow> sat_cube u"
proof -
  have "isop_lit m (partner i) \<longleftrightarrow> \<not> isop_lit m i" for i
    unfolding isop_lit_def partner_simps by (auto simp: partner_def)
  then show "isop_cube u m \<Longrightarrow> sat_cube u" by (auto simp: isop_cube_val cube_val_def sat_cube_def)
qed

lemma isop_of_ok: "isop_of n f cs \<Longrightarrow> isop_ok n f f f \<lparr>nLits = (\<Sum>u \<leftarrow> cs. ones u), pCubes = cs\<rparr>"
  by (simp add: isop_of_def isop_ok_def)

lemma isop_of_facts:
  assumes "isop_of n f cs"
  shows "distinct cs" "length cs \<le> 2 ^ n" "\<And>u. u \<in> set cs \<Longrightarrow> sat_cube u" "antichain cs"
proof -
  note ok = isop_of_ok [OF assms]
  show dist: "distinct cs" using isop_ok_distinct [OF ok] by simp
  show "length cs \<le> 2 ^ n" using isop_ok_cubes_le [OF ok] by (simp add: nCubes_def)
  have needed: "\<exists>m. filter (\<lambda>w. isop_cube w m) cs = [u]" if "u \<in> set cs" for u
    using assms that by (auto simp: isop_of_def)
  have only: "w \<in> set cs \<and> isop_cube w m \<longleftrightarrow> w = u" if "filter (\<lambda>w. isop_cube w m) cs = [u]" for u w m
    using arg_cong [OF that, of set] by auto
  show "sat_cube u" if "u \<in> set cs" for u using needed [OF that] only sat_cubeI by metis
  have "u = w" if uw: "u \<in> set cs" "w \<in> set cs" "lits u \<subseteq> lits w" for u w
  proof -
    obtain m where m: "filter (\<lambda>w. isop_cube w m) cs = [w]" using needed [OF uw(2)] by blast
    then have "isop_cube w m" using only by blast
    then have "isop_cube u m" using uw(3) by (auto simp: isop_cube_val cube_val_def)
    then show ?thesis using only [OF m] uw(1) by blast
  qed
  then show "antichain cs" using dist by (simp add: antichain_def)
qed

text \<open>A nontrivial irredundant cover of fewer than 16 variables becomes a cover fit for factoring.\<close>

lemma inverse_cover_ok:
  assumes cs: "isop_of n f cs" "n < 16" "cs \<noteq> []" "cs \<noteq> [0]"
  shows "sop_ok (map inverse_cube cs)"
    and "\<And>u. u \<in> set (map inverse_cube cs) \<Longrightarrow> lits u \<subseteq> {..<2 * n}"
    and "cover_val (sop_lit m) (map inverse_cube cs) = f m"
proof -
  note facts = isop_of_facts [OF cs(1)]
  note inv = lits_inverse_sat [OF facts(3)]
  have low: "partner i < 2 * n" if "u \<in> set cs" "i \<in> lits u" for u i
  proof -
    have "i < 2 * n" using cs(1) that by (auto simp: isop_of_def cubes_below_def lits_def)
    then show ?thesis by (auto simp: partner_def elim!: evenE)
  qed
  then show lits: "lits u \<subseteq> {..<2 * n}" if "u \<in> set (map inverse_cube cs)" for u
    using that inv by auto
  have nz: "u \<noteq> 0" if u: "u \<in> set cs" for u
  proof
    assume "u = 0"
    then have "set cs \<subseteq> {0}" using antichainD [OF facts(4) u] by auto
    then show False using cs(3,4) facts(1) by (cases cs; cases "tl cs") auto
  qed
  have sub: "lits (inverse_cube u) \<subseteq> lits (inverse_cube w) \<longleftrightarrow> lits u \<subseteq> lits w"
    if "u \<in> set cs" "w \<in> set cs" for u w
    using that by (simp add: inv inj_image_subset_iff [OF inj_partner])
  have inj: "inj_on inverse_cube (set cs)"
    by (intro inj_onI) (metis sub subset_antisym subset_refl lits_inject)
  have "inverse_cube u = inverse_cube w"
    if "u \<in> set cs" "w \<in> set cs" "lits (inverse_cube u) \<subseteq> lits (inverse_cube w)" for u w
    using antichainD [OF facts(4) that(1,2)] that(3) sub [OF that(1,2)] by simp
  then have "\<forall>u \<in> set cs. \<forall>w \<in> set cs. lits (inverse_cube u) \<subseteq> lits (inverse_cube w) \<longrightarrow> inverse_cube u = inverse_cube w"
    by blast
  then have "antichain (map inverse_cube cs)"
    using facts(1) inj by (simp add: antichain_def distinct_map)
  moreover have "u \<noteq> 0 \<and> \<not> bit u 31" if mem: "u \<in> set (map inverse_cube cs)" for u
  proof -
    obtain w where w: "w \<in> set cs" "u = inverse_cube w" using mem by auto
    have "lits u \<noteq> {}" using inv [OF w(1)] nz [OF w(1)] w(2) by simp
    moreover have "31 \<notin> lits u" using lits [OF mem] cs(2) by auto
    ultimately show ?thesis by (auto simp: lits_def)
  qed
  moreover have "(2::nat) ^ n \<le> 2 ^ 15" using cs(2) by (intro power_increasing) simp_all
  ultimately show "sop_ok (map inverse_cube cs)"
    using cs(3) facts(2) by (auto simp: sop_ok_def)
  have "isop_cover cs m = f m" using cs(1) by (simp add: isop_of_def)
  then show "cover_val (sop_lit m) (map inverse_cube cs) = f m"
    by (auto simp: cover_val_def isop_cover_def sop_cube_inverse facts(3))
qed

section \<open>Properties\<close>

text \<open>
  C17. Division by a cover: with memory for twice the cover it returns, the dividend is restored
  (all marks are taken off), quotient times divisor plus remainder is the dividend as a set of
  cubes, and the quotient is complete: it has every cube whose products with all divisor cubes are
  in the dividend.
\<close>

theorem Kit_SopDivideInternal_correct:
  assumes "sop_ok C" "antichain D" "0 \<notin> set D" "D \<noteq> []" "length D \<le> length C"
    and "nSize st + 2 * length C \<le> nCap st"
  shows "\<exists>Q R st'. Kit_SopDivideInternal C D st = Inr (C, Q, R, st') \<and>
    set C = {q OR d | q d. q \<in> set Q \<and> d \<in> set D} \<union> set R \<and>
    length C = length Q * length D + length R \<and>
    set Q = {c. \<forall>d \<in> set D. lits c \<inter> lits d = {} \<and> c OR d \<in> set C}"
proof -
  obtain Q R st' where r: "Kit_SopDivideInternal C D st = Inr (C, Q, R, st')" and dv: "division C D Q R"
    using res_ok_returns [OF Kit_SopDivideInternal_division [OF assms(1-5), of st]] assms(6) by (auto simp: lacks_def)
  have "distinct C" using assms(1) by (simp add: sop_ok_def antichain_def)
  then have len: "length C = length Q * length D + length R" by (rule division_length [OF _ assms(2) dv])
  have "set C = products Q D \<union> set R" using dv by (auto simp: division_def)
  moreover have "divides_out C D c \<longleftrightarrow> c \<in> set Q" for c
    using dv productsI [of c Q _ D] by (auto simp: division_def divides_out_def disjoint_covers_def)
  ultimately show ?thesis using r len by (auto simp: products_def divides_out_def)
qed

theorem Kit_SopDivideInternal_correct_witness:
  "\<exists>Q R st'. Kit_SopDivideInternal [0x5, 0x9, 0x30] [0x4, 0x8] \<lparr>nCap = 10, nSize = 0\<rparr> = Inr ([0x5, 0x9, 0x30], Q, R, st') \<and>
    length Q * 2 + length R = 3"
proof -
  have low: "bit (numeral k :: u32) 31 \<longleftrightarrow> odd (drop_bit 31 (numeral k :: u32))" for k
    by (simp add: bit_iff_odd_drop_bit)
  have C: "sop_ok [0x5, 0x9, 0x30]" and D: "antichain [0x4, 0x8]"
    by (simp_all add: sop_ok_def antichain_def low flip: Kit_CubeContains_lits) (simp_all add: Kit_CubeContains_def)
  show ?thesis using Kit_SopDivideInternal_correct [OF C D, of "\<lparr>nCap = 10, nSize = 0\<rparr>"] by auto
qed

text \<open>
  C20. The quick divisor is a kernel of level 0 of the cover: all cubes of the quotient by a cube other than
  1, at least two, none containing another, with no literal in all of them, and none of the given literals
  in two of them. There is no divisor exactly when the cover has at most one cube or no literal occurs twice.
\<close>

theorem Kit_SopDivisor_correct:
  assumes "sop_ok C" "nSize st + length C \<le> nCap st"
  shows "if length C \<le> 1 \<or> (\<forall>i\<in>{..<n}. lit_count C i < 2) then Kit_SopDivisor C n st = Inr (None, st)
    else \<exists>D c st'. Kit_SopDivisor C n st = Inr (Some D, st') \<and> c \<noteq> 0 \<and> set D = quotient_by (set C) c \<and>
      antichain D \<and> 2 \<le> length D \<and> cube_free (set D) \<and> (\<forall>i\<in>{..<n}. lit_count D i < 2)"
proof (cases "length C \<le> 1 \<or> (\<forall>i\<in>{..<n}. lit_count C i < 2)")
  case True
  then show ?thesis by (auto simp: Kit_SopDivisor_def Kit_SopAnyLiteral_iff)
next
  case False
  then have K: "divisor_ok C" and ex: "\<exists>i<n. 2 \<le> lit_count C i" and any: "Kit_SopAnyLiteral C n \<noteq> -1"
    using assms(1) by (auto simp: divisor_ok_def Kit_SopAnyLiteral_iff not_less)
  let ?D = "Kit_SopDivisorZeroKernel_rec C n"
  obtain st' where st': "sop_alloc st (length C) = Inr st'"
    using assms(2) by (cases "C = []") (simp_all add: sop_alloc_def Vec_IntFetch_def Let_def)
  have D: "divisor_ok ?D" "\<forall>i\<in>{..<n}. lit_count ?D i < 2" using Kit_SopDivisorZeroKernel_rec_kernel [OF K, of n] by auto
  then have D': "antichain ?D" "2 \<le> length ?D" by (simp_all add: divisor_ok_def sop_ok_def)
  have "Kit_SopDivisor C n st = Inr (Some ?D, st')"
    using False any st' D' by (auto simp: Kit_SopDivisor_def Kit_SopDup_def sop_ok_cubes [OF assms(1)] Let_def)
  then show ?thesis using False Kit_SopDivisorZeroKernel_rec_quotient [OF K, of n] ex D(2) D' by auto
qed

theorem Kit_SopDivisor_correct_witness:
  "\<exists>D c st'. Kit_SopDivisor [0x5, 0x9] 4 \<lparr>nCap = 10, nSize = 0\<rparr> = Inr (Some D, st') \<and> set D = quotient_by {0x5, 0x9} c \<and> cube_free (set D)"
proof -
  have ok: "sop_ok [0x5, 0x9]"
    by (simp add: sop_ok_def antichain_def bit_iff_odd_drop_bit flip: Kit_CubeContains_lits) (simp add: Kit_CubeContains_def)
  have "lit_count [0x5, 0x9] 0 = 2" by code_simp
  then have two: "\<not> (length [0x5, 0x9 :: u32] \<le> 1 \<or> (\<forall>i\<in>{..<4}. lit_count [0x5, 0x9] i < 2))"
    by (auto intro!: bexI [of _ 0])
  show ?thesis using Kit_SopDivisor_correct [OF ok, of "\<lparr>nCap = 10, nSize = 0\<rparr>" 4] unfolding if_not_P [OF two] by auto
qed

text \<open>The recursion to a kernel ends in a cover in which no literal is left in two cubes.\<close>

theorem Kit_SopDivisorZeroKernel_level0:
  assumes "divisor_ok C"
  shows "divisor_ok (Kit_SopDivisorZeroKernel_rec C n) \<and> length (Kit_SopDivisorZeroKernel_rec C n) \<le> length C \<and>
    (\<forall>i<n. lit_count (Kit_SopDivisorZeroKernel_rec C n) i < 2)"
  using Kit_SopDivisorZeroKernel_rec_kernel [OF assms] by blast

theorem Kit_SopDivisorZeroKernel_level0_witness:
  "lit_count (Kit_SopDivisorZeroKernel_rec [0x5, 0x9] 4) 0 < 2"
proof -
  have "divisor_ok [0x5, 0x9]"
    by (simp add: divisor_ok_def sop_ok_def antichain_def bit_iff_odd_drop_bit flip: Kit_CubeContains_lits)
       (simp add: Kit_CubeContains_def)
  then show ?thesis using Kit_SopDivisorZeroKernel_level0 [of "[0x5, 0x9]" 4] by simp
qed

text \<open>
  The least and the most frequent literal are chosen among those that occur in at least two
  cubes; -1 means that there is none.
\<close>

theorem Kit_Sop_literal_choice:
  assumes "length C < 1000000"
  shows "(if \<exists>i<n. 2 \<le> lit_count C i
      then \<exists>i<n. Kit_SopWorstLiteral C n = int i \<and> 2 \<le> lit_count C i \<and> (\<forall>j<n. 2 \<le> lit_count C j \<longrightarrow> lit_count C i \<le> lit_count C j)
      else Kit_SopWorstLiteral C n = -1) \<and>
    (if \<exists>i<n. Kit_CubeHasLit u i \<and> 2 \<le> lit_count C i
      then \<exists>i<n. Kit_SopBestLiteral C n u = int i \<and> Kit_CubeHasLit u i \<and>
        (\<forall>j<n. Kit_CubeHasLit u j \<longrightarrow> lit_count C j \<le> lit_count C i)
      else Kit_SopBestLiteral C n u = -1)"
  using Kit_SopWorstLiteral_cases [of C n] Kit_SopBestLiteral_cases [of C n u] assms
  by (auto simp: not_le [symmetric])

theorem Kit_Sop_literal_choice_witness: "\<exists>i<4. Kit_SopWorstLiteral [0x5, 0x9] 4 = int i"
proof -
  have "2 \<le> lit_count [0x5, 0x9] 0" by code_simp
  then show ?thesis using Kit_Sop_literal_choice [of "[0x5, 0x9]" 4 0] by (auto split: if_splits)
qed

text \<open>
  C32. A nontrivial irredundant cover of fewer than 16 variables is turned into a cover fit for
  factoring that has the same value at every minterm, positive literals now being even.
\<close>

theorem Kit_SopCreateInverse_correct:
  assumes "isop_of n f cs" "n < 16" "cs \<noteq> []" "cs \<noteq> [0]" "nSize st + length cs \<le> nCap st"
  shows "\<exists>C st'. Kit_SopCreateInverse cs st = Inr (C, st') \<and> sop_ok C \<and>
    (\<forall>u \<in> set C. lits u \<subseteq> {..<2 * n}) \<and> (\<forall>m. cover_val (sop_lit m) C = f m)"
proof -
  have "\<exists>st'. sop_alloc st (length cs) = Inr st'"
    using assms(3,5) by (simp add: sop_alloc_def Vec_IntFetch_def Let_def)
  then show ?thesis
    using inverse_cover_ok [OF assms(1-4)] by (auto simp: Kit_SopCreateInverse_def)
qed

theorem Kit_SopCreateInverse_correct_witness:
  "\<exists>C st'. Kit_SopCreateInverse [Kit_CubeSetLit 0 1] \<lparr>nCap = 1, nSize = 0\<rparr> = Inr (C, st') \<and> sop_ok C"
proof -
  let ?u = "Kit_CubeSetLit 0 1"
  have "isop_cube ?u m \<longleftrightarrow> bit m 0" for m by (auto simp: isop_cube_def)
  moreover have "\<exists>m :: nat. bit m 0" by (rule exI [of _ 1]) (simp add: bit_0)
  ultimately have "isop_of 1 (\<lambda>m. bit m 0) [?u]" by (auto simp: isop_of_def cubes_below_def)
  moreover have "?u \<noteq> 0" by (simp flip: lits_empty)
  ultimately show ?thesis using Kit_SopCreateInverse_correct [of 1 "\<lambda>m. bit m 0" "[?u]" "\<lparr>nCap = 1, nSize = 0\<rparr>"] by auto
qed

end
