(* ===== verification/Kit_Manager.thy ===== *)
theory Kit_Manager
  imports Main
begin

text \<open>
  The interface between the managers of two-input AND nodes and their clients. A manager holds nodes;
  an edge denotes a Boolean function of a valuation of the inputs. Both the factored graphs
  (\<open>Kit_Graph\<close>) and the hashed AIGs (\<open>Hop\<close>) provide it; the clients are the operations built from
  AND gates (OR, EXOR, MUX, majority), factoring, and the translation of graphs to AIGs.

  \<open>good\<close> is the invariant of the manager, \<open>room m k\<close> says that it can take \<open>k\<close> more nodes, \<open>valid\<close>
  that an edge points to a node, \<open>val\<close> is the function of an edge.
\<close>

text \<open>
  What one or more operations achieve that start from \<open>m\<close> and add at most \<open>k\<close> nodes: the edge
  returned denotes \<open>F\<close>, and the edges made before keep their meaning.
\<close>

definition made ::
  "('m \<Rightarrow> bool) \<Rightarrow> ('m \<Rightarrow> nat \<Rightarrow> bool) \<Rightarrow> ('m \<Rightarrow> 'e \<Rightarrow> bool) \<Rightarrow> ('v \<Rightarrow> 'm \<Rightarrow> 'e \<Rightarrow> bool) \<Rightarrow>
   nat \<Rightarrow> 'm \<Rightarrow> 'e \<times> 'm \<Rightarrow> ('v \<Rightarrow> bool) \<Rightarrow> bool" where
  "made good room valid val k m r F \<longleftrightarrow>
    good (snd r) \<and> (\<forall>j. room m (k + j) \<longrightarrow> room (snd r) j) \<and>
    valid (snd r) (fst r) \<and> (\<forall>f. val f (snd r) (fst r) = F f) \<and>
    (\<forall>a. valid m a \<longrightarrow> valid (snd r) a \<and> (\<forall>f. val f (snd r) a = val f m a))"

locale and_manager =
  fixes good :: "'m \<Rightarrow> bool"
    and room :: "'m \<Rightarrow> nat \<Rightarrow> bool"
    and valid :: "'m \<Rightarrow> 'e \<Rightarrow> bool"
    and val :: "'v \<Rightarrow> 'm \<Rightarrow> 'e \<Rightarrow> bool"
    and mk_and :: "'m \<Rightarrow> 'e \<Rightarrow> 'e \<Rightarrow> 'e \<times> 'm"
    and neg :: "'e \<Rightarrow> 'e"
  assumes mk_and_made: "good m \<Longrightarrow> room m 1 \<Longrightarrow> valid m a \<Longrightarrow> valid m b \<Longrightarrow>
      made good room valid val 1 m (mk_and m a b) (\<lambda>f. val f m a \<and> val f m b)"
    and valid_neg: "valid m (neg a) = valid m a"
    and val_neg: "valid m a \<Longrightarrow> val f m (neg a) = (\<not> val f m a)"
    and room_mono: "room m k \<Longrightarrow> j \<le> k \<Longrightarrow> room m j"
begin

abbreviation builds :: "nat \<Rightarrow> 'm \<Rightarrow> 'e \<times> 'm \<Rightarrow> ('v \<Rightarrow> bool) \<Rightarrow> bool" where
  "builds \<equiv> made good room valid val"

lemma buildsD:
  assumes "builds k m (e, m') F"
  shows "good m'" "room m (k + j) \<Longrightarrow> room m' j" "valid m' e" "val f m' e = F f"
    "valid m a \<Longrightarrow> valid m' a" "valid m a \<Longrightarrow> val f m' a = val f m a"
  using assms by (auto simp: made_def)

lemma builds_return: "good m \<Longrightarrow> valid m e \<Longrightarrow> (\<And>f. val f m e = F f) \<Longrightarrow> builds k m (e, m) F"
  by (auto simp: made_def intro: room_mono)

lemma builds_cong: "builds k m r F \<Longrightarrow> (\<And>f. F f = G f) \<Longrightarrow> builds k m r G"
  by (simp add: made_def)

lemma builds_mono: "builds j m r F \<Longrightarrow> j \<le> k \<Longrightarrow> builds k m r F"
  unfolding made_def using room_mono by (meson add_le_mono1)

lemma builds_neg: "builds k m (e, m') F \<Longrightarrow> builds k m (neg e, m') (\<lambda>f. \<not> F f)"
  by (auto simp: made_def valid_neg val_neg)

text \<open>One operation after another.\<close>

lemma builds_seq:
  assumes 1: "builds j m (e, m1) F" and 2: "builds k m1 r G" and k: "l = j + k"
  shows "builds l m r G"
proof -
  obtain e2 m2 where r: "r = (e2, m2)" by (cases r)
  note D1 = buildsD [OF 1] and D2 = buildsD [OF 2 [unfolded r]]
  have "room m2 i" if "room m (l + i)" for i
    using D1(2) [of "k + i"] D2(2) [of i] that by (simp add: k add.assoc)
  then show ?thesis
    using D1 D2 by (auto simp: made_def r)
qed

lemma builds_and:
  assumes "builds j m (e1, m1) F" "builds k m1 (e2, m2) G" "room m (j + k + 1)"
  shows "builds (j + k + 1) m (mk_and m2 e1 e2) (\<lambda>f. F f \<and> G f)"
proof -
  note D1 = buildsD [OF assms(1)] and D2 = buildsD [OF assms(2)]
  have "room m2 1" using D1(2) [of "k + 1"] D2(2) [of 1] assms(3) by (simp add: add.assoc)
  then have "builds 1 m2 (mk_and m2 e1 e2) (\<lambda>f. F f \<and> G f)"
    by (rule builds_cong [OF mk_and_made [OF D2(1) _ D2(5) [OF D1(3)] D2(3)]]) (simp add: D1 D2)
  then show ?thesis
    using builds_seq [OF builds_seq [OF assms(1,2) refl]] by blast
qed

text \<open>The OR of two edges by De Morgan.\<close>

lemma builds_or_by_and:
  assumes "good m" "room m 1" "valid m a" "valid m b" "mk_and m (neg a) (neg b) = (e, m')"
  shows "builds 1 m (neg e, m') (\<lambda>f. val f m a \<or> val f m b)"
proof -
  have "builds 1 m (e, m') (\<lambda>f. \<not> val f m a \<and> \<not> val f m b)"
    using mk_and_made [OF assms(1,2), of "neg a" "neg b"] assms(3-) by (simp add: valid_neg val_neg)
  then show ?thesis by (rule builds_cong [OF builds_neg]) auto
qed

end

locale and_or_manager = and_manager good room valid val mk_and neg
  for good :: "'m \<Rightarrow> bool" and room and valid :: "'m \<Rightarrow> 'e \<Rightarrow> bool"
    and val :: "'v \<Rightarrow> 'm \<Rightarrow> 'e \<Rightarrow> bool" and mk_and and neg +
  fixes mk_or :: "'m \<Rightarrow> 'e \<Rightarrow> 'e \<Rightarrow> 'e \<times> 'm"
  assumes mk_or_made: "good m \<Longrightarrow> room m 1 \<Longrightarrow> valid m a \<Longrightarrow> valid m b \<Longrightarrow>
      made good room valid val 1 m (mk_or m a b) (\<lambda>f. val f m a \<or> val f m b)"
begin

lemma builds_or:
  assumes "builds j m (e1, m1) F" "builds k m1 (e2, m2) G" "room m (j + k + 1)"
  shows "builds (j + k + 1) m (mk_or m2 e1 e2) (\<lambda>f. F f \<or> G f)"
proof -
  note D1 = buildsD [OF assms(1)] and D2 = buildsD [OF assms(2)]
  have "room m2 1" using D1(2) [of "k + 1"] D2(2) [of 1] assms(3) by (simp add: add.assoc)
  then have "builds 1 m2 (mk_or m2 e1 e2) (\<lambda>f. F f \<or> G f)"
    by (rule builds_cong [OF mk_or_made [OF D2(1) _ D2(5) [OF D1(3)] D2(3)]]) (simp add: D1 D2)
  then show ?thesis
    using builds_seq [OF builds_seq [OF assms(1,2) refl]] by blast
qed

text \<open>The OR of two ANDs, the shape of exclusive or and multiplexer.\<close>

lemma builds_and_or:
  assumes m: "good m" "room m 3" "valid m a" "valid m b" "valid m c" "valid m d"
    and r: "mk_and m a b = (e0, m1)" "mk_and m1 c d = (e1, m2)"
  shows "builds 3 m (mk_or m2 e0 e1) (\<lambda>f. val f m a \<and> val f m b \<or> val f m c \<and> val f m d)"
proof -
  have 1: "builds 1 m (e0, m1) (\<lambda>f. val f m a \<and> val f m b)"
    using mk_and_made [of m a b] m room_mono [OF m(2), of 1] by (simp add: r(1))
  note D = buildsD [OF 1]
  have "room m1 1" using D(2) [of 1] room_mono [OF m(2), of "1 + 1"] by simp
  then have "builds 1 m1 (e1, m2) (\<lambda>f. val f m1 c \<and> val f m1 d)"
    using mk_and_made [of m1 c d] D m by (simp add: r(2))
  then have 2: "builds 1 m1 (e1, m2) (\<lambda>f. val f m c \<and> val f m d)"
    by (rule builds_cong) (simp add: D(6) m)
  show ?thesis using builds_or [OF 1 2] m(2) by (simp add: numeral_3_eq_3)
qed

end

end
