(* ===== verification/Kit_Graph.thy ===== *)
theory Kit_Graph
  imports Kit_Support Kit_Isop Kit_Manager
begin

text \<open>
  Factored forms as graphs (\<open>src/abc-master/src/bool/kit/kitGraph.c\<close> and the graph part of
  \<open>kit.h\<close>): an array of nodes, the first \<open>nLeaves\<close> of them the inputs, the others AND nodes over
  edges to earlier nodes, and a root edge. An edge is a node number of 30 bits and a complement bit.

  The model keeps the nodes that are in use (\<open>nSize\<close> is the length of the list), the capacity of
  the array, and the fields of the nodes that the code of this directory reads; the pointer-sized
  field \<open>pFunc\<close> is a number. Growing the array keeps its contents.

  A graph meets the interface of \<open>Kit_Manager\<close> as long as its nodes can be numbered with 30 bits.
\<close>

section \<open>Edges, nodes and graphs\<close>

record Kit_Edge =
  fCompl :: bool
  Node :: nat

record Kit_Node =
  eEdge0 :: Kit_Edge
  eEdge1 :: Kit_Edge
  pFunc :: nat
  Level :: nat
  fNodeOr :: bool
  fCompl0 :: bool
  fCompl1 :: bool

record Kit_Graph =
  fConst :: bool
  nLeaves :: nat
  nCap_g :: nat
  pNodes :: "Kit_Node list"
  eRoot :: Kit_Edge

definition nSize_g :: "Kit_Graph \<Rightarrow> nat" where
  "nSize_g pGraph = length (pNodes pGraph)"

definition Kit_EdgeCreate :: "nat \<Rightarrow> bool \<Rightarrow> Kit_Edge" where
  "Kit_EdgeCreate node compl = \<lparr>fCompl = compl, Node = node mod 2 ^ 30\<rparr>"

definition Kit_EdgeToInt :: "Kit_Edge \<Rightarrow> u32" where
  "Kit_EdgeToInt eEdge = push_bit 1 (of_nat (Node eEdge)) OR of_bool (fCompl eEdge)"

definition Kit_IntToEdge :: "u32 \<Rightarrow> Kit_Edge" where
  "Kit_IntToEdge Edge = Kit_EdgeCreate (unat (drop_bit 1 Edge)) ((Edge AND 1) \<noteq> 0)"

definition Kit_GraphIsConst :: "Kit_Graph \<Rightarrow> bool" where
  "Kit_GraphIsConst pGraph = fConst pGraph"

definition Kit_GraphIsConst0 :: "Kit_Graph \<Rightarrow> bool" where
  "Kit_GraphIsConst0 pGraph \<longleftrightarrow> fConst pGraph \<and> fCompl (eRoot pGraph)"

definition Kit_GraphIsConst1 :: "Kit_Graph \<Rightarrow> bool" where
  "Kit_GraphIsConst1 pGraph \<longleftrightarrow> fConst pGraph \<and> \<not> fCompl (eRoot pGraph)"

definition Kit_GraphIsComplement :: "Kit_Graph \<Rightarrow> bool" where
  "Kit_GraphIsComplement pGraph = fCompl (eRoot pGraph)"

definition Kit_GraphIsVar :: "Kit_Graph \<Rightarrow> bool" where
  "Kit_GraphIsVar pGraph \<longleftrightarrow> Node (eRoot pGraph) < nLeaves pGraph"

definition Kit_GraphComplement :: "Kit_Graph \<Rightarrow> Kit_Graph" where
  "Kit_GraphComplement pGraph = pGraph\<lparr>eRoot := (eRoot pGraph)\<lparr>fCompl := \<not> fCompl (eRoot pGraph)\<rparr>\<rparr>"

definition Kit_GraphSetRoot :: "Kit_Graph \<Rightarrow> Kit_Edge \<Rightarrow> Kit_Graph" where
  "Kit_GraphSetRoot pGraph root = pGraph\<lparr>eRoot := root\<rparr>"

definition Kit_GraphLeaveNum :: "Kit_Graph \<Rightarrow> nat" where
  "Kit_GraphLeaveNum pGraph = nLeaves pGraph"

definition Kit_GraphNodeNum :: "Kit_Graph \<Rightarrow> nat" where
  "Kit_GraphNodeNum pGraph = nSize_g pGraph - nLeaves pGraph"

definition Kit_GraphVarInt :: "Kit_Graph \<Rightarrow> nat res" where
  "Kit_GraphVarInt pGraph = (if \<not> Kit_GraphIsVar pGraph then Inl AssertFailed else Inr (Node (eRoot pGraph)))"

definition Kit_GraphRootLevel :: "Kit_Graph \<Rightarrow> nat" where
  "Kit_GraphRootLevel pGraph = Level (pNodes pGraph ! Node (eRoot pGraph))"

text \<open>A node, an edge and a graph of zeros, as \<open>memset\<close> leaves them.\<close>

definition zero_edge :: Kit_Edge where
  "zero_edge = \<lparr>fCompl = False, Node = 0\<rparr>"

definition zero_node :: Kit_Node where
  "zero_node = \<lparr>eEdge0 = zero_edge, eEdge1 = zero_edge, pFunc = 0, Level = 0,
     fNodeOr = False, fCompl0 = False, fCompl1 = False\<rparr>"

section \<open>Construction\<close>

definition Kit_GraphCreate :: "nat \<Rightarrow> Kit_Graph" where
  "Kit_GraphCreate leaves =
     \<lparr>fConst = False, nLeaves = leaves, nCap_g = 2 * leaves + 50,
      pNodes = replicate leaves zero_node, eRoot = zero_edge\<rparr>"

definition Kit_GraphCreateConst0 :: Kit_Graph where
  "Kit_GraphCreateConst0 =
     \<lparr>fConst = True, nLeaves = 0, nCap_g = 0, pNodes = [], eRoot = zero_edge\<lparr>fCompl := True\<rparr>\<rparr>"

definition Kit_GraphCreateConst1 :: Kit_Graph where
  "Kit_GraphCreateConst1 = \<lparr>fConst = True, nLeaves = 0, nCap_g = 0, pNodes = [], eRoot = zero_edge\<rparr>"

definition Kit_GraphCreateLeaf :: "nat \<Rightarrow> nat \<Rightarrow> bool \<Rightarrow> Kit_Graph res" where
  "Kit_GraphCreateLeaf iLeaf leaves compl =
    (if \<not> iLeaf < leaves then Inl AssertFailed
     else Inr ((Kit_GraphCreate leaves)\<lparr>eRoot := Kit_EdgeCreate iLeaf compl\<rparr>))"

definition Kit_GraphAppendNode :: "Kit_Graph \<Rightarrow> Kit_Graph" where
  "Kit_GraphAppendNode pGraph =
    (let pGraph = (if nSize_g pGraph = nCap_g pGraph then pGraph\<lparr>nCap_g := 2 * nCap_g pGraph\<rparr> else pGraph)
     in pGraph\<lparr>pNodes := pNodes pGraph @ [zero_node]\<rparr>)"

text \<open>The new node is the last one of the array.\<close>

definition set_last :: "(Kit_Node \<Rightarrow> Kit_Node) \<Rightarrow> Kit_Graph \<Rightarrow> Kit_Graph" where
  "set_last upd pGraph =
     (let i = nSize_g pGraph - 1 in pGraph\<lparr>pNodes := (pNodes pGraph)[i := upd (pNodes pGraph ! i)]\<rparr>)"

definition Kit_GraphAddNodeAnd :: "Kit_Graph \<Rightarrow> Kit_Edge \<Rightarrow> Kit_Edge \<Rightarrow> Kit_Edge \<times> Kit_Graph" where
  "Kit_GraphAddNodeAnd pGraph edge0 edge1 =
    (let pGraph = Kit_GraphAppendNode pGraph;
         pGraph = set_last (\<lambda>pNode. pNode\<lparr>eEdge0 := edge0, eEdge1 := edge1,
           fCompl0 := fCompl edge0, fCompl1 := fCompl edge1\<rparr>) pGraph
     in (Kit_EdgeCreate (nSize_g pGraph - 1) False, pGraph))"

definition edge_flip :: "Kit_Edge \<Rightarrow> Kit_Edge" where
  "edge_flip eEdge = eEdge\<lparr>fCompl := \<not> fCompl eEdge\<rparr>"

definition Kit_GraphAddNodeOr :: "Kit_Graph \<Rightarrow> Kit_Edge \<Rightarrow> Kit_Edge \<Rightarrow> Kit_Edge \<times> Kit_Graph" where
  "Kit_GraphAddNodeOr pGraph edge0 edge1 =
    (let pGraph = Kit_GraphAppendNode pGraph;
         pGraph = set_last (\<lambda>pNode. pNode\<lparr>eEdge0 := edge0, eEdge1 := edge1,
           fCompl0 := fCompl edge0, fCompl1 := fCompl edge1\<rparr>) pGraph;
         pGraph = set_last (\<lambda>pNode. pNode\<lparr>fNodeOr := True,
           eEdge0 := edge_flip (eEdge0 pNode), eEdge1 := edge_flip (eEdge1 pNode)\<rparr>) pGraph
     in (Kit_EdgeCreate (nSize_g pGraph - 1) True, pGraph))"

definition Kit_GraphAddNodeXor :: "Kit_Graph \<Rightarrow> Kit_Edge \<Rightarrow> Kit_Edge \<Rightarrow> bool \<Rightarrow> Kit_Edge \<times> Kit_Graph" where
  "Kit_GraphAddNodeXor pGraph edge0 edge1 Type =
    (if \<not> Type then
       let edge0 = edge_flip edge0;
           (eNode0, pGraph) = Kit_GraphAddNodeAnd pGraph edge0 edge1;
           edge0 = edge_flip edge0;
           edge1 = edge_flip edge1;
           (eNode1, pGraph) = Kit_GraphAddNodeAnd pGraph edge0 edge1
       in Kit_GraphAddNodeOr pGraph eNode0 eNode1
     else
       let (eNode0, pGraph) = Kit_GraphAddNodeAnd pGraph edge0 edge1;
           edge0 = edge_flip edge0;
           edge1 = edge_flip edge1;
           (eNode1, pGraph) = Kit_GraphAddNodeAnd pGraph edge0 edge1;
           (eNode, pGraph) = Kit_GraphAddNodeOr pGraph eNode0 eNode1
       in (edge_flip eNode, pGraph))"

definition Kit_GraphAddNodeMux ::
  "Kit_Graph \<Rightarrow> Kit_Edge \<Rightarrow> Kit_Edge \<Rightarrow> Kit_Edge \<Rightarrow> bool \<Rightarrow> Kit_Edge \<times> Kit_Graph" where
  "Kit_GraphAddNodeMux pGraph edgeC edgeT edgeE Type =
    (if \<not> Type then
       let (eNode0, pGraph) = Kit_GraphAddNodeAnd pGraph edgeC edgeT;
           edgeC = edge_flip edgeC;
           (eNode1, pGraph) = Kit_GraphAddNodeAnd pGraph edgeC edgeE
       in Kit_GraphAddNodeOr pGraph eNode0 eNode1
     else
       let edgeT = edge_flip edgeT;
           edgeE = edge_flip edgeE;
           (eNode0, pGraph) = Kit_GraphAddNodeAnd pGraph edgeC edgeT;
           edgeC = edge_flip edgeC;
           (eNode1, pGraph) = Kit_GraphAddNodeAnd pGraph edgeC edgeE;
           (eNode, pGraph) = Kit_GraphAddNodeOr pGraph eNode0 eNode1
       in (edge_flip eNode, pGraph))"

section \<open>The truth table and the depth of a graph\<close>

definition graph_truth_step :: "nat \<Rightarrow> Kit_Node list \<times> u32 \<Rightarrow> Kit_Node list \<times> u32" where
  "graph_truth_step i = (\<lambda>(nodes, uTruth).
    (let pNode = nodes ! i;
         uTruth0 = of_nat (pFunc (nodes ! Node (eEdge0 pNode)));
         uTruth1 = of_nat (pFunc (nodes ! Node (eEdge1 pNode)));
         uTruth0 = (if fCompl (eEdge0 pNode) then NOT uTruth0 else uTruth0);
         uTruth1 = (if fCompl (eEdge1 pNode) then NOT uTruth1 else uTruth1);
         uTruth = uTruth0 AND uTruth1
     in (nodes[i := pNode\<lparr>pFunc := unat uTruth\<rparr>], uTruth)))"

definition Kit_GraphToTruth :: "Kit_Graph \<Rightarrow> (u32 \<times> Kit_Graph) res" where
  "Kit_GraphToTruth pGraph =
    (if \<not> Kit_GraphLeaveNum pGraph \<le> nSize_g pGraph then Inl AssertFailed
     else if \<not> Kit_GraphLeaveNum pGraph \<le> 5 then Inl AssertFailed
     else if Kit_GraphIsConst pGraph then Inr (if Kit_GraphIsComplement pGraph then 0 else NOT 0, pGraph)
     else if Kit_GraphIsVar pGraph then
       res_bind (Kit_GraphVarInt pGraph) (\<lambda>v.
         Inr (if Kit_GraphIsComplement pGraph then NOT (var_masks ! v) else var_masks ! v, pGraph))
     else
       let nodes = for_up (nLeaves pGraph) (\<lambda>i nodes. nodes[i := (nodes ! i)\<lparr>pFunc := unat (var_masks ! i)\<rparr>]) (pNodes pGraph);
           (nodes, uTruth) = fold graph_truth_step [nLeaves pGraph..<nSize_g pGraph] (nodes, 0);
           pGraph = pGraph\<lparr>pNodes := nodes\<rparr>
       in Inr (if Kit_GraphIsComplement pGraph then NOT uTruth else uTruth, pGraph))"

text \<open>The recursion follows the edges down; on a graph with a cycle it would not end.\<close>

partial_function (option) Kit_GraphLeafDepth_rec :: "Kit_Graph \<Rightarrow> nat \<Rightarrow> nat \<Rightarrow> int option" where
  "Kit_GraphLeafDepth_rec pGraph pNode pLeaf =
    (if pNode = pLeaf then Some 0
     else if pNode < nLeaves pGraph then Some (-100)
     else Option.bind (Kit_GraphLeafDepth_rec pGraph (Node (eEdge0 (pNodes pGraph ! pNode))) pLeaf) (\<lambda>Depth0.
       Option.bind (Kit_GraphLeafDepth_rec pGraph (Node (eEdge1 (pNodes pGraph ! pNode))) pLeaf) (\<lambda>Depth1.
         let Depth = max Depth0 Depth1 in Some (if Depth = -100 then -100 else Depth + 1))))"

section \<open>What a graph means\<close>

text \<open>
  The value of a node under a valuation of the leaves. Only edges to earlier nodes are followed; in
  a well-formed graph these are all.
\<close>

function node_val :: "(nat \<Rightarrow> bool) \<Rightarrow> nat \<Rightarrow> Kit_Node list \<Rightarrow> nat \<Rightarrow> bool" where
  "node_val f leaves nodes i =
    (if i < leaves then f i
     else if Node (eEdge0 (nodes ! i)) < i \<and> Node (eEdge1 (nodes ! i)) < i then
       (node_val f leaves nodes (Node (eEdge0 (nodes ! i))) \<noteq> fCompl (eEdge0 (nodes ! i))) \<and>
       (node_val f leaves nodes (Node (eEdge1 (nodes ! i))) \<noteq> fCompl (eEdge1 (nodes ! i)))
     else False)"
  by pat_completeness auto
termination
  by (relation "measure (\<lambda>(f, leaves, nodes, i). i)") auto

declare node_val.simps [simp del]

definition nodes_ok :: "nat \<Rightarrow> Kit_Node list \<Rightarrow> bool" where
  "nodes_ok leaves nodes \<longleftrightarrow> leaves \<le> length nodes \<and> (\<forall>i<length nodes. leaves \<le> i \<longrightarrow>
     Node (eEdge0 (nodes ! i)) < i \<and> Node (eEdge1 (nodes ! i)) < i)"

definition graph_ok :: "Kit_Graph \<Rightarrow> bool" where
  "graph_ok g \<longleftrightarrow> nodes_ok (nLeaves g) (pNodes g) \<and> 0 < nCap_g g \<and> nSize_g g \<le> nCap_g g"

definition graph_room :: "Kit_Graph \<Rightarrow> nat \<Rightarrow> bool" where
  "graph_room g k \<longleftrightarrow> nSize_g g + k \<le> 2 ^ 30"

definition edge_ok :: "Kit_Graph \<Rightarrow> Kit_Edge \<Rightarrow> bool" where
  "edge_ok g e \<longleftrightarrow> Node e < nSize_g g"

definition edge_val :: "(nat \<Rightarrow> bool) \<Rightarrow> Kit_Graph \<Rightarrow> Kit_Edge \<Rightarrow> bool" where
  "edge_val f g e \<longleftrightarrow> node_val f (nLeaves g) (pNodes g) (Node e) \<noteq> fCompl e"

lemma node_val_leaf [simp]: "i < leaves \<Longrightarrow> node_val f leaves nodes i = f i"
  by (simp add: node_val.simps)

lemma node_val_node: "nodes_ok leaves nodes \<Longrightarrow> leaves \<le> i \<Longrightarrow> i < length nodes \<Longrightarrow>
   node_val f leaves nodes i \<longleftrightarrow>
     (node_val f leaves nodes (Node (eEdge0 (nodes ! i))) \<noteq> fCompl (eEdge0 (nodes ! i))) \<and>
     (node_val f leaves nodes (Node (eEdge1 (nodes ! i))) \<noteq> fCompl (eEdge1 (nodes ! i)))"
  by (subst node_val.simps) (simp add: nodes_ok_def)

text \<open>The value of a node only depends on the edges of the nodes up to it.\<close>

definition same_edges :: "nat \<Rightarrow> Kit_Node list \<Rightarrow> Kit_Node list \<Rightarrow> bool" where
  "same_edges n ns ns' \<longleftrightarrow> (\<forall>i<n. eEdge0 (ns' ! i) = eEdge0 (ns ! i) \<and> eEdge1 (ns' ! i) = eEdge1 (ns ! i))"

lemma node_val_frame: "same_edges n ns ns' \<Longrightarrow> i < n \<Longrightarrow> node_val f leaves ns' i = node_val f leaves ns i"
proof (induction i rule: less_induct)
  case (less i)
  then have "eEdge0 (ns' ! i) = eEdge0 (ns ! i)" "eEdge1 (ns' ! i) = eEdge1 (ns ! i)"
    by (simp_all add: same_edges_def)
  then show ?case
    using less by (subst (1 2) node_val.simps) auto
qed

lemma same_edges_append: "n \<le> length ns \<Longrightarrow> same_edges n ns (ns @ ms)"
  by (simp add: same_edges_def nth_append)

section \<open>Graphs are managers of AND nodes\<close>

text \<open>What adding a gate does to the record.\<close>

lemma Kit_GraphAddNodeAnd_eq:
  "Kit_GraphAddNodeAnd g a b = (Kit_EdgeCreate (nSize_g g) False,
     g\<lparr>nCap_g := (if nSize_g g = nCap_g g then 2 * nCap_g g else nCap_g g),
       pNodes := pNodes g @ [zero_node\<lparr>eEdge0 := a, eEdge1 := b, fCompl0 := fCompl a, fCompl1 := fCompl b\<rparr>]\<rparr>)"
  by (simp add: Kit_GraphAddNodeAnd_def Kit_GraphAppendNode_def set_last_def Let_def nSize_g_def)

lemma Kit_GraphAddNodeOr_eq:
  "Kit_GraphAddNodeOr g a b = (Kit_EdgeCreate (nSize_g g) True,
     g\<lparr>nCap_g := (if nSize_g g = nCap_g g then 2 * nCap_g g else nCap_g g),
       pNodes := pNodes g @ [zero_node\<lparr>eEdge0 := edge_flip a, eEdge1 := edge_flip b,
         fNodeOr := True, fCompl0 := fCompl a, fCompl1 := fCompl b\<rparr>]\<rparr>)"
  by (simp add: Kit_GraphAddNodeOr_def Kit_GraphAppendNode_def set_last_def Let_def nSize_g_def)

lemma edge_flip_simps [simp]:
  "Node (edge_flip e) = Node e" "fCompl (edge_flip e) \<longleftrightarrow> \<not> fCompl e" "edge_flip (edge_flip e) = e"
  by (simp_all add: edge_flip_def)

lemma edge_flip_val [simp]: "edge_ok g (edge_flip e) = edge_ok g e" "edge_val f g (edge_flip e) \<longleftrightarrow> \<not> edge_val f g e"
  by (simp_all add: edge_ok_def edge_val_def)

lemma graph_add_node:
  assumes g: "graph_ok g" "graph_room g 1" "edge_ok g (eEdge0 nd)" "edge_ok g (eEdge1 nd)"
    and g': "g' = g\<lparr>nCap_g := (if nSize_g g = nCap_g g then 2 * nCap_g g else nCap_g g), pNodes := pNodes g @ [nd]\<rparr>"
  shows "made graph_ok graph_room edge_ok edge_val 1 g (Kit_EdgeCreate (nSize_g g) c, g')
    (\<lambda>f. (edge_val f g (eEdge0 nd) \<and> edge_val f g (eEdge1 nd)) \<noteq> c)"
proof -
  have size: "nSize_g g' = Suc (nSize_g g)" "nLeaves g' = nLeaves g" "pNodes g' = pNodes g @ [nd]"
    by (simp_all add: g' nSize_g_def)
  have e: "Kit_EdgeCreate (nSize_g g) c = \<lparr>fCompl = c, Node = nSize_g g\<rparr>"
    using g(2) by (simp add: Kit_EdgeCreate_def graph_room_def)
  have ok: "nodes_ok (nLeaves g) (pNodes g @ [nd])"
    using g by (auto simp: nodes_ok_def graph_ok_def edge_ok_def nSize_g_def nth_append less_Suc_eq)
  have good: "graph_ok g'" using g ok by (auto simp: graph_ok_def size) (auto simp: g')
  have old: "node_val f (nLeaves g) (pNodes g @ [nd]) i = node_val f (nLeaves g) (pNodes g) i" if "i < nSize_g g" for f i
    by (rule node_val_frame [OF same_edges_append [OF order_refl]]) (use that in \<open>simp add: nSize_g_def\<close>)
  have "node_val f (nLeaves g) (pNodes g @ [nd]) (nSize_g g) \<longleftrightarrow> edge_val f g (eEdge0 nd) \<and> edge_val f g (eEdge1 nd)" for f
    using node_val_node [OF ok, of "nSize_g g" f] g
    by (simp add: nSize_g_def graph_ok_def nodes_ok_def edge_val_def edge_ok_def old [unfolded nSize_g_def])
  then show ?thesis
    using good old by (auto simp: made_def edge_ok_def edge_val_def size e graph_room_def)
qed

interpretation graph: and_or_manager graph_ok graph_room edge_ok edge_val Kit_GraphAddNodeAnd edge_flip Kit_GraphAddNodeOr
proof
  fix m a b assume m: "graph_ok m" "graph_room m 1" "edge_ok m a" "edge_ok m b"
  show "made graph_ok graph_room edge_ok edge_val 1 m (Kit_GraphAddNodeAnd m a b)
      (\<lambda>f. edge_val f m a \<and> edge_val f m b)"
    using graph_add_node [OF m(1,2) _ _ refl, of
        "zero_node\<lparr>eEdge0 := a, eEdge1 := b, fCompl0 := fCompl a, fCompl1 := fCompl b\<rparr>" False] m(3,4)
    by (simp add: Kit_GraphAddNodeAnd_eq)
  show "made graph_ok graph_room edge_ok edge_val 1 m (Kit_GraphAddNodeOr m a b)
      (\<lambda>f. edge_val f m a \<or> edge_val f m b)"
    using graph_add_node [OF m(1,2) _ _ refl, of "zero_node\<lparr>eEdge0 := edge_flip a, eEdge1 := edge_flip b,
        fNodeOr := True, fCompl0 := fCompl a, fCompl1 := fCompl b\<rparr>" True] m(3,4)
    by (simp add: Kit_GraphAddNodeOr_eq made_def)
qed (auto simp: graph_room_def)

text \<open>Both types of exclusive or, and both types of multiplexer, compute the same function.\<close>

lemma flip_flip: "(\<not> p \<and> q \<or> p \<and> \<not> q) = (p \<noteq> q)"
  by blast

lemma Kit_GraphAddNodeXor_builds:
  assumes g: "graph_ok g" "graph_room g 3" "edge_ok g a" "edge_ok g b"
  shows "graph.builds 3 g (Kit_GraphAddNodeXor g a b t) (\<lambda>f. edge_val f g a \<noteq> edge_val f g b)"
proof (cases t)
  case False
  obtain e0 g1 where 1: "Kit_GraphAddNodeAnd g (edge_flip a) b = (e0, g1)" by force
  obtain e1 g2 where 2: "Kit_GraphAddNodeAnd g1 a (edge_flip b) = (e1, g2)" by force
  have "graph.builds 3 g (Kit_GraphAddNodeOr g2 e0 e1) (\<lambda>f. edge_val f g a \<noteq> edge_val f g b)"
    by (rule graph.builds_cong [OF graph.builds_and_or [OF g(1,2) _ _ _ _ 1 2]]) (use g in auto)
  then show ?thesis using False by (simp add: Kit_GraphAddNodeXor_def 1 2 Let_def)
next
  case True
  obtain e0 g1 where 1: "Kit_GraphAddNodeAnd g a b = (e0, g1)" by force
  obtain e1 g2 where 2: "Kit_GraphAddNodeAnd g1 (edge_flip a) (edge_flip b) = (e1, g2)" by force
  obtain e g3 where 3: "Kit_GraphAddNodeOr g2 e0 e1 = (e, g3)" by force
  have "graph.builds 3 g (e, g3) (\<lambda>f. edge_val f g a = edge_val f g b)"
    unfolding 3 [symmetric]
    by (rule graph.builds_cong [OF graph.builds_and_or [OF g(1,2) _ _ _ _ 1 2]]) (use g in auto)
  from graph.builds_neg [OF this] show ?thesis
    using True by (simp add: Kit_GraphAddNodeXor_def 1 2 3 Let_def)
qed

lemma Kit_GraphAddNodeMux_builds:
  assumes g: "graph_ok g" "graph_room g 3" "edge_ok g c" "edge_ok g x" "edge_ok g y"
  shows "graph.builds 3 g (Kit_GraphAddNodeMux g c x y t)
    (\<lambda>f. if edge_val f g c then edge_val f g x else edge_val f g y)"
proof (cases t)
  case False
  obtain e0 g1 where 1: "Kit_GraphAddNodeAnd g c x = (e0, g1)" by force
  obtain e1 g2 where 2: "Kit_GraphAddNodeAnd g1 (edge_flip c) y = (e1, g2)" by force
  have "graph.builds 3 g (Kit_GraphAddNodeOr g2 e0 e1) (\<lambda>f. if edge_val f g c then edge_val f g x else edge_val f g y)"
    by (rule graph.builds_cong [OF graph.builds_and_or [OF g(1,2) _ _ _ _ 1 2]]) (use g in auto)
  then show ?thesis using False by (simp add: Kit_GraphAddNodeMux_def 1 2 Let_def)
next
  case True
  obtain e0 g1 where 1: "Kit_GraphAddNodeAnd g c (edge_flip x) = (e0, g1)" by force
  obtain e1 g2 where 2: "Kit_GraphAddNodeAnd g1 (edge_flip c) (edge_flip y) = (e1, g2)" by force
  obtain e g3 where 3: "Kit_GraphAddNodeOr g2 e0 e1 = (e, g3)" by force
  have "graph.builds 3 g (e, g3) (\<lambda>f. if edge_val f g c then \<not> edge_val f g x else \<not> edge_val f g y)"
    unfolding 3 [symmetric]
    by (rule graph.builds_cong [OF graph.builds_and_or [OF g(1,2) _ _ _ _ 1 2]]) (use g in auto)
  from graph.builds_cong [OF graph.builds_neg [OF this], of "\<lambda>f. if edge_val f g c then edge_val f g x else edge_val f g y"]
  show ?thesis using True by (simp add: Kit_GraphAddNodeMux_def 1 2 3 Let_def)
qed

section \<open>The truth table of a graph\<close>

text \<open>The function of a graph, and the graphs whose root the code can find: it takes the last node.\<close>

definition graph_val :: "(nat \<Rightarrow> bool) \<Rightarrow> Kit_Graph \<Rightarrow> bool" where
  "graph_val f g \<longleftrightarrow> (if fConst g then \<not> fCompl (eRoot g) else edge_val f g (eRoot g))"

definition root_ok :: "Kit_Graph \<Rightarrow> bool" where
  "root_ok g \<longleftrightarrow> fConst g \<or> Node (eRoot g) < nLeaves g \<or> Suc (Node (eRoot g)) = nSize_g g"

lemma graph_truth_leaves:
  assumes "leaves \<le> 5" "k \<le> leaves" "leaves \<le> length ns"
  shows "length (for_up k (\<lambda>i ns. ns[i := (ns ! i)\<lparr>pFunc := unat (var_masks ! i)\<rparr>]) ns) = length ns \<and>
    same_edges (length ns) ns (for_up k (\<lambda>i ns. ns[i := (ns ! i)\<lparr>pFunc := unat (var_masks ! i)\<rparr>]) ns) \<and>
    (\<forall>i<k. pFunc (for_up k (\<lambda>i ns. ns[i := (ns ! i)\<lparr>pFunc := unat (var_masks ! i)\<rparr>]) ns ! i) = unat (var_masks ! i))"
  using assms(2)
proof (induction k)
  case 0
  then show ?case by (simp add: same_edges_def)
next
  case (Suc k)
  then show ?case
    using assms(3) by (auto simp: same_edges_def nth_list_update less_Suc_eq)
qed

definition truth_done :: "Kit_Graph \<Rightarrow> nat \<Rightarrow> Kit_Node list \<Rightarrow> bool" where
  "truth_done g n ns \<longleftrightarrow> length ns = nSize_g g \<and> same_edges (nSize_g g) (pNodes g) ns \<and>
     (\<forall>i<n. \<forall>m<32. bit (of_nat (pFunc (ns ! i)) :: u32) m = node_val (bit m) (nLeaves g) (pNodes g) i)"

lemma graph_truth_step_done:
  assumes g: "graph_ok g" and i: "nLeaves g \<le> i" "i < nSize_g g" and d: "truth_done g i ns"
    and s: "graph_truth_step i (ns, u) = (ns', u')"
  shows "truth_done g (Suc i) ns' \<and> (\<forall>m<32. bit u' m = node_val (bit m) (nLeaves g) (pNodes g) i)"
proof -
  have nodes: "nodes_ok (nLeaves g) (pNodes g)" "i < length (pNodes g)"
    using g i by (auto simp: graph_ok_def nSize_g_def)
  let ?nd = "pNodes g ! i"
  have e: "eEdge0 (ns ! i) = eEdge0 ?nd" "eEdge1 (ns ! i) = eEdge1 ?nd" "length ns = nSize_g g"
    using d i by (auto simp: truth_done_def same_edges_def)
  have lt: "Node (eEdge0 ?nd) < i" "Node (eEdge1 ?nd) < i"
    using nodes i(1) by (auto simp: nodes_ok_def)
  have u: "bit u' m = node_val (bit m) (nLeaves g) (pNodes g) i" if "m < 32" for m
    using s d lt that
    by (auto simp: graph_truth_step_def Let_def e truth_done_def node_val_node [OF nodes(1) i(1) nodes(2)] bit_and_iff)
  moreover have ns': "ns' = ns[i := (ns ! i)\<lparr>pFunc := unat u'\<rparr>]"
    using s by (auto simp: graph_truth_step_def Let_def e)
  moreover have "same_edges (nSize_g g) (pNodes g) ns'"
    using d i unfolding ns' truth_done_def same_edges_def by (auto simp: nth_list_update)
  ultimately show ?thesis
    using d i e(3) by (auto simp: truth_done_def nth_list_update less_Suc_eq)
qed

lemma graph_truth_steps_done:
  assumes g: "graph_ok g" and d: "truth_done g (nLeaves g) ns" and k: "nLeaves g \<le> k" "k \<le> nSize_g g"
    and s: "fold graph_truth_step [nLeaves g..<k] (ns, u) = (ns', u')"
  shows "truth_done g k ns' \<and> (nLeaves g < k \<longrightarrow>
    (\<forall>m<32. bit u' m = node_val (bit m) (nLeaves g) (pNodes g) (k - 1)))"
  using k s
proof (induction k arbitrary: ns' u' rule: dec_induct)
  case base
  then show ?case using d by simp
next
  case (step k)
  obtain ns1 u1 where 1: "fold graph_truth_step [nLeaves g..<k] (ns, u) = (ns1, u1)" by force
  then have "truth_done g k ns1" using step by simp
  moreover have "graph_truth_step k (ns1, u1) = (ns', u')"
    using step.prems(2) 1 step.hyps(1) by simp
  ultimately show ?case
    using graph_truth_step_done [OF g step.hyps(1) _ _ ] step.prems(1) by simp
qed

lemma Kit_GraphToTruth_val:
  assumes g: "graph_ok g \<or> fConst g \<and> pNodes g = [] \<and> nLeaves g = 0" "root_ok g" "nLeaves g \<le> 5"
  shows "\<exists>w g'. Kit_GraphToTruth g = Inr (w, g') \<and> (\<forall>m<32. bit w m = graph_val (bit m) g)"
proof (cases "fConst g")
  case True
  then show ?thesis
    using g by (auto simp: Kit_GraphToTruth_def Kit_GraphLeaveNum_def graph_ok_def nodes_ok_def nSize_g_def
        Kit_GraphIsConst_def Kit_GraphIsComplement_def graph_val_def)
next
  case nc: False
  then have ok: "graph_ok g" "nLeaves g \<le> nSize_g g"
    using g(1) by (auto simp: graph_ok_def nodes_ok_def nSize_g_def)
  have vm: "bit (var_masks ! v) m = bit m v" if "v < 5" "m < 32" for v m
    using that by (simp add: mask_simps)
  show ?thesis
  proof (cases "Kit_GraphIsVar g")
    case True
    then have v: "Node (eRoot g) < nLeaves g" "Node (eRoot g) < 5" using g(3) by (auto simp: Kit_GraphIsVar_def)
    then show ?thesis
      using ok(2) nc g(3) True
      by (auto simp: Kit_GraphToTruth_def Kit_GraphLeaveNum_def Kit_GraphIsConst_def Kit_GraphIsComplement_def
          Kit_GraphVarInt_def graph_val_def edge_val_def vm)
  next
    case False
    then have root: "Suc (Node (eRoot g)) = nSize_g g" "nLeaves g < nSize_g g"
      using g(2) nc by (auto simp: Kit_GraphIsVar_def root_ok_def)
    define ns where "ns = for_up (nLeaves g) (\<lambda>i nodes. nodes[i := (nodes ! i)\<lparr>pFunc := unat (var_masks ! i)\<rparr>]) (pNodes g)"
    obtain ns' u where s: "fold graph_truth_step [nLeaves g..<nSize_g g] (ns, 0) = (ns', u)" by force
    have "truth_done g (nLeaves g) ns"
      using graph_truth_leaves [OF g(3) order_refl, of "pNodes g"] ok(2) g(3) vm
      by (auto simp: truth_done_def ns_def nSize_g_def)
    from graph_truth_steps_done [OF ok(1) this ok(2) order_refl s]
    have "\<forall>m<32. bit u m = node_val (bit m) (nLeaves g) (pNodes g) (Node (eRoot g))"
      using root by (metis diff_Suc_1)
    then show ?thesis
      using ok(2) nc g(3) False s
      by (auto simp: Kit_GraphToTruth_def Kit_GraphLeaveNum_def Kit_GraphIsConst_def Kit_GraphIsComplement_def
          graph_val_def edge_val_def ns_def)
  qed
qed

section \<open>The depth of a node\<close>

text \<open>Paths down the graph, with their length.\<close>

inductive node_path :: "Kit_Graph \<Rightarrow> nat \<Rightarrow> nat \<Rightarrow> nat \<Rightarrow> bool" for g where
  path_refl: "node_path g i i 0"
| path_fanin0: "nLeaves g \<le> i \<Longrightarrow> node_path g (Node (eEdge0 (pNodes g ! i))) j d \<Longrightarrow> node_path g i j (Suc d)"
| path_fanin1: "nLeaves g \<le> i \<Longrightarrow> node_path g (Node (eEdge1 (pNodes g ! i))) j d \<Longrightarrow> node_path g i j (Suc d)"

inductive_cases node_pathE: "node_path g i j d"

definition longest_path :: "Kit_Graph \<Rightarrow> nat \<Rightarrow> nat \<Rightarrow> int \<Rightarrow> bool" where
  "longest_path g i j d \<longleftrightarrow> d = -100 \<and> (\<forall>k. \<not> node_path g i j k) \<or>
     (\<exists>k. d = int k \<and> node_path g i j k \<and> (\<forall>k'. node_path g i j k' \<longrightarrow> k' \<le> k))"

lemma node_path_down:
  "node_path g i j d \<Longrightarrow> nodes_ok (nLeaves g) (pNodes g) \<Longrightarrow> i < length (pNodes g) \<Longrightarrow> j + d \<le> i"
proof (induction rule: node_path.induct)
  case (path_fanin0 i j d)
  then have "Node (eEdge0 (pNodes g ! i)) < i" by (simp add: nodes_ok_def)
  then show ?case using path_fanin0 by simp
next
  case (path_fanin1 i j d)
  then have "Node (eEdge1 (pNodes g ! i)) < i" by (simp add: nodes_ok_def)
  then show ?case using path_fanin1 by simp
qed simp

lemma longest_path_step:
  assumes "i \<noteq> j" "nLeaves g \<le> i"
    and 0: "longest_path g (Node (eEdge0 (pNodes g ! i))) j d0" and 1: "longest_path g (Node (eEdge1 (pNodes g ! i))) j d1"
  shows "longest_path g i j (if max d0 d1 = -100 then -100 else max d0 d1 + 1)"
proof -
  have step: "node_path g i j d \<longleftrightarrow> (\<exists>k. d = Suc k \<and> (node_path g (Node (eEdge0 (pNodes g ! i))) j k \<or>
      node_path g (Node (eEdge1 (pNodes g ! i))) j k))" for d
    using assms(1,2) by (auto elim: node_pathE intro: path_fanin0 path_fanin1)
  have up: "longest_path g i j (int (Suc k))"
    if "node_path g (Node (eEdge0 (pNodes g ! i))) j k \<or> node_path g (Node (eEdge1 (pNodes g ! i))) j k"
      "\<And>k'. node_path g (Node (eEdge0 (pNodes g ! i))) j k' \<Longrightarrow> k' \<le> k"
      "\<And>k'. node_path g (Node (eEdge1 (pNodes g ! i))) j k' \<Longrightarrow> k' \<le> k" for k
    unfolding longest_path_def step using that by blast
  from 0 1 show ?thesis
    unfolding longest_path_def [of g "Node (eEdge0 (pNodes g ! i))"] longest_path_def [of g "Node (eEdge1 (pNodes g ! i))"]
  proof (elim disjE exE conjE)
    assume "d0 = -100" "d1 = -100" "\<forall>k. \<not> node_path g (Node (eEdge0 (pNodes g ! i))) j k"
      "\<forall>k. \<not> node_path g (Node (eEdge1 (pNodes g ! i))) j k"
    then show ?thesis by (simp add: longest_path_def step)
  next
    fix k assume "d0 = -100" "d1 = int k" "\<forall>k. \<not> node_path g (Node (eEdge0 (pNodes g ! i))) j k"
      "node_path g (Node (eEdge1 (pNodes g ! i))) j k" "\<forall>k'. node_path g (Node (eEdge1 (pNodes g ! i))) j k' \<longrightarrow> k' \<le> k"
    then show ?thesis using up [of k] by (simp add: add.commute)
  next
    fix k assume "d0 = int k" "d1 = -100" "\<forall>k. \<not> node_path g (Node (eEdge1 (pNodes g ! i))) j k"
      "node_path g (Node (eEdge0 (pNodes g ! i))) j k" "\<forall>k'. node_path g (Node (eEdge0 (pNodes g ! i))) j k' \<longrightarrow> k' \<le> k"
    then show ?thesis using up [of k] by (simp add: add.commute)
  next
    fix k l assume "d0 = int k" "d1 = int l"
      "node_path g (Node (eEdge0 (pNodes g ! i))) j k" "\<forall>k'. node_path g (Node (eEdge0 (pNodes g ! i))) j k' \<longrightarrow> k' \<le> k"
      "node_path g (Node (eEdge1 (pNodes g ! i))) j l" "\<forall>k'. node_path g (Node (eEdge1 (pNodes g ! i))) j k' \<longrightarrow> k' \<le> l"
    then have "longest_path g i j (int (Suc (max k l)))"
      by (intro up) (auto simp: max_def intro: le_trans dest: spec)
    moreover have "max (int k) (int l) \<noteq> -100" by (simp add: max_def)
    ultimately show ?thesis using \<open>d0 = int k\<close> \<open>d1 = int l\<close> by (simp add: add.commute of_nat_max)
  qed
qed

lemma Kit_GraphLeafDepth_longest:
  assumes g: "graph_ok g"
  shows "i < nSize_g g \<Longrightarrow> \<exists>d. Kit_GraphLeafDepth_rec g i j = Some d \<and> longest_path g i j d"
proof (induction i rule: less_induct)
  case (less i)
  have nodes: "nodes_ok (nLeaves g) (pNodes g)" "i < length (pNodes g)"
    using g less.prems by (auto simp: graph_ok_def nSize_g_def)
  show ?case
  proof (cases "i = j")
    case True
    have "k' \<le> 0" if "node_path g j j k'" for k' using node_path_down [OF that nodes(1)] nodes(2) True by simp
    then have "longest_path g j j 0" unfolding longest_path_def using path_refl [of g j] by auto
    then show ?thesis using True by (subst Kit_GraphLeafDepth_rec.simps) simp
  next
    case ne: False
    show ?thesis
    proof (cases "i < nLeaves g")
      case True
      then have "longest_path g i j (-100)" using ne by (auto simp: longest_path_def elim: node_pathE)
      then show ?thesis using ne True by (subst Kit_GraphLeafDepth_rec.simps) simp
    next
      case False
      then have lt: "Node (eEdge0 (pNodes g ! i)) < i" "Node (eEdge1 (pNodes g ! i)) < i"
        using nodes by (auto simp: nodes_ok_def)
      obtain d0 where 0: "Kit_GraphLeafDepth_rec g (Node (eEdge0 (pNodes g ! i))) j = Some d0"
          "longest_path g (Node (eEdge0 (pNodes g ! i))) j d0"
        using less.IH [OF lt(1)] lt(1) less.prems by auto
      obtain d1 where 1: "Kit_GraphLeafDepth_rec g (Node (eEdge1 (pNodes g ! i))) j = Some d1"
          "longest_path g (Node (eEdge1 (pNodes g ! i))) j d1"
        using less.IH [OF lt(2)] lt(2) less.prems by auto
      show ?thesis
        using ne False longest_path_step [OF ne _ 0(2) 1(2)]
        by (subst Kit_GraphLeafDepth_rec.simps) (simp add: 0 1 Let_def)
    qed
  qed
qed

section \<open>Building with leaves\<close>

text \<open>
  What building a form achieves: the graph grows as the interface says, the leaves stay, and the
  edge returned is a leaf or the last node.
\<close>

definition edge_top :: "Kit_Graph \<Rightarrow> Kit_Edge \<Rightarrow> bool" where
  "edge_top g e \<longleftrightarrow> Node e < nLeaves g \<or> Suc (Node e) = nSize_g g"

definition fbuilds :: "nat \<Rightarrow> Kit_Graph \<Rightarrow> Kit_Edge \<times> Kit_Graph \<Rightarrow> ((nat \<Rightarrow> bool) \<Rightarrow> bool) \<Rightarrow> bool" where
  "fbuilds k g r F \<longleftrightarrow> graph.builds k g r F \<and> edge_top (snd r) (fst r) \<and>
     nLeaves (snd r) = nLeaves g \<and> fConst (snd r) = fConst g"

lemma fbuilds_room: "fbuilds j g (e, g') F \<Longrightarrow> graph_room g (j + k) \<Longrightarrow> graph_room g' k"
  by (auto simp: fbuilds_def dest: graph.buildsD(2))

lemma fbuilds_simps:
  assumes "fbuilds j g (e, g') F"
  shows "graph_ok g'" "nLeaves g' = nLeaves g" "fConst g' = fConst g"
  using assms by (auto simp: fbuilds_def dest: graph.buildsD(1))

lemma fbuilds_cong: "fbuilds k g r F \<Longrightarrow> (\<And>f. F f = G f) \<Longrightarrow> fbuilds k g r G"
  by (simp add: fbuilds_def made_def)

lemma fbuilds_mono: "fbuilds j g r F \<Longrightarrow> j \<le> k \<Longrightarrow> fbuilds k g r F"
  by (auto simp: fbuilds_def intro: graph.builds_mono)

lemma graph_room_leaves: "graph_ok g \<Longrightarrow> graph_room g k \<Longrightarrow> nLeaves g \<le> 2 ^ 30"
  by (simp add: graph_ok_def nodes_ok_def graph_room_def nSize_g_def)

lemma fbuilds_leaf:
  assumes "graph_ok g" "graph_room g i" "v < nLeaves g"
  shows "fbuilds k g (Kit_EdgeCreate v c, g) (\<lambda>f. f v \<noteq> c)"
proof -
  have "v < 2 ^ 30" using graph_room_leaves [OF assms(1,2)] assms(3) by simp
  then have e: "Kit_EdgeCreate v c = \<lparr>fCompl = c, Node = v\<rparr>" by (simp add: Kit_EdgeCreate_def)
  have "edge_ok g \<lparr>fCompl = c, Node = v\<rparr>"
    using assms by (auto simp: edge_ok_def graph_ok_def nodes_ok_def nSize_g_def)
  then show ?thesis
    using assms by (auto simp: fbuilds_def e edge_top_def edge_val_def intro!: graph.builds_return)
qed

lemma add_node_top:
  assumes "graph_room g 1"
  shows "edge_top (snd (Kit_GraphAddNodeAnd g a b)) (fst (Kit_GraphAddNodeAnd g a b))"
    "edge_top (snd (Kit_GraphAddNodeOr g a b)) (fst (Kit_GraphAddNodeOr g a b))"
  using assms
  by (simp_all add: Kit_GraphAddNodeAnd_eq Kit_GraphAddNodeOr_eq edge_top_def Kit_EdgeCreate_def graph_room_def nSize_g_def)

lemma add_node_leaves:
  "nLeaves (snd (Kit_GraphAddNodeAnd g a b)) = nLeaves g" "fConst (snd (Kit_GraphAddNodeAnd g a b)) = fConst g"
  "nLeaves (snd (Kit_GraphAddNodeOr g a b)) = nLeaves g" "fConst (snd (Kit_GraphAddNodeOr g a b)) = fConst g"
  by (simp_all add: Kit_GraphAddNodeAnd_eq Kit_GraphAddNodeOr_eq)

lemma fbuilds_and:
  assumes "fbuilds j g (e1, g1) F" "fbuilds k g1 (e2, g2) G" "graph_room g (j + k + 1)"
  shows "fbuilds (j + k + 1) g (Kit_GraphAddNodeAnd g2 e1 e2) (\<lambda>f. F f \<and> G f)"
proof -
  have "graph_room g2 1" using fbuilds_room [OF assms(2) fbuilds_room [OF assms(1)]] assms(3) by (simp add: add.assoc)
  then show ?thesis
    using assms graph.builds_and [of j g e1 g1 F k e2 g2 G]
    by (simp add: fbuilds_def add_node_top add_node_leaves)
qed

lemma fbuilds_or:
  assumes "fbuilds j g (e1, g1) F" "fbuilds k g1 (e2, g2) G" "graph_room g (j + k + 1)"
  shows "fbuilds (j + k + 1) g (Kit_GraphAddNodeOr g2 e1 e2) (\<lambda>f. F f \<or> G f)"
proof -
  have "graph_room g2 1" using fbuilds_room [OF assms(2) fbuilds_room [OF assms(1)]] assms(3) by (simp add: add.assoc)
  then show ?thesis
    using assms graph.builds_or [of j g e1 g1 F k e2 g2 G]
    by (simp add: fbuilds_def add_node_top add_node_leaves)
qed

section \<open>Properties\<close>

text \<open>
  C30. On a well-formed graph of at most five leaves whose root is a constant, a leaf or the last
  node, the truth table is computed without a failed assertion and is the function of the graph.
\<close>

theorem Kit_GraphToTruth_correct:
  assumes "graph_ok g" "root_ok g" "nLeaves g \<le> 5"
  shows "\<exists>w g'. Kit_GraphToTruth g = Inr (w, g') \<and> (\<forall>m\<in>{..<32}. bit w m = graph_val (bit m) g)"
  using Kit_GraphToTruth_val [of g] assms by auto

definition sample_graph :: Kit_Graph where
  "sample_graph =
    (let (e, g) = Kit_GraphAddNodeXor (Kit_GraphCreate 2) (Kit_EdgeCreate 0 False) (Kit_EdgeCreate 1 False) True
     in Kit_GraphSetRoot g e)"

lemma sample_graph_ok: "graph_ok sample_graph" "root_ok sample_graph" "nLeaves sample_graph = 2"
  by (simp_all add: sample_graph_def Kit_GraphAddNodeXor_def Kit_GraphAddNodeAnd_eq Kit_GraphAddNodeOr_eq
      Kit_GraphCreate_def Kit_GraphSetRoot_def Kit_EdgeCreate_def graph_ok_def nodes_ok_def root_ok_def nSize_g_def
      zero_node_def zero_edge_def)
     (auto simp: numeral_eq_Suc less_Suc_eq)

theorem Kit_GraphToTruth_correct_witness:
  "\<exists>w g'. Kit_GraphToTruth sample_graph = Inr (w, g') \<and> bit w 0 = graph_val (bit (0::nat)) sample_graph"
proof -
  obtain w g' where w: "Kit_GraphToTruth sample_graph = Inr (w, g')"
      "\<forall>m\<in>{..<32}. bit w m = graph_val (bit m) sample_graph"
    using Kit_GraphToTruth_correct [OF sample_graph_ok(1,2)] sample_graph_ok(3) by auto
  have "(0::nat) \<in> {..<32}" by simp
  then show ?thesis using w by blast
qed

text \<open>
  C31. The exclusive or and the multiplexer of both types add three nodes, keep the function of every
  edge made before, and return an edge with the function of their name.
\<close>

theorem Kit_Graph_gates_correct:
  assumes "graph_ok g" "graph_room g 3" "edge_ok g a" "edge_ok g b" "edge_ok g c"
  shows "graph.builds 3 g (Kit_GraphAddNodeXor g a b t) (\<lambda>f. edge_val f g a \<noteq> edge_val f g b) \<and>
    graph.builds 3 g (Kit_GraphAddNodeMux g c a b t) (\<lambda>f. if edge_val f g c then edge_val f g a else edge_val f g b)"
  using Kit_GraphAddNodeXor_builds Kit_GraphAddNodeMux_builds assms by blast

theorem Kit_Graph_gates_witness:
  "graph_ok (snd (Kit_GraphAddNodeMux sample_graph zero_edge zero_edge zero_edge True))"
  using Kit_Graph_gates_correct [OF sample_graph_ok(1), of zero_edge zero_edge zero_edge True]
  by (simp add: graph_room_def edge_ok_def zero_edge_def sample_graph_def Kit_GraphAddNodeXor_def Kit_GraphAddNodeAnd_eq
      Kit_GraphAddNodeOr_eq Kit_GraphCreate_def Kit_GraphSetRoot_def Kit_EdgeCreate_def nSize_g_def made_def)

text \<open>
  On a well-formed graph the depth recursion ends for every node, and returns the length of the
  longest path to the leaf, or -100 if there is none.
\<close>

theorem Kit_GraphLeafDepth_ends:
  assumes "graph_ok g" "i < nSize_g g"
  shows "\<exists>d. Kit_GraphLeafDepth_rec g i j = Some d \<and> longest_path g i j d"
  using Kit_GraphLeafDepth_longest assms by blast

theorem Kit_GraphLeafDepth_ends_witness: "Kit_GraphLeafDepth_rec sample_graph 1 0 = Some (-100)"
proof -
  have "1 < nSize_g sample_graph" using sample_graph_ok by (simp add: graph_ok_def nodes_ok_def nSize_g_def)
  then obtain d where d: "Kit_GraphLeafDepth_rec sample_graph 1 0 = Some d" "longest_path sample_graph 1 0 d"
    using Kit_GraphLeafDepth_ends [OF sample_graph_ok(1)] by blast
  have "\<not> node_path sample_graph 1 0 k" for k using sample_graph_ok(3) by (auto elim: node_pathE)
  then show ?thesis using d by (auto simp: longest_path_def)
qed

text \<open>An edge with a 30-bit node number is what its number stands for.\<close>

theorem Kit_EdgeToInt_roundtrip:
  assumes "Node e < 2 ^ 30"
  shows "Kit_IntToEdge (Kit_EdgeToInt e) = e"
proof -
  have n30: "bit (Node e) i \<Longrightarrow> i < 30" for i
    using assms by (metis take_bit_nat_eq_self_iff bit_take_bit_iff)
  have n: "bit (Node e) i \<Longrightarrow> i < 31" for i
    using n30 [of i] by simp
  have "drop_bit 1 (Kit_EdgeToInt e) = (of_nat (Node e) :: u32)"
    by (rule bit_eqI) (use n in \<open>auto simp: Kit_EdgeToInt_def bit_simps of_bool_def mult.commute [of _ "2::u32"] bit_double_iff\<close>)
  moreover have "Kit_EdgeToInt e AND 1 = of_bool (fCompl e)"
    by (simp add: Kit_EdgeToInt_def and_one_eq mod_2_eq_odd even_or_iff)
  moreover have "unat (of_nat (Node e) :: u32) = Node e" using assms by (simp add: unat_of_nat take_bit_nat_eq_self)
  ultimately show ?thesis using assms by (simp add: Kit_IntToEdge_def Kit_EdgeCreate_def)
qed

theorem Kit_EdgeToInt_roundtrip_witness:
  "Kit_IntToEdge (Kit_EdgeToInt \<lparr>fCompl = True, Node = 5\<rparr>) = \<lparr>fCompl = True, Node = 5\<rparr>"
  using Kit_EdgeToInt_roundtrip [of "\<lparr>fCompl = True, Node = 5\<rparr>"] by simp

end
