(* ===== verification/Kit_Factor.thy ===== *)
theory Kit_Factor
  imports Kit_Sop Kit_Graph
begin

text \<open>
  Factoring of covers (\<open>src/abc-master/src/bool/kit/kitFactor.c\<close>) and the derivation of a factored form from a
  truth table (\<open>Kit_TruthToGraph\<close> of \<open>kitGraph.c\<close>).

  The recursion of \<open>Kit_SopFactor_rec\<close> has a counter of calls that are allowed (the error
  \<open>OutOfFuel\<close> is returned when it is used up); \<open>Kit_SopFactor\<close> starts it with the number of literals
  of the cover plus one, and the theorems show that this is always enough, because every recursive
  call works on a cover with fewer literals. The same measure bounds the memory that is taken:
  a cover with \<open>w\<close> literals needs at most \<open>4 * w * (w + 1)\<close> words.
\<close>

section \<open>Balanced trees\<close>

text \<open>The two loops over the literals of an interval: the last one and the number, and the split.\<close>

definition cube_count :: "u32 \<Rightarrow> nat \<Rightarrow> nat \<Rightarrow> int \<times> nat" where
  "cube_count uCube nStart nFinish =
     fold (\<lambda>i (iLit, nLts). if Kit_CubeHasLit uCube i then (int i, nLts + 1) else (iLit, nLts)) [nStart..<nFinish] (-1, 0)"

fun cube_split :: "u32 \<Rightarrow> nat \<Rightarrow> nat \<Rightarrow> nat \<Rightarrow> nat list \<Rightarrow> nat" where
  "cube_split uCube nLits1 nFinish nLts [] = nFinish"
| "cube_split uCube nLits1 nFinish nLts (i # is) =
    (if Kit_CubeHasLit uCube i then
       if nLts = nLits1 then i else cube_split uCube nLits1 nFinish (nLts + 1) is
     else cube_split uCube nLits1 nFinish nLts is)"

definition cube_lits :: "u32 \<Rightarrow> nat \<Rightarrow> nat \<Rightarrow> nat list" where
  "cube_lits uCube nStart nFinish = filter (Kit_CubeHasLit uCube) [nStart..<nFinish]"

lemma cube_count_lits:
  "cube_count u a b = (if cube_lits u a b = [] then -1 else int (last (cube_lits u a b)), length (cube_lits u a b))"
proof -
  have "fold (\<lambda>i (iLit, nLts). if Kit_CubeHasLit u i then (int i, nLts + 1) else (iLit, nLts)) is (x, k) =
    (if filter (Kit_CubeHasLit u) is = [] then x else int (last (filter (Kit_CubeHasLit u) is)),
     k + length (filter (Kit_CubeHasLit u) is))" for "is" x k
    by (induction "is" arbitrary: x k) auto
  then show ?thesis by (simp add: cube_count_def cube_lits_def)
qed

lemma cube_split_nth:
  "n \<le> k \<Longrightarrow> k - n < length (filter (Kit_CubeHasLit u) is) \<Longrightarrow>
   cube_split u k b n is = filter (Kit_CubeHasLit u) is ! (k - n)"
proof (induction "is" arbitrary: n)
  case (Cons i "is")
  show ?case
  proof (cases "Kit_CubeHasLit u i \<and> n \<noteq> k")
    case True
    then have "k - n = Suc (k - Suc n)" using Cons.prems(1) by arith
    then show ?thesis using True Cons by simp
  qed (use Cons in auto)
qed simp

lemma cube_lits_at: "Kit_CubeHasLit u i \<Longrightarrow> i < b \<Longrightarrow> cube_lits u i b = i # cube_lits u (Suc i) b"
  by (simp add: cube_lits_def upt_conv_Cons)

lemma cube_lits_append: "a \<le> i \<Longrightarrow> i \<le> b \<Longrightarrow> cube_lits u a b = cube_lits u a i @ cube_lits u i b"
  using upt_add_eq_append [of a i "b - i"] by (simp add: cube_lits_def)

text \<open>The split point lies strictly inside the interval, with the literals divided as planned.\<close>

lemma cube_split_inside:
  assumes k: "0 < k" "k < length (cube_lits u a b)"
  shows "a < cube_split u k b 0 [a..<b]" "cube_split u k b 0 [a..<b] < b"
    "cube_lits u a (cube_split u k b 0 [a..<b]) = take k (cube_lits u a b)"
    "cube_lits u (cube_split u k b 0 [a..<b]) b = drop k (cube_lits u a b)"
proof -
  let ?L = "cube_lits u a b"
  let ?i = "?L ! k"
  have i: "cube_split u k b 0 [a..<b] = ?i"
    using cube_split_nth [of 0 k u "[a..<b]" b] k by (simp add: cube_lits_def)
  have mem: "?i \<in> set ?L" using k by simp
  then have ab: "a \<le> ?i" "?i < b" "Kit_CubeHasLit u ?i" by (auto simp: cube_lits_def)
  then have split: "?L = cube_lits u a ?i @ cube_lits u ?i b" by (intro cube_lits_append) simp_all
  have at: "cube_lits u ?i b = ?i # cube_lits u (Suc ?i) b" by (rule cube_lits_at [OF ab(3,2)])
  then have "?L ! length (cube_lits u a ?i) = ?i" using split by (metis nth_append_length)
  moreover have "length (cube_lits u a ?i) < length ?L"
    using arg_cong [OF split, of length] arg_cong [OF at, of length] by simp
  ultimately have len: "length (cube_lits u a ?i) = k"
    using k(2) nth_eq_iff_index_eq [of ?L] by (simp add: cube_lits_def)
  then have "cube_lits u a ?i \<noteq> []" using k(1) by auto
  then have "a \<noteq> ?i" by (auto simp: cube_lits_def)
  then show "a < cube_split u k b 0 [a..<b]" "cube_split u k b 0 [a..<b] < b" using ab i by auto
  show "cube_lits u a (cube_split u k b 0 [a..<b]) = take k ?L"
    "cube_lits u (cube_split u k b 0 [a..<b]) b = drop k ?L"
    unfolding i using split len by (metis append_eq_conv_conj)+
qed

function Kit_SopFactorTrivialCube_rec ::
  "Kit_Graph \<Rightarrow> u32 \<Rightarrow> nat \<Rightarrow> nat \<Rightarrow> (Kit_Edge \<times> Kit_Graph) res" where
  "Kit_SopFactorTrivialCube_rec pFForm uCube nStart nFinish =
    (if \<not> uCube \<noteq> 0 then Inl AssertFailed else
     let (iLit, nLts) = cube_count uCube nStart nFinish in
     if \<not> iLit \<noteq> -1 then Inl AssertFailed
     else if nLts = 1 then Inr (Kit_EdgeCreate (nat iLit div 2) (nat iLit mod 2 \<noteq> 0), pFForm)
     else
       let nLits1 = nLts div 2;
           i = cube_split uCube nLits1 nFinish 0 [nStart..<nFinish]
       in res_bind (Kit_SopFactorTrivialCube_rec pFForm uCube nStart i) (\<lambda>(eNode1, pFForm).
          res_bind (Kit_SopFactorTrivialCube_rec pFForm uCube i nFinish) (\<lambda>(eNode2, pFForm).
            Inr (Kit_GraphAddNodeAnd pFForm eNode1 eNode2))))"
  by pat_completeness auto

lemma cube_rec_decreases:
  assumes c: "(iLit, nLts) = cube_count u a b" "\<not> \<not> iLit \<noteq> -1" "nLts \<noteq> 1"
  shows "a < cube_split u (nLts div 2) b 0 [a..<b]" "cube_split u (nLts div 2) b 0 [a..<b] < b"
proof -
  have "nLts = length (cube_lits u a b)" "cube_lits u a b \<noteq> []"
    using c(1,2) by (auto simp: cube_count_lits split: if_splits)
  then have "nLts = length (cube_lits u a b)" "0 < nLts" by auto
  then have "0 < nLts div 2" "nLts div 2 < length (cube_lits u a b)" using c(3) by linarith+
  from cube_split_inside [OF this] show "a < cube_split u (nLts div 2) b 0 [a..<b]"
    "cube_split u (nLts div 2) b 0 [a..<b] < b" by simp_all
qed

termination Kit_SopFactorTrivialCube_rec
proof (relation "measure (\<lambda>(pFForm, uCube, nStart, nFinish). nFinish - nStart)", goal_cases)
  case (2 g u a b c iLit nLts n1 i)
  then show ?case using cube_rec_decreases [of iLit nLts u a b] by auto
next
  case (3 g u a b c iLit nLts n1 i _ _ g')
  then show ?case using cube_rec_decreases [of iLit nLts u a b] by auto
qed simp

declare Kit_SopFactorTrivialCube_rec.simps [simp del]

definition Kit_SopFactorTrivialCube :: "Kit_Graph \<Rightarrow> u32 \<Rightarrow> nat \<Rightarrow> (Kit_Edge \<times> Kit_Graph) res" where
  "Kit_SopFactorTrivialCube pFForm uCube nLts = Kit_SopFactorTrivialCube_rec pFForm uCube 0 nLts"

text \<open>Without cubes the recursion would call itself with 0 cubes for ever.\<close>

function Kit_SopFactorTrivial_rec :: "Kit_Graph \<Rightarrow> u32 list \<Rightarrow> nat \<Rightarrow> (Kit_Edge \<times> Kit_Graph) res" where
  "Kit_SopFactorTrivial_rec pFForm cubes nLts =
    (if length cubes = 0 then Inl Undefined
     else if length cubes = 1 then Kit_SopFactorTrivialCube_rec pFForm (cubes ! 0) 0 nLts
     else
       let nCubes1 = length cubes div 2
       in res_bind (Kit_SopFactorTrivial_rec pFForm (take nCubes1 cubes) nLts) (\<lambda>(eNode1, pFForm).
          res_bind (Kit_SopFactorTrivial_rec pFForm (drop nCubes1 cubes) nLts) (\<lambda>(eNode2, pFForm).
            Inr (Kit_GraphAddNodeOr pFForm eNode1 eNode2))))"
  by pat_completeness auto
termination
proof (relation "measure (\<lambda>(pFForm, cubes, nLts). length cubes)", goal_cases)
  case (2 g cubes n k)
  then have "2 \<le> length cubes" by arith
  then show ?case using 2 by simp
next
  case (3 g cubes n k)
  then have "2 \<le> length cubes" by arith
  then have "0 < length cubes div 2" by arith
  then have "length cubes - length cubes div 2 < length cubes" by arith
  then show ?case using 3 by simp
qed simp

declare Kit_SopFactorTrivial_rec.simps [simp del]

definition Kit_SopFactorTrivial :: "Kit_Graph \<Rightarrow> u32 list \<Rightarrow> nat \<Rightarrow> (Kit_Edge \<times> Kit_Graph) res" where
  "Kit_SopFactorTrivial pFForm cSop nLts = Kit_SopFactorTrivial_rec pFForm cSop nLts"

text \<open>The literals under a valuation of the variables: even literals are positive.\<close>

definition flit :: "(nat \<Rightarrow> bool) \<Rightarrow> nat \<Rightarrow> bool" where
  "flit f i \<longleftrightarrow> f (i div 2) = even i"

lemma flit_sop_lit: "flit (bit m) = sop_lit m"
  by (auto simp: flit_def sop_lit_def)

lemma Kit_SopFactorTrivialCube_rec_builds:
  assumes "graph_ok g" "u \<noteq> 0" "cube_lits u a b \<noteq> []" "set (cube_lits u a b) \<subseteq> {..<2 * nLeaves g}"
    "graph_room g (length (cube_lits u a b) - 1)"
  shows "\<exists>r. Kit_SopFactorTrivialCube_rec g u a b = Inr r \<and>
    fbuilds (length (cube_lits u a b) - 1) g r (\<lambda>f. \<forall>i \<in> set (cube_lits u a b). flit f i)"
  using assms
proof (induction "b - a" arbitrary: g a b rule: less_induct)
  case less
  let ?L = "cube_lits u a b"
  have count: "cube_count u a b = (int (last ?L), length ?L)" using less.prems(3) by (simp add: cube_count_lits)
  show ?case
  proof (cases "length ?L = 1")
    case True
    then obtain i where L: "?L = [i]" by (auto simp: length_Suc_conv)
    then have "i div 2 < nLeaves g" using less.prems(4) by auto
    then have "fbuilds 0 g (Kit_EdgeCreate (i div 2) (i mod 2 \<noteq> 0), g) (\<lambda>f. f (i div 2) \<noteq> (i mod 2 \<noteq> 0))"
      by (rule fbuilds_leaf [OF less.prems(1,5)])
    then have "fbuilds 0 g (Kit_EdgeCreate (i div 2) (i mod 2 \<noteq> 0), g) (\<lambda>f. flit f i)"
      by (rule fbuilds_cong) (auto simp: flit_def even_iff_mod_2_eq_zero)
    then show ?thesis
      using True L count less.prems(2) by (subst Kit_SopFactorTrivialCube_rec.simps) (simp add: Let_def)
  next
    case False
    define k where "k = length ?L div 2"
    have "length ?L \<noteq> 0" using less.prems(3) by simp
    then have k: "0 < k" "k < length ?L" using False unfolding k_def by arith+
    define i where "i = cube_split u k b 0 [a..<b]"
    note split = cube_split_inside [OF k, folded i_def]
    have L1: "cube_lits u a i \<noteq> []" "length (cube_lits u a i) = k" "set (cube_lits u a i) \<subseteq> set ?L"
      using split(3) k by (auto dest: in_set_takeD)
    have L2: "cube_lits u i b \<noteq> []" "length (cube_lits u i b) = length ?L - k" "set (cube_lits u i b) \<subseteq> set ?L"
      using split(4) k by (auto dest: in_set_dropD)
    have sum: "(k - 1) + (length ?L - k - 1) + 1 = length ?L - 1" using k by arith
    then have room: "graph_room g ((k - 1) + (length ?L - k - 1) + 1)" using less.prems(5) by (simp only:)
    have lt: "i - a < b - a" "b - i < b - a" using split(1,2) by simp_all
    have sub: "set (cube_lits u a i) \<subseteq> {..<2 * nLeaves g}" "set (cube_lits u i b) \<subseteq> {..<2 * nLeaves g}"
      using L1(3) L2(3) less.prems(4) by blast+
    obtain e1 g1 where 1: "Kit_SopFactorTrivialCube_rec g u a i = Inr (e1, g1)"
        "fbuilds (k - 1) g (e1, g1) (\<lambda>f. \<forall>i \<in> set (cube_lits u a i). flit f i)"
      using less.hyps [OF lt(1) less.prems(1,2) L1(1) sub(1)] L1(2) graph.room_mono [OF room, of "k - 1"] by auto
    have room1: "graph_room g1 ((length ?L - k - 1) + 1)"
      using fbuilds_room [OF 1(2)] room by (simp add: add.assoc)
    obtain e2 g2 where 2: "Kit_SopFactorTrivialCube_rec g1 u i b = Inr (e2, g2)"
        "fbuilds (length ?L - k - 1) g1 (e2, g2) (\<lambda>f. \<forall>i \<in> set (cube_lits u i b). flit f i)"
      using less.hyps [OF lt(2) fbuilds_simps(1) [OF 1(2)] less.prems(2) L2(1)] sub(2) L2(2) fbuilds_simps(2) [OF 1(2)]
        graph.room_mono [OF room1, of "length ?L - k - 1"] by auto
    have "set ?L = set (cube_lits u a i) \<union> set (cube_lits u i b)"
      using split(3,4) by (metis append_take_drop_id set_append)
    then have "fbuilds (length ?L - 1) g (Kit_GraphAddNodeAnd g2 e1 e2) (\<lambda>f. \<forall>i \<in> set ?L. flit f i)"
      using fbuilds_cong [OF fbuilds_and [OF 1(2) 2(2) room], of "\<lambda>f. \<forall>i \<in> set ?L. flit f i"]
      unfolding sum by auto
    then show ?thesis
      using 1(1) 2(1) count False less.prems(2) k_def i_def
      by (subst Kit_SopFactorTrivialCube_rec.simps) (simp add: Let_def)
  qed
qed

text \<open>The literals of a cube below a bound, and the tree of a whole cube.\<close>

lemma set_cube_lits: "lits u \<subseteq> {..<n} \<Longrightarrow> set (cube_lits u 0 n) = lits u"
  by (auto simp: cube_lits_def Kit_CubeHasLit_lits)

lemma length_cube_lits: "lits u \<subseteq> {..<n} \<Longrightarrow> length (cube_lits u 0 n) = card (lits u)"
  using distinct_card [of "cube_lits u 0 n"] by (simp add: set_cube_lits) (simp add: cube_lits_def)

lemma Kit_SopFactorTrivialCube_builds:
  assumes "graph_ok g" "u \<noteq> 0" "lits u \<subseteq> {..<2 * nLeaves g}" "graph_room g (card (lits u) - 1)"
  shows "\<exists>r. Kit_SopFactorTrivialCube_rec g u 0 (2 * nLeaves g) = Inr r \<and>
    fbuilds (card (lits u) - 1) g r (\<lambda>f. cube_val (flit f) u)"
proof -
  have "cube_lits u 0 (2 * nLeaves g) \<noteq> []"
    using assms(2,3) set_cube_lits [OF assms(3)] by (metis empty_set lits_empty)
  then show ?thesis
    using Kit_SopFactorTrivialCube_rec_builds [of g u 0 "2 * nLeaves g"] assms
    by (simp add: set_cube_lits length_cube_lits cube_val_def)
qed

lemma Kit_SopFactorTrivial_rec_builds:
  assumes "graph_ok g" "us \<noteq> []" "\<forall>u \<in> set us. u \<noteq> 0 \<and> lits u \<subseteq> {..<2 * nLeaves g}" "graph_room g (weight us - 1)"
  shows "\<exists>r. Kit_SopFactorTrivial_rec g us (2 * nLeaves g) = Inr r \<and>
    fbuilds (weight us - 1) g r (\<lambda>f. cover_val (flit f) us)"
  using assms
proof (induction "length us" arbitrary: g us rule: less_induct)
  case less
  show ?case
  proof (cases "length us = 1")
    case True
    then obtain u where us: "us = [u]" by (auto simp: length_Suc_conv)
    then show ?thesis
      using Kit_SopFactorTrivialCube_builds [of g u] less.prems
      by (subst Kit_SopFactorTrivial_rec.simps) (simp add: cover_val_def)
  next
    case False
    define k where "k = length us div 2"
    have "length us \<noteq> 0" using less.prems(2) by simp
    then have k: "0 < k" "k < length us" using False unfolding k_def by arith+
    let ?A = "take k us" and ?B = "drop k us"
    have AB: "?A \<noteq> []" "?B \<noteq> []" "length ?A < length us" "length ?B < length us"
      "set ?A \<subseteq> set us" "set ?B \<subseteq> set us" "us = ?A @ ?B"
      using k by (auto dest: in_set_takeD in_set_dropD)
    have pos: "0 < weight vs" if "vs \<noteq> []" "set vs \<subseteq> set us" for vs
      using that less.prems(3) by (cases vs) (auto simp: card_gt_0_iff)
    have w: "weight us = weight ?A + weight ?B" using AB(7) by (metis weight_simps(3))
    note wpos = pos [OF AB(1,5)] pos [OF AB(2,6)]
    have sum: "(weight ?A - 1) + (weight ?B - 1) + 1 = weight us - 1" using w wpos by arith
    then have room: "graph_room g ((weight ?A - 1) + (weight ?B - 1) + 1)" using less.prems(4) by (simp only:)
    have cubes: "\<forall>u \<in> set ?A. u \<noteq> 0 \<and> lits u \<subseteq> {..<2 * nLeaves g}" "\<forall>u \<in> set ?B. u \<noteq> 0 \<and> lits u \<subseteq> {..<2 * nLeaves g}"
      using AB(5,6) less.prems(3) by blast+
    obtain e1 g1 where 1: "Kit_SopFactorTrivial_rec g ?A (2 * nLeaves g) = Inr (e1, g1)"
        "fbuilds (weight ?A - 1) g (e1, g1) (\<lambda>f. cover_val (flit f) ?A)"
      using less.hyps [OF AB(3) less.prems(1) AB(1) cubes(1)] graph.room_mono [OF room, of "weight ?A - 1"] by auto
    have room1: "graph_room g1 ((weight ?B - 1) + 1)" using fbuilds_room [OF 1(2)] room by (simp add: add.assoc)
    obtain e2 g2 where 2: "Kit_SopFactorTrivial_rec g1 ?B (2 * nLeaves g) = Inr (e2, g2)"
        "fbuilds (weight ?B - 1) g1 (e2, g2) (\<lambda>f. cover_val (flit f) ?B)"
      using less.hyps [OF AB(4) fbuilds_simps(1) [OF 1(2)] AB(2)] cubes(2) fbuilds_simps(2) [OF 1(2)]
        graph.room_mono [OF room1, of "weight ?B - 1"] by auto
    have "cover_val f us \<longleftrightarrow> cover_val f ?A \<or> cover_val f ?B" for f
      using AB(7) unfolding cover_val_def by (metis Un_iff set_append)
    then have "fbuilds (weight us - 1) g (Kit_GraphAddNodeOr g2 e1 e2) (\<lambda>f. cover_val (flit f) us)"
      using fbuilds_cong [OF fbuilds_or [OF 1(2) 2(2) room], of "\<lambda>f. cover_val (flit f) us"]
      unfolding sum by simp
    then show ?thesis
      using 1(1) 2(1) False less.prems(2) k_def by (subst Kit_SopFactorTrivial_rec.simps) (simp add: Let_def)
  qed
qed

section \<open>Factoring\<close>

text \<open>The first argument is the recursive call of \<open>Kit_SopFactor_rec\<close>.\<close>

definition Kit_SopFactorLF_rec ::
  "(Kit_Graph \<Rightarrow> u32 list \<Rightarrow> nat \<Rightarrow> Vec_Int \<Rightarrow> (Kit_Edge \<times> Kit_Graph \<times> Vec_Int) res) \<Rightarrow>
   Kit_Graph \<Rightarrow> u32 list \<Rightarrow> u32 list \<Rightarrow> nat \<Rightarrow> Vec_Int \<Rightarrow> (Kit_Edge \<times> Kit_Graph \<times> Vec_Int) res" where
  "Kit_SopFactorLF_rec factor pFForm cSop cSimple nLts vMemory =
    (if length cSimple \<noteq> 1 then Inl AssertFailed else
     res_bind (Kit_SopBestLiteralCover cSop (cSimple ! 0) nLts vMemory) (\<lambda>(cDiv, vMemory).
     res_bind (Kit_SopDivideByCube cSop cDiv vMemory) (\<lambda>(cQuo, cRem, vMemory).
     res_bind (Kit_SopFactorTrivialCube pFForm (cDiv ! 0) nLts) (\<lambda>(eNodeDiv, pFForm).
     res_bind (factor pFForm cQuo nLts vMemory) (\<lambda>(eNodeQuo, pFForm, vMemory).
     let (eNodeAnd, pFForm) = Kit_GraphAddNodeAnd pFForm eNodeDiv eNodeQuo in
     if length cRem = 0 then Inr (eNodeAnd, pFForm, vMemory)
     else res_bind (factor pFForm cRem nLts vMemory) (\<lambda>(eNodeRem, pFForm, vMemory).
       let (eNodeOr, pFForm) = Kit_GraphAddNodeOr pFForm eNodeAnd eNodeRem
       in Inr (eNodeOr, pFForm, vMemory)))))))"

fun Kit_SopFactor_rec ::
  "nat \<Rightarrow> Kit_Graph \<Rightarrow> u32 list \<Rightarrow> nat \<Rightarrow> Vec_Int \<Rightarrow> (Kit_Edge \<times> Kit_Graph \<times> Vec_Int) res" where
  "Kit_SopFactor_rec 0 pFForm cSop nLts vMemory = Inl OutOfFuel"
| "Kit_SopFactor_rec (Suc fuel) pFForm cSop nLts vMemory =
    (if \<not> length cSop > 0 then Inl AssertFailed else
     res_bind (Kit_SopDivisor cSop nLts vMemory) (\<lambda>(cDiv, vMemory).
     case cDiv of
       None \<Rightarrow> res_bind (Kit_SopFactorTrivial pFForm cSop nLts) (\<lambda>(eNode, pFForm). Inr (eNode, pFForm, vMemory))
     | Some cDiv \<Rightarrow>
       res_bind (Kit_SopDivideInternal cSop cDiv vMemory) (\<lambda>(cSop, cQuo, cRem, vMemory).
       if \<not> length cQuo > 0 then Inl AssertFailed
       else if length cQuo = 1 then
         Kit_SopFactorLF_rec (Kit_SopFactor_rec fuel) pFForm cSop cQuo nLts vMemory
       else
       let cQuo = Kit_SopMakeCubeFree cQuo in
       res_bind (Kit_SopDivideInternal cSop cQuo vMemory) (\<lambda>(cSop, cDiv, cRem, vMemory).
       if Kit_SopIsCubeFree cDiv then
         res_bind (Kit_SopFactor_rec fuel pFForm cDiv nLts vMemory) (\<lambda>(eNodeDiv, pFForm, vMemory).
         res_bind (Kit_SopFactor_rec fuel pFForm cQuo nLts vMemory) (\<lambda>(eNodeQuo, pFForm, vMemory).
         let (eNodeAnd, pFForm) = Kit_GraphAddNodeAnd pFForm eNodeDiv eNodeQuo in
         if length cRem = 0 then Inr (eNodeAnd, pFForm, vMemory)
         else res_bind (Kit_SopFactor_rec fuel pFForm cRem nLts vMemory) (\<lambda>(eNodeRem, pFForm, vMemory).
           let (eNodeOr, pFForm) = Kit_GraphAddNodeOr pFForm eNodeAnd eNodeRem
           in Inr (eNodeOr, pFForm, vMemory))))
       else
         res_bind (Kit_SopCommonCubeCover cDiv vMemory) (\<lambda>(cCom, vMemory).
           Kit_SopFactorLF_rec (Kit_SopFactor_rec fuel) pFForm cSop cCom nLts vMemory)))))"

definition KIT_FACTOR_MEM_LIMIT :: nat where
  "KIT_FACTOR_MEM_LIMIT = 2 ^ 20"

text \<open>\<open>Vec_IntGrow\<close> only ever increases the capacity.\<close>

definition Vec_IntGrow :: "Vec_Int \<Rightarrow> nat \<Rightarrow> Vec_Int" where
  "Vec_IntGrow p nCapMin = (if nCap p \<ge> nCapMin then p else p\<lparr>nCap := nCapMin\<rparr>)"

definition Kit_SopFactor :: "u32 list \<Rightarrow> bool \<Rightarrow> nat \<Rightarrow> Vec_Int \<Rightarrow> (Kit_Graph \<times> Vec_Int) res" where
  "Kit_SopFactor vCover compl nVars vMemory =
    (if \<not> nVars < 16 then Inl AssertFailed
     else if length vCover = 0 then Inr (Kit_GraphCreateConst0, vMemory)
     else if length vCover = 1 \<and> vCover ! 0 = 0 then Inr (Kit_GraphCreateConst1, vMemory)
     else
       let vMemory = Vec_IntGrow vMemory KIT_FACTOR_MEM_LIMIT in
       res_bind (Kit_SopCreateInverse vCover vMemory) (\<lambda>(cSop, vMemory).
       let pFForm = Kit_GraphCreate nVars in
       res_bind (Kit_SopFactor_rec (Suc (weight cSop)) pFForm cSop (2 * nVars) vMemory) (\<lambda>(root, pFForm, vMemory).
       let pFForm = Kit_GraphSetRoot pFForm root;
           pFForm = (if compl then Kit_GraphComplement pFForm else pFForm)
       in Inr (pFForm, vMemory))))"

section \<open>Memory and the parts of a factored cover\<close>

definition fmem :: "nat \<Rightarrow> nat" where
  "fmem w = 4 * w * (w + 1)"

lemma fmem_add: "fmem a + fmem b \<le> fmem (a + b)"
  by (simp add: fmem_def algebra_simps)

lemma fmem_mono: "a \<le> b \<Longrightarrow> fmem a \<le> fmem b"
  unfolding fmem_def by (intro mult_le_mono) simp_all

lemma fmem_step: "fmem w + 8 * (w + 2) \<le> fmem (w + 2)"
  by (simp add: fmem_def algebra_simps)

text \<open>
  The contract of a factoring procedure on the covers with fewer than \<open>W\<close> literals: it builds an
  edge for the cover, with fewer nodes than literals, within the memory bound.
\<close>

definition factorable :: "Kit_Graph \<Rightarrow> u32 list \<Rightarrow> bool" where
  "factorable g C \<longleftrightarrow> sop_ok C \<and> (\<forall>u \<in> set C. lits u \<subseteq> {..<2 * nLeaves g})"

definition factors ::
  "(Kit_Graph \<Rightarrow> u32 list \<Rightarrow> nat \<Rightarrow> Vec_Int \<Rightarrow> (Kit_Edge \<times> Kit_Graph \<times> Vec_Int) res) \<Rightarrow> nat \<Rightarrow> bool" where
  "factors fac W \<longleftrightarrow> (\<forall>g C st. graph_ok g \<longrightarrow> factorable g C \<longrightarrow> weight C < W \<longrightarrow> graph_room g (weight C - 1) \<longrightarrow>
     res_ok (lacks st (fmem (weight C))) (fac g C (2 * nLeaves g) st)
       (\<lambda>(e, g', st'). fbuilds (weight C - 1) g (e, g') (\<lambda>f. cover_val (flit f) C) \<and> within st (fmem (weight C)) st'))"

lemma factorsD:
  assumes "factors fac W" "graph_ok g" "factorable g C" "weight C < W" "graph_room g (weight C - 1)" "n = 2 * nLeaves g"
  shows "res_ok (lacks st (fmem (weight C))) (fac g C n st)
    (\<lambda>(e, g', st'). fbuilds (weight C - 1) g (e, g') (\<lambda>f. cover_val (flit f) C) \<and> within st (fmem (weight C)) st')"
  using assms by (simp add: factors_def)

lemma factorable_leaves: "nLeaves g' = nLeaves g \<Longrightarrow> factorable g' C = factorable g C"
  by (simp add: factorable_def)

lemma weight_pos: "sop_ok C \<Longrightarrow> 0 < weight C"
  by (cases C) (auto simp: sop_ok_def card_gt_0_iff)

lemma length_le_weight: "\<forall>u \<in> set C. u \<noteq> 0 \<Longrightarrow> length C \<le> weight C"
proof (induction C)
  case (Cons u C)
  then have "0 < card (lits u)" by (simp add: card_gt_0_iff)
  then show ?case using Cons by simp
qed simp

text \<open>An edge times a quotient, plus a remainder unless it is empty: the end of both procedures.\<close>

definition factor_tail where
  "factor_tail fac n e1 g1 Q R st =
    res_bind (fac g1 Q n st) (\<lambda>(eNodeQuo, pFForm, vMemory).
     let (eNodeAnd, pFForm) = Kit_GraphAddNodeAnd pFForm e1 eNodeQuo in
     if length R = 0 then Inr (eNodeAnd, pFForm, vMemory)
     else res_bind (fac pFForm R n vMemory) (\<lambda>(eNodeRem, pFForm, vMemory).
       let (eNodeOr, pFForm) = Kit_GraphAddNodeOr pFForm eNodeAnd eNodeRem
       in Inr (eNodeOr, pFForm, vMemory)))"

lemma factor_tail_builds:
  assumes fac: "factors fac W" and e1: "fbuilds j g (e1, g1) F"
    and Q: "factorable g Q" "weight Q < W" and R: "R \<noteq> [] \<Longrightarrow> factorable g R \<and> weight R < W"
    and room: "graph_room g (j + weight Q + weight R)" and n: "n = 2 * nLeaves g"
  shows "res_ok (lacks st (fmem (weight Q) + fmem (weight R))) (factor_tail fac n e1 g1 Q R st)
    (\<lambda>(e, g', st'). fbuilds (j + weight Q + weight R) g (e, g')
        (\<lambda>f. F f \<and> cover_val (flit f) Q \<or> cover_val (flit f) R) \<and>
      within st (fmem (weight Q) + fmem (weight R)) st')"
proof -
  note g1 = fbuilds_simps [OF e1]
  have wQ: "0 < weight Q" using Q(1) weight_pos by (auto simp: factorable_def)
  have "graph_room g1 (weight Q + weight R)" using fbuilds_room [OF e1] room by (simp add: add.assoc)
  then have "graph_room g1 (weight Q - 1)" using graph.room_mono by simp
  note quo = factorsD [OF fac g1(1) _ Q(2) this, of n st, unfolded factorable_leaves [OF g1(2)], OF Q(1)]
  show ?thesis
    unfolding factor_tail_def
  proof (rule res_ok_bind, rule res_ok_mono [OF quo])
    fix x assume x: "case x of (e, g', st') \<Rightarrow> fbuilds (weight Q - 1) g1 (e, g') (\<lambda>f. cover_val (flit f) Q) \<and> within st (fmem (weight Q)) st'"
    obtain e2 g2 st2 where x2: "x = (e2, g2, st2)" by (cases x)
    have b2: "fbuilds (weight Q - 1) g1 (e2, g2) (\<lambda>f. cover_val (flit f) Q)" and st2: "within st (fmem (weight Q)) st2"
      using x x2 by auto
    have sum: "j + (weight Q - 1) + 1 = j + weight Q" using wQ by simp
    obtain e3 g3 where and3: "Kit_GraphAddNodeAnd g2 e1 e2 = (e3, g3)" by force
    have roomQ: "graph_room g (j + weight Q)" using graph.room_mono [OF room] by simp
    have b3: "fbuilds (j + weight Q) g (e3, g3) (\<lambda>f. F f \<and> cover_val (flit f) Q)"
      using fbuilds_and [OF e1 b2] roomQ unfolding sum and3 by blast
    note g3 = fbuilds_simps [OF b3]
    show "res_ok (lacks st (fmem (weight Q) + fmem (weight R)))
       (case x of (eNodeQuo, pFForm, vMemory) \<Rightarrow>
         let (eNodeAnd, pFForm) = Kit_GraphAddNodeAnd pFForm e1 eNodeQuo in
         if length R = 0 then Inr (eNodeAnd, pFForm, vMemory)
         else res_bind (fac pFForm R n vMemory) (\<lambda>(eNodeRem, pFForm, vMemory).
           let (eNodeOr, pFForm) = Kit_GraphAddNodeOr pFForm eNodeAnd eNodeRem
           in Inr (eNodeOr, pFForm, vMemory)))
       (\<lambda>(e, g', st'). fbuilds (j + weight Q + weight R) g (e, g')
          (\<lambda>f. F f \<and> cover_val (flit f) Q \<or> cover_val (flit f) R) \<and>
         within st (fmem (weight Q) + fmem (weight R)) st')"
    proof (cases "R = []")
      case True
      then show ?thesis
        using b3 st2 x2 and3 by (simp add: cover_val_def fmem_def)
    next
      case False
      then have R': "factorable g R" "weight R < W" "0 < weight R"
        using R weight_pos by (auto simp: factorable_def)
      have room3: "graph_room g3 (weight R)" using fbuilds_room [OF b3] room by simp
      then have "graph_room g3 (weight R - 1)" by (rule graph.room_mono) simp
      note rem = factorsD [OF fac g3(1) _ R'(2) this, of n st2, unfolded factorable_leaves [OF g3(2)], OF R'(1)]
      have sumR: "j + weight Q + (weight R - 1) + 1 = j + weight Q + weight R" using R'(3) by simp
      have "res_ok (lacks st (fmem (weight Q) + fmem (weight R)))
        (res_bind (fac g3 R n st2) (\<lambda>(eNodeRem, pFForm, vMemory).
           let (eNodeOr, pFForm) = Kit_GraphAddNodeOr pFForm e3 eNodeRem
           in Inr (eNodeOr, pFForm, vMemory)))
        (\<lambda>(e, g', st'). fbuilds (j + weight Q + weight R) g (e, g')
          (\<lambda>f. F f \<and> cover_val (flit f) Q \<or> cover_val (flit f) R) \<and>
         within st (fmem (weight Q) + fmem (weight R)) st')"
      proof (rule res_ok_bind, rule res_ok_mono [OF rem])
        fix y assume y: "case y of (e, g', st') \<Rightarrow> fbuilds (weight R - 1) g3 (e, g') (\<lambda>f. cover_val (flit f) R) \<and> within st2 (fmem (weight R)) st'"
        obtain e4 g4 st4 where y4: "y = (e4, g4, st4)" by (cases y)
        have b4: "fbuilds (weight R - 1) g3 (e4, g4) (\<lambda>f. cover_val (flit f) R)" and st4: "within st2 (fmem (weight R)) st4"
          using y y4 by auto
        obtain e5 g5 where or5: "Kit_GraphAddNodeOr g4 e3 e4 = (e5, g5)" by force
        have "fbuilds (j + weight Q + weight R) g (e5, g5) (\<lambda>f. F f \<and> cover_val (flit f) Q \<or> cover_val (flit f) R)"
          using fbuilds_or [OF b3 b4] room unfolding sumR or5 by blast
        then show "res_ok (lacks st (fmem (weight Q) + fmem (weight R)))
          (case y of (eNodeRem, pFForm, vMemory) \<Rightarrow>
             let (eNodeOr, pFForm) = Kit_GraphAddNodeOr pFForm e3 eNodeRem in Inr (eNodeOr, pFForm, vMemory))
          (\<lambda>(e, g', st'). fbuilds (j + weight Q + weight R) g (e, g')
            (\<lambda>f. F f \<and> cover_val (flit f) Q \<or> cover_val (flit f) R) \<and>
           within st (fmem (weight Q) + fmem (weight R)) st')"
          using within_trans [OF st2 st4] y4 or5 by simp
      qed (use g3(2) n within_lacks [OF st2] in auto)
      then show ?thesis using False x2 and3 by simp
    qed
  qed (use g1(2) n lacks_mono in auto)
qed

section \<open>Dividing out a literal\<close>

lemma division_lits:
  assumes "division C D Q R" "d \<in> set D" "\<forall>u \<in> set C. lits u \<subseteq> S"
  shows "\<forall>q \<in> set Q. lits q \<subseteq> S" "\<forall>r \<in> set R. lits r \<subseteq> S"
proof -
  have "q OR d \<in> set C" if "q \<in> set Q" for q
    using assms(1) productsI [OF that assms(2)] by (auto simp: division_def)
  then show "\<forall>q \<in> set Q. lits q \<subseteq> S" using assms(3) by fastforce
  show "\<forall>r \<in> set R. lits r \<subseteq> S" using assms by (auto simp: division_def)
qed

lemma literal_division:
  assumes C: "sop_ok C" and b: "2 \<le> lit_count C b" and dv: "division C [Kit_CubeSetLit 0 b] Q R"
  shows "sop_ok Q" "2 \<le> length Q" "R \<noteq> [] \<Longrightarrow> sop_ok R" "weight C = length Q + weight Q + weight R"
    "cover_val f C \<longleftrightarrow> f b \<and> cover_val f Q \<or> cover_val f R"
proof -
  let ?l = "Kit_CubeSetLit 0 b"
  note K = Kit_SopDivideByLiteralQuo_kernel [OF C b]
  have l: "lits ?l = {b}" using K(3) by simp
  have C': "distinct C" using C by (simp add: sop_ok_def antichain_def)
  have D: "antichain [?l]" by (simp add: antichain_def)
  note A = division_antichain [OF C D _ dv]
  have "q \<in> set Q" if "q \<in> set (Kit_SopDivideByLiteralQuo C b)" for q
  proof -
    have "lits q \<inter> lits ?l = {} \<and> q OR ?l \<in> set C"
      using K(4) that by (auto simp: divides_out_def or.commute Int_commute)
    then have "divides_out C [?l] q" by (simp add: divides_out_def)
    then show ?thesis using dv by (simp add: division_def)
  qed
  then have "card (set (Kit_SopDivideByLiteralQuo C b)) \<le> card (set Q)" by (intro card_mono) auto
  moreover have "distinct (Kit_SopDivideByLiteralQuo C b)"
    using K(1) by (simp add: divisor_ok_def sop_ok_def antichain_def)
  moreover have "distinct Q" using dv by (simp add: division_def)
  ultimately show len: "2 \<le> length Q" using K(2) b by (simp add: distinct_card)
  have "divisor_ok Q"
    using A(1,4,5) len C by (intro divisor_okI) (auto simp: sop_ok_def)
  then show "sop_ok Q" by (simp add: divisor_ok_def)
  show "R \<noteq> [] \<Longrightarrow> sop_ok R" using A(3) by simp
  show "weight C = length Q + weight Q + weight R"
    using division_weight [OF C' D dv] l by simp
  show "cover_val f C \<longleftrightarrow> f b \<and> cover_val f Q \<or> cover_val f R"
    using division_val [OF dv, of f] l by (auto simp: cover_val_def cube_val_def)
qed

lemma Kit_SopFactorLF_rec_builds:
  assumes fac: "factors fac (weight C)" and g: "graph_ok g" "factorable g C" "graph_room g (weight C - 1)"
    and i: "i \<in> lits u" "i < n" "2 \<le> lit_count C i" and n: "n = 2 * nLeaves g"
  shows "res_ok (lacks st (3 * weight C + fmem (weight C - 2))) (Kit_SopFactorLF_rec fac g C [u] n st)
    (\<lambda>(e, g', st'). fbuilds (weight C - 1) g (e, g') (\<lambda>f. cover_val (flit f) C) \<and>
      within st (3 * weight C + fmem (weight C - 2)) st')"
proof -
  have C: "sop_ok C" "\<forall>u \<in> set C. lits u \<subseteq> {..<2 * nLeaves g}" using g(2) by (auto simp: factorable_def)
  let ?W = "weight C" and ?M = "3 * weight C + fmem (weight C - 2)"
  have W: "length C \<le> ?W" using C(1) by (intro length_le_weight) (simp add: sop_ok_def)
  obtain b where b: "Kit_SopBestLiteral C n u = int b" "b < n" "2 \<le> lit_count C b"
    using Kit_SopBestLiteral_cases [of C n u] i by (auto simp: Kit_CubeHasLit_lits)
  have b32: "b < 32" using Kit_SopDivideByLiteralQuo_kernel(3) [OF C(1) b(3)] .
  let ?l = "Kit_CubeSetLit 0 b"
  have l: "lits ?l = {b}" using b32 by simp
  then have lnz: "?l \<noteq> 0" by (metis insert_not_empty lits_empty)
  have best: "Kit_SopBestLiteralCover C u n st = res_bind (sop_alloc st 1) (\<lambda>vMemory. Inr ([?l], vMemory))"
    by (simp add: Kit_SopBestLiteralCover_def b(1))
  obtain e1 g1 where e1: "Kit_SopFactorTrivialCube g ?l n = Inr (e1, g1)"
      "fbuilds 0 g (e1, g1) (\<lambda>f. cube_val (flit f) ?l)"
    using Kit_SopFactorTrivialCube_builds [OF g(1) lnz] graph.room_mono [OF g(3), of 0] b(2) n
    by (auto simp: Kit_SopFactorTrivialCube_def l)
  have lf: "Kit_SopFactorLF_rec fac g C [u] n st =
      res_bind (sop_alloc st 1) (\<lambda>st1. res_bind (Kit_SopDivideByCube C [?l] st1)
        (\<lambda>(Q, R, st2). factor_tail fac n e1 g1 Q R st2))"
    by (simp add: Kit_SopFactorLF_rec_def best res_bind_assoc e1(1) factor_tail_def)
  show ?thesis
    unfolding lf
  proof (rule res_ok_alloc)
    fix st1 assume st1: "within st 1 st1"
    note div = Kit_SopDivideByCube_division [OF C(1), where d = ?l and st = st1]
    show "res_ok (lacks st ?M) (res_bind (Kit_SopDivideByCube C [?l] st1) (\<lambda>(Q, R, st2). factor_tail fac n e1 g1 Q R st2))
      (\<lambda>(e, g', st'). fbuilds (?W - 1) g (e, g') (\<lambda>f. cover_val (flit f) C) \<and> within st ?M st')"
    proof (rule res_ok_bind, rule res_ok_mono [OF div])
      fix x assume x: "case x of (Q, R, st') \<Rightarrow> division C [?l] Q R \<and> within st1 (2 * length C) st'"
      obtain Q R st2 where x2: "x = (Q, R, st2)" by (cases x)
      have dv: "division C [?l] Q R" and st2: "within st1 (2 * length C) st2" using x x2 by auto
      note L = literal_division [OF C(1) b(3) dv]
      note lts = division_lits [OF dv _ C(2), of ?l, simplified]
      have Q: "factorable g Q" "weight Q < ?W" and R: "R \<noteq> [] \<Longrightarrow> factorable g R \<and> weight R < ?W"
        using L(1-4) lts by (auto simp: factorable_def)
      have "0 + weight Q + weight R \<le> ?W - 1" "weight Q + weight R \<le> ?W - 2" using L(2,4) by linarith+
      then have room: "graph_room g (0 + weight Q + weight R)"
        and mem: "fmem (weight Q) + fmem (weight R) \<le> fmem (?W - 2)"
        using graph.room_mono [OF g(3)] fmem_add [of "weight Q" "weight R"] fmem_mono [of "weight Q + weight R" "?W - 2"]
        by auto
      have total: "within st (1 + 2 * length C) st2" using within_trans [OF st1 st2] by simp
      have "1 \<le> ?W" using weight_pos [OF C(1)] by simp
      then have le: "1 + 2 * length C + (fmem (weight Q) + fmem (weight R)) \<le> ?M" using W mem by linarith
      have val: "cover_val (flit f) C \<longleftrightarrow> cube_val (flit f) ?l \<and> cover_val (flit f) Q \<or> cover_val (flit f) R" for f
        using L(5) by (simp add: cube_val_def l)
      have nodes: "fbuilds (?W - 1) g r (\<lambda>f. cover_val (flit f) C)"
        if "fbuilds (0 + weight Q + weight R) g r (\<lambda>f. cube_val (flit f) ?l \<and> cover_val (flit f) Q \<or> cover_val (flit f) R)" for r
        by (rule fbuilds_cong [OF fbuilds_mono [OF that \<open>0 + weight Q + weight R \<le> ?W - 1\<close>] val [symmetric]])
      show "res_ok (lacks st ?M) (case x of (Q, R, st2) \<Rightarrow> factor_tail fac n e1 g1 Q R st2)
        (\<lambda>(e, g', st'). fbuilds (?W - 1) g (e, g') (\<lambda>f. cover_val (flit f) C) \<and> within st ?M st')"
        unfolding x2 prod.case
      proof (rule res_ok_mono [OF factor_tail_builds [OF fac e1(2) Q R room n]])
        show "lacks st ?M" if "lacks st2 (fmem (weight Q) + fmem (weight R))"
          by (rule within_lacks [OF total that le])
        fix y assume y: "case y of (e, g', st') \<Rightarrow> fbuilds (0 + weight Q + weight R) g (e, g')
            (\<lambda>f. cube_val (flit f) ?l \<and> cover_val (flit f) Q \<or> cover_val (flit f) R) \<and>
            within st2 (fmem (weight Q) + fmem (weight R)) st'"
        obtain e3 g3 st3 where y3: "y = (e3, g3, st3)" by (cases y)
        show "case y of (e, g', st') \<Rightarrow> fbuilds (?W - 1) g (e, g') (\<lambda>f. cover_val (flit f) C) \<and> within st ?M st'"
          using y nodes [of "(e3, g3)"] within_trans [OF total _ le, of st3] unfolding y3 prod.case by blast
      qed
    next
      show "lacks st ?M" if "lacks st1 (2 * length C)"
        by (rule within_lacks [OF st1 that]) (use W weight_pos [OF C(1)] in linarith)
    qed
  next
    show "lacks st ?M" if "lacks st 1" by (rule lacks_mono [OF that]) (use weight_pos [OF C(1)] in linarith)
  qed
qed

section \<open>Dividing by a kernel\<close>

text \<open>A literal of different cubes of the cover occurs at least twice.\<close>

lemma shared_literal:
  assumes C: "sop_ok C" and D: "distinct D" "2 \<le> length D"
    and c: "\<And>d. d \<in> set D \<Longrightarrow> lits c \<inter> lits d = {} \<and> c OR d \<in> set C \<and> i \<in> lits (c OR d)"
  shows "2 \<le> lit_count C i"
proof -
  have "inj_on (\<lambda>d. c OR d) (set D)"
  proof (rule inj_onI)
    fix d e assume de: "d \<in> set D" "e \<in> set D" "c OR d = c OR e"
    then have "lits c \<union> lits d = lits c \<union> lits e" by (metis lits_ops(2))
    then have "lits d = lits e" using c [OF de(1)] c [OF de(2)] by blast
    then show "d = e" by simp
  qed
  then have "card ((\<lambda>d. c OR d) ` set D) = length D" using D(1) by (simp add: card_image distinct_card)
  moreover have "(\<lambda>d. c OR d) ` set D \<subseteq> set (filter (\<lambda>u. i \<in> lits u) C)" using c by auto
  ultimately have "length D \<le> card (set (filter (\<lambda>u. i \<in> lits u) C))"
    by (metis List.finite_set card_mono)
  also have "\<dots> \<le> length (filter (\<lambda>u. i \<in> lits u) C)" by (rule card_length)
  finally show ?thesis using D(2) by (simp add: lit_count_length sop_ok_cubes [OF C])
qed

lemma kernel_distinct: "divisor_ok D \<Longrightarrow> distinct D" "divisor_ok D \<Longrightarrow> antichain D" "divisor_ok D \<Longrightarrow> 2 \<le> length D"
  "divisor_ok D \<Longrightarrow> D \<noteq> []" "divisor_ok D \<Longrightarrow> sop_ok D"
  by (auto simp: divisor_ok_def sop_ok_def antichain_def)

lemma divisor_literal:
  assumes "sop_ok C" "divisor_ok D" "divides_out C D c" "i \<in> lits c"
  shows "2 \<le> lit_count C i"
  using assms by (intro shared_literal [OF assms(1) kernel_distinct(1,3) [OF assms(2)], of c]) (auto simp: divides_out_def)

lemma quotient_kernel:
  assumes C: "sop_ok C" and D: "antichain D" "D \<noteq> []" and dv: "division C D Q R" and Q: "2 \<le> length Q"
  shows "divisor_ok Q"
  using division_antichain [OF C D dv] Q C by (intro divisor_okI) (auto simp: sop_ok_def)

text \<open>Dividing by the cube-free quotient gives back at least as much as the divisor.\<close>

lemma second_division:
  assumes C: "sop_ok C" and D: "divisor_ok D" and dv: "division C D Q R" and Q: "divisor_ok Q"
    and dv2: "division C (Kit_SopMakeCubeFree Q) D2 R2"
  shows "divisor_ok D2"
proof (rule quotient_kernel [OF C _ _ dv2])
  note K = Kit_SopMakeCubeFree_kernel [OF Q]
  show "antichain (Kit_SopMakeCubeFree Q)" "Kit_SopMakeCubeFree Q \<noteq> []" using kernel_distinct(2,4) [OF K(1)] .
  let ?q = "Kit_SopCommonCube Q"
  have mem: "d OR ?q \<in> set D2 \<and> lits ?q \<inter> lits d = {}" if d: "d \<in> set D" for d
  proof
    have "divides_out C Q d"
      using dv d productsI [of _ Q d D] by (auto simp: division_def divides_out_def disjoint_covers_def or.commute Int_commute)
    then have "divides_out C (Kit_SopMakeCubeFree Q) (d OR ?q)" by (rule divides_out_trans [OF _ K(3)])
    then show "d OR ?q \<in> set D2" using dv2 by (simp add: division_def)
    obtain q where q: "q \<in> set Q" using kernel_distinct(4) [OF Q] by (meson last_in_set)
    then have "lits ?q \<subseteq> lits q" using Kit_SopCommonCube_sub [of q Q] sop_ok_cubes kernel_distinct(5) [OF Q] by simp
    moreover have "lits q \<inter> lits d = {}" using dv q d by (auto simp: division_def disjoint_covers_def)
    ultimately show "lits ?q \<inter> lits d = {}" by blast
  qed
  have "inj_on (\<lambda>d. d OR ?q) (set D)"
  proof (rule inj_onI)
    fix d e assume de: "d \<in> set D" "e \<in> set D" "d OR ?q = e OR ?q"
    then have "lits d \<union> lits ?q = lits e \<union> lits ?q" by (metis lits_ops(2))
    then have "lits d = lits e" using mem [OF de(1)] mem [OF de(2)] by blast
    then show "d = e" by simp
  qed
  then have "length D = card ((\<lambda>d. d OR ?q) ` set D)"
    using kernel_distinct(1) [OF D] by (simp add: card_image distinct_card)
  also have "\<dots> \<le> card (set D2)" using mem by (intro card_mono) auto
  also have "\<dots> \<le> length D2" by (rule card_length)
  finally show "2 \<le> length D2" using kernel_distinct(3) [OF D] by simp
qed

lemma common_literal:
  assumes C: "sop_ok C" and Q: "divisor_ok Q" and dv: "division C Q D R" and D: "divisor_ok D"
    and i: "i \<in> lits (Kit_SopCommonCube D)"
  shows "2 \<le> lit_count C i"
proof -
  obtain q where q: "q \<in> set Q" using kernel_distinct(4) [OF Q] by (meson last_in_set)
  have "i \<in> lits d" if "d \<in> set D" for d
    using Kit_SopCommonCube_sub [of d D] that i sop_ok_cubes [OF kernel_distinct(5) [OF D]] by auto
  then show ?thesis
    using dv q productsI [of _ D q Q]
    by (intro shared_literal [OF C kernel_distinct(1,3) [OF D], of q])
       (auto simp: division_def disjoint_covers_def or.commute Int_commute)
qed

section \<open>Factoring is correct\<close>

text \<open>The branches of the recursion, after a divisor and after the second division.\<close>

definition factor_again where
  "factor_again fac g C Q n st =
    res_bind (Kit_SopDivideInternal C Q st) (\<lambda>(cSop, cDiv, cRem, vMemory).
      if Kit_SopIsCubeFree cDiv then
        res_bind (fac g cDiv n vMemory) (\<lambda>(eNodeDiv, pFForm, vMemory). factor_tail fac n eNodeDiv pFForm Q cRem vMemory)
      else res_bind (Kit_SopCommonCubeCover cDiv vMemory) (\<lambda>(cCom, vMemory).
        Kit_SopFactorLF_rec fac g cSop cCom n vMemory))"

definition factor_by where
  "factor_by fac g C D n st =
    res_bind (Kit_SopDivideInternal C D st) (\<lambda>(cSop, cQuo, cRem, vMemory).
      if \<not> length cQuo > 0 then Inl AssertFailed
      else if length cQuo = 1 then Kit_SopFactorLF_rec fac g cSop cQuo n vMemory
      else factor_again fac g cSop (Kit_SopMakeCubeFree cQuo) n vMemory)"

lemma Kit_SopFactor_rec_branches:
  "Kit_SopFactor_rec (Suc fuel) g C n st =
    (if \<not> length C > 0 then Inl AssertFailed else
     res_bind (Kit_SopDivisor C n st) (\<lambda>(cDiv, vMemory).
     case cDiv of
       None \<Rightarrow> res_bind (Kit_SopFactorTrivial g C n) (\<lambda>(eNode, pFForm). Inr (eNode, pFForm, vMemory))
     | Some cDiv \<Rightarrow> factor_by (Kit_SopFactor_rec fuel) g C cDiv n vMemory))"
  by (simp only: Kit_SopFactor_rec.simps factor_by_def factor_again_def factor_tail_def Let_def)

abbreviation factored :: "Kit_Graph \<Rightarrow> u32 list \<Rightarrow> Vec_Int \<Rightarrow> nat \<Rightarrow> (Kit_Edge \<times> Kit_Graph \<times> Vec_Int) res \<Rightarrow> bool" where
  "factored g C st k r \<equiv> res_ok (lacks st k) r (\<lambda>(e, g', st').
     fbuilds (weight C - 1) g (e, g') (\<lambda>f. cover_val (flit f) C) \<and> within st k st')"

lemma factored_within: "factored g C st1 k r \<Longrightarrow> within st j st1 \<Longrightarrow> j + k \<le> l \<Longrightarrow> factored g C st l r"
  by (erule res_ok_mono) (auto intro: within_lacks within_trans)

text \<open>The product of a divisor and a quotient of at least two cubes each.\<close>

lemma factor_product:
  assumes fac: "factors fac (weight C)" and g: "graph_ok g" "factorable g C" "graph_room g (weight C - 1)"
    and n: "n = 2 * nLeaves g" and Q: "divisor_ok Q" and D: "divisor_ok D" and dv: "division C Q D R"
  shows "factored g C st (fmem (weight C - 2))
    (res_bind (fac g D n st) (\<lambda>(eNodeDiv, pFForm, vMemory). factor_tail fac n eNodeDiv pFForm Q R vMemory))"
proof -
  have C: "sop_ok C" "\<forall>u \<in> set C. lits u \<subseteq> {..<2 * nLeaves g}" "distinct C"
    using g(2) by (auto simp: factorable_def sop_ok_def antichain_def)
  obtain q where q: "q \<in> set Q" using kernel_distinct(4) [OF Q] by (meson last_in_set)
  obtain d where d: "d \<in> set D" using kernel_distinct(4) [OF D] by (meson last_in_set)
  note lts = division_lits [OF dv q C(2)]
  have Qlits: "\<forall>u \<in> set Q. lits u \<subseteq> {..<2 * nLeaves g}"
    using dv productsI [OF d] C(2) by (fastforce simp: division_def)
  have w: "weight C = length Q * weight D + length D * weight Q + weight R"
    by (rule division_weight [OF C(3) kernel_distinct(2) [OF Q] dv])
  have "2 * weight D \<le> length Q * weight D" "2 * weight Q \<le> length D * weight Q"
    using kernel_distinct(3) [OF Q] kernel_distinct(3) [OF D] by (auto intro: mult_le_mono1)
  moreover have wpos: "0 < weight D" "0 < weight Q" using weight_pos kernel_distinct(5) Q D by auto
  ultimately have le: "weight D + weight Q + weight R + 2 \<le> weight C" using w by linarith
  have ok: "factorable g D" "factorable g Q" "R \<noteq> [] \<Longrightarrow> factorable g R"
    using kernel_distinct(5) [OF D] kernel_distinct(5) [OF Q] lts Qlits
      division_antichain(3) [OF C(1) kernel_distinct(2,4) [OF Q] dv]
    by (auto simp: factorable_def)
  have lt: "weight D < weight C" "weight Q < weight C" "weight R < weight C" using le wpos by linarith+
  have mem: "fmem (weight D) + (fmem (weight Q) + fmem (weight R)) \<le> fmem (weight C - 2)"
    using fmem_add [of "weight Q" "weight R"] fmem_add [of "weight D" "weight Q + weight R"]
      fmem_mono [of "weight D + (weight Q + weight R)" "weight C - 2"] le by linarith
  have sum: "weight D - 1 + weight Q + weight R \<le> weight C - 1" using le wpos by linarith
  have room: "graph_room g (weight D - 1 + weight Q + weight R)" by (rule graph.room_mono [OF g(3) sum])
  have room0: "graph_room g (weight D - 1)" by (rule graph.room_mono [OF room]) simp
  note rec = factorsD [OF fac g(1) ok(1) lt(1) room0 n]
  have val: "cover_val (flit f) D \<and> cover_val (flit f) Q \<or> cover_val (flit f) R \<longleftrightarrow> cover_val (flit f) C" for f
    using division_val [OF dv, of "flit f"] by blast
  show ?thesis
  proof (rule res_ok_bind, rule res_ok_mono [OF rec])
    show "lacks st (fmem (weight C - 2))" if "lacks st (fmem (weight D))"
      by (rule lacks_mono [OF that]) (use mem in linarith)
    fix x assume x: "case x of (e, g', st') \<Rightarrow>
      fbuilds (weight D - 1) g (e, g') (\<lambda>f. cover_val (flit f) D) \<and> within st (fmem (weight D)) st'"
    obtain e1 g1 st1 where x1: "x = (e1, g1, st1)" by (cases x)
    have b1: "fbuilds (weight D - 1) g (e1, g1) (\<lambda>f. cover_val (flit f) D)" and st1: "within st (fmem (weight D)) st1"
      using x x1 by auto
    have "res_ok (lacks st1 (fmem (weight Q) + fmem (weight R))) (factor_tail fac n e1 g1 Q R st1)
      (\<lambda>(e, g', st'). fbuilds (weight D - 1 + weight Q + weight R) g (e, g')
        (\<lambda>f. cover_val (flit f) D \<and> cover_val (flit f) Q \<or> cover_val (flit f) R) \<and>
        within st1 (fmem (weight Q) + fmem (weight R)) st')"
      using ok(3) lt(3) by (intro factor_tail_builds [OF fac b1 ok(2) lt(2) _ room n]) auto
    then have "factored g C st1 (fmem (weight Q) + fmem (weight R)) (factor_tail fac n e1 g1 Q R st1)"
      by (rule res_ok_mono) (use fbuilds_cong [OF fbuilds_mono [OF _ sum] val] in \<open>auto simp del: One_nat_def\<close>)
    then show "factored g C st (fmem (weight C - 2))
      (case x of (eNodeDiv, pFForm, vMemory) \<Rightarrow> factor_tail fac n eNodeDiv pFForm Q R vMemory)"
      unfolding x1 prod.case by (rule factored_within [OF _ st1 mem])
  qed
qed

lemma factor_again_factored:
  assumes fac: "factors fac (weight C)" and g: "graph_ok g" "factorable g C" "graph_room g (weight C - 1)"
    and n: "n = 2 * nLeaves g" and Q: "divisor_ok Q" "length Q \<le> length C"
    and D: "\<And>D R. division C Q D R \<Longrightarrow> divisor_ok D"
  shows "factored g C st (5 * weight C + 1 + fmem (weight C - 2)) (factor_again fac g C Q n st)"
proof -
  have C: "sop_ok C" "\<forall>u \<in> set C. lits u \<subseteq> {..<2 * nLeaves g}" using g(2) by (auto simp: factorable_def)
  let ?W = "weight C" and ?M = "fmem (weight C - 2)"
  have len: "2 * length C \<le> 2 * ?W" using length_le_weight [of C] C(1) by (simp add: sop_ok_def)
  have Q0: "0 \<notin> set Q" using kernel_distinct(5) [OF Q(1)] by (auto simp: sop_ok_def)
  note div = Kit_SopDivideInternal_division [OF C(1) kernel_distinct(2) [OF Q(1)] Q0 kernel_distinct(4) [OF Q(1)] Q(2)]
  show ?thesis
    unfolding factor_again_def
  proof (rule res_ok_bind, rule res_ok_mono [OF div])
    show "lacks st (5 * ?W + 1 + ?M)" if "lacks st (2 * length C)"
      by (rule lacks_mono [OF that]) (use len in linarith)
    fix x assume x: "case x of (C', D, R, st') \<Rightarrow> C' = C \<and> division C Q D R \<and> within st (2 * length C) st'"
    obtain D R st1 where x1: "x = (C, D, R, st1)" using x by (cases x) auto
    have dv: "division C Q D R" and st1: "within st (2 * length C) st1" using x x1 by auto
    note K = D [OF dv]
    have Dlits: "\<forall>d \<in> set D. lits d \<subseteq> {..<n}"
    proof -
      obtain q where "q \<in> set Q" using kernel_distinct(4) [OF Q(1)] by (meson last_in_set)
      from division_lits(1) [OF dv this C(2)] show ?thesis by (simp add: n)
    qed
    have "factored g C st1 (3 * ?W + 1 + ?M) (if Kit_SopIsCubeFree D then
        res_bind (fac g D n st1) (\<lambda>(eNodeDiv, pFForm, vMemory). factor_tail fac n eNodeDiv pFForm Q R vMemory)
      else res_bind (Kit_SopCommonCubeCover D st1) (\<lambda>(cCom, vMemory). Kit_SopFactorLF_rec fac g C cCom n vMemory))"
    proof (cases "Kit_SopIsCubeFree D")
      case True
      then show ?thesis
        using factored_within [OF factor_product [OF fac g n Q(1) K dv, of st1] within_refl, of 0 "3 * ?W + 1 + ?M"] by simp
    next
      case False
      let ?u = "Kit_SopCommonCube D"
      obtain i where i: "i \<in> lits ?u" using False lits_empty [of ?u] unfolding Kit_SopIsCubeFree_def by blast
      obtain d where d: "d \<in> set D" using kernel_distinct(4) [OF K] by (meson last_in_set)
      have "lits ?u \<subseteq> lits d" using Kit_SopCommonCube_sub [of d D] sop_ok_cubes [OF kernel_distinct(5) [OF K]] d by simp
      then have "i < n" using i d Dlits by blast
      note lf = Kit_SopFactorLF_rec_builds [OF fac g i this common_literal [OF C(1) Q(1) dv K i] n]
      have "Kit_SopCommonCubeCover D st1 = res_bind (sop_alloc st1 1) (\<lambda>st2. Inr ([?u], st2))"
        using kernel_distinct(4) [OF K] by (simp add: Kit_SopCommonCubeCover_def)
      moreover have "factored g C st1 (3 * ?W + 1 + ?M)
          (res_bind (sop_alloc st1 1) (\<lambda>st2. Kit_SopFactorLF_rec fac g C [?u] n st2))"
      proof (rule res_ok_alloc)
        show "lacks st1 (3 * ?W + 1 + ?M)" if "lacks st1 1" by (rule lacks_mono [OF that]) simp
        show "factored g C st1 (3 * ?W + 1 + ?M) (Kit_SopFactorLF_rec fac g C [?u] n st2)" if "within st1 1 st2" for st2
          by (rule factored_within [OF lf that]) simp
      qed
      ultimately show ?thesis using False by (simp add: res_bind_assoc)
    qed
    from factored_within [OF this st1, of "5 * ?W + 1 + ?M"] len
    show "factored g C st (5 * ?W + 1 + ?M) (case x of (cSop, cDiv, cRem, vMemory) \<Rightarrow>
      if Kit_SopIsCubeFree cDiv then
        res_bind (fac g cDiv n vMemory) (\<lambda>(eNodeDiv, pFForm, vMemory). factor_tail fac n eNodeDiv pFForm Q cRem vMemory)
      else res_bind (Kit_SopCommonCubeCover cDiv vMemory) (\<lambda>(cCom, vMemory).
        Kit_SopFactorLF_rec fac g cSop cCom n vMemory))"
      unfolding x1 prod.case by linarith
  qed
qed

lemma factor_by_factored:
  assumes fac: "factors fac (weight C)" and g: "graph_ok g" "factorable g C" "graph_room g (weight C - 1)"
    and n: "n = 2 * nLeaves g" and D: "divisor_ok D" "length D \<le> length C" and c: "divides_out C D c" "c \<noteq> 0"
  shows "factored g C st (7 * weight C + 1 + fmem (weight C - 2)) (factor_by fac g C D n st)"
proof -
  have C: "sop_ok C" "\<forall>u \<in> set C. lits u \<subseteq> {..<2 * nLeaves g}" using g(2) by (auto simp: factorable_def)
  let ?W = "weight C" and ?M = "fmem (weight C - 2)"
  have len: "2 * length C \<le> 2 * ?W" using length_le_weight [of C] C(1) by (simp add: sop_ok_def)
  have D0: "0 \<notin> set D" using kernel_distinct(5) [OF D(1)] by (auto simp: sop_ok_def)
  note div = Kit_SopDivideInternal_division [OF C(1) kernel_distinct(2) [OF D(1)] D0 kernel_distinct(4) [OF D(1)] D(2)]
  show ?thesis
    unfolding factor_by_def
  proof (rule res_ok_bind, rule res_ok_mono [OF div])
    show "lacks st (7 * ?W + 1 + ?M)" if "lacks st (2 * length C)"
      by (rule lacks_mono [OF that]) (use len in linarith)
    fix x assume x: "case x of (C', Q, R, st') \<Rightarrow> C' = C \<and> division C D Q R \<and> within st (2 * length C) st'"
    obtain Q R st1 where x1: "x = (C, Q, R, st1)" using x by (cases x) auto
    have dv: "division C D Q R" and st1: "within st (2 * length C) st1" using x x1 by auto
    have cQ: "c \<in> set Q" using dv c(1) by (simp add: division_def)
    have "factored g C st1 (5 * ?W + 1 + ?M) (if length Q = 1 then Kit_SopFactorLF_rec fac g C Q n st1
      else factor_again fac g C (Kit_SopMakeCubeFree Q) n st1)"
    proof (cases "length Q = 1")
      case True
      then have Qc: "Q = [c]" using cQ by (auto simp: length_Suc_conv)
      obtain i where i: "i \<in> lits c" using c(2) lits_empty [of c] by blast
      obtain d where d: "d \<in> set D" using kernel_distinct(4) [OF D(1)] by (meson last_in_set)
      have "i < n" using division_lits(1) [OF dv d C(2)] cQ i n by auto
      note lf = Kit_SopFactorLF_rec_builds [OF fac g i this divisor_literal [OF C(1) D(1) c(1) i] n, of st1]
      show ?thesis using factored_within [OF lf within_refl, of 0 "5 * ?W + 1 + ?M"] True Qc by simp
    next
      case False
      moreover have "0 < length Q" using cQ by (cases Q) auto
      ultimately have "2 \<le> length Q" by linarith
      then have Q: "divisor_ok Q" by (rule quotient_kernel [OF C(1) kernel_distinct(2,4) [OF D(1)] dv])
      note Q' = Kit_SopMakeCubeFree_kernel [OF Q]
      have "length (Kit_SopMakeCubeFree Q) \<le> length C"
        using Q'(2) division_antichain(4) [OF C(1) kernel_distinct(2,4) [OF D(1)] dv] by simp
      from factor_again_factored [OF fac g n Q'(1) this second_division [OF C(1) D(1) dv Q]]
      show ?thesis using False by simp
    qed
    from factored_within [OF this st1, of "7 * ?W + 1 + ?M"] len cQ
    show "factored g C st (7 * ?W + 1 + ?M) (case x of (cSop, cQuo, cRem, vMemory) \<Rightarrow>
      if \<not> length cQuo > 0 then Inl AssertFailed
      else if length cQuo = 1 then Kit_SopFactorLF_rec fac g cSop cQuo n vMemory
      else factor_again fac g cSop (Kit_SopMakeCubeFree cQuo) n vMemory)"
      unfolding x1 prod.case by (auto simp: length_pos_if_in_set)
  qed
qed

lemma factors_mono: "factors fac W \<Longrightarrow> V \<le> W \<Longrightarrow> factors fac V"
  by (simp add: factors_def)

text \<open>As many calls as the cover has literals are enough.\<close>

lemma Kit_SopFactor_rec_factors: "factors (Kit_SopFactor_rec fuel) fuel"
proof (induction fuel)
  case 0
  show ?case by (simp add: factors_def)
next
  case (Suc fuel)
  have "factored g C st (fmem (weight C)) (Kit_SopFactor_rec (Suc fuel) g C (2 * nLeaves g) st)"
    if g: "graph_ok g" "factorable g C" "graph_room g (weight C - 1)" and W: "weight C < Suc fuel" for g C st
  proof -
    have C: "sop_ok C" "\<forall>u \<in> set C. u \<noteq> 0 \<and> lits u \<subseteq> {..<2 * nLeaves g}" "C \<noteq> []"
      using g(2) by (auto simp: factorable_def sop_ok_def)
    have fac: "factors (Kit_SopFactor_rec fuel) (weight C)" using Suc.IH W by (rule factors_mono [OF _ less_Suc_eq_le [THEN iffD1]])
    have len: "length C \<le> weight C" using C(2) by (intro length_le_weight) simp
    obtain e g' where triv: "Kit_SopFactorTrivial g C (2 * nLeaves g) = Inr (e, g')"
        "fbuilds (weight C - 1) g (e, g') (\<lambda>f. cover_val (flit f) C)"
      using Kit_SopFactorTrivial_rec_builds [OF g(1) C(3,2) g(3)] by (auto simp: Kit_SopFactorTrivial_def)
    note spec = Kit_SopDivisor_spec [OF C(1), of st "2 * nLeaves g"]
    have "factored g C st (fmem (weight C))
      (res_bind (Kit_SopDivisor C (2 * nLeaves g) st) (\<lambda>(cDiv, vMemory). case cDiv of
         None \<Rightarrow> res_bind (Kit_SopFactorTrivial g C (2 * nLeaves g)) (\<lambda>(eNode, pFForm). Inr (eNode, pFForm, vMemory))
       | Some cDiv \<Rightarrow> factor_by (Kit_SopFactor_rec fuel) g C cDiv (2 * nLeaves g) vMemory))"
    proof (rule res_ok_bind, rule res_ok_mono [OF spec])
      have big: "length C \<le> fmem (weight C)" using len by (simp add: fmem_def algebra_simps)
      show "lacks st (fmem (weight C))" if "lacks st (length C)" by (rule lacks_mono [OF that big])
      fix x assume x: "case x of (r, st') \<Rightarrow> within st (length C) st' \<and> (case r of
          None \<Rightarrow> length C \<le> 1 \<or> (\<forall>i<2 * nLeaves g. lit_count C i < 2)
        | Some D \<Rightarrow> divisor_ok D \<and> length D \<le> length C \<and> (\<exists>c. divides_out C D c \<and> c \<noteq> 0))"
      obtain r st1 where x1: "x = (r, st1)" by (cases x)
      have st1: "within st (length C) st1" using x x1 by simp
      show "factored g C st (fmem (weight C)) (case x of (cDiv, vMemory) \<Rightarrow> case cDiv of
         None \<Rightarrow> res_bind (Kit_SopFactorTrivial g C (2 * nLeaves g)) (\<lambda>(eNode, pFForm). Inr (eNode, pFForm, vMemory))
       | Some cDiv \<Rightarrow> factor_by (Kit_SopFactor_rec fuel) g C cDiv (2 * nLeaves g) vMemory)"
      proof (cases r)
        case None
        then show ?thesis
          using triv within_trans [OF st1 within_refl, of 0 "fmem (weight C)"] big x1 by simp
      next
        case (Some D)
        then obtain c where D: "divisor_ok D" "length D \<le> length C" "divides_out C D c" "c \<noteq> 0"
          using x x1 by auto
        have "2 \<le> weight C" using kernel_distinct(3) [OF D(1)] D(2) len by linarith
        then obtain w where w: "weight C = w + 2" by (metis le_add_diff_inverse2)
        have "fmem w + 8 * (w + 2) + 8 \<le> fmem (w + 2)" by (simp add: fmem_def algebra_simps)
        then have "length C + (7 * weight C + 1 + fmem (weight C - 2)) \<le> fmem (weight C)"
          using len w by simp
        from factored_within [OF factor_by_factored [OF fac g refl D] st1 this] show ?thesis
          using Some x1 by simp
      qed
    qed
    then show ?thesis using C(3) by (simp only: Kit_SopFactor_rec_branches) simp
  qed
  then show ?case by (simp add: factors_def del: Kit_SopFactor_rec.simps)
qed

section \<open>From covers and truth tables to graphs\<close>

lemma graph_Create: "graph_ok (Kit_GraphCreate n)" "nLeaves (Kit_GraphCreate n) = n" "\<not> fConst (Kit_GraphCreate n)"
  "nSize_g (Kit_GraphCreate n) = n"
  by (simp_all add: Kit_GraphCreate_def graph_ok_def nodes_ok_def nSize_g_def)

text \<open>A finished graph: well formed, its root is a leaf, a constant, or the last node.\<close>

definition form_ok :: "nat \<Rightarrow> Kit_Graph \<Rightarrow> bool" where
  "form_ok n g \<longleftrightarrow> (fConst g \<and> pNodes g = [] \<and> nLeaves g = 0 \<or> graph_ok g \<and> nLeaves g = n \<and> \<not> fConst g \<and> edge_ok g (eRoot g)) \<and>
     root_ok g"

lemma form_ok_const: "form_ok n Kit_GraphCreateConst0" "form_ok n Kit_GraphCreateConst1"
  "\<not> graph_val f Kit_GraphCreateConst0" "graph_val f Kit_GraphCreateConst1"
  by (simp_all add: form_ok_def root_ok_def graph_val_def Kit_GraphCreateConst0_def Kit_GraphCreateConst1_def zero_edge_def)

lemma set_root_ok:
  assumes "fbuilds k (Kit_GraphCreate n) (e, g) F"
  shows "form_ok n (Kit_GraphSetRoot g e)" "graph_val f (Kit_GraphSetRoot g e) = F f"
    "form_ok n (Kit_GraphComplement (Kit_GraphSetRoot g e))"
    "graph_val f (Kit_GraphComplement (Kit_GraphSetRoot g e)) \<longleftrightarrow> \<not> F f"
proof -
  have b: "graph_ok g" "edge_ok g e" "edge_val f g e = F f" "edge_top g e" "nLeaves g = n" "\<not> fConst g"
    using assms by (auto simp: fbuilds_def graph_Create dest: graph.buildsD)
  then show "form_ok n (Kit_GraphSetRoot g e)" "graph_val f (Kit_GraphSetRoot g e) = F f"
    "form_ok n (Kit_GraphComplement (Kit_GraphSetRoot g e))"
    "graph_val f (Kit_GraphComplement (Kit_GraphSetRoot g e)) \<longleftrightarrow> \<not> F f"
    by (auto simp: form_ok_def root_ok_def graph_val_def Kit_GraphSetRoot_def Kit_GraphComplement_def
        edge_val_def edge_ok_def edge_top_def graph_ok_def nSize_g_def)
qed

text \<open>The number of nodes.\<close>

lemma graph_size_simps [simp]:
  "nSize_g (Kit_GraphSetRoot g e) = nSize_g g" "nSize_g (Kit_GraphComplement g) = nSize_g g"
  "nSize_g Kit_GraphCreateConst0 = 0" "nSize_g Kit_GraphCreateConst1 = 0"
  by (simp_all add: nSize_g_def Kit_GraphSetRoot_def Kit_GraphComplement_def Kit_GraphCreateConst0_def Kit_GraphCreateConst1_def)

lemma fbuilds_size:
  assumes "fbuilds k (Kit_GraphCreate n) (e, g) F" "graph_room (Kit_GraphCreate n) k"
  shows "nSize_g g \<le> n + k"
  using fbuilds_room [OF assms(1), of "2 ^ 30 - (n + k)"] assms(2) by (simp add: graph_room_def graph_Create)

text \<open>The number of literals of the cover that is factored.\<close>

lemma weight_inverse: "isop_of n f cs \<Longrightarrow> weight (map inverse_cube cs) = weight cs"
proof -
  assume cs: "isop_of n f cs"
  have "card (lits (inverse_cube u)) = card (lits u)" if "u \<in> set cs" for u
    using lits_inverse_sat [OF isop_of_facts(3) [OF cs that]] by (simp add: card_image inj_on_subset [OF inj_partner])
  then show ?thesis unfolding weight_def map_map by (intro arg_cong [of _ _ sum_list] map_cong) simp_all
qed

lemma Kit_SopFactor_form:
  assumes cs: "isop_of n h cs" "n < 16"
  shows "res_ok (lacks (Vec_IntGrow st KIT_FACTOR_MEM_LIMIT) (length cs + fmem (weight cs))) (Kit_SopFactor cs compl n st)
    (\<lambda>(g, st'). form_ok n g \<and> nSize_g g \<le> n + weight cs \<and>
      (\<forall>m. graph_val (bit m) g \<longleftrightarrow> (h m \<noteq> (compl \<and> cs \<noteq> [] \<and> cs \<noteq> [0]))))"
proof -
  have val: "isop_cover cs m = h m" for m using cs(1) by (simp add: isop_of_def)
  show ?thesis
  proof (cases "cs = [] \<or> cs = [0]")
    case True
    then show ?thesis
      using cs(2) val by (auto simp: Kit_SopFactor_def form_ok_const isop_cover_def)
  next
    case False
    let ?C = "map inverse_cube cs" and ?st = "Vec_IntGrow st KIT_FACTOR_MEM_LIMIT"
    let ?k = "length cs + fmem (weight cs)" and ?G = "Kit_GraphCreate n"
    note inv = inverse_cover_ok [OF cs]
    have C: "sop_ok ?C" "\<And>u. u \<in> set ?C \<Longrightarrow> lits u \<subseteq> {..<2 * n}" "\<And>m. cover_val (sop_lit m) ?C = h m"
      using inv False by auto
    note w = weight_inverse [OF cs(1)]
    have "weight ?C \<le> 32 * length cs"
    proof -
      have "card (lits u) \<le> 32" for u using card_mono [of "{..<32}" "lits u"] lits_less by simp
      then have "weight us \<le> 32 * length us" for us by (induction us) (auto intro: add_mono)
      then show ?thesis by (metis length_map)
    qed
    moreover have "(2::nat) ^ n \<le> 2 ^ 15" using cs(2) by (intro power_increasing) simp_all
    ultimately have "n + (weight ?C - 1) \<le> 2 ^ 30"
      using isop_of_facts(2) [OF cs(1)] cs(2) by simp
    then have room: "graph_room ?G (weight ?C - 1)" by (simp add: graph_room_def graph_Create)
    have fac: "factorable ?G ?C" using C(1,2) by (simp add: factorable_def graph_Create)
    note rec = factorsD [OF Kit_SopFactor_rec_factors graph_Create(1) fac lessI room refl, unfolded graph_Create]
    have "res_ok (lacks ?st ?k) (res_bind (sop_alloc ?st (length cs)) (\<lambda>st1.
        res_bind (Kit_SopFactor_rec (Suc (weight ?C)) ?G ?C (2 * n) st1) (\<lambda>(root, pFForm, vMemory).
          Inr (if compl then Kit_GraphComplement (Kit_GraphSetRoot pFForm root) else Kit_GraphSetRoot pFForm root, vMemory))))
      (\<lambda>(g, st'). form_ok n g \<and> nSize_g g \<le> n + weight cs \<and> (\<forall>m. graph_val (bit m) g \<longleftrightarrow> h m \<noteq> compl))"
    proof (rule res_ok_alloc)
      show "lacks ?st ?k" if "lacks ?st (length cs)" by (rule lacks_mono [OF that]) simp
      fix st1 assume st1: "within ?st (length cs) st1"
      show "res_ok (lacks ?st ?k) (res_bind (Kit_SopFactor_rec (Suc (weight ?C)) ?G ?C (2 * n) st1) (\<lambda>(root, pFForm, vMemory).
          Inr (if compl then Kit_GraphComplement (Kit_GraphSetRoot pFForm root) else Kit_GraphSetRoot pFForm root, vMemory)))
        (\<lambda>(g, st'). form_ok n g \<and> nSize_g g \<le> n + weight cs \<and> (\<forall>m. graph_val (bit m) g \<longleftrightarrow> h m \<noteq> compl))"
      proof (rule res_ok_bind, rule res_ok_mono [OF rec])
        show "lacks ?st ?k" if "lacks st1 (fmem (weight ?C))" by (rule within_lacks [OF st1 that]) (simp add: w)
        fix x assume x: "case x of (e, g', st') \<Rightarrow>
          fbuilds (weight ?C - 1) ?G (e, g') (\<lambda>f. cover_val (flit f) ?C) \<and> within st1 (fmem (weight ?C)) st'"
        obtain e g' st' where x1: "x = (e, g', st')" by (cases x)
        then have fb: "fbuilds (weight ?C - 1) ?G (e, g') (\<lambda>f. cover_val (flit f) ?C)" using x by simp
        note root = set_root_ok [OF fb]
        have size: "nSize_g g' \<le> n + weight cs" using fbuilds_size [OF fb room] by (simp add: w)
        show "res_ok (lacks ?st ?k) (case x of (root, pFForm, vMemory) \<Rightarrow>
          Inr (if compl then Kit_GraphComplement (Kit_GraphSetRoot pFForm root) else Kit_GraphSetRoot pFForm root, vMemory))
          (\<lambda>(g, st'). form_ok n g \<and> nSize_g g \<le> n + weight cs \<and> (\<forall>m. graph_val (bit m) g \<longleftrightarrow> h m \<noteq> compl))"
          unfolding x1 prod.case by (cases compl) (simp_all add: root size flit_sop_lit C(3))
      qed
    qed
    moreover have "length cs \<noteq> 0" "\<not> (length cs = 1 \<and> cs ! 0 = 0)" using False by (auto simp: length_Suc_conv)
    ultimately show ?thesis
      using False cs(2)
      by (simp add: Kit_SopFactor_def Kit_SopCreateInverse_def res_bind_assoc Let_def del: Kit_SopFactor_rec.simps cong: if_cong)
        blast
  qed
qed

text \<open>
  The memory holds the cover after \<open>Kit_TruthIsop\<close> and serves as the memory of the factoring, behind
  the cover. The null pointer is returned when the cover could not be computed or is too large.
\<close>

definition Kit_TruthToGraph :: "words \<Rightarrow> nat \<Rightarrow> nat \<Rightarrow> (Kit_Graph option \<times> words) res" where
  "Kit_TruthToGraph pTruth nVars cap =
     res_bind (Kit_TruthIsop pTruth nVars cap True) (\<lambda>(RetValue, cover, pTruth).
     case cover of
       None \<Rightarrow> Inr (None, pTruth)
     | Some vCover \<Rightarrow>
       if RetValue = -1 then Inr (None, pTruth)
       else if length vCover > 2 ^ 16 then Inr (None, pTruth)
       else if \<not> (RetValue = 0 \<or> RetValue = 1) then Inl AssertFailed
       else
         let vMemory = \<lparr>nCap = max cap KIT_ISOP_MEM_LIMIT, nSize = length vCover\<rparr> in
         res_bind (Kit_SopFactor vCover (RetValue = 1) nVars vMemory) (\<lambda>(pGraph, vMemory). Inr (Some pGraph, pTruth)))"

lemma sat_cube_literals: "sat_cube u \<Longrightarrow> lits u \<subseteq> {..<2 * n} \<Longrightarrow> card (lits u) \<le> n"
proof -
  assume u: "sat_cube u" "lits u \<subseteq> {..<2 * n}"
  have "inj_on (\<lambda>i. i div 2) (lits u)"
  proof (rule inj_onI)
    fix i j assume ij: "i \<in> lits u" "j \<in> lits u" "i div 2 = j div 2"
    have "j = i \<or> j = (if even i then Suc i else i - 1)" using ij(3) by (cases "even i") presburger+
    then have "j = i \<or> j = partner i" by (simp add: partner_def)
    then show "i = j" using u(1) ij(1,2) by (auto simp: sat_cube_def)
  qed
  moreover have "(\<lambda>i. i div 2) ` lits u \<subseteq> {..<n}" using u(2) by auto
  ultimately have "card (lits u) \<le> card {..<n}" by (intro card_inj_on_le) auto
  then show "card (lits u) \<le> n" by simp
qed

lemma isop_of_weight:
  assumes "isop_of n f cs"
  shows "weight cs \<le> n * 2 ^ n"
proof -
  have "lits u \<subseteq> {..<2 * n}" if "u \<in> set cs" for u
    using assms that by (auto simp: isop_of_def cubes_below_def lits_def)
  then have "\<forall>u \<in> set cs. card (lits u) \<le> n"
    using isop_of_facts(3) [OF assms] by (auto intro: sat_cube_literals)
  then have "weight cs \<le> n * length cs" by (induction cs) auto
  also have "\<dots> \<le> n * 2 ^ n" using isop_of_facts(2) [OF assms] by simp
  finally show ?thesis .
qed

lemma Kit_TruthToGraph_form:
  assumes n: "n < 16" and p: "tt_ok p n" "fun_dep n (tt_fun p n)"
  shows "case Kit_TruthToGraph p n cap of
      Inl e \<Rightarrow> e = OutOfMemory \<and> 6 < n
    | Inr (None, p') \<Rightarrow> p' = p \<and> 10 < n
    | Inr (Some g, p') \<Rightarrow> p' = p \<and> form_ok n g \<and> nSize_g g \<le> n + n * 2 ^ n \<and> (\<forall>m. graph_val (bit m) g = tt_fun p n m)"
proof -
  obtain ret cover where isop: "Kit_TruthIsop p n cap True = Inr (ret, cover, p)"
      and cov: "case cover of None \<Rightarrow> ret = -1 \<and> 10 < n
        | Some cs \<Rightarrow> (ret = 0 \<or> ret = 1) \<and> isop_of n (\<lambda>m. tt_fun p n m \<noteq> (ret = 1)) cs"
    using Kit_TruthIsop_correct [of n p cap True] n p by (fastforce split: option.splits)
  show ?thesis
  proof (cases cover)
    case None
    then show ?thesis using isop cov by (simp add: Kit_TruthToGraph_def)
  next
    case (Some cs)
    let ?st = "\<lparr>nCap = max cap KIT_ISOP_MEM_LIMIT, nSize = length cs\<rparr>"
    have ret: "ret = 0 \<or> ret = 1" and cs: "isop_of n (\<lambda>m. tt_fun p n m \<noteq> (ret = 1)) cs" using cov Some by auto
    have phase: "(ret = 1 \<and> cs \<noteq> [] \<and> cs \<noteq> [0]) \<longleftrightarrow> ret = 1"
    proof (rule ccontr)
      assume "(ret = 1 \<and> cs \<noteq> [] \<and> cs \<noteq> [0]) \<noteq> (ret = 1)"
      then have triv: "ret = 1" "cs = [] \<or> cs = [0]" by auto
      then have "tt_fun p n m = (cs = [])" for m using cs by (auto simp: isop_of_def isop_cover_def)
      from Kit_TruthIsop_const [OF _ this, of cap True] n isop triv show False by auto
    qed
    have grow: "Vec_IntGrow ?st KIT_FACTOR_MEM_LIMIT = ?st"
      by (simp add: Vec_IntGrow_def KIT_FACTOR_MEM_LIMIT_def KIT_ISOP_MEM_LIMIT_def)
    note form = Kit_SopFactor_form [OF cs n, of ?st "ret = 1", unfolded grow phase]
    have len: "length cs \<le> 2 ^ n" by (rule isop_of_facts(2) [OF cs])
    have pow: "(2::nat) ^ n \<le> 2 ^ 15" using n by (intro power_increasing) simp_all
    have mem: "6 < n" if "lacks ?st (length cs + fmem (weight cs))"
    proof (rule ccontr)
      assume "\<not> 6 < n"
      then have n6: "n \<le> 6" by simp
      then have "(2::nat) ^ n \<le> 2 ^ 6" using power_increasing [of n 6 "2::nat"] by simp
      then have "length cs \<le> 64" "n * 2 ^ n \<le> 6 * 2 ^ 6" using len n6 by (simp, intro mult_le_mono)
      then have "length cs \<le> 64" "weight cs \<le> 384" using isop_of_weight [OF cs] by simp_all
      then have "length cs + (length cs + fmem (weight cs)) \<le> 64 + (64 + fmem 384)"
        by (intro add_le_mono fmem_mono)
      also have "\<dots> \<le> KIT_ISOP_MEM_LIMIT" by (simp add: fmem_def KIT_ISOP_MEM_LIMIT_def)
      finally show False using that by (simp add: lacks_def)
    qed
    have tg: "Kit_TruthToGraph p n cap =
        res_bind (Kit_SopFactor cs (ret = 1) n ?st) (\<lambda>(pGraph, vMemory). Inr (Some pGraph, p))"
      using ret len pow Some by (auto simp: Kit_TruthToGraph_def isop Let_def)
    show ?thesis
    proof (cases "Kit_SopFactor cs (ret = 1) n ?st")
      case (Inl e)
      then show ?thesis using form mem by (simp add: tg res_ok_def)
    next
      case (Inr x)
      obtain g st' where x: "x = (g, st')" by (cases x)
      then have g: "form_ok n g" "nSize_g g \<le> n + weight cs" "\<And>m. graph_val (bit m) g = tt_fun p n m"
        using form Inr by (auto simp: res_ok_def)
      have "nSize_g g \<le> n + n * 2 ^ n" using g(2) isop_of_weight [OF cs] by simp
      then show ?thesis using Inr x g by (simp add: tg)
    qed
  qed
qed

section \<open>Properties\<close>

text \<open>
  C5. For a table of at most six variables the whole path from the table over its irredundant cover
  to the factored graph returns, whatever the capacity it starts with: no assertion fails, the memory
  suffices, the recursion ends, the graph is well formed, has the function of the table, and the
  table is left as it was.
\<close>

theorem Kit_TruthToGraph_returns:
  assumes "n \<le> 6" "tt_ok p n" "fun_dep n (tt_fun p n)"
  shows "\<exists>g. Kit_TruthToGraph p n cap = Inr (Some g, p) \<and> form_ok n g \<and> (\<forall>m. graph_val (bit m) g = tt_fun p n m)"
  using Kit_TruthToGraph_form [of n p cap] assms by (auto split: sum.splits option.splits prod.splits)

theorem Kit_TruthToGraph_returns_witness:
  "\<exists>g. Kit_TruthToGraph [0x96696996, 0x69969669] 6 0 = Inr (Some g, [0x96696996, 0x69969669]) \<and> form_ok 6 g"
  using Kit_TruthToGraph_returns [of 6 "[0x96696996, 0x69969669]" 0]
  by (auto simp: tt_ok_def Kit_TruthWordNum_def fun_dep_tt_fun)



text \<open>C14. Up to five variables, the table of the graph of a table is its first word.\<close>

theorem Kit_TruthToGraph_roundtrip:
  assumes "n \<le> 5" "tt_ok p n" "fun_dep n (tt_fun p n)"
  shows "\<exists>g g'. Kit_TruthToGraph p n cap = Inr (Some g, p) \<and> Kit_GraphToTruth g = Inr (p ! 0, g')"
proof -
  obtain g where g: "Kit_TruthToGraph p n cap = Inr (Some g, p)" "form_ok n g"
      and val: "\<And>m. graph_val (bit m) g = tt_fun p n m"
    using Kit_TruthToGraph_form [of n p cap] assms by (auto split: sum.splits option.splits prod.splits)
  have leaves: "nLeaves g \<le> 5" using g(2) assms(1) by (auto simp: form_ok_def)
  obtain w g' where w: "Kit_GraphToTruth g = Inr (w, g')" "\<forall>m<32. bit w m = graph_val (bit m) g"
    using Kit_GraphToTruth_val [OF _ _ leaves] g(2) by (auto simp: form_ok_def)
  have "bit w m = bit (p ! 0) m" if "m < 32" for m
    using w(2) that assms(1) by (simp add: val tt_fun_def tt_bit_def max_absorb1 take_bit_eq_mod)
  then have "w = p ! 0" by (simp add: u32_eq_iff)
  then show ?thesis using g(1) w(1) by blast
qed

theorem Kit_TruthToGraph_roundtrip_witness:
  "\<exists>g g'. Kit_TruthToGraph [0x88888888] 5 0 = Inr (Some g, [0x88888888]) \<and> Kit_GraphToTruth g = Inr (0x88888888, g')"
  using Kit_TruthToGraph_roundtrip [of 5 "[0x88888888]" 0]
  by (simp add: tt_ok_def Kit_TruthWordNum_def fun_dep_tt_fun)

text \<open>
  C6. Factoring a cover of \<open>w\<close> literals ends within \<open>w + 1\<close> nested calls and \<open>4 w (w + 1)\<close> words of
  memory, adds at most \<open>w - 1\<close> nodes, keeps the function of every edge made before, and returns an
  edge with the function of the cover.
\<close>

theorem Kit_SopFactor_rec_bounds:
  assumes "graph_ok g" "factorable g C" "weight C < fuel" "graph_room g (weight C - 1)"
    and "nSize st + 4 * weight C * (weight C + 1) \<le> nCap st"
  shows "\<exists>e g' st'. Kit_SopFactor_rec fuel g C (2 * nLeaves g) st = Inr (e, g', st') \<and>
    graph.builds (weight C - 1) g (e, g') (\<lambda>f. cover_val (flit f) C) \<and>
    nSize st' \<le> nSize st + 4 * weight C * (weight C + 1)"
  using factorsD [OF Kit_SopFactor_rec_factors assms(1-4) refl, of st] assms(5)
  by (auto simp: res_ok_def lacks_def within_def fmem_def fbuilds_def split: sum.splits)

theorem Kit_SopFactor_rec_bounds_witness:
  "\<exists>e g' st'. Kit_SopFactor_rec 3 (Kit_GraphCreate 2) [Kit_CubeSetLit (Kit_CubeSetLit 0 0) 3] 4 \<lparr>nCap = 24, nSize = 0\<rparr> =
     Inr (e, g', st') \<and> graph_ok g'"
proof -
  let ?u = "Kit_CubeSetLit (Kit_CubeSetLit 0 0) 3"
  have u: "lits ?u = {0, 3}" by (auto simp: lits_def)
  have "?u \<noteq> 0" "\<not> bit ?u 31" by (simp_all flip: lits_empty add: u)
  then have "factorable (Kit_GraphCreate 2) [?u]"
    by (auto simp: factorable_def sop_ok_def antichain_def graph_Create u)
  moreover have "weight [?u] = 2" by (simp add: u)
  ultimately show ?thesis
    using Kit_SopFactor_rec_bounds [of "Kit_GraphCreate 2" "[?u]" 3 "\<lparr>nCap = 24, nSize = 0\<rparr>"]
    by (auto simp: graph_Create graph_room_def made_def)
qed

text \<open>
  C15. Factoring an irredundant cover gives a well-formed graph of the function of the cover, or of its
  complement if that is asked for; the complement is not taken, however, for the two constant covers.
  The only failure is memory.
\<close>

theorem Kit_SopFactor_correct:
  assumes "isop_of n h cs" "n < 16"
  shows "case Kit_SopFactor cs compl n st of
      Inl e \<Rightarrow> e = OutOfMemory \<and> max (nCap st) (2 ^ 20) < nSize st + length cs + 4 * weight cs * (weight cs + 1)
    | Inr (g, st') \<Rightarrow> form_ok n g \<and> (\<forall>m. graph_val (bit m) g \<longleftrightarrow> (h m \<noteq> (compl \<and> cs \<noteq> [] \<and> cs \<noteq> [0])))"
  using Kit_SopFactor_form [OF assms, of st compl]
  by (auto simp: res_ok_def lacks_def Vec_IntGrow_def KIT_FACTOR_MEM_LIMIT_def fmem_def max_def split: sum.splits if_splits)

theorem Kit_SopFactor_correct_witness:
  "\<exists>g st'. Kit_SopFactor [0] True 3 \<lparr>nCap = 0, nSize = 0\<rparr> = Inr (g, st') \<and> form_ok 3 g"
proof -
  have "isop_of 3 (\<lambda>m. True) [0]" by (auto simp: isop_of_def cubes_below_def isop_cube_def)
  from Kit_SopFactor_correct [OF this, of "\<lparr>nCap = 0, nSize = 0\<rparr>" True] show ?thesis
    by (simp add: Kit_SopFactor_def)
qed

end
