(* ===== verification/Kit_Swap.thy ===== *)
theory Kit_Swap
  imports Kit_Support
begin

text \<open>
  Reordering the variables of a truth table (\<open>src/abc-master/src/bool/kit/kitTruth.c\<close>): swapping two
  adjacent variables, and what is built from swaps: stretching a table to a larger set of variables,
  shrinking it to its support, applying a permutation, and the semi-canonical form.

  The callers keep two buffers and exchange the pointers after each swap. \<open>Swap_State\<close> holds what the
  local pointers \<open>pOut\<close> and \<open>pIn\<close> point to and the number of exchanges; after an odd number of them
  the pointers have changed places. An operation that fills \<open>pOut\<close> of its caller and destroys \<open>pIn\<close>
  returns the contents of both.
\<close>

section \<open>Swapping adjacent variables\<close>

definition PMasks :: "u32 list list" where
  "PMasks = [
    [0x99999999, 0x22222222, 0x44444444],
    [0xC3C3C3C3, 0x0C0C0C0C, 0x30303030],
    [0xF00FF00F, 0x00F000F0, 0x0F000F00],
    [0xFF0000FF, 0x0000FF00, 0x00FF0000]]"

text \<open>The loop for a variable above 4: four copies of \<open>Step\<close> words for each block of \<open>4*Step\<close>.\<close>

definition swap_blocks :: "nat \<Rightarrow> nat \<Rightarrow> words \<Rightarrow> words \<Rightarrow> words" where
  "swap_blocks nWords Step pIn =
    for_step nWords (4 * Step) (\<lambda>k pOut.
      let pOut = for_up Step (\<lambda>i pOut. pOut[k + i := pIn ! (k + i)]) pOut;
          pOut = for_up Step (\<lambda>i pOut. pOut[k + (Step + i) := pIn ! (k + (2 * Step + i))]) pOut;
          pOut = for_up Step (\<lambda>i pOut. pOut[k + (2 * Step + i) := pIn ! (k + (Step + i))]) pOut
      in for_up Step (\<lambda>i pOut. pOut[k + (3 * Step + i) := pIn ! (k + (3 * Step + i))]) pOut)"

text \<open>The loop for variable 4: pairs of words exchange halves.\<close>

definition swap_halves :: "nat \<Rightarrow> words \<Rightarrow> words \<Rightarrow> words" where
  "swap_halves nWords pIn = for_step nWords 2 (\<lambda>i pOut.
     pOut[i := (pIn ! i AND 0x0000FFFF) OR push_bit 16 (pIn ! (i + 1) AND 0x0000FFFF),
          i + 1 := (pIn ! (i + 1) AND 0xFFFF0000) OR drop_bit 16 (pIn ! i AND 0xFFFF0000)])"

definition Kit_TruthSwapAdjacentVars :: "words \<Rightarrow> words \<Rightarrow> nat \<Rightarrow> nat \<Rightarrow> words res" where
  "Kit_TruthSwapAdjacentVars pOut pIn nVars iVar =
    (let nWords = Kit_TruthWordNum nVars in
     if \<not> int iVar < int nVars - 1 then Inl AssertFailed
     else if iVar < 4 then
       let Shift = 2 ^ iVar in
       Inr (for_up nWords (\<lambda>i pOut. pOut[i := (pIn ! i AND PMasks ! iVar ! 0)
         OR push_bit Shift (pIn ! i AND PMasks ! iVar ! 1) OR drop_bit Shift (pIn ! i AND PMasks ! iVar ! 2)]) pOut)
     else if iVar > 4 then Inr (swap_blocks nWords (2 ^ (iVar - 5)) pIn pOut)
     else Inr (swap_halves nWords pIn pOut))"

definition Kit_TruthSwapAdjacentVars2 :: "words \<Rightarrow> words \<Rightarrow> nat \<Rightarrow> nat \<Rightarrow> words res" where
  "Kit_TruthSwapAdjacentVars2 pIn pOut nVars Start =
    (let nWords = (if nVars \<le> 5 then 1 else 2 ^ (nVars - 5)) in
     if \<not> int Start < int nVars - 1 then Inl AssertFailed
     else if Start = 0 then
       Inr (for_up nWords (\<lambda>i pOut. pOut[i := (pIn ! i AND 0x99999999) OR push_bit 1 (pIn ! i AND 0x22222222)
         OR drop_bit 1 (pIn ! i AND 0x44444444)]) pOut)
     else if Start = 1 then
       Inr (for_up nWords (\<lambda>i pOut. pOut[i := (pIn ! i AND 0xC3C3C3C3) OR push_bit 2 (pIn ! i AND 0x0C0C0C0C)
         OR drop_bit 2 (pIn ! i AND 0x30303030)]) pOut)
     else if Start = 2 then
       Inr (for_up nWords (\<lambda>i pOut. pOut[i := (pIn ! i AND 0xF00FF00F) OR push_bit 4 (pIn ! i AND 0x00F000F0)
         OR drop_bit 4 (pIn ! i AND 0x0F000F00)]) pOut)
     else if Start = 3 then
       Inr (for_up nWords (\<lambda>i pOut. pOut[i := (pIn ! i AND 0xFF0000FF) OR push_bit 8 (pIn ! i AND 0x0000FF00)
         OR drop_bit 8 (pIn ! i AND 0x00FF0000)]) pOut)
     else if Start = 4 then Inr (swap_halves nWords pIn pOut)
     else Inr (swap_blocks nWords (2 ^ (Start - 5)) pIn pOut))"

text \<open>Both versions of the function are the same function.\<close>

lemma Kit_TruthSwapAdjacentVars2_eq:
  "Kit_TruthSwapAdjacentVars2 pIn pOut nVars v = Kit_TruthSwapAdjacentVars pOut pIn nVars v"
proof -
  consider "v = 0" | "v = 1" | "v = 2" | "v = 3" | "v = 4" | "4 < v" by linarith
  then show ?thesis
    by cases (simp_all add: Kit_TruthSwapAdjacentVars2_def Kit_TruthSwapAdjacentVars_def Kit_TruthWordNum_def PMasks_def Let_def)
qed

subsection \<open>What a swap does to a minterm\<close>

definition swap_bits :: "nat \<Rightarrow> nat \<Rightarrow> nat" where
  "swap_bits k m = (if bit m k = bit m (Suc k) then m else flip_bit k (flip_bit (Suc k) m))"

lemma bit_swap_bits [simp]: "bit (swap_bits k m) i = bit m (swap_pos k i)"
  by (auto simp: swap_bits_def swap_pos_def bit_simps)

lemma swap_bits_less: "Suc k < n \<Longrightarrow> m < 2 ^ n \<Longrightarrow> swap_bits k m < 2 ^ n"
  by (auto simp: swap_bits_def)

lemma swap_bits_cases:
  "bit m k = bit m (Suc k) \<Longrightarrow> swap_bits k m = m"
  "\<not> bit m k \<Longrightarrow> bit m (Suc k) \<Longrightarrow> swap_bits k m = m + 2 ^ k - 2 * 2 ^ k"
  "bit m k \<Longrightarrow> \<not> bit m (Suc k) \<Longrightarrow> swap_bits k m = m - 2 ^ k + 2 * 2 ^ k"
proof -
  show "swap_bits k m = m" if "bit m k = bit m (Suc k)" using that by (simp add: swap_bits_def)
  show "swap_bits k m = m + 2 ^ k - 2 * 2 ^ k" if b: "\<not> bit m k" "bit m (Suc k)"
  proof -
    have "swap_bits k m = Bit_Operations.set_bit k (unset_bit (Suc k) m)"
      using b by (auto simp: swap_bits_def flip_bit_eq_if bit_simps)
    also have "\<dots> = m - 2 ^ Suc k + 2 ^ k"
    proof -
      have "\<not> bit (unset_bit (Suc k) m) k" using b by (simp add: bit_unset_bit_iff)
      from set_bit_eq_add [OF this] show ?thesis by (simp only: unset_bit_eq_diff [OF b(2)])
    qed
    finally show ?thesis using bit_imp_exp_le [OF b(2)] by simp
  qed
  show "swap_bits k m = m - 2 ^ k + 2 * 2 ^ k" if b: "bit m k" "\<not> bit m (Suc k)"
  proof -
    have "swap_bits k m = unset_bit k (Bit_Operations.set_bit (Suc k) m)"
      using b by (auto simp: swap_bits_def flip_bit_eq_if bit_simps)
    also have "\<dots> = m + 2 ^ Suc k - 2 ^ k"
    proof -
      have "bit (Bit_Operations.set_bit (Suc k) m) k" using b by (simp add: bit_set_bit_iff)
      from unset_bit_eq_diff [OF this] show ?thesis by (simp only: set_bit_eq_add [OF b(2)])
    qed
    finally show ?thesis using bit_imp_exp_le [OF b(1)] by simp
  qed
qed

text \<open>A loop over blocks that fills each block with the values of one function.\<close>

lemma for_step_fill:
  assumes d: "0 < d" and n: "n = m * d" and len: "length p = L" "n \<le> L"
    and body: "\<And>b q. b < m \<Longrightarrow> length q = L \<Longrightarrow> length (body (b * d) q) = L \<and>
      (\<forall>j<L. body (b * d) q ! j = (if b * d \<le> j \<and> j < b * d + d then F j else q ! j))"
  shows "length (for_step n d body p) = L"
    and "j < L \<Longrightarrow> for_step n d body p ! j = (if j < n then F j else p ! j)"
proof -
  have count: "(n + d - 1) div d = m"
  proof -
    have "n + d - 1 = (d - 1) + m * d" using d n by simp
    then show ?thesis using d by (simp only: div_mult_self1) simp
  qed
  have "length (fold (\<lambda>j. body (j * d)) [0..<k] p) = L \<and>
      (\<forall>j<L. fold (\<lambda>j. body (j * d)) [0..<k] p ! j = (if j < k * d then F j else p ! j))" if "k \<le> m" for k
    using that
  proof (induction k)
    case (Suc k)
    note IH = Suc.IH [OF Suc_leD [OF Suc.prems]]
    let ?q = "fold (\<lambda>j. body (j * d)) [0..<k] p"
    have "length (body (k * d) ?q) = L \<and> (\<forall>j<L. body (k * d) ?q ! j = (if k * d \<le> j \<and> j < k * d + d then F j else ?q ! j))"
      using Suc.prems IH by (intro body) simp_all
    then show ?case using IH by (auto simp: add.commute)
  qed (simp add: len)
  from this [OF order_refl] show "length (for_step n d body p) = L"
    "j < L \<Longrightarrow> for_step n d body p ! j = (if j < n then F j else p ! j)"
    by (simp_all add: for_step_def count del: One_nat_def flip: n)
qed

lemma for_up_shift:
  "a + s \<le> length q \<Longrightarrow> j < length q \<Longrightarrow>
   for_up s (\<lambda>i q. q[a + i := g i]) q ! j = (if a \<le> j \<and> j < a + s then g (j - a) else q ! j)"
  by (induction s) (auto simp: nth_list_update)

lemma quarter_cases:
  assumes "b * (4 * s) \<le> j" "j < b * (4 * s) + 4 * (s::nat)" "s = 2 ^ k"
  obtains c i where "c < 4" "i < s" "j = b * (4 * s) + (c * s + i)" "bit j k = odd c" "bit j (Suc k) = odd (c div 2)"
proof -
  let ?r = "j - b * (4 * s)"
  have s: "0 < s" using assms(3) by simp
  have r: "?r < 4 * s" using assms(1,2) by simp
  have c: "?r div s < 4" using r s by (simp add: less_mult_imp_div_less)
  have i: "?r mod s < s" using s by simp
  have j: "j = b * (4 * s) + (?r div s * s + ?r mod s)" using assms(1) by simp
  have jd: "j div s = 4 * b + ?r div s"
  proof -
    have "j = ?r + (4 * b) * s" using assms(1) by simp
    then have "j div s = (?r + (4 * b) * s) div s" by simp
    also have "\<dots> = 4 * b + ?r div s" using s by (simp only: div_mult_self1)
    finally show ?thesis .
  qed
  have b0: "bit j k = odd (?r div s)" using jd assms(3) by (simp add: bit_iff_odd)
  have "j div 2 ^ Suc k = j div s div 2" unfolding assms(3) by (simp only: power_Suc2 div_mult2_eq)
  moreover have "odd ((4 * b + c) div 2) = odd (c div 2)" for c :: nat by presburger
  ultimately have "bit j (Suc k) = odd (?r div s div 2)" by (simp only: bit_iff_odd jd)
  then show ?thesis using that [OF c i j b0] by simp
qed

lemma for_up_shift2:
  "a + (c + s) \<le> length q \<Longrightarrow> j < length q \<Longrightarrow>
   for_up s (\<lambda>i q. q[a + (c + i) := g i]) q ! j = (if a + c \<le> j \<and> j < a + (c + s) then g (j - (a + c)) else q ! j)"
  using for_up_shift [of "a + c" s q j g] by (simp add: add.assoc)

lemma swap_blocks_nth:
  assumes n: "n = m * (4 * 2 ^ k)" "n \<le> length p"
  shows "length (swap_blocks n (2 ^ k) pIn p) = length p"
    and "j < length p \<Longrightarrow> swap_blocks n (2 ^ k) pIn p ! j = (if j < n then pIn ! swap_bits k j else p ! j)"
proof -
  let ?s = "2 ^ k :: nat"
  let ?body = "\<lambda>k pOut.
      let pOut = for_up ?s (\<lambda>i pOut. pOut[k + i := pIn ! (k + i)]) pOut;
          pOut = for_up ?s (\<lambda>i pOut. pOut[k + (?s + i) := pIn ! (k + (2 * ?s + i))]) pOut;
          pOut = for_up ?s (\<lambda>i pOut. pOut[k + (2 * ?s + i) := pIn ! (k + (?s + i))]) pOut
      in for_up ?s (\<lambda>i pOut. pOut[k + (3 * ?s + i) := pIn ! (k + (3 * ?s + i))]) pOut"
  have body: "length (?body (b * (4 * ?s)) q) = length p \<and> (\<forall>j<length p. ?body (b * (4 * ?s)) q ! j =
      (if b * (4 * ?s) \<le> j \<and> j < b * (4 * ?s) + 4 * ?s then pIn ! swap_bits k j else q ! j))"
    if "b < m" "length q = length p" for b q
  proof (intro conjI allI impI)
    have "Suc b * (4 * ?s) \<le> m * (4 * ?s)" using that(1) by (intro mult_le_mono1) simp
    then have room: "b * (4 * ?s) + 4 * ?s \<le> length q" using n that(2) by simp
    show "length (?body (b * (4 * ?s)) q) = length p" using that by (simp add: Let_def)
    fix j assume j: "j < length p"
    show "?body (b * (4 * ?s)) q ! j =
      (if b * (4 * ?s) \<le> j \<and> j < b * (4 * ?s) + 4 * ?s then pIn ! swap_bits k j else q ! j)"
    proof (cases "b * (4 * ?s) \<le> j \<and> j < b * (4 * ?s) + 4 * ?s")
      case True
      then obtain c i where c: "c < 4" "i < ?s" "j = b * (4 * ?s) + (c * ?s + i)" "bit j k = odd c" "bit j (Suc k) = odd (c div 2)"
        using quarter_cases [of b ?s j k] by blast
      then consider "c = 0" | "c = 1" | "c = 2" | "c = 3" by linarith
      then have "?body (b * (4 * ?s)) q ! j = pIn ! swap_bits k j"
      proof cases
        case 1
        then have "swap_bits k j = j" using c by (intro swap_bits_cases) simp
        then show ?thesis using c 1 room j that(2) by (simp add: Let_def for_up_shift for_up_shift2)
      next
        case 2
        then have "swap_bits k j = b * (4 * ?s) + (2 * ?s + i)" using c by (subst swap_bits_cases) simp_all
        then show ?thesis using c 2 room j that(2) by (simp add: Let_def for_up_shift for_up_shift2)
      next
        case 3
        then have "swap_bits k j = b * (4 * ?s) + (?s + i)" using c by (subst swap_bits_cases) simp_all
        then show ?thesis using c 3 room j that(2) by (simp add: Let_def for_up_shift for_up_shift2)
      next
        case 4
        then have "swap_bits k j = j" using c by (intro swap_bits_cases) simp
        then show ?thesis using c 4 room j that(2) by (simp add: Let_def for_up_shift for_up_shift2)
      qed
      then show ?thesis using True by simp
    next
      case False
      then have "j < b * (4 * ?s) \<or> b * (4 * ?s) + 4 * ?s \<le> j" by (simp only: not_le not_less de_Morgan_conj)
      then show ?thesis
        by (elim disjE) (use room j that(2) in \<open>simp_all add: Let_def for_up_shift for_up_shift2\<close>)
    qed
  qed
  have d: "0 < 4 * ?s" by simp
  note fill = for_step_fill [OF d n(1) refl n(2), of ?body "\<lambda>j. pIn ! swap_bits k j", OF body]
  show "length (swap_blocks n (2 ^ k) pIn p) = length p"
    unfolding swap_blocks_def by (rule fill(1))
  show "j < length p \<Longrightarrow> swap_blocks n (2 ^ k) pIn p ! j = (if j < n then pIn ! swap_bits k j else p ! j)"
    unfolding swap_blocks_def by (rule fill(2))
qed

lemma swap_halves_nth:
  assumes n: "n = m * 2" "n \<le> length p"
  shows "length (swap_halves n pIn p) = length p"
    and "j < length p \<Longrightarrow> swap_halves n pIn p ! j =
      (if j < n then if odd j then (pIn ! j AND 0xFFFF0000) OR drop_bit 16 (pIn ! (j - 1) AND 0xFFFF0000)
         else (pIn ! j AND 0x0000FFFF) OR push_bit 16 (pIn ! (j + 1) AND 0x0000FFFF)
       else p ! j)"
proof -
  let ?F = "\<lambda>j. if odd j then (pIn ! j AND 0xFFFF0000) OR drop_bit 16 (pIn ! (j - 1) AND 0xFFFF0000)
         else (pIn ! j AND 0x0000FFFF) OR push_bit 16 (pIn ! (j + 1) AND 0x0000FFFF)"
  let ?body = "\<lambda>i pOut. pOut[i := (pIn ! i AND 0x0000FFFF) OR push_bit 16 (pIn ! (i + 1) AND 0x0000FFFF),
          i + 1 := (pIn ! (i + 1) AND 0xFFFF0000) OR drop_bit 16 (pIn ! i AND 0xFFFF0000)]"
  have body: "length (?body (b * 2) q) = length p \<and>
      (\<forall>j<length p. ?body (b * 2) q ! j = (if b * 2 \<le> j \<and> j < b * 2 + 2 then ?F j else q ! j))"
    if "b < m" "length q = length p" for b q
  proof (intro conjI allI impI)
    fix j assume j: "j < length p"
    have room: "Suc (b * 2) < length q" using that n by simp
    consider "j = b * 2" | "j = Suc (b * 2)" | "j < b * 2 \<or> Suc (b * 2) < j" by linarith
    then show "?body (b * 2) q ! j = (if b * 2 \<le> j \<and> j < b * 2 + 2 then ?F j else q ! j)"
      by cases (use room j that in \<open>auto simp: nth_list_update\<close>)
  qed (simp add: that)
  have d: "0 < (2::nat)" by simp
  note fill = for_step_fill [OF d n(1) refl n(2), of ?body ?F, OF body]
  show "length (swap_halves n pIn p) = length p"
    unfolding swap_halves_def by (rule fill(1))
  show "j < length p \<Longrightarrow> swap_halves n pIn p ! j =
      (if j < n then ?F j else p ! j)"
    unfolding swap_halves_def by (rule fill(2))
qed

lemma bit_half_masks: "bit (0x0000FFFF :: u32) b \<longleftrightarrow> b < 16" "bit (0xFFFF0000 :: u32) b \<longleftrightarrow> 16 \<le> b \<and> b < 32"
proof -
  have "list_all (\<lambda>b. bit (0x0000FFFF :: u32) b = (b < 16) \<and> bit (0xFFFF0000 :: u32) b = (16 \<le> b)) [0..<32]"
    by code_simp
  then show "bit (0x0000FFFF :: u32) b \<longleftrightarrow> b < 16" "bit (0xFFFF0000 :: u32) b \<longleftrightarrow> 16 \<le> b \<and> b < 32"
    using bit_less_32 by (cases "b < 32"; force simp: list_all_iff)+
qed

text \<open>
  A swap exchanges two variables: the output gives to a minterm what the input gives to the minterm
  with the two bits exchanged.
\<close>

lemma swap_low_index:
  assumes "v < 4" "b < 32"
  shows "bit (PMasks ! v ! 0) b \<longleftrightarrow> swap_bits v b = b"
    and "2 ^ v \<le> b \<and> bit (PMasks ! v ! 1) (b - 2 ^ v) \<longleftrightarrow> swap_bits v b < b \<and> swap_bits v b = b - 2 ^ v"
    and "bit (PMasks ! v ! 2) (2 ^ v + b) \<longleftrightarrow> swap_bits v b = 2 ^ v + b"
    and "swap_bits v b = b \<or> swap_bits v b < b \<and> swap_bits v b = b - 2 ^ v \<or> swap_bits v b = 2 ^ v + b"
proof -
  have "list_all (\<lambda>v. list_all (\<lambda>b. bit (PMasks ! v ! 0) b = (swap_bits v b = b) \<and>
      (2 ^ v \<le> b \<and> bit (PMasks ! v ! 1) (b - 2 ^ v)) = (swap_bits v b < b \<and> swap_bits v b = b - 2 ^ v) \<and>
      bit (PMasks ! v ! 2) (2 ^ v + b) = (swap_bits v b = 2 ^ v + b) \<and>
      (swap_bits v b = b \<or> swap_bits v b < b \<and> swap_bits v b = b - 2 ^ v \<or> swap_bits v b = 2 ^ v + b)) [0..<32]) [0..<4]"
    by code_simp
  then show "bit (PMasks ! v ! 0) b \<longleftrightarrow> swap_bits v b = b"
    "2 ^ v \<le> b \<and> bit (PMasks ! v ! 1) (b - 2 ^ v) \<longleftrightarrow> swap_bits v b < b \<and> swap_bits v b = b - 2 ^ v"
    "bit (PMasks ! v ! 2) (2 ^ v + b) \<longleftrightarrow> swap_bits v b = 2 ^ v + b"
    "swap_bits v b = b \<or> swap_bits v b < b \<and> swap_bits v b = b - 2 ^ v \<or> swap_bits v b = 2 ^ v + b"
    using assms by (simp_all only: list_all_iff set_upt atLeastLessThan_iff le0 simp_thms)
qed

lemma bit_three_parts:
  "b < 32 \<Longrightarrow> bit ((x AND u) OR push_bit k (x AND v) OR drop_bit k ((x :: u32) AND w)) b \<longleftrightarrow>
    bit x b \<and> bit u b \<or> (k \<le> b \<and> bit v (b - k)) \<and> bit x (b - k) \<or> bit x (k + b) \<and> bit w (k + b)"
  by (auto simp: bit_or_iff bit_and_iff bit_push_bit_iff bit_drop_bit_eq simp del: push_bit_and drop_bit_and)

lemma one_of_three:
  assumes "0 < (k :: nat)" "P \<longleftrightarrow> s = b" "Q \<longleftrightarrow> s < b \<and> s = b - k" "R \<longleftrightarrow> s = k + b"
    and "s = b \<or> s < b \<and> s = b - k \<or> s = k + b"
  shows "(f b \<and> P \<or> Q \<and> f (b - k) \<or> f (k + b) \<and> R) = f s"
  using assms by auto

lemma swap_low_bit:
  assumes v: "v < 4" and b: "b < 32"
  shows "bit ((x AND PMasks ! v ! 0) OR push_bit (2 ^ v) (x AND PMasks ! v ! 1) OR drop_bit (2 ^ v) ((x :: u32) AND PMasks ! v ! 2)) b
    = bit x (swap_bits v b)"
  unfolding bit_three_parts [OF b] by (rule one_of_three [OF _ swap_low_index [OF v b]]) simp

lemma swap_bits_div_mod:
  "v < 4 \<Longrightarrow> swap_bits v m div 32 = m div 32" "v < 4 \<Longrightarrow> swap_bits v m mod 32 = swap_bits v (m mod 32)"
  "4 < v \<Longrightarrow> swap_bits v m div 32 = swap_bits (v - 5) (m div 32)" "4 < v \<Longrightarrow> swap_bits v m mod 32 = m mod 32"
  by (rule bit_eqI; auto simp: swap_pos_def)+

lemma swap_bits_4:
  assumes "r < 32"
  shows "swap_bits 4 (32 * q + r) = (if odd q then if 16 \<le> r then 32 * q + r else 32 * (q - 1) + (r + 16)
    else if 16 \<le> r then 32 * (q + 1) + (r - 16) else 32 * q + r)"
proof -
  have div_16: "(32 * q + r) div 16 = 2 * q + r div 16" by simp
  moreover have "odd (r div 16) \<longleftrightarrow> 16 \<le> r"
  proof -
    have "r div 16 = (if 16 \<le> r then 1 else 0)" using assms by (simp add: div_eq_dividend_iff Euclidean_Rings.div_eq_0_iff div_nat_eqI)
    then show ?thesis by simp
  qed
  ultimately have 4: "bit (32 * q + r) 4 \<longleftrightarrow> 16 \<le> r" by (simp add: bit_iff_odd)
  have "(32 * q + r) div 32 = q" using assms by simp
  then have 5: "bit (32 * q + r) (Suc 4) \<longleftrightarrow> odd q" by (simp add: bit_iff_odd)
  note cs = swap_bits_cases [of "32 * q + r" 4, unfolded 4 5]
  show ?thesis
  proof (cases "odd q = (16 \<le> r)")
    case True
    then show ?thesis using cs(1) by auto
  next
    case False
    then consider "odd q" "r < 16" | "even q" "16 \<le> r" by auto
    then show ?thesis
    proof cases
      case 1
      then obtain p where "q = Suc p" by (cases q) auto
      then show ?thesis using 1 cs(2) by simp
    next
      case 2
      then show ?thesis using cs(3) by simp
    qed
  qed
qed

lemma bit_halves:
  fixes x y :: u32
  assumes "b < 32"
  shows "bit ((x AND 0xFFFF0000) OR drop_bit 16 (y AND 0xFFFF0000)) b = (if 16 \<le> b then bit x b else bit y (b + 16))"
    and "bit ((x AND 0x0000FFFF) OR push_bit 16 (y AND 0x0000FFFF)) b = (if 16 \<le> b then bit y (b - 16) else bit x b)"
  unfolding bit_or_iff bit_drop_bit_eq bit_push_bit_iff comp_def bit_and_iff bit_half_masks
  using assms by (auto simp: add.commute)

lemma tt_bit_block: "b < 32 \<Longrightarrow> tt_bit p (32 * a + b) = bit (p ! a) b"
  by (simp add: tt_bit_def)

lemma Kit_TruthSwapAdjacentVars_val:
  assumes ok: "tt_ok pOut n" and v: "Suc v < n"
  shows "returns (Kit_TruthSwapAdjacentVars pOut pIn n v)
    (\<lambda>r. length r = length pOut \<and> (\<forall>m<tt_size n. tt_bit r m = tt_bit pIn (swap_bits v m)))"
proof -
  have len: "Kit_TruthWordNum n \<le> length pOut" using ok by (simp add: tt_ok_def)
  have word: "m div 32 < Kit_TruthWordNum n" "m div 32 < length pOut" if "m < tt_size n" for m
    using that len by (auto simp: tt_size_word)
  consider "v < 4" | "v = 4" | "4 < v" by linarith
  then show ?thesis
  proof cases
    case 1
    then show ?thesis
      using v word swap_low_bit [OF 1]
      by (simp add: Kit_TruthSwapAdjacentVars_def Let_def tt_bit_def swap_bits_div_mod)
  next
    case 2
    then have "n - 5 = Suc (n - 6)" using v by simp
    then have "Kit_TruthWordNum n = 2 ^ (n - 6) * 2" unfolding Kit_TruthWordNum_alt by (simp only: power_Suc2)
    note halves = swap_halves_nth [OF this len]
    have "tt_bit (swap_halves (Kit_TruthWordNum n) pIn pOut) m = tt_bit pIn (swap_bits 4 m)" if m: "m < tt_size n" for m
    proof -
      define q r where "q = m div 32" and "r = m mod 32"
      then have qr: "m = 32 * q + r" "r < 32" "q < Kit_TruthWordNum n" "q < length pOut" using word [OF m] by simp_all
      have small: "16 \<le> r \<Longrightarrow> r - 16 < 32" "\<not> 16 \<le> r \<Longrightarrow> r + 16 < 32" using qr(2) by simp_all
      have nth: "swap_halves (Kit_TruthWordNum n) pIn pOut ! q =
          (if odd q then (pIn ! q AND 0xFFFF0000) OR drop_bit 16 (pIn ! (q - 1) AND 0xFFFF0000)
           else (pIn ! q AND 0x0000FFFF) OR push_bit 16 (pIn ! (q + 1) AND 0x0000FFFF))"
        using halves(2) [OF qr(4)] qr(3) by (simp only: if_True)
      show ?thesis
        unfolding qr(1) tt_bit_block [OF qr(2)] nth swap_bits_4 [OF qr(2)]
        by (cases "odd q"; cases "16 \<le> r"; simp only: if_True if_False bit_halves [OF qr(2)] tt_bit_block [OF qr(2)] tt_bit_block [OF small(1)] tt_bit_block [OF small(2)] simp_thms)
    qed
    then show ?thesis using 2 v halves(1) by (simp add: Kit_TruthSwapAdjacentVars_def Let_def)
  next
    case 3
    then have "n - 5 = (n - Suc (Suc v)) + Suc (Suc (v - 5))" using v by simp
    then have "Kit_TruthWordNum n = 2 ^ (n - Suc (Suc v)) * (4 * 2 ^ (v - 5))"
      unfolding Kit_TruthWordNum_alt by (simp only: power_add power_Suc)
    from swap_blocks_nth [OF this len] show ?thesis
      using 3 v word by (simp add: Kit_TruthSwapAdjacentVars_def Let_def tt_bit_def swap_bits_div_mod)
  qed
qed

section \<open>Two buffers\<close>

record Swap_State =
  sOut :: words
  sIn :: words
  sCounter :: nat

text \<open>Swap, exchange the pointers, and count.\<close>

definition swap_step :: "nat \<Rightarrow> nat \<Rightarrow> 'a Swap_State_scheme \<Rightarrow> ('a Swap_State_scheme) res" where
  "swap_step nVars k s =
    res_bind (Kit_TruthSwapAdjacentVars (sOut s) (sIn s) nVars k) (\<lambda>pOut.
      Inr (s\<lparr>sOut := sIn s, sIn := pOut, sCounter := sCounter s + 1\<rparr>))"

text \<open>
  The final copy. The result is the contents of the caller's \<open>pOut\<close> and \<open>pIn\<close>: the local pointers
  are exchanged when the count is odd.
\<close>

definition swap_finish :: "nat \<Rightarrow> bool \<Rightarrow> 'a Swap_State_scheme \<Rightarrow> words \<times> words" where
  "swap_finish nVars fReturnIn s =
    (let pOut = (if fReturnIn \<noteq> even (sCounter s) then Kit_TruthCopy (sOut s) (sIn s) nVars else sOut s)
     in if odd (sCounter s) then (sIn s, pOut) else (pOut, sIn s))"

definition Kit_TruthStretch :: "words \<Rightarrow> words \<Rightarrow> nat \<Rightarrow> nat \<Rightarrow> u32 \<Rightarrow> bool \<Rightarrow> (words \<times> words) res" where
  "Kit_TruthStretch pOut pIn nVars nVarsAll Phase fReturnIn =
    res_bind (run_loop (rev [0..<nVarsAll]) (\<lambda>i (Var, s).
        if (Phase AND push_bit i 1) \<noteq> 0 then
          if Var < 0 then Inl Undefined
          else res_bind (run_loop [nat Var..<i] (swap_step nVarsAll) s) (\<lambda>s. Inr (Var - 1, s))
        else Inr (Var, s))
      (int nVars - 1, \<lparr>sOut = pOut, sIn = pIn, sCounter = 0\<rparr>)) (\<lambda>(Var, s).
    if \<not> Var = -1 then Inl AssertFailed else Inr (swap_finish nVarsAll fReturnIn s))"

definition Kit_TruthShrink :: "words \<Rightarrow> words \<Rightarrow> nat \<Rightarrow> nat \<Rightarrow> u32 \<Rightarrow> bool \<Rightarrow> (words \<times> words) res" where
  "Kit_TruthShrink pOut pIn nVars nVarsAll Phase fReturnIn =
    res_bind (run_loop [0..<nVarsAll] (\<lambda>i (Var, s).
        if (Phase AND push_bit i 1) \<noteq> 0 then
          res_bind (run_loop (rev [Var..<i]) (swap_step nVarsAll) s) (\<lambda>s. Inr (Var + 1, s))
        else Inr (Var, s))
      (0, \<lparr>sOut = pOut, sIn = pIn, sCounter = 0\<rparr>)) (\<lambda>(Var, s).
    if \<not> Var = nVars then Inl AssertFailed else Inr (swap_finish nVarsAll fReturnIn s))"

text \<open>
  Where the variables are: after some swaps, variable \<open>i\<close> of the original table is at position
  \<open>\<sigma> i\<close>, and the table gives to a minterm what the original gives to the minterm whose bit \<open>i\<close> is
  bit \<open>\<sigma> i\<close>.
\<close>

definition permute_bits :: "nat \<Rightarrow> (nat \<Rightarrow> nat) \<Rightarrow> nat \<Rightarrow> nat" where
  "permute_bits n \<sigma> m = horner_sum of_bool 2 (map (\<lambda>i. bit m (\<sigma> i)) [0..<max 5 n])"

lemma bit_permute_bits [simp]: "bit (permute_bits n \<sigma> m) i \<longleftrightarrow> i < max 5 n \<and> bit m (\<sigma> i)"
  by (auto simp: permute_bits_def bit_horner_sum_bit_iff)

lemma permute_bits_less: "permute_bits n \<sigma> m < tt_size n"
  by (simp add: tt_size_exp less_exp_bits del: max_less_iff_conj)

lemma permute_bits_id: "m < tt_size n \<Longrightarrow> permute_bits n (\<lambda>i. i) m = m"
  by (rule bit_eqI) (auto simp: tt_size_exp less_exp_bits simp del: max_less_iff_conj)

lemma permute_bits_swap: "permute_bits n \<sigma> (swap_bits k m) = permute_bits n (\<lambda>i. swap_pos k (\<sigma> i)) m"
  by (rule bit_eqI) simp

definition arranged :: "nat \<Rightarrow> (nat \<Rightarrow> bool) \<Rightarrow> (nat \<Rightarrow> nat) \<Rightarrow> 'a Swap_State_scheme \<Rightarrow> bool" where
  "arranged n T \<sigma> s \<longleftrightarrow> tt_ok (sOut s) n \<and> tt_ok (sIn s) n \<and>
     (\<forall>m<tt_size n. tt_bit (sIn s) m = T (permute_bits n \<sigma> m))"

lemma swap_bits_less_size: "Suc k < n \<Longrightarrow> m < tt_size n \<Longrightarrow> swap_bits k m < tt_size n"
  by (simp add: tt_size_exp swap_bits_less)

lemma arranged_start:
  "tt_ok (sOut s) n \<Longrightarrow> tt_ok (sIn s) n \<Longrightarrow> (\<And>m. m < tt_size n \<Longrightarrow> tt_bit (sIn s) m = T m) \<Longrightarrow> arranged n T (\<lambda>i. i) s"
  by (simp add: arranged_def permute_bits_id)

lemma arranged_step:
  assumes "arranged n T \<sigma> s" "Suc k < n"
  shows "returns (swap_step n k s) (\<lambda>s'. arranged n T (\<lambda>i. swap_pos k (\<sigma> i)) s' \<and>
    Swap_State.more s' = Swap_State.more s)"
proof -
  have ok: "tt_ok (sOut s) n" and T: "\<And>m. m < tt_size n \<Longrightarrow> tt_bit (sIn s) m = T (permute_bits n \<sigma> m)"
    using assms(1) by (simp_all add: arranged_def)
  from Kit_TruthSwapAdjacentVars_val [OF ok assms(2), of "sIn s"] show ?thesis
    unfolding swap_step_def
  proof (rule returns_bind)
    fix r assume r: "length r = length (sOut s) \<and> (\<forall>m<tt_size n. tt_bit r m = tt_bit (sIn s) (swap_bits k m))"
    then have "tt_bit r m = T (permute_bits n (\<lambda>i. swap_pos k (\<sigma> i)) m)" if "m < tt_size n" for m
      using that swap_bits_less_size [OF assms(2) that] by (simp add: T permute_bits_swap)
    then show "returns (Inr (s\<lparr>sOut := sIn s, sIn := r, sCounter := sCounter s + 1\<rparr>))
      (\<lambda>s'. arranged n T (\<lambda>i. swap_pos k (\<sigma> i)) s' \<and> Swap_State.more s' = Swap_State.more s)"
      using r assms(1) by (simp add: arranged_def tt_ok_def)
  qed
qed

text \<open>Moving a variable up or down by a run of swaps.\<close>

definition moved :: "nat \<Rightarrow> nat \<Rightarrow> nat \<Rightarrow> nat" where
  "moved a b i = (if i = a then b else if a < i \<and> i \<le> b then i - 1 else if b \<le> i \<and> i < a then i + 1 else i)"

lemma swap_pos_moved_up: "a \<le> k \<Longrightarrow> swap_pos k (moved a k i) = moved a (Suc k) i"
  by (auto simp: swap_pos_def moved_def)

lemma swap_pos_moved_down: "k < b \<Longrightarrow> swap_pos k (moved b (Suc k) i) = moved b k i"
  by (auto simp: swap_pos_def moved_def)

lemma moved_self [simp]: "moved a a i = i"
  by (simp add: moved_def)

lemma move_up:
  assumes "arranged n T \<sigma> s" "a \<le> b" "b < n"
  shows "returns (run_loop [a..<b] (swap_step n) s) (arranged n T (\<lambda>i. moved a b (\<sigma> i)))"
proof (rule run_loop_up [where I = "\<lambda>k. arranged n T (\<lambda>i. moved a k (\<sigma> i))"])
  fix k s' assume k: "a \<le> k" "k < b" and s': "arranged n T (\<lambda>i. moved a k (\<sigma> i)) s'"
  have "Suc k < n" using k assms(3) by simp
  from arranged_step [OF s' this] show "returns (swap_step n k s') (arranged n T (\<lambda>i. moved a (Suc k) (\<sigma> i)))"
    by (rule returns_mono) (simp add: swap_pos_moved_up k)
qed (use assms in simp_all)

lemma move_down:
  assumes "arranged n T \<sigma> s" "a \<le> b" "b < n"
  shows "returns (run_loop (rev [a..<b]) (swap_step n) s) (arranged n T (\<lambda>i. moved b a (\<sigma> i)))"
proof (rule run_loop_down [where I = "\<lambda>k. arranged n T (\<lambda>i. moved b k (\<sigma> i))"])
  fix k s' assume k: "a \<le> k" "k < b" and s': "arranged n T (\<lambda>i. moved b (Suc k) (\<sigma> i)) s'"
  have "Suc k < n" using k assms(3) by simp
  from arranged_step [OF s' this] show "returns (swap_step n k s') (arranged n T (\<lambda>i. moved b k (\<sigma> i)))"
    by (rule returns_mono) (simp add: swap_pos_moved_down k)
qed (use assms in simp_all)

lemma swap_finish_val:
  assumes "arranged n T \<sigma> s"
  shows "tt_ok (fst (swap_finish n r s)) n" "tt_ok (snd (swap_finish n r s)) n"
    "m < tt_size n \<Longrightarrow> tt_bit ((if r then snd else fst) (swap_finish n r s)) m = T (permute_bits n \<sigma> m)"
  using assms by (auto simp: swap_finish_def arranged_def Let_def tt_bit_kit_ops)

section \<open>Stretching and shrinking\<close>

text \<open>The number of variables of the phase below a position: the rank of the variable there.\<close>

primrec rank :: "u32 \<Rightarrow> nat \<Rightarrow> nat" where
  "rank P 0 = 0"
| "rank P (Suc i) = (if bit P i then Suc (rank P i) else rank P i)"

lemma rank_card: "rank P i = card {j. j < i \<and> bit P j}"
proof (induction i)
  case (Suc i)
  have "{j. j < Suc i \<and> bit P j} = (if bit P i then insert i {j. j < i \<and> bit P j} else {j. j < i \<and> bit P j})"
    by (auto simp: less_Suc_eq)
  then show ?case using Suc by simp
qed simp

lemma rank_le: "rank P i \<le> i"
  by (induction i) auto

lemma rank_mono: "i \<le> j \<Longrightarrow> rank P i \<le> rank P j"
  by (induction j rule: dec_induct) auto

lemma rank_less: "bit P i \<Longrightarrow> i < j \<Longrightarrow> rank P i < rank P j"
  using rank_mono [of "Suc i" j P] by simp

lemma rank_onto: "k < rank P n \<Longrightarrow> \<exists>j<n. bit P j \<and> rank P j = k"
  by (induction n) (auto simp: less_Suc_eq split: if_splits)

lemma and_bit_nonzero: "(P AND push_bit i 1) \<noteq> 0 \<longleftrightarrow> bit (P :: u32) i"
  by (simp add: push_bit_eq_mult)

definition stretched :: "u32 \<Rightarrow> nat \<Rightarrow> nat \<Rightarrow> (nat \<Rightarrow> nat) \<Rightarrow> bool" where
  "stretched P k n \<sigma> \<longleftrightarrow> (\<forall>j<n. k \<le> j \<longrightarrow> bit P j \<longrightarrow> \<sigma> (rank P j) = j) \<and> (\<forall>j<rank P k. \<sigma> j = j)"

lemma stretched_step:
  assumes "stretched P (Suc i) n \<sigma>" "bit P i" "i < n"
  shows "stretched P i n (\<lambda>j. moved (rank P i) i (\<sigma> j))"
proof -
  have "moved (rank P i) i (\<sigma> (rank P j)) = j" if "j < n" "i \<le> j" "bit P j" for j
  proof (cases "j = i")
    case True
    then show ?thesis using assms by (simp add: stretched_def moved_def)
  next
    case False
    then show ?thesis using assms that rank_le [of P i] by (simp add: stretched_def moved_def)
  qed
  moreover have "moved (rank P i) i (\<sigma> j) = j" if "j < rank P i" for j
    using assms that rank_le [of P i] by (simp add: stretched_def moved_def)
  ultimately show ?thesis by (simp add: stretched_def)
qed

lemma Kit_TruthStretch_val:
  assumes ok: "tt_ok pOut n" "tt_ok pIn n" and k: "k = rank P n"
  shows "returns (Kit_TruthStretch pOut pIn k n P r) (\<lambda>(o', i'). tt_ok o' n \<and> tt_ok i' n \<and>
    (\<exists>\<sigma>. (\<forall>j<n. bit P j \<longrightarrow> \<sigma> (rank P j) = j) \<and>
      (\<forall>m<tt_size n. tt_bit (if r then i' else o') m = tt_bit pIn (permute_bits n \<sigma> m))))"
proof -
  let ?body = "\<lambda>i (Var, s).
        if (P AND push_bit i 1) \<noteq> 0 then
          if Var < 0 then Inl Undefined
          else res_bind (run_loop [nat Var..<i] (swap_step n) s) (\<lambda>s. Inr (Var - 1, s))
        else Inr (Var, s)"
  let ?I = "\<lambda>i (Var, s). Var = int (rank P i) - 1 \<and> (\<exists>\<sigma>. stretched P i n \<sigma> \<and> arranged n (tt_bit pIn) \<sigma> s)"
  let ?s0 = "\<lparr>sOut = pOut, sIn = pIn, sCounter = 0\<rparr>"
  have "arranged n (tt_bit pIn) (\<lambda>i. i) ?s0" using ok by (intro arranged_start) simp_all
  then have start: "?I n (int k - 1, ?s0)" by (auto simp: k stretched_def)
  have step: "returns (?body i x) (?I i)" if i: "i < n" and x: "?I (Suc i) x" for i x
  proof -
    obtain Var s \<sigma> where x1: "x = (Var, s)" and V: "Var = int (rank P (Suc i)) - 1"
      and \<sigma>: "stretched P (Suc i) n \<sigma>" and a: "arranged n (tt_bit pIn) \<sigma> s"
      using x by (cases x) auto
    show ?thesis
    proof (cases "bit P i")
      case False
      then have "stretched P i n \<sigma>" using \<sigma> by (auto simp: stretched_def) (metis le_antisym not_less_eq_eq)
      then show ?thesis using False V a x1 by (auto simp: and_bit_nonzero)
    next
      case True
      then have V: "Var = int (rank P i)" using V by simp
      have "returns (res_bind (run_loop [rank P i..<i] (swap_step n) s) (\<lambda>s. Inr (Var - 1, s))) (?I i)"
      proof (rule returns_bind [OF move_up [OF a rank_le i]])
        fix s' assume "arranged n (tt_bit pIn) (\<lambda>j. moved (rank P i) i (\<sigma> j)) s'"
        then show "returns (Inr (Var - 1, s')) (?I i)"
          using stretched_step [OF \<sigma> True i] V by auto
      qed
      then show ?thesis using True V x1 by (simp add: and_bit_nonzero)
    qed
  qed
  have "returns (run_loop (rev [0..<n]) ?body (int k - 1, ?s0)) (?I 0)"
  proof (rule run_loop_down [where I = ?I])
    show "?I n (int k - 1, ?s0)" by (rule start)
    show "returns (?body i x) (?I i)" if "0 \<le> i" "i < n" "?I (Suc i) x" for i x by (rule step [OF that(2,3)])
  qed simp
  then show ?thesis
    unfolding Kit_TruthStretch_def
  proof (rule returns_bind)
    fix x assume x: "?I 0 x"
    obtain Var s \<sigma> where x1: "x = (Var, s)" "Var = -1" and \<sigma>: "stretched P 0 n \<sigma>" and a: "arranged n (tt_bit pIn) \<sigma> s"
      using x by (cases x) auto
    show "returns (case x of (Var, s) \<Rightarrow> if \<not> Var = -1 then Inl AssertFailed else Inr (swap_finish n r s))
      (\<lambda>(o', i'). tt_ok o' n \<and> tt_ok i' n \<and> (\<exists>\<sigma>. (\<forall>j<n. bit P j \<longrightarrow> \<sigma> (rank P j) = j) \<and>
      (\<forall>m<tt_size n. tt_bit (if r then i' else o') m = tt_bit pIn (permute_bits n \<sigma> m))))"
      using swap_finish_val [OF a, where r = r] \<sigma> x1
      by (cases "swap_finish n r s") (auto simp: stretched_def intro!: exI [of _ \<sigma>] split: if_splits)
  qed
qed

definition shrunk :: "u32 \<Rightarrow> nat \<Rightarrow> (nat \<Rightarrow> nat) \<Rightarrow> bool" where
  "shrunk P i \<sigma> \<longleftrightarrow> (\<forall>j<i. bit P j \<longrightarrow> \<sigma> j = rank P j) \<and> (\<forall>j\<ge>i. \<sigma> j = j)"

lemma shrunk_step:
  assumes "shrunk P i \<sigma>" "bit P i"
  shows "shrunk P (Suc i) (\<lambda>j. moved i (rank P i) (\<sigma> j))"
proof -
  have "moved i (rank P i) (\<sigma> j) = rank P j" if "j < Suc i" "bit P j" for j
  proof (cases "j = i")
    case False
    then have "j < i" using that by simp
    moreover have "rank P j < rank P i" using rank_less [OF that(2)] \<open>j < i\<close> .
    ultimately show ?thesis using assms that(2) rank_le [of P i] by (simp add: shrunk_def moved_def)
  qed (use assms in \<open>simp add: shrunk_def moved_def\<close>)
  then show ?thesis using assms rank_le [of P i] by (simp add: shrunk_def moved_def)
qed

lemma Kit_TruthShrink_val:
  assumes ok: "tt_ok pOut n" "tt_ok pIn n"
  shows "if k \<noteq> rank P n then Kit_TruthShrink pOut pIn k n P r = Inl AssertFailed
    else returns (Kit_TruthShrink pOut pIn k n P r) (\<lambda>(o', i'). tt_ok o' n \<and> tt_ok i' n \<and>
      (\<exists>\<sigma>. (\<forall>j<n. bit P j \<longrightarrow> \<sigma> j = rank P j) \<and>
        (\<forall>m<tt_size n. tt_bit (if r then i' else o') m = tt_bit pIn (permute_bits n \<sigma> m))))"
proof -
  let ?body = "\<lambda>i (Var, s).
        if (P AND push_bit i 1) \<noteq> 0 then
          res_bind (run_loop (rev [Var..<i]) (swap_step n) s) (\<lambda>s. Inr (Var + 1, s))
        else Inr (Var, s)"
  let ?I = "\<lambda>i (Var, s). Var = rank P i \<and> (\<exists>\<sigma>. shrunk P i \<sigma> \<and> arranged n (tt_bit pIn) \<sigma> s)"
  let ?s0 = "\<lparr>sOut = pOut, sIn = pIn, sCounter = 0\<rparr>"
  have "arranged n (tt_bit pIn) (\<lambda>i. i) ?s0" using ok by (intro arranged_start) simp_all
  then have start: "?I 0 (0, ?s0)" by (auto simp: shrunk_def)
  have step: "returns (?body i x) (?I (Suc i))" if i: "i < n" and x: "?I i x" for i x
  proof -
    obtain s \<sigma> where x1: "x = (rank P i, s)" and \<sigma>: "shrunk P i \<sigma>" and a: "arranged n (tt_bit pIn) \<sigma> s"
      using x by (cases x) auto
    show ?thesis
    proof (cases "bit P i")
      case False
      then have "shrunk P (Suc i) \<sigma>" using \<sigma> by (auto simp: shrunk_def less_Suc_eq)
      then show ?thesis using False a x1 by (auto simp: and_bit_nonzero)
    next
      case True
      have "returns (res_bind (run_loop (rev [rank P i..<i]) (swap_step n) s) (\<lambda>s. Inr (rank P i + 1, s))) (?I (Suc i))"
      proof (rule returns_bind [OF move_down [OF a rank_le i]])
        fix s' assume "arranged n (tt_bit pIn) (\<lambda>j. moved i (rank P i) (\<sigma> j)) s'"
        then show "returns (Inr (rank P i + 1, s')) (?I (Suc i))"
          using shrunk_step [OF \<sigma> True] True by auto
      qed
      then show ?thesis using True x1 by (simp add: and_bit_nonzero)
    qed
  qed
  have "returns (run_loop [0..<n] ?body (0, ?s0)) (?I n)"
  proof (rule run_loop_up [where I = ?I])
    show "?I 0 (0, ?s0)" by (rule start)
    show "returns (?body i x) (?I (Suc i))" if "0 \<le> i" "i < n" "?I i x" for i x by (rule step [OF that(2,3)])
  qed simp
  then obtain s \<sigma> where run: "run_loop [0..<n] ?body (0, ?s0) = Inr (rank P n, s)" and \<sigma>: "shrunk P n \<sigma>"
    and a: "arranged n (tt_bit pIn) \<sigma> s" by (auto elim!: returnsE)
  show ?thesis
    using swap_finish_val [OF a, where r = r] \<sigma> unfolding Kit_TruthShrink_def run
    by (cases "swap_finish n r s") (auto simp: shrunk_def intro!: exI [of _ \<sigma>] split: if_splits)
qed

section \<open>Properties\<close>

text \<open>
  C28. Both versions of the swap of adjacent variables are the same function; no assertion fails, and
  the output gives to a minterm what the input gives to the minterm with the two bits exchanged.
\<close>

theorem Kit_TruthSwapAdjacentVars_correct:
  assumes "tt_ok pOut n" "Suc v < n"
  shows "Kit_TruthSwapAdjacentVars2 pIn pOut n v = Kit_TruthSwapAdjacentVars pOut pIn n v \<and>
    returns (Kit_TruthSwapAdjacentVars pOut pIn n v)
      (\<lambda>r. length r = length pOut \<and> (\<forall>m\<in>{..<tt_size n}. tt_bit r m = tt_bit pIn (swap_bits v m)))"
  using Kit_TruthSwapAdjacentVars2_eq Kit_TruthSwapAdjacentVars_val [OF assms, of pIn]
  by (auto elim: returns_mono)

theorem Kit_TruthSwapAdjacentVars_witness:
  "returns (Kit_TruthSwapAdjacentVars [0, 0] [5, 9] 6 4) (\<lambda>r. length r = 2)"
  using Kit_TruthSwapAdjacentVars_correct [of "[0, 0]" 6 4 "[5, 9]"]
  by (auto simp: tt_ok_def Kit_TruthWordNum_def elim: returns_mono)

text \<open>
  C29. Shrinking fails its assertion exactly when the phase does not have as many variables as it is
  told; otherwise the variables of the phase are moved to the positions of their rank.
\<close>

theorem Kit_TruthShrink_correct:
  assumes "tt_ok pOut n" "tt_ok pIn n"
  shows "if k \<noteq> card {j. j < n \<and> bit P j} then Kit_TruthShrink pOut pIn k n P r = Inl AssertFailed
    else returns (Kit_TruthShrink pOut pIn k n P r) (\<lambda>(o', i'). \<exists>\<sigma>. (\<forall>j\<in>{..<n}. bit P j \<longrightarrow> \<sigma> j = rank P j) \<and>
      (\<forall>m\<in>{..<tt_size n}. tt_bit (if r then i' else o') m = tt_bit pIn (permute_bits n \<sigma> m)))"
proof (cases "k = rank P n")
  case True
  then have "returns (Kit_TruthShrink pOut pIn k n P r) (\<lambda>(o', i'). tt_ok o' n \<and> tt_ok i' n \<and>
      (\<exists>\<sigma>. (\<forall>j<n. bit P j \<longrightarrow> \<sigma> j = rank P j) \<and>
        (\<forall>m<tt_size n. tt_bit (if r then i' else o') m = tt_bit pIn (permute_bits n \<sigma> m))))"
    using Kit_TruthShrink_val [OF assms, of k P r] by simp
  then have "returns (Kit_TruthShrink pOut pIn k n P r) (\<lambda>(o', i'). \<exists>\<sigma>. (\<forall>j\<in>{..<n}. bit P j \<longrightarrow> \<sigma> j = rank P j) \<and>
      (\<forall>m\<in>{..<tt_size n}. tt_bit (if r then i' else o') m = tt_bit pIn (permute_bits n \<sigma> m)))"
    by (rule returns_mono) (auto simp del: split_paired_Ex)
  then show ?thesis using True by (simp add: rank_card)
next
  case False
  then show ?thesis using Kit_TruthShrink_val [OF assms, of k P r] by (simp add: rank_card)
qed

theorem Kit_TruthShrink_witness: "Kit_TruthShrink [0] [0x8] 0 2 1 False = Inl AssertFailed"
proof -
  have "{j. j < (2::nat) \<and> bit (1::u32) j} = {0}" by (auto simp: bit_1_iff)
  then show ?thesis using Kit_TruthShrink_correct [of "[0]" 2 "[0x8]" 0 1 False]
    by (simp add: tt_ok_def Kit_TruthWordNum_def)
qed

text \<open>
  C24. Stretching a table to more variables and shrinking it with the same phase gives the table back,
  when it only depends on the variables that are stretched.
\<close>

theorem Kit_TruthStretch_Shrink_roundtrip:
  assumes "tt_ok q n" "tt_ok p n" "tt_ok q' n" "k = card {j. j < n \<and> bit P j}"
    and dep: "\<And>m. m < tt_size n \<Longrightarrow> tt_bit p (take_bit k m) = tt_bit p m"
  shows "returns (Kit_TruthStretch q p k n P False) (\<lambda>(s, _).
    returns (Kit_TruthShrink q' s k n P False) (\<lambda>(r, _). \<forall>m\<in>{..<tt_size n}. tt_bit r m = tt_bit p m))"
proof -
  have k: "k = rank P n" using assms(4) by (simp add: rank_card)
  have inner: "returns (Kit_TruthShrink q' s k n P False) (\<lambda>(r, _). \<forall>m\<in>{..<tt_size n}. tt_bit r m = tt_bit p m)"
    if s: "tt_ok s n" and \<sigma>: "\<forall>j<n. bit P j \<longrightarrow> \<sigma> (rank P j) = j"
      and sv: "\<forall>m<tt_size n. tt_bit s m = tt_bit p (permute_bits n \<sigma> m)" for s \<sigma>
  proof -
    have "returns (Kit_TruthShrink q' s k n P False) (\<lambda>(o', i'). tt_ok o' n \<and> tt_ok i' n \<and>
      (\<exists>\<sigma>. (\<forall>j<n. bit P j \<longrightarrow> \<sigma> j = rank P j) \<and> (\<forall>m<tt_size n. tt_bit o' m = tt_bit s (permute_bits n \<sigma> m))))"
      using Kit_TruthShrink_val [OF assms(3) s, of k P False] k by simp
    then obtain r r' \<tau> where r: "Kit_TruthShrink q' s k n P False = Inr (r, r')" and \<tau>: "\<forall>j<n. bit P j \<longrightarrow> \<tau> j = rank P j"
      and rv: "\<forall>m<tt_size n. tt_bit r m = tt_bit s (permute_bits n \<tau> m)"
      by (auto elim!: returnsE)
    have "tt_bit r m = tt_bit p m" if m: "m < tt_size n" for m
    proof -
      let ?m = "permute_bits n \<sigma> (permute_bits n \<tau> m)"
      have "bit (take_bit k ?m) i = bit (take_bit k m) i" for i
      proof (cases "i < k")
        case True
        then obtain j where j: "j < n" "bit P j" "rank P j = i" using rank_onto k by blast
        have "i < n" using True k rank_le [of P n] by simp
        then show ?thesis using True j \<sigma> \<tau> by (auto simp: bit_take_bit_iff)
      qed (simp add: bit_take_bit_iff)
      then have "take_bit k ?m = take_bit k m" by (rule bit_eqI)
      then have "tt_bit p ?m = tt_bit p m"
        using dep [OF permute_bits_less] dep [OF m] by metis
      then show ?thesis using rv sv m permute_bits_less by simp
    qed
    then show ?thesis using r by simp
  qed
  from Kit_TruthStretch_val [OF assms(1,2) k, of False] obtain s s' \<sigma> where
      "Kit_TruthStretch q p k n P False = Inr (s, s')" "tt_ok s n" "\<forall>j<n. bit P j \<longrightarrow> \<sigma> (rank P j) = j"
      "\<forall>m<tt_size n. tt_bit s m = tt_bit p (permute_bits n \<sigma> m)"
    by (auto elim!: returnsE)
  then show ?thesis using inner by simp
qed

theorem Kit_TruthStretch_Shrink_roundtrip_witness:
  "returns (Kit_TruthStretch [0] [0xAAAAAAAA] 1 3 4 False) (\<lambda>(s, _).
    returns (Kit_TruthShrink [0] s 1 3 4 False) (\<lambda>(r, _). \<forall>m\<in>{..<tt_size 3}. tt_bit r m = tt_bit [0xAAAAAAAA] m))"
proof (rule Kit_TruthStretch_Shrink_roundtrip)
  have "rank 4 3 = 1" by code_simp
  then show "1 = card {j. j < (3::nat) \<and> bit (4::u32) j}" by (simp only: rank_card)
  have mask: "tt_bit [0xAAAAAAAA] b = bit b 0" if "b < 32" for b
  proof -
    have "b div 32 = 0" "b mod 32 = b" using that by simp_all
    then have "tt_bit [0xAAAAAAAA] b = bit (var_masks ! 0) b" by (simp only: tt_bit_def var_masks_def nth_Cons_0)
    then show ?thesis using that by (simp only: var_masks_bit zero_less_numeral simp_thms)
  qed
  show "tt_bit [0xAAAAAAAA] (take_bit 1 m) = tt_bit [0xAAAAAAAA] m" if "m < tt_size 3" for m
  proof -
    have "m < 32" using that by (simp add: tt_size_def Kit_TruthWordNum_def)
    moreover have "take_bit 1 m < 32" using take_bit_nat_less_exp [of 1 m] by simp
    ultimately show ?thesis by (simp only: mask bit_take_bit_iff zero_less_one simp_thms)
  qed
qed (simp_all add: tt_ok_def Kit_TruthWordNum_def)

end
