(* ===== verification/Kit_Exchange.thy ===== *)
theory Kit_Exchange
  imports Kit_Prelude
begin

text \<open>
  The interface of the sorting loops of \<open>kitTruth.c\<close>:
  \<^verbatim>\<open>
    do {
        fChange = 0;
        for ( i = 0; i < n-1; i++ )
            if the entries i and i+1 are out of order { fChange = 1; exchange them; }
    } while ( fChange );
  \<close>
  The state carries more than the entries: the truth table whose variables are exchanged at the same
  time, permutations and phases. \<open>ok\<close> is what the exchanges keep of it, \<open>key\<close> are the entries.
  The loop may not end on other states, so it is a partial function; the laws of the interface
  give that it does end, with the entries in order.
\<close>

definition key_sum :: "nat \<Rightarrow> (nat \<Rightarrow> int) \<Rightarrow> int" where
  "key_sum n k = (\<Sum>i<n. int (n - i) * k i)"

lemma key_sum_exchange:
  assumes i: "Suc i < n" and k': "\<And>j. j < n \<Longrightarrow> k' j = k (swap_pos i j)"
  shows "key_sum n k' = key_sum n k - (k i - k (Suc i))"
proof -
  let ?R = "{..<n} - {i} - {Suc i}"
  have split: "key_sum n h = int (n - i) * h i + (int (n - Suc i) * h (Suc i) + (\<Sum>j\<in>?R. int (n - j) * h j))" for h
  proof -
    have "key_sum n h = int (n - i) * h i + (\<Sum>j\<in>{..<n} - {i}. int (n - j) * h j)"
      unfolding key_sum_def using i by (intro sum.remove) auto
    also have "(\<Sum>j\<in>{..<n} - {i}. int (n - j) * h j) = int (n - Suc i) * h (Suc i) + (\<Sum>j\<in>?R. int (n - j) * h j)"
      using i by (intro sum.remove) auto
    finally show ?thesis .
  qed
  have same: "(\<Sum>j\<in>?R. int (n - j) * k' j) = (\<Sum>j\<in>?R. int (n - j) * k j)"
    by (rule sum.cong) (auto simp: k' swap_pos_def)
  have eqs: "k' i = k (Suc i)" "k' (Suc i) = k i" "int (n - i) = int (n - Suc i) + 1"
    using i by (simp_all add: k' swap_pos_def)
  show ?thesis unfolding split [of k'] split [of k] same eqs distrib_right by linarith
qed

text \<open>The sum of the weighted entries above their minimum: it gets smaller with every exchange.\<close>

definition key_weight :: "nat \<Rightarrow> (nat \<Rightarrow> int) \<Rightarrow> nat" where
  "key_weight n k = nat (key_sum n (\<lambda>i. k i - Min (k ` {..<n})))"

lemma key_weight_exchange:
  assumes i: "Suc i < n" and k': "\<And>j. j < n \<Longrightarrow> k' j = k (swap_pos i j)" and less: "k (Suc i) < k i"
  shows "key_weight n k' < key_weight n k"
proof -
  have "swap_pos i ` {..<n} = {..<n}"
  proof
    show "swap_pos i ` {..<n} \<subseteq> {..<n}" using i by (auto simp: swap_pos_def)
    show "{..<n} \<subseteq> swap_pos i ` {..<n}"
    proof
      fix j assume "j \<in> {..<n}"
      then have "swap_pos i j \<in> {..<n}" using i by (auto simp: swap_pos_def)
      then show "j \<in> swap_pos i ` {..<n}" by (intro image_eqI [of _ _ "swap_pos i j"]) simp_all
    qed
  qed
  moreover have "k' ` {..<n} = k ` (swap_pos i ` {..<n})" unfolding image_image by (rule image_cong) (simp_all add: k')
  ultimately have range: "k' ` {..<n} = k ` {..<n}" by simp
  let ?M = "Min (k ` {..<n})"
  have min: "?M \<le> k' j" if "j < n" for j
  proof -
    have "k' j \<in> k ` {..<n}" using that range by blast
    then show ?thesis by (simp add: Min_le)
  qed
  have "key_sum n (\<lambda>j. k' j - ?M) = key_sum n (\<lambda>j. k j - ?M) - ((k i - ?M) - (k (Suc i) - ?M))"
    by (rule key_sum_exchange [OF i]) (simp add: k')
  moreover have "0 \<le> key_sum n (\<lambda>j. k' j - ?M)"
    unfolding key_sum_def by (intro sum_nonneg mult_nonneg_nonneg) (simp_all add: min)
  ultimately show ?thesis unfolding key_weight_def range using less by simp
qed

locale exchange_sort =
  fixes n :: nat
    and key :: "'s \<Rightarrow> nat \<Rightarrow> int"
    and ok :: "'s \<Rightarrow> bool"
    and change :: "'s \<Rightarrow> bool"
    and reset :: "'s \<Rightarrow> 's"
    and body :: "nat \<Rightarrow> 's \<Rightarrow> 's res"
    and sort_loop :: "'s \<Rightarrow> 's res option"
  assumes body_keep: "ok s \<Longrightarrow> Suc i < n \<Longrightarrow> key s i \<le> key s (Suc i) \<Longrightarrow> body i s = Inr s"
    and body_exchange: "ok s \<Longrightarrow> Suc i < n \<Longrightarrow> key s (Suc i) < key s i \<Longrightarrow>
      returns (body i s) (\<lambda>s'. ok s' \<and> change s' \<and> (\<forall>j<n. key s' j = key s (swap_pos i j)))"
    and reset_ok: "ok s \<Longrightarrow> ok (reset s) \<and> \<not> change (reset s) \<and> key (reset s) = key s"
    and loop_unfold: "sort_loop s = (case run_loop [0..<n - 1] body (reset s) of
        Inl e \<Rightarrow> Some (Inl e)
      | Inr s \<Rightarrow> if change s then sort_loop s else Some (Inr s))"
begin

lemma one_pass:
  assumes s: "ok s" "\<not> change s"
  shows "returns (run_loop [0..<n - 1] body s) (\<lambda>s'. ok s' \<and>
    (if change s' then key_weight n (key s') < key_weight n (key s)
     else s' = s \<and> (\<forall>j<n - 1. key s j \<le> key s (Suc j))))"
proof -
  let ?I = "\<lambda>i s'. ok s' \<and> (if change s' then key_weight n (key s') < key_weight n (key s)
     else s' = s \<and> (\<forall>j<i. key s j \<le> key s (Suc j)))"
  show ?thesis
  proof (rule run_loop_up [where I = ?I])
    show "?I 0 s" using s by simp
    show "returns (body i s') (?I (Suc i))" if "0 \<le> i" and i: "i < n - 1" and I: "?I i s'" for i s'
    proof -
      have ok: "ok s'" "Suc i < n" using I i by auto
      show ?thesis
      proof (cases "key s' i \<le> key s' (Suc i)")
        case True
        then show ?thesis using I body_keep [OF ok True] by (auto simp: less_Suc_eq split: if_splits)
      next
        case False
        then have less: "key s' (Suc i) < key s' i" by simp
        have le: "key_weight n (key s') \<le> key_weight n (key s)" using I by (auto split: if_splits)
        show ?thesis
        proof (rule returns_mono [OF body_exchange [OF ok less]])
          fix s'' assume s'': "ok s'' \<and> change s'' \<and> (\<forall>j<n. key s'' j = key s' (swap_pos i j))"
          have "key_weight n (key s'') < key_weight n (key s')"
            by (rule key_weight_exchange [OF ok(2) _ less]) (use s'' in simp)
          then show "?I (Suc i) s''" using s'' le by simp
        qed
      qed
    qed
  qed simp
qed

lemma sorts:
  assumes "ok s"
  shows "\<exists>s'. sort_loop s = Some (Inr s') \<and> ok s' \<and> (\<forall>j. Suc j < n \<longrightarrow> key s' j \<le> key s' (Suc j))"
  using assms
proof (induction "key_weight n (key s)" arbitrary: s rule: less_induct)
  case less
  have r: "ok (reset s)" "\<not> change (reset s)" "key (reset s) = key s" using reset_ok [OF less.prems] by auto
  obtain s' where s': "run_loop [0..<n - 1] body (reset s) = Inr s'" "ok s'"
      "if change s' then key_weight n (key s') < key_weight n (key (reset s))
       else s' = reset s \<and> (\<forall>j<n - 1. key (reset s) j \<le> key (reset s) (Suc j))"
    using one_pass [OF r(1,2)] by (auto elim: returnsE)
  show ?case
  proof (cases "change s'")
    case True
    then have "key_weight n (key s') < key_weight n (key s)" using s'(3) r(3) by simp
    from less.hyps [OF this s'(2)] show ?thesis
      by (subst loop_unfold) (simp add: s'(1) True del: One_nat_def)
  next
    case False
    then have "\<forall>j. Suc j < n \<longrightarrow> key s' j \<le> key s' (Suc j)" using s'(3) by auto
    then show ?thesis using s'(1,2) False by (subst loop_unfold) (simp del: One_nat_def)
  qed
qed

end

end
