(* ===== verification/Kit_Permute.thy ===== *)
theory Kit_Permute
  imports Kit_Swap Kit_Exchange
begin

text \<open>
  Permuting the variables of a truth table (\<open>Kit_TruthPermute\<close> in
  \<open>src/abc-master/src/bool/kit/kitTruth.c\<close>): the array of positions is sorted by exchanging
  neighbours, and the variables of the table are swapped along with its entries. The entries are
  characters of the code; the model keeps them as numbers.
\<close>

record Permute_State = Swap_State +
  sPerm :: "nat list"
  sChange :: bool

definition permute_body :: "nat \<Rightarrow> nat \<Rightarrow> Permute_State \<Rightarrow> Permute_State res" where
  "permute_body nVars i s =
    (if \<not> sPerm s ! i \<noteq> sPerm s ! Suc i then Inl AssertFailed
     else if sPerm s ! i \<le> sPerm s ! Suc i then Inr s
     else
       let Temp = sPerm s ! i;
           s = s\<lparr>sChange := True, sPerm := (sPerm s)[i := sPerm s ! Suc i, Suc i := Temp]\<rparr>
       in swap_step nVars i s)"

text \<open>The loop runs until a pass changes nothing; nothing in its form says that it ends.\<close>

partial_function (option) permute_loop :: "nat \<Rightarrow> Permute_State \<Rightarrow> Permute_State res option" where
  "permute_loop nVars s =
    (case run_loop [0..<nVars - 1] (permute_body nVars) (s\<lparr>sChange := False\<rparr>) of
       Inl e \<Rightarrow> Some (Inl e)
     | Inr s \<Rightarrow> if sChange s then permute_loop nVars s else Some (Inr s))"

definition Kit_TruthPermute ::
  "words \<Rightarrow> words \<Rightarrow> nat \<Rightarrow> nat list \<Rightarrow> bool \<Rightarrow> ((words \<times> words) \<times> nat list) res option" where
  "Kit_TruthPermute pOut pIn nVars pPerm fReturnIn =
    map_option (\<lambda>r. res_bind r (\<lambda>s. Inr (swap_finish nVars fReturnIn s, sPerm s)))
      (permute_loop nVars \<lparr>sOut = pOut, sIn = pIn, sCounter = 0, sPerm = pPerm, sChange = False\<rparr>)"

text \<open>
  What the exchanges keep: the entries are distinct, and the variable \<open>i\<close> of the original table is
  where the entry \<open>p ! i\<close> is.
\<close>

definition permute_ok :: "nat \<Rightarrow> (nat \<Rightarrow> bool) \<Rightarrow> nat list \<Rightarrow> Permute_State \<Rightarrow> bool" where
  "permute_ok n T p s \<longleftrightarrow> length (sPerm s) = n \<and> distinct (sPerm s) \<and>
     (\<exists>\<sigma>. arranged n T \<sigma> s \<and> (\<forall>i<n. \<sigma> i < n \<and> sPerm s ! \<sigma> i = p ! i))"

lemma exchange_nth:
  "Suc i < length xs \<Longrightarrow> j < length xs \<Longrightarrow> xs[i := xs ! Suc i, Suc i := xs ! i] ! j = xs ! swap_pos i j"
  by (auto simp: swap_pos_def nth_list_update)

lemma swap_pos_less: "Suc i < n \<Longrightarrow> j < n \<Longrightarrow> swap_pos i j < n"
  by (auto simp: swap_pos_def)

lemma permute_body_exchange:
  assumes ok: "permute_ok n T p s" and i: "Suc i < n" and less: "sPerm s ! Suc i < sPerm s ! i"
  shows "returns (permute_body n i s) (\<lambda>s'. permute_ok n T p s' \<and> sChange s' \<and>
    (\<forall>j<n. int (sPerm s' ! j) = int (sPerm s ! swap_pos i j)))"
proof -
  obtain \<sigma> where len: "length (sPerm s) = n" and dist: "distinct (sPerm s)" and a: "arranged n T \<sigma> s"
    and \<sigma>: "\<forall>i<n. \<sigma> i < n \<and> sPerm s ! \<sigma> i = p ! i"
    using ok by (auto simp: permute_ok_def)
  let ?xs = "(sPerm s)[i := sPerm s ! Suc i, Suc i := sPerm s ! i]"
  let ?s = "s\<lparr>sChange := True, sPerm := ?xs\<rparr>"
  have nth: "?xs ! j = sPerm s ! swap_pos i j" if "j < n" for j using exchange_nth [of i "sPerm s" j] i that len by simp
  have dist': "distinct ?xs" using distinct_swap [of i "sPerm s" "Suc i"] dist i len by simp
  have "arranged n T \<sigma> ?s" using a by (simp add: arranged_def)
  note step = arranged_step [OF this i]
  have "permute_body n i s = swap_step n i ?s" using less by (simp add: permute_body_def Let_def)
  moreover have "returns (swap_step n i ?s) (\<lambda>s'. permute_ok n T p s' \<and> sChange s' \<and>
    (\<forall>j<n. int (sPerm s' ! j) = int (sPerm s ! swap_pos i j)))"
  proof (rule returns_mono [OF step])
    fix s' assume s': "arranged n T (\<lambda>j. swap_pos i (\<sigma> j)) s' \<and> Swap_State.more s' = Swap_State.more ?s"
    then have more: "sPerm s' = ?xs" "sChange s'" by (cases s', cases s, simp)+
    have "swap_pos i (\<sigma> j) < n \<and> ?xs ! swap_pos i (\<sigma> j) = p ! j" if "j < n" for j
      using \<sigma> that swap_pos_less [OF i] nth by simp
    then have "permute_ok n T p s'"
      using s' len dist' unfolding permute_ok_def more by (intro conjI exI [of _ "\<lambda>j. swap_pos i (\<sigma> j)"]) simp_all
    then show "permute_ok n T p s' \<and> sChange s' \<and> (\<forall>j<n. int (sPerm s' ! j) = int (sPerm s ! swap_pos i j))"
      using more nth by simp
  qed
  ultimately show ?thesis by simp
qed

interpretation permute: exchange_sort n "\<lambda>s i. int (sPerm s ! i)" "permute_ok n T p" sChange
  "\<lambda>s. s\<lparr>sChange := False\<rparr>" "permute_body n" "permute_loop n" for n T p
proof unfold_locales
  show "permute_body n i s = Inr s"
    if ok: "permute_ok n T p s" and i: "Suc i < n" and le: "int (sPerm s ! i) \<le> int (sPerm s ! Suc i)" for s i
  proof -
    have "sPerm s ! i \<noteq> sPerm s ! Suc i"
      using ok i nth_eq_iff_index_eq [of "sPerm s" i "Suc i"] by (simp add: permute_ok_def)
    then show ?thesis using le by (simp add: permute_body_def)
  qed
  show "returns (permute_body n i s) (\<lambda>s'. permute_ok n T p s' \<and> sChange s' \<and>
      (\<forall>j<n. int (sPerm s' ! j) = int (sPerm s ! swap_pos i j)))"
    if "permute_ok n T p s" "Suc i < n" "int (sPerm s ! Suc i) < int (sPerm s ! i)" for s i
    using permute_body_exchange that by simp
  show "permute_ok n T p (s\<lparr>sChange := False\<rparr>) \<and> \<not> sChange (s\<lparr>sChange := False\<rparr>) \<and>
      (\<lambda>i. int (sPerm (s\<lparr>sChange := False\<rparr>) ! i)) = (\<lambda>i. int (sPerm s ! i))" if "permute_ok n T p s" for s
    using that by (simp add: permute_ok_def arranged_def)
qed (rule permute_loop.simps)

lemma sorted_range:
  assumes "length xs = n" "set xs = {..<n}" "\<forall>j. Suc j < n \<longrightarrow> xs ! j \<le> xs ! Suc j"
  shows "xs = [0..<n]"
proof -
  have "sorted xs" using assms(1,3) by (simp add: sorted_iff_nth_Suc)
  moreover have "distinct xs" using assms(1,2) by (intro card_distinct) simp
  ultimately show ?thesis
    using assms(2) by (intro sorted_distinct_set_unique) (simp_all add: lessThan_atLeast0)
qed

lemma Kit_TruthPermute_val:
  assumes ok: "tt_ok pOut n" "tt_ok pIn n" and p: "length p = n" "set p = {..<n}"
  shows "\<exists>o' i'. Kit_TruthPermute pOut pIn n p r = Some (Inr ((o', i'), [0..<n])) \<and>
    tt_ok o' n \<and> tt_ok i' n \<and>
    (\<exists>\<sigma>. (\<forall>i<n. \<sigma> i = p ! i) \<and> (\<forall>m<tt_size n. tt_bit (if r then i' else o') m = tt_bit pIn (permute_bits n \<sigma> m)))"
proof -
  let ?s = "\<lparr>sOut = pOut, sIn = pIn, sCounter = 0, sPerm = p, sChange = False\<rparr>"
  have dist: "distinct p" using p by (intro card_distinct) simp
  have "arranged n (tt_bit pIn) (\<lambda>i. i) ?s" using ok by (intro arranged_start) simp_all
  then have "permute_ok n (tt_bit pIn) p ?s" using p dist by (auto simp: permute_ok_def)
  from permute.sorts [OF this] obtain s' where s': "permute_loop n ?s = Some (Inr s')" "permute_ok n (tt_bit pIn) p s'"
      "\<forall>j. Suc j < n \<longrightarrow> int (sPerm s' ! j) \<le> int (sPerm s' ! Suc j)" by blast
  obtain \<sigma> where len: "length (sPerm s') = n" and d: "distinct (sPerm s')" and a: "arranged n (tt_bit pIn) \<sigma> s'"
    and \<sigma>: "\<forall>i<n. \<sigma> i < n \<and> sPerm s' ! \<sigma> i = p ! i"
    using s'(2) by (auto simp: permute_ok_def)
  have "set p \<subseteq> set (sPerm s')"
  proof
    fix x assume "x \<in> set p"
    then obtain i where "i < n" "x = p ! i" using p(1) by (auto simp: in_set_conv_nth)
    then show "x \<in> set (sPerm s')" using \<sigma> len by (metis nth_mem)
  qed
  moreover have "card (set (sPerm s')) = card (set p)" using d dist len p(1) by (simp add: distinct_card)
  ultimately have "set (sPerm s') = {..<n}" using p(2) by (metis card_subset_eq List.finite_set)
  then have sorted: "sPerm s' = [0..<n]" using sorted_range [OF len] s'(3) by simp
  then have pos: "\<sigma> i = p ! i" if "i < n" for i using \<sigma> that by (metis add_0 nth_upt)
  note fin = swap_finish_val [OF a, where r = r]
  obtain o' i' where f: "swap_finish n r s' = (o', i')" by force
  have "Kit_TruthPermute pOut pIn n p r = Some (Inr ((o', i'), [0..<n]))"
    using s'(1) f sorted by (simp add: Kit_TruthPermute_def)
  moreover have "tt_bit (if r then i' else o') m = tt_bit pIn (permute_bits n \<sigma> m)" if "m < tt_size n" for m
    using fin(3) [OF that] f by (auto split: if_splits)
  moreover have "tt_ok o' n" "tt_ok i' n" using fin(1,2) f by simp_all
  ultimately show ?thesis using pos by blast
qed

section \<open>Properties\<close>

text \<open>
  C21. For every permutation of the variables the loop of neighbour exchanges ends, no assertion fails,
  the array of positions is sorted, and the result, in the buffer asked for, gives to a minterm what
  the input gives to the minterm whose bit \<open>i\<close> is the bit at the position of variable \<open>i\<close>.
\<close>

theorem Kit_TruthPermute_ends:
  assumes "tt_ok pOut n" "tt_ok pIn n" "length p = n" "set p = {..<n}"
  shows "\<exists>o' i'. Kit_TruthPermute pOut pIn n p r = Some (Inr ((o', i'), [0..<n])) \<and>
    (\<exists>\<sigma>. (\<forall>i\<in>{..<n}. \<sigma> i = p ! i) \<and>
      (\<forall>m\<in>{..<tt_size n}. tt_bit (if r then i' else o') m = tt_bit pIn (permute_bits n \<sigma> m)))"
proof -
  obtain o' i' \<sigma> where "Kit_TruthPermute pOut pIn n p r = Some (Inr ((o', i'), [0..<n]))" "\<forall>i<n. \<sigma> i = p ! i"
    "\<forall>m<tt_size n. tt_bit (if r then i' else o') m = tt_bit pIn (permute_bits n \<sigma> m)"
    using Kit_TruthPermute_val [OF assms, of r] by blast
  then show ?thesis by (intro exI [of _ o'] exI [of _ i'] exI [of _ \<sigma>] conjI) simp_all
qed

theorem Kit_TruthPermute_ends_witness:
  "\<exists>o' i'. Kit_TruthPermute [0] [0xCA] 3 [2, 0, 1] False = Some (Inr ((o', i'), [0, 1, 2]))"
proof -
  have "set [2, 0, 1] = {..<3::nat}" by auto
  then show ?thesis
    using Kit_TruthPermute_ends [of "[0]" 3 "[0xCA]" "[2, 0, 1]" False]
    by (auto simp: tt_ok_def Kit_TruthWordNum_def upt_rec)
qed

end
