(* ===== verification/Kit_Cofs.thy ===== *)
theory Kit_Cofs
  imports Kit_Support
begin

text \<open>
  Counting the minterms of all cofactors at once (\<open>src/abc-master/src/bool/kit/kitTruth.c\<close>):
  \<open>Kit_TruthCountOnesInCofs\<close> and \<open>Kit_TruthCountOnesInCofs0\<close> go through the words once; for the
  variables inside a word they count pairs of words together. The counters are \<open>int\<close>s that stay
  below \<open>2 ^ nVars\<close>; the model has natural numbers.
\<close>

section \<open>Definitions\<close>

text \<open>\<open>pStore[i] += Counter\<close>\<close>

definition add_at :: "nat \<Rightarrow> nat \<Rightarrow> nat list \<Rightarrow> nat list" where
  "add_at i x st = st[i := st ! i + x]"

text \<open>The step of the first loop: the variables that select words.\<close>

definition cofs_word_step :: "words \<Rightarrow> nat \<Rightarrow> nat \<Rightarrow> nat list \<Rightarrow> nat list" where
  "cofs_word_step pTruth nVars k pStore =
     (let Counter = Kit_WordCountOnes (pTruth ! k)
      in fold (\<lambda>i pStore.
           if (k AND push_bit (i - 5) 1) \<noteq> 0 then add_at (2 * i + 1) Counter pStore
           else add_at (2 * i + 0) Counter pStore) [5..<nVars] pStore)"

text \<open>The step of the second loop: the variables inside a word, two words at a time.\<close>

definition cofs_pair_step :: "words \<Rightarrow> nat \<Rightarrow> nat list \<Rightarrow> nat list" where
  "cofs_pair_step pTruth k pStore =
      (let t0 = pTruth ! (2 * k); t1 = pTruth ! (2 * k + 1);
           pStore = add_at (2 * 0 + 0) (Kit_WordCountOnes ((t0 AND 0x55555555) OR push_bit 1 (t1 AND 0x55555555))) pStore;
           pStore = add_at (2 * 0 + 1) (Kit_WordCountOnes ((t0 AND 0xAAAAAAAA) OR drop_bit 1 (t1 AND 0xAAAAAAAA))) pStore;
           pStore = add_at (2 * 1 + 0) (Kit_WordCountOnes ((t0 AND 0x33333333) OR push_bit 2 (t1 AND 0x33333333))) pStore;
           pStore = add_at (2 * 1 + 1) (Kit_WordCountOnes ((t0 AND 0xCCCCCCCC) OR drop_bit 2 (t1 AND 0xCCCCCCCC))) pStore;
           pStore = add_at (2 * 2 + 0) (Kit_WordCountOnes ((t0 AND 0x0F0F0F0F) OR push_bit 4 (t1 AND 0x0F0F0F0F))) pStore;
           pStore = add_at (2 * 2 + 1) (Kit_WordCountOnes ((t0 AND 0xF0F0F0F0) OR drop_bit 4 (t1 AND 0xF0F0F0F0))) pStore;
           pStore = add_at (2 * 3 + 0) (Kit_WordCountOnes ((t0 AND 0x00FF00FF) OR push_bit 8 (t1 AND 0x00FF00FF))) pStore;
           pStore = add_at (2 * 3 + 1) (Kit_WordCountOnes ((t0 AND 0xFF00FF00) OR drop_bit 8 (t1 AND 0xFF00FF00))) pStore;
           pStore = add_at (2 * 4 + 0) (Kit_WordCountOnes ((t0 AND 0x0000FFFF) OR push_bit 16 (t1 AND 0x0000FFFF))) pStore
       in add_at (2 * 4 + 1) (Kit_WordCountOnes ((t0 AND 0xFFFF0000) OR drop_bit 16 (t1 AND 0xFFFF0000))) pStore)"

definition Kit_TruthCountOnesInCofs :: "words \<Rightarrow> nat \<Rightarrow> nat list \<Rightarrow> nat list" where
  "Kit_TruthCountOnesInCofs pTruth nVars pStore =
  (let nWords = Kit_TruthWordNum nVars;
       pStore = for_up (2 * nVars) (\<lambda>i pStore. pStore[i := 0]) pStore
   in if nVars \<le> 5 then
     let pStore = (if nVars > 0 then
           pStore[2 * 0 + 0 := Kit_WordCountOnes (pTruth ! 0 AND 0x55555555),
                  2 * 0 + 1 := Kit_WordCountOnes (pTruth ! 0 AND 0xAAAAAAAA)] else pStore);
         pStore = (if nVars > 1 then
           pStore[2 * 1 + 0 := Kit_WordCountOnes (pTruth ! 0 AND 0x33333333),
                  2 * 1 + 1 := Kit_WordCountOnes (pTruth ! 0 AND 0xCCCCCCCC)] else pStore);
         pStore = (if nVars > 2 then
           pStore[2 * 2 + 0 := Kit_WordCountOnes (pTruth ! 0 AND 0x0F0F0F0F),
                  2 * 2 + 1 := Kit_WordCountOnes (pTruth ! 0 AND 0xF0F0F0F0)] else pStore);
         pStore = (if nVars > 3 then
           pStore[2 * 3 + 0 := Kit_WordCountOnes (pTruth ! 0 AND 0x00FF00FF),
                  2 * 3 + 1 := Kit_WordCountOnes (pTruth ! 0 AND 0xFF00FF00)] else pStore)
     in if nVars > 4 then
           pStore[2 * 4 + 0 := Kit_WordCountOnes (pTruth ! 0 AND 0x0000FFFF),
                  2 * 4 + 1 := Kit_WordCountOnes (pTruth ! 0 AND 0xFFFF0000)] else pStore
   else
     let pStore = for_up nWords (cofs_word_step pTruth nVars) pStore
     in for_up (nWords div 2) (cofs_pair_step pTruth) pStore)"

section \<open>What is counted\<close>

text \<open>The minterms of the table in a cofactor: \<open>c\<close> is the value of variable \<open>i\<close>.\<close>

definition cof_count :: "words \<Rightarrow> nat \<Rightarrow> nat \<Rightarrow> bool \<Rightarrow> nat" where
  "cof_count p n i c = card {m. m < tt_size n \<and> bit m i = c \<and> tt_bit p m}"

text \<open>The masks of the two halves, and shifting a half onto the other.\<close>

definition half_mask :: "nat \<Rightarrow> bool \<Rightarrow> u32" where
  "half_mask i c = (if c then var_masks ! i else low_masks ! i)"

definition half_ones :: "nat \<Rightarrow> bool \<Rightarrow> u32 \<Rightarrow> nat" where
  "half_ones i c w = card {b. b < 32 \<and> bit b i = c \<and> bit w b}"

lemma ones_half: "i < 5 \<Longrightarrow> ones (w AND half_mask i c) = half_ones i c w"
  unfolding ones_def half_ones_def
  by (rule arg_cong [of _ _ card]) (auto simp: half_mask_def bit_and_iff low_masks_bit var_masks_bit)

lemma ones_shifted_low:
  assumes "i < 5"
  shows "ones (push_bit (2 ^ i) (w AND low_masks ! i)) = half_ones i False w"
proof -
  have "bij_betw (unset_bit i) {b. b < 32 \<and> bit b i \<and> bit w (unset_bit i b)} {b. b < 32 \<and> \<not> bit b i \<and> bit w b}"
    by (rule bij_betw_byWitness [where f' = "Bit_Operations.set_bit i"])
       (use assms in \<open>auto simp: bit_simps set_bit_id unset_bit_id set_bit_less_32 unset_bit_less_32\<close>)
  then show ?thesis
    using assms by (simp add: ones_def half_ones_def bit_push_low bij_betw_same_card cong: conj_cong del: push_bit_and)
qed

lemma ones_shifted_high:
  assumes "i < 5"
  shows "ones (drop_bit (2 ^ i) (w AND var_masks ! i)) = half_ones i True w"
proof -
  have "bij_betw (Bit_Operations.set_bit i) {b. b < 32 \<and> \<not> bit b i \<and> bit w (Bit_Operations.set_bit i b)} {b. b < 32 \<and> bit b i \<and> bit w b}"
    by (rule bij_betw_byWitness [where f' = "unset_bit i"])
       (use assms in \<open>auto simp: bit_simps set_bit_id unset_bit_id set_bit_less_32 unset_bit_less_32\<close>)
  then show ?thesis
    using assms by (simp add: ones_def half_ones_def bit_drop_high bij_betw_same_card cong: conj_cong del: drop_bit_and)
qed

text \<open>One count of two halves put into one word.\<close>

lemma count_two_halves:
  assumes "i < 5"
  shows "Kit_WordCountOnes ((x AND low_masks ! i) OR push_bit (2 ^ i) (y AND low_masks ! i)) = half_ones i False x + half_ones i False y"
    and "Kit_WordCountOnes ((x AND var_masks ! i) OR drop_bit (2 ^ i) (y AND var_masks ! i)) = half_ones i True x + half_ones i True y"
proof -
  have "(x AND low_masks ! i) AND push_bit (2 ^ i) (y AND low_masks ! i) = 0"
    using assms by (auto simp: u32_eq_iff bit_and_iff low_masks_bit bit_push_low simp del: push_bit_and)
  then show "Kit_WordCountOnes ((x AND low_masks ! i) OR push_bit (2 ^ i) (y AND low_masks ! i)) = half_ones i False x + half_ones i False y"
    using ones_half [OF assms, of x False] ones_shifted_low [OF assms, of y]
    by (simp add: Kit_WordCountOnes_ones ones_disjoint half_mask_def del: push_bit_and)
  have "(x AND var_masks ! i) AND drop_bit (2 ^ i) (y AND var_masks ! i) = 0"
    using assms by (auto simp: u32_eq_iff bit_and_iff var_masks_bit bit_drop_high simp del: drop_bit_and)
  then show "Kit_WordCountOnes ((x AND var_masks ! i) OR drop_bit (2 ^ i) (y AND var_masks ! i)) = half_ones i True x + half_ones i True y"
    using ones_half [OF assms, of x True] ones_shifted_high [OF assms, of y]
    by (simp add: Kit_WordCountOnes_ones ones_disjoint half_mask_def del: drop_bit_and)
qed

lemma cof_count_low: "i < 5 \<Longrightarrow> cof_count p n i c = (\<Sum>w<Kit_TruthWordNum n. half_ones i c (p ! w))"
  using card_div_mod_32 [of "Kit_TruthWordNum n" "\<lambda>w b. bit b i = c \<and> bit (p ! w) b"]
  by (simp add: cof_count_def half_ones_def tt_size_def tt_bit_def)

lemma cof_count_high:
  "5 \<le> i \<Longrightarrow> cof_count p n i c = (\<Sum>w<Kit_TruthWordNum n. if bit w (i - 5) = c then ones (p ! w) else 0)"
proof -
  assume i: "5 \<le> i"
  have "cof_count p n i c = (\<Sum>w<Kit_TruthWordNum n. card {b. b < 32 \<and> bit w (i - 5) = c \<and> bit (p ! w) b})"
    using card_div_mod_32 [of "Kit_TruthWordNum n" "\<lambda>w b. bit w (i - 5) = c \<and> bit (p ! w) b"] i
    by (simp add: cof_count_def tt_size_def tt_bit_def)
  also have "\<dots> = (\<Sum>w<Kit_TruthWordNum n. if bit w (i - 5) = c then ones (p ! w) else 0)"
    by (rule sum.cong) (auto simp: ones_def)
  finally show ?thesis .
qed

lemma sum_pairs: "(\<Sum>k<(n::nat). f (2 * k) + f (2 * k + 1)) = (\<Sum>w<2 * n. f w :: nat)"
  by (induction n) auto

section \<open>The loops\<close>

text \<open>A loop that adds to the entries of an array; \<open>h k j\<close> is what step \<open>k\<close> adds to entry \<open>j\<close>.\<close>

lemma for_up_accumulate:
  assumes "L \<le> length st"
    and body: "\<And>k q. k < n \<Longrightarrow> length q = length st \<Longrightarrow> length (body k q) = length st \<and>
      (\<forall>j<L. body k q ! j = q ! j + h k j)"
  shows "length (for_up n body st) = length st \<and> (\<forall>j<L. for_up n body st ! j = st ! j + (\<Sum>k<n. h k j :: nat))"
  using body
proof (induction n)
  case (Suc n)
  then have IH: "length (for_up n body st) = length st" "\<forall>j<L. for_up n body st ! j = st ! j + (\<Sum>k<n. h k j)" by auto
  have b: "length (body n (for_up n body st)) = length st \<and>
      (\<forall>j<L. body n (for_up n body st) ! j = for_up n body st ! j + h n j)"
    by (rule Suc.prems) (simp_all add: IH(1))
  then show ?case using IH(2) by simp
qed simp

lemma and_bit_nat: "((k :: nat) AND push_bit s 1) \<noteq> 0 \<longleftrightarrow> bit k s" "((k :: nat) AND push_bit s 1) = 0 \<longleftrightarrow> \<not> bit k s"
proof -
  have "bit (k AND push_bit s 1) i \<longleftrightarrow> i = s \<and> bit k s" for i
    by (auto simp: bit_simps)
  then show "((k :: nat) AND push_bit s 1) \<noteq> 0 \<longleftrightarrow> bit k s" "((k :: nat) AND push_bit s 1) = 0 \<longleftrightarrow> \<not> bit k s"
    by (metis bit_0_eq bot_apply bot_bool_def bit_eq_iff)+
qed

lemmas and_bit_nat_simps = and_bit_nat [simplified]

lemma length_add_at [simp]: "length (add_at i x st) = length st"
  by (simp add: add_at_def)

lemma add_at_nth: "i < length st \<Longrightarrow> add_at i x st ! j = st ! j + (if j = i then x else 0)"
  by (simp add: add_at_def)

lemma add_at_other [simp]: "j \<noteq> i \<Longrightarrow> add_at i x st ! j = st ! j"
  by (simp add: add_at_def)

lemma high_counters:
  fixes k :: nat
  assumes "2 * n \<le> length st"
  shows "length (fold (\<lambda>i st. if (k AND push_bit (i - 5) 1) \<noteq> 0 then add_at (2 * i + 1) c st
      else add_at (2 * i + 0) c st) [5..<n] st) = length st \<and>
    (\<forall>j<2 * n. fold (\<lambda>i st. if (k AND push_bit (i - 5) 1) \<noteq> 0 then add_at (2 * i + 1) c st
      else add_at (2 * i + 0) c st) [5..<n] st ! j =
      st ! j + (if 5 \<le> j div 2 \<and> bit k (j div 2 - 5) = odd j then c else (0 :: nat)))"
  using assms
proof (induction n)
  case (Suc n)
  let ?f = "\<lambda>i st. if (k AND push_bit (i - 5) 1) \<noteq> 0 then add_at (2 * i + 1) c st
      else add_at (2 * i + 0) c st"
  let ?q = "fold ?f [5..<n] st"
  have IH: "length ?q = length st" "\<forall>j<2 * n. ?q ! j = st ! j + (if 5 \<le> j div 2 \<and> bit k (j div 2 - 5) = odd j then c else 0)"
    using Suc by auto
  show ?case
  proof (cases "5 \<le> n")
    case False
    then show ?thesis by auto
  next
    case True
    have rest: "?q ! (2 * n) = st ! (2 * n)" "?q ! Suc (2 * n) = st ! Suc (2 * n)"
    proof -
      have "fold ?f [5..<m] st ! j = st ! j" if "2 * m \<le> j" for m j
        using that by (induction m) auto
      then show "?q ! (2 * n) = st ! (2 * n)" "?q ! Suc (2 * n) = st ! Suc (2 * n)" by simp_all
    qed
    have "?f n ?q ! j = st ! j + (if 5 \<le> j div 2 \<and> bit k (j div 2 - 5) = odd j then c else 0)" if "j < 2 * Suc n" for j
    proof -
      have "j < 2 * n \<or> j = 2 * n \<or> j = Suc (2 * n)" using \<open>j < 2 * Suc n\<close> by auto
      then consider "j < 2 * n" | "j = 2 * n" | "j = Suc (2 * n)" by blast
      then show ?thesis
        by cases (use IH rest True Suc.prems in \<open>auto simp: and_bit_nat_simps add_at_nth\<close>)
    qed
    moreover have "length (?f n ?q) = length st" using IH(1) by simp
    moreover have "fold ?f [5..<Suc n] st = ?f n ?q"
      using True by (simp only: upt_Suc_append fold_append fold_simps comp_def)
    ultimately show ?thesis by (simp only:) blast
  qed
qed simp

lemma cofs_word_step_nth:
  assumes "2 * n \<le> length st"
  shows "length (cofs_word_step p n k st) = length st \<and> (\<forall>j<2 * n. cofs_word_step p n k st ! j =
    st ! j + (if 5 \<le> j div 2 \<and> bit k (j div 2 - 5) = odd j then ones (p ! k) else 0))"
  unfolding cofs_word_step_def Let_def Kit_WordCountOnes_ones by (rule high_counters [OF assms])

lemma low_pair_counters:
  assumes "10 \<le> length st"
  shows "length (cofs_pair_step p k st) = length st \<and> (\<forall>j<length st. cofs_pair_step p k st ! j = st ! j +
      (if j < 10 then half_ones (j div 2) (odd j) (p ! (2 * k)) + half_ones (j div 2) (odd j) (p ! (2 * k + 1)) else 0))"
proof -
  note halves = count_two_halves [of 0] count_two_halves [of 1] count_two_halves [of 2] count_two_halves [of 3] count_two_halves [of 4]
  note counts = halves [unfolded low_masks_def var_masks_def, simplified]
  have cases: "j < 10 \<Longrightarrow> j = 0 \<or> j = 1 \<or> j = 2 \<or> j = 3 \<or> j = 4 \<or> j = 5 \<or> j = 6 \<or> j = 7 \<or> j = 8 \<or> j = (9::nat)" for j
    by auto
  have len: "st \<noteq> []" "Suc 0 < length st" "2 < length st" "3 < length st" "4 < length st" "5 < length st" "6 < length st"
    "7 < length st" "8 < length st" "9 < length st"
    using assms by auto
  have "cofs_pair_step p k st ! j = st ! j +
      (if j < 10 then half_ones (j div 2) (odd j) (p ! (2 * k)) + half_ones (j div 2) (odd j) (p ! (2 * k + 1)) else 0)" for j
  proof (cases "j < 10")
    case True
    from cases [OF True] show ?thesis
      unfolding cofs_pair_step_def Let_def
      by (elim disjE) (simp_all add: len add_at_nth counts counts [simplified])
  qed (simp add: cofs_pair_step_def Let_def)
  then show ?thesis by (simp add: cofs_pair_step_def Let_def)
qed

lemma count_half:
  "i < 5 \<Longrightarrow> Kit_WordCountOnes (x AND low_masks ! i) = half_ones i False x"
  "i < 5 \<Longrightarrow> Kit_WordCountOnes (x AND var_masks ! i) = half_ones i True x"
  using ones_half [of i x False] ones_half [of i x True] by (simp_all add: Kit_WordCountOnes_ones half_mask_def)

lemmas count_halves = count_half [of 0] count_half [of 1] count_half [of 2] count_half [of 3] count_half [of 4]

lemmas single_counts = count_halves [unfolded low_masks_def var_masks_def, simplified]

lemma store_pair_length:
  "length (if n > i then st[2 * i + 0 := a, 2 * i + 1 := b] else st) = length st"
  by simp

lemma store_pair:
  "2 * n \<le> length st \<Longrightarrow> (if n > i then st[2 * i + 0 := a, 2 * i + 1 := b] else st) ! j =
    (if n > i \<and> j div 2 = i then if odd j then b else a else st ! j)"
proof -
  assume st: "2 * n \<le> length st"
  consider "j = 2 * i" | "j = Suc (2 * i)" | "j div 2 \<noteq> i" "j \<noteq> 2 * i" "j \<noteq> Suc (2 * i)" by force
  then show ?thesis by cases (use st in auto)
qed

lemma pick_half: "(if c then half_ones i True w else half_ones i False w) = half_ones i c w"
  by simp

lemmas count_masks_half = count_halves [unfolded low_masks_def var_masks_def nth_Cons_0 nth_Cons_numeral, simplified]

lemma Kit_TruthCountOnesInCofs_small:
  assumes n: "n \<le> 5" and st: "2 * n \<le> length st"
  shows "length (Kit_TruthCountOnesInCofs p n st) = length st \<and>
    (\<forall>j<2 * n. Kit_TruthCountOnesInCofs p n st ! j = cof_count p n (j div 2) (odd j))"
proof -
  have half: "cof_count p n i c = half_ones i c (p ! 0)" if "i < 5" for i c
    using that n by (simp add: cof_count_low Kit_TruthWordNum_def)
  define z where "z = for_up (2 * n) (\<lambda>i st. st[i := 0]) st"
  have z: "length z = length st" by (simp add: z_def)
  have "Kit_TruthCountOnesInCofs p n st ! j = half_ones (j div 2) (odd j) (p ! 0)" if j: "j < 2 * n" for j
  proof -
    have "j div 2 < n" using j by simp
    moreover then have "j div 2 < 5" using n by simp
    then have "j div 2 = 0 \<or> j div 2 = 1 \<or> j div 2 = 2 \<or> j div 2 = 3 \<or> j div 2 = 4" by (rule less_5_cases)
    moreover have "Kit_TruthCountOnesInCofs p n st ! j =
      (if n > 4 \<and> j div 2 = 4 then half_ones 4 (odd j) (p ! 0) else if n > 3 \<and> j div 2 = 3 then half_ones 3 (odd j) (p ! 0)
       else if n > 2 \<and> j div 2 = 2 then half_ones 2 (odd j) (p ! 0) else if n > 1 \<and> j div 2 = 1 then half_ones 1 (odd j) (p ! 0)
       else if n > 0 \<and> j div 2 = 0 then half_ones 0 (odd j) (p ! 0) else z ! j)"
      unfolding Kit_TruthCountOnesInCofs_def Let_def z_def [symmetric]
      using st z n by (simp only: store_pair store_pair_length count_masks_half if_True) (simp only: pick_half One_nat_def)
    ultimately show ?thesis by auto
  qed
  moreover have "j div 2 < 5" if "j < 2 * n" for j using that n by simp
  moreover have "length (Kit_TruthCountOnesInCofs p n st) = length st"
    using n by (simp add: Kit_TruthCountOnesInCofs_def Let_def)
  ultimately show ?thesis by (simp add: half)
qed

lemma Kit_TruthCountOnesInCofs_large:
  assumes n: "5 < n" and st: "2 * n \<le> length st"
  shows "length (Kit_TruthCountOnesInCofs p n st) = length st \<and>
    (\<forall>j<2 * n. Kit_TruthCountOnesInCofs p n st ! j = cof_count p n (j div 2) (odd j))"
proof -
  let ?N = "Kit_TruthWordNum n"
  define z where "z = for_up (2 * n) (\<lambda>i st. st[i := 0]) st"
  have z: "length z = length st" "\<forall>j<2 * n. z ! j = 0" using st by (simp_all add: z_def)
  define y where "y = for_up ?N (cofs_word_step p n) z"
  have y: "length y = length z \<and> (\<forall>j<2 * n. y ! j = z ! j +
      (\<Sum>k<?N. if 5 \<le> j div 2 \<and> bit k (j div 2 - 5) = odd j then ones (p ! k) else 0))"
    unfolding y_def by (rule for_up_accumulate) (use z st cofs_word_step_nth in simp_all)
  define h where "h = (\<lambda>k j. if j < 10 then half_ones (j div 2) (odd j) (p ! (2 * k)) + half_ones (j div 2) (odd j) (p ! (2 * k + 1)) else 0)"
  let ?r = "for_up (?N div 2) (cofs_pair_step p) y"
  have r: "length ?r = length y \<and> (\<forall>j<2 * n. ?r ! j = y ! j + (\<Sum>k<?N div 2. h k j))"
    by (rule for_up_accumulate) (use y z st n low_pair_counters in \<open>simp_all add: h_def\<close>)
  have def: "Kit_TruthCountOnesInCofs p n st = ?r"
    using n by (simp add: Kit_TruthCountOnesInCofs_def Let_def y_def z_def)
  have even: "2 * (?N div 2) = ?N"
  proof -
    have "n - 5 = Suc (n - 6)" using n by simp
    then show ?thesis by (simp add: Kit_TruthWordNum_alt)
  qed
  have "?r ! j = cof_count p n (j div 2) (odd j)" if j: "j < 2 * n" for j
  proof (cases "j < 10")
    case True
    then have "\<not> 5 \<le> j div 2" by simp
    then have "?r ! j = (\<Sum>k<?N div 2. half_ones (j div 2) (odd j) (p ! (2 * k)) + half_ones (j div 2) (odd j) (p ! (2 * k + 1)))"
      using r y z j True by (simp add: h_def)
    also have "\<dots> = (\<Sum>w<2 * (?N div 2). half_ones (j div 2) (odd j) (p ! w))" by (rule sum_pairs)
    finally show ?thesis using True by (simp add: cof_count_low even)
  next
    case False
    then have "5 \<le> j div 2" by simp
    then show ?thesis using r y z j False by (simp add: h_def cof_count_high)
  qed
  then show ?thesis using r y z def by simp
qed

lemma Kit_TruthCountOnesInCofs_val:
  assumes "2 * n \<le> length st"
  shows "length (Kit_TruthCountOnesInCofs p n st) = length st \<and>
    (\<forall>j<2 * n. Kit_TruthCountOnesInCofs p n st ! j = cof_count p n (j div 2) (odd j))"
  using Kit_TruthCountOnesInCofs_small [of n st p] Kit_TruthCountOnesInCofs_large [of n st p] assms
  by (cases "n \<le> 5") simp_all

text \<open>The counts of the negative cofactors only.\<close>

definition cofs0_word_step :: "words \<Rightarrow> nat \<Rightarrow> nat \<Rightarrow> nat list \<Rightarrow> nat list" where
  "cofs0_word_step pTruth nVars k pStore =
     (let Counter = Kit_WordCountOnes (pTruth ! k)
      in fold (\<lambda>i pStore.
           if (k AND push_bit (i - 5) 1) = 0 then add_at i Counter pStore else pStore) [5..<nVars] pStore)"

definition cofs0_pair_step :: "words \<Rightarrow> nat \<Rightarrow> nat list \<Rightarrow> nat list" where
  "cofs0_pair_step pTruth k pStore =
      (let t0 = pTruth ! (2 * k); t1 = pTruth ! (2 * k + 1);
           pStore = add_at (0) (Kit_WordCountOnes ((t0 AND 0x55555555) OR push_bit 1 (t1 AND 0x55555555))) pStore;
           pStore = add_at (1) (Kit_WordCountOnes ((t0 AND 0x33333333) OR push_bit 2 (t1 AND 0x33333333))) pStore;
           pStore = add_at (2) (Kit_WordCountOnes ((t0 AND 0x0F0F0F0F) OR push_bit 4 (t1 AND 0x0F0F0F0F))) pStore;
           pStore = add_at (3) (Kit_WordCountOnes ((t0 AND 0x00FF00FF) OR push_bit 8 (t1 AND 0x00FF00FF))) pStore
       in add_at (4) (Kit_WordCountOnes ((t0 AND 0x0000FFFF) OR push_bit 16 (t1 AND 0x0000FFFF))) pStore)"

definition Kit_TruthCountOnesInCofs0 :: "words \<Rightarrow> nat \<Rightarrow> nat list \<Rightarrow> nat list" where
  "Kit_TruthCountOnesInCofs0 pTruth nVars pStore =
  (let nWords = Kit_TruthWordNum nVars;
       pStore = for_up nVars (\<lambda>i pStore. pStore[i := 0]) pStore
   in if nVars \<le> 5 then
     let pStore = (if nVars > 0 then pStore[0 := Kit_WordCountOnes (pTruth ! 0 AND 0x55555555)] else pStore);
         pStore = (if nVars > 1 then pStore[1 := Kit_WordCountOnes (pTruth ! 0 AND 0x33333333)] else pStore);
         pStore = (if nVars > 2 then pStore[2 := Kit_WordCountOnes (pTruth ! 0 AND 0x0F0F0F0F)] else pStore);
         pStore = (if nVars > 3 then pStore[3 := Kit_WordCountOnes (pTruth ! 0 AND 0x00FF00FF)] else pStore)
     in if nVars > 4 then pStore[4 := Kit_WordCountOnes (pTruth ! 0 AND 0x0000FFFF)] else pStore
   else
     let pStore = for_up nWords (cofs0_word_step pTruth nVars) pStore
     in for_up (nWords div 2) (cofs0_pair_step pTruth) pStore)"

lemma cofs0_word_step_nth:
  assumes "n \<le> length st"
  shows "length (cofs0_word_step p n k st) = length st \<and> (\<forall>j<n. cofs0_word_step p n k st ! j =
    st ! j + (if 5 \<le> j \<and> \<not> bit k (j - 5) then ones (p ! k) else 0))"
  using assms
proof (induction n)
  case (Suc n)
  let ?q = "cofs0_word_step p n k st"
  have IH: "length ?q = length st" "\<forall>j<n. ?q ! j = st ! j + (if 5 \<le> j \<and> \<not> bit k (j - 5) then ones (p ! k) else 0)"
    using Suc by auto
  have rest: "?q ! n = st ! n"
  proof -
    have "fold (\<lambda>i st. if (k AND push_bit (i - 5) 1) = 0 then add_at i c st else st) [5..<m] st ! j = st ! j" if "m \<le> j" for m j c
      using that by (induction m) auto
    then show ?thesis by (simp add: cofs0_word_step_def Let_def)
  qed
  show ?case
  proof (cases "5 \<le> n")
    case False
    then show ?thesis using IH rest by (auto simp: cofs0_word_step_def less_Suc_eq)
  next
    case True
    then have "cofs0_word_step p (Suc n) k st = (if bit k (n - 5) then ?q else add_at n (ones (p ! k)) ?q)"
      by (simp add: cofs0_word_step_def Let_def Kit_WordCountOnes_ones and_bit_nat_simps)
    then show ?thesis using IH rest True Suc.prems by (auto simp: add_at_nth less_Suc_eq)
  qed
qed (simp add: cofs0_word_step_def Let_def)

lemma cofs0_pair_step_nth:
  assumes "5 \<le> length st"
  shows "length (cofs0_pair_step p k st) = length st \<and> (\<forall>j<length st. cofs0_pair_step p k st ! j = st ! j +
      (if j < 5 then half_ones j False (p ! (2 * k)) + half_ones j False (p ! (2 * k + 1)) else 0))"
proof -
  note halves = count_two_halves [of 0] count_two_halves [of 1] count_two_halves [of 2] count_two_halves [of 3] count_two_halves [of 4]
  note counts = halves [unfolded low_masks_def var_masks_def, simplified]
  have ne: "st \<noteq> []" "Suc 0 < length st" "2 < length st" "3 < length st" "4 < length st" using assms by auto
  have "cofs0_pair_step p k st ! j = st ! j +
      (if j < 5 then half_ones j False (p ! (2 * k)) + half_ones j False (p ! (2 * k + 1)) else 0)" for j
  proof (cases "j < 5")
    case True
    from less_5_cases [OF this] show ?thesis
      by (elim disjE) (simp_all add: cofs0_pair_step_def Let_def ne add_at_nth counts counts [simplified])
  qed (simp add: cofs0_pair_step_def Let_def)
  then show ?thesis by (simp add: cofs0_pair_step_def Let_def)
qed

lemma store_one_length: "length (if n > i then st[i := a] else st) = length st"
  by simp

lemma store_one: "n \<le> length st \<Longrightarrow> (if n > i then st[i := a] else st) ! j = (if n > i \<and> j = i then a else st ! j)"
  by simp

lemma Kit_TruthCountOnesInCofs0_val:
  assumes st: "n \<le> length st"
  shows "length (Kit_TruthCountOnesInCofs0 p n st) = length st \<and>
    (\<forall>j<n. Kit_TruthCountOnesInCofs0 p n st ! j = cof_count p n j False)"
proof (cases "n \<le> 5")
  case True
  have half: "cof_count p n i c = half_ones i c (p ! 0)" if "i < n" for i c
    using that True by (simp add: cof_count_low Kit_TruthWordNum_def)
  define z where "z = for_up n (\<lambda>i st. st[i := 0]) st"
  have z: "length z = length st" by (simp add: z_def)
  have "Kit_TruthCountOnesInCofs0 p n st ! j = half_ones j False (p ! 0)" if j: "j < n" for j
  proof -
    have "j < 5" using j True by simp
    moreover have "st \<noteq> []" using st j by auto
    ultimately show ?thesis
      unfolding Kit_TruthCountOnesInCofs0_def Let_def z_def [symmetric]
      using less_5_cases [OF \<open>j < 5\<close>] j st z True by (elim disjE) (simp_all only: store_one store_one_length single_counts, simp_all)
  qed
  then show ?thesis using True by (simp add: half Kit_TruthCountOnesInCofs0_def Let_def)
next
  case False
  let ?N = "Kit_TruthWordNum n"
  define z where "z = for_up n (\<lambda>i st. st[i := 0]) st"
  have z: "length z = length st" "\<forall>j<n. z ! j = 0" using st by (simp_all add: z_def)
  define y where "y = for_up ?N (cofs0_word_step p n) z"
  have y: "length y = length z \<and> (\<forall>j<n. y ! j = z ! j + (\<Sum>k<?N. if 5 \<le> j \<and> \<not> bit k (j - 5) then ones (p ! k) else 0))"
    unfolding y_def by (rule for_up_accumulate) (use z st cofs0_word_step_nth in simp_all)
  define h where "h = (\<lambda>k j. if j < 5 then half_ones j False (p ! (2 * k)) + half_ones j False (p ! (2 * k + 1)) else 0)"
  let ?r = "for_up (?N div 2) (cofs0_pair_step p) y"
  have r: "length ?r = length y \<and> (\<forall>j<n. ?r ! j = y ! j + (\<Sum>k<?N div 2. h k j))"
    by (rule for_up_accumulate) (use y z st False cofs0_pair_step_nth in \<open>simp_all add: h_def\<close>)
  have def: "Kit_TruthCountOnesInCofs0 p n st = ?r"
    using False by (simp add: Kit_TruthCountOnesInCofs0_def Let_def y_def z_def)
  have even: "2 * (?N div 2) = ?N"
  proof -
    have "n - 5 = Suc (n - 6)" using False by simp
    then show ?thesis by (simp add: Kit_TruthWordNum_alt)
  qed
  have "?r ! j = cof_count p n j False" if j: "j < n" for j
  proof (cases "j < 5")
    case True
    then have "?r ! j = (\<Sum>k<?N div 2. half_ones j False (p ! (2 * k)) + half_ones j False (p ! (2 * k + 1)))"
      using r y z j by (simp add: h_def)
    also have "\<dots> = (\<Sum>w<2 * (?N div 2). half_ones j False (p ! w))" by (rule sum_pairs)
    finally show ?thesis using True by (simp add: cof_count_low even)
  next
    case False
    then show ?thesis using r y z j by (simp add: h_def cof_count_high)
  qed
  then show ?thesis using r y z def by simp
qed

section \<open>Properties\<close>

text \<open>
  C25. The counts of all cofactors at once are the counts that the slow version obtains by computing
  each cofactor, and the version for the negative cofactors agrees with both.
\<close>

theorem Kit_TruthCountOnesInCofs_equals_slow:
  assumes "2 * n \<le> length st" "n \<le> length st0" "tt_ok aux n" "length st1 = 2 * n" "i < n"
  shows "Kit_TruthCountOnesInCofs p n st ! (2 * i) = fst (Kit_TruthCountOnesInCofsSlow p n st1 aux) ! (2 * i) \<and>
    Kit_TruthCountOnesInCofs p n st ! (2 * i + 1) = fst (Kit_TruthCountOnesInCofsSlow p n st1 aux) ! (2 * i + 1) \<and>
    Kit_TruthCountOnesInCofs0 p n st0 ! i = Kit_TruthCountOnesInCofs p n st ! (2 * i)"
proof -
  obtain st' aux' where slow: "Kit_TruthCountOnesInCofsSlow p n st1 aux = (st', aux')" by force
  note s = Kit_TruthCountOnesInCofsSlow_card [OF assms(3,4) slow assms(5)]
  have "2 * i < 2 * n" "Suc (2 * i) < 2 * n" using assms(5) by simp_all
  then show ?thesis
    using s slow Kit_TruthCountOnesInCofs_val [OF assms(1), of p] Kit_TruthCountOnesInCofs0_val [OF assms(2), of p] assms(5)
    by (simp add: cof_count_def)
qed

theorem Kit_TruthCountOnesInCofs_witness:
  "Kit_TruthCountOnesInCofs0 [0x88888888, 0x6] 6 [9, 9, 9, 9, 9, 9] ! 5 =
   Kit_TruthCountOnesInCofs [0x88888888, 0x6] 6 (replicate 12 7) ! 10"
  using Kit_TruthCountOnesInCofs_equals_slow [of 6 "replicate 12 7" "[9, 9, 9, 9, 9, 9]" "[0, 0]" "replicate 12 0" 5 "[0x88888888, 0x6]"]
  by (simp add: tt_ok_def Kit_TruthWordNum_def)

end
