(* ===== verification/Kit_Minterms.thy ===== *)
theory Kit_Minterms
  imports Kit_Cofs
begin

text \<open>
  The byte-wise count of the minterms of all negative cofactors and the hash function of tables
  (\<open>Kit_TruthCountMinterms\<close> and \<open>Kit_TruthHash\<close> in \<open>src/abc-master/src/bool/kit/kitTruth.c\<close>).

  The count reads the table as bytes; the model has the byte order of a little-endian machine. The
  array of results needs at least five entries, as the code writes that many for every table.
\<close>

section \<open>Counting by bytes\<close>

definition Table :: "u32 list" where
  "Table = [
   0x00000000, 0x01010101, 0x01010001, 0x02020102, 0x01000101, 0x02010202, 0x02010102, 0x03020203,
   0x01000001, 0x02010102, 0x02010002, 0x03020103, 0x02000102, 0x03010203, 0x03010103, 0x04020204,
   0x00010101, 0x01020202, 0x01020102, 0x02030203, 0x01010202, 0x02020303, 0x02020203, 0x03030304,
   0x01010102, 0x02020203, 0x02020103, 0x03030204, 0x02010203, 0x03020304, 0x03020204, 0x04030305,
   0x00010001, 0x01020102, 0x01020002, 0x02030103, 0x01010102, 0x02020203, 0x02020103, 0x03030204,
   0x01010002, 0x02020103, 0x02020003, 0x03030104, 0x02010103, 0x03020204, 0x03020104, 0x04030205,
   0x00020102, 0x01030203, 0x01030103, 0x02040204, 0x01020203, 0x02030304, 0x02030204, 0x03040305,
   0x01020103, 0x02030204, 0x02030104, 0x03040205, 0x02020204, 0x03030305, 0x03030205, 0x04040306,
   0x00000101, 0x01010202, 0x01010102, 0x02020203, 0x01000202, 0x02010303, 0x02010203, 0x03020304,
   0x01000102, 0x02010203, 0x02010103, 0x03020204, 0x02000203, 0x03010304, 0x03010204, 0x04020305,
   0x00010202, 0x01020303, 0x01020203, 0x02030304, 0x01010303, 0x02020404, 0x02020304, 0x03030405,
   0x01010203, 0x02020304, 0x02020204, 0x03030305, 0x02010304, 0x03020405, 0x03020305, 0x04030406,
   0x00010102, 0x01020203, 0x01020103, 0x02030204, 0x01010203, 0x02020304, 0x02020204, 0x03030305,
   0x01010103, 0x02020204, 0x02020104, 0x03030205, 0x02010204, 0x03020305, 0x03020205, 0x04030306,
   0x00020203, 0x01030304, 0x01030204, 0x02040305, 0x01020304, 0x02030405, 0x02030305, 0x03040406,
   0x01020204, 0x02030305, 0x02030205, 0x03040306, 0x02020305, 0x03030406, 0x03030306, 0x04040407,
   0x00000001, 0x01010102, 0x01010002, 0x02020103, 0x01000102, 0x02010203, 0x02010103, 0x03020204,
   0x01000002, 0x02010103, 0x02010003, 0x03020104, 0x02000103, 0x03010204, 0x03010104, 0x04020205,
   0x00010102, 0x01020203, 0x01020103, 0x02030204, 0x01010203, 0x02020304, 0x02020204, 0x03030305,
   0x01010103, 0x02020204, 0x02020104, 0x03030205, 0x02010204, 0x03020305, 0x03020205, 0x04030306,
   0x00010002, 0x01020103, 0x01020003, 0x02030104, 0x01010103, 0x02020204, 0x02020104, 0x03030205,
   0x01010003, 0x02020104, 0x02020004, 0x03030105, 0x02010104, 0x03020205, 0x03020105, 0x04030206,
   0x00020103, 0x01030204, 0x01030104, 0x02040205, 0x01020204, 0x02030305, 0x02030205, 0x03040306,
   0x01020104, 0x02030205, 0x02030105, 0x03040206, 0x02020205, 0x03030306, 0x03030206, 0x04040307,
   0x00000102, 0x01010203, 0x01010103, 0x02020204, 0x01000203, 0x02010304, 0x02010204, 0x03020305,
   0x01000103, 0x02010204, 0x02010104, 0x03020205, 0x02000204, 0x03010305, 0x03010205, 0x04020306,
   0x00010203, 0x01020304, 0x01020204, 0x02030305, 0x01010304, 0x02020405, 0x02020305, 0x03030406,
   0x01010204, 0x02020305, 0x02020205, 0x03030306, 0x02010305, 0x03020406, 0x03020306, 0x04030407,
   0x00010103, 0x01020204, 0x01020104, 0x02030205, 0x01010204, 0x02020305, 0x02020205, 0x03030306,
   0x01010104, 0x02020205, 0x02020105, 0x03030206, 0x02010205, 0x03020306, 0x03020206, 0x04030307,
   0x00020204, 0x01030305, 0x01030205, 0x02040306, 0x01020305, 0x02030406, 0x02030306, 0x03040407,
   0x01020205, 0x02030306, 0x02030206, 0x03040307, 0x02020306, 0x03030407, 0x03030307, 0x04040408]"

definition truth_byte :: "words \<Rightarrow> nat \<Rightarrow> nat" where
  "truth_byte pTruth t = unat (take_bit 8 (drop_bit (8 * (t mod 4)) (pTruth ! (t div 4))))"

definition minterm_step :: "words \<Rightarrow> nat \<Rightarrow> nat \<times> u32 \<times> nat list \<times> nat list \<Rightarrow> nat \<times> u32 \<times> nat list \<times> nat list" where
  "minterm_step pTruth t = (\<lambda>(nTotal, uSum, pRes, pBytes).
     let uSum = uSum + Table ! truth_byte pTruth t;
         pBytes = pBytes[t := unat (Table ! truth_byte pTruth t AND 0xff)]
     in if (uSum AND 0xff) > 246 then
          let nTotal = nTotal + unat (uSum AND 0xff);
              pRes = pRes[0 := pRes ! 0 + unat (drop_bit 8 uSum AND 0xff)];
              pRes = pRes[2 := pRes ! 2 + unat (drop_bit 16 uSum AND 0xff)];
              pRes = pRes[3 := pRes ! 3 + unat (drop_bit 24 uSum AND 0xff)]
          in (nTotal, 0, pRes, pBytes)
        else (nTotal, uSum, pRes, pBytes))"

text \<open>The loop over the variables from 3 on; \<open>Step\<close> is \<open>2 ^ s\<close> and \<open>iVar\<close> is \<open>s + 3\<close>.\<close>

function count_others :: "nat \<Rightarrow> nat \<Rightarrow> nat list \<times> nat list \<Rightarrow> nat \<times> nat list \<times> nat list" where
  "count_others nBytes s (pRes, pBytes) =
    (let iVar = s + 3; Step = 2 ^ s in
     if Step < nBytes then
       count_others nBytes (Suc s)
         (for_step nBytes (Step + Step) (\<lambda>i (pRes, pBytes).
            (pRes[iVar := pRes ! iVar + pBytes ! i], pBytes[i := pBytes ! i + pBytes ! (i + Step)])) (pRes, pBytes))
     else (iVar, pRes, pBytes))"
  by pat_completeness auto
termination
  by (relation "measure (\<lambda>(nBytes, s, _). nBytes - 2 ^ s)") (auto intro: diff_less_mono2)

declare count_others.simps [simp del]

definition Kit_TruthCountMinterms :: "words \<Rightarrow> nat \<Rightarrow> nat list \<Rightarrow> nat list \<Rightarrow> (nat \<times> nat list \<times> nat list) res" where
  "Kit_TruthCountMinterms pTruth nVars pRes pBytesInit =
    (if \<not> nVars \<le> 20 then Inl AssertFailed else
     let pRes = for_up nVars (\<lambda>i pRes. pRes[i := 0]) pRes;
         nWords = Kit_TruthWordNum nVars;
         nBytes = nWords * 4;
         (nTotal, uSum, pRes, pBytes) = for_up nBytes (minterm_step pTruth) (0, 0, pRes, pBytesInit);
         (nTotal, pRes) = (if uSum \<noteq> 0 then
             let nTotal = nTotal + unat (uSum AND 0xff);
                 pRes = pRes[0 := pRes ! 0 + unat (drop_bit 8 uSum AND 0xff)];
                 pRes = pRes[1 := pRes ! 1 + unat (drop_bit 16 uSum AND 0xff)];
                 pRes = pRes[2 := pRes ! 2 + unat (drop_bit 24 uSum AND 0xff)]
             in (nTotal, pRes)
           else (nTotal, pRes));
         (iVar, pRes, pBytes) = count_others nBytes 0 (pRes, pBytes)
     in if \<not> pBytes ! 0 = nTotal then Inl AssertFailed
        else if \<not> iVar = nVars then Inl AssertFailed
        else if \<not> list_all (\<lambda>i. pRes ! i = Kit_TruthCofactor0Count pTruth nVars i) [0..<nVars] then Inl AssertFailed
        else Inr (nTotal, pRes, pBytes))"

section \<open>Correctness of the count\<close>

text \<open>Every entry of the table is the count of its index and of its three negative cofactors.\<close>

definition table_entry :: "int \<Rightarrow> int" where
  "table_entry b = int (length (filter (\<lambda>i. bit b i) [0..<8]))
    + 256 * int (length (filter (\<lambda>i. bit b i \<and> \<not> bit (int i) 0) [0..<8]))
    + 65536 * int (length (filter (\<lambda>i. bit b i \<and> \<not> bit (int i) 1) [0..<8]))
    + 16777216 * int (length (filter (\<lambda>i. bit b i \<and> \<not> bit (int i) 2) [0..<8]))"

lemma map_Table: "map uint Table = map table_entry [0..255]"
  by code_simp

lemma filter_count: "length (filter P [0..<n]) = card {i. i < n \<and> P i}"
  by (auto simp: length_filter_conv_card intro!: arg_cong [where f = card])

lemma bit_int_of_nat: "bit (int i) v = bit i v"
  by (simp add: bit_of_nat_iff possible_bit_def)

lemma unat_Table:
  assumes "b < 256"
  shows "unat (Table ! b) = card {i. i < 8 \<and> bit b i} + 256 * card {i. i < 8 \<and> bit b i \<and> \<not> bit i 0}
    + 65536 * card {i. i < 8 \<and> bit b i \<and> \<not> bit i 1} + 16777216 * card {i. i < 8 \<and> bit b i \<and> \<not> bit i 2}"
proof -
  have "uint (Table ! b) = table_entry (int b)"
  proof -
    have len: "length Table = 256" by (simp add: Table_def)
    have "map uint Table ! b = map table_entry [0..255] ! b" by (simp only: map_Table)
    then show ?thesis using assms by (simp add: len)
  qed
  then have "int (unat (Table ! b)) = table_entry (int b)" by simp
  then show ?thesis
    unfolding table_entry_def bit_int_of_nat filter_count by linarith
qed

lemma byte_fields:
  "unat (u AND 0xff :: u32) = unat u mod 256"
  "unat (drop_bit 8 u AND 0xff :: u32) = unat u div 256 mod 256"
  "unat (drop_bit 16 u AND 0xff :: u32) = unat u div 65536 mod 256"
  "unat (drop_bit 24 u AND 0xff :: u32) = unat u div 16777216 mod 256"
proof -
  have mask: "unat (w AND 0xff) = unat w mod 256" for w :: u32
  proof -
    have "w AND 0xff = take_bit 8 w" by (simp add: take_bit_eq_mask mask_eq_exp_minus_1)
    then have "unat (w AND 0xff) = take_bit 8 (unat w)" by (simp only: unsigned_take_bit_eq)
    then show ?thesis by (simp add: take_bit_eq_mod)
  qed
  have word: "take_bit 32 (unat u) = unat u"
    using unsigned_less [of u] by (intro take_bit_nat_eq_self) simp
  show "unat (u AND 0xff :: u32) = unat u mod 256"
  "unat (drop_bit 8 u AND 0xff :: u32) = unat u div 256 mod 256"
  "unat (drop_bit 16 u AND 0xff :: u32) = unat u div 65536 mod 256"
  "unat (drop_bit 24 u AND 0xff :: u32) = unat u div 16777216 mod 256"
    unfolding mask unsigned_drop_bit_eq by (simp_all add: drop_bit_eq_div word)
qed

lemma truth_byte_less: "truth_byte p t < 256"
  using take_bit_nat_less_exp [of 8] by (simp add: truth_byte_def unsigned_take_bit_eq)

lemma bit_truth_byte: "bit (truth_byte p t) i \<longleftrightarrow> i < 8 \<and> tt_bit p (8 * t + i)"
proof (cases "i < 8")
  case True
  have t: "8 * t + i = 32 * (t div 4) + (8 * (t mod 4) + i)" by presburger
  have less: "8 * (t mod 4) + i < 32" using True by presburger
  then have "(8 * t + i) div 32 = t div 4" "(8 * t + i) mod 32 = 8 * (t mod 4) + i"
    by (simp_all add: t)
  with True less show ?thesis
    by (simp add: truth_byte_def unsigned_take_bit_eq unsigned_drop_bit_eq bit_take_bit_iff bit_drop_bit_eq
        tt_bit_def bit_unsigned_iff)
qed (simp add: truth_byte_def unsigned_take_bit_eq bit_take_bit_iff)

text \<open>The minterms below a byte, and what one byte adds to them.\<close>

definition upto_byte :: "(nat \<Rightarrow> bool) \<Rightarrow> nat \<Rightarrow> nat" where
  "upto_byte P t = card {m. m < 8 * t \<and> P m}"

lemma upto_byte_0 [simp]: "upto_byte P 0 = 0"
  by (simp add: upto_byte_def)

lemma upto_byte_Suc: "upto_byte P (Suc t) = upto_byte P t + card {i. i < 8 \<and> P (8 * t + i)}"
proof -
  have "{m. m < 8 * Suc t \<and> P m} = {m. m < 8 * t \<and> P m} \<union> (\<lambda>i. 8 * t + i) ` {i. i < 8 \<and> P (8 * t + i)}"
    (is "?A = ?B \<union> ?C")
  proof (rule set_eqI)
    fix m
    show "m \<in> ?A \<longleftrightarrow> m \<in> ?B \<union> ?C"
    proof (cases "m < 8 * t")
      case False
      then obtain b where "m = 8 * t + b" using le_Suc_ex not_less by blast
      then show ?thesis by auto
    qed auto
  qed
  moreover have "card ?C = card {i. i < 8 \<and> P (8 * t + i)}" by (simp add: card_image)
  moreover have "?B \<inter> ?C = {}" by auto
  ultimately show ?thesis by (simp add: upto_byte_def card_Un_disjoint)
qed

lemma upto_byte_mono: "s \<le> t \<Longrightarrow> upto_byte P s \<le> upto_byte P t"
  by (auto simp: upto_byte_def intro!: card_mono)

lemma upto_byte_impl: "(\<And>m. P m \<Longrightarrow> Q m) \<Longrightarrow> upto_byte P t \<le> upto_byte Q t"
  by (auto simp: upto_byte_def intro!: card_mono)

definition cof0 :: "words \<Rightarrow> nat \<Rightarrow> nat \<Rightarrow> bool" where
  "cof0 p v m \<longleftrightarrow> tt_bit p m \<and> \<not> bit m v"

lemma bit_byte_index: "i < 8 \<Longrightarrow> v < 3 \<Longrightarrow> bit (8 * t + i :: nat) v = bit i v"
proof -
  assume "i < 8" "v < 3"
  have "take_bit 3 (8 * t + i) = take_bit 3 i"
    by (simp add: take_bit_eq_mod)
  with \<open>v < 3\<close> show ?thesis by (metis bit_take_bit_iff)
qed

lemma Table_byte:
  "unat (Table ! truth_byte p t) = card {i. i < 8 \<and> tt_bit p (8 * t + i)}
    + 256 * card {i. i < 8 \<and> cof0 p 0 (8 * t + i)} + 65536 * card {i. i < 8 \<and> cof0 p 1 (8 * t + i)}
    + 16777216 * card {i. i < 8 \<and> cof0 p 2 (8 * t + i)}"
proof -
  have "{i. i < 8 \<and> bit (truth_byte p t) i} = {i. i < 8 \<and> tt_bit p (8 * t + i)}"
    by (auto simp: bit_truth_byte)
  moreover have "{i. i < 8 \<and> bit (truth_byte p t) i \<and> \<not> bit i v} = {i. i < 8 \<and> cof0 p v (8 * t + i)}" if "v < 3" for v
    using that by (auto simp: bit_truth_byte cof0_def bit_byte_index)
  ultimately show ?thesis
    using unat_Table [OF truth_byte_less] by simp
qed


text \<open>
  The pass over the bytes: as long as there are at most 246 minterms the sums of the four fields stay
  in the word, none of them carries into the next, and nothing is flushed.
\<close>

definition field_sum :: "words \<Rightarrow> nat \<Rightarrow> nat" where
  "field_sum p t = upto_byte (tt_bit p) t + 256 * upto_byte (cof0 p 0) t + 65536 * upto_byte (cof0 p 1) t
    + 16777216 * upto_byte (cof0 p 2) t"

lemma cof0_le: "upto_byte (cof0 p v) t \<le> upto_byte (tt_bit p) t"
  by (rule upto_byte_impl) (simp add: cof0_def)

lemma low_field: "a < 256 \<Longrightarrow> (a + 256 * y) mod 256 = a" "a < 256 \<Longrightarrow> (a + 256 * y) div 256 = y" for a y :: nat
  by simp_all

lemma four_fields:
  fixes a b c d :: nat
  assumes "a < 256" "b < 256" "c < 256" "d < 256"
  defines "x \<equiv> a + 256 * b + 65536 * c + 16777216 * d"
  shows "x < 2 ^ 32" "x mod 256 = a" "x div 256 mod 256 = b" "x div 65536 mod 256 = c" "x div 16777216 mod 256 = d"
proof -
  have x: "x = a + 256 * (b + 256 * (c + 256 * d))" by (simp add: x_def)
  have d1: "x div 256 = b + 256 * (c + 256 * d)" unfolding x by (rule low_field) fact
  have d2: "x div 65536 = c + 256 * d"
    using div_mult2_eq [of x 256 256] low_field(2) [OF assms(2)] by (simp add: d1)
  have d3: "x div 16777216 = d"
    using div_mult2_eq [of x 65536 256] low_field(2) [OF assms(3)] by (simp add: d2)
  show "x < 2 ^ 32" using assms(1-4) by (simp add: x_def)
  show "x mod 256 = a" unfolding x by (rule low_field) fact
  show "x div 256 mod 256 = b" unfolding d1 by (rule low_field) fact
  show "x div 65536 mod 256 = c" unfolding d2 by (rule low_field) fact
  show "x div 16777216 mod 256 = d" using assms(4) by (simp add: d3)
qed

lemma field_sum_bound:
  assumes "upto_byte (tt_bit p) t \<le> 246"
  shows "field_sum p t < 2 ^ 32" "field_sum p t mod 256 = upto_byte (tt_bit p) t"
    "field_sum p t div 256 mod 256 = upto_byte (cof0 p 0) t"
    "field_sum p t div 65536 mod 256 = upto_byte (cof0 p 1) t"
    "field_sum p t div 16777216 mod 256 = upto_byte (cof0 p 2) t"
proof -
  have small: "upto_byte (tt_bit p) t < 256" "upto_byte (cof0 p v) t < 256" for v
    using assms cof0_le [of p v t] by simp_all
  note four_fields [OF small(1) small(2) [of 0] small(2) [of 1] small(2) [of 2], folded field_sum_def]
  then show "field_sum p t < 2 ^ 32" "field_sum p t mod 256 = upto_byte (tt_bit p) t"
    "field_sum p t div 256 mod 256 = upto_byte (cof0 p 0) t"
    "field_sum p t div 65536 mod 256 = upto_byte (cof0 p 1) t"
    "field_sum p t div 16777216 mod 256 = upto_byte (cof0 p 2) t"
    by blast+
qed

lemma field_sum_Suc: "field_sum p (Suc t) = field_sum p t + unat (Table ! truth_byte p t)"
  by (simp add: field_sum_def upto_byte_Suc Table_byte algebra_simps)

definition byte_ones :: "words \<Rightarrow> nat \<Rightarrow> nat" where
  "byte_ones p t = card {i. i < 8 \<and> tt_bit p (8 * t + i)}"

lemma Table_low: "unat (Table ! truth_byte p t AND 0xff) = byte_ones p t"
proof -
  have small: "card {i. i < 8 \<and> Q i} < 256" for Q :: "nat \<Rightarrow> bool"
    using card_mono [of "{..<8}" "{i. i < 8 \<and> Q i}"] by (simp add: subset_eq)
  show ?thesis
    unfolding byte_fields Table_byte byte_ones_def using small by (intro four_fields(2))
qed

lemma minterm_loop:
  assumes "upto_byte (tt_bit p) n \<le> 246" "n \<le> length bs"
  shows "\<exists>u bs'. for_up n (minterm_step p) (0, 0, r, bs) = (0, u, r, bs') \<and> unat u = field_sum p n \<and>
    length bs' = length bs \<and> (\<forall>t<n. bs' ! t = byte_ones p t)"
  using assms
proof (induction n)
  case (Suc n)
  have le: "upto_byte (tt_bit p) n \<le> 246" using Suc.prems(1) upto_byte_mono [of n "Suc n" "tt_bit p"] by simp
  with Suc obtain u bs' where IH: "for_up n (minterm_step p) (0, 0, r, bs) = (0, u, r, bs')" "unat u = field_sum p n"
    "length bs' = length bs" "\<forall>t<n. bs' ! t = byte_ones p t" by auto
  let ?u = "u + Table ! truth_byte p n"
  have sum: "unat ?u = field_sum p (Suc n)"
    using field_sum_bound(1) [OF Suc.prems(1)] IH(2)
    by (simp add: field_sum_Suc unat_word_ariths(1))
  have "unat (?u AND 0xff) \<le> 246"
    using field_sum_bound(2) [OF Suc.prems(1)] Suc.prems(1) by (simp only: byte_fields sum)
  then have "\<not> ?u AND 0xff > 246" by (simp add: word_less_nat_alt)
  then have "for_up (Suc n) (minterm_step p) (0, 0, r, bs) = (0, ?u, r, bs'[n := byte_ones p n])"
    by (simp only: for_up_Suc IH(1) minterm_step_def Let_def prod.case Table_low if_False)
  then show ?case using sum IH(3,4) Suc.prems(2) by (auto simp: nth_list_update less_Suc_eq)
qed (simp add: field_sum_def)


text \<open>
  The loop over the other variables: with step \<open>2 ^ s\<close> every multiple of the step holds the count of a
  block of \<open>2 ^ (s + 3)\<close> minterms; the even blocks are those in the negative cofactor of \<open>s + 3\<close>.
\<close>

definition cell :: "words \<Rightarrow> nat \<Rightarrow> nat \<Rightarrow> nat" where
  "cell p s l = card {m. m div 2 ^ (s + 3) = l \<and> tt_bit p m}"

lemma finite_div [simp]: "finite {m :: nat. m div 2 ^ k = l \<and> P m}"
proof (rule finite_subset)
  show "{m. m div 2 ^ k = l \<and> P m} \<subseteq> {..< 2 ^ k * Suc l}"
    using div_less_iff_less_mult [of "2 ^ k" _ "Suc l"] by (auto simp: mult.commute)
qed simp

lemma cell_0: "cell p 0 t = byte_ones p t"
proof -
  have "{m. m div 2 ^ (0 + 3) = t \<and> tt_bit p m} = (\<lambda>i. 8 * t + i) ` {i. i < 8 \<and> tt_bit p (8 * t + i)}"
    (is "?A = ?f ` ?B")
  proof (rule set_eqI)
    fix m
    show "m \<in> ?A \<longleftrightarrow> m \<in> ?f ` ?B"
    proof
      assume "m \<in> ?A"
      then have "m = ?f (m mod 8)" "m mod 8 \<in> ?B" by auto
      then show "m \<in> ?f ` ?B" by (rule image_eqI)
    qed auto
  qed
  then show ?thesis by (simp add: cell_def byte_ones_def card_image)
qed

lemma cell_Suc: "cell p (Suc s) k = cell p s (2 * k) + cell p s (2 * k + 1)"
proof -
  have "m div 2 ^ (Suc s + 3) = m div 2 ^ (s + 3) div 2" for m :: nat
  proof -
    have "2 ^ (Suc s + 3) = 2 ^ (s + 3) * (2 :: nat)" by (simp add: power_add)
    then show ?thesis by (simp only: div_mult2_eq)
  qed
  moreover have half: "q div 2 = k \<longleftrightarrow> q = 2 * k \<or> q = 2 * k + 1" for q :: nat
    by presburger
  ultimately have "{m. m div 2 ^ (Suc s + 3) = k \<and> tt_bit p m} =
      {m. m div 2 ^ (s + 3) = 2 * k \<and> tt_bit p m} \<union> {m. m div 2 ^ (s + 3) = 2 * k + 1 \<and> tt_bit p m}"
    (is "_ = ?A \<union> ?B")
    by (simp only: set_eq_iff mem_Collect_eq Un_iff half) blast
  moreover have "card (?A \<union> ?B) = card ?A + card ?B"
    by (rule card_Un_disjoint) (simp_all add: disjoint_iff)
  ultimately show ?thesis by (simp add: cell_def)
qed

lemma cells_cof0: "upto_byte (cof0 p (s + 3)) (M * 2 ^ Suc s) = (\<Sum>j<M. cell p s (2 * j))"
proof -
  have bit: "bit m (s + 3) = odd (m div 2 ^ (s + 3))" for m :: nat
    by (simp add: bit_iff_odd)
  have less: "m < 8 * (M * 2 ^ Suc s) \<longleftrightarrow> m div 2 ^ (s + 3) < 2 * M" for m
    by (subst div_less_iff_less_mult) (simp_all add: power_add algebra_simps)
  have "{m. m < 8 * (M * 2 ^ Suc s) \<and> cof0 p (s + 3) m} =
      (\<Union>j\<in>{..<M}. {m. m div 2 ^ (s + 3) = 2 * j \<and> tt_bit p m})"
    unfolding less cof0_def bit by auto
  also have "card \<dots> = (\<Sum>j<M. cell p s (2 * j))"
    unfolding cell_def by (subst card_UN_disjoint) (auto simp: disjoint_iff)
  finally show ?thesis by (simp only: upto_byte_def)
qed

lemma for_step_blocks: "0 < d \<Longrightarrow> for_step (M * d) d body = for_up M (\<lambda>j. body (j * d))"
proof -
  assume d: "0 < d"
  have "(M * d + d - 1) div d = M"
  proof -
    obtain c where c: "d = Suc c" using d gr0_implies_Suc by blast
    have "M * d + d - 1 = c + M * d" by (simp add: c)
    moreover have "(c + M * d) div d = M + c div d" by (rule div_mult_self1) (simp add: c)
    ultimately have "(M * d + d - 1) div d = M + c div d" by (simp only:)
    then show ?thesis by (simp add: c)
  qed
  then show ?thesis by (simp only: for_step_def for_up_def)
qed

lemma count_stage:
  fixes pRes pBytes :: "nat list"
  assumes N: "N = M * (2 ^ s + 2 ^ s)" and len: "N \<le> length pBytes" "s + 3 < length pRes"
    and cells: "\<And>l. l < 2 * M \<Longrightarrow> pBytes ! (l * 2 ^ s) = cell p s l"
  shows "case for_step N (2 ^ s + 2 ^ s) (\<lambda>i (pRes, pBytes).
            (pRes[s + 3 := pRes ! (s + 3) + pBytes ! i], pBytes[i := pBytes ! i + pBytes ! (i + 2 ^ s)])) (pRes, pBytes)
      of (r, bs) \<Rightarrow> length bs = length pBytes \<and> r = pRes[s + 3 := pRes ! (s + 3) + (\<Sum>j<M. cell p s (2 * j))] \<and>
        (\<forall>j<M. bs ! (j * 2 ^ Suc s) = cell p (Suc s) j)"
proof -
  let ?body = "\<lambda>i (pRes, pBytes).
     (pRes[s + 3 := pRes ! (s + 3) + pBytes ! i], pBytes[i := pBytes ! i + pBytes ! (i + 2 ^ s)])"
  define I where "I k x = (case x of (r, bs) \<Rightarrow> length bs = length pBytes \<and>
      r = pRes[s + 3 := pRes ! (s + 3) + (\<Sum>j<k. cell p s (2 * j))] \<and>
      (\<forall>j<k. bs ! (j * 2 ^ Suc s) = cell p (Suc s) j) \<and>
      (\<forall>l. 2 * k \<le> l \<longrightarrow> l < 2 * M \<longrightarrow> bs ! (l * 2 ^ s) = cell p s l))" for k and x :: "nat list \<times> nat list"
  have "I M (for_up M (\<lambda>j. ?body (j * (2 ^ s + 2 ^ s))) (pRes, pBytes))"
  proof (rule for_up_invariant)
    show "I 0 (pRes, pBytes)" using cells by (simp add: I_def)
  next
    fix k x assume k: "k < M" and "I k x"
    then obtain r bs where x: "x = (r, bs)" and h: "length bs = length pBytes"
      "r = pRes[s + 3 := pRes ! (s + 3) + (\<Sum>j<k. cell p s (2 * j))]"
      "\<forall>j<k. bs ! (j * 2 ^ Suc s) = cell p (Suc s) j"
      "\<forall>l. 2 * k \<le> l \<longrightarrow> l < 2 * M \<longrightarrow> bs ! (l * 2 ^ s) = cell p s l"
      unfolding I_def by (cases x) auto
    let ?i = "k * (2 ^ s + 2 ^ s)"
    have i: "?i = 2 * k * 2 ^ s" "?i = k * 2 ^ Suc s" "?i + 2 ^ s = (2 * k + 1) * 2 ^ s"
      by (simp_all add: algebra_simps)
    have lo: "bs ! ?i = cell p s (2 * k)" using h(4) k unfolding i(1) by simp
    have hi: "bs ! (?i + 2 ^ s) = cell p s (2 * k + 1)"
      unfolding i(3) by (rule h(4) [rule_format]) (use k in simp_all)
    have "?i < N" using k by (simp add: N)
    then have il: "?i < length bs" using len h(1) by simp
    have new: "?body ?i x = (r[s + 3 := r ! (s + 3) + cell p s (2 * k)], bs[?i := cell p (Suc s) k])"
      unfolding x prod.case lo hi cell_Suc by (rule refl)
    have "r[s + 3 := r ! (s + 3) + cell p s (2 * k)] = pRes[s + 3 := pRes ! (s + 3) + (\<Sum>j<Suc k. cell p s (2 * j))]"
      using len(2) by (simp add: h(2) add.assoc)
    moreover have "bs[?i := cell p (Suc s) k] ! (j * 2 ^ Suc s) = cell p (Suc s) j" if "j < Suc k" for j
      using that h(3) il unfolding i(2) by (cases "j = k") simp_all
    moreover have "bs[?i := cell p (Suc s) k] ! (l * 2 ^ s) = cell p s l" if "2 * Suc k \<le> l" "l < 2 * M" for l
      using that h(4) unfolding i(1) by simp
    ultimately show "I (Suc k) (?body ?i x)"
      unfolding new using h(1) by (simp add: I_def del: sum.lessThan_Suc power_Suc)
  qed
  then show ?thesis
    unfolding N by (subst for_step_blocks) (auto simp: I_def split: prod.splits simp del: power_Suc)
qed


lemma count_others_result:
  assumes "s \<le> e" "2 ^ e \<le> length pBytes" "e + 3 \<le> length pRes"
    and "\<And>l. l < 2 ^ (e - s) \<Longrightarrow> pBytes ! (l * 2 ^ s) = cell p s l"
  shows "case count_others (2 ^ e) s (pRes, pBytes) of (iVar, r, bs) \<Rightarrow>
    iVar = e + 3 \<and> bs ! 0 = cell p e 0 \<and> length r = length pRes \<and>
    (\<forall>j < length pRes. r ! j = (if s + 3 \<le> j \<and> j < e + 3 then pRes ! j + upto_byte (cof0 p j) (2 ^ e) else pRes ! j))"
  using assms
proof (induction "e - s" arbitrary: s pRes pBytes)
  case 0
  then show ?case by (subst count_others.simps) (auto simp: Let_def)
next
  case (Suc d)
  then have se: "s < e" by simp
  define M :: nat where "M = 2 ^ (e - Suc s)"
  have e: "2 ^ e = M * (2 ^ s + 2 ^ s)" "2 ^ (e - s) = 2 * M"
    using se unfolding M_def by (simp_all add: power_add [symmetric] mult_2 [symmetric] power_Suc [symmetric] Suc_diff_Suc del: power_Suc)
  have up: "upto_byte (cof0 p (s + 3)) (2 ^ e) = (\<Sum>j<M. cell p s (2 * j))"
    using cells_cof0 [of p s M] by (simp add: e(1) mult_2)
  obtain r bs where rb: "for_step (2 ^ e) (2 ^ s + 2 ^ s) (\<lambda>i (pRes, pBytes).
            (pRes[s + 3 := pRes ! (s + 3) + pBytes ! i], pBytes[i := pBytes ! i + pBytes ! (i + 2 ^ s)])) (pRes, pBytes) = (r, bs)"
    by force
  have stage: "length bs = length pBytes" "r = pRes[s + 3 := pRes ! (s + 3) + upto_byte (cof0 p (s + 3)) (2 ^ e)]"
    "\<forall>j<M. bs ! (j * 2 ^ Suc s) = cell p (Suc s) j"
    using count_stage [OF e(1) Suc.prems(2), of pRes p] Suc.prems(3,4) se unfolding rb prod.case e(2) up
    by auto
  have "count_others (2 ^ e) s (pRes, pBytes) = count_others (2 ^ e) (Suc s) (r, bs)"
    using se by (subst count_others.simps) (simp add: Let_def rb)
  moreover note Suc.hyps(1) [of "Suc s" bs r]
  moreover have "s + 3 \<le> j \<longleftrightarrow> j = s + 3 \<or> Suc s + 3 \<le> j" for j by auto
  ultimately show ?case
    using stage Suc.hyps(2) Suc.prems se by (auto simp: M_def nth_list_update split: prod.splits)
qed

text \<open>
  C26. For 5 to 20 variables and at most 246 minterms \<open>Kit_TruthCountMinterms\<close> passes its own checks: it
  returns the number of minterms and stores the number of minterms of every negative cofactor; entries of
  the result array from \<open>nVars\<close> on are not touched. (More minterms flush the packed sums.)
\<close>

theorem Kit_TruthCountMinterms_correct:
  assumes n: "5 \<le> n" "n \<le> 20" and few: "Kit_TruthCountOnes p n \<le> 246"
    and len: "n \<le> length pRes" "4 * Kit_TruthWordNum n \<le> length pBytes"
  shows "returns (Kit_TruthCountMinterms p n pRes pBytes) (\<lambda>(nTotal, r, _).
    nTotal = Kit_TruthCountOnes p n \<and> length r = length pRes \<and>
    (\<forall>i<n. r ! i = Kit_TruthCofactor0Count p n i) \<and> (\<forall>i<length r. n \<le> i \<longrightarrow> r ! i = pRes ! i))"
proof -
  define e where "e = n - 3"
  have e: "n = e + 3" "2 \<le> e" using n by (simp_all add: e_def)
  obtain f where f: "e = Suc (Suc f)" using e(2) by (metis add_2_eq_Suc le_Suc_ex)
  have nB: "Kit_TruthWordNum n * 4 = 2 ^ e"
    using f by (simp add: Kit_TruthWordNum_alt e(1))
  have size: "tt_size n = 8 * 2 ^ e" using nB by (simp add: tt_size_def)
  have ones: "Kit_TruthCountOnes p n = upto_byte (tt_bit p) (2 ^ e)"
    by (simp only: Kit_TruthCountOnes_card upto_byte_def size)
  have cof: "Kit_TruthCofactor0Count p n i = upto_byte (cof0 p i) (2 ^ e)" if "i < n" for i
    unfolding Kit_TruthCofactor0Count_card [OF that] upto_byte_def size cof0_def
    by (rule arg_cong [where f = card]) blast
  define r0 where "r0 = for_up n (\<lambda>i pRes. pRes[i := 0]) pRes"
  have r0: "length r0 = length pRes" "\<And>j. j < length pRes \<Longrightarrow> r0 ! j = (if j < n then 0 else pRes ! j)"
    by (simp_all add: r0_def)
  obtain u bs where loop: "for_up (2 ^ e) (minterm_step p) (0, 0, r0, pBytes) = (0, u, r0, bs)"
    and u: "unat u = field_sum p (2 ^ e)" and bs: "length bs = length pBytes" "\<forall>t<2 ^ e. bs ! t = byte_ones p t"
    using minterm_loop [of p "2 ^ e" pBytes r0] few len(2) nB by (auto simp: ones mult.commute)
  note fields = field_sum_bound [of p "2 ^ e", folded u, OF few [unfolded ones]]
  define r1 where "r1 = (if u \<noteq> 0 then
      r0[0 := r0 ! 0 + unat (drop_bit 8 u AND 0xff), 1 := r0 ! 1 + unat (drop_bit 16 u AND 0xff),
         2 := r0 ! 2 + unat (drop_bit 24 u AND 0xff)] else r0)"
  have fld: "unat (drop_bit 8 u AND 0xff) = upto_byte (cof0 p 0) (2 ^ e)"
    "unat (drop_bit 16 u AND 0xff) = upto_byte (cof0 p 1) (2 ^ e)"
    "unat (drop_bit 24 u AND 0xff) = upto_byte (cof0 p 2) (2 ^ e)"
    using fields(3-5) by (simp_all only: byte_fields(2-4))
  have low: "unat (u AND 0xff) = Kit_TruthCountOnes p n"
    using fields(2) by (simp only: ones byte_fields(1))
  have r1: "length r1 = length pRes"
    "\<And>j. j < length pRes \<Longrightarrow> r1 ! j = (if j < 3 then upto_byte (cof0 p j) (2 ^ e) else if j < n then 0 else pRes ! j)"
  proof -
    show "length r1 = length pRes" by (simp add: r1_def r0)
    fix j assume j: "j < length pRes"
    have "j = 0 \<or> j = 1 \<or> j = 2 \<or> 3 \<le> j" by linarith
    then show "r1 ! j = (if j < 3 then upto_byte (cof0 p j) (2 ^ e) else if j < n then 0 else pRes ! j)"
      using fld low n len(1) j unfolding r1_def by (elim disjE; cases "u = 0") (simp_all add: r0)
  qed
  obtain iVar r bs' where oth: "count_others (2 ^ e) 0 (r1, bs) = (iVar, r, bs')"
    by (metis prod_cases3)
  have "4 * Kit_TruthWordNum n = 2 ^ e" using nB by simp
  then have res: "iVar = n" "bs' ! 0 = cell p e 0" "length r = length pRes"
    "\<forall>j < length pRes. r ! j = (if j < n then upto_byte (cof0 p j) (2 ^ e) else pRes ! j)"
    using count_others_result [of 0 e bs r1 p] bs len e r1 n unfolding oth prod.case
    by (auto simp: cell_0)
  have total: "cell p e 0 = Kit_TruthCountOnes p n"
    unfolding ones cell_def upto_byte_def using e(1)
    by (intro arg_cong [where f = card]) (auto simp: power_add div_eq_0_iff)
  have flush: "(if u \<noteq> 0 then (0 + unat (u AND 0xff), let q = r0[0 := r0 ! 0 + unat (drop_bit 8 u AND 0xff)];
      q = q[1 := q ! 1 + unat (drop_bit 16 u AND 0xff)] in q[2 := q ! 2 + unat (drop_bit 24 u AND 0xff)])
      else (0, r0)) = (Kit_TruthCountOnes p n, r1)"
    using fld low n len(1) unfolding r1_def by (cases "u = 0") (simp_all add: Let_def r0)
  have "Kit_TruthCountMinterms p n pRes pBytes = Inr (Kit_TruthCountOnes p n, r, bs')"
    unfolding Kit_TruthCountMinterms_def r0_def [symmetric] Let_def nB loop prod.case
    using flush n res total cof len(1) by (auto simp: oth Let_def list_all_iff)
  then show ?thesis using res cof len(1) by simp
qed


theorem Kit_TruthCountMinterms_correct_witness:
  "returns (Kit_TruthCountMinterms [0xE8E8E8E8] 5 [7, 7, 7, 7, 7, 7] [0, 0, 0, 0]) (\<lambda>(nTotal, r, _).
    nTotal = Kit_TruthCountOnes [0xE8E8E8E8] 5 \<and> length r = length [7, 7, 7, 7, 7, 7 :: nat] \<and>
    (\<forall>i<5. r ! i = Kit_TruthCofactor0Count [0xE8E8E8E8] 5 i) \<and>
    (\<forall>i<length r. 5 \<le> i \<longrightarrow> r ! i = [7, 7, 7, 7, 7, 7] ! i))"
proof (rule Kit_TruthCountMinterms_correct)
  show "Kit_TruthCountOnes [0xE8E8E8E8] 5 \<le> 246" by code_simp
qed (simp_all add: Kit_TruthWordNum_def)

lemma minterm_step_1:
  "minterm_step p k (t0, u0, r0, bs) = (t, u, r, bs') \<Longrightarrow> length r = length r0 \<and> r ! 1 = r0 ! 1"
  unfolding minterm_step_def Let_def prod.case by (auto split: if_splits simp del: One_nat_def)

lemma minterm_loop_1:
  "for_up n (minterm_step p) (t0, u0, r0, bs) = (t, u, r, bs') \<Longrightarrow> length r = length r0 \<and> r ! 1 = r0 ! 1"
proof (induction n arbitrary: t u r bs')
  case (Suc n)
  obtain t1 u1 r1 bs1 where 1: "for_up n (minterm_step p) (t0, u0, r0, bs) = (t1, u1, r1, bs1)"
    by (metis prod_cases4)
  then have "minterm_step p n (t1, u1, r1, bs1) = (t, u, r, bs')" using Suc.prems by simp
  from minterm_step_1 [OF this] Suc.IH [OF 1] show ?case by simp
qed simp

definition stage_body :: "nat \<Rightarrow> nat \<Rightarrow> nat list \<times> nat list \<Rightarrow> nat list \<times> nat list" where
  "stage_body s i = (\<lambda>(pRes, pBytes).
     (pRes[s + 3 := pRes ! (s + 3) + pBytes ! i], pBytes[i := pBytes ! i + pBytes ! (i + 2 ^ s)]))"

lemma stage_body_other: "j < s + 3 \<Longrightarrow> fst (fold (\<lambda>j. stage_body s (f j)) xs (q, c)) ! j = q ! j"
  by (induction xs arbitrary: q c) (simp_all add: stage_body_def)

lemma count_others_step: "count_others N s (r0, bs) =
   (if 2 ^ s < N then count_others N (Suc s) (for_step N (2 ^ s + 2 ^ s) (stage_body s) (r0, bs)) else (s + 3, r0, bs))"
  by (subst count_others.simps) (simp only: Let_def stage_body_def [abs_def])

lemma count_others_1:
  "count_others N s x = (v, r, bs') \<Longrightarrow> j < s + 3 \<Longrightarrow> r ! j = fst x ! j"
proof (induction "N - s" arbitrary: s x rule: less_induct)
  case less
  obtain r0 bs where x: "x = (r0, bs)" by force
  show ?case
  proof (cases "2 ^ s < N")
    case True
    have "s < 2 ^ s" by simp
    then have "N - Suc s < N - s" using True by linarith
    moreover have "count_others N (Suc s) (for_step N (2 ^ s + 2 ^ s) (stage_body s) x) = (v, r, bs')"
      using less.prems(1) True unfolding x by (subst (asm) count_others_step) simp
    moreover have "j < Suc s + 3" using less.prems(2) by simp
    ultimately have "r ! j = fst (for_step N (2 ^ s + 2 ^ s) (stage_body s) x) ! j"
      by (rule less.hyps)
    then show ?thesis
      unfolding for_step_def x by (simp only: stage_body_other [OF less.prems(2)] fst_conv)
  next
    case False
    then show ?thesis using less.prems unfolding x by (subst (asm) count_others_step) simp
  qed
qed

text \<open>
  C27. The entry of variable 1 is only written after the last byte, where the packed sums have at most 255
  for it: if its negative cofactor has more minterms, the check of \<open>Kit_TruthCountMinterms\<close> fails (the flush
  in the loop adds the sums of the variables 1 and 2 to the entries of the variables 2 and 3).
\<close>

theorem Kit_TruthCountMinterms_fails:
  assumes "2 \<le> n" "n \<le> length pRes" "255 < Kit_TruthCofactor0Count p n 1"
  shows "Kit_TruthCountMinterms p n pRes pBytes = Inl AssertFailed"
proof -
  define r0 where "r0 = for_up n (\<lambda>i pRes. pRes[i := 0]) pRes"
  have r0: "length r0 = length pRes" "r0 ! 1 = 0" using assms(1,2) by (simp_all add: r0_def)
  obtain t u r1 bs where loop: "for_up (Kit_TruthWordNum n * 4) (minterm_step p) (0, 0, r0, pBytes) = (t, u, r1, bs)"
    by (metis prod_cases4)
  have r1: "length r1 = length pRes" "r1 ! 1 = 0" using minterm_loop_1 [OF loop] r0 by simp_all
  define tr where "tr = (if u \<noteq> 0 then
             let nTotal = t + unat (u AND 0xff);
                 pRes = r1[0 := r1 ! 0 + unat (drop_bit 8 u AND 0xff)];
                 pRes = pRes[1 := pRes ! 1 + unat (drop_bit 16 u AND 0xff)];
                 pRes = pRes[2 := pRes ! 2 + unat (drop_bit 24 u AND 0xff)]
             in (nTotal, pRes)
           else (t, r1))"
  obtain t2 r2 where tr: "tr = (t2, r2)" by force
  have "unat (drop_bit 16 u AND 0xff) < 256" unfolding byte_fields(3) by simp
  then have r2: "r2 ! 1 \<le> 255"
    using tr r1 assms(1,2) unfolding tr_def by (auto simp: Let_def split: if_splits simp del: byte_fields)
  obtain v r3 bs3 where oth: "count_others (Kit_TruthWordNum n * 4) 0 (r2, bs) = (v, r3, bs3)" by (metis prod_cases3)
  have "r3 ! 1 \<noteq> Kit_TruthCofactor0Count p n 1"
    using count_others_1 [OF oth, of 1, unfolded fst_conv] r2 assms(3) by simp
  then show ?thesis
    unfolding Kit_TruthCountMinterms_def r0_def [symmetric] Let_def loop prod.case
    unfolding tr_def [unfolded Let_def, symmetric] tr prod.case oth
    using assms(1) by (auto simp: list_all_iff)
qed

theorem Kit_TruthCountMinterms_fails_witness:
  "Kit_TruthCountMinterms (replicate 16 (- 1)) 9 (replicate 9 0) [] = Inl AssertFailed"
proof (rule Kit_TruthCountMinterms_fails)
  show "255 < Kit_TruthCofactor0Count (replicate 16 (- 1)) 9 1" by code_simp
qed simp_all


section \<open>Hashing\<close>

definition HashPrimes :: "int list" where
  "HashPrimes = [
   2, 3, 5, 7, 11, 13, 17, 19, 23, 29, 31, 37, 41, 43, 47, 53, 59, 61, 67, 71,
   73, 79, 83, 89, 97, 101, 103, 107, 109, 113, 127, 131, 137, 139, 149, 151, 157, 163, 167, 173,
   179, 181, 191, 193, 197, 199, 211, 223, 227, 229, 233, 239, 241, 251, 257, 263, 269, 271, 277, 281,
   283, 293, 307, 311, 313, 317, 331, 337, 347, 349, 353, 359, 367, 373, 379, 383, 389, 397, 401, 409,
   419, 421, 431, 433, 439, 443, 449, 457, 461, 463, 467, 479, 487, 491, 499, 503, 509, 521, 523, 541,
   547, 557, 563, 569, 571, 577, 587, 593, 599, 601, 607, 613, 617, 619, 631, 641, 643, 647, 653, 659,
   661, 673, 677, 683, 691, 701, 709, 719, 727, 733, 739, 743, 751, 757, 761, 769, 773, 787, 797, 809,
   811, 821, 823, 827, 829, 839, 853, 857, 859, 863, 877, 881, 883, 887, 907, 911, 919, 929, 937, 941,
   947, 953, 967, 971, 977, 983, 991, 997, 1009, 1013, 1019, 1021, 1031, 1033, 1039, 1049, 1051, 1061, 1063, 1069,
   1087, 1091, 1093, 1097, 1103, 1109, 1117, 1123, 1129, 1151, 1153, 1163, 1171, 1181, 1187, 1193, 1201, 1213, 1217, 1223,
   1229, 1231, 1237, 1249, 1259, 1277, 1279, 1283, 1289, 1291, 1297, 1301, 1303, 1307, 1319, 1321, 1327, 1361, 1367, 1373,
   1381, 1399, 1409, 1423, 1427, 1429, 1433, 1439, 1447, 1451, 1453, 1459, 1471, 1481, 1483, 1487, 1489, 1493, 1499, 1511,
   1523, 1531, 1543, 1549, 1553, 1559, 1567, 1571, 1579, 1583, 1597, 1601, 1607, 1609, 1613, 1619, 1621, 1627, 1637, 1657,
   1663, 1667, 1669, 1693, 1697, 1699, 1709, 1721, 1723, 1733, 1741, 1747, 1753, 1759, 1777, 1783, 1787, 1789, 1801, 1811,
   1823, 1831, 1847, 1861, 1867, 1871, 1873, 1877, 1879, 1889, 1901, 1907, 1913, 1931, 1933, 1949, 1951, 1973, 1979, 1987,
   1993, 1997, 1999, 2003, 2011, 2017, 2027, 2029, 2039, 2053, 2063, 2069, 2081, 2083, 2087, 2089, 2099, 2111, 2113, 2129,
   2131, 2137, 2141, 2143, 2153, 2161, 2179, 2203, 2207, 2213, 2221, 2237, 2239, 2243, 2251, 2267, 2269, 2273, 2281, 2287,
   2293, 2297, 2309, 2311, 2333, 2339, 2341, 2347, 2351, 2357, 2371, 2377, 2381, 2383, 2389, 2393, 2399, 2411, 2417, 2423,
   2437, 2441, 2447, 2459, 2467, 2473, 2477, 2503, 2521, 2531, 2539, 2543, 2549, 2551, 2557, 2579, 2591, 2593, 2609, 2617,
   2621, 2633, 2647, 2657, 2659, 2663, 2671, 2677, 2683, 2687, 2689, 2693, 2699, 2707, 2711, 2713, 2719, 2729, 2731, 2741,
   2749, 2753, 2767, 2777, 2789, 2791, 2797, 2801, 2803, 2819, 2833, 2837, 2843, 2851, 2857, 2861, 2879, 2887, 2897, 2903,
   2909, 2917, 2927, 2939, 2953, 2957, 2963, 2969, 2971, 2999, 3001, 3011, 3019, 3023, 3037, 3041, 3049, 3061, 3067, 3079,
   3083, 3089, 3109, 3119, 3121, 3137, 3163, 3167, 3169, 3181, 3187, 3191, 3203, 3209, 3217, 3221, 3229, 3251, 3253, 3257,
   3259, 3271, 3299, 3301, 3307, 3313, 3319, 3323, 3329, 3331, 3343, 3347, 3359, 3361, 3371, 3373, 3389, 3391, 3407, 3413,
   3433, 3449, 3457, 3461, 3463, 3467, 3469, 3491, 3499, 3511, 3517, 3527, 3529, 3533, 3539, 3541, 3547, 3557, 3559, 3571,
   3581, 3583, 3593, 3607, 3613, 3617, 3623, 3631, 3637, 3643, 3659, 3671, 3673, 3677, 3691, 3697, 3701, 3709, 3719, 3727,
   3733, 3739, 3761, 3767, 3769, 3779, 3793, 3797, 3803, 3821, 3823, 3833, 3847, 3851, 3853, 3863, 3877, 3881, 3889, 3907,
   3911, 3917, 3919, 3923, 3929, 3931, 3943, 3947, 3967, 3989, 4001, 4003, 4007, 4013, 4019, 4021, 4027, 4049, 4051, 4057,
   4073, 4079, 4091, 4093, 4099, 4111, 4127, 4129, 4133, 4139, 4153, 4157, 4159, 4177, 4201, 4211, 4217, 4219, 4229, 4231,
   4241, 4243, 4253, 4259, 4261, 4271, 4273, 4283, 4289, 4297, 4327, 4337, 4339, 4349, 4357, 4363, 4373, 4391, 4397, 4409,
   4421, 4423, 4441, 4447, 4451, 4457, 4463, 4481, 4483, 4493, 4507, 4513, 4517, 4519, 4523, 4547, 4549, 4561, 4567, 4583,
   4591, 4597, 4603, 4621, 4637, 4639, 4643, 4649, 4651, 4657, 4663, 4673, 4679, 4691, 4703, 4721, 4723, 4729, 4733, 4751,
   4759, 4783, 4787, 4789, 4793, 4799, 4801, 4813, 4817, 4831, 4861, 4871, 4877, 4889, 4903, 4909, 4919, 4931, 4933, 4937,
   4943, 4951, 4957, 4967, 4969, 4973, 4987, 4993, 4999, 5003, 5009, 5011, 5021, 5023, 5039, 5051, 5059, 5077, 5081, 5087,
   5099, 5101, 5107, 5113, 5119, 5147, 5153, 5167, 5171, 5179, 5189, 5197, 5209, 5227, 5231, 5233, 5237, 5261, 5273, 5279,
   5281, 5297, 5303, 5309, 5323, 5333, 5347, 5351, 5381, 5387, 5393, 5399, 5407, 5413, 5417, 5419, 5431, 5437, 5441, 5443,
   5449, 5471, 5477, 5479, 5483, 5501, 5503, 5507, 5519, 5521, 5527, 5531, 5557, 5563, 5569, 5573, 5581, 5591, 5623, 5639,
   5641, 5647, 5651, 5653, 5657, 5659, 5669, 5683, 5689, 5693, 5701, 5711, 5717, 5737, 5741, 5743, 5749, 5779, 5783, 5791,
   5801, 5807, 5813, 5821, 5827, 5839, 5843, 5849, 5851, 5857, 5861, 5867, 5869, 5879, 5881, 5897, 5903, 5923, 5927, 5939,
   5953, 5981, 5987, 6007, 6011, 6029, 6037, 6043, 6047, 6053, 6067, 6073, 6079, 6089, 6091, 6101, 6113, 6121, 6131, 6133,
   6143, 6151, 6163, 6173, 6197, 6199, 6203, 6211, 6217, 6221, 6229, 6247, 6257, 6263, 6269, 6271, 6277, 6287, 6299, 6301,
   6311, 6317, 6323, 6329, 6337, 6343, 6353, 6359, 6361, 6367, 6373, 6379, 6389, 6397, 6421, 6427, 6449, 6451, 6469, 6473,
   6481, 6491, 6521, 6529, 6547, 6551, 6553, 6563, 6569, 6571, 6577, 6581, 6599, 6607, 6619, 6637, 6653, 6659, 6661, 6673,
   6679, 6689, 6691, 6701, 6703, 6709, 6719, 6733, 6737, 6761, 6763, 6779, 6781, 6791, 6793, 6803, 6823, 6827, 6829, 6833,
   6841, 6857, 6863, 6869, 6871, 6883, 6899, 6907, 6911, 6917, 6947, 6949, 6959, 6961, 6967, 6971, 6977, 6983, 6991, 6997,
   7001, 7013, 7019, 7027, 7039, 7043, 7057, 7069, 7079, 7103, 7109, 7121, 7127, 7129, 7151, 7159, 7177, 7187, 7193, 7207,
   7211, 7213, 7219, 7229, 7237, 7243, 7247, 7253, 7283, 7297, 7307, 7309, 7321, 7331, 7333, 7349, 7351, 7369, 7393, 7411,
   7417, 7433, 7451, 7457, 7459, 7477, 7481, 7487, 7489, 7499, 7507, 7517, 7523, 7529, 7537, 7541, 7547, 7549, 7559, 7561,
   7573, 7577, 7583, 7589, 7591, 7603, 7607, 7621, 7639, 7643, 7649, 7669, 7673, 7681, 7687, 7691, 7699, 7703, 7717, 7723,
   7727, 7741, 7753, 7757, 7759, 7789, 7793, 7817, 7823, 7829, 7841, 7853, 7867, 7873, 7877, 7879, 7883, 7901, 7907, 7919,
   7927, 7933, 7937, 7949, 7951, 7963, 7993, 8009, 8011, 8017, 8039, 8053, 8059, 8069, 8081, 8087, 8089, 8093, 8101, 8111,
   8117, 8123, 8147, 8161]"

definition Kit_TruthHash :: "words \<Rightarrow> nat \<Rightarrow> u32 res" where
  "Kit_TruthHash pIn nWords =
    (if \<not> nWords \<le> 1024 then Inl AssertFailed
     else Inr (for_up nWords (\<lambda>i uHashKey. uHashKey XOR (of_int (HashPrimes ! i) * pIn ! i)) 0))"

text \<open>All multipliers but the first are odd: they can be undone modulo \<open>2 ^ 32\<close>.\<close>

lemma HashPrimes_odd: "list_all odd (tl HashPrimes)"
  by (simp add: HashPrimes_def)

lemma length_HashPrimes: "length HashPrimes = 1024"
  by (simp add: HashPrimes_def)

lemma xor_0_eq: "x XOR y = 0 \<Longrightarrow> x = (y :: u32)"
  by (metis xor.assoc xor.left_neutral xor.right_neutral xor_self_eq)

lemma odd_mult_inject:
  assumes "odd a" "of_int a * x = of_int a * (y :: u32)"
  shows "x = y"
proof -
  have "of_int (a * (uint x - uint y)) = (0 :: u32)"
    using assms(2) by (simp add: right_diff_distrib)
  then have "2 ^ LENGTH(32) dvd a * (uint x - uint y)"
    by (simp only: word_of_int_eq_0_iff)
  then have "2 ^ 32 dvd a * (uint x - uint y)" by simp
  moreover have "coprime (2 ^ 32) a"
    using assms(1) by (simp only: coprime_power_left_iff coprime_left_2_iff_odd simp_thms)
  ultimately have "2 ^ 32 dvd uint x - uint y" by (simp add: coprime_dvd_mult_right_iff)
  then have "2 ^ LENGTH(32) dvd uint x - uint y" by simp
  then have "of_int (uint x - uint y) = (0 :: u32)" by (simp only: word_of_int_eq_0_iff)
  then show ?thesis by simp
qed

definition hash_key :: "words \<Rightarrow> nat \<Rightarrow> u32" where
  "hash_key pIn nWords = for_up nWords (\<lambda>i uHashKey. uHashKey XOR (of_int (HashPrimes ! i) * pIn ! i)) 0"

lemma hash_key_diff:
  assumes "\<And>j. j < n \<Longrightarrow> j \<noteq> i \<Longrightarrow> p ! j = q ! j"
  shows "hash_key p n XOR hash_key q n =
    (if i < n then (of_int (HashPrimes ! i) * p ! i) XOR (of_int (HashPrimes ! i) * q ! i) else 0)"
  using assms
proof (induction n)
  case (Suc n)
  have swap: "(a XOR b) XOR (c XOR d) = (a XOR c) XOR (b XOR d)" for a b c d :: u32
    by (simp add: ac_simps)
  have "hash_key p (Suc n) XOR hash_key q (Suc n) = (hash_key p n XOR hash_key q n) XOR
      ((of_int (HashPrimes ! n) * p ! n) XOR (of_int (HashPrimes ! n) * q ! n))"
    unfolding hash_key_def for_up_Suc by (rule swap)
  then show ?case using Suc by (cases "i = n") (simp_all add: less_Suc_eq)
qed (simp add: hash_key_def)

text \<open>
  Two tables of at most 1024 words that differ in one word only, other than the first, have different
  hash values, as the primes other than 2 have inverses modulo \<open>2 ^ 32\<close>.
\<close>

theorem Kit_TruthHash_differs:
  assumes "0 < i" "i < nWords" "nWords \<le> 1024" "p ! i \<noteq> q ! i" "nWords \<le> length p" "nWords \<le> length q"
    "\<And>j. j < nWords \<Longrightarrow> j \<noteq> i \<Longrightarrow> p ! j = q ! j"
  shows "Kit_TruthHash p nWords \<noteq> Kit_TruthHash q nWords"
proof -
  have "HashPrimes ! i = tl HashPrimes ! (i - 1)" "i - 1 < length (tl HashPrimes)"
    using assms(1-3) by (simp_all add: nth_tl length_HashPrimes)
  then have "odd (HashPrimes ! i)"
    using HashPrimes_odd by (simp add: list_all_length)
  then have "of_int (HashPrimes ! i) * p ! i \<noteq> of_int (HashPrimes ! i) * q ! i"
    using odd_mult_inject assms(4) by blast
  then have "hash_key p nWords \<noteq> hash_key q nWords"
    using hash_key_diff [of nWords i p q] assms(2,7) xor_0_eq by fastforce
  then show ?thesis using assms(3) by (simp add: Kit_TruthHash_def hash_key_def)
qed

theorem Kit_TruthHash_differs_witness:
  "Kit_TruthHash [5, 6, 7] 3 \<noteq> Kit_TruthHash [5, 0x80000006, 7] 3"
proof (rule Kit_TruthHash_differs [where i = 1])
  fix j :: nat
  assume "j < 3" "j \<noteq> 1"
  then have "j = 0 \<or> j = 2" by linarith
  then show "[5, 6, 7 :: u32] ! j = [5, 0x80000006, 7] ! j" by auto
qed simp_all

end
