(* ===== verification/Kit_Canon.thy ===== *)
theory Kit_Canon
  imports Kit_Cofs Kit_Permute
begin

text \<open>
  Semi-canonical forms of truth tables (\<open>Kit_TruthSemiCanonicize\<close> in
  \<open>src/abc-master/src/bool/kit/kitTruth.c\<close>): the table is complemented if it has more ones than
  zeros, variables are complemented so that their negative cofactors have no fewer minterms than the
  positive ones, and the variables are sorted by the counts of their negative cofactors. The local
  array \<open>pStore\<close> has 32 entries, two for each variable.
\<close>

section \<open>The code\<close>

record Canon_State = Swap_State +
  cPerm :: "nat list"
  cStore :: "nat list"
  cPhase :: u32
  cChange :: bool

definition canon_phase :: "nat \<Rightarrow> nat \<Rightarrow> u32 \<times> nat list \<times> words \<Rightarrow> u32 \<times> nat list \<times> words" where
  "canon_phase nVars i = (\<lambda>(uCanonPhase, pStore, pIn).
     if pStore ! (2 * i + 0) \<ge> pStore ! (2 * i + 1) then (uCanonPhase, pStore, pIn)
     else
       let uCanonPhase = uCanonPhase OR push_bit i 1;
           Temp = pStore ! (2 * i + 0);
           pStore = pStore[2 * i + 0 := pStore ! (2 * i + 1)];
           pStore = pStore[2 * i + 1 := Temp]
       in (uCanonPhase, pStore, Kit_TruthChangePhase pIn nVars i))"

definition canon_body :: "nat \<Rightarrow> nat \<Rightarrow> Canon_State \<Rightarrow> Canon_State res" where
  "canon_body nVars i s =
    (if cStore s ! (2 * i) \<ge> cStore s ! (2 * (i + 1)) then Inr s
     else
       let s = s\<lparr>cChange := True\<rparr>;
           Temp = cPerm s ! i;
           s = s\<lparr>cPerm := (cPerm s)[i := cPerm s ! (i + 1), i + 1 := Temp]\<rparr>;
           Temp = cStore s ! (2 * i);
           s = s\<lparr>cStore := (cStore s)[2 * i := cStore s ! (2 * (i + 1)), 2 * (i + 1) := Temp]\<rparr>;
           Temp = cStore s ! (2 * i + 1);
           s = s\<lparr>cStore := (cStore s)[2 * i + 1 := cStore s ! (2 * (i + 1) + 1), 2 * (i + 1) + 1 := Temp]\<rparr>;
           s = (if ((cPhase s AND push_bit i 1) > 0) \<noteq> ((cPhase s AND push_bit (i + 1) 1) > 0)
                then s\<lparr>cPhase := cPhase s XOR push_bit i 1 XOR push_bit (i + 1) 1\<rparr> else s)
       in swap_step nVars i s)"

partial_function (option) canon_loop :: "nat \<Rightarrow> Canon_State \<Rightarrow> Canon_State res option" where
  "canon_loop nVars s =
    (case run_loop [0..<nVars - 1] (canon_body nVars) (s\<lparr>cChange := False\<rparr>) of
       Inl e \<Rightarrow> Some (Inl e)
     | Inr s \<Rightarrow> if cChange s then canon_loop nVars s else Some (Inr s))"

text \<open>
  The phase, the contents of the two buffers \<open>pInOut\<close> and \<open>pAux\<close>, and the permutation. The final copy
  when the count is odd is the one of \<open>swap_finish\<close> for a result in the input.
\<close>

definition Kit_TruthSemiCanonicize ::
  "words \<Rightarrow> words \<Rightarrow> nat \<Rightarrow> nat list \<Rightarrow> (u32 \<times> words \<times> words \<times> nat list) res option" where
  "Kit_TruthSemiCanonicize pInOut pAux nVars pCanonPerm =
    (if nVars > 16 then Some (Inl Undefined) else
     let nWords = Kit_TruthWordNum nVars;
         uCanonPhase = 0;
         pCanonPerm = for_up nVars (\<lambda>i p. p[i := i]) pCanonPerm;
         nOnes = Kit_TruthCountOnes pInOut nVars;
         (uCanonPhase, pIn) = (if nOnes > nWords * 16
           then (uCanonPhase OR push_bit nVars 1, Kit_TruthNot pInOut pInOut nVars)
           else (uCanonPhase, pInOut));
         pStore = Kit_TruthCountOnesInCofs pIn nVars (replicate 32 0);
         (uCanonPhase, pStore, pIn) = for_up nVars (canon_phase nVars) (uCanonPhase, pStore, pIn)
     in map_option (\<lambda>r. res_bind r (\<lambda>s.
          let (pAux, pInOut) = swap_finish nVars True s in Inr (cPhase s, pInOut, pAux, cPerm s)))
        (canon_loop nVars \<lparr>sOut = pAux, sIn = pIn, sCounter = 0,
           cPerm = pCanonPerm, cStore = pStore, cPhase = uCanonPhase, cChange = False\<rparr>))"

section \<open>Counting after a change of variables\<close>

lemma card_below_bij:
  assumes "bij_betw f {..<N::nat} {..<N}"
  shows "card {m. m < N \<and> Q (f m)} = card {m. m < N \<and> Q m}"
proof -
  have "f ` {m. m < N \<and> Q (f m)} = {m. m < N \<and> Q m}"
  proof
    have "f ` {..<N} = {..<N}" using assms by (simp add: bij_betw_def)
    then show "f ` {m. m < N \<and> Q (f m)} \<subseteq> {m. m < N \<and> Q m}" by blast
    show "{m. m < N \<and> Q m} \<subseteq> f ` {m. m < N \<and> Q (f m)}"
    proof
      fix x assume "x \<in> {m. m < N \<and> Q m}"
      then obtain m where "m < N" "x = f m" "Q x" using \<open>f ` {..<N} = {..<N}\<close> by blast
      then show "x \<in> f ` {m. m < N \<and> Q (f m)}" by blast
    qed
  qed
  moreover have "inj_on f {m. m < N \<and> Q (f m)}"
    using assms by (rule inj_on_subset [OF bij_betw_imp_inj_on]) auto
  ultimately show ?thesis by (metis card_image)
qed

lemma bij_below:
  assumes "\<And>m. m < N \<Longrightarrow> f m < N" "\<And>m m'. m < N \<Longrightarrow> m' < N \<Longrightarrow> f m = f m' \<Longrightarrow> m = m'"
  shows "bij_betw f {..<N::nat} {..<N}"
proof -
  have inj: "inj_on f {..<N}" using assms(2) by (auto simp: inj_on_def)
  moreover have "f ` {..<N} \<subseteq> {..<N}" using assms(1) by auto
  ultimately have "f ` {..<N} = {..<N}" by (intro endo_inj_surj) simp_all
  then show ?thesis using inj by (simp add: bij_betw_def)
qed

lemma flip_bit_less_size: "v < n \<Longrightarrow> m < tt_size n \<Longrightarrow> flip_bit v m < tt_size n"
  unfolding tt_size_exp less_exp_bits by (auto simp: bit_flip_bit_iff)

lemma flip_bit_bij: "v < n \<Longrightarrow> bij_betw (flip_bit v) {..<tt_size n} {..<tt_size n}"
proof (rule bij_below)
  fix m m' :: nat assume "flip_bit v m = flip_bit v m'"
  moreover have "flip_bit v (flip_bit v k) = k" for k :: nat
    by (rule bit_eqI) (auto simp: bit_flip_bit_iff)
  ultimately show "m = m'" by metis
qed (rule flip_bit_less_size)

lemma cof_count_ChangePhase:
  assumes "tt_ok q n" "v < n"
  shows "cof_count (Kit_TruthChangePhase q n v) n i c = cof_count q n i (if i = v then \<not> c else c)"
proof -
  have "{m. m < tt_size n \<and> bit m i = c \<and> tt_bit (Kit_TruthChangePhase q n v) m} =
      {m. m < tt_size n \<and> bit (flip_bit v m) i = (if i = v then \<not> c else c) \<and> tt_bit q (flip_bit v m)}"
    using assms by (auto simp: tt_bit_Kit_TruthChangePhase bit_flip_bit_iff)
  then show ?thesis
    using card_below_bij [OF flip_bit_bij [OF assms(2)], of "\<lambda>m. bit m i = (if i = v then \<not> c else c) \<and> tt_bit q m"]
    by (simp add: cof_count_def)
qed

text \<open>A rearrangement of the variables: a permutation of those below \<open>n\<close>, given with its inverse.\<close>

definition rearranges :: "nat \<Rightarrow> nat list \<Rightarrow> (nat \<Rightarrow> nat) \<Rightarrow> bool" where
  "rearranges n c \<sigma> \<longleftrightarrow> length c = n \<and> (\<forall>i<n. \<sigma> i < n \<and> c ! \<sigma> i = i) \<and> (\<forall>i\<ge>n. \<sigma> i = i)"

lemma rearranges_inv:
  assumes "rearranges n c \<sigma>" "j < n"
  shows "c ! j < n" "\<sigma> (c ! j) = j"
proof -
  have "\<forall>i<n. \<sigma> i < n" "inj_on \<sigma> {..<n}"
    using assms(1) by (auto simp: rearranges_def inj_on_def) metis
  then have "\<sigma> ` {..<n} = {..<n}" by (intro endo_inj_surj) auto
  then obtain i where "i < n" "j = \<sigma> i" using assms(2) by (metis imageE lessThan_iff)
  then show "c ! j < n" "\<sigma> (c ! j) = j" using assms(1) by (auto simp: rearranges_def)
qed

lemma rearranges_set: "rearranges n c \<sigma> \<Longrightarrow> set c = {..<n}"
proof
  assume r: "rearranges n c \<sigma>"
  then show "set c \<subseteq> {..<n}" using rearranges_inv(1) by (auto simp: in_set_conv_nth rearranges_def)
  show "{..<n} \<subseteq> set c" using r unfolding rearranges_def by (metis lessThan_iff nth_mem subsetI)
qed

lemma permute_bits_bij:
  assumes "rearranges n c \<sigma>"
  shows "bij_betw (permute_bits n \<sigma>) {..<tt_size n} {..<tt_size n}"
proof (rule bij_below)
  fix m m' assume m: "m < tt_size n" "m' < tt_size n" and eq: "permute_bits n \<sigma> m = permute_bits n \<sigma> m'"
  show "m = m'"
  proof (rule bit_eqI)
    fix j
    show "bit m j = bit m' j"
    proof (cases "j < max 5 n")
      case True
      define i where "i = (if j < n then c ! j else j)"
      have i: "\<sigma> i = j" "i < max 5 n"
        using rearranges_inv [OF assms, of j] assms True by (auto simp: i_def rearranges_def)
      have "bit (permute_bits n \<sigma> m) i = bit (permute_bits n \<sigma> m') i" using eq by simp
      then show ?thesis using i by simp
    next
      case False
      then show ?thesis using m unfolding tt_size_exp less_exp_bits by blast
    qed
  qed
qed (rule permute_bits_less)

lemma cof_count_arranged:
  assumes r: "rearranges n c \<sigma>" and p: "\<And>m. m < tt_size n \<Longrightarrow> tt_bit p m = tt_bit q (permute_bits n \<sigma> m)" and i: "i < n"
  shows "cof_count p n (\<sigma> i) b = cof_count q n i b"
proof -
  have "{m. m < tt_size n \<and> bit m (\<sigma> i) = b \<and> tt_bit p m} =
      {m. m < tt_size n \<and> bit (permute_bits n \<sigma> m) i = b \<and> tt_bit q (permute_bits n \<sigma> m)}"
    using i p by auto
  then show ?thesis
    using card_below_bij [OF permute_bits_bij [OF r], of "\<lambda>m. bit m i = b \<and> tt_bit q m"]
    by (simp only: cof_count_def)
qed


section \<open>The phase of the variables\<close>

lemma bit_phase_word: "v < 32 \<Longrightarrow> bit (u OR push_bit v 1 :: u32) j \<longleftrightarrow> bit u j \<or> j = v"
  by (auto simp: bit_simps)

text \<open>The minterm with the variables of a phase complemented.\<close>

definition phase_flip :: "nat \<Rightarrow> u32 \<Rightarrow> nat \<Rightarrow> nat" where
  "phase_flip n u m = m XOR unat (take_bit n u)"

lemma bit_phase_flip [simp]: "bit (phase_flip n u m) i \<longleftrightarrow> (bit m i \<noteq> (i < n \<and> bit u i))"
  by (auto simp: phase_flip_def bit_xor_iff bit_unsigned_iff bit_take_bit_iff dest: bit_imp_le_length)

definition phased :: "nat \<Rightarrow> bool \<Rightarrow> words \<Rightarrow> nat \<Rightarrow> u32 \<times> nat list \<times> words \<Rightarrow> bool" where
  "phased n neg q0 k = (\<lambda>(u, st, q). length st = 32 \<and> tt_ok q n \<and>
     (\<forall>j. k \<le> j \<longrightarrow> bit u j = (j = n \<and> neg)) \<and>
     (\<forall>m<tt_size n. tt_bit q m = tt_bit q0 (phase_flip n u m)) \<and>
     (\<forall>j<n. st ! (2 * j) = cof_count q n j False \<and> st ! (2 * j + 1) = cof_count q n j True) \<and>
     (\<forall>j<k. st ! (2 * j + 1) \<le> st ! (2 * j)))"

lemma canon_phase_step:
  assumes n: "k < n" "n \<le> 16" and p: "phased n neg q0 k x"
  shows "phased n neg q0 (Suc k) (canon_phase n k x)"
proof -
  obtain u st q where x: "x = (u, st, q)" by (metis prod_cases3)
  have h: "length st = 32" "tt_ok q n" "\<And>j. k \<le> j \<Longrightarrow> bit u j = (j = n \<and> neg)"
    "\<And>m. m < tt_size n \<Longrightarrow> tt_bit q m = tt_bit q0 (phase_flip n u m)"
    "\<And>j. j < n \<Longrightarrow> st ! (2 * j) = cof_count q n j False" "\<And>j. j < n \<Longrightarrow> st ! (2 * j + 1) = cof_count q n j True"
    "\<And>j. j < k \<Longrightarrow> st ! (2 * j + 1) \<le> st ! (2 * j)"
    using p unfolding x phased_def prod.case by blast+
  show ?thesis
  proof (cases "st ! (2 * k) \<ge> st ! (2 * k + 1)")
    case True
    have "st ! (2 * j + 1) \<le> st ! (2 * j)" if "j < Suc k" for j using that h(7) True by (cases "j = k") simp_all
    then show ?thesis using True p unfolding x canon_phase_def phased_def by simp
  next
    case False
    let ?u = "u OR push_bit k 1" and ?q = "Kit_TruthChangePhase q n k"
    let ?st = "st[2 * k := st ! (2 * k + 1), 2 * k + 1 := st ! (2 * k)]"
    have eq: "canon_phase n k x = (?u, ?st, ?q)"
      using False h(1) n by (simp add: canon_phase_def x Let_def)
    have u: "bit ?u j \<longleftrightarrow> bit u j \<or> j = k" for j using n by (intro bit_phase_word) simp
    have ub: "\<not> bit u k" using h(3) [of k] n by simp
    have "tt_bit ?q m = tt_bit q0 (phase_flip n ?u m)" if m: "m < tt_size n" for m
    proof -
      have "phase_flip n u (flip_bit k m) = phase_flip n ?u m"
        by (rule bit_eqI) (use n u ub in \<open>auto simp: bit_flip_bit_iff\<close>)
      then show ?thesis
        using m h(2) n h(4) [OF flip_bit_less_size [OF n(1) m]] by (simp add: tt_bit_Kit_TruthChangePhase)
    qed
    moreover have "?st ! (2 * j) = cof_count ?q n j False \<and> ?st ! (2 * j + 1) = cof_count ?q n j True" if "j < n" for j
    proof (cases "j = k")
      case True
      then show ?thesis using n h(1) h(5,6) [OF n(1)] by (simp add: cof_count_ChangePhase [OF h(2) n(1)])
    next
      case False
      then have "2 * k + 1 \<noteq> 2 * j" "2 * k \<noteq> 2 * j + 1" by presburger+
      with False show ?thesis using h(5,6) [OF that] by (simp add: cof_count_ChangePhase [OF h(2) n(1)])
    qed
    moreover have "?st ! (2 * j + 1) \<le> ?st ! (2 * j)" if "j < Suc k" for j
    proof (cases "j = k")
      case True
      then show ?thesis using False n h(1) by simp
    next
      case False
      then have "2 * k + 1 \<noteq> 2 * j" "2 * k \<noteq> 2 * j + 1" by presburger+
      with False show ?thesis using h(7) [of j] that by simp
    qed
    moreover have "bit ?u j = (j = n \<and> neg)" if "Suc k \<le> j" for j using that u [of j] h(3) [of j] by simp
    moreover have "length ?st = 32" "tt_ok ?q n" using h(1,2) by (simp_all add: tt_ok_def)
    ultimately show ?thesis unfolding eq phased_def by blast
  qed
qed

lemma canon_phase_loop:
  assumes "n \<le> 16" "phased n neg q0 0 x"
  shows "phased n neg q0 n (for_up n (canon_phase n) x)"
  by (rule for_up_invariant [where I = "phased n neg q0"]) (use assms canon_phase_step in blast)+


section \<open>Sorting the variables\<close>

text \<open>
  What the exchanges keep, for the table \<open>T\<close>, its counts \<open>st\<close> and the phase \<open>u\<close> before them: all of them
  move with the variables, and the phase of the output stays.
\<close>

definition canon_ok :: "nat \<Rightarrow> (nat \<Rightarrow> bool) \<Rightarrow> nat list \<Rightarrow> u32 \<Rightarrow> Canon_State \<Rightarrow> bool" where
  "canon_ok n T st u s \<longleftrightarrow> n \<le> 16 \<and> length (cStore s) = 32 \<and>
     (\<exists>\<sigma>. arranged n T \<sigma> s \<and> rearranges n (cPerm s) \<sigma> \<and>
       (\<forall>i<n. cStore s ! (2 * \<sigma> i) = st ! (2 * i) \<and> cStore s ! (2 * \<sigma> i + 1) = st ! (2 * i + 1)) \<and>
       (\<forall>i<n. bit (cPhase s) (\<sigma> i) = bit u i) \<and> (\<forall>j\<ge>n. bit (cPhase s) j = bit u j))"

definition exchange_pairs :: "nat \<Rightarrow> nat list \<Rightarrow> nat list" where
  "exchange_pairs i xs =
    (let ys = xs[2 * i := xs ! (2 * (i + 1)), 2 * (i + 1) := xs ! (2 * i)]
     in ys[2 * i + 1 := ys ! (2 * (i + 1) + 1), 2 * (i + 1) + 1 := ys ! (2 * i + 1)])"

lemma exchange_pairs_nth:
  assumes "2 * i + 3 < length xs"
  shows "exchange_pairs i xs ! (2 * j) = xs ! (2 * swap_pos i j)"
    "exchange_pairs i xs ! (2 * j + 1) = xs ! (2 * swap_pos i j + 1)"
    "length (exchange_pairs i xs) = length xs"
proof -
  have ix: "2 * (i + 1) = 2 * i + 2" "2 * i + 2 + 1 = 2 * i + 3" by simp_all
  have eq: "exchange_pairs i xs = xs[2 * i := xs ! (2 * i + 2), 2 * i + 2 := xs ! (2 * i),
      2 * i + 1 := xs ! (2 * i + 3), 2 * i + 3 := xs ! (2 * i + 1)]"
    unfolding exchange_pairs_def Let_def ix by simp
  have even: "2 * i + 1 \<noteq> 2 * j" "2 * i + 3 \<noteq> 2 * j" "2 * i \<noteq> 2 * j + 1" "2 * i + 2 \<noteq> 2 * j + 1"
    "2 * i + 2 = 2 * j \<longleftrightarrow> j = Suc i" "2 * i + 3 = 2 * j + 1 \<longleftrightarrow> j = Suc i" by presburger+
  have less: "2 * i < length xs" "2 * i + 1 < length xs" "2 * i + 2 < length xs" using assms by simp_all
  have "exchange_pairs i xs ! (2 * j) = (if j = Suc i then xs ! (2 * i) else if j = i then xs ! (2 * i + 2) else xs ! (2 * j))"
    unfolding eq nth_list_update_neq [OF even(2)] nth_list_update_neq [OF even(1)]
    using less even(5) by (simp only: nth_list_update length_list_update if_True mult_cancel1) auto
  then show "exchange_pairs i xs ! (2 * j) = xs ! (2 * swap_pos i j)" by (simp add: swap_pos_def)
  have "exchange_pairs i xs ! (2 * j + 1) =
      (if j = Suc i then xs ! (2 * i + 1) else if j = i then xs ! (2 * i + 3) else xs ! (2 * j + 1))"
    unfolding eq using assms less even(3,4,6)
    by (simp only: nth_list_update length_list_update) auto
  then show "exchange_pairs i xs ! (2 * j + 1) = xs ! (2 * swap_pos i j + 1)" by (auto simp: swap_pos_def eval_nat_numeral)
  show "length (exchange_pairs i xs) = length xs" by (simp add: eq)
qed

definition exchange_bits :: "nat \<Rightarrow> u32 \<Rightarrow> u32" where
  "exchange_bits i u = (if ((u AND push_bit i 1) > 0) \<noteq> ((u AND push_bit (i + 1) 1) > 0)
     then u XOR push_bit i 1 XOR push_bit (i + 1) 1 else u)"

lemma bit_exchange_bits:
  assumes "Suc i < 32"
  shows "bit (exchange_bits i u) j \<longleftrightarrow> bit u (swap_pos i j)"
proof -
  have "((u AND push_bit i 1) > 0) = bit u i" "((u AND push_bit (i + 1) 1) > 0) = bit u (i + 1)"
    unfolding word_greater_zero_iff by (rule and_bit_nonzero)+
  moreover have "bit (u XOR push_bit i 1 XOR push_bit (i + 1) 1) j \<longleftrightarrow> (bit u j \<noteq> (j = i \<or> j = Suc i))"
    using assms by (auto simp: bit_simps)
  ultimately show ?thesis by (auto simp: exchange_bits_def swap_pos_def)
qed

lemma canon_body_exchange_eq:
  assumes "\<not> cStore s ! (2 * i) \<ge> cStore s ! (2 * (i + 1))"
  shows "canon_body n i s = swap_step n i (s\<lparr>cChange := True,
    cPerm := (cPerm s)[i := cPerm s ! (i + 1), i + 1 := cPerm s ! i],
    cStore := exchange_pairs i (cStore s), cPhase := exchange_bits i (cPhase s)\<rparr>)"
  using assms by (simp add: canon_body_def Let_def exchange_pairs_def exchange_bits_def)

lemma rearranges_exchange:
  assumes "rearranges n c \<sigma>" "Suc i < n"
  shows "rearranges n (c[i := c ! Suc i, Suc i := c ! i]) (\<lambda>j. swap_pos i (\<sigma> j))"
  using assms exchange_nth [of i c] swap_pos_less [OF assms(2)] by (auto simp: rearranges_def swap_pos_def)

lemma canon_body_exchange:
  assumes ok: "canon_ok n T st u s" and i: "Suc i < n" and less: "cStore s ! (2 * i) < cStore s ! (2 * Suc i)"
  shows "returns (canon_body n i s) (\<lambda>s'. canon_ok n T st u s' \<and> cChange s' \<and>
    (\<forall>j<n. - int (cStore s' ! (2 * j)) = - int (cStore s ! (2 * swap_pos i j))))"
proof -
  obtain \<sigma> where n: "n \<le> 16" and len: "length (cStore s) = 32" and a: "arranged n T \<sigma> s" and r: "rearranges n (cPerm s) \<sigma>"
    and st: "\<forall>i<n. cStore s ! (2 * \<sigma> i) = st ! (2 * i) \<and> cStore s ! (2 * \<sigma> i + 1) = st ! (2 * i + 1)"
    and u: "\<forall>i<n. bit (cPhase s) (\<sigma> i) = bit u i" "\<forall>j\<ge>n. bit (cPhase s) j = bit u j"
    using ok by (auto simp: canon_ok_def)
  let ?c = "(cPerm s)[i := cPerm s ! (i + 1), i + 1 := cPerm s ! i]"
  let ?s = "s\<lparr>cChange := True, cPerm := ?c, cStore := exchange_pairs i (cStore s), cPhase := exchange_bits i (cPhase s)\<rparr>"
  let ?\<tau> = "\<lambda>j. swap_pos i (\<sigma> j)"
  have long: "2 * i + 3 < length (cStore s)" using i n len by simp
  note nth = exchange_pairs_nth [OF long]
  have bit: "bit (exchange_bits i (cPhase s)) j = bit (cPhase s) (swap_pos i j)" for j
    using i n by (intro bit_exchange_bits) simp
  have c: "rearranges n ?c ?\<tau>" using rearranges_exchange [OF r i] by simp
  have "arranged n T \<sigma> ?s" using a by (simp add: arranged_def)
  note step = arranged_step [OF this i]
  have "returns (swap_step n i ?s) (\<lambda>s'. canon_ok n T st u s' \<and> cChange s' \<and>
    (\<forall>j<n. - int (cStore s' ! (2 * j)) = - int (cStore s ! (2 * swap_pos i j))))"
  proof (rule returns_mono [OF step])
    fix s' assume s': "arranged n T ?\<tau> s' \<and> Swap_State.more s' = Swap_State.more ?s"
    then have more: "cPerm s' = ?c" "cStore s' = exchange_pairs i (cStore s)"
      "cPhase s' = exchange_bits i (cPhase s)" "cChange s'" by (cases s', cases s, simp)+
    have "swap_pos i j = j" if "n \<le> j" for j using that i by (simp add: swap_pos_def)
    then have "\<forall>j\<ge>n. bit (cPhase s) (swap_pos i j) = bit u j" using u(2) by simp
    then have "canon_ok n T st u s'"
      unfolding canon_ok_def more using n len s' c st u(1)
      by (intro conjI exI [of _ ?\<tau>]) (simp_all only: nth bit swap_pos_swap_pos simp_thms)
    then show "canon_ok n T st u s' \<and> cChange s' \<and>
      (\<forall>j<n. - int (cStore s' ! (2 * j)) = - int (cStore s ! (2 * swap_pos i j)))"
      using more nth by simp
  qed
  moreover have "canon_body n i s = swap_step n i ?s"
    by (rule canon_body_exchange_eq) (use less in simp)
  ultimately show ?thesis by simp
qed

interpretation canon: exchange_sort n "\<lambda>s i. - int (cStore s ! (2 * i))" "canon_ok n T st u" cChange
  "\<lambda>s. s\<lparr>cChange := False\<rparr>" "canon_body n" "canon_loop n" for n T st u
proof unfold_locales
  show "canon_body n i s = Inr s"
    if "- int (cStore s ! (2 * i)) \<le> - int (cStore s ! (2 * Suc i))" for s i
    using that by (simp add: canon_body_def)
  show "returns (canon_body n i s) (\<lambda>s'. canon_ok n T st u s' \<and> cChange s' \<and>
      (\<forall>j<n. - int (cStore s' ! (2 * j)) = - int (cStore s ! (2 * swap_pos i j))))"
    if "canon_ok n T st u s" "Suc i < n" "- int (cStore s ! (2 * Suc i)) < - int (cStore s ! (2 * i))" for s i
    by (rule canon_body_exchange) (use that in simp_all)
  show "canon_ok n T st u (s\<lparr>cChange := False\<rparr>) \<and> \<not> cChange (s\<lparr>cChange := False\<rparr>) \<and>
      (\<lambda>i. - int (cStore (s\<lparr>cChange := False\<rparr>) ! (2 * i))) = (\<lambda>i. - int (cStore s ! (2 * i)))" if "canon_ok n T st u s" for s
    using that by (simp add: canon_ok_def arranged_def)
qed (rule canon_loop.simps)


section \<open>The semi-canonical form\<close>

lemma cof_count_total: "cof_count p n i False + cof_count p n i True = Kit_TruthCountOnes p n"
proof -
  have "{m. m < tt_size n \<and> tt_bit p m} =
      {m. m < tt_size n \<and> bit m i = False \<and> tt_bit p m} \<union> {m. m < tt_size n \<and> bit m i = True \<and> tt_bit p m}" by auto
  moreover have "card ({m. m < tt_size n \<and> bit m i = False \<and> tt_bit p m} \<union> {m. m < tt_size n \<and> bit m i = True \<and> tt_bit p m})
      = cof_count p n i False + cof_count p n i True"
    unfolding cof_count_def by (rule card_Un_disjoint) auto
  ultimately show ?thesis by (simp only: Kit_TruthCountOnes_card)
qed

lemma CountOnes_bij:
  assumes "bij_betw f {..<tt_size n} {..<tt_size n}" "\<And>m. m < tt_size n \<Longrightarrow> tt_bit p m = tt_bit q (f m)"
  shows "Kit_TruthCountOnes p n = Kit_TruthCountOnes q n"
proof -
  have "{m. m < tt_size n \<and> tt_bit p m} = {m. m < tt_size n \<and> tt_bit q (f m)}" using assms(2) by auto
  then show ?thesis using card_below_bij [OF assms(1), of "tt_bit q"] by (simp only: Kit_TruthCountOnes_card)
qed

lemma phase_flip_bij: "bij_betw (phase_flip n u) {..<tt_size n} {..<tt_size n}"
proof (rule bij_below)
  fix m :: nat assume "m < tt_size n"
  then show "phase_flip n u m < tt_size n" unfolding tt_size_exp less_exp_bits by auto
next
  fix m m' assume eq: "phase_flip n u m = phase_flip n u m'"
  have "phase_flip n u (phase_flip n u k) = k" for k by (rule bit_eqI) auto
  then show "m = m'" using eq by metis
qed

lemma CountOnes_Not:
  assumes "tt_ok p n"
  shows "Kit_TruthCountOnes (Kit_TruthNot p p n) n + Kit_TruthCountOnes p n = tt_size n"
proof -
  have "{m. m < tt_size n \<and> tt_bit (Kit_TruthNot p p n) m} = {..<tt_size n} - {m. m < tt_size n \<and> tt_bit p m}"
    using assms by (auto simp: tt_bit_kit_ops)
  moreover have "card {m. m < tt_size n \<and> tt_bit p m} \<le> card {..<tt_size n}" by (rule card_mono) auto
  ultimately show ?thesis
    by (simp add: Kit_TruthCountOnes_card card_Diff_subset subset_eq)
qed

lemma canon_input:
  assumes "n \<le> 16" "tt_ok p n"
  defines "neg \<equiv> Kit_TruthCountOnes p n > Kit_TruthWordNum n * 16"
  defines "q \<equiv> if neg then Kit_TruthNot p p n else p"
  shows "phased n neg q 0 (if neg then 0 OR push_bit n 1 else 0, Kit_TruthCountOnesInCofs q n (replicate 32 0), q)"
    and "tt_ok q n" and "\<And>m. m < tt_size n \<Longrightarrow> tt_bit q m = (tt_bit p m \<noteq> neg)" and "2 * Kit_TruthCountOnes q n \<le> tt_size n"
proof -
  show ok: "tt_ok q n" using assms(2) by (simp add: q_def)
  show "tt_bit q m = (tt_bit p m \<noteq> neg)" if "m < tt_size n" for m
    using that assms(2) by (simp add: q_def tt_bit_kit_ops)
  show "2 * Kit_TruthCountOnes q n \<le> tt_size n"
    using CountOnes_Not [OF assms(2)] by (auto simp: q_def neg_def tt_size_def)
  let ?u = "if neg then 0 OR push_bit n 1 else 0 :: u32"
  have u: "bit ?u j = (j = n \<and> neg)" for j using bit_phase_word [of n 0 j] assms(1) by simp
  then have "phase_flip n ?u m = m" for m by (intro bit_eqI) (simp only: bit_phase_flip, auto)
  moreover have "length (Kit_TruthCountOnesInCofs q n (replicate 32 0)) = 32 \<and>
      (\<forall>j<2 * n. Kit_TruthCountOnesInCofs q n (replicate 32 0) ! j = cof_count q n (j div 2) (odd j))"
    using Kit_TruthCountOnesInCofs_val [of n "replicate 32 0" q] assms(1) by simp
  ultimately show "phased n neg q 0 (?u, Kit_TruthCountOnesInCofs q n (replicate 32 0), q)"
    using u ok by (simp add: phased_def)
qed

lemma for_up_identity: "length c = n \<Longrightarrow> for_up n (\<lambda>i p. p[i := i]) c = [0..<n]"
  by (rule nth_equalityI) simp_all

lemma canon_start:
  assumes "n \<le> 16" "tt_ok pAux n" "phased n neg q0 n (u, st, q)"
  shows "canon_ok n (tt_bit q) st u \<lparr>sOut = pAux, sIn = q, sCounter = 0, cPerm = [0..<n], cStore = st, cPhase = u, cChange = False\<rparr>"
proof -
  have "length st = 32" "tt_ok q n" using assms(3) by (simp_all add: phased_def)
  then show ?thesis
    unfolding canon_ok_def using assms(1,2)
    by (intro conjI exI [of _ "\<lambda>i. i"] arranged_start) (simp_all add: rearranges_def)
qed

lemma Kit_TruthSemiCanonicize_val:
  assumes n: "n \<le> 16" and ok: "tt_ok pInOut n" "tt_ok pAux n" and len: "length c0 = n"
  obtains u u0 R A c \<sigma> where "Kit_TruthSemiCanonicize pInOut pAux n c0 = Some (Inr (u, R, A, c))" "rearranges n c \<sigma>"
    "\<And>i. i < n \<Longrightarrow> bit u (\<sigma> i) = bit u0 i" 
    "\<And>m. m < tt_size n \<Longrightarrow> tt_bit R m = (tt_bit pInOut (phase_flip n u0 (permute_bits n \<sigma> m)) \<noteq> bit u n)"
    "2 * Kit_TruthCountOnes R n \<le> tt_size n"
    "\<And>i. i < n \<Longrightarrow> cof_count R n i True \<le> cof_count R n i False"
    "\<And>i. Suc i < n \<Longrightarrow> cof_count R n (Suc i) False \<le> cof_count R n i False"
proof -
  define neg where "neg \<longleftrightarrow> Kit_TruthCountOnes pInOut n > Kit_TruthWordNum n * 16"
  define q0 where "q0 = (if neg then Kit_TruthNot pInOut pInOut n else pInOut)"
  note input = canon_input [OF n ok(1), folded neg_def, folded q0_def]
  obtain u0 st q where loop: "for_up n (canon_phase n)
      (if neg then 0 OR push_bit n 1 else 0, Kit_TruthCountOnesInCofs q0 n (replicate 32 0), q0) = (u0, st, q)"
    by (metis prod_cases3)
  have ph: "phased n neg q0 n (u0, st, q)" using canon_phase_loop [OF n input(1)] loop by simp
  then have h: "tt_ok q n" "\<And>j. n \<le> j \<Longrightarrow> bit u0 j = (j = n \<and> neg)"
    "\<And>m. m < tt_size n \<Longrightarrow> tt_bit q m = tt_bit q0 (phase_flip n u0 m)"
    "\<And>j. j < n \<Longrightarrow> st ! (2 * j) = cof_count q n j False" "\<And>j. j < n \<Longrightarrow> st ! (2 * j + 1) = cof_count q n j True"
    "\<And>j. j < n \<Longrightarrow> st ! (2 * j + 1) \<le> st ! (2 * j)"
    unfolding phased_def prod.case by blast+
  let ?s = "\<lparr>sOut = pAux, sIn = q, sCounter = 0, cPerm = [0..<n], cStore = st, cPhase = u0, cChange = False\<rparr>"
  obtain s' where s': "canon_loop n ?s = Some (Inr s')" "canon_ok n (tt_bit q) st u0 s'"
      "\<forall>j. Suc j < n \<longrightarrow> - int (cStore s' ! (2 * j)) \<le> - int (cStore s' ! (2 * Suc j))"
    using canon.sorts [OF canon_start [OF n ok(2) ph]] by blast
  then obtain \<sigma> where a: "arranged n (tt_bit q) \<sigma> s'" and r: "rearranges n (cPerm s') \<sigma>"
    and st: "\<forall>i<n. cStore s' ! (2 * \<sigma> i) = st ! (2 * i) \<and> cStore s' ! (2 * \<sigma> i + 1) = st ! (2 * i + 1)"
    and u: "\<forall>i<n. bit (cPhase s') (\<sigma> i) = bit u0 i" "\<forall>j\<ge>n. bit (cPhase s') j = bit u0 j"
    unfolding canon_ok_def by blast
  obtain A R where fin: "swap_finish n True s' = (A, R)" by force
  have R: "tt_bit R m = tt_bit q (permute_bits n \<sigma> m)" if "m < tt_size n" for m
    using swap_finish_val(3) [OF a that, of True] fin by simp
  have res: "Kit_TruthSemiCanonicize pInOut pAux n c0 = Some (Inr (cPhase s', R, A, cPerm s'))"
    unfolding Kit_TruthSemiCanonicize_def Let_def for_up_identity [OF len] neg_def [symmetric]
    using n loop s'(1) fin by (simp add: q0_def split del: if_split) (cases neg; simp)
  have cof: "cof_count R n j b = (if b then cStore s' ! (2 * j + 1) else cStore s' ! (2 * j))" if j: "j < n" for j b
  proof -
    obtain i where i: "i < n" "\<sigma> i = j" using rearranges_inv [OF r j] by blast
    have "cof_count R n (\<sigma> i) b = cof_count q n i b" by (rule cof_count_arranged [OF r R i(1)])
    moreover have "cStore s' ! (2 * \<sigma> i) = cof_count q n i False" "cStore s' ! (2 * \<sigma> i + 1) = cof_count q n i True"
      using st h(4,5) i(1) by simp_all
    ultimately show ?thesis using i(2) by (cases b) simp_all
  qed
  have perm: "bij_betw (permute_bits n \<sigma>) {..<tt_size n} {..<tt_size n}" by (rule permute_bits_bij [OF r])
  have "tt_bit R m = (tt_bit pInOut (phase_flip n u0 (permute_bits n \<sigma> m)) \<noteq> bit (cPhase s') n)" if "m < tt_size n" for m
  proof -
    have "phase_flip n u0 (permute_bits n \<sigma> m) < tt_size n"
      using phase_flip_bij [of n u0] permute_bits_less [of n \<sigma> m] by (auto simp: bij_betw_def)
    then show ?thesis
      using R [OF that] h(3) [OF permute_bits_less] input(3) u(2) h(2) [of n] by simp
  qed
  moreover have "2 * Kit_TruthCountOnes R n \<le> tt_size n"
    using input(4) CountOnes_bij [OF perm R] CountOnes_bij [OF phase_flip_bij h(3)] by simp
  moreover have "cof_count R n i True \<le> cof_count R n i False" if "i < n" for i
  proof -
    have "i = \<sigma> (cPerm s' ! i)" "cPerm s' ! i < n" using rearranges_inv [OF r that] by simp_all
    then show ?thesis using cof [OF that] st h(6) by (metis (full_types))
  qed
  moreover have "cof_count R n (Suc i) False \<le> cof_count R n i False" if "Suc i < n" for i
    using that s'(3) cof [of i False] cof [of "Suc i" False] by simp
  ultimately show thesis using that [OF res r _ _ ] u(1) by blast
qed

text \<open>
  C22. For up to 16 variables \<open>Kit_TruthSemiCanonicize\<close> returns a phase \<open>u\<close>, a table \<open>R\<close> and a permutation
  \<open>c\<close> of the variables such that \<open>R\<close> is the input up to the phase of the output (bit \<open>n\<close> of \<open>u\<close>), the phases
  of the variables (the bits below) and the permutation: position \<open>i\<close> of \<open>R\<close> is variable \<open>c ! i\<close>,
  complemented if bit \<open>i\<close> of \<open>u\<close> is set.
\<close>

theorem Kit_TruthSemiCanonicize_correct:
  assumes "n \<le> 16" "tt_ok pInOut n" "tt_ok pAux n" "length c0 = n"
  shows "\<exists>u R A c. Kit_TruthSemiCanonicize pInOut pAux n c0 = Some (Inr (u, R, A, c)) \<and> length c = n \<and> set c = {..<n} \<and>
    (\<forall>m m'. m < tt_size n \<and> m' < tt_size n \<and> (\<forall>i<n. bit m' (c ! i) = (bit m i \<noteq> bit u i)) \<and>
      (\<forall>i\<ge>n. bit m' i = bit m i) \<longrightarrow> tt_bit R m = (tt_bit pInOut m' \<noteq> bit u n))"
proof -
  obtain u u0 R A c \<sigma> where v: "Kit_TruthSemiCanonicize pInOut pAux n c0 = Some (Inr (u, R, A, c))" "rearranges n c \<sigma>"
    "\<And>i. i < n \<Longrightarrow> bit u (\<sigma> i) = bit u0 i"
    "\<And>m. m < tt_size n \<Longrightarrow> tt_bit R m = (tt_bit pInOut (phase_flip n u0 (permute_bits n \<sigma> m)) \<noteq> bit u n)"
    by (rule Kit_TruthSemiCanonicize_val [OF assms]) (rule that; assumption)
  have "tt_bit R m = (tt_bit pInOut m' \<noteq> bit u n)"
    if m: "m < tt_size n" "m' < tt_size n" and bits: "\<forall>i<n. bit m' (c ! i) = (bit m i \<noteq> bit u i)" "\<forall>i\<ge>n. bit m' i = bit m i" for m m'
  proof -
    have "phase_flip n u0 (permute_bits n \<sigma> m) = m'"
    proof (rule bit_eqI)
      fix i
      show "bit (phase_flip n u0 (permute_bits n \<sigma> m)) i = bit m' i"
      proof (cases "i < n")
        case True
        then have "\<sigma> i < n" "c ! \<sigma> i = i" using v(2) by (simp_all add: rearranges_def)
        then have "bit m' i = (bit m (\<sigma> i) \<noteq> bit u (\<sigma> i))" using bits(1) by metis
        moreover have "i < max 5 n" using True by simp
        ultimately show ?thesis using True v(3) [OF True] by (simp del: max_less_iff_conj less_max_iff_disj)
      next
        case False
        then have "\<sigma> i = i" using v(2) by (simp add: rearranges_def)
        moreover have "i < max 5 n" if "bit m i" using m(1) that unfolding tt_size_exp less_exp_bits by blast
        ultimately show ?thesis using False bits(2) by auto
      qed
    qed
    then show ?thesis using v(4) [OF m(1)] by simp
  qed
  then show ?thesis using v(1) rearranges_set [OF v(2)] v(2) by (auto simp: rearranges_def)
qed

text \<open>
  C23. The table that \<open>Kit_TruthSemiCanonicize\<close> leaves is in normal form: it has no more ones than zeros,
  no negative cofactor has fewer minterms than the positive one, and the minterm counts of the negative
  cofactors decrease from variable to variable.
\<close>

theorem Kit_TruthSemiCanonicize_normal:
  assumes "n \<le> 16" "tt_ok pInOut n" "tt_ok pAux n" "length c0 = n"
  shows "\<exists>u R A c. Kit_TruthSemiCanonicize pInOut pAux n c0 = Some (Inr (u, R, A, c)) \<and>
    2 * Kit_TruthCountOnes R n \<le> tt_size n \<and>
    (\<forall>i<n. cof_count R n i True \<le> cof_count R n i False) \<and>
    (\<forall>i<n - 1. cof_count R n (Suc i) False \<le> cof_count R n i False)"
proof (rule Kit_TruthSemiCanonicize_val [OF assms])
  fix u u0 R A c \<sigma>
  assume "Kit_TruthSemiCanonicize pInOut pAux n c0 = Some (Inr (u, R, A, c))" "2 * Kit_TruthCountOnes R n \<le> tt_size n"
    "\<And>i. i < n \<Longrightarrow> cof_count R n i True \<le> cof_count R n i False"
    "\<And>i. Suc i < n \<Longrightarrow> cof_count R n (Suc i) False \<le> cof_count R n i False"
  moreover from this(4) have "\<forall>i<n - 1. cof_count R n (Suc i) False \<le> cof_count R n i False"
    by (simp add: less_diff_conv)
  ultimately show ?thesis by blast
qed

theorem Kit_TruthSemiCanonicize_correct_witness:
  "\<exists>u R A c. Kit_TruthSemiCanonicize [0xACACACAC] [0] 3 [0, 0, 0] = Some (Inr (u, R, A, c)) \<and> set c = {0, 1, 2}"
proof -
  have "{..<3 :: nat} = {0, 1, 2}" by auto
  then show ?thesis
    using Kit_TruthSemiCanonicize_correct [of 3 "[0xACACACAC]" "[0]" "[0, 0, 0]"]
    by (auto simp: tt_ok_def Kit_TruthWordNum_def)
qed

theorem Kit_TruthSemiCanonicize_normal_witness:
  "\<exists>u R A c. Kit_TruthSemiCanonicize [0x17171717] [0] 3 [0, 0, 0] = Some (Inr (u, R, A, c)) \<and>
    2 * Kit_TruthCountOnes R 3 \<le> 32"
  using Kit_TruthSemiCanonicize_normal [of 3 "[0x17171717]" "[0]" "[0, 0, 0]"]
  by (auto simp: tt_ok_def Kit_TruthWordNum_def tt_size_def)

end
