(* ===== verification/Hop_Base.thy ===== *)
theory Hop_Base
  imports Kit_Prelude
begin

text \<open>
  The objects of the AIG package (\<open>src/abc-master/src/aig/hop/hop.h\<close>, \<open>hopMan.c\<close>): records in memory
  that refer to each other by pointers, the lowest bit of a pointer being a complement mark.

  Pointers are natural numbers: \<open>0\<close> is the null pointer, \<open>2 * i + 2\<close> is the address of the object at
  index \<open>i\<close> of the memory, and the next odd number is that address with the complement mark. Fields that
  share their place in a union of the C structure are one field of the record (\<open>pNext\<close> holds the number of
  a primary input too). The pages and the free list of \<open>hopMem.c\<close> are not modelled: a new object has a
  new address. The optional array \<open>vObjs\<close> is absent, as \<open>Hop_ManStart\<close> leaves it.
\<close>

section \<open>Objects and managers\<close>

datatype Hop_Type = AIG_NONE | AIG_CONST1 | AIG_PI | AIG_PO | AIG_AND | AIG_EXOR | AIG_VOID

record Hop_Obj =
  pData :: nat
  pNext :: nat
  pFanin0 :: nat
  pFanin1 :: nat
  Type_o :: Hop_Type
  fPhase :: bool
  fMarkA :: bool
  fMarkB :: bool
  nRefs :: "26 word"
  Id_o :: nat

record Hop_Man =
  Objs :: "Hop_Obj list"
  vPis :: "nat list"
  vPos :: "nat list"
  pConst1 :: nat
  Ghost :: Hop_Obj
  nObjs :: "Hop_Type \<Rightarrow> nat"
  nCreated :: nat
  nDeleted :: nat
  pTable :: "nat list"
  nTableSize :: nat
  fRefCount :: bool
  fCatchExor :: bool
  nTravIds :: nat

text \<open>An object of zeros, as \<open>memset\<close> leaves it.\<close>

definition zero_obj :: Hop_Obj where
  "zero_obj = \<lparr>pData = 0, pNext = 0, pFanin0 = 0, pFanin1 = 0, Type_o = AIG_NONE, fPhase = False,
     fMarkA = False, fMarkB = False, nRefs = 0, Id_o = 0\<rparr>"

section \<open>Pointers\<close>

definition Hop_Regular :: "nat \<Rightarrow> nat" where "Hop_Regular p = unset_bit 0 p"
definition Hop_Not :: "nat \<Rightarrow> nat" where "Hop_Not p = p XOR 1"
definition Hop_NotCond :: "nat \<Rightarrow> bool \<Rightarrow> nat" where "Hop_NotCond p c = p XOR of_bool c"
definition Hop_IsComplement :: "nat \<Rightarrow> bool" where "Hop_IsComplement p \<longleftrightarrow> p AND 1 \<noteq> 0"

text \<open>The index of the object at an address, reading and writing it.\<close>

definition addr :: "nat \<Rightarrow> nat" where "addr i = 2 * i + 2"
definition index :: "nat \<Rightarrow> nat" where "index p = p div 2 - 1"

definition deref :: "Hop_Man \<Rightarrow> nat \<Rightarrow> Hop_Obj" where
  "deref m p = Objs m ! index p"

definition update :: "nat \<Rightarrow> (Hop_Obj \<Rightarrow> Hop_Obj) \<Rightarrow> Hop_Man \<Rightarrow> Hop_Man" where
  "update p f m = m\<lparr>Objs := (Objs m)[index p := f (deref m p)]\<rparr>"

section \<open>Reading objects and managers\<close>

definition Hop_ManConst0 :: "Hop_Man \<Rightarrow> nat" where "Hop_ManConst0 p = Hop_Not (pConst1 p)"
definition Hop_ManConst1 :: "Hop_Man \<Rightarrow> nat" where "Hop_ManConst1 p = pConst1 p"
definition Hop_ManPi :: "Hop_Man \<Rightarrow> nat \<Rightarrow> nat" where "Hop_ManPi p i = vPis p ! i"
definition Hop_ManPo :: "Hop_Man \<Rightarrow> nat \<Rightarrow> nat" where "Hop_ManPo p i = vPos p ! i"
definition Hop_ManPiNum :: "Hop_Man \<Rightarrow> nat" where "Hop_ManPiNum p = nObjs p AIG_PI"
definition Hop_ManPoNum :: "Hop_Man \<Rightarrow> nat" where "Hop_ManPoNum p = nObjs p AIG_PO"
definition Hop_ManAndNum :: "Hop_Man \<Rightarrow> nat" where "Hop_ManAndNum p = nObjs p AIG_AND"
definition Hop_ManExorNum :: "Hop_Man \<Rightarrow> nat" where "Hop_ManExorNum p = nObjs p AIG_EXOR"
definition Hop_ManNodeNum :: "Hop_Man \<Rightarrow> nat" where "Hop_ManNodeNum p = nObjs p AIG_AND + nObjs p AIG_EXOR"
definition Hop_ManObjNum :: "Hop_Man \<Rightarrow> nat" where "Hop_ManObjNum p = nCreated p - nDeleted p"

definition Hop_ObjIsNone :: "Hop_Obj \<Rightarrow> bool" where "Hop_ObjIsNone pObj \<longleftrightarrow> Type_o pObj = AIG_NONE"
definition Hop_ObjIsConst1 :: "Hop_Obj \<Rightarrow> bool" where "Hop_ObjIsConst1 pObj \<longleftrightarrow> Type_o pObj = AIG_CONST1"
definition Hop_ObjIsPi :: "Hop_Obj \<Rightarrow> bool" where "Hop_ObjIsPi pObj \<longleftrightarrow> Type_o pObj = AIG_PI"
definition Hop_ObjIsPo :: "Hop_Obj \<Rightarrow> bool" where "Hop_ObjIsPo pObj \<longleftrightarrow> Type_o pObj = AIG_PO"
definition Hop_ObjIsAnd :: "Hop_Obj \<Rightarrow> bool" where "Hop_ObjIsAnd pObj \<longleftrightarrow> Type_o pObj = AIG_AND"
definition Hop_ObjIsExor :: "Hop_Obj \<Rightarrow> bool" where "Hop_ObjIsExor pObj \<longleftrightarrow> Type_o pObj = AIG_EXOR"
definition Hop_ObjIsNode :: "Hop_Obj \<Rightarrow> bool" where "Hop_ObjIsNode pObj \<longleftrightarrow> Type_o pObj = AIG_AND \<or> Type_o pObj = AIG_EXOR"
definition Hop_ObjIsTerm :: "Hop_Obj \<Rightarrow> bool" where
  "Hop_ObjIsTerm pObj \<longleftrightarrow> Type_o pObj = AIG_PI \<or> Type_o pObj = AIG_PO \<or> Type_o pObj = AIG_CONST1"

definition Hop_ObjFaninC0 :: "Hop_Obj \<Rightarrow> bool" where "Hop_ObjFaninC0 pObj = Hop_IsComplement (pFanin0 pObj)"
definition Hop_ObjFaninC1 :: "Hop_Obj \<Rightarrow> bool" where "Hop_ObjFaninC1 pObj = Hop_IsComplement (pFanin1 pObj)"
definition Hop_ObjFanin0 :: "Hop_Obj \<Rightarrow> nat" where "Hop_ObjFanin0 pObj = Hop_Regular (pFanin0 pObj)"
definition Hop_ObjFanin1 :: "Hop_Obj \<Rightarrow> nat" where "Hop_ObjFanin1 pObj = Hop_Regular (pFanin1 pObj)"
definition Hop_ObjChild0 :: "Hop_Obj \<Rightarrow> nat" where "Hop_ObjChild0 pObj = pFanin0 pObj"
definition Hop_ObjChild1 :: "Hop_Obj \<Rightarrow> nat" where "Hop_ObjChild1 pObj = pFanin1 pObj"

definition Hop_ObjLevelNew :: "Hop_Man \<Rightarrow> Hop_Obj \<Rightarrow> nat" where
  "Hop_ObjLevelNew m pObj = 1 + of_bool (Hop_ObjIsExor pObj)
     + max (unat (nRefs (deref m (Hop_ObjFanin0 pObj)))) (unat (nRefs (deref m (Hop_ObjFanin1 pObj))))"

definition Hop_ObjPhaseCompl :: "Hop_Man \<Rightarrow> nat \<Rightarrow> bool" where
  "Hop_ObjPhaseCompl m p = (if Hop_IsComplement p then \<not> fPhase (deref m (Hop_Regular p)) else fPhase (deref m p))"

section \<open>Writing objects\<close>

definition Hop_ObjRef :: "nat \<Rightarrow> Hop_Man \<Rightarrow> Hop_Man" where
  "Hop_ObjRef p = update p (\<lambda>pObj. pObj\<lparr>nRefs := nRefs pObj + 1\<rparr>)"

definition Hop_ObjDeref :: "nat \<Rightarrow> Hop_Man \<Rightarrow> Hop_Man res" where
  "Hop_ObjDeref p m = (if \<not> nRefs (deref m p) > 0 then Inl AssertFailed
     else Inr (update p (\<lambda>pObj. pObj\<lparr>nRefs := nRefs pObj - 1\<rparr>) m))"

definition Hop_ManFetchMemory :: "Hop_Man \<Rightarrow> nat \<times> Hop_Man" where
  "Hop_ManFetchMemory p =
    (addr (length (Objs p)),
     p\<lparr>Objs := Objs p @ [zero_obj\<lparr>Id_o := nCreated p\<rparr>], nCreated := nCreated p + 1\<rparr>)"

definition Hop_ManRecycleMemory :: "nat \<Rightarrow> Hop_Man \<Rightarrow> Hop_Man" where
  "Hop_ManRecycleMemory pEntry = update pEntry (\<lambda>pObj. pObj\<lparr>Type_o := AIG_NONE\<rparr>)"

definition Hop_ObjCreateGhost :: "Hop_Man \<Rightarrow> nat \<Rightarrow> nat \<Rightarrow> Hop_Type \<Rightarrow> Hop_Man res" where
  "Hop_ObjCreateGhost p p0 p1 Type =
    (if \<not> (Type \<noteq> AIG_AND \<or> \<not> Hop_ObjIsConst1 (deref p (Hop_Regular p0))) then Inl AssertFailed
     else if \<not> (p1 = 0 \<or> \<not> Hop_ObjIsConst1 (deref p (Hop_Regular p1))) then Inl AssertFailed
     else if \<not> (Type = AIG_PI \<or> Hop_Regular p0 \<noteq> Hop_Regular p1) then Inl AssertFailed
     else
       let pGhost = (Ghost p)\<lparr>Type_o := Type\<rparr>;
           pGhost = (if Id_o (deref p (Hop_Regular p0)) < Id_o (deref p (Hop_Regular p1))
             then pGhost\<lparr>pFanin0 := p0, pFanin1 := p1\<rparr>
             else pGhost\<lparr>pFanin0 := p1, pFanin1 := p0\<rparr>)
       in Inr (p\<lparr>Ghost := pGhost\<rparr>))"

definition Hop_ManStart :: Hop_Man where
  "Hop_ManStart =
    (let p = \<lparr>Objs = [], vPis = [], vPos = [], pConst1 = 0, Ghost = zero_obj, nObjs = (\<lambda>_. 0), nCreated = 0,
           nDeleted = 0, pTable = [], nTableSize = 0, fRefCount = True, fCatchExor = False, nTravIds = 1\<rparr>;
         (pConst, p) = Hop_ManFetchMemory p;
         p = p\<lparr>pConst1 := pConst\<rparr>;
         p = update (pConst1 p) (\<lambda>pObj. pObj\<lparr>Type_o := AIG_CONST1\<rparr>) p;
         p = update (pConst1 p) (\<lambda>pObj. pObj\<lparr>fPhase := True\<rparr>) p;
         p = p\<lparr>nCreated := 1\<rparr>;
         p = p\<lparr>nTableSize := 10007\<rparr>
     in p\<lparr>pTable := replicate 10007 0\<rparr>)"

section \<open>Facts on pointers\<close>

lemma Hop_Not_arith: "Hop_Not p = (if even p then p + 1 else p - 1)"
  by (simp add: Hop_Not_def xor_Suc_0_eq)

lemma Hop_Regular_arith: "Hop_Regular p = 2 * (p div 2)"
  by (simp add: Hop_Regular_def unset_bit_0)

lemma Hop_IsComplement_odd: "Hop_IsComplement p \<longleftrightarrow> odd p"
  by (simp add: Hop_IsComplement_def and_one_eq odd_iff_mod_2_eq_one)

end
