(* ===== verification/Hop_Table.thy ===== *)
theory Hop_Table
  imports Hop_Base
begin

text \<open>
  The structural hash table of the AIG package (\<open>src/abc-master/src/aig/hop/hopTable.c\<close>) and the prime
  numbers used for its size (\<open>Abc_PrimeCudd\<close> in \<open>src/abc-master/src/misc/util/abc_global.h\<close>).

  A bucket is a list of objects linked by their field \<open>pNext\<close>. The walks along a list have as fuel the
  number of objects and one more; \<open>table_rep\<close> says that every list ends and holds exactly the objects
  of a set that have its key, and then the fuel is enough.
\<close>

section \<open>Prime numbers\<close>

function prime_test :: "nat \<Rightarrow> nat \<Rightarrow> bool" where
  "prime_test p i = (if i * i \<le> p then (if p mod i = 0 then False else prime_test p (i + 2)) else True)"
  by pat_completeness auto
termination
proof (relation "measure (\<lambda>(p, i). Suc p - i)")
  fix p i :: nat assume "i * i \<le> p" "p mod i \<noteq> 0"
  moreover have "i \<le> i * i" by simp
  ultimately have "i \<le> p" by linarith
  then show "((p, i + 2), (p, i)) \<in> measure (\<lambda>(p, i). Suc p - i)" by simp
qed simp

declare prime_test.simps [simp del]

lemma prime_test_iff: "0 < i \<Longrightarrow> prime_test p i \<longleftrightarrow> (\<forall>k. (i + 2 * k) * (i + 2 * k) \<le> p \<longrightarrow> \<not> (i + 2 * k) dvd p)"
proof (induction p i rule: prime_test.induct)
  case (1 p i)
  have split: "(\<forall>k. Q (i + 2 * k)) \<longleftrightarrow> Q i \<and> (\<forall>k. Q (i + 2 + 2 * k))" for Q :: "nat \<Rightarrow> bool"
  proof
    assume all: "\<forall>k. Q (i + 2 * k)"
    have "Q (i + 2 + 2 * k)" for k using all [rule_format, of "Suc k"] by simp
    then show "Q i \<and> (\<forall>k. Q (i + 2 + 2 * k))" using all [rule_format, of 0] by simp
  next
    assume Q: "Q i \<and> (\<forall>k. Q (i + 2 + 2 * k))"
    show "\<forall>k. Q (i + 2 * k)"
    proof
      fix k show "Q (i + 2 * k)" using Q by (cases k) (auto simp: algebra_simps)
    qed
  qed
  show ?case
  proof (cases "i * i \<le> p")
    case True
    show ?thesis
    proof (cases "p mod i = 0")
      case True
      then have "i dvd p" by presburger
      then have "\<not> (\<forall>k. (i + 2 * k) * (i + 2 * k) \<le> p \<longrightarrow> \<not> (i + 2 * k) dvd p)"
        using \<open>i * i \<le> p\<close> by (metis add_0_right mult_0_right)
      then show ?thesis using \<open>i * i \<le> p\<close> True by (simp add: prime_test.simps [of p i])
    next
      case False
      have "prime_test p i = prime_test p (i + 2)"
        using \<open>i * i \<le> p\<close> False by (simp add: prime_test.simps [of p i])
      also have "\<dots> \<longleftrightarrow> (\<forall>k. (i + 2 + 2 * k) * (i + 2 + 2 * k) \<le> p \<longrightarrow> \<not> (i + 2 + 2 * k) dvd p)"
        using 1 True False by simp
      also have "\<dots> \<longleftrightarrow> (\<forall>k. (i + 2 * k) * (i + 2 * k) \<le> p \<longrightarrow> \<not> (i + 2 * k) dvd p)"
        using split [of "\<lambda>d. d * d \<le> p \<longrightarrow> \<not> d dvd p"] False by (simp add: mod_eq_0_iff_dvd)
      finally show ?thesis .
    qed
  next
    case False
    have "i * i \<le> (i + 2 * k) * (i + 2 * k)" for k by (rule mult_le_mono) simp_all
    then have "\<not> (i + 2 * k) * (i + 2 * k) \<le> p" for k using False by (meson le_trans)
    then show ?thesis using False by (simp add: prime_test.simps [of p i])
  qed
qed

text \<open>The numbers the search stops at: 1 and the odd primes.\<close>

definition odd_prime :: "nat \<Rightarrow> bool" where
  "odd_prime p \<longleftrightarrow> odd p \<and> (\<forall>d. d dvd p \<longrightarrow> d = 1 \<or> d = p)"

lemma prime_test_odd: "odd p \<Longrightarrow> prime_test p 3 \<longleftrightarrow> odd_prime p"
proof
  assume p: "odd p" and "odd_prime p"
  moreover have "\<not> (3 + 2 * k) dvd p" if sq: "(3 + 2 * k) * (3 + 2 * k) \<le> p" and all: "\<forall>d. d dvd p \<longrightarrow> d = 1 \<or> d = p" for k
  proof
    assume "(3 + 2 * k) dvd p"
    then have "3 + 2 * k = p" using all by fastforce
    then have "p * p \<le> p" "3 \<le> p" using sq by auto
    then show False by (metis mult_le_cancel2 nat_mult_1 not_numeral_le_zero numeral_le_one_iff order.trans semiring_norm(70) zero_less_iff_neq_zero)
  qed
  ultimately show "prime_test p 3" by (simp add: prime_test_iff odd_prime_def)
next
  assume p: "odd p" and test: "prime_test p 3"
  have no: "\<not> d dvd p" if d: "odd d" "3 \<le> d" "d * d \<le> p" for d
  proof -
    obtain k where "d = 3 + 2 * k" using d by (metis add_diff_inverse_nat dvd_diffD1 even_numeral linorder_not_less odd_add odd_numeral oddE evenE)
    then show ?thesis using test d(3) by (simp add: prime_test_iff)
  qed
  have "d = 1 \<or> d = p" if "d dvd p" for d
  proof (rule ccontr)
    assume n: "\<not> (d = 1 \<or> d = p)"
    obtain e where e: "p = d * e" using \<open>d dvd p\<close> by blast
    have odd: "odd d" "odd e" using p e by auto
    then have "3 \<le> d" using n by (cases d rule: nat.exhaust) (auto simp: Suc_le_eq numeral_3_eq_3 elim!: oddE)
    moreover have "3 \<le> e"
    proof -
      have "e \<noteq> 1" using e n by auto
      then show ?thesis using odd(2) by (auto elim!: oddE)
    qed
    ultimately show False
      using no [OF odd(1)] no [OF odd(2)] e by (metis dvd_triv_left dvd_triv_right mult.commute mult_le_mono1 nat_le_linear)
  qed
  then show "odd_prime p" using p by (simp add: odd_prime_def)
qed

text \<open>There is always a larger one: a divisor of \<open>n! + 1\<close>.\<close>

lemma larger_odd_prime: "\<exists>q \<ge> n. odd_prime q"
proof -
  define F where "F = (fact (n + 2) :: nat)"
  define q where "q = (LEAST d. d dvd F + 1 \<and> d \<noteq> 1)"
  have "F + 1 dvd F + 1 \<and> F + 1 \<noteq> 1" by (simp add: F_def)
  then have q: "q dvd F + 1 \<and> q \<noteq> 1" unfolding q_def by (rule LeastI)
  have least: "d = 1" if "d dvd F + 1" "d < q" for d using not_less_Least that unfolding q_def by blast
  have big: "n + 2 < q"
  proof (rule ccontr)
    assume "\<not> n + 2 < q"
    moreover have "0 < q" using q by (cases q) auto
    ultimately have "q dvd F" unfolding F_def by (intro dvd_fact) simp_all
    then have "q dvd 1" using q dvd_add_right_iff [of q F 1] by blast
    then show False using q by simp
  qed
  have prime: "d = 1 \<or> d = q" if "d dvd q" for d
  proof (cases "d = q")
    case False
    have "d \<le> q" using that big by (intro dvd_imp_le) simp_all
    then have "d < q" using False by simp
    then show ?thesis using least that q dvd_trans by blast
  qed simp
  moreover have "odd q"
  proof
    assume "even q"
    then have "2 = q" using prime [of 2] by simp
    then show False using big by simp
  qed
  ultimately show ?thesis using big by (intro exI [of _ q]) (simp add: odd_prime_def)
qed

function Abc_PrimeCudd :: "nat \<Rightarrow> nat" where
  "Abc_PrimeCudd p = (if odd p \<and> prime_test p 3 then p else Abc_PrimeCudd (p + 1))"
  by pat_completeness auto
termination
proof (relation "measure (\<lambda>p. (LEAST q. p \<le> q \<and> odd_prime q) - p)")
  fix p assume "\<not> (odd p \<and> prime_test p 3)"
  then have not: "\<not> odd_prime p" using prime_test_odd odd_prime_def by blast
  obtain q where "Suc p \<le> q \<and> odd_prime q" using larger_odd_prime by blast
  then have suc: "Suc p \<le> (LEAST q. Suc p \<le> q \<and> odd_prime q)" by (rule LeastI2) simp
  have "(p \<le> q \<and> odd_prime q) = (Suc p \<le> q \<and> odd_prime q)" for q
    using not by (cases "q = p") auto
  then show "(p + 1, p) \<in> measure (\<lambda>p. (LEAST q. p \<le> q \<and> odd_prime q) - p)"
    using suc by (simp add: diff_less_mono2)
qed simp

declare Abc_PrimeCudd.simps [simp del]

lemma Abc_PrimeCudd_val: "p \<le> Abc_PrimeCudd p \<and> odd_prime (Abc_PrimeCudd p) \<and>
   (\<forall>q. p \<le> q \<longrightarrow> q < Abc_PrimeCudd p \<longrightarrow> \<not> odd_prime q)"
proof (induction p rule: Abc_PrimeCudd.induct)
  case (1 p)
  show ?case
  proof (cases "odd p \<and> prime_test p 3")
    case True
    then have "odd_prime p" using prime_test_odd [of p] by blast
    then show ?thesis using True by (simp add: Abc_PrimeCudd.simps [of p])
  next
    case False
    then have "\<not> odd_prime p" using prime_test_odd odd_prime_def by blast
    moreover have "p = q \<or> Suc p \<le> q" if "p \<le> q" for q using that by linarith
    moreover have "Abc_PrimeCudd p = Abc_PrimeCudd (p + 1)" using False by (simp only: Abc_PrimeCudd.simps [of p] if_False)
    ultimately show ?thesis using 1 [OF False] by (metis Suc_eq_plus1 Suc_leD)
  qed
qed


section \<open>The table\<close>

definition int_product :: "nat \<Rightarrow> 32 word \<Rightarrow> 64 word" where
  "int_product i c = scast (of_nat i * c)"

definition Hop_Hash :: "Hop_Man \<Rightarrow> Hop_Obj \<Rightarrow> nat \<Rightarrow> nat" where
  "Hop_Hash m pObj TableSize =
    (let Key = int_product (of_bool (Hop_ObjIsExor pObj)) 1699;
         Key = Key XOR int_product (Id_o (deref m (Hop_ObjFanin0 pObj))) 7937;
         Key = Key XOR int_product (Id_o (deref m (Hop_ObjFanin1 pObj))) 2971;
         Key = Key XOR int_product (of_bool (Hop_ObjFaninC0 pObj)) 911;
         Key = Key XOR int_product (of_bool (Hop_ObjFaninC1 pObj)) 353
     in unat Key mod TableSize)"

text \<open>A pointer to a pointer: to an entry of the table or to the field \<open>pNext\<close> of an object.\<close>

datatype Hop_Place = Entry nat | Next nat

primrec place_get :: "Hop_Man \<Rightarrow> Hop_Place \<Rightarrow> nat" where
  "place_get m (Entry b) = pTable m ! b"
| "place_get m (Next p) = pNext (deref m p)"

primrec place_set :: "Hop_Place \<Rightarrow> nat \<Rightarrow> Hop_Man \<Rightarrow> Hop_Man" where
  "place_set (Entry b) v m = m\<lparr>pTable := (pTable m)[b := v]\<rparr>"
| "place_set (Next p) v m = update p (\<lambda>pObj. pObj\<lparr>pNext := v\<rparr>) m"

primrec find_walk :: "nat \<Rightarrow> Hop_Man \<Rightarrow> nat \<Rightarrow> Hop_Place \<Rightarrow> Hop_Place res" where
  "find_walk 0 m pObj ppEntry = Inl OutOfFuel"
| "find_walk (Suc fuel) m pObj ppEntry =
    (if place_get m ppEntry = 0 then Inr ppEntry
     else if place_get m ppEntry = pObj then Inr ppEntry
     else find_walk fuel m pObj (Next (place_get m ppEntry)))"

definition Hop_TableFind :: "Hop_Man \<Rightarrow> nat \<Rightarrow> Hop_Place res" where
  "Hop_TableFind p pObj =
    (let obj = deref p pObj in
     if \<not> (Hop_ObjChild0 obj \<noteq> 0 \<and> Hop_ObjChild1 obj \<noteq> 0) then Inl AssertFailed
     else if \<not> Id_o (deref p (Hop_ObjFanin0 obj)) < Id_o (deref p (Hop_ObjFanin1 obj)) then Inl AssertFailed
     else find_walk (Suc (length (Objs p))) p pObj (Entry (Hop_Hash p obj (nTableSize p))))"

definition same_node :: "Hop_Obj \<Rightarrow> Hop_Obj \<Rightarrow> bool" where
  "same_node pEntry pGhost \<longleftrightarrow> Hop_ObjChild0 pEntry = Hop_ObjChild0 pGhost \<and>
     Hop_ObjChild1 pEntry = Hop_ObjChild1 pGhost \<and> Type_o pEntry = Type_o pGhost"

primrec lookup_walk :: "nat \<Rightarrow> Hop_Man \<Rightarrow> Hop_Obj \<Rightarrow> nat \<Rightarrow> nat res" where
  "lookup_walk 0 m pGhost pEntry = Inl OutOfFuel"
| "lookup_walk (Suc fuel) m pGhost pEntry =
    (if pEntry = 0 then Inr 0
     else if same_node (deref m pEntry) pGhost then Inr pEntry
     else lookup_walk fuel m pGhost (pNext (deref m pEntry)))"

definition Hop_TableLookup :: "Hop_Man \<Rightarrow> Hop_Obj \<Rightarrow> nat res" where
  "Hop_TableLookup p pGhost =
    (if \<not> (Hop_ObjChild0 pGhost \<noteq> 0 \<and> Hop_ObjChild1 pGhost \<noteq> 0) then Inl AssertFailed
     else if \<not> Id_o (deref p (Hop_ObjFanin0 pGhost)) < Id_o (deref p (Hop_ObjFanin1 pGhost)) then Inl AssertFailed
     else if fRefCount p \<and> (nRefs (deref p (Hop_ObjFanin0 pGhost)) = 0 \<or> nRefs (deref p (Hop_ObjFanin1 pGhost)) = 0)
       then Inr 0
     else lookup_walk (Suc (length (Objs p))) p pGhost (pTable p ! Hop_Hash p pGhost (nTableSize p)))"

text \<open>The rehashing of one list of the old table; \<open>pEntry->pNext\<close> is read before the entry is moved.\<close>

primrec resize_walk :: "nat \<Rightarrow> nat \<Rightarrow> nat \<times> Hop_Man \<Rightarrow> (nat \<times> Hop_Man) res" where
  "resize_walk 0 pEntry s = Inl OutOfFuel"
| "resize_walk (Suc fuel) pEntry s =
    (case s of (Counter, p) \<Rightarrow>
     if pEntry = 0 then Inr (Counter, p)
     else
       let next = pNext (deref p pEntry) in
       res_bind (Hop_TableFind p pEntry) (\<lambda>ppPlace.
         if \<not> place_get p ppPlace = 0 then Inl AssertFailed
         else
           let p = place_set ppPlace pEntry p;
               p = update pEntry (\<lambda>pObj. pObj\<lparr>pNext := 0\<rparr>) p
           in resize_walk fuel next (Counter + 1, p)))"

definition Hop_TableResize :: "Hop_Man \<Rightarrow> Hop_Man res" where
  "Hop_TableResize p =
    (let pTableOld = pTable p;
         nTableSizeOld = nTableSize p;
         p = p\<lparr>nTableSize := Abc_PrimeCudd (2 * Hop_ManNodeNum p)\<rparr>;
         p = p\<lparr>pTable := replicate (nTableSize p) 0\<rparr>
     in res_bind (run_loop [0..<nTableSizeOld] (\<lambda>i (Counter, p).
          resize_walk (Suc (length (Objs p))) (pTableOld ! i) (Counter, p)) (0, p)) (\<lambda>(Counter, p).
        if \<not> Counter = Hop_ManNodeNum p then Inl AssertFailed else Inr p))"

definition Hop_TableInsert :: "Hop_Man \<Rightarrow> nat \<Rightarrow> Hop_Man res" where
  "Hop_TableInsert p pObj =
    (if Hop_IsComplement pObj then Inl AssertFailed
     else res_bind (Hop_TableLookup p (deref p pObj)) (\<lambda>pEntry.
       if \<not> pEntry = 0 then Inl AssertFailed
       else res_bind (if Id_o (deref p pObj) AND 0xFF = 0 \<and> 2 * nTableSize p < Hop_ManNodeNum p
                then Hop_TableResize p else Inr p) (\<lambda>p.
         res_bind (Hop_TableFind p pObj) (\<lambda>ppPlace.
           if \<not> place_get p ppPlace = 0 then Inl AssertFailed
           else Inr (place_set ppPlace pObj p)))))"

definition Hop_TableDelete :: "Hop_Man \<Rightarrow> nat \<Rightarrow> Hop_Man res" where
  "Hop_TableDelete p pObj =
    (if Hop_IsComplement pObj then Inl AssertFailed
     else res_bind (Hop_TableFind p pObj) (\<lambda>ppPlace.
       if \<not> place_get p ppPlace = pObj then Inl AssertFailed
       else
         let p = place_set ppPlace (pNext (deref p pObj)) p
         in Inr (update pObj (\<lambda>pObj. pObj\<lparr>pNext := 0\<rparr>) p)))"

primrec count_walk :: "nat \<Rightarrow> Hop_Man \<Rightarrow> nat \<Rightarrow> nat \<Rightarrow> nat res" where
  "count_walk 0 m pEntry Counter = Inl OutOfFuel"
| "count_walk (Suc fuel) m pEntry Counter =
    (if pEntry = 0 then Inr Counter else count_walk fuel m (pNext (deref m pEntry)) (Counter + 1))"

definition Hop_TableCountEntries :: "Hop_Man \<Rightarrow> nat res" where
  "Hop_TableCountEntries p =
    run_loop [0..<nTableSize p] (\<lambda>i Counter. count_walk (Suc (length (Objs p))) p (pTable p ! i) Counter) 0"

section \<open>Lists in memory\<close>

primrec chain :: "(nat \<Rightarrow> nat) \<Rightarrow> nat \<Rightarrow> nat list \<Rightarrow> bool" where
  "chain nx e [] \<longleftrightarrow> e = 0"
| "chain nx e (x # xs) \<longleftrightarrow> e = x \<and> x \<noteq> 0 \<and> chain nx (nx x) xs"

lemma chain_cong: "(\<And>x. x \<in> set xs \<Longrightarrow> nx x = nx' x) \<Longrightarrow> chain nx e xs = chain nx' e xs"
  by (induction xs arbitrary: e) auto

lemma chain_same: "chain f e xs \<Longrightarrow> (\<And>x. x \<in> set xs \<Longrightarrow> f x = g x) \<Longrightarrow> chain g e xs"
  using chain_cong [of xs f g e] by simp

lemma chain_update [simp]: "x \<notin> set xs \<Longrightarrow> chain (nx(x := v)) e xs = chain nx e xs"
  by (rule chain_cong) auto

lemma chain_0 [simp]: "chain nx 0 xs \<longleftrightarrow> xs = []"
  by (cases xs) auto

lemma chain_snoc:
  assumes "chain nx e xs" "xs \<noteq> []" "distinct xs" "x \<notin> set xs" "x \<noteq> 0" "nx x = 0"
  shows "chain (nx(last xs := x)) e (xs @ [x])"
  using assms
proof (induction xs arbitrary: e)
  case (Cons y ys)
  show ?case
  proof (cases "ys = []")
    case False
    then have "last ys \<noteq> y" using Cons.prems(3) last_in_set [OF False] by auto
    then show ?thesis using Cons False by simp
  qed (use Cons in simp)
qed simp

lemma chain_remove:
  assumes "chain nx e (ys @ x # zs)" "ys \<noteq> []" "distinct (ys @ x # zs)"
  shows "chain (nx(last ys := nx x)) e (ys @ zs)"
  using assms
proof (induction ys arbitrary: e)
  case (Cons y ys)
  show ?case
  proof (cases "ys = []")
    case False
    then have "last ys \<noteq> y" using Cons.prems(3) last_in_set [OF False] by auto
    then show ?thesis using Cons False by simp
  next
    case True
    then show ?thesis using Cons.prems by (simp del: fun_upd_apply add: fun_upd_same)
  qed
qed simp

text \<open>The place of an object in a list, or the one behind its end.\<close>

definition chain_place :: "Hop_Place \<Rightarrow> nat list \<Rightarrow> nat \<Rightarrow> Hop_Place" where
  "chain_place pl xs x = (let ys = takeWhile (\<lambda>y. y \<noteq> x) xs in if ys = [] then pl else Next (last ys))"

definition nx :: "Hop_Man \<Rightarrow> nat \<Rightarrow> nat" where
  "nx m p = pNext (deref m p)"

lemma find_walk_chain:
  "chain (nx m) (place_get m pl) xs \<Longrightarrow> length xs < fuel \<Longrightarrow> find_walk fuel m x pl = Inr (chain_place pl xs x)"
proof (induction xs arbitrary: pl fuel)
  case Nil
  then show ?case by (cases fuel) (simp_all add: chain_place_def)
next
  case (Cons y ys)
  then obtain fuel' where f: "fuel = Suc fuel'" by (cases fuel) auto
  have "chain_place pl (y # ys) x = (if y = x then pl else chain_place (Next y) ys x)"
    by (simp add: chain_place_def Let_def)
  then show ?case using Cons f by (auto simp: nx_def)
qed

lemma lookup_walk_chain:
  "chain (nx m) e xs \<Longrightarrow> length xs < fuel \<Longrightarrow>
   lookup_walk fuel m g e = Inr (case find (\<lambda>x. same_node (deref m x) g) xs of None \<Rightarrow> 0 | Some x \<Rightarrow> x)"
proof (induction xs arbitrary: e fuel)
  case Nil
  then show ?case by (cases fuel) simp_all
next
  case (Cons y ys)
  then show ?case by (cases fuel) (auto simp: nx_def)
qed

lemma count_walk_chain: "chain (nx m) e xs \<Longrightarrow> length xs < fuel \<Longrightarrow> count_walk fuel m e c = Inr (c + length xs)"
proof (induction xs arbitrary: e fuel c)
  case Nil
  then show ?case by (cases fuel) simp_all
next
  case (Cons y ys)
  then show ?case by (cases fuel) (auto simp: nx_def)
qed


section \<open>What the table holds\<close>

definition obj_at :: "Hop_Man \<Rightarrow> nat \<Rightarrow> bool" where
  "obj_at m p \<longleftrightarrow> even p \<and> 2 \<le> p \<and> index p < length (Objs m)"

lemma obj_at_addr [simp]: "obj_at m (addr i) \<longleftrightarrow> i < length (Objs m)"
  by (simp add: obj_at_def addr_def index_def)

lemma index_addr [simp]: "index (addr i) = i"
  by (simp add: index_def addr_def)

lemma addr_index: "obj_at m p \<Longrightarrow> addr (index p) = p"
  by (auto simp: obj_at_def addr_def index_def elim!: evenE)

lemma index_inject: "obj_at m p \<Longrightarrow> obj_at m q \<Longrightarrow> index p = index q \<Longrightarrow> p = q"
  using addr_index by metis

lemma deref_update: "obj_at m p \<Longrightarrow> obj_at m q \<Longrightarrow> deref (update p f m) q = (if q = p then f (deref m p) else deref m q)"
  using index_inject [of m p q] by (auto simp: deref_def update_def obj_at_def nth_list_update)

lemma deref_update_frame: "(\<And>x. g (f x) = g x) \<Longrightarrow> g (deref (update p f m) q) = g (deref m q)"
  by (cases "index p < length (Objs m)") (auto simp: deref_def update_def nth_list_update list_update_beyond)

lemma update_fields [simp]:
  "length (Objs (update p f m)) = length (Objs m)" "pTable (update p f m) = pTable m"
  "nTableSize (update p f m) = nTableSize m" "obj_at (update p f m) q = obj_at m q"
  by (simp_all add: update_def obj_at_def)

abbreviation set_next :: "nat \<Rightarrow> nat \<Rightarrow> Hop_Man \<Rightarrow> Hop_Man" where
  "set_next p v \<equiv> update p (\<lambda>pObj. pObj\<lparr>pNext := v\<rparr>)"

lemma set_next_frame [simp]:
  "Id_o (deref (set_next p v m) q) = Id_o (deref m q)" "Type_o (deref (set_next p v m) q) = Type_o (deref m q)"
  "pFanin0 (deref (set_next p v m) q) = pFanin0 (deref m q)" "pFanin1 (deref (set_next p v m) q) = pFanin1 (deref m q)"
  by (rule deref_update_frame; simp)+

lemma nx_set_next: "obj_at m p \<Longrightarrow> obj_at m q \<Longrightarrow> nx (set_next p v m) q = (if q = p then v else nx m q)"
  by (simp add: nx_def deref_update)

definition node_key :: "Hop_Man \<Rightarrow> nat \<Rightarrow> nat" where
  "node_key m x = Hop_Hash m (deref m x) (nTableSize m)"

lemma Hop_Hash_less: "0 < n \<Longrightarrow> Hop_Hash m obj n < n"
  by (simp add: Hop_Hash_def Let_def)

lemma Hop_Hash_cong:
  "(\<And>q. Id_o (deref m' q) = Id_o (deref m q)) \<Longrightarrow> Type_o obj' = Type_o obj \<Longrightarrow> pFanin0 obj' = pFanin0 obj \<Longrightarrow>
   pFanin1 obj' = pFanin1 obj \<Longrightarrow> Hop_Hash m' obj' n = Hop_Hash m obj n"
  by (simp add: Hop_Hash_def Let_def Hop_ObjIsExor_def Hop_ObjFanin0_def Hop_ObjFanin1_def Hop_ObjFaninC0_def Hop_ObjFaninC1_def)

lemma node_key_set_next [simp]: "node_key (set_next p v m) x = node_key m x"
  unfolding node_key_def update_fields by (rule Hop_Hash_cong) simp_all

definition table_rep :: "Hop_Man \<Rightarrow> nat set \<Rightarrow> bool" where
  "table_rep m S \<longleftrightarrow> nTableSize m = length (pTable m) \<and> 0 < nTableSize m \<and> (\<forall>x\<in>S. obj_at m x) \<and>
     (\<forall>b<nTableSize m. \<exists>xs. chain (nx m) (pTable m ! b) xs \<and> distinct xs \<and> set xs = {x \<in> S. node_key m x = b})"

lemma table_rep_size: "table_rep m S \<Longrightarrow> 0 < nTableSize m"
  unfolding table_rep_def by blast

lemma table_rep_obj: "table_rep m S \<Longrightarrow> x \<in> S \<Longrightarrow> obj_at m x"
  unfolding table_rep_def by blast

lemma node_key_less: "table_rep m S \<Longrightarrow> node_key m x < nTableSize m"
  unfolding node_key_def by (intro Hop_Hash_less table_rep_size)

lemma table_repD:
  assumes "table_rep m S" "b < nTableSize m"
  obtains xs where "chain (nx m) (pTable m ! b) xs" "distinct xs" "set xs = {x \<in> S. node_key m x = b}"
  using assms unfolding table_rep_def by blast

lemma chain_length:
  assumes "distinct xs" "\<forall>x\<in>set xs. obj_at m x"
  shows "length xs < Suc (length (Objs m))"
proof -
  have "inj_on index (set xs)" using assms(2) index_inject [of m] by (auto simp: inj_on_def)
  then have "length xs = card (index ` set xs)" using assms(1) by (simp add: distinct_card card_image)
  also have "\<dots> \<le> card {..<length (Objs m)}"
    using assms(2) by (intro card_mono) (auto simp: obj_at_def)
  finally show ?thesis by simp
qed

lemma table_rep_find:
  assumes rep: "table_rep m S" and b: "b < nTableSize m"
    and xs: "chain (nx m) (pTable m ! b) xs" "distinct xs" "set xs = {x \<in> S. node_key m x = b}"
  shows "find_walk (Suc (length (Objs m))) m x (Entry b) = Inr (chain_place (Entry b) xs x)"
    "lookup_walk (Suc (length (Objs m))) m g (pTable m ! b) =
       Inr (case find (\<lambda>x. same_node (deref m x) g) xs of None \<Rightarrow> 0 | Some x \<Rightarrow> x)"
    "count_walk (Suc (length (Objs m))) m (pTable m ! b) c = Inr (c + length xs)"
proof -
  have "\<forall>x\<in>set xs. obj_at m x" using rep xs(3) by (auto simp: table_rep_def)
  then have len: "length xs < Suc (length (Objs m))" by (rule chain_length [OF xs(2)])
  show "find_walk (Suc (length (Objs m))) m x (Entry b) = Inr (chain_place (Entry b) xs x)"
    by (rule find_walk_chain [OF _ len]) (use xs(1) in simp)
  show "lookup_walk (Suc (length (Objs m))) m g (pTable m ! b) =
       Inr (case find (\<lambda>x. same_node (deref m x) g) xs of None \<Rightarrow> 0 | Some x \<Rightarrow> x)"
    by (rule lookup_walk_chain [OF xs(1) len])
  show "count_walk (Suc (length (Objs m))) m (pTable m ! b) c = Inr (c + length xs)"
    by (rule count_walk_chain [OF xs(1) len])
qed

text \<open>Linking an object at the end of its list.\<close>

lemma chain_place_new: "x \<notin> set xs \<Longrightarrow> chain_place pl xs x = (if xs = [] then pl else Next (last xs))"
proof -
  assume "x \<notin> set xs"
  then have "takeWhile (\<lambda>y. y \<noteq> x) xs = xs" by (simp add: takeWhile_eq_all_conv) blast
  then show ?thesis by (simp only: chain_place_def Let_def)
qed

lemma chain_last_0: "chain f e xs \<Longrightarrow> xs \<noteq> [] \<Longrightarrow> f (last xs) = 0"
  by (induction xs arbitrary: e) auto

lemma place_set_rep:
  assumes rep: "table_rep m S" and x: "obj_at m x" "x \<notin> S"
    and b: "b = node_key m x" "b < nTableSize m"
    and xs: "chain (nx m) (pTable m ! b) xs" "distinct xs" "set xs = {y \<in> S. node_key m y = b}"
    and m': "m' = set_next x 0 (place_set (chain_place (Entry b) xs x) x m)"
  shows "table_rep m' (insert x S)" "place_get m (chain_place (Entry b) xs x) = 0"
    "nx m x = 0 \<Longrightarrow> m' = place_set (chain_place (Entry b) xs x) x m"
proof -
  have new: "x \<notin> set xs" using xs(3) x(2) by simp
  have x0: "x \<noteq> 0" using x(1) by (auto simp: obj_at_def)
  have S: "\<forall>y\<in>S. obj_at m y" using rep by (simp add: table_rep_def)
  have pl: "chain_place (Entry b) xs x = (if xs = [] then Entry b else Next (last xs))" by (rule chain_place_new [OF new])
  have m2: "m' = set_next x 0 (if xs = [] then m\<lparr>pTable := (pTable m)[b := x]\<rparr> else set_next (last xs) x m)"
    by (simp add: m' pl)
  show "place_get m (chain_place (Entry b) xs x) = 0"
    using xs(1) chain_last_0 [OF xs(1)] unfolding pl by (cases "xs = []") (simp_all add: nx_def)
  have last: "xs \<noteq> [] \<Longrightarrow> last xs \<in> S \<and> node_key m (last xs) = b" using last_in_set [of xs] xs(3) by blast
  have size: "nTableSize m' = nTableSize m" "length (pTable m') = length (pTable m)" "\<And>y. obj_at m' y = obj_at m y"
    and key: "\<And>y. node_key m' y = node_key m y"
  proof -
    have "node_key (m\<lparr>pTable := t\<rparr>) y = node_key m y" for t y
      unfolding node_key_def by (simp add: Hop_Hash_def deref_def)
    then show "nTableSize m' = nTableSize m" "length (pTable m') = length (pTable m)" "\<And>y. obj_at m' y = obj_at m y"
      "\<And>y. node_key m' y = node_key m y"
      by (simp_all add: m2 obj_at_def)
  qed
  have next': "nx m' y = (if y = x then 0 else if xs \<noteq> [] \<and> y = last xs then x else nx m y)" if "obj_at m y" for y
  proof (cases "xs = []")
    case True
    have t: "obj_at (m\<lparr>pTable := t\<rparr>) = obj_at m" "nx (m\<lparr>pTable := t\<rparr>) = nx m" for t
      by (auto simp: obj_at_def nx_def deref_def)
    show ?thesis using True that x(1) by (simp add: m2 nx_set_next t)
  next
    case False
    have "obj_at m (last xs)" using last [OF False] S by blast
    then show ?thesis using False that x(1) by (simp add: m2 nx_set_next)
  qed
  have tab: "pTable m' ! c = (if xs = [] \<and> c = b then x else pTable m ! c)" if "c < nTableSize m" for c
    using that rep by (simp add: m2 table_rep_def)
  have "\<exists>zs. chain (nx m') (pTable m' ! c) zs \<and> distinct zs \<and> set zs = {y \<in> insert x S. node_key m' y = c}" if c: "c < nTableSize m" for c
  proof (cases "c = b")
    case True
    have set: "set (xs @ [x]) = {y \<in> insert x S. node_key m' y = c}" using xs(3) b(1) True by (auto simp: key)
    have dist: "distinct (xs @ [x])" using xs(2) new by simp
    have "chain (nx m') (pTable m' ! c) (xs @ [x])"
    proof (cases "xs = []")
      case True
      then show ?thesis using \<open>c = b\<close> b(2) x x0 next' by (simp add: tab)
    next
      case False
      have "chain ((nx m)(x := 0)) (pTable m ! b) xs" using xs(1) new by simp
      from chain_snoc [OF this False xs(2) new x0]
      have "chain ((nx m)(x := 0, last xs := x)) (pTable m ! b) (xs @ [x])" by simp
      moreover have "((nx m)(x := 0, last xs := x)) y = nx m' y" if "y \<in> set (xs @ [x])" for y
      proof -
        have "obj_at m y" using that xs(3) S x(1) by auto
        moreover have "last xs \<noteq> x" using new last_in_set [OF False] by auto
        ultimately show ?thesis using False by (simp add: next')
      qed
      ultimately have "chain (nx m') (pTable m ! b) (xs @ [x])" by (rule chain_same)
      then show ?thesis using False \<open>c = b\<close> c by (simp add: tab)
    qed
    then show ?thesis using set dist by blast
  next
    case False
    obtain zs where zs: "chain (nx m) (pTable m ! c) zs" "distinct zs" "set zs = {y \<in> S. node_key m y = c}"
      by (rule table_repD [OF rep c])
    have "nx m y = nx m' y" if "y \<in> set zs" for y
      using that zs(3) S last False x(2) by (auto simp: next')
    with zs(1) have "chain (nx m') (pTable m ! c) zs" by (rule chain_same)
    then have "chain (nx m') (pTable m' ! c) zs" using False c by (simp add: tab)
    moreover have "set zs = {y \<in> insert x S. node_key m' y = c}" using zs(3) False b(1) by (auto simp: key)
    ultimately show ?thesis using zs(2) by blast
  qed
  moreover have "nTableSize m' = length (pTable m') \<and> 0 < nTableSize m'"
    unfolding size using rep [unfolded table_rep_def] by blast
  ultimately show "table_rep m' (insert x S)"
    unfolding table_rep_def size(1,3) using S x(1) by blast
  show "m' = place_set (chain_place (Entry b) xs x) x m" if "nx m x = 0"
  proof -
    have id: "set_next x 0 k = k" if "pNext (deref k x) = 0" for k
    proof -
      have "(deref k x)\<lparr>pNext := 0\<rparr> = deref k x" using that by simp
      then show ?thesis by (simp add: update_def deref_def)
    qed
    have "xs \<noteq> [] \<Longrightarrow> obj_at m (last xs)" using last S by blast
    then have "pNext (deref (place_set (chain_place (Entry b) xs x) x m) x) = 0"
      using that x(1) new last_in_set [of xs] unfolding pl
      by (cases "xs = []") (auto simp: nx_def deref_update, simp add: deref_def)
    then show ?thesis unfolding m' by (rule id)
  qed
qed


text \<open>Unlinking an object.\<close>

lemma place_set_unlink:
  assumes rep: "table_rep m S" and x: "x \<in> S"
    and b: "b = node_key m x" "b < nTableSize m"
    and xs: "chain (nx m) (pTable m ! b) xs" "distinct xs" "set xs = {y \<in> S. node_key m y = b}"
    and m': "m' = set_next x 0 (place_set (chain_place (Entry b) xs x) (nx m x) m)"
  shows "table_rep m' (S - {x})" "place_get m (chain_place (Entry b) xs x) = x"
proof -
  have S: "\<forall>y\<in>S. obj_at m y" using rep by (simp add: table_rep_def)
  obtain ys zs where split: "xs = ys @ x # zs" "x \<notin> set ys"
    using xs(3) x b(1) split_list_first [of x xs] by auto
  have pl: "chain_place (Entry b) xs x = (if ys = [] then Entry b else Next (last ys))"
    using split by (simp add: chain_place_def Let_def takeWhile_append takeWhile_eq_all_conv)
  have m2: "m' = set_next x 0 (if ys = [] then m\<lparr>pTable := (pTable m)[b := nx m x]\<rparr> else set_next (last ys) (nx m x) m)"
    by (simp add: m' pl)
  have head: "ys = [] \<Longrightarrow> pTable m ! b = x" using xs(1) by (simp add: split)
  have tail: "chain f e (us @ x # zs) \<Longrightarrow> us \<noteq> [] \<Longrightarrow> f (last us) = x" for f e us
    by (induction us arbitrary: e) auto
  show "place_get m (chain_place (Entry b) xs x) = x"
    using head tail [OF xs(1) [unfolded split(1)]] unfolding pl by (cases "ys = []") (simp_all add: nx_def)
  have last: "ys \<noteq> [] \<Longrightarrow> last ys \<in> S \<and> node_key m (last ys) = b \<and> last ys \<noteq> x"
  proof -
    assume "ys \<noteq> []"
    then have "last ys \<in> set ys" by simp
    moreover from this have "last ys \<in> set xs" using split(1) by simp
    ultimately show ?thesis using xs(3) split(2) by blast
  qed
  have size: "nTableSize m' = nTableSize m" "length (pTable m') = length (pTable m)" "\<And>y. obj_at m' y = obj_at m y"
    and key: "\<And>y. node_key m' y = node_key m y"
  proof -
    have "node_key (m\<lparr>pTable := t\<rparr>) y = node_key m y" for t y
      unfolding node_key_def by (simp add: Hop_Hash_def deref_def)
    then show "nTableSize m' = nTableSize m" "length (pTable m') = length (pTable m)" "\<And>y. obj_at m' y = obj_at m y"
      "\<And>y. node_key m' y = node_key m y"
      by (simp_all add: m2 obj_at_def)
  qed
  have ox: "obj_at m x" using S x by blast
  have next': "nx m' y = (if y = x then 0 else if ys \<noteq> [] \<and> y = last ys then nx m x else nx m y)" if "obj_at m y" for y
  proof (cases "ys = []")
    case True
    have t: "obj_at (m\<lparr>pTable := t\<rparr>) = obj_at m" "nx (m\<lparr>pTable := t\<rparr>) = nx m" for t
      by (auto simp: obj_at_def nx_def deref_def)
    show ?thesis using True that ox by (simp add: m2 nx_set_next t)
  next
    case False
    have "obj_at m (last ys)" using last [OF False] S by blast
    then show ?thesis using False that ox by (simp add: m2 nx_set_next)
  qed
  have tab: "pTable m' ! c = (if ys = [] \<and> c = b then nx m x else pTable m ! c)" if "c < nTableSize m" for c
    using that rep by (simp add: m2 table_rep_def)
  have "\<exists>us. chain (nx m') (pTable m' ! c) us \<and> distinct us \<and> set us = {y \<in> S - {x}. node_key m' y = c}" if c: "c < nTableSize m" for c
  proof (cases "c = b")
    case True
    have set: "set (ys @ zs) = {y \<in> S - {x}. node_key m' y = c}" 
      using xs(2,3) split True by (auto simp: key)
    have dist: "distinct (ys @ zs)" using xs(2) split by simp
    have in_S: "obj_at m y \<and> y \<noteq> x" if "y \<in> set (ys @ zs)" for y using that set S by auto
    have "chain (nx m') (pTable m' ! c) (ys @ zs)"
    proof (cases "ys = []")
      case True
      have "chain (nx m) (nx m x) zs" using xs(1) True by (simp add: split)
      then have "chain (nx m') (nx m x) zs" by (rule chain_same) (use in_S True in \<open>simp add: next'\<close>)
      then show ?thesis using True \<open>c = b\<close> c by (simp add: tab)
    next
      case False
      have "chain ((nx m)(last ys := nx m x)) (pTable m ! b) (ys @ zs)"
        using chain_remove [OF _ False] xs(1,2) split(1) by blast
      then have "chain (nx m') (pTable m ! b) (ys @ zs)"
        by (rule chain_same) (use in_S False in \<open>simp add: next'\<close>)
      then show ?thesis using False \<open>c = b\<close> c by (simp add: tab)
    qed
    then show ?thesis using set dist by blast
  next
    case False
    obtain us where us: "chain (nx m) (pTable m ! c) us" "distinct us" "set us = {y \<in> S. node_key m y = c}"
      by (rule table_repD [OF rep c])
    have same: "nx m y = nx m' y" if "y \<in> set us" for y
      using that us(3) S last False b(1) by (auto simp: next')
    from chain_same [OF us(1) same] have "chain (nx m') (pTable m' ! c) us" using False c by (simp add: tab)
    moreover have "set us = {y \<in> S - {x}. node_key m' y = c}" using us(3) False b(1) by (auto simp: key)
    ultimately show ?thesis using us(2) by blast
  qed
  moreover have "nTableSize m' = length (pTable m') \<and> 0 < nTableSize m'"
    unfolding size using rep [unfolded table_rep_def] by blast
  ultimately show "table_rep m' (S - {x})"
    unfolding table_rep_def size(1,3) using S by blast
qed


section \<open>The operations\<close>

text \<open>What changing links leaves alone: everything but the table and the field \<open>pNext\<close> of objects in \<open>S\<close>.\<close>

definition relinked :: "nat set \<Rightarrow> Hop_Man \<Rightarrow> Hop_Man \<Rightarrow> bool" where
  "relinked S m m' \<longleftrightarrow> m'\<lparr>Objs := Objs m, pTable := pTable m, nTableSize := nTableSize m\<rparr> = m \<and>
     length (Objs m') = length (Objs m) \<and>
     (\<forall>q. (deref m' q)\<lparr>pNext := 0\<rparr> = (deref m q)\<lparr>pNext := 0\<rparr>) \<and>
     (\<forall>q. obj_at m q \<longrightarrow> q \<notin> S \<longrightarrow> deref m' q = deref m q)"

lemma relinked_fields:
  assumes "relinked S m m'"
  shows "Id_o (deref m' q) = Id_o (deref m q)" "Type_o (deref m' q) = Type_o (deref m q)"
    "pFanin0 (deref m' q) = pFanin0 (deref m q)" "pFanin1 (deref m' q) = pFanin1 (deref m q)"
    "nRefs (deref m' q) = nRefs (deref m q)" "fPhase (deref m' q) = fPhase (deref m q)"
    "obj_at m' q = obj_at m q"
    "nCreated m' = nCreated m" "nObjs m' = nObjs m" "fRefCount m' = fRefCount m" "pConst1 m' = pConst1 m"
    "vPis m' = vPis m" "vPos m' = vPos m" "length (Objs m') = length (Objs m)"
    "nDeleted m' = nDeleted m" "pData (deref m' q) = pData (deref m q)" "fMarkA (deref m' q) = fMarkA (deref m q)"
proof -
  have q: "(deref m' q)\<lparr>pNext := 0\<rparr> = (deref m q)\<lparr>pNext := 0\<rparr>" using assms by (simp add: relinked_def)
  show "Id_o (deref m' q) = Id_o (deref m q)" using arg_cong [OF q, of Id_o] by simp
  show "Type_o (deref m' q) = Type_o (deref m q)" using arg_cong [OF q, of Type_o] by simp
  show "pFanin0 (deref m' q) = pFanin0 (deref m q)" using arg_cong [OF q, of pFanin0] by simp
  show "pFanin1 (deref m' q) = pFanin1 (deref m q)" using arg_cong [OF q, of pFanin1] by simp
  show "nRefs (deref m' q) = nRefs (deref m q)" using arg_cong [OF q, of nRefs] by simp
  show "fPhase (deref m' q) = fPhase (deref m q)" using arg_cong [OF q, of fPhase] by simp
  show "pData (deref m' q) = pData (deref m q)" using arg_cong [OF q, of pData] by simp
  show "fMarkA (deref m' q) = fMarkA (deref m q)" using arg_cong [OF q, of fMarkA] by simp
  have m: "m'\<lparr>Objs := Objs m, pTable := pTable m, nTableSize := nTableSize m\<rparr> = m" using assms by (simp add: relinked_def)
  show "nCreated m' = nCreated m" using arg_cong [OF m, of nCreated] by simp
  show "nObjs m' = nObjs m" using arg_cong [OF m, of nObjs] by simp
  show "fRefCount m' = fRefCount m" using arg_cong [OF m, of fRefCount] by simp
  show "pConst1 m' = pConst1 m" using arg_cong [OF m, of pConst1] by simp
  show "vPis m' = vPis m" using arg_cong [OF m, of vPis] by simp
  show "vPos m' = vPos m" using arg_cong [OF m, of vPos] by simp
  show "nDeleted m' = nDeleted m" using arg_cong [OF m, of nDeleted] by simp
  show "length (Objs m') = length (Objs m)" "obj_at m' q = obj_at m q" using assms by (simp_all add: relinked_def obj_at_def)
qed

lemma relinked_refl: "relinked S m m"
  by (simp add: relinked_def)

lemma relinked_trans: "relinked S m m1 \<Longrightarrow> relinked T m1 m2 \<Longrightarrow> S \<subseteq> U \<Longrightarrow> T \<subseteq> U \<Longrightarrow> relinked U m m2"
  unfolding relinked_def
proof (intro conjI allI impI)
  assume 1: "m1\<lparr>Objs := Objs m, pTable := pTable m, nTableSize := nTableSize m\<rparr> = m \<and> length (Objs m1) = length (Objs m) \<and>
      (\<forall>q. (deref m1 q)\<lparr>pNext := 0\<rparr> = (deref m q)\<lparr>pNext := 0\<rparr>) \<and> (\<forall>q. obj_at m q \<longrightarrow> q \<notin> S \<longrightarrow> deref m1 q = deref m q)"
    and 2: "m2\<lparr>Objs := Objs m1, pTable := pTable m1, nTableSize := nTableSize m1\<rparr> = m1 \<and> length (Objs m2) = length (Objs m1) \<and>
      (\<forall>q. (deref m2 q)\<lparr>pNext := 0\<rparr> = (deref m1 q)\<lparr>pNext := 0\<rparr>) \<and> (\<forall>q. obj_at m1 q \<longrightarrow> q \<notin> T \<longrightarrow> deref m2 q = deref m1 q)"
    and sub: "S \<subseteq> U" "T \<subseteq> U"
  show "m2\<lparr>Objs := Objs m, pTable := pTable m, nTableSize := nTableSize m\<rparr> = m"
    using conjunct1 [OF 1] conjunct1 [OF 2] by (cases m2, cases m1, cases m) simp
  show "length (Objs m2) = length (Objs m)" "(deref m2 q)\<lparr>pNext := 0\<rparr> = (deref m q)\<lparr>pNext := 0\<rparr>" for q
    using 1 2 by simp_all
  show "deref m2 q = deref m q" if "obj_at m q" "q \<notin> U" for q
  proof -
    have "obj_at m1 q" using 1 that(1) by (simp add: obj_at_def)
    then show ?thesis using 1 2 sub that by (metis subsetD)
  qed
qed

lemma relinked_set_next: "obj_at m p \<Longrightarrow> p \<in> S \<Longrightarrow> relinked S m (set_next p v m)"
  unfolding relinked_def
proof (intro conjI allI impI)
  assume p: "obj_at m p" "p \<in> S"
  show "(set_next p v m)\<lparr>Objs := Objs m, pTable := pTable m, nTableSize := nTableSize m\<rparr> = m"
    by (simp add: update_def)
  show "(deref (set_next p v m) q)\<lparr>pNext := 0\<rparr> = (deref m q)\<lparr>pNext := 0\<rparr>" for q
    by (rule deref_update_frame) simp
  show "deref (set_next p v m) q = deref m q" if "obj_at m q" "q \<notin> S" for q
    using p that by (auto simp: deref_update)
qed simp

lemma relinked_pTable: "relinked S m (m\<lparr>pTable := t\<rparr>)" "relinked S m (m\<lparr>pTable := t, nTableSize := n\<rparr>)"
  by (simp_all add: relinked_def deref_def obj_at_def)

lemma relinked_chain_place:
  assumes "\<forall>y\<in>set xs. obj_at m y \<and> y \<in> S" "obj_at m x" "x \<in> S"
  shows "relinked S m (set_next x w (place_set (chain_place (Entry b) xs x) v m))"
proof -
  have pl: "chain_place (Entry b) xs x = Entry b \<or> (\<exists>y. chain_place (Entry b) xs x = Next y \<and> y \<in> set xs)"
    by (auto simp: chain_place_def Let_def dest!: last_in_set set_takeWhileD)
  have 1: "relinked S m (place_set (chain_place (Entry b) xs x) v m)"
    using pl
  proof (elim disjE exE conjE)
    fix y assume "chain_place (Entry b) xs x = Next y" "y \<in> set xs"
    then show ?thesis using assms(1) by (simp add: relinked_set_next)
  qed (simp add: relinked_pTable)
  have "obj_at (place_set (chain_place (Entry b) xs x) v m) x" using relinked_fields(7) [OF 1] assms(2) by simp
  then show ?thesis using relinked_trans [OF 1 relinked_set_next [of _ x S] order_refl order_refl] assms(3) by simp
qed

text \<open>What the assertions on an object to be hashed check.\<close>

definition hashable :: "Hop_Man \<Rightarrow> Hop_Obj \<Rightarrow> bool" where
  "hashable m obj \<longleftrightarrow> pFanin0 obj \<noteq> 0 \<and> pFanin1 obj \<noteq> 0 \<and>
     Id_o (deref m (Hop_Regular (pFanin0 obj))) < Id_o (deref m (Hop_Regular (pFanin1 obj)))"

lemmas obj_reads = Hop_ObjChild0_def Hop_ObjChild1_def Hop_ObjFanin0_def Hop_ObjFanin1_def

lemma hashable_relinked: "relinked S m m' \<Longrightarrow> hashable m' (deref m' x) = hashable m (deref m x)"
  by (simp add: hashable_def relinked_fields)

lemma Hop_TableFind_new:
  assumes rep: "table_rep m S" and x: "obj_at m x" "x \<notin> S" "hashable m (deref m x)"
  shows "\<exists>pl. Hop_TableFind m x = Inr pl \<and> place_get m pl = 0 \<and>
    table_rep (set_next x 0 (place_set pl x m)) (insert x S) \<and>
    relinked (insert x S) m (set_next x 0 (place_set pl x m)) \<and>
    (nx m x = 0 \<longrightarrow> set_next x 0 (place_set pl x m) = place_set pl x m)"
proof -
  have b: "node_key m x < nTableSize m" by (rule node_key_less [OF rep])
  obtain xs where xs: "chain (nx m) (pTable m ! node_key m x) xs" "distinct xs" "set xs = {y \<in> S. node_key m y = node_key m x}"
    by (rule table_repD [OF rep b])
  let ?pl = "chain_place (Entry (node_key m x)) xs x"
  have "Hop_TableFind m x = Inr ?pl"
    using x(3) table_rep_find(1) [OF rep b xs, of x]
    by (simp add: Hop_TableFind_def hashable_def obj_reads node_key_def)
  moreover note place_set_rep [OF rep x(1,2) refl b xs refl]
  moreover have "relinked (insert x S) m (set_next x 0 (place_set ?pl x m))"
    by (rule relinked_chain_place) (use x(1) xs(3) rep in \<open>auto simp: table_rep_def\<close>)
  ultimately show ?thesis by (intro exI [of _ ?pl]) simp
qed

lemma Hop_TableFind_old:
  assumes rep: "table_rep m S" and x: "x \<in> S" "hashable m (deref m x)"
  shows "\<exists>pl. Hop_TableFind m x = Inr pl \<and> place_get m pl = x \<and>
    table_rep (set_next x 0 (place_set pl (nx m x) m)) (S - {x}) \<and>
    relinked S m (set_next x 0 (place_set pl (nx m x) m))"
proof -
  have b: "node_key m x < nTableSize m" by (rule node_key_less [OF rep])
  obtain xs where xs: "chain (nx m) (pTable m ! node_key m x) xs" "distinct xs" "set xs = {y \<in> S. node_key m y = node_key m x}"
    by (rule table_repD [OF rep b])
  let ?pl = "chain_place (Entry (node_key m x)) xs x"
  have "Hop_TableFind m x = Inr ?pl"
    using x(2) table_rep_find(1) [OF rep b xs, of x]
    by (simp add: Hop_TableFind_def hashable_def obj_reads node_key_def)
  moreover note place_set_unlink [OF rep x(1) refl b xs refl]
  moreover have "relinked S m (set_next x 0 (place_set ?pl (nx m x) m))"
    by (rule relinked_chain_place) (use x(1) xs(3) rep in \<open>auto simp: table_rep_def\<close>)
  ultimately show ?thesis by (intro exI [of _ ?pl]) simp
qed

text \<open>The result of a lookup: an object of the table with the fanins and type asked for, if there is one.\<close>

lemma Hop_TableLookup_val:
  assumes rep: "table_rep m S" and g: "hashable m g"
    and refs: "fRefCount m \<Longrightarrow> nRefs (deref m (Hop_Regular (pFanin0 g))) \<noteq> 0 \<and> nRefs (deref m (Hop_Regular (pFanin1 g))) \<noteq> 0"
  shows "\<exists>r. Hop_TableLookup m g = Inr r \<and> (if r = 0 then \<forall>x\<in>S. \<not> same_node (deref m x) g
     else r \<in> S \<and> same_node (deref m r) g)"
proof -
  let ?b = "Hop_Hash m g (nTableSize m)"
  have b: "?b < nTableSize m" by (rule Hop_Hash_less [OF table_rep_size [OF rep]])
  obtain xs where xs: "chain (nx m) (pTable m ! ?b) xs" "distinct xs" "set xs = {y \<in> S. node_key m y = ?b}"
    by (rule table_repD [OF rep b])
  let ?f = "find (\<lambda>x. same_node (deref m x) g) xs"
  have eq: "Hop_TableLookup m g = Inr (case ?f of None \<Rightarrow> 0 | Some x \<Rightarrow> x)"
    using g refs table_rep_find(2) [OF rep b xs, of g] by (auto simp: Hop_TableLookup_def hashable_def obj_reads)
  have key: "node_key m x = ?b" if "same_node (deref m x) g" for x
    unfolding node_key_def using that by (intro Hop_Hash_cong) (simp_all add: same_node_def obj_reads)
  show ?thesis
  proof (cases ?f)
    case None
    then have "\<forall>x\<in>S. \<not> same_node (deref m x) g" using xs(3) key by (auto simp: find_None_iff)
    then show ?thesis using None eq by simp
  next
    case (Some x)
    then have "x \<in> set xs" "same_node (deref m x) g" by (auto simp: find_Some_iff)
    moreover from this have "x \<in> S" "x \<noteq> 0" using xs(3) rep by (auto simp: table_rep_def obj_at_def)
    ultimately show ?thesis using Some eq by simp
  qed
qed


lemma Hop_TableDelete_val:
  assumes rep: "table_rep m S" and x: "x \<in> S" "hashable m (deref m x)"
  shows "\<exists>m'. Hop_TableDelete m x = Inr m' \<and> table_rep m' (S - {x}) \<and> relinked S m m'"
proof -
  have "even x" using table_rep_obj [OF rep x(1)] by (simp add: obj_at_def)
  then show ?thesis
    using Hop_TableFind_old [OF rep x] by (auto simp: Hop_TableDelete_def Hop_IsComplement_odd Let_def nx_def)
qed

text \<open>Rehashing: one list, then all of them.\<close>

lemma resize_walk_val:
  assumes "table_rep p D" "chain (nx p) e xs" "distinct xs" "set xs \<inter> D = {}"
    "\<forall>x\<in>set xs. obj_at p x \<and> hashable p (deref p x)" "length xs < fuel"
  shows "\<exists>p'. resize_walk fuel e (c, p) = Inr (c + length xs, p') \<and> table_rep p' (D \<union> set xs) \<and>
    relinked (D \<union> set xs) p p'"
  using assms
proof (induction xs arbitrary: fuel e c p D)
  case Nil
  then show ?case by (cases fuel) (simp_all add: relinked_refl)
next
  case (Cons x xs)
  obtain f where f: "fuel = Suc f" using Cons.prems(6) by (cases fuel) auto
  have e: "e = x" "x \<noteq> 0" "chain (nx p) (nx p x) xs" using Cons.prems(2) by auto
  have x: "obj_at p x" "x \<notin> D" "hashable p (deref p x)" using Cons.prems(4,5) by auto
  obtain pl where pl: "Hop_TableFind p x = Inr pl" "place_get p pl = 0"
    "table_rep (set_next x 0 (place_set pl x p)) (insert x D)" "relinked (insert x D) p (set_next x 0 (place_set pl x p))"
    using Hop_TableFind_new [OF Cons.prems(1) x] by blast
  let ?p = "set_next x 0 (place_set pl x p)"
  have out: "y \<notin> insert x D" "obj_at p y" if "y \<in> set xs" for y using that Cons.prems(3-5) by auto
  have "nx p y = nx ?p y" if "y \<in> set xs" for y
    using pl(4) out [OF that] by (simp add: nx_def relinked_def)
  with e(3) have 1: "chain (nx ?p) (nx p x) xs" by (rule chain_same)
  have 2: "\<forall>y\<in>set xs. obj_at ?p y \<and> hashable ?p (deref ?p y)"
    using Cons.prems(5) relinked_fields(7) [OF pl(4)] hashable_relinked [OF pl(4)] by simp
  have 3: "distinct xs" "set xs \<inter> insert x D = {}" "length xs < f" using Cons.prems(3,4,6) f by auto
  obtain p' where p': "resize_walk f (nx p x) (c + 1, ?p) = Inr (c + 1 + length xs, p')"
    "table_rep p' (insert x D \<union> set xs)" "relinked (insert x D \<union> set xs) ?p p'"
    using Cons.IH [OF pl(3) 1 3(1,2) 2 3(3)] by blast
  have "relinked (D \<union> set (x # xs)) p p'" by (rule relinked_trans [OF pl(4) p'(3)]) auto
  moreover have "resize_walk fuel e (c, p) = Inr (c + length (x # xs), p')"
    using e(1,2) pl(1,2) p'(1) by (simp add: f Let_def nx_def)
  ultimately show ?case using p'(2) by (intro exI [of _ p']) simp
qed

lemma Hop_TableResize_val:
  assumes rep: "table_rep m S" and S: "\<forall>x\<in>S. hashable m (deref m x)" "card S = Hop_ManNodeNum m"
  shows "\<exists>m'. Hop_TableResize m = Inr m' \<and> table_rep m' S \<and> relinked S m m' \<and>
    nTableSize m' = Abc_PrimeCudd (2 * Hop_ManNodeNum m)"
proof -
  let ?n = "Abc_PrimeCudd (2 * Hop_ManNodeNum m)" and ?old = "pTable m"
  define m0 where "m0 = m\<lparr>nTableSize := ?n, pTable := replicate ?n 0\<rparr>"
  define D where "D i = {x \<in> S. node_key m x < i}" for i
  have "odd_prime ?n" using Abc_PrimeCudd_val by blast
  then have n: "0 < ?n" by (cases ?n) (auto simp: odd_prime_def)
  have m0: "relinked {} m m0" by (simp add: m0_def relinked_def deref_def)
  have rep0: "table_rep m0 (D 0)"
    using n by (simp add: table_rep_def m0_def D_def)
  have size: "nTableSize m0 = ?n" by (simp add: m0_def)
  define I where "I i s = (case s of (c, p) \<Rightarrow> table_rep p (D i) \<and> relinked (D i) m0 p \<and> c = card (D i) \<and> nTableSize p = ?n)"
    for i and s :: "nat \<times> Hop_Man"
  have walk_size: "resize_walk fuel e (c, p) = Inr (c', p') \<Longrightarrow> nTableSize p' = nTableSize p" for fuel e c p c' p'
  proof (induction fuel arbitrary: e c p)
    case (Suc fuel)
    show ?case
    proof (cases "e = 0")
      case False
      have "nTableSize (place_set pl v q) = nTableSize q" for pl v q by (cases pl) simp_all
      then show ?thesis using Suc False by (auto simp: Let_def res_bind_Inr split: if_splits)
    qed (use Suc in simp)
  qed simp
  have "returns (run_loop [0..<nTableSize m] (\<lambda>i (Counter, p). resize_walk (Suc (length (Objs p))) (?old ! i) (Counter, p)) (0, m0))
      (I (nTableSize m))"
  proof (rule run_loop_up [where I = I])
    show "I 0 (0, m0)" using rep0 by (simp add: I_def D_def relinked_refl size)
    fix i s assume i: "0 \<le> i" "i < nTableSize m" and s: "I i s"
    obtain c p where cp: "s = (c, p)" by force
    have I: "table_rep p (D i)" "relinked (D i) m0 p" "c = card (D i)" "nTableSize p = ?n" using s by (simp_all add: I_def cp)
    have R: "relinked (D i) m p" using relinked_trans [OF m0 I(2)] by simp
    obtain xs where xs: "chain (nx m) (?old ! i) xs" "distinct xs" "set xs = {x \<in> S. node_key m x = i}"
      by (rule table_repD [OF rep i(2)])
    have out: "y \<notin> D i" "obj_at m y" "y \<in> S" if "y \<in> set xs" for y
      using that xs(3) table_rep_obj [OF rep] by (auto simp: D_def)
    have "nx m y = nx p y" if "y \<in> set xs" for y using R out [OF that] by (simp add: nx_def relinked_def)
    with xs(1) have ch: "chain (nx p) (?old ! i) xs" by (rule chain_same)
    have ok: "\<forall>x\<in>set xs. obj_at p x \<and> hashable p (deref p x)"
      using out S(1) relinked_fields(7) [OF R] hashable_relinked [OF R] by simp
    have disj: "set xs \<inter> D i = {}" using out(1) by blast
    have len: "length xs < Suc (length (Objs p))" using chain_length [OF xs(2)] ok by blast
    obtain p' where p': "resize_walk (Suc (length (Objs p))) (?old ! i) (c, p) = Inr (c + length xs, p')"
      "table_rep p' (D i \<union> set xs)" "relinked (D i \<union> set xs) p p'"
      using resize_walk_val [OF I(1) ch xs(2) disj ok len] by blast
    have D: "D (Suc i) = D i \<union> set xs" using xs(3) by (auto simp: D_def less_Suc_eq)
    have "finite (D i)"
    proof (rule finite_subset)
      show "D i \<subseteq> addr ` {..<length (Objs m)}"
        using addr_index table_rep_obj [OF rep] by (force simp: D_def obj_at_def intro!: image_eqI [where x = "index _"])
    qed simp
    then have "card (D (Suc i)) = c + length xs"
      unfolding D using disj xs(2) by (simp add: card_Un_disjoint Int_commute distinct_card I(3))
    moreover have "relinked (D (Suc i)) m0 p'" using relinked_trans [OF I(2) p'(3)] by (simp add: D)
    ultimately have "I (Suc i) (c + length xs, p')"
      using p'(2) walk_size [OF p'(1)] I(4) by (simp add: I_def D)
    then show "returns ((\<lambda>(Counter, p). resize_walk (Suc (length (Objs p))) (?old ! i) (Counter, p)) s) (I (Suc i))"
      using p'(1) by (simp add: cp)
  qed simp
  then obtain c p where run: "run_loop [0..<nTableSize m] (\<lambda>i (Counter, p). resize_walk (Suc (length (Objs p))) (?old ! i) (Counter, p)) (0, m0) = Inr (c, p)"
    and I: "I (nTableSize m) (c, p)" by (auto elim: returnsE)
  have D: "D (nTableSize m) = S" using node_key_less [OF rep] by (auto simp: D_def)
  have "relinked S m p" using relinked_trans [OF m0, of S p S] I by (simp add: I_def D)
  moreover from this have "Hop_ManNodeNum p = Hop_ManNodeNum m" by (simp add: Hop_ManNodeNum_def relinked_fields)
  moreover have "Hop_TableResize m = Inr p"
    using run I S(2) \<open>Hop_ManNodeNum p = Hop_ManNodeNum m\<close> unfolding Hop_TableResize_def Let_def by (simp add: m0_def I_def D)
  ultimately show ?thesis using I by (intro exI [of _ p]) (simp add: I_def D)
qed

lemma Hop_TableInsert_val:
  assumes rep: "table_rep m S" and S: "\<forall>x\<in>S. hashable m (deref m x)" "card S = Hop_ManNodeNum m"
    and x: "obj_at m x" "x \<notin> S" "hashable m (deref m x)" "nx m x = 0"
    and new: "\<forall>y\<in>S. \<not> same_node (deref m y) (deref m x)"
    and refs: "fRefCount m \<Longrightarrow> nRefs (deref m (Hop_Regular (pFanin0 (deref m x)))) \<noteq> 0 \<and> nRefs (deref m (Hop_Regular (pFanin1 (deref m x)))) \<noteq> 0"
  shows "\<exists>m'. Hop_TableInsert m x = Inr m' \<and> table_rep m' (insert x S) \<and> relinked (insert x S) m m'"
proof -
  have even: "even x" using x(1) by (simp add: obj_at_def)
  have look: "Hop_TableLookup m (deref m x) = Inr 0"
    using Hop_TableLookup_val [OF rep x(3) refs] new by (auto split: if_splits)
  define r where "r = (if Id_o (deref m x) AND 0xFF = 0 \<and> 2 * nTableSize m < Hop_ManNodeNum m then Hop_TableResize m else Inr m)"
  obtain m1 where m1: "r = Inr m1" "table_rep m1 S" "relinked S m m1"
    using Hop_TableResize_val [OF rep S] rep relinked_refl unfolding r_def by (metis (full_types))
  have x1: "obj_at m1 x" "hashable m1 (deref m1 x)" "nx m1 x = 0"
    using x m1(3) by (simp_all add: relinked_fields(7) [OF m1(3)] hashable_relinked [OF m1(3)]) (simp add: nx_def relinked_def)
  obtain pl where pl: "Hop_TableFind m1 x = Inr pl" "place_get m1 pl = 0"
    "table_rep (place_set pl x m1) (insert x S)" "relinked (insert x S) m1 (place_set pl x m1)"
    using Hop_TableFind_new [OF m1(2) x1(1) x(2) x1(2)] x1(3) by metis
  have "Hop_TableInsert m x = Inr (place_set pl x m1)"
    unfolding Hop_TableInsert_def using even look m1(1) pl(1,2) by (simp add: Hop_IsComplement_odd r_def)
  moreover have "relinked (insert x S) m (place_set pl x m1)" using relinked_trans [OF m1(3) pl(4)] by blast
  ultimately show ?thesis using pl(3) by blast
qed

end
