(* ===== verification/Hop_Oper.thy ===== *)
theory Hop_Oper
  imports Hop_Table Kit_Manager
begin

text \<open>
  Creation of objects and the operations on functions of the AIG package
  (\<open>src/abc-master/src/aig/hop/hopObj.c\<close>, \<open>hopOper.c\<close>). A manager provides the interface of
  \<open>Kit_Manager\<close>: \<open>Hop_And\<close> returns a pointer to an object for the conjunction, an old one if the hash
  table has it. Where the code calls two operations as arguments of a third, whose order C leaves open,
  the model evaluates them from left to right.
\<close>

section \<open>Objects\<close>

definition Hop_ObjCreatePi :: "Hop_Man \<Rightarrow> nat \<times> Hop_Man" where
  "Hop_ObjCreatePi p =
    (let (pObj, p) = Hop_ManFetchMemory p;
         p = update pObj (\<lambda>obj. obj\<lparr>Type_o := AIG_PI\<rparr>) p;
         p = update pObj (\<lambda>obj. obj\<lparr>pNext := length (vPis p)\<rparr>) p;
         p = p\<lparr>vPis := vPis p @ [pObj]\<rparr>;
         p = p\<lparr>nObjs := (nObjs p)(AIG_PI := nObjs p AIG_PI + 1)\<rparr>
     in (pObj, p))"

definition Hop_ObjCreatePo :: "Hop_Man \<Rightarrow> nat \<Rightarrow> nat \<times> Hop_Man" where
  "Hop_ObjCreatePo p pDriver =
    (let (pObj, p) = Hop_ManFetchMemory p;
         p = update pObj (\<lambda>obj. obj\<lparr>Type_o := AIG_PO\<rparr>) p;
         p = p\<lparr>vPos := vPos p @ [pObj]\<rparr>;
         p = update pObj (\<lambda>obj. obj\<lparr>pFanin0 := pDriver\<rparr>) p;
         p = (if fRefCount p then Hop_ObjRef (Hop_Regular pDriver) p
              else update pObj (\<lambda>obj. obj\<lparr>nRefs := nRefs (deref p (Hop_Regular pDriver))\<rparr>) p);
         p = update pObj (\<lambda>obj. obj\<lparr>fPhase := Hop_ObjPhaseCompl p pDriver\<rparr>) p;
         p = p\<lparr>nObjs := (nObjs p)(AIG_PO := nObjs p AIG_PO + 1)\<rparr>
     in (pObj, p))"

definition Hop_ObjConnect :: "Hop_Man \<Rightarrow> nat \<Rightarrow> nat \<Rightarrow> nat \<Rightarrow> Hop_Man res" where
  "Hop_ObjConnect p pObj pFan0 pFan1 =
    (if Hop_IsComplement pObj then Inl AssertFailed
     else if \<not> Hop_ObjIsNode (deref p pObj) then Inl AssertFailed
     else
       let p = update pObj (\<lambda>obj. obj\<lparr>pFanin0 := pFan0, pFanin1 := pFan1\<rparr>) p;
           p = (if fRefCount p then
                  let p = (if pFan0 \<noteq> 0 then Hop_ObjRef (Hop_ObjFanin0 (deref p pObj)) p else p)
                  in if pFan1 \<noteq> 0 then Hop_ObjRef (Hop_ObjFanin1 (deref p pObj)) p else p
                else update pObj (\<lambda>obj. obj\<lparr>nRefs := of_nat (Hop_ObjLevelNew p obj)\<rparr>) p);
           p = update pObj (\<lambda>obj. obj\<lparr>fPhase := Hop_ObjPhaseCompl p pFan0 \<and> Hop_ObjPhaseCompl p pFan1\<rparr>) p
       in Hop_TableInsert p pObj)"

definition Hop_ObjCreate :: "Hop_Man \<Rightarrow> Hop_Obj \<Rightarrow> (nat \<times> Hop_Man) res" where
  "Hop_ObjCreate p pGhost =
    (if \<not> Hop_ObjIsNode pGhost then Inl AssertFailed
     else
       let (pObj, p) = Hop_ManFetchMemory p;
           p = update pObj (\<lambda>obj. obj\<lparr>Type_o := Type_o pGhost\<rparr>) p
       in res_bind (Hop_ObjConnect p pObj (pFanin0 pGhost) (pFanin1 pGhost)) (\<lambda>p.
         let t = Type_o (deref p pObj);
             p = p\<lparr>nObjs := (nObjs p)(t := nObjs p t + 1)\<rparr>
         in if \<not> pData (deref p pObj) = 0 then Inl AssertFailed else Inr (pObj, p)))"

section \<open>Operations\<close>

definition Hop_IthVar :: "Hop_Man \<Rightarrow> nat \<Rightarrow> (nat \<times> Hop_Man) res" where
  "Hop_IthVar p i =
    (let p = fold (\<lambda>v p. snd (Hop_ObjCreatePi p)) [Hop_ManPiNum p..<Suc i] p
     in if \<not> i < length (vPis p) then Inl AssertFailed else Inr (Hop_ManPi p i, p))"

definition Hop_And :: "Hop_Man \<Rightarrow> nat \<Rightarrow> nat \<Rightarrow> (nat \<times> Hop_Man) res" where
  "Hop_And p p0 p1 =
    (if p0 = p1 then Inr (p0, p)
     else if p0 = Hop_Not p1 then Inr (Hop_Not (pConst1 p), p)
     else if Hop_Regular p0 = pConst1 p then Inr (if p0 = pConst1 p then p1 else Hop_Not (pConst1 p), p)
     else if Hop_Regular p1 = pConst1 p then Inr (if p1 = pConst1 p then p0 else Hop_Not (pConst1 p), p)
     else res_bind (Hop_ObjCreateGhost p p0 p1 AIG_AND) (\<lambda>p.
       res_bind (Hop_TableLookup p (Ghost p)) (\<lambda>pResult.
         if pResult \<noteq> 0 then Inr (pResult, p) else Hop_ObjCreate p (Ghost p))))"

definition Hop_Or :: "Hop_Man \<Rightarrow> nat \<Rightarrow> nat \<Rightarrow> (nat \<times> Hop_Man) res" where
  "Hop_Or p p0 p1 = res_bind (Hop_And p (Hop_Not p0) (Hop_Not p1)) (\<lambda>(r, p). Inr (Hop_Not r, p))"

definition Hop_Exor :: "Hop_Man \<Rightarrow> nat \<Rightarrow> nat \<Rightarrow> (nat \<times> Hop_Man) res" where
  "Hop_Exor p p0 p1 =
    res_bind (Hop_And p p0 (Hop_Not p1)) (\<lambda>(a, p).
    res_bind (Hop_And p (Hop_Not p0) p1) (\<lambda>(b, p). Hop_Or p a b))"

definition Hop_Oper :: "Hop_Man \<Rightarrow> nat \<Rightarrow> nat \<Rightarrow> Hop_Type \<Rightarrow> (nat \<times> Hop_Man) res" where
  "Hop_Oper p p0 p1 Type =
    (if Type = AIG_AND then Hop_And p p0 p1
     else if Type = AIG_EXOR then Hop_Exor p p0 p1
     else Inl AssertFailed)"

definition Hop_Mux :: "Hop_Man \<Rightarrow> nat \<Rightarrow> nat \<Rightarrow> nat \<Rightarrow> (nat \<times> Hop_Man) res" where
  "Hop_Mux p pC p1 p0 =
    res_bind (Hop_And p pC p1) (\<lambda>(a, p).
    res_bind (Hop_And p (Hop_Not pC) p0) (\<lambda>(b, p). Hop_Or p a b))"

definition Hop_Maj :: "Hop_Man \<Rightarrow> nat \<Rightarrow> nat \<Rightarrow> nat \<Rightarrow> (nat \<times> Hop_Man) res" where
  "Hop_Maj p pA pB pC =
    res_bind (Hop_And p pA pB) (\<lambda>(a, p).
    res_bind (Hop_And p pA pC) (\<lambda>(b, p).
    res_bind (Hop_Or p a b) (\<lambda>(o1, p).
    res_bind (Hop_And p pB pC) (\<lambda>(c, p). Hop_Or p o1 c))))"

text \<open>Without arguments the recursion of the code does not end; its caller excludes that.\<close>

function Hop_Multi_rec :: "Hop_Man \<Rightarrow> nat list \<Rightarrow> Hop_Type \<Rightarrow> (nat \<times> Hop_Man) res" where
  "Hop_Multi_rec p ppObjs Type =
    (if length ppObjs = 0 then Inl Undefined
     else if length ppObjs = 1 then Inr (ppObjs ! 0, p)
     else
       res_bind (Hop_Multi_rec p (take (length ppObjs div 2) ppObjs) Type) (\<lambda>(pObj1, p).
       res_bind (Hop_Multi_rec p (drop (length ppObjs div 2) ppObjs) Type) (\<lambda>(pObj2, p).
       Hop_Oper p pObj1 pObj2 Type)))"
  by pat_completeness auto
termination
proof (relation "measure (\<lambda>(p, ppObjs, Type). length ppObjs)")
  fix p :: Hop_Man and ppObjs :: "nat list" and Type x and xa :: nat and y :: Hop_Man
  assume "length ppObjs \<noteq> 0" "length ppObjs \<noteq> 1"
  then have "0 < length ppObjs div 2" "length ppObjs div 2 < length ppObjs" by presburger+
  then show "((p, take (length ppObjs div 2) ppObjs, Type), (p, ppObjs, Type)) \<in> measure (\<lambda>(p, ppObjs, Type). length ppObjs)"
    "((y, drop (length ppObjs div 2) ppObjs, Type), (p, ppObjs, Type)) \<in> measure (\<lambda>(p, ppObjs, Type). length ppObjs)"
    by simp_all
qed simp

declare Hop_Multi_rec.simps [simp del]

definition Hop_Multi :: "Hop_Man \<Rightarrow> nat list \<Rightarrow> Hop_Type \<Rightarrow> (nat \<times> Hop_Man) res" where
  "Hop_Multi p pArgs Type =
    (if \<not> (Type = AIG_AND \<or> Type = AIG_EXOR) then Inl AssertFailed
     else if \<not> length pArgs > 0 then Inl AssertFailed
     else Hop_Multi_rec p pArgs Type)"

definition Hop_Miter :: "Hop_Man \<Rightarrow> nat list \<Rightarrow> (nat \<times> nat list \<times> Hop_Man) res" where
  "Hop_Miter p vPairs =
    (if \<not> length vPairs > 0 then Inl AssertFailed
     else if \<not> length vPairs mod 2 = 0 then Inl AssertFailed
     else
       res_bind (run_loop [0..<length vPairs div 2] (\<lambda>j (pArray, p).
           res_bind (Hop_Exor p (pArray ! (2 * j)) (pArray ! (2 * j + 1))) (\<lambda>(r, p).
             Inr (pArray[j := Hop_Not r], p))) (vPairs, p)) (\<lambda>(pArray, p).
       let vPairs = take (length vPairs div 2) pArray in
       res_bind (Hop_Multi_rec p vPairs AIG_AND) (\<lambda>(r, p). Inr (Hop_Not r, vPairs, p))))"

definition Hop_CreateAnd :: "Hop_Man \<Rightarrow> nat \<Rightarrow> (nat \<times> Hop_Man) res" where
  "Hop_CreateAnd p nVars = run_loop [0..<nVars] (\<lambda>i (pFunc, p).
     res_bind (Hop_IthVar p i) (\<lambda>(v, p). Hop_And p pFunc v)) (Hop_ManConst1 p, p)"

definition Hop_CreateOr :: "Hop_Man \<Rightarrow> nat \<Rightarrow> (nat \<times> Hop_Man) res" where
  "Hop_CreateOr p nVars = run_loop [0..<nVars] (\<lambda>i (pFunc, p).
     res_bind (Hop_IthVar p i) (\<lambda>(v, p). Hop_Or p pFunc v)) (Hop_ManConst0 p, p)"

definition Hop_CreateExor :: "Hop_Man \<Rightarrow> nat \<Rightarrow> (nat \<times> Hop_Man) res" where
  "Hop_CreateExor p nVars = run_loop [0..<nVars] (\<lambda>i (pFunc, p).
     res_bind (Hop_IthVar p i) (\<lambda>(v, p). Hop_Exor p pFunc v)) (Hop_ManConst0 p, p)"

section \<open>The invariant of a manager\<close>

text \<open>The AND nodes, and the objects that refer to an object.\<close>

definition nodes :: "Hop_Man \<Rightarrow> nat set" where
  "nodes m = {x. obj_at m x \<and> Type_o (deref m x) = AIG_AND}"

definition fanouts :: "Hop_Man \<Rightarrow> nat \<Rightarrow> nat set" where
  "fanouts m x = {y. obj_at m y \<and>
     (Type_o (deref m y) = AIG_AND \<and> (Hop_Regular (pFanin0 (deref m y)) = x \<or> Hop_Regular (pFanin1 (deref m y)) = x) \<or>
      Type_o (deref m y) = AIG_PO \<and> Hop_Regular (pFanin0 (deref m y)) = x)}"

definition live :: "Hop_Man \<Rightarrow> nat \<Rightarrow> bool" where
  "live m x \<longleftrightarrow> obj_at m x \<and> Type_o (deref m x) \<in> {AIG_CONST1, AIG_PI, AIG_AND}"

text \<open>One object: its number, its fanins and its phase.\<close>

definition fanins_ok :: "Hop_Man \<Rightarrow> nat \<Rightarrow> bool" where
  "fanins_ok m x \<longleftrightarrow>
    (let p0 = pFanin0 (deref m x); p1 = pFanin1 (deref m x); q0 = Hop_Regular p0; q1 = Hop_Regular p1 in
     live m q0 \<and> live m q1 \<and> q0 \<noteq> pConst1 m \<and> q1 \<noteq> pConst1 m \<and> index q0 < index q1 \<and> index q1 < index x \<and>
     fPhase (deref m x) = ((fPhase (deref m q0) \<noteq> Hop_IsComplement p0) \<and> (fPhase (deref m q1) \<noteq> Hop_IsComplement p1)))"

definition obj_ok :: "Hop_Man \<Rightarrow> nat \<Rightarrow> bool" where
  "obj_ok m x \<longleftrightarrow> Id_o (deref m x) = index x \<and>
    (case Type_o (deref m x) of
       AIG_NONE \<Rightarrow> x \<noteq> pConst1 m
     | AIG_CONST1 \<Rightarrow> x = pConst1 m \<and> fPhase (deref m x)
     | AIG_PI \<Rightarrow> x \<noteq> pConst1 m \<and> nx m x < length (vPis m) \<and> vPis m ! nx m x = x \<and> \<not> fPhase (deref m x) \<and>
         pFanin0 (deref m x) = 0 \<and> pFanin1 (deref m x) = 0
     | AIG_PO \<Rightarrow> x \<noteq> pConst1 m \<and> live m (Hop_Regular (pFanin0 (deref m x))) \<and> index (Hop_Regular (pFanin0 (deref m x))) < index x \<and>
         pFanin1 (deref m x) = 0
     | AIG_AND \<Rightarrow> x \<noteq> pConst1 m \<and> fanins_ok m x
     | _ \<Rightarrow> False)"

definition refs_ok :: "Hop_Man \<Rightarrow> nat \<Rightarrow> bool" where
  "refs_ok m x \<longleftrightarrow> card (fanouts m x) \<le> unat (nRefs (deref m x)) \<and> unat (nRefs (deref m x)) \<le> length (Objs m)"

text \<open>The array of outputs and the counters.\<close>

definition counts_ok :: "Hop_Man \<Rightarrow> bool" where
  "counts_ok m \<longleftrightarrow> distinct (vPos m) \<and> set (vPos m) = {x. obj_at m x \<and> Type_o (deref m x) = AIG_PO} \<and>
     nObjs m AIG_PO = length (vPos m) \<and> nDeleted m = card {x. obj_at m x \<and> Type_o (deref m x) = AIG_NONE}"

definition hop_ok :: "Hop_Man \<Rightarrow> bool" where
  "hop_ok m \<longleftrightarrow> nCreated m = length (Objs m) \<and> pConst1 m = addr 0 \<and> 0 < length (Objs m) \<and>
    Type_o (deref m (addr 0)) = AIG_CONST1 \<and>
    (\<forall>x. obj_at m x \<longrightarrow> obj_ok m x) \<and>
    (\<forall>k<length (vPis m). obj_at m (vPis m ! k) \<and> Type_o (deref m (vPis m ! k)) = AIG_PI \<and> nx m (vPis m ! k) = k) \<and>
    nObjs m AIG_PI = length (vPis m) \<and> nObjs m AIG_AND = card (nodes m) \<and> nObjs m AIG_EXOR = 0 \<and>
    table_rep m (nodes m) \<and> counts_ok m \<and>
    (\<forall>x\<in>nodes m. \<forall>y\<in>nodes m. same_node (deref m x) (deref m y) \<longrightarrow> x = y) \<and>
    (fRefCount m \<longrightarrow> (\<forall>x. obj_at m x \<longrightarrow> refs_ok m x))"

definition hop_room :: "Hop_Man \<Rightarrow> nat \<Rightarrow> bool" where
  "hop_room m k \<longleftrightarrow> length (Objs m) + k < 2 ^ 26"

definition hop_valid :: "Hop_Man \<Rightarrow> nat \<Rightarrow> bool" where
  "hop_valid m p \<longleftrightarrow> live m (Hop_Regular p)"

section \<open>What a pointer means\<close>

function obj_val :: "(nat \<Rightarrow> bool) \<Rightarrow> Hop_Man \<Rightarrow> nat \<Rightarrow> bool" where
  "obj_val f m x =
    (case Type_o (deref m x) of
       AIG_CONST1 \<Rightarrow> True
     | AIG_PI \<Rightarrow> f (pNext (deref m x))
     | AIG_AND \<Rightarrow>
         if index (Hop_Regular (pFanin0 (deref m x))) < index x \<and> index (Hop_Regular (pFanin1 (deref m x))) < index x then
           (obj_val f m (Hop_Regular (pFanin0 (deref m x))) \<noteq> Hop_IsComplement (pFanin0 (deref m x))) \<and>
           (obj_val f m (Hop_Regular (pFanin1 (deref m x))) \<noteq> Hop_IsComplement (pFanin1 (deref m x)))
         else False
     | _ \<Rightarrow> False)"
  by pat_completeness auto
termination
  by (relation "measure (\<lambda>(f, m, x). index x)") auto

declare obj_val.simps [simp del]

definition ptr_val :: "(nat \<Rightarrow> bool) \<Rightarrow> Hop_Man \<Rightarrow> nat \<Rightarrow> bool" where
  "ptr_val f m p \<longleftrightarrow> obj_val f m (Hop_Regular p) \<noteq> Hop_IsComplement p"


section \<open>Pointers and values\<close>

lemma Hop_Not_simps [simp]:
  "Hop_Regular (Hop_Not p) = Hop_Regular p" "Hop_IsComplement (Hop_Not p) \<longleftrightarrow> \<not> Hop_IsComplement p"
  "Hop_Not (Hop_Not p) = p" "Hop_Regular (Hop_Regular p) = Hop_Regular p" "\<not> Hop_IsComplement (Hop_Regular p)"
  by (auto simp: Hop_Regular_arith Hop_IsComplement_odd Hop_Not_arith elim!: oddE evenE)

lemma Hop_NotCond_alt: "Hop_NotCond p c = (if c then Hop_Not p else p)"
  by (simp add: Hop_NotCond_def Hop_Not_def)

lemma Hop_NotCond_simps [simp]:
  "Hop_Regular (Hop_NotCond p c) = Hop_Regular p" "Hop_IsComplement (Hop_NotCond p c) \<longleftrightarrow> Hop_IsComplement p \<noteq> c"
  by (simp_all add: Hop_NotCond_alt)

lemma Hop_pointer_eq: "p = q \<longleftrightarrow> Hop_Regular p = Hop_Regular q \<and> Hop_IsComplement p = Hop_IsComplement q"
  unfolding Hop_Regular_arith Hop_IsComplement_odd by (metis div_mult_mod_eq mult.commute odd_iff_mod_2_eq_one parity_cases)

lemma obj_at_regular [simp]: "obj_at m x \<Longrightarrow> Hop_Regular x = x" "obj_at m x \<Longrightarrow> \<not> Hop_IsComplement x"
  by (auto simp: obj_at_def Hop_Regular_arith Hop_IsComplement_odd)

lemma addr_regular [simp]: "Hop_Regular (addr i) = addr i" "\<not> Hop_IsComplement (addr i)"
  by (simp_all add: addr_def Hop_Regular_arith Hop_IsComplement_odd)

lemma ptr_val_Not [simp]: "ptr_val f m (Hop_Not p) \<longleftrightarrow> \<not> ptr_val f m p"
  by (simp add: ptr_val_def)

lemma ptr_val_NotCond [simp]: "ptr_val f m (Hop_NotCond p c) \<longleftrightarrow> ptr_val f m p \<noteq> c"
  by (simp add: Hop_NotCond_alt)

lemma hop_valid_Not [simp]: "hop_valid m (Hop_Not p) = hop_valid m p" "hop_valid m (Hop_NotCond p c) = hop_valid m p"
  by (simp_all add: hop_valid_def)

lemma hop_okD:
  assumes "hop_ok m"
  shows "nCreated m = length (Objs m)" "pConst1 m = addr 0" "0 < length (Objs m)"
    "Type_o (deref m (addr 0)) = AIG_CONST1" "obj_at m x \<Longrightarrow> obj_ok m x" "nObjs m AIG_PI = length (vPis m)"
    "nObjs m AIG_AND = card (nodes m)" "nObjs m AIG_EXOR = 0" "table_rep m (nodes m)"
    "fRefCount m \<Longrightarrow> obj_at m x \<Longrightarrow> refs_ok m x"
    "k < length (vPis m) \<Longrightarrow> obj_at m (vPis m ! k) \<and> Type_o (deref m (vPis m ! k)) = AIG_PI \<and> nx m (vPis m ! k) = k"
    "x \<in> nodes m \<Longrightarrow> y \<in> nodes m \<Longrightarrow> same_node (deref m x) (deref m y) \<Longrightarrow> x = y" "counts_ok m"
  using assms by (auto simp: hop_ok_def)

lemma const_live: "hop_ok m \<Longrightarrow> live m (pConst1 m)"
  using hop_okD(2-4) [of m] by (simp add: live_def)

lemma node_fanins: "hop_ok m \<Longrightarrow> x \<in> nodes m \<Longrightarrow> fanins_ok m x"
  using hop_okD(5) [of m x] by (simp add: nodes_def obj_ok_def)

lemma obj_val_node:
  assumes "hop_ok m" "x \<in> nodes m"
  shows "obj_val f m x \<longleftrightarrow> ptr_val f m (pFanin0 (deref m x)) \<and> ptr_val f m (pFanin1 (deref m x))"
  using node_fanins [OF assms] assms(2)
  by (subst obj_val.simps) (simp add: nodes_def fanins_ok_def Let_def ptr_val_def)

lemma obj_val_const: "hop_ok m \<Longrightarrow> obj_val f m (pConst1 m)"
  by (subst obj_val.simps) (simp add: hop_okD)

lemma ptr_val_const: "hop_ok m \<Longrightarrow> ptr_val f m (pConst1 m)"
  using obj_val_const [of m f] hop_okD(2) [of m] by (simp add: ptr_val_def)

text \<open>What an operation leaves of the objects it finds.\<close>

definition extends :: "Hop_Man \<Rightarrow> Hop_Man \<Rightarrow> bool" where
  "extends m m' \<longleftrightarrow> pConst1 m' = pConst1 m \<and> fRefCount m' = fRefCount m \<and>
     (\<forall>x. obj_at m x \<longrightarrow> obj_at m' x \<and> Id_o (deref m' x) = Id_o (deref m x) \<and> Type_o (deref m' x) = Type_o (deref m x) \<and>
       pFanin0 (deref m' x) = pFanin0 (deref m x) \<and> pFanin1 (deref m' x) = pFanin1 (deref m x) \<and>
       fPhase (deref m' x) = fPhase (deref m x) \<and>
       (Type_o (deref m x) = AIG_PI \<longrightarrow> nx m' x = nx m x))"

lemma extends_refl: "extends m m"
  by (simp add: extends_def)

lemma extends_live: "extends m m' \<Longrightarrow> live m x \<Longrightarrow> live m' x"
  by (simp add: extends_def live_def)

lemma extends_val:
  assumes ok: "hop_ok m" and ext: "extends m m'" and "live m x"
  shows "obj_val f m' x = obj_val f m x"
  using assms(3)
proof (induction "index x" arbitrary: x rule: less_induct)
  case less
  then have x: "obj_at m x" by (simp add: live_def)
  have same: "Type_o (deref m' x) = Type_o (deref m x)" "pFanin0 (deref m' x) = pFanin0 (deref m x)"
    "pFanin1 (deref m' x) = pFanin1 (deref m x)" "Type_o (deref m x) = AIG_PI \<Longrightarrow> pNext (deref m' x) = pNext (deref m x)"
    using ext x by (simp_all add: extends_def nx_def)
  show ?case
  proof (cases "Type_o (deref m x)")
    case AIG_AND
    then have fan: "fanins_ok m x" using node_fanins [OF ok] x by (simp add: nodes_def)
    have "obj_val f m' (Hop_Regular (pFanin0 (deref m x))) = obj_val f m (Hop_Regular (pFanin0 (deref m x)))"
      "obj_val f m' (Hop_Regular (pFanin1 (deref m x))) = obj_val f m (Hop_Regular (pFanin1 (deref m x)))"
      by (rule less.hyps; use fan in \<open>simp add: fanins_ok_def Let_def\<close>)+
    then show ?thesis using AIG_AND same by (subst (1 2) obj_val.simps) simp
  qed (use same in \<open>subst (1 2) obj_val.simps, simp\<close>)+
qed

lemma extends_ptr_val: "hop_ok m \<Longrightarrow> extends m m' \<Longrightarrow> hop_valid m p \<Longrightarrow> hop_valid m' p \<and> ptr_val f m' p = ptr_val f m p"
  using extends_val extends_live by (simp add: ptr_val_def hop_valid_def)

text \<open>The phase of an object is its value when all inputs are 0.\<close>

lemma phase_val: "hop_ok m \<Longrightarrow> live m x \<Longrightarrow> fPhase (deref m x) = obj_val (\<lambda>_. False) m x"
proof (induction "index x" arbitrary: x rule: less_induct)
  case less
  then have x: "obj_at m x" "obj_ok m x" using hop_okD(5) by (auto simp: live_def)
  show ?case
  proof (cases "Type_o (deref m x)")
    case AIG_AND
    then have fan: "fanins_ok m x" using x(2) by (simp add: obj_ok_def)
    have "fPhase (deref m (Hop_Regular (pFanin0 (deref m x)))) = obj_val (\<lambda>_. False) m (Hop_Regular (pFanin0 (deref m x)))"
      "fPhase (deref m (Hop_Regular (pFanin1 (deref m x)))) = obj_val (\<lambda>_. False) m (Hop_Regular (pFanin1 (deref m x)))"
      by (rule less.hyps(1); use fan less.prems in \<open>simp add: fanins_ok_def Let_def\<close>)+
    then show ?thesis using AIG_AND fan by (subst obj_val.simps) (simp add: fanins_ok_def Let_def)
  qed (use x(2) less.prems in \<open>subst obj_val.simps, simp add: obj_ok_def live_def\<close>)+
qed


section \<open>Creating an AND node\<close>

lemma update_more [simp]:
  "nCreated (update p f m) = nCreated m" "nObjs (update p f m) = nObjs m" "fRefCount (update p f m) = fRefCount m"
  "pConst1 (update p f m) = pConst1 m" "nDeleted (update p f m) = nDeleted m" "vPis (update p f m) = vPis m" "vPos (update p f m) = vPos m"
  by (simp_all add: update_def)

text \<open>The manager before the new object is entered in the table.\<close>

definition connected :: "Hop_Man \<Rightarrow> nat \<Rightarrow> nat \<Rightarrow> Hop_Man" where
  "connected m a b =
    (let new = addr (length (Objs m));
         p = snd (Hop_ManFetchMemory m);
         p = update new (\<lambda>obj. obj\<lparr>Type_o := AIG_AND\<rparr>) p;
         p = update new (\<lambda>obj. obj\<lparr>pFanin0 := a, pFanin1 := b\<rparr>) p;
         p = (if fRefCount p then Hop_ObjRef (Hop_Regular b) (Hop_ObjRef (Hop_Regular a) p)
              else update new (\<lambda>obj. obj\<lparr>nRefs := of_nat (Hop_ObjLevelNew p obj)\<rparr>) p)
     in update new (\<lambda>obj. obj\<lparr>fPhase := Hop_ObjPhaseCompl p a \<and> Hop_ObjPhaseCompl p b\<rparr>) p)"

lemma fetch_deref:
  "obj_at m x \<Longrightarrow> deref (snd (Hop_ManFetchMemory m)) x = deref m x"
  "deref (snd (Hop_ManFetchMemory m)) (addr (length (Objs m))) = zero_obj\<lparr>Id_o := nCreated m\<rparr>"
  by (simp_all add: Hop_ManFetchMemory_def deref_def nth_append obj_at_def)

lemma fetch_fields [simp]:
  "fst (Hop_ManFetchMemory m) = addr (length (Objs m))"
  "length (Objs (snd (Hop_ManFetchMemory m))) = Suc (length (Objs m))"
  "obj_at (snd (Hop_ManFetchMemory m)) x \<longleftrightarrow> obj_at m x \<or> x = addr (length (Objs m))"
  "pTable (snd (Hop_ManFetchMemory m)) = pTable m" "nTableSize (snd (Hop_ManFetchMemory m)) = nTableSize m"
  "nCreated (snd (Hop_ManFetchMemory m)) = Suc (nCreated m)" "nObjs (snd (Hop_ManFetchMemory m)) = nObjs m"
  "fRefCount (snd (Hop_ManFetchMemory m)) = fRefCount m" "pConst1 (snd (Hop_ManFetchMemory m)) = pConst1 m"
  "vPis (snd (Hop_ManFetchMemory m)) = vPis m" "vPos (snd (Hop_ManFetchMemory m)) = vPos m"
  "nDeleted (snd (Hop_ManFetchMemory m)) = nDeleted m"
proof -
  show "obj_at (snd (Hop_ManFetchMemory m)) x \<longleftrightarrow> obj_at m x \<or> x = addr (length (Objs m))"
  proof
    assume x: "obj_at (snd (Hop_ManFetchMemory m)) x"
    show "obj_at m x \<or> x = addr (length (Objs m))"
    proof (cases "index x < length (Objs m)")
      case False
      then have "index x = length (Objs m)" using x by (simp add: obj_at_def Hop_ManFetchMemory_def)
      then show ?thesis using addr_index [OF x] by simp
    qed (use x in \<open>simp add: obj_at_def\<close>)
  qed (auto simp: obj_at_def Hop_ManFetchMemory_def addr_def index_def)
qed (simp_all add: Hop_ManFetchMemory_def)

lemma Hop_ObjCreate_eq:
  assumes g: "Type_o g = AIG_AND" "pFanin0 g = a" "pFanin1 g = b" and ab: "obj_at m (Hop_Regular a)" "obj_at m (Hop_Regular b)"
  shows "Hop_ObjCreate m g =
    res_bind (Hop_TableInsert (connected m a b) (addr (length (Objs m)))) (\<lambda>p.
      let t = Type_o (deref p (addr (length (Objs m))));
          p = p\<lparr>nObjs := (nObjs p)(t := nObjs p t + 1)\<rparr>
      in if \<not> pData (deref p (addr (length (Objs m)))) = 0 then Inl AssertFailed else Inr (addr (length (Objs m)), p))"
proof -
  let ?new = "addr (length (Objs m))"
  obtain p where p: "Hop_ManFetchMemory m = (?new, p)" using fetch_fields(1) [of m] by (metis prod.collapse)
  have at: "obj_at p ?new" "obj_at p (Hop_Regular a)" "obj_at p (Hop_Regular b)"
    using fetch_fields(2,3) [of m] ab unfolding p by simp_all
  have nz: "a \<noteq> 0" "b \<noteq> 0" using ab by (auto simp: obj_at_def Hop_Regular_arith)
  let ?p1 = "update ?new (\<lambda>obj. obj\<lparr>Type_o := AIG_AND\<rparr>) p"
  have "Hop_ObjIsNode (deref ?p1 ?new)" using at(1) by (simp add: Hop_ObjIsNode_def deref_update)
  moreover have "Hop_ObjFanin0 (deref (update ?new (\<lambda>obj. obj\<lparr>pFanin0 := a, pFanin1 := b\<rparr>) ?p1) ?new) = Hop_Regular a"
    using at(1) by (simp add: deref_update Hop_ObjFanin0_def)
  moreover have "Hop_ObjFanin1 (deref (Hop_ObjRef (Hop_Regular a) (update ?new (\<lambda>obj. obj\<lparr>pFanin0 := a, pFanin1 := b\<rparr>) ?p1)) ?new) = Hop_Regular b"
    using at by (simp add: deref_update Hop_ObjFanin1_def Hop_ObjRef_def)
  moreover have "Hop_ObjIsNode g" by (simp add: Hop_ObjIsNode_def g)
  ultimately show ?thesis
    using nz by (simp add: Hop_ObjCreate_def g p Hop_ObjConnect_def connected_def Let_def)
qed

lemma connected_fields [simp]:
  "length (Objs (connected m a b)) = Suc (length (Objs m))"
  "obj_at (connected m a b) x \<longleftrightarrow> obj_at m x \<or> x = addr (length (Objs m))"
  "pTable (connected m a b) = pTable m" "nTableSize (connected m a b) = nTableSize m"
  "nCreated (connected m a b) = Suc (nCreated m)" "nObjs (connected m a b) = nObjs m"
  "fRefCount (connected m a b) = fRefCount m" "pConst1 (connected m a b) = pConst1 m"
  "vPis (connected m a b) = vPis m" "vPos (connected m a b) = vPos m"
  "nDeleted (connected m a b) = nDeleted m"
  by (simp_all add: connected_def Let_def Hop_ObjRef_def)

lemma connected_old:
  assumes ab: "obj_at m (Hop_Regular a)" "obj_at m (Hop_Regular b)" and ne: "Hop_Regular a \<noteq> Hop_Regular b" and x: "obj_at m x"
  shows "deref (connected m a b) x = (if fRefCount m \<and> (x = Hop_Regular a \<or> x = Hop_Regular b)
    then (deref m x)\<lparr>nRefs := nRefs (deref m x) + 1\<rparr> else deref m x)"
proof -
  have "x \<noteq> addr (length (Objs m))" using x by auto
  then show ?thesis
    using ab ne x by (auto simp: connected_def Let_def Hop_ObjRef_def deref_update fetch_deref)
qed

lemma connected_new:
  assumes ab: "obj_at m (Hop_Regular a)" "obj_at m (Hop_Regular b)"
  defines "d \<equiv> deref (connected m a b) (addr (length (Objs m)))"
  shows "Type_o d = AIG_AND" "pFanin0 d = a" "pFanin1 d = b" "Id_o d = nCreated m" "pNext d = 0" "pData d = 0"
    "fPhase d = ((fPhase (deref m (Hop_Regular a)) \<noteq> Hop_IsComplement a) \<and> (fPhase (deref m (Hop_Regular b)) \<noteq> Hop_IsComplement b))"
    "fRefCount m \<Longrightarrow> nRefs d = 0" "\<not> fMarkA d"
proof -
  have ne: "Hop_Regular a \<noteq> addr (length (Objs m))" "Hop_Regular b \<noteq> addr (length (Objs m))" using ab by auto
  have reg: "\<not> Hop_IsComplement p \<Longrightarrow> Hop_Regular p = p" for p
    by (simp add: Hop_IsComplement_odd Hop_Regular_arith)
  have phase: "Hop_ObjPhaseCompl k p = (fPhase (deref k (Hop_Regular p)) \<noteq> Hop_IsComplement p)" for k p
    using reg [of p] by (auto simp: Hop_ObjPhaseCompl_def)
  show "Type_o d = AIG_AND" "pFanin0 d = a" "pFanin1 d = b" "Id_o d = nCreated m" "pNext d = 0" "pData d = 0" "\<not> fMarkA d"
    using ab ne by (simp_all add: d_def connected_def Let_def Hop_ObjRef_def deref_update fetch_deref zero_obj_def)
  show "fPhase d = ((fPhase (deref m (Hop_Regular a)) \<noteq> Hop_IsComplement a) \<and> (fPhase (deref m (Hop_Regular b)) \<noteq> Hop_IsComplement b))"
    using ab ne by (auto simp: d_def connected_def Let_def Hop_ObjRef_def deref_update fetch_deref phase)
  show "nRefs d = 0" if "fRefCount m"
    using ab ne that by (simp add: d_def connected_def Let_def Hop_ObjRef_def deref_update fetch_deref zero_obj_def)
qed


text \<open>The table still represents the old nodes, and the new object can be entered.\<close>

lemma table_rep_cong:
  assumes "table_rep m S" "pTable m' = pTable m" "nTableSize m' = nTableSize m"
    "\<And>x. x \<in> S \<Longrightarrow> obj_at m' x \<and> nx m' x = nx m x \<and> node_key m' x = node_key m x"
  shows "table_rep m' S"
proof -
  have "\<exists>xs. chain (nx m') (pTable m' ! b) xs \<and> distinct xs \<and> set xs = {x \<in> S. node_key m' x = b}" if b: "b < nTableSize m'" for b
  proof -
    have "b < nTableSize m" using b assms(3) by simp
    then obtain xs where xs: "chain (nx m) (pTable m ! b) xs" "distinct xs" "set xs = {x \<in> S. node_key m x = b}"
      by (rule table_repD [OF assms(1)])
    have "chain (nx m') (pTable m ! b) xs" using xs(1) by (rule chain_same) (use xs(3) assms(4) in auto)
    moreover have "set xs = {x \<in> S. node_key m' x = b}" using xs(3) assms(4) by auto
    ultimately show ?thesis using xs(2) assms(2) by auto
  qed
  moreover have "nTableSize m' = length (pTable m') \<and> 0 < nTableSize m'"
    unfolding assms(2,3) using assms(1) [unfolded table_rep_def] by blast
  ultimately show ?thesis unfolding table_rep_def using assms(4) by blast
qed

lemma connected_same:
  assumes ab: "obj_at m (Hop_Regular a)" "obj_at m (Hop_Regular b)" and ne: "Hop_Regular a \<noteq> Hop_Regular b" and x: "obj_at m x"
  shows "Type_o (deref (connected m a b) x) = Type_o (deref m x)" "Id_o (deref (connected m a b) x) = Id_o (deref m x)"
    "pFanin0 (deref (connected m a b) x) = pFanin0 (deref m x)" "pFanin1 (deref (connected m a b) x) = pFanin1 (deref m x)"
    "fPhase (deref (connected m a b) x) = fPhase (deref m x)" "nx (connected m a b) x = nx m x"
  by (simp_all add: connected_old [OF assms] nx_def)

lemma nodes_connected:
  assumes "obj_at m (Hop_Regular a)" "obj_at m (Hop_Regular b)" "Hop_Regular a \<noteq> Hop_Regular b"
  shows "nodes (connected m a b) = insert (addr (length (Objs m))) (nodes m)"
  using connected_same(1) [OF assms] connected_new(1) [OF assms(1,2)] by (auto simp: nodes_def)

lemma node_hashable: "hop_ok m \<Longrightarrow> x \<in> nodes m \<Longrightarrow> hashable m (deref m x)"
proof -
  assume ok: "hop_ok m" and x: "x \<in> nodes m"
  let ?q0 = "Hop_Regular (pFanin0 (deref m x))" and ?q1 = "Hop_Regular (pFanin1 (deref m x))"
  have fan: "live m ?q0" "live m ?q1" "index ?q0 < index ?q1" using node_fanins [OF ok x] by (simp_all add: fanins_ok_def Let_def)
  then have "Id_o (deref m ?q0) = index ?q0" "Id_o (deref m ?q1) = index ?q1"
    using hop_okD(5) [OF ok] by (simp_all add: live_def obj_ok_def)
  moreover have "pFanin0 (deref m x) \<noteq> 0" "pFanin1 (deref m x) \<noteq> 0"
    using fan(1,2) by (auto simp: live_def obj_at_def Hop_Regular_arith)
  ultimately show ?thesis using fan(3) by (simp add: hashable_def)
qed

definition and_pair :: "Hop_Man \<Rightarrow> nat \<Rightarrow> nat \<Rightarrow> bool" where
  "and_pair m a b \<longleftrightarrow> live m (Hop_Regular a) \<and> live m (Hop_Regular b) \<and> Hop_Regular a \<noteq> pConst1 m \<and>
     Hop_Regular b \<noteq> pConst1 m \<and> index (Hop_Regular a) < index (Hop_Regular b)"

lemma and_pairD:
  assumes "and_pair m a b"
  shows "obj_at m (Hop_Regular a)" "obj_at m (Hop_Regular b)" "Hop_Regular a \<noteq> Hop_Regular b"
    "live m (Hop_Regular a)" "live m (Hop_Regular b)" "Hop_Regular a \<noteq> pConst1 m" "Hop_Regular b \<noteq> pConst1 m"
    "index (Hop_Regular a) < index (Hop_Regular b)"
  using assms by (auto simp: and_pair_def live_def)

lemma connected_insert:
  assumes ok: "hop_ok m" and room: "hop_room m 1" and ab: "and_pair m a b"
    and new: "\<forall>y\<in>nodes m. \<not> (pFanin0 (deref m y) = a \<and> pFanin1 (deref m y) = b)"
  defines "x \<equiv> addr (length (Objs m))" and "c \<equiv> connected m a b"
  shows "\<exists>m'. Hop_TableInsert c x = Inr m' \<and> table_rep m' (nodes c) \<and> relinked (nodes c) c m'"
proof -
  note D = and_pairD [OF ab]
  note same = connected_same [OF D(1-3), folded c_def] and n = connected_new [OF D(1,2), folded c_def x_def]
  have nodes_c: "nodes c = insert x (nodes m)" using nodes_connected [OF D(1-3)] by (simp add: c_def x_def)
  have old: "obj_at m y" if "y \<in> nodes m" for y using that by (simp add: nodes_def)
  have x: "obj_at c x" "x \<notin> nodes m" by (auto simp: c_def x_def nodes_def)
  have key: "node_key c y = node_key m y" if y: "y \<in> nodes m" for y
  proof -
    have "obj_at m (Hop_Regular (pFanin0 (deref m y)))" "obj_at m (Hop_Regular (pFanin1 (deref m y)))"
      using node_fanins [OF ok y] by (simp_all add: fanins_ok_def live_def Let_def)
    then show ?thesis
      using same old [OF y]
      by (simp add: node_key_def Hop_Hash_def Hop_ObjIsExor_def obj_reads Hop_ObjFaninC0_def Hop_ObjFaninC1_def c_def)
  qed
  have rep: "table_rep c (nodes m)"
    by (rule table_rep_cong [OF hop_okD(9) [OF ok]]) (use same old key in \<open>auto simp: c_def\<close>)
  have id: "Id_o (deref c q) = index q" if "obj_at m q" for q
    using same(2) [OF that] hop_okD(5) [OF ok that] by (simp add: obj_ok_def)
  have hash: "\<forall>y\<in>nodes m. hashable c (deref c y)"
  proof
    fix y assume y: "y \<in> nodes m"
    have "live m (Hop_Regular (pFanin0 (deref m y)))" "live m (Hop_Regular (pFanin1 (deref m y)))"
      using node_fanins [OF ok y] by (simp_all add: fanins_ok_def Let_def)
    then show "hashable c (deref c y)"
      using node_hashable [OF ok y] same old [OF y] by (simp add: hashable_def live_def)
  qed
  have hx: "hashable c (deref c x)"
  proof -
    have "a \<noteq> 0" "b \<noteq> 0" using D(1,2) by (auto simp: obj_at_def Hop_Regular_arith)
    then show ?thesis using D(8) by (simp add: hashable_def n id [OF D(1)] id [OF D(2)])
  qed
  have card: "card (nodes m) = Hop_ManNodeNum c"
    using hop_okD(7,8) [OF ok] by (simp add: Hop_ManNodeNum_def c_def)
  have diff: "\<forall>y\<in>nodes m. \<not> same_node (deref c y) (deref c x)"
    using new same(3,4) old n(2,3) by (auto simp: same_node_def Hop_ObjChild0_def Hop_ObjChild1_def)
  have refs: "nRefs (deref c q) \<noteq> 0" if "fRefCount m" "q = Hop_Regular a \<or> q = Hop_Regular b" for q
  proof -
    have q: "obj_at m q" using that(2) D(1,2) by auto
    have "unat (nRefs (deref m q)) \<le> length (Objs m)" using hop_okD(10) [OF ok that(1) q] by (simp add: refs_ok_def)
    then have "unat (nRefs (deref m q)) + 1 < 2 ^ 26" using room by (simp add: hop_room_def)
    then have "unat (nRefs (deref m q) + 1) = unat (nRefs (deref m q)) + 1"
      by (simp add: unat_word_ariths(1))
    then have "nRefs (deref m q) + 1 \<noteq> 0" by (metis add_is_0 unat_0 zero_neq_one)
    then show ?thesis using connected_old [OF D(1-3) q, folded c_def] that by simp
  qed
  have "nx c x = 0" using n(5) by (simp add: nx_def)
  moreover have "fRefCount c = fRefCount m" by (simp add: c_def)
  ultimately show ?thesis
    using Hop_TableInsert_val [OF rep hash card x hx _ diff] refs by (simp add: nodes_c n(2,3))
qed


lemma obj_ok_extends:
  assumes ext: "extends m m'" and x: "obj_at m x" "obj_ok m x"
    and pis: "\<And>k. k < length (vPis m) \<Longrightarrow> k < length (vPis m') \<and> vPis m' ! k = vPis m ! k"
  shows "obj_ok m' x"
proof -
  have same: "obj_at m' y" "Id_o (deref m' y) = Id_o (deref m y)" "Type_o (deref m' y) = Type_o (deref m y)"
    "pFanin0 (deref m' y) = pFanin0 (deref m y)" "pFanin1 (deref m' y) = pFanin1 (deref m y)"
    "fPhase (deref m' y) = fPhase (deref m y)" "Type_o (deref m y) = AIG_PI \<Longrightarrow> nx m' y = nx m y" if "obj_at m y" for y
    using ext that by (auto simp: extends_def)
  note live = extends_live [OF ext]
  have const: "pConst1 m' = pConst1 m" using ext by (simp add: extends_def)
  have fan: "fanins_ok m' x" if "fanins_ok m x"
  proof -
    have "obj_at m (Hop_Regular (pFanin0 (deref m x)))" "obj_at m (Hop_Regular (pFanin1 (deref m x)))"
      using that by (simp_all add: fanins_ok_def live_def Let_def)
    then show ?thesis using that same live const x(1) by (simp add: fanins_ok_def Let_def)
  qed
  show ?thesis
    using x(2) same [OF x(1)] live const fan pis by (cases "Type_o (deref m x)") (auto simp: obj_ok_def)
qed

lemma finite_obj_at: "finite {x. obj_at m x}"
proof (rule finite_subset)
  show "{x. obj_at m x} \<subseteq> addr ` {..<length (Objs m)}"
  proof
    fix x assume "x \<in> {x. obj_at m x}"
    then have "x = addr (index x)" "index x < length (Objs m)" using addr_index [of m x] by simp_all (simp add: obj_at_def)
    then show "x \<in> addr ` {..<length (Objs m)}" by blast
  qed
qed simp

lemma finite_fanouts [simp]: "finite (fanouts m x)" and finite_nodes [simp]: "finite (nodes m)"
  by (rule finite_subset [OF _ finite_obj_at [of m]]; auto simp: fanouts_def nodes_def)+

text \<open>The fanins of the live objects are older than the objects.\<close>

lemma fanouts_new:
  assumes ok: "hop_ok m" shows "addr (length (Objs m)) \<notin> fanouts m x" "\<not> obj_at m x \<Longrightarrow> fanouts m x = {}"
proof -
  show "addr (length (Objs m)) \<notin> fanouts m x" by (simp add: fanouts_def)
  show "fanouts m x = {}" if "\<not> obj_at m x"
  proof -
    have "y \<notin> fanouts m x" for y
    proof
      assume y: "y \<in> fanouts m x"
      then have "obj_ok m y" using hop_okD(5) [OF ok] by (simp add: fanouts_def)
      then have "live m x" using y by (auto simp: fanouts_def obj_ok_def fanins_ok_def Let_def)
      then show False using that by (simp add: live_def)
    qed
    then show ?thesis by blast
  qed
qed

lemma counts_ok_new:
  assumes ok: "counts_ok m" and x: "\<not> obj_at m x" "\<And>y. obj_at M y \<longleftrightarrow> obj_at m y \<or> y = x"
    and t: "\<And>y. obj_at m y \<Longrightarrow> Type_o (deref M y) = Type_o (deref m y)" "Type_o (deref M x) \<notin> {AIG_NONE, AIG_PO}"
    and f: "vPos M = vPos m" "nObjs M AIG_PO = nObjs m AIG_PO" "nDeleted M = nDeleted m"
  shows "counts_ok M"
proof -
  have "{y. obj_at M y \<and> Type_o (deref M y) = T} = {y. obj_at m y \<and> Type_o (deref m y) = T}" if "T \<in> {AIG_NONE, AIG_PO}" for T
    using x t that by auto
  then show ?thesis using ok by (simp add: counts_ok_def f)
qed

text \<open>What an operation leaves of the data and the marks of the objects it finds; new objects have no mark.\<close>

definition same_data :: "Hop_Man \<Rightarrow> Hop_Man \<Rightarrow> bool" where
  "same_data m m' \<longleftrightarrow> (\<forall>y. obj_at m y \<longrightarrow> pData (deref m' y) = pData (deref m y) \<and> fMarkA (deref m' y) = fMarkA (deref m y)) \<and>
     (\<forall>y. obj_at m' y \<longrightarrow> \<not> obj_at m y \<longrightarrow> \<not> fMarkA (deref m' y))"

lemma same_data_refl: "same_data m m"
  by (simp add: same_data_def)

lemma same_data_trans: "same_data m m1 \<Longrightarrow> extends m m1 \<Longrightarrow> same_data m1 m2 \<Longrightarrow> same_data m m2"
  unfolding same_data_def extends_def by metis

lemma Hop_ObjCreate_val:
  assumes ok: "hop_ok m" and room: "hop_room m 1" and ab: "and_pair m a b"
    and new: "\<forall>y\<in>nodes m. \<not> (pFanin0 (deref m y) = a \<and> pFanin1 (deref m y) = b)"
    and g: "Type_o g = AIG_AND" "pFanin0 g = a" "pFanin1 g = b"
  defines "x \<equiv> addr (length (Objs m))"
  shows "\<exists>m'. Hop_ObjCreate m g = Inr (x, m') \<and> hop_ok m' \<and> extends m m' \<and> length (Objs m') = Suc (length (Objs m)) \<and>
    x \<in> nodes m' \<and> pFanin0 (deref m' x) = a \<and> pFanin1 (deref m' x) = b \<and> vPis m' = vPis m \<and>
    same_data m m'"
proof -
  note D = and_pairD [OF ab]
  let ?c = "connected m a b"
  note same = connected_same [OF D(1-3)] and n = connected_new [OF D(1,2), folded x_def]
  obtain k where k: "Hop_TableInsert ?c x = Inr k" "table_rep k (nodes ?c)" "relinked (nodes ?c) ?c k"
    using connected_insert [OF ok room ab new] unfolding x_def by blast
  note R = relinked_fields [OF k(3)]
  define M where "M = k\<lparr>nObjs := (nObjs k)(AIG_AND := nObjs k AIG_AND + 1)\<rparr>"
  have d: "deref M = deref k" "obj_at M = obj_at k" "nx M = nx k" "node_key M = node_key k"
    by (auto simp: M_def deref_def obj_at_def nx_def node_key_def Hop_Hash_def)
  have md: "pConst1 M = pConst1 k" "fRefCount M = fRefCount k" "vPis M = vPis k" "nCreated M = nCreated k" "Objs M = Objs k"
    "pTable M = pTable k" "nTableSize M = nTableSize k" "vPos M = vPos k" "nDeleted M = nDeleted k" "nObjs M = (nObjs k)(AIG_AND := nObjs k AIG_AND + 1)"
    by (simp_all add: M_def)
  have at: "obj_at k y \<longleftrightarrow> obj_at m y \<or> y = x" for y using R(7) by (simp add: x_def)
  have nodes_c: "nodes ?c = insert x (nodes m)" using nodes_connected [OF D(1-3)] by (simp add: x_def)
  have nodes: "nodes M = insert x (nodes m)" using nodes_c R(2,7) by (simp add: nodes_def d)
  have xm: "\<not> obj_at m x" "x \<notin> nodes m" by (simp_all add: x_def nodes_def)
  have nx_pi: "nx k y = nx m y" if "obj_at m y" "y \<notin> nodes m" for y
  proof -
    have "y \<notin> nodes ?c" "obj_at ?c y" using that xm by (auto simp: nodes_c)
    then have "deref k y = deref ?c y" using k(3) unfolding relinked_def by blast
    then show ?thesis using same(6) [OF that(1)] by (simp add: nx_def)
  qed
  have ext: "extends m M"
    unfolding extends_def d md using same R at nx_pi by (auto simp: nodes_def)
  have "pData (deref k x) = 0"
  proof -
    have "(deref k x)\<lparr>pNext := 0\<rparr> = (deref ?c x)\<lparr>pNext := 0\<rparr>" using k(3) by (simp add: relinked_def)
    from arg_cong [OF this, of pData] show ?thesis using n(6) by simp
  qed
  then have eq: "Hop_ObjCreate m g = Inr (x, M)"
    using Hop_ObjCreate_eq [OF g D(1,2), folded x_def] k(1) R(2) [of x] n(1) by (simp add: Let_def M_def, simp add: deref_def)
  have dx: "Type_o (deref k x) = AIG_AND" "pFanin0 (deref k x) = a" "pFanin1 (deref k x) = b"
    "Id_o (deref k x) = length (Objs m)" "nRefs (deref k x) = nRefs (deref ?c x)"
    "fPhase (deref k x) = ((fPhase (deref m (Hop_Regular a)) \<noteq> Hop_IsComplement a) \<and> (fPhase (deref m (Hop_Regular b)) \<noteq> Hop_IsComplement b))"
    using R(1-6) n hop_okD(1) [OF ok] by simp_all
  have const: "pConst1 M = pConst1 m" "pConst1 k = pConst1 m" using R(11) by (simp_all add: md)
  have fx: "fanins_ok M x"
    unfolding fanins_ok_def d dx const Let_def
    using D extends_live [OF ext] ext by (simp add: extends_def d x_def obj_at_def)
  have objs: "obj_ok M y" if "obj_at M y" for y
  proof (cases "y = x")
    case True
    have "x \<noteq> addr 0" using hop_okD(3) [OF ok] by (auto simp: x_def addr_def)
    then show ?thesis using True fx dx hop_okD(2) [OF ok] by (simp add: obj_ok_def d const, simp add: x_def)
  next
    case False
    then have "obj_at m y" using that at by (simp add: d)
    then show ?thesis using obj_ok_extends [OF ext _ hop_okD(5) [OF ok]] R(12) by (simp add: md)
  qed
  have fan: "fanouts M y = fanouts m y \<union> (if y = Hop_Regular a \<or> y = Hop_Regular b then {x} else {})" for y
  proof (rule set_eqI)
    fix u
    show "u \<in> fanouts M y \<longleftrightarrow> u \<in> fanouts m y \<union> (if y = Hop_Regular a \<or> y = Hop_Regular b then {x} else {})"
    proof (cases "u = x")
      case True
      then show ?thesis using xm(1) dx(1-3) at [of x] by (auto simp: fanouts_def d)
    next
      case False
      then show ?thesis using same(1,3,4) [of u] R(2-4) [of u] at [of u] by (cases "obj_at m u") (simp_all add: fanouts_def d)
    qed
  qed
  have refs: "refs_ok M y" if ref: "fRefCount m" and y: "obj_at M y" for y
  proof (cases "y = x")
    case True
    have "x \<noteq> Hop_Regular a" "x \<noteq> Hop_Regular b" using D(1,2) xm by auto
    then have "fanouts M x = {}" using fanouts_new(2) [OF ok xm(1)] by (simp add: fan)
    then show ?thesis using True n(8) [OF ref] dx(5) by (simp add: refs_ok_def d md)
  next
    case False
    then have ym: "obj_at m y" using y at by (simp add: d)
    have r: "card (fanouts m y) \<le> unat (nRefs (deref m y))" "unat (nRefs (deref m y)) \<le> length (Objs m)"
      using hop_okD(10) [OF ok ref ym] by (simp_all add: refs_ok_def)
    have len: "length (Objs k) = Suc (length (Objs m))" using R(14) by simp
    show ?thesis
    proof (cases "y = Hop_Regular a \<or> y = Hop_Regular b")
      case True
      have "unat (nRefs (deref m y)) + 1 < 2 ^ 26" using r(2) room by (simp add: hop_room_def)
      then have "unat (nRefs (deref m y) + 1) = unat (nRefs (deref m y)) + 1" by (simp add: unat_word_ariths(1))
      moreover have "nRefs (deref k y) = nRefs (deref m y) + 1"
        using R(5) [of y] connected_old [OF D(1-3) ym] ref True by simp
      moreover have "card (fanouts M y) = card (fanouts m y) + 1"
        using True fanouts_new(1) [OF ok, of y] by (simp add: fan x_def)
      ultimately show ?thesis using r len by (simp add: refs_ok_def d md)
    next
      case False
      then have "nRefs (deref k y) = nRefs (deref m y)" using R(5) [of y] connected_old [OF D(1-3) ym] by simp
      then show ?thesis using r len False by (simp add: refs_ok_def d md fan)
    qed
  qed
  have uniq: "y = z" if yz: "y \<in> nodes M" "z \<in> nodes M" "same_node (deref M y) (deref M z)" for y z
  proof -
    have f: "pFanin0 (deref k y) = pFanin0 (deref k z)" "pFanin1 (deref k y) = pFanin1 (deref k z)"
      using yz(3) by (simp_all add: same_node_def d Hop_ObjChild0_def Hop_ObjChild1_def)
    have old: "pFanin0 (deref k u) = pFanin0 (deref m u)" "pFanin1 (deref k u) = pFanin1 (deref m u)"
      "Type_o (deref m u) = AIG_AND" if "u \<in> nodes m" for u
      using that same R(3,4) by (simp_all add: nodes_def)
    show ?thesis
    proof (cases "y = x \<or> z = x")
      case True
      then show ?thesis using f old new dx yz(1,2) nodes by auto
    next
      case False
      then have "y \<in> nodes m" "z \<in> nodes m" using yz nodes by auto
      then show ?thesis using hop_okD(12) [OF ok] f old
        by (simp add: same_node_def Hop_ObjChild0_def Hop_ObjChild1_def)
    qed
  qed
  have rep: "table_rep M (nodes M)"
    by (rule table_rep_cong [of k]) (use k(2) nodes_c nodes table_rep_obj [OF k(2)] in \<open>simp_all add: d md\<close>)
  have pis: "obj_at M (vPis M ! j) \<and> Type_o (deref M (vPis M ! j)) = AIG_PI \<and> nx M (vPis M ! j) = j"
    if "j < length (vPis M)" for j
  proof -
    have "obj_at m (vPis m ! j)" "Type_o (deref m (vPis m ! j)) = AIG_PI" "nx m (vPis m ! j) = j"
      using hop_okD(11) [OF ok, of j] that R(12) by (simp_all add: md)
    then show ?thesis using ext R(12) by (simp add: extends_def md)
  qed
  have "nObjs k = nObjs m" "vPis k = vPis m" "nCreated k = Suc (nCreated m)" "length (Objs k) = Suc (length (Objs m))"
    "fRefCount k = fRefCount m" using R(8,9,10,12,14) by simp_all
  moreover have "Type_o (deref k (addr 0)) = AIG_CONST1"
    using hop_okD(3,4) [OF ok] R(2) [of "addr 0"] same(1) [of "addr 0"] by simp
  moreover have "card (nodes M) = Suc (card (nodes m))" using xm(2) by (simp add: nodes)
  moreover have "counts_ok M"
    by (rule counts_ok_new [OF hop_okD(13) [OF ok] xm(1)])
      (use at same(1) R(2,9,13,15) dx(1) in \<open>simp_all add: d md\<close>)
  ultimately have "hop_ok M"
    unfolding hop_ok_def using hop_okD [OF ok] const objs pis rep uniq refs
    by (intro conjI) (simp_all add: d md)
  moreover have "same_data m M"
    unfolding same_data_def d
  proof (intro conjI allI impI)
    fix y assume y: "obj_at m y"
    show "pData (deref k y) = pData (deref m y)" "fMarkA (deref k y) = fMarkA (deref m y)"
      using R(16,17) [of y] connected_old [OF D(1-3) y] by simp_all
  next
    fix y assume "obj_at k y" "\<not> obj_at m y"
    then have "y = x" using at by simp
    then show "\<not> fMarkA (deref k y)" using R(17) [of x] n(9) by simp
  qed
  ultimately show ?thesis using eq ext dx nodes R(12,14) by (intro exI [of _ M]) (simp add: d md)
qed


section \<open>The conjunction\<close>

text \<open>The ghost is no part of the invariant.\<close>

lemma ghost_frame [simp]:
  "deref (m\<lparr>Ghost := g\<rparr>) = deref m" "obj_at (m\<lparr>Ghost := g\<rparr>) = obj_at m" "nx (m\<lparr>Ghost := g\<rparr>) = nx m"
  "node_key (m\<lparr>Ghost := g\<rparr>) = node_key m" "live (m\<lparr>Ghost := g\<rparr>) = live m" "nodes (m\<lparr>Ghost := g\<rparr>) = nodes m"
  "fanouts (m\<lparr>Ghost := g\<rparr>) = fanouts m" "hop_room (m\<lparr>Ghost := g\<rparr>) = hop_room m"
  by (auto simp: fun_eq_iff deref_def obj_at_def nx_def node_key_def Hop_Hash_def live_def nodes_def fanouts_def hop_room_def)

lemma ghost_ok [simp]: "hop_ok (m\<lparr>Ghost := g\<rparr>) = hop_ok m"
proof -
  have fan: "fanins_ok (m\<lparr>Ghost := g\<rparr>) = fanins_ok m" by (simp add: fun_eq_iff fanins_ok_def)
  have "table_rep (m\<lparr>Ghost := g\<rparr>) = table_rep m" by (simp add: fun_eq_iff table_rep_def)
  moreover have "refs_ok (m\<lparr>Ghost := g\<rparr>) = refs_ok m" by (simp add: fun_eq_iff refs_ok_def)
  moreover from fan have "obj_ok (m\<lparr>Ghost := g\<rparr>) = obj_ok m"
    by (simp add: fun_eq_iff obj_ok_def split: Hop_Type.split)
  moreover have "counts_ok (m\<lparr>Ghost := g\<rparr>) = counts_ok m" by (simp add: counts_ok_def)
  ultimately show ?thesis by (simp add: hop_ok_def)
qed

lemma ghost_extends: "extends m (m\<lparr>Ghost := g\<rparr>)" "extends (m\<lparr>Ghost := g\<rparr>) m' \<Longrightarrow> extends m m'"
  by (simp_all add: extends_def)

lemma ghost_and_pair: "and_pair (m\<lparr>Ghost := g\<rparr>) a b = and_pair m a b"
  by (simp add: and_pair_def)

lemma ghost_data: "same_data m (m\<lparr>Ghost := g\<rparr>)" "same_data (m\<lparr>Ghost := g\<rparr>) m' = same_data m m'"
  by (simp_all add: same_data_def)

lemma lookup_ghost: "Hop_TableLookup (m\<lparr>Ghost := g\<rparr>) h = Hop_TableLookup m h"
proof -
  have "lookup_walk n (m\<lparr>Ghost := g\<rparr>) h e = lookup_walk n m h e" for n e
    by (induction n arbitrary: e) simp_all
  moreover have "Hop_Hash (m\<lparr>Ghost := g\<rparr>) h n = Hop_Hash m h n" for n
    by (simp add: Hop_Hash_def Let_def)
  ultimately show ?thesis by (auto simp: Hop_TableLookup_def simp del: lookup_walk.simps)
qed

lemma live_id: "hop_ok m \<Longrightarrow> live m x \<Longrightarrow> Id_o (deref m x) = index x"
  using hop_okD(5) by (simp add: live_def obj_ok_def)

lemma live_const: "hop_ok m \<Longrightarrow> live m x \<Longrightarrow> Type_o (deref m x) = AIG_CONST1 \<longleftrightarrow> x = pConst1 m"
  using hop_okD(5) [of m x] hop_okD(2,4) [of m] by (auto simp: live_def obj_ok_def)

text \<open>The ghost of two pointers to different objects has them in the order of their numbers.\<close>

lemma Hop_ObjCreateGhost_val:
  assumes ok: "hop_ok m" and ab: "hop_valid m a" "hop_valid m b" "Hop_Regular a \<noteq> pConst1 m" "Hop_Regular b \<noteq> pConst1 m"
    "Hop_Regular a \<noteq> Hop_Regular b"
  shows "\<exists>g c d. Hop_ObjCreateGhost m a b AIG_AND = Inr (m\<lparr>Ghost := g\<rparr>) \<and> Type_o g = AIG_AND \<and>
    pFanin0 g = c \<and> pFanin1 g = d \<and> and_pair m c d \<and> (c = a \<and> d = b \<or> c = b \<and> d = a)"
proof -
  have l: "live m (Hop_Regular a)" "live m (Hop_Regular b)" using ab(1,2) by (simp_all add: hop_valid_def)
  have id: "Id_o (deref m (Hop_Regular a)) = index (Hop_Regular a)" "Id_o (deref m (Hop_Regular b)) = index (Hop_Regular b)"
    using live_id [OF ok] l by simp_all
  have t: "\<not> Hop_ObjIsConst1 (deref m (Hop_Regular a))" "\<not> Hop_ObjIsConst1 (deref m (Hop_Regular b))"
    using live_const [OF ok] l ab(3,4) by (simp_all add: Hop_ObjIsConst1_def)
  have ne: "index (Hop_Regular a) \<noteq> index (Hop_Regular b)" using l ab(5) index_inject by (auto simp: live_def)
  show ?thesis
  proof (cases "index (Hop_Regular a) < index (Hop_Regular b)")
    case True
    then have "Hop_ObjCreateGhost m a b AIG_AND = Inr (m\<lparr>Ghost := (Ghost m)\<lparr>Type_o := AIG_AND, pFanin0 := a, pFanin1 := b\<rparr>\<rparr>)"
      using t ab(5) id by (simp add: Hop_ObjCreateGhost_def)
    moreover have "and_pair m a b" using True l ab(3,4) by (simp add: and_pair_def)
    ultimately show ?thesis
      by (intro exI [of _ "(Ghost m)\<lparr>Type_o := AIG_AND, pFanin0 := a, pFanin1 := b\<rparr>"] exI [of _ a] exI [of _ b]) simp
  next
    case False
    then have "Hop_ObjCreateGhost m a b AIG_AND = Inr (m\<lparr>Ghost := (Ghost m)\<lparr>Type_o := AIG_AND, pFanin0 := b, pFanin1 := a\<rparr>\<rparr>)"
      using t ab(5) id by (simp add: Hop_ObjCreateGhost_def)
    moreover have "and_pair m b a" using False ne l ab(3,4) by (simp add: and_pair_def)
    ultimately show ?thesis
      by (intro exI [of _ "(Ghost m)\<lparr>Type_o := AIG_AND, pFanin0 := b, pFanin1 := a\<rparr>"] exI [of _ b] exI [of _ a]) simp
  qed
qed

lemma lookup_pair:
  assumes ok: "hop_ok m" and g: "and_pair m (pFanin0 g) (pFanin1 g)" "Type_o g = AIG_AND"
  shows "\<exists>r. Hop_TableLookup m g = Inr r \<and>
    (if r = 0 then \<forall>y\<in>nodes m. \<not> (pFanin0 (deref m y) = pFanin0 g \<and> pFanin1 (deref m y) = pFanin1 g)
     else r \<in> nodes m \<and> pFanin0 (deref m r) = pFanin0 g \<and> pFanin1 (deref m r) = pFanin1 g)"
proof -
  note D = and_pairD [OF g(1)]
  have "pFanin0 g \<noteq> 0" "pFanin1 g \<noteq> 0" using D(1,2) by (auto simp: obj_at_def Hop_Regular_arith)
  then have hash: "hashable m g" using D(4,5,8) live_id [OF ok] by (simp add: hashable_def)
  have same: "same_node (deref m y) g \<longleftrightarrow> pFanin0 (deref m y) = pFanin0 g \<and> pFanin1 (deref m y) = pFanin1 g" if "y \<in> nodes m" for y
    using that g(2) by (simp add: nodes_def same_node_def Hop_ObjChild0_def Hop_ObjChild1_def)
  let ?q0 = "Hop_Regular (pFanin0 g)" and ?q1 = "Hop_Regular (pFanin1 g)"
  show ?thesis
  proof (cases "fRefCount m \<and> (nRefs (deref m ?q0) = 0 \<or> nRefs (deref m ?q1) = 0)")
    case True
    then have eq: "Hop_TableLookup m g = Inr 0" using hash by (auto simp: Hop_TableLookup_def hashable_def obj_reads)
    have "fanouts m q = {}" if "nRefs (deref m q) = 0" "obj_at m q" for q
      using hop_okD(10) [OF ok _ that(2)] True that(1) by (simp add: refs_ok_def)
    then have "fanouts m ?q0 = {} \<or> fanouts m ?q1 = {}" using True D(1,2) by auto
    then have "\<not> (pFanin0 (deref m y) = pFanin0 g \<and> pFanin1 (deref m y) = pFanin1 g)" if "y \<in> nodes m" for y
      using that by (auto simp: fanouts_def nodes_def)
    then show ?thesis using eq by simp
  next
    case False
    then show ?thesis
      using Hop_TableLookup_val [OF hop_okD(9) [OF ok] hash] same by (auto split: if_splits)
  qed
qed

abbreviation hop_made :: "nat \<Rightarrow> Hop_Man \<Rightarrow> nat \<times> Hop_Man \<Rightarrow> ((nat \<Rightarrow> bool) \<Rightarrow> bool) \<Rightarrow> bool" where
  "hop_made \<equiv> made hop_ok hop_room hop_valid ptr_val"

lemma hop_made_same: "hop_ok m \<Longrightarrow> hop_valid m p \<Longrightarrow> (\<And>f. ptr_val f m p = F f) \<Longrightarrow> hop_made k m (p, m) F"
  by (auto simp: made_def hop_room_def)

lemma hop_made_extends:
  assumes "hop_ok m" "hop_ok m'" "extends m m'" "length (Objs m') \<le> length (Objs m) + k" "hop_valid m' p" "\<And>f. ptr_val f m' p = F f"
  shows "hop_made k m (p, m') F"
  using assms extends_ptr_val [OF assms(1,3)] by (auto simp: made_def hop_room_def)

text \<open>The same with all fields of the objects found that an operation keeps.\<close>

definition hop_new :: "nat \<Rightarrow> Hop_Man \<Rightarrow> nat \<times> Hop_Man \<Rightarrow> ((nat \<Rightarrow> bool) \<Rightarrow> bool) \<Rightarrow> bool" where
  "hop_new k m r F \<longleftrightarrow> hop_ok (snd r) \<and> extends m (snd r) \<and> length (Objs (snd r)) \<le> length (Objs m) + k \<and>
     hop_valid (snd r) (fst r) \<and> (\<forall>f. ptr_val f (snd r) (fst r) = F f) \<and> vPis (snd r) = vPis m \<and> same_data m (snd r)"

lemma hop_new_made: "hop_ok m \<Longrightarrow> hop_new k m r F \<Longrightarrow> hop_made k m r F"
  using hop_made_extends [of m "snd r" k "fst r" F] by (simp add: hop_new_def)

lemma hop_new_same: "hop_ok m \<Longrightarrow> hop_valid m p \<Longrightarrow> (\<And>f. ptr_val f m p = F f) \<Longrightarrow> hop_new k m (p, m) F"
  by (simp add: hop_new_def extends_refl same_data_refl)

lemma hop_newI:
  "hop_ok m' \<Longrightarrow> extends m m' \<Longrightarrow> length (Objs m') \<le> length (Objs m) + k \<Longrightarrow> vPis m' = vPis m \<Longrightarrow> same_data m m' \<Longrightarrow> hop_valid m' p \<Longrightarrow>
   (\<And>f. ptr_val f m' p = F f) \<Longrightarrow> hop_new k m (p, m') F"
  by (simp add: hop_new_def)

lemma node_ptr: "x \<in> nodes m \<Longrightarrow> hop_valid m x" "x \<in> nodes m \<Longrightarrow> ptr_val f m x = obj_val f m x"
  by (auto simp: nodes_def hop_valid_def live_def ptr_val_def)

lemma Hop_And_new:
  assumes ok: "hop_ok m" and room: "hop_room m 1" and ab: "hop_valid m a" "hop_valid m b"
  shows "returns (Hop_And m a b) (\<lambda>r. hop_new 1 m r (\<lambda>f. ptr_val f m a \<and> ptr_val f m b))"
proof -
  let ?F = "\<lambda>f. ptr_val f m a \<and> ptr_val f m b"
  have const: "hop_valid m (pConst1 m)" "\<And>f. ptr_val f m (pConst1 m)"
    using const_live [OF ok] hop_okD(2) [OF ok] ptr_val_const [OF ok] by (simp_all add: hop_valid_def)
  have reg: "p = pConst1 m \<or> p = Hop_Not (pConst1 m)" if "Hop_Regular p = pConst1 m" for p
    using that hop_okD(2) [OF ok] Hop_pointer_eq [of p "pConst1 m"] Hop_pointer_eq [of p "Hop_Not (pConst1 m)"] by auto
  have ne_const: "Hop_Not (pConst1 m) \<noteq> pConst1 m"
    using Hop_pointer_eq [of "Hop_Not (pConst1 m)" "pConst1 m"] by simp
  consider "a = b" | "a = Hop_Not b" | "a \<noteq> b" "a \<noteq> Hop_Not b" "Hop_Regular a = pConst1 m"
    | "a \<noteq> b" "a \<noteq> Hop_Not b" "Hop_Regular a \<noteq> pConst1 m" "Hop_Regular b = pConst1 m"
    | "a \<noteq> b" "a \<noteq> Hop_Not b" "Hop_Regular a \<noteq> pConst1 m" "Hop_Regular b \<noteq> pConst1 m" by blast
  then show ?thesis
  proof cases
    case 1
    then show ?thesis using hop_new_same [OF ok ab(1), of ?F 1] by (simp add: Hop_And_def)
  next
    case 2
    then have "Hop_And m a b = Inr (Hop_Not (pConst1 m), m)"
      using Hop_pointer_eq [of "Hop_Not b" b] by (simp add: Hop_And_def)
    then show ?thesis using 2 const hop_new_same [OF ok, of "Hop_Not (pConst1 m)" ?F 1] by simp
  next
    case 3
    then have "Hop_And m a b = Inr (if a = pConst1 m then b else Hop_Not (pConst1 m), m)" by (simp add: Hop_And_def)
    moreover have "hop_new 1 m (if a = pConst1 m then b else Hop_Not (pConst1 m), m) ?F"
      by (rule hop_new_same [OF ok]) (use reg [OF 3(3)] const ab ne_const in auto)
    ultimately show ?thesis by simp
  next
    case 4
    then have "Hop_And m a b = Inr (if b = pConst1 m then a else Hop_Not (pConst1 m), m)" by (simp add: Hop_And_def)
    moreover have "hop_new 1 m (if b = pConst1 m then a else Hop_Not (pConst1 m), m) ?F"
      by (rule hop_new_same [OF ok]) (use reg [OF 4(4)] const ab ne_const in auto)
    ultimately show ?thesis by simp
  next
    case 5
    have ne: "Hop_Regular a \<noteq> Hop_Regular b"
      using 5(1,2) Hop_pointer_eq [of a b] Hop_pointer_eq [of a "Hop_Not b"] by auto
    obtain g c d where g: "Hop_ObjCreateGhost m a b AIG_AND = Inr (m\<lparr>Ghost := g\<rparr>)" "Type_o g = AIG_AND"
      "pFanin0 g = c" "pFanin1 g = d" "and_pair m c d" "c = a \<and> d = b \<or> c = b \<and> d = a"
      using Hop_ObjCreateGhost_val [OF ok ab 5(3,4) ne] by blast
    let ?m = "m\<lparr>Ghost := g\<rparr>"
    have F: "ptr_val f m c \<and> ptr_val f m d \<longleftrightarrow> ?F f" for f using g(6) by auto
    have cd: "hop_valid m c" "hop_valid m d" using g(6) ab by auto
    obtain r where r: "Hop_TableLookup m g = Inr r"
      "if r = 0 then \<forall>y\<in>nodes m. \<not> (pFanin0 (deref m y) = c \<and> pFanin1 (deref m y) = d)
       else r \<in> nodes m \<and> pFanin0 (deref m r) = c \<and> pFanin1 (deref m r) = d"
      using lookup_pair [OF ok, of g] g by auto
    have start: "Hop_And m a b = (if r \<noteq> 0 then Inr (r, ?m) else Hop_ObjCreate ?m g)"
      using 5 g(1) r(1) by (simp add: Hop_And_def lookup_ghost)
    show ?thesis
    proof (cases "r = 0")
      case False
      then have rn: "r \<in> nodes ?m" "pFanin0 (deref m r) = c" "pFanin1 (deref m r) = d" using r(2) by simp_all
      have "ptr_val f ?m r = ?F f" for f
        using node_ptr(2) [OF rn(1), of f] obj_val_node [of ?m r f] ok rn(2,3) F cd
          extends_ptr_val [OF ok ghost_extends(1) cd(1), of g f] extends_ptr_val [OF ok ghost_extends(1) cd(2), of g f] rn(1)
        by simp
      then have "hop_new 1 m (r, ?m) ?F"
        by (intro hop_newI [OF _ ghost_extends(1)]) (use ok node_ptr(1) [OF rn(1)] ghost_data in simp_all)
      then show ?thesis using False start by simp
    next
      case True
      have okm: "hop_ok ?m" "hop_room ?m 1" "and_pair ?m c d" using ok room g(5) by (simp_all add: ghost_and_pair)
      have "\<forall>y\<in>nodes ?m. \<not> (pFanin0 (deref ?m y) = c \<and> pFanin1 (deref ?m y) = d)" using True r(2) by simp
      from Hop_ObjCreate_val [OF okm this g(2-4)]
      obtain m' where m': "Hop_ObjCreate ?m g = Inr (addr (length (Objs m)), m')" "hop_ok m'" "extends m m'"
        "length (Objs m') = Suc (length (Objs m))" "addr (length (Objs m)) \<in> nodes m'"
        "pFanin0 (deref m' (addr (length (Objs m)))) = c" "pFanin1 (deref m' (addr (length (Objs m)))) = d" "vPis m' = vPis m" "same_data m m'"
        using ghost_extends(2) ghost_data(2) by auto
      have "ptr_val f m' (addr (length (Objs m))) = ?F f" for f
        using node_ptr(2) [OF m'(5), of f] obj_val_node [OF m'(2,5), of f] m'(6,7) F
          extends_ptr_val [OF ok m'(3) cd(1), of f] extends_ptr_val [OF ok m'(3) cd(2), of f] by simp
      then have "hop_new 1 m (addr (length (Objs m)), m') ?F"
        by (intro hop_newI [OF m'(2,3)]) (use node_ptr(1) [OF m'(5)] m'(4,8,9) in simp_all)
      then show ?thesis using True start m'(1) by simp
    qed
  qed
qed

lemma Hop_And_val:
  assumes "hop_ok m" "hop_room m 1" "hop_valid m a" "hop_valid m b"
  shows "returns (Hop_And m a b) (\<lambda>r. hop_made 1 m r (\<lambda>f. ptr_val f m a \<and> ptr_val f m b))"
  by (rule returns_mono [OF Hop_And_new [OF assms]]) (rule hop_new_made [OF assms(1)])

lemma Hop_Or_val:
  assumes ok: "hop_ok m" and room: "hop_room m 1" and ab: "hop_valid m a" "hop_valid m b"
  shows "returns (Hop_Or m a b) (\<lambda>r. hop_made 1 m r (\<lambda>f. ptr_val f m a \<or> ptr_val f m b))"
proof -
  have "returns (Hop_And m (Hop_Not a) (Hop_Not b)) (\<lambda>r. hop_made 1 m r (\<lambda>f. \<not> ptr_val f m a \<and> \<not> ptr_val f m b))"
    using Hop_And_val [OF ok room, of "Hop_Not a" "Hop_Not b"] ab by simp
  then show ?thesis
    unfolding Hop_Or_def by (rule returns_bind) (auto simp: made_def)
qed

interpretation hop: and_or_manager hop_ok hop_room hop_valid ptr_val "\<lambda>m a b. projr (Hop_And m a b)" Hop_Not
  "\<lambda>m a b. projr (Hop_Or m a b)"
proof unfold_locales
  fix m a b assume m: "hop_ok m" "hop_room m 1" "hop_valid m a" "hop_valid m b"
  show "hop_made 1 m (projr (Hop_And m a b)) (\<lambda>f. ptr_val f m a \<and> ptr_val f m b)"
    using Hop_And_val [OF m] by (auto elim: returnsE)
  show "hop_made 1 m (projr (Hop_Or m a b)) (\<lambda>f. ptr_val f m a \<or> ptr_val f m b)"
    using Hop_Or_val [OF m] by (auto elim: returnsE)
qed (simp_all add: hop_room_def)


section \<open>Operations built from conjunctions\<close>

lemma hop_room_made: "hop_made j m (e, m') F \<Longrightarrow> hop_room m (j + k) \<Longrightarrow> hop_room m' k"
  by (simp add: made_def)

text \<open>The OR of two ANDs: exclusive or and multiplexer.\<close>

lemma Hop_and_and_or_val:
  assumes m: "hop_ok m" "hop_room m 3" and v: "hop_valid m a" "hop_valid m b" "hop_valid m c" "hop_valid m d"
  shows "returns (res_bind (Hop_And m a b) (\<lambda>(e0, m1). res_bind (Hop_And m1 c d) (\<lambda>(e1, m2). Hop_Or m2 e0 e1)))
    (\<lambda>r. hop_made 3 m r (\<lambda>f. ptr_val f m a \<and> ptr_val f m b \<or> ptr_val f m c \<and> ptr_val f m d))"
proof -
  have r1: "hop_room m 1" using m(2) by (simp add: hop_room_def)
  obtain e0 m1 where 1: "Hop_And m a b = Inr (e0, m1)" "hop_made 1 m (e0, m1) (\<lambda>f. ptr_val f m a \<and> ptr_val f m b)"
    using Hop_And_val [OF m(1) r1 v(1,2)] by (auto elim: returnsE)
  note D1 = hop.buildsD [OF 1(2)]
  have r2: "hop_room m1 2" "hop_room m1 1" using D1(2) [of 2] D1(2) [of 1] m(2) r1 by (simp_all add: hop_room_def)
  obtain e1 m2 where 2: "Hop_And m1 c d = Inr (e1, m2)" "hop_made 1 m1 (e1, m2) (\<lambda>f. ptr_val f m1 c \<and> ptr_val f m1 d)"
    using Hop_And_val [OF D1(1) r2(2), of c d] D1(5) v by (auto elim: returnsE)
  note D2 = hop.buildsD [OF 2(2)]
  have r3: "hop_room m2 1" using D2(2) [of 1] r2(1) by (simp add: hop_room_def)
  obtain r where 3: "Hop_Or m2 e0 e1 = Inr r"
    using Hop_Or_val [OF D2(1) r3 D2(5) [OF D1(3)] D2(3)] by (auto elim: returnsE)
  have "hop_made 3 m r (\<lambda>f. ptr_val f m a \<and> ptr_val f m b \<or> ptr_val f m c \<and> ptr_val f m d)"
    using hop.builds_and_or [OF m v, of e0 m1 e1 m2] 1(1) 2(1) 3 by simp
  then show ?thesis using 1(1) 2(1) 3 by simp
qed

lemma Hop_Exor_val:
  assumes "hop_ok m" "hop_room m 3" "hop_valid m a" "hop_valid m b"
  shows "returns (Hop_Exor m a b) (\<lambda>r. hop_made 3 m r (\<lambda>f. ptr_val f m a \<noteq> ptr_val f m b))"
  unfolding Hop_Exor_def
  by (rule returns_mono [OF Hop_and_and_or_val [OF assms(1,2)]]) (use assms in \<open>auto elim!: hop.builds_cong\<close>)

lemma Hop_Mux_val:
  assumes "hop_ok m" "hop_room m 3" "hop_valid m c" "hop_valid m a" "hop_valid m b"
  shows "returns (Hop_Mux m c a b) (\<lambda>r. hop_made 3 m r (\<lambda>f. if ptr_val f m c then ptr_val f m a else ptr_val f m b))"
  unfolding Hop_Mux_def
  by (rule returns_mono [OF Hop_and_and_or_val [OF assms(1,2)]]) (use assms in \<open>auto elim!: hop.builds_cong\<close>)

text \<open>One operation on the results of earlier ones.\<close>

lemma hop_seq:
  assumes r: "returns r (\<lambda>x. hop_made j m x F)"
    and g: "\<And>e m'. hop_made j m (e, m') F \<Longrightarrow> returns (g e m') (\<lambda>x. hop_made k m' x (H m'))"
    and h: "\<And>e m' f. hop_made j m (e, m') F \<Longrightarrow> H m' f = G f"
  shows "returns (res_bind r (\<lambda>(e, m'). g e m')) (\<lambda>x. hop_made (j + k) m x G)"
proof (rule returns_bind [OF r])
  fix x assume x: "hop_made j m x F"
  obtain e m' where em: "x = (e, m')" by force
  from g [OF x [unfolded em]] show "returns (case x of (e, m') \<Rightarrow> g e m') (\<lambda>x. hop_made (j + k) m x G)"
    unfolding em prod.case
  proof (rule returns_mono)
    fix y assume "hop_made k m' y (H m')"
    then have "hop_made k m' y G" by (rule hop.builds_cong) (rule h [OF x [unfolded em]])
    then show "hop_made (j + k) m y G" by (rule hop.builds_seq [OF x [unfolded em] _ refl])
  qed
qed

lemma Hop_Maj_val:
  assumes m: "hop_ok m" "hop_room m 5" and v: "hop_valid m a" "hop_valid m b" "hop_valid m c"
  shows "returns (Hop_Maj m a b c) (\<lambda>r. hop_made 5 m r
    (\<lambda>f. ptr_val f m a \<and> ptr_val f m b \<or> ptr_val f m a \<and> ptr_val f m c \<or> ptr_val f m b \<and> ptr_val f m c))"
proof -
  let ?H = "\<lambda>f. ptr_val f m a \<and> ptr_val f m b \<or> ptr_val f m a \<and> ptr_val f m c"
  have m3: "hop_room m 3" using m(2) by (simp add: hop_room_def)
  have assoc: "Hop_Maj m a b c = res_bind (res_bind (Hop_And m a b) (\<lambda>(e0, m1). res_bind (Hop_And m1 a c) (\<lambda>(e1, m2). Hop_Or m2 e0 e1)))
      (\<lambda>(o1, p). res_bind (Hop_And p b c) (\<lambda>(c, p). Hop_Or p o1 c))"
    by (simp add: Hop_Maj_def case_prod_unfold res_bind_assoc)
  have "returns (Hop_Maj m a b c) (\<lambda>r. hop_made (3 + 2) m r (\<lambda>f. ?H f \<or> ptr_val f m b \<and> ptr_val f m c))"
    unfolding assoc
  proof (rule hop_seq [where H = "\<lambda>m' f. ?H f \<or> ptr_val f m' b \<and> ptr_val f m' c", OF Hop_and_and_or_val [OF m(1) m3 v(1,2) v(1,3)]])
    fix o1 m1 assume 1: "hop_made 3 m (o1, m1) ?H"
    note D = hop.buildsD [OF 1]
    have r: "hop_room m1 2" using D(2) [of 2] m(2) by (simp add: hop_room_def)
    then have "hop_room m1 1" by (simp add: hop_room_def)
    from Hop_And_val [OF D(1) this D(5) [OF v(2)] D(5) [OF v(3)]]
    have "returns (res_bind (Hop_And m1 b c) (\<lambda>(e, p). Hop_Or p o1 e)) (\<lambda>x. hop_made (1 + 1) m1 x (\<lambda>f. ?H f \<or> ptr_val f m1 b \<and> ptr_val f m1 c))"
    proof (rule hop_seq [where H = "\<lambda>m' f. ptr_val f m' o1 \<or> ptr_val f m1 b \<and> ptr_val f m1 c"])
      fix e m2 assume 2: "hop_made 1 m1 (e, m2) (\<lambda>f. ptr_val f m1 b \<and> ptr_val f m1 c)"
      note E = hop.buildsD [OF 2]
      have "hop_room m2 1" using E(2) [of 1] r by (simp add: hop_room_def)
      from Hop_Or_val [OF E(1) this E(5) [OF D(3)] E(3)]
      show "returns (Hop_Or m2 o1 e) (\<lambda>x. hop_made 1 m2 x (\<lambda>f. ptr_val f m2 o1 \<or> ptr_val f m1 b \<and> ptr_val f m1 c))"
        by (rule returns_mono) (use E(4) in \<open>auto elim!: hop.builds_cong\<close>)
    next
      fix e m2 f assume 2: "hop_made 1 m1 (e, m2) (\<lambda>f. ptr_val f m1 b \<and> ptr_val f m1 c)"
      show "(ptr_val f m2 o1 \<or> ptr_val f m1 b \<and> ptr_val f m1 c) = (?H f \<or> ptr_val f m1 b \<and> ptr_val f m1 c)"
        using hop.buildsD(6) [OF 2 D(3)] D(4) by simp
    qed
    then show "returns (res_bind (Hop_And m1 b c) (\<lambda>(e, p). Hop_Or p o1 e)) (\<lambda>x. hop_made 2 m1 x (\<lambda>f. ?H f \<or> ptr_val f m1 b \<and> ptr_val f m1 c))"
      by (simp add: numeral_2_eq_2)
  next
    fix o1 m1 f assume 1: "hop_made 3 m (o1, m1) ?H"
    show "(?H f \<or> ptr_val f m1 b \<and> ptr_val f m1 c) = (?H f \<or> ptr_val f m b \<and> ptr_val f m c)"
      using hop.buildsD(6) [OF 1] v by simp
  qed
  then show ?thesis by (rule returns_mono) (auto elim!: hop.builds_cong)
qed

end
