(* ===== verification/Hop_Build.thy ===== *)
theory Hop_Build
  imports Hop_Oper
begin

text \<open>
  Primary inputs and outputs, and the functions of many arguments of the AIG package
  (\<open>src/abc-master/src/aig/hop/hopObj.c\<close>, \<open>hopOper.c\<close>): trees of gates, miters, and the conjunction,
  disjunction and exclusive or of the first inputs. The properties of the package are at the end.
\<close>

section \<open>A new manager\<close>

lemma deref_addr: "deref m (addr i) = Objs m ! i"
  by (simp add: deref_def)

lemma Hop_ManStart_eq: "Hop_ManStart =
   \<lparr>Objs = [zero_obj\<lparr>Id_o := 0, Type_o := AIG_CONST1, fPhase := True\<rparr>], vPis = [], vPos = [], pConst1 = addr 0,
     Ghost = zero_obj, nObjs = (\<lambda>_. 0), nCreated = 1, nDeleted = 0, pTable = replicate 10007 0, nTableSize = 10007,
     fRefCount = True, fCatchExor = False, nTravIds = 1\<rparr>"
  by (simp add: Hop_ManStart_def Hop_ManFetchMemory_def Let_def update_def deref_addr)

lemma Hop_ManStart_ok: "hop_ok Hop_ManStart"
proof -
  let ?m = Hop_ManStart
  have at: "obj_at ?m x \<longleftrightarrow> x = addr 0" for x
  proof
    assume x: "obj_at ?m x"
    then have "index x = 0" by (simp add: obj_at_def Hop_ManStart_eq)
    then show "x = addr 0" using addr_index [OF x] by simp
  qed (simp add: Hop_ManStart_eq)
  have d: "deref ?m (addr 0) = zero_obj\<lparr>Id_o := 0, Type_o := AIG_CONST1, fPhase := True\<rparr>"
    by (simp add: deref_addr Hop_ManStart_eq)
  have fields: "pTable ?m = replicate 10007 0" "nTableSize ?m = 10007" "nCreated ?m = 1" "length (Objs ?m) = 1"
    "pConst1 ?m = addr 0" "vPis ?m = []" "vPos ?m = []" "nDeleted ?m = 0" "nObjs ?m = (\<lambda>_. 0)"
    by (simp_all add: Hop_ManStart_eq)
  have none: "nodes ?m = {}" "fanouts ?m x = {}" for x
    by (auto simp: nodes_def fanouts_def at d)
  have "table_rep ?m {}"
    unfolding table_rep_def fields by (auto simp: nth_replicate intro!: exI [of _ "[]"])
  moreover have "obj_ok ?m (addr 0)" by (simp add: obj_ok_def d fields)
  moreover have "counts_ok ?m" unfolding counts_ok_def fields by (auto simp: at d)
  moreover have "refs_ok ?m (addr 0)" by (simp add: refs_ok_def none d zero_obj_def)
  ultimately show ?thesis unfolding hop_ok_def none fields at by (simp add: d at)
qed

section \<open>Primary inputs\<close>

lemma extends_trans: "extends m m1 \<Longrightarrow> extends m1 m2 \<Longrightarrow> extends m m2"
  by (simp add: extends_def)

lemma Hop_ObjCreatePi_val:
  assumes ok: "hop_ok m" and r: "Hop_ObjCreatePi m = (x, M)"
  shows "x = addr (length (Objs m))" "hop_ok M" "extends m M" "length (Objs M) = Suc (length (Objs m))"
    "vPis M = vPis m @ [x]"
proof -
  let ?p = "update (addr (length (Objs m))) (\<lambda>obj. obj\<lparr>pNext := length (vPis m)\<rparr>)
    (update (addr (length (Objs m))) (\<lambda>obj. obj\<lparr>Type_o := AIG_PI\<rparr>) (snd (Hop_ManFetchMemory m)))"
  obtain p where p: "Hop_ManFetchMemory m = (addr (length (Objs m)), p)"
    using fetch_fields(1) [of m] by (metis prod.collapse)
  then have vp: "vPis p = vPis m" using fetch_fields(10) [of m] by simp
  show x: "x = addr (length (Objs m))" using r by (simp add: Hop_ObjCreatePi_def p Let_def)
  have M: "M = ?p\<lparr>vPis := vPis m @ [x], nObjs := (nObjs m)(AIG_PI := nObjs m AIG_PI + 1)\<rparr>"
    using r fetch_fields(7) [of m] by (auto simp: Hop_ObjCreatePi_def p Let_def vp)
  have d: "deref M = deref ?p" "obj_at M = obj_at ?p" "nx M = nx ?p" "node_key M = node_key ?p"
    by (auto simp: fun_eq_iff M deref_def obj_at_def nx_def node_key_def Hop_Hash_def)
  have at: "obj_at M y \<longleftrightarrow> obj_at m y \<or> y = x" for y by (simp add: d x)
  have old: "deref M y = deref m y" if "obj_at m y" for y
  proof -
    have "y \<noteq> x" using that by (auto simp: x)
    then show ?thesis using that by (simp add: d deref_update fetch_deref x)
  qed
  have new: "deref M x = zero_obj\<lparr>Id_o := nCreated m, Type_o := AIG_PI, pNext := length (vPis m)\<rparr>"
    by (simp add: d deref_update fetch_deref x)
  have fields: "pTable M = pTable m" "nTableSize M = nTableSize m" "nCreated M = Suc (nCreated m)"
    "length (Objs M) = Suc (length (Objs m))" "pConst1 M = pConst1 m" "fRefCount M = fRefCount m"
    "nObjs M = (nObjs m)(AIG_PI := nObjs m AIG_PI + 1)" "vPos M = vPos m" "nDeleted M = nDeleted m"
    by (simp_all add: M)
  show "vPis M = vPis m @ [x]" by (simp add: M)
  then have pis: "vPis M = vPis m @ [x]" .
  show "length (Objs M) = Suc (length (Objs m))" by (rule fields)
  show ext: "extends m M" using old at fields by (simp add: extends_def nx_def)
  have xm: "\<not> obj_at m x" by (simp add: x)
  have nodes: "nodes M = nodes m" using old xm by (auto simp: nodes_def at new)
  have fan: "fanouts M y = fanouts m y" for y using old xm by (auto simp: fanouts_def at new)
  have key: "node_key M y = node_key m y" if y: "y \<in> nodes m" for y
  proof -
    have "obj_at m y" "obj_at m (Hop_Regular (pFanin0 (deref m y)))" "obj_at m (Hop_Regular (pFanin1 (deref m y)))"
      using y node_fanins [OF ok y] by (simp_all add: nodes_def fanins_ok_def live_def Let_def)
    then show ?thesis using old by (simp add: node_key_def Hop_Hash_def obj_reads fields)
  qed
  have rep: "table_rep M (nodes m)"
    by (rule table_rep_cong [OF hop_okD(9) [OF ok]]) (use old key in \<open>auto simp: nodes_def nx_def at fields\<close>)
  have "x \<noteq> addr 0" using hop_okD(3) [OF ok] by (auto simp: x addr_def)
  then have ox: "obj_ok M x" using hop_okD(1,2) [OF ok] fields(5) by (simp add: obj_ok_def new nx_def pis zero_obj_def) (simp add: x)
  have objs: "obj_ok M y" if "obj_at M y" for y
  proof (cases "y = x")
    case False
    then have "obj_at m y" using that at by simp
    then show ?thesis using obj_ok_extends [OF ext _ hop_okD(5) [OF ok]] pis by (simp add: nth_append)
  qed (use ox in simp)
  have refs: "refs_ok M y" if "fRefCount m" "obj_at M y" for y
  proof (cases "y = x")
    case True
    then show ?thesis using fanouts_new(2) [OF ok xm] by (simp add: refs_ok_def fan new zero_obj_def)
  next
    case False
    then have "obj_at m y" using that(2) at by simp
    then show ?thesis using hop_okD(10) [OF ok that(1), of y] old fields by (simp add: refs_ok_def fan)
  qed
  have pi: "obj_at M (vPis M ! k) \<and> Type_o (deref M (vPis M ! k)) = AIG_PI \<and> nx M (vPis M ! k) = k" if "k < length (vPis M)" for k
  proof (cases "k = length (vPis m)")
    case True
    then show ?thesis by (simp add: pis at new nx_def)
  next
    case False
    then have "k < length (vPis m)" using that pis by simp
    then show ?thesis using hop_okD(11) [OF ok] old by (simp add: pis nth_append at nx_def)
  qed
  have counts: "counts_ok M"
    by (rule counts_ok_new [OF hop_okD(13) [OF ok] xm]) (use at old new in \<open>simp_all add: fields\<close>)
  have "Type_o (deref M (addr 0)) = AIG_CONST1" using hop_okD(3,4) [OF ok] old by simp
  then show "hop_ok M"
    unfolding hop_ok_def nodes fields using hop_okD [OF ok] rep objs refs pi old counts
    by (intro conjI) (simp_all add: pis nodes_def)
qed

lemma create_inputs:
  assumes ok: "hop_ok m"
  defines "M n \<equiv> fold (\<lambda>v p. snd (Hop_ObjCreatePi p)) [Hop_ManPiNum m..<n] m"
  shows "hop_ok (M n) \<and> extends m (M n) \<and> length (Objs (M n)) = length (Objs m) + (n - Hop_ManPiNum m) \<and>
    length (vPis (M n)) = max (Hop_ManPiNum m) n"
proof (induction n)
  case 0
  then show ?case using ok hop_okD(6) [OF ok] by (simp add: M_def extends_refl Hop_ManPiNum_def)
next
  case (Suc n)
  show ?case
  proof (cases "Hop_ManPiNum m \<le> n")
    case True
    obtain x p where r: "Hop_ObjCreatePi (M n) = (x, p)" by force
    note v = Hop_ObjCreatePi_val [OF conjunct1 [OF Suc] r]
    have "M (Suc n) = p" using True r by (simp add: M_def)
    then show ?thesis using v Suc True extends_trans by (auto simp: max_def)
  next
    case False
    then have "M (Suc n) = m" by (simp add: M_def)
    then show ?thesis using ok False hop_okD(6) [OF ok] by (simp add: extends_refl Hop_ManPiNum_def)
  qed
qed

lemma Hop_IthVar_val:
  assumes ok: "hop_ok m"
  shows "returns (Hop_IthVar m i) (\<lambda>r. hop_made (Suc i - Hop_ManPiNum m) m r (\<lambda>f. f i) \<and>
    Hop_ManPiNum (snd r) = max (Hop_ManPiNum m) (Suc i))"
proof -
  define p where "p = fold (\<lambda>v p. snd (Hop_ObjCreatePi p)) [Hop_ManPiNum m..<Suc i] m"
  have p: "hop_ok p" "extends m p" "length (Objs p) = length (Objs m) + (Suc i - Hop_ManPiNum m)"
    "length (vPis p) = max (Hop_ManPiNum m) (Suc i)"
    using create_inputs [OF ok, of "Suc i"] unfolding p_def by blast+
  have i: "i < length (vPis p)" using p(4) by simp
  have x: "obj_at p (vPis p ! i)" "Type_o (deref p (vPis p ! i)) = AIG_PI" "nx p (vPis p ! i) = i"
    using hop_okD(11) [OF p(1) i] by blast+
  have "hop_valid p (vPis p ! i)" using x by (simp add: hop_valid_def live_def)
  moreover have "ptr_val f p (vPis p ! i) = f i" for f
    using x by (simp add: ptr_val_def obj_val.simps [of f p "vPis p ! i"] nx_def)
  ultimately have "hop_made (Suc i - Hop_ManPiNum m) m (vPis p ! i, p) (\<lambda>f. f i)"
    using p by (intro hop_made_extends [OF ok p(1,2)]) simp_all
  then show ?thesis
    using i p(4) hop_okD(6) [OF p(1)] unfolding Hop_IthVar_def Let_def p_def [symmetric] by (simp add: Hop_ManPi_def Hop_ManPiNum_def)
qed


section \<open>Many arguments\<close>

definition multi_val :: "Hop_Type \<Rightarrow> bool list \<Rightarrow> bool" where
  "multi_val Type vs = (if Type = AIG_AND then list_all id vs else odd (length (filter id vs)))"

lemma multi_val_append:
  "multi_val Type (xs @ ys) = (if Type = AIG_AND then multi_val Type xs \<and> multi_val Type ys else multi_val Type xs \<noteq> multi_val Type ys)"
  by (simp add: multi_val_def)

lemma multi_val_single [simp]: "multi_val Type [v] = v"
  by (simp add: multi_val_def)

lemma hop_room_less: "hop_room m k \<Longrightarrow> j \<le> k \<Longrightarrow> hop_room m j"
  by (simp add: hop_room_def)

lemma Hop_Oper_val:
  assumes "hop_ok m" "hop_room m 3" "hop_valid m a" "hop_valid m b" "Type = AIG_AND \<or> Type = AIG_EXOR"
  shows "returns (Hop_Oper m a b Type) (\<lambda>r. hop_made 3 m r
    (\<lambda>f. if Type = AIG_AND then ptr_val f m a \<and> ptr_val f m b else ptr_val f m a \<noteq> ptr_val f m b))"
proof (cases "Type = AIG_AND")
  case True
  have "hop_room m 1" using assms(2) by (rule hop_room_less) simp
  from Hop_And_val [OF assms(1) this assms(3,4)]
  have "returns (Hop_And m a b) (\<lambda>r. hop_made 3 m r (\<lambda>f. ptr_val f m a \<and> ptr_val f m b))"
    by (rule returns_mono) (erule hop.builds_mono, simp)
  then show ?thesis using True by (simp add: Hop_Oper_def)
next
  case False
  then show ?thesis using Hop_Exor_val [OF assms(1-4)] assms(5) by (simp add: Hop_Oper_def)
qed

lemma Hop_Multi_rec_val:
  assumes "hop_ok m" "Type = AIG_AND \<or> Type = AIG_EXOR" "ps \<noteq> []" "\<forall>p\<in>set ps. hop_valid m p"
    "hop_room m (3 * (length ps - 1))"
  shows "returns (Hop_Multi_rec m ps Type) (\<lambda>r. hop_made (3 * (length ps - 1)) m r
    (\<lambda>f. multi_val Type (map (ptr_val f m) ps)))"
  using assms
proof (induction "length ps" arbitrary: m ps rule: less_induct)
  case less
  let ?n = "length ps" and ?V = "\<lambda>m ps f. multi_val Type (map (ptr_val f m) ps)"
  show ?case
  proof (cases "?n = 1")
    case True
    then obtain p where p: "ps = [p]" by (auto simp: length_Suc_conv)
    then show ?thesis using hop_made_same [OF less.prems(1), of p "?V m ps" 0] less.prems(4)
      by (subst Hop_Multi_rec.simps) simp
  next
    case False
    let ?xs = "take (?n div 2) ps" and ?ys = "drop (?n div 2) ps"
    have n: "2 \<le> ?n" using False less.prems(3) by (cases ps rule: remdups_adj.cases) auto
    then have h: "0 < ?n div 2" "?n div 2 < ?n" by presburger+
    have len: "length ?xs = ?n div 2" "length ?ys = ?n - ?n div 2" using h by simp_all
    then have ne: "?xs \<noteq> []" "?ys \<noteq> []" using h by auto
    have mem: "\<forall>p\<in>set ?xs. hop_valid m p" "\<forall>p\<in>set ?ys. hop_valid m p"
      using less.prems(4) by (auto dest: in_set_takeD in_set_dropD)
    let ?a = "3 * (length ?xs - 1)" and ?b = "3 * (length ?ys - 1)"
    have sum: "?a + (?b + 3) = 3 * (?n - 1)" using h len by linarith
    have F: "?V m ps f = (if Type = AIG_AND then ?V m ?xs f \<and> ?V m ?ys f else ?V m ?xs f \<noteq> ?V m ?ys f)" for f
      using multi_val_append [of Type "map (ptr_val f m) ?xs" "map (ptr_val f m) ?ys"] by (simp flip: map_append)
    have room: "hop_room m ?a" using less.prems(5) by (rule hop_room_less) (use sum in linarith)
    have "length ?xs < ?n" "length ?ys < ?n" using h len by simp_all
    note IH1 = less.hyps [OF this(1) less.prems(1,2) ne(1) mem(1) room] and IH2 = less.hyps [OF this(2) _ less.prems(2) ne(2)]
    have "Hop_Multi_rec m ps Type = res_bind (Hop_Multi_rec m ?xs Type) (\<lambda>(pObj1, p).
       res_bind (Hop_Multi_rec p ?ys Type) (\<lambda>(pObj2, p). Hop_Oper p pObj1 pObj2 Type))"
      using n by (subst Hop_Multi_rec.simps) auto
    moreover have "returns (res_bind (Hop_Multi_rec m ?xs Type) (\<lambda>(pObj1, p).
       res_bind (Hop_Multi_rec p ?ys Type) (\<lambda>(pObj2, p). Hop_Oper p pObj1 pObj2 Type)))
       (\<lambda>r. hop_made (?a + (?b + 3)) m r (?V m ps))"
    proof (rule hop_seq [OF IH1, where H = "\<lambda>m1 f. if Type = AIG_AND then ?V m ?xs f \<and> ?V m1 ?ys f else ?V m ?xs f \<noteq> ?V m1 ?ys f"])
      fix o1 m1 assume 1: "hop_made ?a m (o1, m1) (?V m ?xs)"
      note D = hop.buildsD [OF 1]
      have r1: "hop_room m1 (?b + 3)" using D(2) [of "?b + 3"] less.prems(5) by (simp only: sum)
      have v1: "\<forall>p\<in>set ?ys. hop_valid m1 p" using D(5) mem(2) by blast
      show "returns (res_bind (Hop_Multi_rec m1 ?ys Type) (\<lambda>(pObj2, p). Hop_Oper p o1 pObj2 Type))
        (\<lambda>x. hop_made (?b + 3) m1 x (\<lambda>f. if Type = AIG_AND then ?V m ?xs f \<and> ?V m1 ?ys f else ?V m ?xs f \<noteq> ?V m1 ?ys f))"
      proof (rule hop_seq [OF IH2 [OF D(1) v1 hop_room_less [OF r1]], where
            H = "\<lambda>m2 f. if Type = AIG_AND then ptr_val f m2 o1 \<and> ?V m1 ?ys f else ptr_val f m2 o1 \<noteq> ?V m1 ?ys f"])
        fix o2 m2 assume 2: "hop_made ?b m1 (o2, m2) (?V m1 ?ys)"
        note E = hop.buildsD [OF 2]
        have "hop_room m2 3" using E(2) [OF r1] .
        from Hop_Oper_val [OF E(1) this E(5) [OF D(3)] E(3) less.prems(2)]
        show "returns (Hop_Oper m2 o1 o2 Type) (\<lambda>x. hop_made 3 m2 x
            (\<lambda>f. if Type = AIG_AND then ptr_val f m2 o1 \<and> ?V m1 ?ys f else ptr_val f m2 o1 \<noteq> ?V m1 ?ys f))"
          by (rule returns_mono) (erule hop.builds_cong, simp add: E(4))
      next
        fix o2 m2 f assume 2: "hop_made ?b m1 (o2, m2) (?V m1 ?ys)"
        show "(if Type = AIG_AND then ptr_val f m2 o1 \<and> ?V m1 ?ys f else ptr_val f m2 o1 \<noteq> ?V m1 ?ys f) =
            (if Type = AIG_AND then ?V m ?xs f \<and> ?V m1 ?ys f else ?V m ?xs f \<noteq> ?V m1 ?ys f)"
          using hop.buildsD(6) [OF 2 D(3)] D(4) by simp
      qed simp
    next
      fix o1 m1 f assume 1: "hop_made ?a m (o1, m1) (?V m ?xs)"
      have "map (ptr_val f m1) ?ys = map (ptr_val f m) ?ys" using hop.buildsD(6) [OF 1] mem(2) by simp
      then show "(if Type = AIG_AND then ?V m ?xs f \<and> ?V m1 ?ys f else ?V m ?xs f \<noteq> ?V m1 ?ys f) = ?V m ps f"
        by (simp only: F)
    qed
    ultimately show ?thesis by (simp only: sum)
  qed
qed


section \<open>Miters\<close>

lemma hop_made_step:
  assumes 1: "hop_made j m (e, m1) F" and 2: "hop_made k m1 (e', m2) G" and v: "hop_valid m p"
  shows "hop_made (j + k) m (p, m2) (\<lambda>f. ptr_val f m p)"
  using hop.builds_seq [OF 1 2 refl] v unfolding made_def by auto

lemma miter_loop:
  assumes ok: "hop_ok m" and v: "\<forall>p\<in>set vs. hop_valid m p" "length vs = 2 * k" "vs \<noteq> []" and room: "hop_room m (3 * k)"
  shows "returns (run_loop [0..<k] (\<lambda>j (pArray, p).
           res_bind (Hop_Exor p (pArray ! (2 * j)) (pArray ! (2 * j + 1))) (\<lambda>(r, p). Inr (pArray[j := Hop_Not r], p))) (vs, m))
    (\<lambda>(arr, p). length arr = 2 * k \<and> hop_made (3 * k) m (vs ! 0, p) (\<lambda>f. ptr_val f m (vs ! 0)) \<and>
      (\<forall>i<k. hop_valid p (arr ! i) \<and>
         (\<forall>f. ptr_val f p (arr ! i) = (ptr_val f m (vs ! (2 * i)) = ptr_val f m (vs ! (2 * i + 1))))))"
proof -
  define I where "I j x = (case x of (arr, p) \<Rightarrow> length arr = 2 * k \<and>
      hop_made (3 * j) m (vs ! 0, p) (\<lambda>f. ptr_val f m (vs ! 0)) \<and>
      (\<forall>i<j. hop_valid p (arr ! i) \<and>
         (\<forall>f. ptr_val f p (arr ! i) = (ptr_val f m (vs ! (2 * i)) = ptr_val f m (vs ! (2 * i + 1))))) \<and>
      (\<forall>t<2 * k. 2 * j \<le> t \<longrightarrow> arr ! t = vs ! t))" for j and x :: "nat list \<times> Hop_Man"
  have v0: "hop_valid m (vs ! 0)" using v(1,3) by simp
  have "returns (run_loop [0..<k] (\<lambda>j (pArray, p).
           res_bind (Hop_Exor p (pArray ! (2 * j)) (pArray ! (2 * j + 1))) (\<lambda>(r, p). Inr (pArray[j := Hop_Not r], p))) (vs, m)) (I k)"
  proof (rule run_loop_up [where I = I])
    show "I 0 (vs, m)" using v(2) hop_made_same [OF ok v0] by (simp add: I_def)
    fix j x assume j: "0 \<le> j" "j < k" and x: "I j x"
    obtain arr p where ap: "x = (arr, p)" by force
    have h: "length arr = 2 * k" "hop_made (3 * j) m (vs ! 0, p) (\<lambda>f. ptr_val f m (vs ! 0))"
      "\<And>i. i < j \<Longrightarrow> hop_valid p (arr ! i)"
      "\<And>i f. i < j \<Longrightarrow> ptr_val f p (arr ! i) = (ptr_val f m (vs ! (2 * i)) = ptr_val f m (vs ! (2 * i + 1)))"
      "\<And>t. t < 2 * k \<Longrightarrow> 2 * j \<le> t \<Longrightarrow> arr ! t = vs ! t"
      using x unfolding ap I_def by blast+
    note D = hop.buildsD [OF h(2)]
    have vv: "hop_valid m (vs ! (2 * j))" "hop_valid m (vs ! (2 * j + 1))" using v(1,2) j by simp_all
    have r: "hop_room p 3" using D(2) [of 3] hop_room_less [OF room, of "3 * j + 3"] j by simp
    have A: "arr ! (2 * j) = vs ! (2 * j)" "arr ! (2 * j + 1) = vs ! (2 * j + 1)"
      using h(5) [of "2 * j"] h(5) [of "2 * j + 1"] j by simp_all
    have X: "returns (Hop_Exor p (vs ! (2 * j)) (vs ! (2 * j + 1)))
      (\<lambda>r. hop_made 3 p r (\<lambda>f. ptr_val f p (vs ! (2 * j)) \<noteq> ptr_val f p (vs ! (2 * j + 1))))"
      by (rule Hop_Exor_val [OF D(1) r D(5) [OF vv(1)] D(5) [OF vv(2)]])
    show "returns (case x of (pArray, p) \<Rightarrow>
        res_bind (Hop_Exor p (pArray ! (2 * j)) (pArray ! (2 * j + 1))) (\<lambda>(r, p). Inr (pArray[j := Hop_Not r], p))) (I (Suc j))"
      unfolding ap prod.case A
    proof (rule returns_bind [OF X])
      fix y assume y: "hop_made 3 p y (\<lambda>f. ptr_val f p (vs ! (2 * j)) \<noteq> ptr_val f p (vs ! (2 * j + 1)))"
      obtain e q where eq: "y = (e, q)" by force
      note E = hop.buildsD [OF y [unfolded eq]]
      have 1: "hop_made (3 * Suc j) m (vs ! 0, q) (\<lambda>f. ptr_val f m (vs ! 0))"
        using hop_made_step [OF h(2) y [unfolded eq] v0] by (simp add: add.commute)
      have 2: "hop_valid q (arr[j := Hop_Not e] ! i) \<and>
          ptr_val f q (arr[j := Hop_Not e] ! i) = (ptr_val f m (vs ! (2 * i)) = ptr_val f m (vs ! (2 * i + 1)))" if "i < Suc j" for i f
      proof (cases "i = j")
        case True
        then show ?thesis using E(3,4) D(6) vv h(1) j by simp
      next
        case False
        then show ?thesis using that h(3,4) [of i] E(5,6) by simp
      qed
      show "returns (case y of (r, p) \<Rightarrow> Inr (arr[j := Hop_Not r], p)) (I (Suc j))"
        unfolding eq using 1 2 h(1,5) by (simp add: I_def)
    qed
  qed simp
  then show ?thesis by (rule returns_mono) (auto simp: I_def)
qed

lemma Hop_Miter_val:
  assumes ok: "hop_ok m" and v: "\<forall>p\<in>set vs. hop_valid m p" "length vs = 2 * k" "0 < k" and room: "hop_room m (6 * k)"
  shows "returns (Hop_Miter m vs) (\<lambda>(r, vs', m'). hop_made (6 * k) m (r, m')
    (\<lambda>f. \<exists>i<k. ptr_val f m (vs ! (2 * i)) \<noteq> ptr_val f m (vs ! (2 * i + 1))))"
proof -
  let ?F = "\<lambda>f. \<exists>i<k. ptr_val f m (vs ! (2 * i)) \<noteq> ptr_val f m (vs ! (2 * i + 1))"
  have ne: "vs \<noteq> []" using v(2,3) by auto
  have r: "hop_room m (3 * k)" using room by (rule hop_room_less) simp
  have div: "length vs div 2 = k" "length vs mod 2 = 0" "0 < length vs" using v(2,3) by simp_all
  obtain arr p where loop: "run_loop [0..<k] (\<lambda>j (pArray, p).
           res_bind (Hop_Exor p (pArray ! (2 * j)) (pArray ! (2 * j + 1))) (\<lambda>(r, p). Inr (pArray[j := Hop_Not r], p))) (vs, m) = Inr (arr, p)"
    and h: "length arr = 2 * k" "hop_made (3 * k) m (vs ! 0, p) (\<lambda>f. ptr_val f m (vs ! 0))"
      "\<forall>i<k. hop_valid p (arr ! i) \<and>
         (\<forall>f. ptr_val f p (arr ! i) = (ptr_val f m (vs ! (2 * i)) = ptr_val f m (vs ! (2 * i + 1))))"
    using miter_loop [OF ok v(1,2) ne r] by (auto elim!: returnsE)
  note D = hop.buildsD [OF h(2)]
  let ?ps = "take k arr"
  have ps: "?ps \<noteq> []" "length ?ps = k" using h(1) v(3) by (auto simp: take_eq_Nil)
  have mem: "\<forall>p'\<in>set ?ps. hop_valid p p'" using h(1,3) by (auto simp: in_set_conv_nth)
  have rp: "hop_room p (3 * (length ?ps - 1))" using D(2) [of "3 * (k - 1)"] hop_room_less [OF room, of "3 * k + 3 * (k - 1)"] ps(2) by simp
  have val: "multi_val AIG_AND (map (ptr_val f p) ?ps) \<longleftrightarrow> \<not> ?F f" for f
    using h(1,3) by (auto simp: multi_val_def list_all_length)
  obtain e q where multi: "Hop_Multi_rec p ?ps AIG_AND = Inr (e, q)"
    "hop_made (3 * (k - 1)) p (e, q) (\<lambda>f. multi_val AIG_AND (map (ptr_val f p) ?ps))"
    using Hop_Multi_rec_val [OF D(1) _ ps(1) mem rp, of AIG_AND, unfolded ps(2)] by (metis returnsE surj_pair Hop_Type.distinct insertI1)
  have "hop_made (3 * (k - 1)) p (Hop_Not e, q) ?F"
    by (rule hop.builds_cong [OF hop.builds_neg [OF multi(2)]]) (simp only: val simp_thms)
  then have "hop_made (3 * k + 3 * (k - 1)) m (Hop_Not e, q) ?F" by (rule hop.builds_seq [OF h(2) _ refl])
  then have "hop_made (6 * k) m (Hop_Not e, q) ?F" by (rule hop.builds_mono) simp
  moreover have "Hop_Miter m vs = Inr (Hop_Not e, ?ps, q)"
    unfolding Hop_Miter_def div(1) Let_def using div loop multi(1) by simp
  ultimately show ?thesis by simp
qed

end
