(* ===== verification/Hop_Delete.thy ===== *)
theory Hop_Delete
  imports Hop_Build
begin

text \<open>
  Removal of nodes in the AIG package (\<open>src/abc-master/src/aig/hop/hopObj.c\<close>, \<open>hopMan.c\<close>): one node,
  the nodes that only it refers to, and the cleanup of a manager.

  The recursion has as fuel the number of objects; a fanin is older than its node, so this is enough.
\<close>

section \<open>Operations\<close>

definition Vec_PtrRemove :: "nat list \<Rightarrow> nat \<Rightarrow> nat list res" where
  "Vec_PtrRemove p pEntry = (if \<not> pEntry \<in> set p then Inl AssertFailed else Inr (rev (remove1 pEntry (rev p))))"

definition Hop_ObjDisconnect :: "Hop_Man \<Rightarrow> nat \<Rightarrow> Hop_Man res" where
  "Hop_ObjDisconnect p pObj =
    (if Hop_IsComplement pObj then Inl AssertFailed
     else if \<not> Hop_ObjIsNode (deref p pObj) then Inl AssertFailed
     else
       res_bind (if pFanin0 (deref p pObj) \<noteq> 0 then Hop_ObjDeref (Hop_ObjFanin0 (deref p pObj)) p else Inr p) (\<lambda>p.
       res_bind (if pFanin1 (deref p pObj) \<noteq> 0 then Hop_ObjDeref (Hop_ObjFanin1 (deref p pObj)) p else Inr p) (\<lambda>p.
       res_bind (Hop_TableDelete p pObj) (\<lambda>p.
       Inr (update pObj (\<lambda>obj. obj\<lparr>pFanin0 := 0, pFanin1 := 0\<rparr>) p)))))"

definition Hop_ObjDelete :: "Hop_Man \<Rightarrow> nat \<Rightarrow> Hop_Man res" where
  "Hop_ObjDelete p pObj =
    (if Hop_IsComplement pObj then Inl AssertFailed
     else if Hop_ObjIsTerm (deref p pObj) then Inl AssertFailed
     else if \<not> nRefs (deref p pObj) = 0 then Inl AssertFailed
     else
       let t = Type_o (deref p pObj);
           p = p\<lparr>nObjs := (nObjs p)(t := nObjs p t - 1)\<rparr>;
           p = p\<lparr>nDeleted := nDeleted p + 1\<rparr>
       in res_bind (Hop_ObjDisconnect p pObj) (\<lambda>p.
          res_bind (if Hop_ObjIsPi (deref p pObj)
              then res_bind (Vec_PtrRemove (vPis p) pObj) (\<lambda>vs. Inr (p\<lparr>vPis := vs\<rparr>)) else Inr p) (\<lambda>p.
          Inr (Hop_ManRecycleMemory pObj p))))"

primrec Hop_ObjDelete_rec :: "nat \<Rightarrow> Hop_Man \<Rightarrow> nat \<Rightarrow> Hop_Man res" where
  "Hop_ObjDelete_rec 0 p pObj = Inl OutOfFuel"
| "Hop_ObjDelete_rec (Suc fuel) p pObj =
    (if Hop_IsComplement pObj then Inl AssertFailed
     else if Hop_ObjIsConst1 (deref p pObj) \<or> Hop_ObjIsPi (deref p pObj) then Inr p
     else if \<not> Hop_ObjIsNode (deref p pObj) then Inl AssertFailed
     else
       let pFanin0 = Hop_ObjFanin0 (deref p pObj);
           pFanin1 = Hop_ObjFanin1 (deref p pObj)
       in res_bind (Hop_ObjDelete p pObj) (\<lambda>p.
          res_bind (if pFanin0 \<noteq> 0 \<and> \<not> Hop_ObjIsNone (deref p pFanin0) \<and> nRefs (deref p pFanin0) = 0
              then Hop_ObjDelete_rec fuel p pFanin0 else Inr p) (\<lambda>p.
          if pFanin1 \<noteq> 0 \<and> \<not> Hop_ObjIsNone (deref p pFanin1) \<and> nRefs (deref p pFanin1) = 0
          then Hop_ObjDelete_rec fuel p pFanin1 else Inr p)))"

text \<open>The objects that the iterator over the nodes visits: the first of each list of the table.\<close>

definition Hop_ManForEachNode :: "Hop_Man \<Rightarrow> nat list" where
  "Hop_ManForEachNode p = filter (\<lambda>pObj. pObj \<noteq> 0) (map (\<lambda>i. pTable p ! i) [0..<nTableSize p])"

definition Hop_ManCleanup :: "Hop_Man \<Rightarrow> (nat \<times> Hop_Man) res" where
  "Hop_ManCleanup p =
    (if \<not> fRefCount p then Inl AssertFailed
     else
       let nNodesOld = Hop_ManNodeNum p;
           vObjs = filter (\<lambda>pNode. nRefs (deref p pNode) = 0) (Hop_ManForEachNode p)
       in res_bind (run_loop vObjs (\<lambda>pNode p. Hop_ObjDelete_rec (length (Objs p)) p pNode) p) (\<lambda>p.
          Inr (nNodesOld - Hop_ManNodeNum p, p)))"

section \<open>Removing one node\<close>

text \<open>What a removal leaves: an object keeps its fields, or is an AND node that is free now.\<close>

definition shrinks :: "Hop_Man \<Rightarrow> Hop_Man \<Rightarrow> bool" where
  "shrinks m m' \<longleftrightarrow> pConst1 m' = pConst1 m \<and> fRefCount m' = fRefCount m \<and> vPis m' = vPis m \<and> vPos m' = vPos m \<and>
     length (Objs m') = length (Objs m) \<and>
     (\<forall>x. obj_at m x \<longrightarrow> Type_o (deref m' x) = Type_o (deref m x) \<and>
         pFanin0 (deref m' x) = pFanin0 (deref m x) \<and> pFanin1 (deref m' x) = pFanin1 (deref m x) \<and>
         (Type_o (deref m x) = AIG_PI \<longrightarrow> nx m' x = nx m x)
       \<or> Type_o (deref m x) = AIG_AND \<and> Type_o (deref m' x) = AIG_NONE)"

lemma shrinks_refl: "shrinks m m"
  by (simp add: shrinks_def)

lemma shrinks_at: "shrinks m m' \<Longrightarrow> obj_at m' x = obj_at m x"
  by (simp add: shrinks_def obj_at_def)

lemma shrinks_trans: "shrinks m m1 \<Longrightarrow> shrinks m1 m2 \<Longrightarrow> shrinks m m2"
proof -
  assume 1: "shrinks m m1" and 2: "shrinks m1 m2"
  have "Type_o (deref m2 x) = Type_o (deref m x) \<and>
         pFanin0 (deref m2 x) = pFanin0 (deref m x) \<and> pFanin1 (deref m2 x) = pFanin1 (deref m x) \<and>
         (Type_o (deref m x) = AIG_PI \<longrightarrow> nx m2 x = nx m x)
       \<or> Type_o (deref m x) = AIG_AND \<and> Type_o (deref m2 x) = AIG_NONE" if x: "obj_at m x" for x
  proof -
    have "obj_at m1 x" using x shrinks_at [OF 1] by simp
    then show ?thesis using x 1 2 unfolding shrinks_def by (metis Hop_Type.distinct(7))
  qed
  then show "shrinks m m2" using 1 2 by (simp add: shrinks_def)
qed

lemma shrinks_live:
  assumes "shrinks m m'" "live m' x"
  shows "live m x" "Type_o (deref m' x) = Type_o (deref m x)"
    "pFanin0 (deref m' x) = pFanin0 (deref m x)" "pFanin1 (deref m' x) = pFanin1 (deref m x)"
    "Type_o (deref m x) = AIG_PI \<Longrightarrow> nx m' x = nx m x"
  using assms shrinks_at [OF assms(1)] by (auto simp: shrinks_def live_def)

lemma shrinks_val:
  assumes ok: "hop_ok m'" and sh: "shrinks m m'" and "live m' x"
  shows "obj_val f m' x = obj_val f m x"
  using assms(3)
proof (induction "index x" arbitrary: x rule: less_induct)
  case less
  note same = shrinks_live [OF sh less.prems]
  show ?case
  proof (cases "Type_o (deref m' x)")
    case AIG_AND
    then have fan: "fanins_ok m' x" using node_fanins [OF ok] less.prems by (simp add: nodes_def live_def)
    have "obj_val f m' (Hop_Regular (pFanin0 (deref m' x))) = obj_val f m (Hop_Regular (pFanin0 (deref m' x)))"
      "obj_val f m' (Hop_Regular (pFanin1 (deref m' x))) = obj_val f m (Hop_Regular (pFanin1 (deref m' x)))"
      by (rule less.hyps; use fan in \<open>simp add: fanins_ok_def Let_def\<close>)+
    then show ?thesis using AIG_AND same by (subst (1 2) obj_val.simps) simp
  qed (use same in \<open>subst (1 2) obj_val.simps, simp add: nx_def\<close>)+
qed

lemma shrinks_nodes: "shrinks m m' \<Longrightarrow> nodes m' \<subseteq> nodes m"
  using shrinks_live(1,2) by (fastforce simp: nodes_def live_def)

lemma live_nz: "live m x \<Longrightarrow> x \<noteq> 0 \<and> even x"
  by (auto simp: live_def obj_at_def)

text \<open>The manager when the fanins have lost a reference.\<close>

definition unreferenced :: "Hop_Man \<Rightarrow> nat \<Rightarrow> Hop_Man" where
  "unreferenced m x =
    (let q0 = Hop_Regular (pFanin0 (deref m x)); q1 = Hop_Regular (pFanin1 (deref m x));
         g = (\<lambda>pObj. pObj\<lparr>nRefs := nRefs pObj - 1\<rparr>)
     in update q1 g (update q0 g (m\<lparr>nObjs := (nObjs m)(AIG_AND := nObjs m AIG_AND - 1), nDeleted := nDeleted m + 1\<rparr>)))"

lemma unreferenced_fields [simp]:
  "length (Objs (unreferenced m x)) = length (Objs m)" "obj_at (unreferenced m x) = obj_at m"
  "pTable (unreferenced m x) = pTable m" "nTableSize (unreferenced m x) = nTableSize m"
  "nCreated (unreferenced m x) = nCreated m" "nObjs (unreferenced m x) = (nObjs m)(AIG_AND := nObjs m AIG_AND - 1)"
  "fRefCount (unreferenced m x) = fRefCount m" "pConst1 (unreferenced m x) = pConst1 m"
  "vPis (unreferenced m x) = vPis m" "vPos (unreferenced m x) = vPos m" "nDeleted (unreferenced m x) = nDeleted m + 1"
  by (simp_all add: unreferenced_def Let_def fun_eq_iff obj_at_def)

lemma counters_deref [simp]: "deref (m\<lparr>nObjs := n, nDeleted := d\<rparr>) = deref m"
  by (simp add: fun_eq_iff deref_def)

lemma unreferenced_frame:
  "Type_o (deref (unreferenced m x) y) = Type_o (deref m y)" "Id_o (deref (unreferenced m x) y) = Id_o (deref m y)"
  "pFanin0 (deref (unreferenced m x) y) = pFanin0 (deref m y)" "pFanin1 (deref (unreferenced m x) y) = pFanin1 (deref m y)"
  "fPhase (deref (unreferenced m x) y) = fPhase (deref m y)" "nx (unreferenced m x) y = nx m y"
  unfolding unreferenced_def Let_def nx_def
  by (simp_all add: deref_update_frame [where g = Type_o] deref_update_frame [where g = Id_o] deref_update_frame [where g = pFanin0]
    deref_update_frame [where g = pFanin1] deref_update_frame [where g = fPhase] deref_update_frame [where g = pNext])

lemma unreferenced_refs:
  assumes "hop_ok m" "x \<in> nodes m" "obj_at m y"
  shows "nRefs (deref (unreferenced m x) y) = (if y = Hop_Regular (pFanin0 (deref m x)) \<or> y = Hop_Regular (pFanin1 (deref m x))
    then nRefs (deref m y) - 1 else nRefs (deref m y))"
proof -
  let ?q0 = "Hop_Regular (pFanin0 (deref m x))" and ?q1 = "Hop_Regular (pFanin1 (deref m x))"
  have q: "obj_at m ?q0" "obj_at m ?q1" "?q0 \<noteq> ?q1"
    using node_fanins [OF assms(1,2)] by (auto simp: fanins_ok_def Let_def live_def)
  have at: "obj_at (m\<lparr>nObjs := n, nDeleted := d\<rparr>) = obj_at m" for n d by (simp add: fun_eq_iff obj_at_def)
  show ?thesis
    using q assms(3) by (auto simp: unreferenced_def Let_def deref_update at)
qed

lemma referenced:
  assumes ok: "hop_ok m" and ref: "fRefCount m" and x: "x \<in> nodes m"
    and q: "q = Hop_Regular (pFanin0 (deref m x)) \<or> q = Hop_Regular (pFanin1 (deref m x))"
  shows "x \<in> fanouts m q" "nRefs (deref m q) \<noteq> 0" "unat (nRefs (deref m q) - 1) = unat (nRefs (deref m q)) - 1"
proof -
  show x: "x \<in> fanouts m q" using x q by (auto simp: fanouts_def nodes_def)
  then have "0 < card (fanouts m q)" by (simp add: card_gt_0_iff) blast
  moreover have "obj_at m q" using x fanouts_new(2) [OF ok, of q] by blast
  ultimately have "0 < unat (nRefs (deref m q))"
    using hop_okD(10) [OF ok ref, of q] by (simp add: refs_ok_def)
  then show n: "nRefs (deref m q) \<noteq> 0" by auto
  then show "unat (nRefs (deref m q) - 1) = unat (nRefs (deref m q)) - 1" by (rule unat_minus_one)
qed

text \<open>The steps of the code up to the hash table.\<close>

lemma Hop_ObjDelete_eq:
  assumes ok: "hop_ok m" and ref: "fRefCount m" and x: "x \<in> nodes m" "nRefs (deref m x) = 0"
  shows "\<exists>k. table_rep k (nodes m - {x}) \<and> relinked (nodes m) (unreferenced m x) k \<and>
    Hop_ObjDelete m x = Inr (update x (\<lambda>obj. obj\<lparr>Type_o := AIG_NONE\<rparr>) (update x (\<lambda>obj. obj\<lparr>pFanin0 := 0, pFanin1 := 0\<rparr>) k))"
proof -
  let ?q0 = "Hop_Regular (pFanin0 (deref m x))" and ?q1 = "Hop_Regular (pFanin1 (deref m x))"
  have fan: "live m ?q0" "live m ?q1" "?q0 \<noteq> ?q1"
    using node_fanins [OF ok x(1)] by (auto simp: fanins_ok_def Let_def)
  have nz: "pFanin0 (deref m x) \<noteq> 0" "pFanin1 (deref m x) \<noteq> 0"
    using fan(1,2) by (auto simp: live_def obj_at_def Hop_Regular_arith)
  have x': "obj_at m x" "Type_o (deref m x) = AIG_AND" "\<not> Hop_IsComplement x" using x by (auto simp: nodes_def)
  define m0 where "m0 = m\<lparr>nObjs := (nObjs m)(AIG_AND := nObjs m AIG_AND - 1), nDeleted := nDeleted m + 1\<rparr>"
  define g where "g = (\<lambda>pObj::Hop_Obj. pObj\<lparr>nRefs := nRefs pObj - 1\<rparr>)"
  have d0: "deref m0 = deref m" "obj_at m0 = obj_at m" by (simp_all add: m0_def fun_eq_iff obj_at_def)
  have pos: "nRefs (deref m ?q0) > 0" "nRefs (deref m ?q1) > 0"
    using referenced(2) [OF ok ref x(1)] by (simp_all add: word_neq_0_conv)
  have d1: "deref (update ?q0 g m0) ?q1 = deref m ?q1"
    using fan by (simp add: deref_update d0 live_def)
  have f1: "pFanin1 (deref (update ?q0 g m0) y) = pFanin1 (deref m y)" for y
    using deref_update_frame [where g = pFanin1, of g ?q0 m0 y] by (simp add: g_def d0)
  have t: "Type_o (deref (update ?q1 g (update ?q0 g m0)) y) = Type_o (deref m y)" for y
    using unreferenced_frame(1) [of m x y] by (simp add: unreferenced_def Let_def m0_def g_def)
  have eq: "unreferenced m x = update ?q1 g (update ?q0 g m0)"
    by (simp add: unreferenced_def Let_def m0_def g_def)
  have dis: "Hop_ObjDisconnect m0 x = res_bind (Hop_TableDelete (unreferenced m x) x) (\<lambda>p.
      Inr (update x (\<lambda>obj. obj\<lparr>pFanin0 := 0, pFanin1 := 0\<rparr>) p))"
    using x' nz pos d1 f1 by (simp add: Hop_ObjDisconnect_def Hop_ObjIsNode_def d0 Hop_ObjDeref_def Hop_ObjFanin0_def Hop_ObjFanin1_def
      g_def [symmetric] eq)
  have del: "Hop_ObjDelete m x = res_bind (Hop_ObjDisconnect m0 x) (\<lambda>p.
          res_bind (if Hop_ObjIsPi (deref p x)
              then res_bind (Vec_PtrRemove (vPis p) x) (\<lambda>vs. Inr (p\<lparr>vPis := vs\<rparr>)) else Inr p) (\<lambda>p.
          Inr (Hop_ManRecycleMemory x p)))"
    using x' x(2) by (simp add: Hop_ObjDelete_def Hop_ObjIsTerm_def Let_def m0_def)
  have same_key: "node_key (unreferenced m x) y = node_key m y" for y
    unfolding node_key_def unreferenced_fields by (rule Hop_Hash_cong) (simp_all add: unreferenced_frame)
  have "table_rep (unreferenced m x) (nodes m)"
    by (rule table_rep_cong [OF hop_okD(9) [OF ok]]) (simp_all add: same_key unreferenced_frame, simp add: nodes_def)
  moreover have "hashable (unreferenced m x) (deref (unreferenced m x) x)"
    using node_hashable [OF ok x(1)] by (simp add: hashable_def unreferenced_frame)
  ultimately obtain k where k: "Hop_TableDelete (unreferenced m x) x = Inr k" "table_rep k (nodes m - {x})"
      "relinked (nodes m) (unreferenced m x) k"
    using Hop_TableDelete_val [OF _ x(1)] by blast
  let ?p = "update x (\<lambda>obj. obj\<lparr>pFanin0 := 0, pFanin1 := 0\<rparr>) k"
  have "Type_o (deref ?p x) = AIG_AND"
    using deref_update_frame [where g = Type_o, of "\<lambda>obj. obj\<lparr>pFanin0 := 0, pFanin1 := 0\<rparr>" x k x]
      relinked_fields(2) [OF k(3), of x] x'(2) by (simp add: unreferenced_frame)
  then have "Hop_ObjDelete m x = Inr (update x (\<lambda>obj. obj\<lparr>Type_o := AIG_NONE\<rparr>) ?p)"
    unfolding del dis k(1) by (simp add: Hop_ObjIsPi_def Hop_ManRecycleMemory_def)
  then show ?thesis using k(2,3) by blast
qed

definition dangling :: "Hop_Man \<Rightarrow> nat set" where
  "dangling m = {x \<in> nodes m. nRefs (deref m x) = 0}"

lemma dangling_fanouts: "hop_ok m \<Longrightarrow> fRefCount m \<Longrightarrow> obj_at m x \<Longrightarrow> nRefs (deref m x) = 0 \<Longrightarrow> fanouts m x = {}"
  using hop_okD(10) [of m x] by (simp add: refs_ok_def)

lemma Hop_ObjDelete_val:
  assumes ok: "hop_ok m" and ref: "fRefCount m" and x: "x \<in> nodes m" "nRefs (deref m x) = 0"
  shows "\<exists>M. Hop_ObjDelete m x = Inr M \<and> hop_ok M \<and> shrinks m M \<and> nodes M = nodes m - {x} \<and>
    Type_o (deref M x) = AIG_NONE \<and>
    (\<forall>y. obj_at m y \<longrightarrow> y \<noteq> x \<longrightarrow> Type_o (deref M y) = Type_o (deref m y) \<and>
       nRefs (deref M y) = (if y = Hop_Regular (pFanin0 (deref m x)) \<or> y = Hop_Regular (pFanin1 (deref m x))
         then nRefs (deref m y) - 1 else nRefs (deref m y)))"
proof -
  define u where "u = unreferenced m x"
  obtain k where k: "table_rep k (nodes m - {x})" "relinked (nodes m) u k"
    and eq: "Hop_ObjDelete m x = Inr (update x (\<lambda>obj. obj\<lparr>Type_o := AIG_NONE\<rparr>) (update x (\<lambda>obj. obj\<lparr>pFanin0 := 0, pFanin1 := 0\<rparr>) k))"
    using Hop_ObjDelete_eq [OF ok ref x] unfolding u_def by blast
  define M where "M = update x (\<lambda>obj. obj\<lparr>Type_o := AIG_NONE\<rparr>) (update x (\<lambda>obj. obj\<lparr>pFanin0 := 0, pFanin1 := 0\<rparr>) k)"
  note R = relinked_fields [OF k(2)] and U = unreferenced_frame [of m x, folded u_def]
  have at: "obj_at M y = obj_at m y" for y using R(7) [of y] by (simp add: M_def u_def)
  have xm: "obj_at m x" "Type_o (deref m x) = AIG_AND" using x(1) by (simp_all add: nodes_def)
  have atk: "obj_at k y = obj_at m y" for y using R(7) [of y] by (simp add: u_def)
  have other: "deref M y = deref k y" if "obj_at m y" "y \<noteq> x" for y
    using that xm by (simp add: M_def deref_update atk)
  have old: "Type_o (deref M y) = Type_o (deref m y)" "Id_o (deref M y) = Id_o (deref m y)"
    "pFanin0 (deref M y) = pFanin0 (deref m y)" "pFanin1 (deref M y) = pFanin1 (deref m y)"
    "fPhase (deref M y) = fPhase (deref m y)" "nRefs (deref M y) = nRefs (deref u y)" if "obj_at m y" "y \<noteq> x" for y
    using other [OF that] R(1-6) [of y] U(1-5) [of y] by simp_all
  have id: "Id_o (deref M y) = Id_o (deref m y)" for y
    using R(1) [of y] U(2) [of y] by (simp add: M_def deref_update_frame [where g = Id_o])
  have nx_pi: "nx M y = nx m y" if "obj_at m y" "Type_o (deref m y) = AIG_PI" for y
  proof -
    have y: "y \<notin> nodes m" "y \<noteq> x" "obj_at u y" using that xm by (auto simp: nodes_def u_def)
    then have "deref k y = deref u y" using k(2) unfolding relinked_def by blast
    then show ?thesis using U(6) [of y] other [OF that(1) y(2)] by (simp add: nx_def)
  qed
  have gone: "Type_o (deref M x) = AIG_NONE" using xm(1) by (simp add: M_def deref_update atk)
  have f: "pConst1 M = pConst1 m" "fRefCount M = fRefCount m" "vPis M = vPis m" "vPos M = vPos m"
    "length (Objs M) = length (Objs m)" "nCreated M = nCreated m" "nDeleted M = nDeleted m + 1"
    "nObjs M = (nObjs m)(AIG_AND := nObjs m AIG_AND - 1)" "pTable M = pTable k" "nTableSize M = nTableSize k"
    using R(8-15) by (simp_all add: M_def u_def)
  have nodes: "nodes M = nodes m - {x}"
  proof (rule set_eqI)
    fix y show "y \<in> nodes M \<longleftrightarrow> y \<in> nodes m - {x}"
      using old(1) [of y] gone by (cases "y = x") (auto simp: nodes_def at)
  qed
  have "shrinks m M"
    unfolding shrinks_def f using old nx_pi gone xm(2) by blast
  moreover have "hop_ok M"
  proof -
    have live: "live M y \<longleftrightarrow> live m y \<and> y \<noteq> x" for y
      using old(1) [of y] gone by (cases "y = x") (auto simp: live_def at)
    have none: "fanouts m x = {}" by (rule dangling_fanouts [OF ok ref xm(1) x(2)])
    have fan: "fanouts M y = fanouts m y - {x}" for y
    proof (rule set_eqI)
      fix z show "z \<in> fanouts M y \<longleftrightarrow> z \<in> fanouts m y - {x}"
        using old(1,3,4) [of z] gone by (cases "z = x") (auto simp: fanouts_def at)
    qed
    have fx: "fanins_ok M y" if "y \<in> nodes m" "y \<noteq> x" for y
    proof -
      have l: "live m (Hop_Regular (pFanin0 (deref m y)))" "live m (Hop_Regular (pFanin1 (deref m y)))"
        using node_fanins [OF ok that(1)] by (simp_all add: fanins_ok_def Let_def)
      have ne: "Hop_Regular (pFanin0 (deref m y)) \<noteq> x" "Hop_Regular (pFanin1 (deref m y)) \<noteq> x"
        using none that(1) by (auto simp: fanouts_def nodes_def)
      have ay: "obj_at m y" using that(1) by (simp add: nodes_def)
      show ?thesis
        using node_fanins [OF ok that(1)] l ne old [OF ay that(2)] old(5) [OF _ ne(1)] old(5) [OF _ ne(2)]
        by (simp add: fanins_ok_def Let_def live f(1)) (simp add: live_def)
    qed
    have objs: "obj_ok M y" if "obj_at M y" for y
    proof (cases "y = x")
      case True
      have "x \<noteq> pConst1 m" using xm(2) hop_okD(2,4) [OF ok] by auto
      then show ?thesis using True gone id [of x] hop_okD(5) [OF ok xm(1)] by (simp add: obj_ok_def f)
    next
      case False
      have ym: "obj_at m y" using that at by simp
      note o = hop_okD(5) [OF ok ym]
      have po: "Hop_Regular (pFanin0 (deref m y)) \<noteq> x" if "Type_o (deref m y) = AIG_PO"
        using none ym that by (auto simp: fanouts_def)
      show ?thesis
        using o old [OF ym False] fx [OF _ False] nx_pi [OF ym] po ym
        by (cases "Type_o (deref m y)") (auto simp: obj_ok_def f live nodes_def)
    qed
    have refs: "refs_ok M y" if "obj_at M y" for y
    proof (cases "y = x")
      case True
      have "x \<noteq> Hop_Regular (pFanin0 (deref m x))" "x \<noteq> Hop_Regular (pFanin1 (deref m x))"
        using node_fanins [OF ok x(1)] by (auto simp: fanins_ok_def Let_def)
      then have "nRefs (deref k x) = 0" using R(5) [of x] unreferenced_refs [OF ok x(1) xm(1)] x(2) by (simp add: u_def)
      then have "nRefs (deref M x) = 0" using xm(1) by (simp add: M_def deref_update atk)
      then show ?thesis using True none by (simp add: refs_ok_def fan)
    next
      case False
      have ym: "obj_at m y" using that at by simp
      have r: "card (fanouts m y) \<le> unat (nRefs (deref m y))" "unat (nRefs (deref m y)) \<le> length (Objs m)"
        using hop_okD(10) [OF ok ref ym] by (simp_all add: refs_ok_def)
      show ?thesis
      proof (cases "y = Hop_Regular (pFanin0 (deref m x)) \<or> y = Hop_Regular (pFanin1 (deref m x))")
        case True
        note q = referenced [OF ok ref x(1) True]
        have "card (fanouts m y - {x}) = card (fanouts m y) - 1" using q(1) by simp
        then show ?thesis
          using r q(3) old(6) [OF ym False] unreferenced_refs [OF ok x(1) ym] True
          by (simp add: refs_ok_def fan f u_def) linarith
      next
        case F: False
        have "card (fanouts m y - {x}) \<le> card (fanouts m y)" by (rule card_mono) auto
        then show ?thesis
          using r old(6) [OF ym False] unreferenced_refs [OF ok x(1) ym] F by (simp add: refs_ok_def fan f u_def)
      qed
    qed
    have rep: "table_rep M (nodes M)"
      unfolding nodes
    proof (rule table_rep_cong [OF k(1) f(9,10)])
      fix y assume y: "y \<in> nodes m - {x}"
      then have ym: "obj_at m y" "y \<noteq> x" by (simp_all add: nodes_def)
      have "node_key M y = node_key k y"
        unfolding node_key_def f(10) other [OF ym] by (rule Hop_Hash_cong) (simp_all add: id R(1) U(2))
      then show "obj_at M y \<and> nx M y = nx k y \<and> node_key M y = node_key k y"
        using other [OF ym] ym by (simp add: at nx_def)
    qed
    have counts: "counts_ok M"
    proof -
      note c = hop_okD(13) [OF ok]
      have "{y. obj_at M y \<and> Type_o (deref M y) = AIG_PO} = {y. obj_at m y \<and> Type_o (deref m y) = AIG_PO}"
      proof (rule set_eqI)
        fix y show "y \<in> {y. obj_at M y \<and> Type_o (deref M y) = AIG_PO} \<longleftrightarrow> y \<in> {y. obj_at m y \<and> Type_o (deref m y) = AIG_PO}"
          using old(1) [of y] gone xm(2) by (cases "y = x") (auto simp: at)
      qed
      moreover have "{y. obj_at M y \<and> Type_o (deref M y) = AIG_NONE} = insert x {y. obj_at m y \<and> Type_o (deref m y) = AIG_NONE}"
      proof (rule set_eqI)
        fix y show "y \<in> {y. obj_at M y \<and> Type_o (deref M y) = AIG_NONE} \<longleftrightarrow>
            y \<in> insert x {y. obj_at m y \<and> Type_o (deref m y) = AIG_NONE}"
          using old(1) [of y] gone xm(1) by (cases "y = x") (auto simp: at)
      qed
      moreover have "finite {y. obj_at m y \<and> Type_o (deref m y) = AIG_NONE}"
        by (rule finite_subset [OF _ finite_obj_at [of m]]) auto
      ultimately show ?thesis using c xm(2) by (simp add: counts_ok_def f)
    qed
    have pis: "obj_at M (vPis M ! j) \<and> Type_o (deref M (vPis M ! j)) = AIG_PI \<and> nx M (vPis M ! j) = j" if "j < length (vPis M)" for j
    proof -
      have p: "obj_at m (vPis m ! j)" "Type_o (deref m (vPis m ! j)) = AIG_PI" "nx m (vPis m ! j) = j"
        using hop_okD(11) [OF ok, of j] that by (simp_all add: f)
      moreover from p xm(2) have "vPis m ! j \<noteq> x" by auto
      ultimately show ?thesis using old(1) nx_pi by (simp add: f at)
    qed
    have "Type_o (deref M (addr 0)) = AIG_CONST1"
    proof -
      have "addr 0 \<noteq> x" using hop_okD(4) [OF ok] xm(2) by auto
      then show ?thesis using old(1) [of "addr 0"] hop_okD(3,4) [OF ok] by simp
    qed
    moreover have "x \<in> nodes m" by (rule x)
    then have "card (nodes M) = card (nodes m) - 1" by (simp add: nodes)
    moreover have uniq: "y = z" if yz: "y \<in> nodes M" "z \<in> nodes M" "same_node (deref M y) (deref M z)" for y z
    proof -
      have n: "y \<in> nodes m" "z \<in> nodes m" "y \<noteq> x" "z \<noteq> x" using yz(1,2) unfolding nodes by simp_all
      then have "obj_at m y" "obj_at m z" by (simp_all add: nodes_def)
      with n show ?thesis using yz(3) old(1,3,4) hop_okD(12) [OF ok, of y z]
        by (simp add: same_node_def Hop_ObjChild0_def Hop_ObjChild1_def)
    qed
    ultimately show "hop_ok M"
      unfolding hop_ok_def using hop_okD [OF ok] objs pis rep refs counts
      by (intro conjI) (simp_all add: f)
  qed
  moreover have "Type_o (deref M y) = Type_o (deref m y) \<and>
       nRefs (deref M y) = (if y = Hop_Regular (pFanin0 (deref m x)) \<or> y = Hop_Regular (pFanin1 (deref m x))
         then nRefs (deref m y) - 1 else nRefs (deref m y))" if "obj_at m y" "y \<noteq> x" for y
    using old(1,6) [OF that] unreferenced_refs [OF ok x(1) that(1)] by (simp add: u_def)
  ultimately show ?thesis using eq nodes gone unfolding M_def by blast
qed

section \<open>Removing what only a node refers to\<close>

lemma Hop_ObjDelete_rec_val:
  assumes "hop_ok m" "fRefCount m" "x \<in> dangling m" "index x < fuel"
  shows "\<exists>M. Hop_ObjDelete_rec fuel m x = Inr M \<and> hop_ok M \<and> shrinks m M \<and> dangling M = dangling m - {x}"
  using assms
proof (induction fuel arbitrary: m x)
  case (Suc fuel)
  note ok = Suc.prems(1) and ref = Suc.prems(2)
  have x: "x \<in> nodes m" "nRefs (deref m x) = 0" using Suc.prems(3) by (simp_all add: dangling_def)
  define q0 where "q0 = Hop_Regular (pFanin0 (deref m x))"
  define q1 where "q1 = Hop_Regular (pFanin1 (deref m x))"
  have q: "live m q0" "live m q1" "index q0 < index x" "index q1 < index x" "q0 \<noteq> q1" "x \<noteq> q0" "x \<noteq> q1"
    "q0 \<noteq> pConst1 m" "q1 \<noteq> pConst1 m"
    using node_fanins [OF ok x(1)] unfolding q0_def q1_def by (auto simp: fanins_ok_def Let_def)
  obtain M where M: "Hop_ObjDelete m x = Inr M" "hop_ok M" "shrinks m M" "nodes M = nodes m - {x}"
    "\<And>y. obj_at m y \<Longrightarrow> y \<noteq> x \<Longrightarrow> Type_o (deref M y) = Type_o (deref m y)"
    "\<And>y. obj_at m y \<Longrightarrow> y \<noteq> x \<Longrightarrow> nRefs (deref M y) = (if y = q0 \<or> y = q1 then nRefs (deref m y) - 1 else nRefs (deref m y))"
    "Type_o (deref M x) = AIG_NONE"
    using Hop_ObjDelete_val [OF ok ref x] unfolding q0_def q1_def by blast
  have pos: "nRefs (deref m q0) \<noteq> 0" "nRefs (deref m q1) \<noteq> 0"
    using referenced(2) [OF ok ref x(1)] unfolding q0_def q1_def by simp_all
  have step: "\<exists>M'. (if q \<noteq> 0 \<and> \<not> Hop_ObjIsNone (deref N q) \<and> nRefs (deref N q) = 0 then Hop_ObjDelete_rec fuel N q else Inr N) = Inr M' \<and>
      hop_ok M' \<and> shrinks N M' \<and> dangling M' = dangling N - {q}"
    if N: "hop_ok N" "fRefCount N" "obj_at N q" "index q < fuel" and t: "Type_o (deref N q) \<in> {AIG_PI, AIG_AND, AIG_NONE}" for N q
  proof -
    consider "q \<in> dangling N" | "Type_o (deref N q) = AIG_PI" "nRefs (deref N q) = 0" | "Type_o (deref N q) = AIG_NONE"
      | "nRefs (deref N q) \<noteq> 0" using N(3) t by (auto simp: dangling_def nodes_def)
    then show ?thesis
    proof cases
      case 1
      then have "q \<noteq> 0" "\<not> Hop_ObjIsNone (deref N q)" "nRefs (deref N q) = 0"
        using N(3) by (auto simp: dangling_def nodes_def Hop_ObjIsNone_def obj_at_def)
      then show ?thesis using Suc.IH [OF N(1,2) 1 N(4)] by simp
    next
      case 2
      obtain n where "fuel = Suc n" using N(4) by (cases fuel) simp_all
      then have "Hop_ObjDelete_rec fuel N q = Inr N" using 2 N(3) by (simp add: Hop_ObjIsPi_def)
      moreover have "q \<notin> dangling N" using 2 by (simp add: dangling_def nodes_def)
      ultimately show ?thesis using N(1) shrinks_refl by simp
    next
      case 3
      moreover have "q \<notin> dangling N" using 3 by (simp add: dangling_def nodes_def)
      ultimately show ?thesis using N(1) shrinks_refl by (simp add: Hop_ObjIsNone_def)
    next
      case 4
      moreover have "q \<notin> dangling N" using 4 by (simp add: dangling_def)
      ultimately show ?thesis using N(1) shrinks_refl by simp
    qed
  qed
  have type: "Type_o (deref M q) \<in> {AIG_PI, AIG_AND, AIG_NONE}" "obj_at m q" "obj_at M q" if "q = q0 \<or> q = q1" for q
  proof -
    have l: "live m q" "q \<noteq> pConst1 m" "q \<noteq> x" using q that by auto
    then show "obj_at m q" "obj_at M q" using shrinks_at [OF M(3)] by (simp_all add: live_def)
    then show "Type_o (deref M q) \<in> {AIG_PI, AIG_AND, AIG_NONE}"
      using live_const [OF ok l(1)] l M(5) by (auto simp: live_def)
  qed
  have ref': "fRefCount M" using M(3) ref by (simp add: shrinks_def)
  have fuel: "index q0 < fuel" "index q1 < fuel" using q(3,4) Suc.prems(4) by simp_all
  obtain M0 where M0: "(if q0 \<noteq> 0 \<and> \<not> Hop_ObjIsNone (deref M q0) \<and> nRefs (deref M q0) = 0 then Hop_ObjDelete_rec fuel M q0 else Inr M) = Inr M0"
      "hop_ok M0" "shrinks M M0" "dangling M0 = dangling M - {q0}"
    using step [OF M(2) ref' type(3) fuel(1) type(1)] by blast
  have t1: "Type_o (deref M0 q1) \<in> {AIG_PI, AIG_AND, AIG_NONE}"
    using type [of q1] M0(3) by (auto simp: shrinks_def)
  have "fRefCount M0" "obj_at M0 q1" using M0(3) ref' type(3) [of q1] shrinks_at [OF M0(3)] by (simp_all add: shrinks_def)
  then obtain M1 where M1: "(if q1 \<noteq> 0 \<and> \<not> Hop_ObjIsNone (deref M0 q1) \<and> nRefs (deref M0 q1) = 0 then Hop_ObjDelete_rec fuel M0 q1 else Inr M0) = Inr M1"
      "hop_ok M1" "shrinks M0 M1" "dangling M1 = dangling M0 - {q1}"
    using step [OF M0(2) _ _ fuel(2) t1] by blast
  have "\<not> Hop_IsComplement x" "Type_o (deref m x) = AIG_AND" using x(1) by (auto simp: nodes_def)
  then have eq: "Hop_ObjDelete_rec (Suc fuel) m x = Inr M1"
    using M(1) M0(1) M1(1) unfolding Hop_ObjDelete_rec.simps
    by (simp add: Hop_ObjIsConst1_def Hop_ObjIsPi_def Hop_ObjIsNode_def Hop_ObjFanin0_def Hop_ObjFanin1_def q0_def [symmetric] q1_def [symmetric] Let_def
        del: Hop_ObjDelete_rec.simps split del: if_split)
  have "shrinks m M1" using shrinks_trans shrinks_trans M(3) M0(3) M1(3) by blast
  moreover have "dangling M1 = dangling m - {x}"
  proof -
    have "y \<in> dangling M - {q0} - {q1} \<longleftrightarrow> y \<in> dangling m - {x}" for y
    proof (cases "y = q0 \<or> y = q1 \<or> y = x \<or> y \<notin> nodes m")
      case True
      then show ?thesis using pos M(4) by (auto simp: dangling_def)
    next
      case False
      then have "obj_at m y" by (simp add: nodes_def)
      then show ?thesis using M(6) [of y] False by (simp add: dangling_def M(4))
    qed
    then show ?thesis unfolding M1(4) M0(4) by blast
  qed
  ultimately show ?case using eq M1(2) by blast
qed simp

section \<open>The cleanup\<close>

lemma heads:
  assumes rep: "table_rep m S"
  shows "set (Hop_ManForEachNode m) = {x \<in> S. x \<in> set (pTable m)}" "distinct (Hop_ManForEachNode m)"
proof -
  have n: "nTableSize m = length (pTable m)" using rep [unfolded table_rep_def] by blast
  then have eq: "Hop_ManForEachNode m = filter (\<lambda>x. x \<noteq> 0) (pTable m)"
    unfolding Hop_ManForEachNode_def n by (simp add: map_nth)
  have hd: "pTable m ! b \<in> S \<and> node_key m (pTable m ! b) = b" if "b < length (pTable m)" "pTable m ! b \<noteq> 0" for b
  proof -
    have b: "b < nTableSize m" using that(1) n by simp
    obtain xs where xs: "chain (nx m) (pTable m ! b) xs" "distinct xs" "set xs = {x \<in> S. node_key m x = b}"
      by (rule table_repD [OF rep b])
    then have "pTable m ! b \<in> set xs" using that(2) by (cases xs) auto
    then show ?thesis using xs(3) by simp
  qed
  have nz: "x \<noteq> 0" if "x \<in> S" for x using table_rep_obj [OF rep that] by (auto simp: obj_at_def)
  show "set (Hop_ManForEachNode m) = {x \<in> S. x \<in> set (pTable m)}"
    unfolding eq using hd nz by (auto simp: in_set_conv_nth)
  show "distinct (Hop_ManForEachNode m)"
  proof -
    have "inj_on (\<lambda>i. pTable m ! i) (set (filter (\<lambda>i. pTable m ! i \<noteq> 0) [0..<length (pTable m)]))"
    proof (rule inj_onI)
      fix i j
      assume "i \<in> set (filter (\<lambda>i. pTable m ! i \<noteq> 0) [0..<length (pTable m)])"
        "j \<in> set (filter (\<lambda>i. pTable m ! i \<noteq> 0) [0..<length (pTable m)])" and eq: "pTable m ! i = pTable m ! j"
      then have "i < length (pTable m)" "pTable m ! i \<noteq> 0" "j < length (pTable m)" "pTable m ! j \<noteq> 0" by simp_all
      then have "node_key m (pTable m ! i) = i" "node_key m (pTable m ! j) = j" using hd by blast+
      then show "i = j" using eq by metis
    qed
    then show ?thesis
      unfolding Hop_ManForEachNode_def n filter_map by (simp add: distinct_map comp_def)
  qed
qed

lemma run_loop_inv:
  assumes "I xs s" and "\<And>x xs s. I (x # xs) s \<Longrightarrow> \<exists>s'. body x s = Inr s' \<and> I xs s'"
  shows "\<exists>s'. run_loop xs body s = Inr s' \<and> I [] s'"
  using assms(1)
proof (induction xs arbitrary: s)
  case (Cons x xs)
  then show ?case using assms(2) [OF Cons.prems] by fastforce
qed simp

lemma Hop_ManCleanup_val:
  assumes ok: "hop_ok m" and ref: "fRefCount m"
  shows "\<exists>n M. Hop_ManCleanup m = Inr (n, M) \<and> hop_ok M \<and> shrinks m M \<and> n = card (nodes m) - card (nodes M) \<and>
    dangling M = {x \<in> dangling m. x \<notin> set (pTable m)}"
proof -
  define vObjs where "vObjs = filter (\<lambda>x. nRefs (deref m x) = 0) (Hop_ManForEachNode m)"
  note heads = heads [OF hop_okD(9) [OF ok]]
  have v: "set vObjs = {x \<in> dangling m. x \<in> set (pTable m)}" "distinct vObjs"
    using heads by (auto simp: vObjs_def dangling_def)
  define I where "I xs M \<longleftrightarrow> hop_ok M \<and> shrinks m M \<and> distinct xs \<and> set xs \<subseteq> dangling M \<and>
      dangling M - set xs = {x \<in> dangling m. x \<notin> set (pTable m)}" for xs M
  have "\<exists>M. run_loop vObjs (\<lambda>pNode p. Hop_ObjDelete_rec (length (Objs p)) p pNode) m = Inr M \<and> I [] M"
  proof (rule run_loop_inv)
    show "I vObjs m" unfolding I_def using ok shrinks_refl v by auto
    fix x xs p assume I: "I (x # xs) p"
    then have p: "hop_ok p" "shrinks m p" "x \<in> dangling p" "fRefCount p" "x \<notin> set xs" "distinct xs" "set xs \<subseteq> dangling p"
      using ref by (auto simp: I_def shrinks_def)
    have "index x < length (Objs p)" using p(3) by (simp add: dangling_def nodes_def obj_at_def)
    from Hop_ObjDelete_rec_val [OF p(1,4,3) this]
    obtain M where M: "Hop_ObjDelete_rec (length (Objs p)) p x = Inr M" "hop_ok M" "shrinks p M" "dangling M = dangling p - {x}"
      by blast
    have "I xs M" using I M(2,3,4) p shrinks_trans unfolding I_def by auto
    then show "\<exists>M. Hop_ObjDelete_rec (length (Objs p)) p x = Inr M \<and> I xs M" using M(1) by blast
  qed
  then obtain M where M: "run_loop vObjs (\<lambda>pNode p. Hop_ObjDelete_rec (length (Objs p)) p pNode) m = Inr M" "I [] M" by blast
  then have inv: "hop_ok M" "shrinks m M" "dangling M = {x \<in> dangling m. x \<notin> set (pTable m)}" by (simp_all add: I_def)
  have count: "Hop_ManNodeNum m = card (nodes m)" "Hop_ManNodeNum M = card (nodes M)"
    using hop_okD(7,8) [OF ok] hop_okD(7,8) [OF inv(1)] by (simp_all add: Hop_ManNodeNum_def)
  have "Hop_ManCleanup m = Inr (card (nodes m) - card (nodes M), M)"
    using ref M(1) by (simp add: Hop_ManCleanup_def vObjs_def count)
  then show ?thesis using inv by blast
qed

end
