(* ===== verification/Hop_Check.thy ===== *)
theory Hop_Check
  imports Hop_Delete
begin

text \<open>
  The consistency check of the AIG package (\<open>src/abc-master/src/aig/hop/hopCheck.c\<close>), primary outputs, and
  the managers that can be reached by the operations: all of them pass the check.
\<close>

section \<open>Operations\<close>

definition Hop_ManCheck :: "Hop_Man \<Rightarrow> nat res" where
  "Hop_ManCheck p =
    (if list_ex (\<lambda>pObj. Hop_ObjFanin0 (deref p pObj) \<noteq> 0 \<or> Hop_ObjFanin1 (deref p pObj) \<noteq> 0) (vPis p) then Inr 0
     else if list_ex (\<lambda>pObj. Hop_ObjFanin0 (deref p pObj) = 0 \<or> Hop_ObjFanin1 (deref p pObj) \<noteq> 0) (vPos p) then Inr 0
     else
       res_bind (run_loop (Hop_ManForEachNode p) (\<lambda>pObj result.
         if result = 0 then Inr 0
         else if Hop_ObjFanin0 (deref p pObj) = 0 \<or> Hop_ObjFanin1 (deref p pObj) = 0 then Inr 0
         else if Id_o (deref p (Hop_ObjFanin0 (deref p pObj))) \<ge> Id_o (deref p (Hop_ObjFanin1 (deref p pObj))) then Inr 0
         else res_bind (Hop_TableLookup p (deref p pObj)) (\<lambda>pObj2. if pObj2 \<noteq> pObj then Inr 0 else Inr 1)) (1::nat)) (\<lambda>result.
       if result = 0 then Inr 0
       else if Hop_ManObjNum p \<noteq> 1 + Hop_ManPiNum p + Hop_ManPoNum p + Hop_ManAndNum p + Hop_ManExorNum p then Inr 0
       else res_bind (Hop_TableCountEntries p) (\<lambda>n.
         if n \<noteq> Hop_ManAndNum p + Hop_ManExorNum p then Inr 0 else Inr (1::nat))))"

section \<open>The check succeeds\<close>

lemma Hop_TableCountEntries_val:
  assumes rep: "table_rep m S" and fin: "finite S"
  shows "Hop_TableCountEntries m = Inr (card S)"
proof -
  let ?K = "\<lambda>i. {x \<in> S. node_key m x < i}"
  have "returns (Hop_TableCountEntries m) (\<lambda>c. c = card (?K (nTableSize m)))"
    unfolding Hop_TableCountEntries_def
  proof (rule run_loop_up [where I = "\<lambda>i c. c = card (?K i)"])
    fix i c assume i: "0 \<le> i" "i < nTableSize m" and c: "c = card (?K i)"
    obtain xs where xs: "chain (nx m) (pTable m ! i) xs" "distinct xs" "set xs = {x \<in> S. node_key m x = i}"
      by (rule table_repD [OF rep i(2)])
    have "\<forall>x\<in>set xs. obj_at m x" using xs(3) table_rep_obj [OF rep] by simp
    from count_walk_chain [OF xs(1) chain_length [OF xs(2) this]]
    have walk: "count_walk (Suc (length (Objs m))) m (pTable m ! i) c = Inr (c + length xs)" .
    have U: "?K (Suc i) = ?K i \<union> set xs" unfolding xs(3) by auto
    have "card (?K i \<union> set xs) = card (?K i) + card (set xs)"
      by (rule card_Un_disjoint) (use fin in \<open>simp_all add: xs(3)\<close>, auto)
    then have "card (?K (Suc i)) = c + length xs" unfolding U c using distinct_card [OF xs(2)] by simp
    then show "returns (count_walk (Suc (length (Objs m))) m (pTable m ! i) c) (\<lambda>c. c = card (?K (Suc i)))"
      unfolding walk by simp
  qed simp_all
  moreover have "?K (nTableSize m) = S" using node_key_less [OF rep] by auto
  ultimately show ?thesis by (auto elim: returnsE)
qed

lemma inputs_set:
  assumes ok: "hop_ok m"
  shows "set (vPis m) = {x. obj_at m x \<and> Type_o (deref m x) = AIG_PI}" "distinct (vPis m)"
proof -
  have "x \<in> set (vPis m)" if "obj_at m x" "Type_o (deref m x) = AIG_PI" for x
    using hop_okD(5) [OF ok that(1)] that(2) by (auto simp: obj_ok_def) (metis nth_mem)
  then show "set (vPis m) = {x. obj_at m x \<and> Type_o (deref m x) = AIG_PI}"
    using hop_okD(11) [OF ok] by (auto simp: in_set_conv_nth)
  show "distinct (vPis m)"
    unfolding distinct_conv_nth using hop_okD(11) [OF ok] by metis
qed

lemma card_objects: "card {x. obj_at m x} = length (Objs m)"
proof -
  have "{x. obj_at m x} = addr ` {..<length (Objs m)}"
  proof (intro equalityI subsetI)
    fix x assume "x \<in> {x. obj_at m x}"
    then have "x = addr (index x)" "index x < length (Objs m)" using addr_index [of m x] by simp_all (simp add: obj_at_def)
    then show "x \<in> addr ` {..<length (Objs m)}" by blast
  qed auto
  moreover have "inj addr" by (simp add: inj_def addr_def)
  ultimately show ?thesis by (simp add: card_image inj_on_subset)
qed

lemma Hop_ManObjNum_val:
  assumes ok: "hop_ok m"
  shows "Hop_ManObjNum m = 1 + Hop_ManPiNum m + Hop_ManPoNum m + Hop_ManAndNum m + Hop_ManExorNum m"
proof -
  define T where "T t = {x. obj_at m x \<and> Type_o (deref m x) = t}" for t
  have fin: "finite (T t)" for t by (rule finite_subset [OF _ finite_obj_at [of m]]) (auto simp: T_def)
  have disj: "T s \<inter> T t = {}" if "s \<noteq> t" for s t using that by (auto simp: T_def)
  have type: "Type_o (deref m x) \<in> {AIG_NONE, AIG_CONST1, AIG_PI, AIG_PO, AIG_AND}" if "obj_at m x" for x
    using hop_okD(5) [OF ok that] by (cases "Type_o (deref m x)") (auto simp: obj_ok_def)
  then have "{x. obj_at m x} = T AIG_NONE \<union> T AIG_CONST1 \<union> T AIG_PI \<union> T AIG_PO \<union> T AIG_AND" by (auto simp: T_def)
  then have "length (Objs m) = card (T AIG_NONE \<union> T AIG_CONST1 \<union> T AIG_PI \<union> T AIG_PO \<union> T AIG_AND)"
    using card_objects [of m] by simp
  also have "\<dots> = card (T AIG_NONE) + card (T AIG_CONST1) + card (T AIG_PI) + card (T AIG_PO) + card (T AIG_AND)"
    by (simp add: card_Un_disjoint fin disj Int_Un_distrib2)
  finally have sum: "length (Objs m) = \<dots>" .
  have "T AIG_CONST1 = {addr 0}"
    using hop_okD(2-5) [OF ok] by (force simp: T_def obj_ok_def)
  moreover have "card (T AIG_PI) = nObjs m AIG_PI"
    using inputs_set [OF ok] hop_okD(6) [OF ok] by (metis T_def distinct_card)
  moreover have "card (T AIG_PO) = nObjs m AIG_PO" "card (T AIG_NONE) = nDeleted m"
    using hop_okD(13) [OF ok] unfolding counts_ok_def T_def by (metis distinct_card)+
  moreover have "card (T AIG_AND) = nObjs m AIG_AND" using hop_okD(7) [OF ok] by (simp add: nodes_def T_def)
  ultimately show ?thesis
    using sum hop_okD(1,8) [OF ok]
    by (simp add: Hop_ManObjNum_def Hop_ManPiNum_def Hop_ManPoNum_def Hop_ManAndNum_def Hop_ManExorNum_def)
qed

lemma lookup_self:
  assumes ok: "hop_ok m" and x: "x \<in> nodes m"
  shows "Hop_TableLookup m (deref m x) = Inr x"
proof -
  have "nRefs (deref m (Hop_Regular (pFanin0 (deref m x)))) \<noteq> 0 \<and> nRefs (deref m (Hop_Regular (pFanin1 (deref m x)))) \<noteq> 0"
    if "fRefCount m" using referenced(2) [OF ok that x] by simp
  from Hop_TableLookup_val [OF hop_okD(9) [OF ok] node_hashable [OF ok x] this]
  obtain r where r: "Hop_TableLookup m (deref m x) = Inr r"
    "if r = 0 then \<forall>y\<in>nodes m. \<not> same_node (deref m y) (deref m x) else r \<in> nodes m \<and> same_node (deref m r) (deref m x)" by blast
  have "same_node (deref m x) (deref m x)" by (simp add: same_node_def)
  then have "r \<in> nodes m \<and> same_node (deref m r) (deref m x)" using r(2) x by (auto split: if_splits)
  then have "r = x" using hop_okD(12) [OF ok] x by blast
  then show ?thesis using r(1) by simp
qed

lemma Hop_ManCheck_val:
  assumes ok: "hop_ok m"
  shows "Hop_ManCheck m = Inr 1"
proof -
  have zero [simp]: "Hop_Regular 0 = 0" by (simp add: Hop_Regular_arith)
  have "\<not> list_ex (\<lambda>pObj. Hop_ObjFanin0 (deref m pObj) \<noteq> 0 \<or> Hop_ObjFanin1 (deref m pObj) \<noteq> 0) (vPis m)"
  proof -
    have "Hop_ObjFanin0 (deref m x) = 0 \<and> Hop_ObjFanin1 (deref m x) = 0" if "x \<in> set (vPis m)" for x
    proof -
      have "obj_at m x" "Type_o (deref m x) = AIG_PI" using inputs_set(1) [OF ok] that by auto
      then show ?thesis using hop_okD(5) [OF ok, of x] by (simp add: obj_ok_def Hop_ObjFanin0_def Hop_ObjFanin1_def)
    qed
    then show ?thesis by (auto simp: list_ex_iff)
  qed
  moreover have "\<not> list_ex (\<lambda>pObj. Hop_ObjFanin0 (deref m pObj) = 0 \<or> Hop_ObjFanin1 (deref m pObj) \<noteq> 0) (vPos m)"
  proof -
    have "Hop_ObjFanin0 (deref m x) \<noteq> 0 \<and> Hop_ObjFanin1 (deref m x) = 0" if "x \<in> set (vPos m)" for x
    proof -
      have "obj_at m x" "Type_o (deref m x) = AIG_PO" using hop_okD(13) [OF ok] that by (auto simp: counts_ok_def)
      then have "live m (Hop_Regular (pFanin0 (deref m x)))" "pFanin1 (deref m x) = 0"
        using hop_okD(5) [OF ok, of x] by (simp_all add: obj_ok_def)
      then show ?thesis using live_nz by (simp add: Hop_ObjFanin0_def Hop_ObjFanin1_def)
    qed
    then show ?thesis by (auto simp: list_ex_iff)
  qed
  moreover have "\<exists>r. run_loop (Hop_ManForEachNode m) (\<lambda>pObj result.
         if result = 0 then Inr 0
         else if Hop_ObjFanin0 (deref m pObj) = 0 \<or> Hop_ObjFanin1 (deref m pObj) = 0 then Inr 0
         else if Id_o (deref m (Hop_ObjFanin0 (deref m pObj))) \<ge> Id_o (deref m (Hop_ObjFanin1 (deref m pObj))) then Inr 0
         else res_bind (Hop_TableLookup m (deref m pObj)) (\<lambda>pObj2. if pObj2 \<noteq> pObj then Inr 0 else Inr 1)) 1 = Inr r \<and>
      (r = (1::nat) \<and> set [] \<subseteq> nodes m)"
  proof (rule run_loop_inv [where I = "\<lambda>xs r. r = 1 \<and> set xs \<subseteq> nodes m"])
    show "(1::nat) = 1 \<and> set (Hop_ManForEachNode m) \<subseteq> nodes m" using heads(1) [OF hop_okD(9) [OF ok]] by auto
    fix x xs and r :: nat assume I: "r = 1 \<and> set (x # xs) \<subseteq> nodes m"
    then have x: "x \<in> nodes m" by simp
    have h: "hashable m (deref m x)" by (rule node_hashable [OF ok x])
    have l: "live m (Hop_ObjFanin0 (deref m x))" "live m (Hop_ObjFanin1 (deref m x))"
      using node_fanins [OF ok x] by (simp_all add: fanins_ok_def Let_def Hop_ObjFanin0_def Hop_ObjFanin1_def)
    then have "Hop_ObjFanin0 (deref m x) \<noteq> 0" "Hop_ObjFanin1 (deref m x) \<noteq> 0" using live_nz by blast+
    then show "\<exists>s'. (if r = 0 then Inr 0
         else if Hop_ObjFanin0 (deref m x) = 0 \<or> Hop_ObjFanin1 (deref m x) = 0 then Inr 0
         else if Id_o (deref m (Hop_ObjFanin0 (deref m x))) \<ge> Id_o (deref m (Hop_ObjFanin1 (deref m x))) then Inr 0
         else res_bind (Hop_TableLookup m (deref m x)) (\<lambda>pObj2. if pObj2 \<noteq> x then Inr 0 else Inr 1)) = Inr s' \<and>
       (s' = 1 \<and> set xs \<subseteq> nodes m)"
      using I h lookup_self [OF ok x] by (simp add: hashable_def Hop_ObjFanin0_def Hop_ObjFanin1_def)
  qed
  moreover have "Hop_TableCountEntries m = Inr (Hop_ManAndNum m + Hop_ManExorNum m)"
    using Hop_TableCountEntries_val [OF hop_okD(9) [OF ok]] hop_okD(7,8) [OF ok] by (simp add: Hop_ManAndNum_def Hop_ManExorNum_def)
  ultimately show ?thesis
    unfolding Hop_ManCheck_def using Hop_ManObjNum_val [OF ok] by auto
qed

section \<open>Primary outputs\<close>

lemma Hop_ObjCreatePo_fields:
  assumes d: "live m (Hop_Regular d)" and r: "Hop_ObjCreatePo m d = (x, M)"
  shows "x = addr (length (Objs m))" "length (Objs M) = Suc (length (Objs m))"
    "obj_at M y \<longleftrightarrow> obj_at m y \<or> y = x"
    "pTable M = pTable m" "nTableSize M = nTableSize m" "nCreated M = Suc (nCreated m)" "pConst1 M = pConst1 m"
    "fRefCount M = fRefCount m" "vPis M = vPis m" "vPos M = vPos m @ [x]" "nDeleted M = nDeleted m"
    "nObjs M = (nObjs m)(AIG_PO := nObjs m AIG_PO + 1)"
    "obj_at m y \<Longrightarrow> deref M y = (if fRefCount m \<and> y = Hop_Regular d then (deref m y)\<lparr>nRefs := nRefs (deref m y) + 1\<rparr> else deref m y)"
    "Type_o (deref M x) = AIG_PO" "pFanin0 (deref M x) = d" "pFanin1 (deref M x) = 0" "Id_o (deref M x) = nCreated m"
    "fRefCount m \<Longrightarrow> nRefs (deref M x) = 0"
proof -
  let ?x = "addr (length (Objs m))"
  obtain p where p: "Hop_ManFetchMemory m = (?x, p)" using fetch_fields(1) [of m] by (metis prod.collapse)
  note F = fetch_fields [of m, unfolded p snd_conv]
  define p1 where "p1 = update ?x (\<lambda>obj. obj\<lparr>pFanin0 := d\<rparr>) ((update ?x (\<lambda>obj. obj\<lparr>Type_o := AIG_PO\<rparr>) p)\<lparr>vPos := vPos m @ [?x]\<rparr>)"
  define p2 where "p2 = (if fRefCount m then Hop_ObjRef (Hop_Regular d) p1
    else update ?x (\<lambda>obj. obj\<lparr>nRefs := nRefs (deref p1 (Hop_Regular d))\<rparr>) p1)"
  have M: "x = ?x" "M = (update ?x (\<lambda>obj. obj\<lparr>fPhase := Hop_ObjPhaseCompl p2 d\<rparr>) p2)\<lparr>nObjs := (nObjs m)(AIG_PO := nObjs m AIG_PO + 1)\<rparr>"
    using r by (auto simp: Hop_ObjCreatePo_def p Let_def p1_def p2_def F Hop_ObjRef_def)
  have at: "obj_at p1 y \<longleftrightarrow> obj_at m y \<or> y = ?x" "obj_at p2 y \<longleftrightarrow> obj_at m y \<or> y = ?x" for y
    using F(3) by (simp_all add: p1_def p2_def Hop_ObjRef_def obj_at_def)
  have len: "length (Objs p1) = Suc (length (Objs m))" "length (Objs p2) = Suc (length (Objs m))"
    using F(2) by (simp_all add: p1_def p2_def Hop_ObjRef_def)
  have vd: "deref (q\<lparr>vPos := v\<rparr>) = deref q" "obj_at (q\<lparr>vPos := v\<rparr>) = obj_at q" "deref (q\<lparr>nObjs := n\<rparr>) = deref q" "obj_at (q\<lparr>nObjs := n\<rparr>) = obj_at q" for q v n
    by (simp_all add: fun_eq_iff deref_def obj_at_def)
  show "x = ?x" by (rule M)
  show "length (Objs M) = Suc (length (Objs m))" "obj_at M y \<longleftrightarrow> obj_at m y \<or> y = x"
    "pTable M = pTable m" "nTableSize M = nTableSize m" "nCreated M = Suc (nCreated m)" "pConst1 M = pConst1 m"
    "fRefCount M = fRefCount m" "vPis M = vPis m" "vPos M = vPos m @ [x]" "nDeleted M = nDeleted m"
    "nObjs M = (nObjs m)(AIG_PO := nObjs m AIG_PO + 1)"
    using F by (simp_all add: M vd at) (simp_all add: p1_def p2_def Hop_ObjRef_def)
  have q: "obj_at m (Hop_Regular d)" using d by (simp add: live_def)
  have d1: "deref p1 y = deref m y" if "obj_at m y" for y
  proof -
    have "y \<noteq> ?x" using that by auto
    then show ?thesis using that fetch_deref(1) [OF that, unfolded p snd_conv] F(2,3) by (simp add: p1_def deref_update vd)
  qed
  show "deref M y = (if fRefCount m \<and> y = Hop_Regular d then (deref m y)\<lparr>nRefs := nRefs (deref m y) + 1\<rparr> else deref m y)" if "obj_at m y"
  proof -
    have "y \<noteq> ?x" using that by auto
    then show ?thesis using that q by (simp add: M vd deref_update at len p2_def Hop_ObjRef_def d1)
  qed
  have new: "deref p1 ?x = zero_obj\<lparr>Id_o := nCreated m, Type_o := AIG_PO, pFanin0 := d\<rparr>"
    using fetch_deref(2) [of m, unfolded p snd_conv] F(2,3) by (simp add: p1_def deref_update vd)
  have ne: "Hop_Regular d \<noteq> ?x" using q by auto
  show "Type_o (deref M x) = AIG_PO" "pFanin0 (deref M x) = d" "pFanin1 (deref M x) = 0" "Id_o (deref M x) = nCreated m"
    using ne q by (simp_all add: M vd deref_update at len p2_def Hop_ObjRef_def new zero_obj_def)
  show "nRefs (deref M x) = 0" if "fRefCount m"
    using that ne q by (simp add: M vd deref_update at len p2_def Hop_ObjRef_def new zero_obj_def)
qed

lemma Hop_ObjCreatePo_val:
  assumes ok: "hop_ok m" and room: "hop_room m 1" and v: "hop_valid m d" and r: "Hop_ObjCreatePo m d = (x, M)"
  shows "hop_ok M" "extends m M" "length (Objs M) = Suc (length (Objs m))" "vPos M = vPos m @ [x]" "pFanin0 (deref M x) = d"
proof -
  have d: "live m (Hop_Regular d)" using v by (simp add: hop_valid_def)
  note f = Hop_ObjCreatePo_fields [OF d r]
  show "length (Objs M) = Suc (length (Objs m))" "vPos M = vPos m @ [x]" "pFanin0 (deref M x) = d" by (rule f)+
  have xm: "\<not> obj_at m x" by (simp add: f(1))
  have old: "Type_o (deref M y) = Type_o (deref m y)" "Id_o (deref M y) = Id_o (deref m y)"
    "pFanin0 (deref M y) = pFanin0 (deref m y)" "pFanin1 (deref M y) = pFanin1 (deref m y)"
    "fPhase (deref M y) = fPhase (deref m y)" "nx M y = nx m y" if "obj_at m y" for y
    using f(13) [OF that] by (simp_all add: nx_def)
  show ext: "extends m M" using old f by (simp add: extends_def)
  have nodes: "nodes M = nodes m" using old(1) xm f(14) by (auto simp: nodes_def f(3))
  have fan: "fanouts M y = fanouts m y \<union> (if y = Hop_Regular d then {x} else {})" for y
  proof (rule set_eqI)
    fix u show "u \<in> fanouts M y \<longleftrightarrow> u \<in> fanouts m y \<union> (if y = Hop_Regular d then {x} else {})"
      using old(1,3,4) [of u] xm f(3) [of u] f(14,15) by (cases "u = x") (auto simp: fanouts_def)
  qed
  have key: "node_key M y = node_key m y" if y: "y \<in> nodes m" for y
  proof -
    have "obj_at m y" "obj_at m (Hop_Regular (pFanin0 (deref m y)))" "obj_at m (Hop_Regular (pFanin1 (deref m y)))"
      using y node_fanins [OF ok y] by (simp_all add: nodes_def fanins_ok_def live_def Let_def)
    then show ?thesis using old
      by (simp add: node_key_def Hop_Hash_def obj_reads Hop_ObjIsExor_def Hop_ObjFaninC0_def Hop_ObjFaninC1_def f(5))
  qed
  have rep: "table_rep M (nodes m)"
    by (rule table_rep_cong [OF hop_okD(9) [OF ok] f(4,5)]) (use old key in \<open>auto simp: nodes_def f(3)\<close>)
  have "x \<noteq> addr 0" using hop_okD(3) [OF ok] by (auto simp: f(1) addr_def)
  moreover have "live M (Hop_Regular d)" by (rule extends_live [OF ext d])
  moreover have "index (Hop_Regular d) < index x" using d by (simp add: f(1) live_def obj_at_def)
  moreover have "Id_o (deref M x) = index x" using f(17) hop_okD(1) [OF ok] by (simp add: f(1))
  ultimately have ox: "obj_ok M x" using hop_okD(2) [OF ok] by (simp add: obj_ok_def f(7,14-16))
  have objs: "obj_ok M y" if "obj_at M y" for y
  proof (cases "y = x")
    case False
    then have "obj_at m y" using that f(3) by simp
    then show ?thesis using obj_ok_extends [OF ext _ hop_okD(5) [OF ok]] f(9) by simp
  qed (use ox in simp)
  have refs: "refs_ok M y" if ref: "fRefCount m" and y: "obj_at M y" for y
  proof (cases "y = x")
    case True
    have "x \<noteq> Hop_Regular d" using d xm by (auto simp: live_def)
    then show ?thesis using True fanouts_new(2) [OF ok xm] f(18) [OF ref] by (simp add: refs_ok_def fan)
  next
    case False
    then have ym: "obj_at m y" using y f(3) by simp
    have r: "card (fanouts m y) \<le> unat (nRefs (deref m y))" "unat (nRefs (deref m y)) \<le> length (Objs m)"
      using hop_okD(10) [OF ok ref ym] by (simp_all add: refs_ok_def)
    show ?thesis
    proof (cases "y = Hop_Regular d")
      case True
      have "unat (nRefs (deref m y)) + 1 < 2 ^ 26" using r(2) room by (simp add: hop_room_def)
      then have "unat (nRefs (deref m y) + 1) = unat (nRefs (deref m y)) + 1" by (simp add: unat_word_ariths(1))
      moreover have "card (fanouts M y) = card (fanouts m y) + 1"
        using True fanouts_new(1) [OF ok, of y] by (simp add: fan f(1))
      ultimately show ?thesis using r f(2) f(13) [OF ym] True ref by (simp add: refs_ok_def)
    next
      case F: False
      then show ?thesis using r f(2) f(13) [OF ym] by (simp add: refs_ok_def fan)
    qed
  qed
  have counts: "counts_ok M"
  proof -
    have "{y. obj_at M y \<and> Type_o (deref M y) = AIG_PO} = insert x {y. obj_at m y \<and> Type_o (deref m y) = AIG_PO}"
      using old(1) xm f(14) by (auto simp: f(3))
    moreover have "{y. obj_at M y \<and> Type_o (deref M y) = AIG_NONE} = {y. obj_at m y \<and> Type_o (deref m y) = AIG_NONE}"
      using old(1) xm f(14) by (auto simp: f(3))
    moreover have "x \<notin> set (vPos m)" using hop_okD(13) [OF ok] xm by (auto simp: counts_ok_def)
    ultimately show ?thesis using hop_okD(13) [OF ok] by (simp add: counts_ok_def f(10-12))
  qed
  have pi: "obj_at M (vPis M ! k) \<and> Type_o (deref M (vPis M ! k)) = AIG_PI \<and> nx M (vPis M ! k) = k" if "k < length (vPis M)" for k
    using hop_okD(11) [OF ok, of k] that old(1,6) f(9) by (simp add: f(3))
  have uniq: "y = z" if yz: "y \<in> nodes m" "z \<in> nodes m" "same_node (deref M y) (deref M z)" for y z
    using yz old(1,3,4) [of y] old(1,3,4) [of z] hop_okD(12) [OF ok yz(1,2)]
    by (simp add: nodes_def same_node_def Hop_ObjChild0_def Hop_ObjChild1_def)
  have "Type_o (deref M (addr 0)) = AIG_CONST1" using hop_okD(3,4) [OF ok] old(1) by simp
  then show "hop_ok M"
    unfolding hop_ok_def nodes using hop_okD [OF ok] rep objs refs pi uniq counts
    by (intro conjI) (simp_all add: f(2,6-9,11,12))
qed

end
