(* ===== verification/Hop_Marks.thy ===== *)
theory Hop_Marks
  imports Hop_Check
begin

text \<open>
  The fields of an object that the traversals of the AIG package use for themselves: the data field
  \<open>pData\<close> and the mark \<open>fMarkA\<close>. A manager whose objects differ in these fields only is as good as before.
\<close>

section \<open>Reading and writing\<close>

definition Hop_ObjIsMarkA :: "Hop_Obj \<Rightarrow> bool" where "Hop_ObjIsMarkA pObj = fMarkA pObj"

definition Hop_ObjSetMarkA :: "nat \<Rightarrow> Hop_Man \<Rightarrow> Hop_Man" where
  "Hop_ObjSetMarkA p = update p (\<lambda>pObj. pObj\<lparr>fMarkA := True\<rparr>)"

definition Hop_ObjClearMarkA :: "nat \<Rightarrow> Hop_Man \<Rightarrow> Hop_Man" where
  "Hop_ObjClearMarkA p = update p (\<lambda>pObj. pObj\<lparr>fMarkA := False\<rparr>)"

text \<open>The assignment \<open>pObj->pData = v\<close>, also for the number \<open>iData\<close> in the same place.\<close>

definition set_data :: "nat \<Rightarrow> nat \<Rightarrow> Hop_Man \<Rightarrow> Hop_Man" where
  "set_data p v = update p (\<lambda>pObj. pObj\<lparr>pData := v\<rparr>)"

definition Hop_ObjChild0Copy :: "Hop_Man \<Rightarrow> nat \<Rightarrow> nat res" where
  "Hop_ObjChild0Copy m p =
    (if Hop_IsComplement p then Inl AssertFailed
     else Inr (if Hop_ObjFanin0 (deref m p) \<noteq> 0
       then Hop_NotCond (pData (deref m (Hop_ObjFanin0 (deref m p)))) (Hop_ObjFaninC0 (deref m p)) else 0))"

definition Hop_ObjChild1Copy :: "Hop_Man \<Rightarrow> nat \<Rightarrow> nat res" where
  "Hop_ObjChild1Copy m p =
    (if Hop_IsComplement p then Inl AssertFailed
     else Inr (if Hop_ObjFanin1 (deref m p) \<noteq> 0
       then Hop_NotCond (pData (deref m (Hop_ObjFanin1 (deref m p)))) (Hop_ObjFaninC1 (deref m p)) else 0))"

section \<open>Managers that differ in data and marks\<close>

definition redecorated :: "Hop_Man \<Rightarrow> Hop_Man \<Rightarrow> bool" where
  "redecorated m m' \<longleftrightarrow> m'\<lparr>Objs := Objs m\<rparr> = m \<and> length (Objs m') = length (Objs m) \<and>
     (\<forall>q. (deref m' q)\<lparr>pData := 0, fMarkA := False\<rparr> = (deref m q)\<lparr>pData := 0, fMarkA := False\<rparr>)"

lemma redecorated_fields:
  assumes "redecorated m m'"
  shows "Id_o (deref m' q) = Id_o (deref m q)" "Type_o (deref m' q) = Type_o (deref m q)"
    "pFanin0 (deref m' q) = pFanin0 (deref m q)" "pFanin1 (deref m' q) = pFanin1 (deref m q)"
    "nRefs (deref m' q) = nRefs (deref m q)" "fPhase (deref m' q) = fPhase (deref m q)" "nx m' q = nx m q"
    "obj_at m' q = obj_at m q" "length (Objs m') = length (Objs m)"
    "vPis m' = vPis m" "vPos m' = vPos m" "pConst1 m' = pConst1 m" "nObjs m' = nObjs m" "nCreated m' = nCreated m"
    "nDeleted m' = nDeleted m" "pTable m' = pTable m" "nTableSize m' = nTableSize m" "fRefCount m' = fRefCount m"
    "fMarkB (deref m' q) = fMarkB (deref m q)" "pNext (deref m' q) = pNext (deref m q)"
proof -
  have q: "(deref m' q)\<lparr>pData := 0, fMarkA := False\<rparr> = (deref m q)\<lparr>pData := 0, fMarkA := False\<rparr>"
    using assms by (simp add: redecorated_def)
  show "Id_o (deref m' q) = Id_o (deref m q)" using arg_cong [OF q, of Id_o] by simp
  show "Type_o (deref m' q) = Type_o (deref m q)" using arg_cong [OF q, of Type_o] by simp
  show "pFanin0 (deref m' q) = pFanin0 (deref m q)" using arg_cong [OF q, of pFanin0] by simp
  show "pFanin1 (deref m' q) = pFanin1 (deref m q)" using arg_cong [OF q, of pFanin1] by simp
  show "nRefs (deref m' q) = nRefs (deref m q)" using arg_cong [OF q, of nRefs] by simp
  show "fPhase (deref m' q) = fPhase (deref m q)" using arg_cong [OF q, of fPhase] by simp
  show "fMarkB (deref m' q) = fMarkB (deref m q)" using arg_cong [OF q, of fMarkB] by simp
  show "nx m' q = nx m q" "pNext (deref m' q) = pNext (deref m q)" using arg_cong [OF q, of pNext] by (simp_all add: nx_def)
  show "obj_at m' q = obj_at m q" "length (Objs m') = length (Objs m)" using assms by (simp_all add: redecorated_def obj_at_def)
  have m: "m'\<lparr>Objs := Objs m\<rparr> = m" using assms by (simp add: redecorated_def)
  show "vPis m' = vPis m" using arg_cong [OF m, of vPis] by simp
  show "vPos m' = vPos m" using arg_cong [OF m, of vPos] by simp
  show "pConst1 m' = pConst1 m" using arg_cong [OF m, of pConst1] by simp
  show "nObjs m' = nObjs m" using arg_cong [OF m, of nObjs] by simp
  show "nCreated m' = nCreated m" using arg_cong [OF m, of nCreated] by simp
  show "nDeleted m' = nDeleted m" using arg_cong [OF m, of nDeleted] by simp
  show "pTable m' = pTable m" using arg_cong [OF m, of pTable] by simp
  show "nTableSize m' = nTableSize m" using arg_cong [OF m, of nTableSize] by simp
  show "fRefCount m' = fRefCount m" using arg_cong [OF m, of fRefCount] by simp
qed

lemma redecorated_refl: "redecorated m m"
  by (simp add: redecorated_def)

lemma redecorated_trans: "redecorated m m1 \<Longrightarrow> redecorated m1 m2 \<Longrightarrow> redecorated m m2"
  unfolding redecorated_def by (cases m, cases m1, cases m2) simp

lemma redecorated_update:
  assumes "\<And>x. (f x)\<lparr>pData := 0, fMarkA := False\<rparr> = x\<lparr>pData := 0, fMarkA := False\<rparr>"
  shows "redecorated m (update p f m)"
  unfolding redecorated_def
proof (intro conjI allI)
  show "(update p f m)\<lparr>Objs := Objs m\<rparr> = m" by (simp add: update_def)
  show "(deref (update p f m) q)\<lparr>pData := 0, fMarkA := False\<rparr> = (deref m q)\<lparr>pData := 0, fMarkA := False\<rparr>" for q
    by (rule deref_update_frame [where g = "\<lambda>x. x\<lparr>pData := 0, fMarkA := False\<rparr>"]) (rule assms)
qed simp

lemma redecorated_ops [simp]:
  "redecorated m (Hop_ObjSetMarkA p m)" "redecorated m (Hop_ObjClearMarkA p m)" "redecorated m (set_data p v m)"
  by (simp_all add: Hop_ObjSetMarkA_def Hop_ObjClearMarkA_def set_data_def redecorated_update)

lemma redecorated_parts:
  assumes "redecorated m m'"
  shows "nodes m' = nodes m" "fanouts m' q = fanouts m q" "live m' q = live m q" "node_key m' q = node_key m q"
    "hop_valid m' q = hop_valid m q"
proof -
  note f = redecorated_fields [OF assms]
  show "nodes m' = nodes m" "fanouts m' q = fanouts m q" "live m' q = live m q" "hop_valid m' q = hop_valid m q"
    by (simp_all add: nodes_def fanouts_def live_def hop_valid_def f)
  show "node_key m' q = node_key m q" unfolding node_key_def f(17) by (rule Hop_Hash_cong) (simp_all add: f)
qed

lemma redecorated_ok:
  assumes r: "redecorated m m'" and ok: "hop_ok m"
  shows "hop_ok m'"
proof -
  note f = redecorated_fields [OF r] and p = redecorated_parts [OF r]
  have fan: "fanins_ok m' x = fanins_ok m x" for x by (simp add: fanins_ok_def f p)
  have "obj_ok m' x = obj_ok m x" for x
    by (cases "Type_o (deref m x)") (simp_all add: obj_ok_def f p fan)
  moreover have "refs_ok m' x = refs_ok m x" for x by (simp add: refs_ok_def f p)
  moreover have "counts_ok m' = counts_ok m" by (simp add: counts_ok_def f)
  moreover have "table_rep m' (nodes m)"
    by (rule table_rep_cong [OF hop_okD(9) [OF ok]]) (simp_all add: f p, simp add: nodes_def)
  moreover have "same_node (deref m' x) (deref m' y) = same_node (deref m x) (deref m y)" for x y
    by (simp add: same_node_def Hop_ObjChild0_def Hop_ObjChild1_def f)
  ultimately show ?thesis using ok by (simp add: hop_ok_def f p)
qed

lemma redecorated_val:
  assumes r: "redecorated m m'"
  shows "obj_val g m' x = obj_val g m x"
proof (induction "index x" arbitrary: x rule: less_induct)
  case less
  note f = redecorated_fields [OF r]
  show ?case
    using less [of "Hop_Regular (pFanin0 (deref m x))"] less [of "Hop_Regular (pFanin1 (deref m x))"]
    by (subst (1 2) obj_val.simps) (auto simp: f split: Hop_Type.split)
qed

lemma redecorated_ptr_val: "redecorated m m' \<Longrightarrow> ptr_val g m' q = ptr_val g m q"
  by (simp add: ptr_val_def redecorated_val)

lemma marks_deref:
  assumes "obj_at m p" "obj_at m q"
  shows "fMarkA (deref (Hop_ObjSetMarkA p m) q) = (q = p \<or> fMarkA (deref m q))" "pData (deref (Hop_ObjSetMarkA p m) q) = pData (deref m q)"
    "fMarkA (deref (Hop_ObjClearMarkA p m) q) = (q \<noteq> p \<and> fMarkA (deref m q))" "pData (deref (Hop_ObjClearMarkA p m) q) = pData (deref m q)"
    "fMarkA (deref (set_data p v m) q) = fMarkA (deref m q)" "pData (deref (set_data p v m) q) = (if q = p then v else pData (deref m q))"
  using assms by (auto simp: Hop_ObjSetMarkA_def Hop_ObjClearMarkA_def set_data_def deref_update)

end
