(* ===== verification/Hop_Cone.thy ===== *)
theory Hop_Cone
  imports Hop_Marks
begin

text \<open>
  Cones of the AIG package and the interface of the traversals that mark them. A traversal visits the
  fanins of a node, then the node; the mark \<open>fMarkA\<close> keeps it from visiting a node twice. The locale
  \<open>traversal\<close> has the contract that the recursions of \<open>hopDfs.c\<close> share, and one induction for all of them.
\<close>

section \<open>Cones\<close>

function cone :: "Hop_Man \<Rightarrow> nat \<Rightarrow> nat set" where
  "cone m x =
    (if Type_o (deref m x) = AIG_AND then
       if index (Hop_Regular (pFanin0 (deref m x))) < index x \<and> index (Hop_Regular (pFanin1 (deref m x))) < index x then
         insert x (cone m (Hop_Regular (pFanin0 (deref m x))) \<union> cone m (Hop_Regular (pFanin1 (deref m x))))
       else {x}
     else {})"
  by pat_completeness auto
termination
  by (relation "measure (\<lambda>(m, x). index x)") auto

text \<open>The inputs that an object depends on.\<close>

function obj_supp :: "Hop_Man \<Rightarrow> nat \<Rightarrow> nat set" where
  "obj_supp m x =
    (case Type_o (deref m x) of
       AIG_PI \<Rightarrow> {pNext (deref m x)}
     | AIG_AND \<Rightarrow>
         if index (Hop_Regular (pFanin0 (deref m x))) < index x \<and> index (Hop_Regular (pFanin1 (deref m x))) < index x then
           obj_supp m (Hop_Regular (pFanin0 (deref m x))) \<union> obj_supp m (Hop_Regular (pFanin1 (deref m x)))
         else {}
     | _ \<Rightarrow> {})"
  by pat_completeness auto
termination
  by (relation "measure (\<lambda>(m, x). index x)") auto

declare cone.simps [simp del] obj_supp.simps [simp del]

abbreviation fan0 :: "Hop_Man \<Rightarrow> nat \<Rightarrow> nat" where "fan0 m x \<equiv> Hop_Regular (pFanin0 (deref m x))"
abbreviation fan1 :: "Hop_Man \<Rightarrow> nat \<Rightarrow> nat" where "fan1 m x \<equiv> Hop_Regular (pFanin1 (deref m x))"

lemma fanin_facts:
  assumes "hop_ok m" "x \<in> nodes m"
  shows "live m (fan0 m x)" "live m (fan1 m x)" "fan0 m x \<noteq> pConst1 m" "fan1 m x \<noteq> pConst1 m"
    "index (fan0 m x) < index x" "index (fan1 m x) < index x" "fan0 m x \<noteq> fan1 m x"
  using node_fanins [OF assms] by (auto simp: fanins_ok_def Let_def)

lemma cone_node: "hop_ok m \<Longrightarrow> x \<in> nodes m \<Longrightarrow> cone m x = insert x (cone m (fan0 m x) \<union> cone m (fan1 m x))"
  by (subst cone.simps) (simp add: fanin_facts, simp add: nodes_def)

lemma cone_leaf: "x \<notin> nodes m \<Longrightarrow> obj_at m x \<Longrightarrow> cone m x = {}"
  by (subst cone.simps) (simp add: nodes_def)

lemma cone_sub:
  assumes ok: "hop_ok m" and x: "live m x"
  shows "cone m x \<subseteq> nodes m" "y \<in> cone m x \<Longrightarrow> index y \<le> index x" "y \<in> cone m x \<Longrightarrow> cone m y \<subseteq> cone m x"
proof -
  have "cone m x \<subseteq> nodes m \<and> (\<forall>y\<in>cone m x. index y \<le> index x \<and> cone m y \<subseteq> cone m x)"
    using x
  proof (induction "index x" arbitrary: x rule: less_induct)
    case less
    show ?case
    proof (cases "x \<in> nodes m")
      case True
      note f = fanin_facts [OF ok True]
      note 0 = less.hyps [OF f(5,1)] and 1 = less.hyps [OF f(6,2)]
      have "index y \<le> index x" if "y \<in> cone m (fan0 m x) \<union> cone m (fan1 m x)" for y
        using that 0 1 f(5,6) by (meson UnE dual_order.trans less_imp_le)
      moreover have "cone m y \<subseteq> cone m (fan0 m x) \<union> cone m (fan1 m x)" if "y \<in> cone m (fan0 m x) \<union> cone m (fan1 m x)" for y
        using that 0 1 by blast
      moreover have "cone m (fan0 m x) \<union> cone m (fan1 m x) \<subseteq> nodes m" using 0 1 by blast
      moreover have "y = x \<or> y \<in> cone m (fan0 m x) \<union> cone m (fan1 m x)" if "y \<in> cone m x" for y
        using that cone_node [OF ok True] by blast
      ultimately show ?thesis using True cone_node [OF ok True] by (metis insert_subset le_refl order_refl subset_insertI2)
    next
      case False
      then show ?thesis using cone_leaf [OF False] less.prems by (simp add: live_def)
    qed
  qed
  then show "cone m x \<subseteq> nodes m" "y \<in> cone m x \<Longrightarrow> index y \<le> index x" "y \<in> cone m x \<Longrightarrow> cone m y \<subseteq> cone m x" by blast+
qed

lemma cone_finite: "hop_ok m \<Longrightarrow> live m x \<Longrightarrow> finite (cone m x)"
  using cone_sub(1) finite_nodes by (meson finite_subset)

lemma cone_self: "hop_ok m \<Longrightarrow> x \<in> nodes m \<Longrightarrow> x \<notin> cone m (fan0 m x) \<and> x \<notin> cone m (fan1 m x)"
  using cone_sub(2) [of m "fan0 m x" x] cone_sub(2) [of m "fan1 m x" x] fanin_facts [of m x] by force

text \<open>Operations that keep the objects they find keep their cones.\<close>

lemma extends_nodes: "extends m m' \<Longrightarrow> obj_at m x \<Longrightarrow> x \<in> nodes m' \<longleftrightarrow> x \<in> nodes m"
  by (auto simp: extends_def nodes_def)

lemma extends_fan: "extends m m' \<Longrightarrow> obj_at m x \<Longrightarrow> fan0 m' x = fan0 m x \<and> fan1 m' x = fan1 m x"
  by (simp add: extends_def)

lemma extends_cone:
  assumes ok: "hop_ok m" "hop_ok m'" and ext: "extends m m'" and x: "live m x"
  shows "cone m' x = cone m x"
  using x
proof (induction "index x" arbitrary: x rule: less_induct)
  case less
  then have at: "obj_at m x" "obj_at m' x" using extends_live [OF ext] by (auto simp: live_def)
  show ?case
  proof (cases "x \<in> nodes m")
    case True
    note f = fanin_facts [OF ok(1) True]
    have "x \<in> nodes m'" using True extends_nodes [OF ext at(1)] by simp
    then show ?thesis
      using cone_node [OF ok(2)] cone_node [OF ok(1) True] extends_fan [OF ext at(1)] less.hyps [OF f(5,1)] less.hyps [OF f(6,2)] by simp
  next
    case False
    then show ?thesis using cone_leaf at extends_nodes [OF ext at(1)] by simp
  qed
qed

lemma redecorated_extends: "redecorated m m' \<Longrightarrow> extends m m'"
  by (simp add: extends_def redecorated_fields)

section \<open>Marks\<close>

definition marks :: "Hop_Man \<Rightarrow> nat set" where
  "marks m = {x. obj_at m x \<and> fMarkA (deref m x)}"

lemma marked_ops:
  assumes "obj_at m p"
  shows "marks (Hop_ObjSetMarkA p m) = insert p (marks m)" "marks (Hop_ObjClearMarkA p m) = marks m - {p}"
    "marks (set_data p v m) = marks m"
proof -
  have at: "obj_at (Hop_ObjSetMarkA p m) q = obj_at m q" "obj_at (Hop_ObjClearMarkA p m) q = obj_at m q"
    "obj_at (set_data p v m) q = obj_at m q" for q
    by (simp_all add: Hop_ObjSetMarkA_def Hop_ObjClearMarkA_def set_data_def)
  show "marks (Hop_ObjSetMarkA p m) = insert p (marks m)" "marks (Hop_ObjClearMarkA p m) = marks m - {p}"
    "marks (set_data p v m) = marks m"
    using assms by (auto simp: marks_def at marks_deref)
qed

text \<open>Marks on nodes, with every node the nodes below it.\<close>

definition marks_closed :: "Hop_Man \<Rightarrow> bool" where
  "marks_closed m \<longleftrightarrow> marks m \<subseteq> nodes m \<and> (\<forall>x\<in>marks m. cone m x \<subseteq> marks m)"

text \<open>What a part of a traversal does to the manager when it does not mark.\<close>

definition keeps :: "Hop_Man \<Rightarrow> Hop_Man \<Rightarrow> bool" where
  "keeps m m' \<longleftrightarrow> hop_ok m' \<and> extends m m' \<and> marks m' = marks m"

lemma keeps_redecorated: "hop_ok m \<Longrightarrow> redecorated m m' \<Longrightarrow> marks m' = marks m \<Longrightarrow> keeps m m'"
  by (simp add: keeps_def redecorated_ok redecorated_extends)

section \<open>The interface of the traversals\<close>

locale traversal =
  fixes visit :: "nat \<Rightarrow> nat \<Rightarrow> Hop_Man \<times> 's \<Rightarrow> (Hop_Man \<times> 's) res"
    and act :: "nat \<Rightarrow> Hop_Man \<times> 's \<Rightarrow> (Hop_Man \<times> 's) res"
    and inv :: "nat set \<Rightarrow> Hop_Man \<times> 's \<Rightarrow> bool"
    and seen :: "Hop_Man \<times> 's \<Rightarrow> nat \<Rightarrow> bool"
  assumes visit_marked: "x \<in> nodes m \<Longrightarrow> x \<in> marks m \<Longrightarrow> visit (Suc n) x (m, s) = Inr (m, s)"
    and visit_leaf: "hop_ok m \<Longrightarrow> live m x \<Longrightarrow> x \<notin> nodes m \<Longrightarrow> x \<notin> marks m \<Longrightarrow> inv C (m, s) \<Longrightarrow>
      \<exists>m' s'. visit (Suc n) x (m, s) = Inr (m', s') \<and> keeps m m' \<and> inv C (m', s') \<and> seen (m', s') x \<and>
        (\<forall>y. live m y \<longrightarrow> seen (m, s) y \<longrightarrow> seen (m', s') y)"
    and visit_node: "x \<in> nodes m \<Longrightarrow> x \<notin> marks m \<Longrightarrow> visit (Suc n) x (m, s) =
      res_bind (visit n (fan0 m x) (m, s)) (\<lambda>(m, s). res_bind (visit n (fan1 m x) (m, s)) (\<lambda>(m, s).
      res_bind (act x (m, s)) (\<lambda>(m, s). if fMarkA (deref m x) then Inl AssertFailed else Inr (Hop_ObjSetMarkA x m, s))))"
    and act_keeps: "hop_ok m \<Longrightarrow> x \<in> nodes m \<Longrightarrow> x \<notin> marks m \<Longrightarrow> x \<in> C \<Longrightarrow> marks_closed m \<Longrightarrow>
      cone m (fan0 m x) \<union> cone m (fan1 m x) \<subseteq> marks m \<Longrightarrow>
      (\<And>q. q = fan0 m x \<or> q = fan1 m x \<Longrightarrow> q \<notin> nodes m \<Longrightarrow> seen (m, s) q) \<Longrightarrow> inv C (m, s) \<Longrightarrow>
      \<exists>m' s'. act x (m, s) = Inr (m', s') \<and> keeps m m' \<and> inv C (Hop_ObjSetMarkA x m', s') \<and>
        (\<forall>y. live m y \<longrightarrow> seen (m, s) y \<longrightarrow> seen (Hop_ObjSetMarkA x m', s') y)"
begin

lemma visit_val:
  assumes "hop_ok m" "live m x" "marks_closed m" "cone m x \<subseteq> C" "inv C (m, s)" "index x < n"
  shows "\<exists>m' s'. visit n x (m, s) = Inr (m', s') \<and> hop_ok m' \<and> extends m m' \<and> marks m' = marks m \<union> cone m x \<and>
    marks_closed m' \<and> inv C (m', s') \<and> (x \<notin> nodes m \<longrightarrow> seen (m', s') x) \<and>
    (\<forall>y. live m y \<longrightarrow> seen (m, s) y \<longrightarrow> seen (m', s') y)"
  using assms
proof (induction n arbitrary: m x s)
  case (Suc n)
  note ok = Suc.prems(1) and live = Suc.prems(2) and closed = Suc.prems(3)
  have at: "obj_at m x" using live by (simp add: live_def)
  consider "x \<in> nodes m" "x \<in> marks m" | "x \<notin> nodes m" | "x \<in> nodes m" "x \<notin> marks m" by blast
  then show ?case
  proof cases
    case 1
    then have "cone m x \<subseteq> marks m" using closed by (simp add: marks_closed_def)
    then show ?thesis using visit_marked [OF 1] Suc.prems extends_refl 1(1) by auto
  next
    case 2
    then have "x \<notin> marks m" using closed by (auto simp: marks_closed_def)
    then obtain m' s' where v: "visit (Suc n) x (m, s) = Inr (m', s')" "keeps m m'" "inv C (m', s')" "seen (m', s') x"
        "\<forall>y. live m y \<longrightarrow> seen (m, s) y \<longrightarrow> seen (m', s') y"
      using visit_leaf [OF ok live 2 _ Suc.prems(5)] by blast
    then have k: "hop_ok m'" "extends m m'" "marks m' = marks m" by (simp_all add: keeps_def)
    have "marks_closed m'"
      unfolding marks_closed_def k(3)
    proof (intro conjI ballI subsetI)
      fix y assume "y \<in> marks m"
      then have y: "y \<in> nodes m" "live m y" "cone m y \<subseteq> marks m" using closed by (auto simp: marks_closed_def nodes_def live_def)
      then show "y \<in> nodes m'" using extends_nodes [OF k(2)] by (simp add: live_def)
      show "z \<in> marks m" if "z \<in> cone m' y" for z using that y extends_cone [OF ok k(1,2) y(2)] by auto
    qed
    then show ?thesis using v k cone_leaf [OF 2 at] by auto
  next
    case 3
    note f = fanin_facts [OF ok 3(1)]
    have sub: "cone m (fan0 m x) \<subseteq> C" "cone m (fan1 m x) \<subseteq> C" "x \<in> C" using Suc.prems(4) by (auto simp: cone_node [OF ok 3(1)])
    have idx: "index (fan0 m x) < n" "index (fan1 m x) < n" using f(5,6) Suc.prems(6) by simp_all
    obtain m0 s0 where v0: "visit n (fan0 m x) (m, s) = Inr (m0, s0)" "hop_ok m0" "extends m m0"
      "marks m0 = marks m \<union> cone m (fan0 m x)" "marks_closed m0" "inv C (m0, s0)"
      "fan0 m x \<notin> nodes m \<Longrightarrow> seen (m0, s0) (fan0 m x)" "\<And>y. live m y \<Longrightarrow> seen (m, s) y \<Longrightarrow> seen (m0, s0) y"
      using Suc.IH [OF ok f(1) closed sub(1) Suc.prems(5) idx(1)] by blast
    have c0: "live m0 (fan1 m x)" "cone m0 (fan1 m x) = cone m (fan1 m x)"
      using extends_live [OF v0(3) f(2)] extends_cone [OF ok v0(2,3) f(2)] by simp_all
    have sub0: "cone m0 (fan1 m x) \<subseteq> C" using sub(2) c0(2) by simp
    obtain m1 s1 where v1: "visit n (fan1 m x) (m0, s0) = Inr (m1, s1)" "hop_ok m1" "extends m0 m1"
      "marks m1 = marks m0 \<union> cone m (fan1 m x)" "marks_closed m1" "inv C (m1, s1)"
      "fan1 m x \<notin> nodes m0 \<Longrightarrow> seen (m1, s1) (fan1 m x)" "\<And>y. live m0 y \<Longrightarrow> seen (m0, s0) y \<Longrightarrow> seen (m1, s1) y"
      using Suc.IH [OF v0(2) c0(1) v0(5) sub0 v0(6) idx(2)] unfolding c0(2) by blast
    have e1: "extends m m1" using extends_trans [OF v0(3) v1(3)] .
    have x1: "x \<in> nodes m1" using extends_nodes [OF e1 at] 3(1) by simp
    have x1m: "x \<notin> marks m1" using 3(2) cone_self [OF ok 3(1)] by (simp add: v1(4) v0(4))
    have fan1: "fan0 m1 x = fan0 m x" "fan1 m1 x = fan1 m x" using extends_fan [OF e1 at] by simp_all
    have c1: "cone m1 (fan0 m x) = cone m (fan0 m x)" "cone m1 (fan1 m x) = cone m (fan1 m x)"
      using extends_cone [OF ok v1(2) e1] f(1,2) by simp_all
    have below: "cone m1 (fan0 m1 x) \<union> cone m1 (fan1 m1 x) \<subseteq> marks m1" by (auto simp: fan1 c1 v1(4) v0(4))
    have sn: "seen (m1, s1) q" if q: "q = fan0 m1 x \<or> q = fan1 m1 x" "q \<notin> nodes m1" for q
    proof -
      have ql: "live m q" "live m0 q" using q(1) fan1 f(1,2) extends_live [OF v0(3)] by auto
      then have "q \<notin> nodes m" "q \<notin> nodes m0"
        using q(2) extends_nodes [OF e1, of q] extends_nodes [OF v1(3), of q] by (simp_all add: live_def)
      then show ?thesis using q(1) v0(7) v1(7,8) ql(2) unfolding fan1 by blast
    qed
    obtain m2 s2 where a: "act x (m1, s1) = Inr (m2, s2)" "keeps m1 m2" "inv C (Hop_ObjSetMarkA x m2, s2)"
        "\<And>y. live m1 y \<Longrightarrow> seen (m1, s1) y \<Longrightarrow> seen (Hop_ObjSetMarkA x m2, s2) y"
      using act_keeps [OF v1(2) x1 x1m sub(3) v1(5) below sn v1(6)] by blast
    then have k: "hop_ok m2" "extends m1 m2" "marks m2 = marks m1" by (simp_all add: keeps_def)
    have e2: "extends m m2" using extends_trans [OF e1 k(2)] .
    have at2: "obj_at m2 x" using e2 at by (simp add: extends_def)
    let ?M = "Hop_ObjSetMarkA x m2"
    have "\<not> fMarkA (deref m2 x)" using x1m at2 unfolding k(3) [symmetric] by (simp add: marks_def)
    then have eq: "visit (Suc n) x (m, s) = Inr (?M, s2)"
      using v0(1) v1(1) a(1) extends_fan [OF v0(3) at] by (simp add: visit_node [OF 3])
    have okM: "hop_ok ?M" "extends m ?M"
      using redecorated_ok [OF _ k(1)] extends_trans [OF e2 redecorated_extends] by simp_all
    have mk: "marks ?M = marks m \<union> cone m x"
      by (auto simp: marked_ops [OF at2] k(3) v1(4) v0(4) cone_node [OF ok 3(1)])
    have "marks_closed ?M"
      unfolding marks_closed_def
    proof (intro conjI ballI)
      have cn: "cone m x \<subseteq> nodes m" by (rule cone_sub(1) [OF ok live])
      have all: "y \<in> nodes m \<and> live m y \<and> cone m y \<subseteq> marks m \<union> cone m x" if "y \<in> marks ?M" for y
        using that closed cn cone_sub(3) [OF ok live] unfolding mk by (auto simp: marks_closed_def nodes_def live_def)
      show "marks ?M \<subseteq> nodes ?M" using all extends_nodes [OF okM(2)] by (auto simp: live_def)
      show "cone ?M y \<subseteq> marks ?M" if "y \<in> marks ?M" for y
        using all [OF that] extends_cone [OF ok okM, of y] by (simp add: mk)
    qed
    moreover have "seen (?M, s2) y" if "live m y" "seen (m, s) y" for y
      using that v0(8) v1(8) a(4) extends_live [OF v0(3)] extends_live [OF e1] by blast
    ultimately show ?thesis using eq okM mk a(3) 3(1) by blast
  qed
qed simp

end

end
