(* ===== verification/Hop_Dfs.thy ===== *)
theory Hop_Dfs
  imports Hop_Cone
begin

text \<open>
  The traversals of the AIG package that collect, count and unmark cones
  (\<open>src/abc-master/src/aig/hop/hopDfs.c\<close>). A recursion has as fuel the number of objects: the fanins of a
  node are older than the node. Calls in one expression are evaluated from left to right.
\<close>

section \<open>Operations\<close>

primrec Hop_ManDfs_rec :: "nat \<Rightarrow> nat \<Rightarrow> Hop_Man \<times> nat list \<Rightarrow> (Hop_Man \<times> nat list) res" where
  "Hop_ManDfs_rec 0 pObj s = Inl OutOfFuel"
| "Hop_ManDfs_rec (Suc fuel) pObj s =
    (case s of (p, vNodes) \<Rightarrow>
     if Hop_IsComplement pObj then Inl AssertFailed
     else if \<not> Hop_ObjIsNode (deref p pObj) \<or> Hop_ObjIsMarkA (deref p pObj) then Inr (p, vNodes)
     else
       res_bind (Hop_ManDfs_rec fuel (Hop_ObjFanin0 (deref p pObj)) (p, vNodes)) (\<lambda>(p, vNodes).
       res_bind (Hop_ManDfs_rec fuel (Hop_ObjFanin1 (deref p pObj)) (p, vNodes)) (\<lambda>(p, vNodes).
       if Hop_ObjIsMarkA (deref p pObj) then Inl AssertFailed
       else Inr (Hop_ObjSetMarkA pObj p, vNodes @ [pObj]))))"

definition Hop_ManDfs :: "Hop_Man \<Rightarrow> (nat list \<times> Hop_Man) res" where
  "Hop_ManDfs p =
    res_bind (run_loop (Hop_ManForEachNode p) (\<lambda>pObj (p, vNodes). Hop_ManDfs_rec (length (Objs p)) pObj (p, vNodes)) (p, [])) (\<lambda>(p, vNodes).
    Inr (vNodes, fold Hop_ObjClearMarkA (Hop_ManForEachNode p) p))"

definition Hop_ManDfsNode :: "Hop_Man \<Rightarrow> nat \<Rightarrow> (nat list \<times> Hop_Man) res" where
  "Hop_ManDfsNode p pNode =
    (if Hop_IsComplement pNode then Inl AssertFailed
     else res_bind (Hop_ManDfs_rec (length (Objs p)) pNode (p, [])) (\<lambda>(p, vNodes).
       Inr (vNodes, fold Hop_ObjClearMarkA vNodes p)))"

primrec Hop_ConeMark_rec :: "nat \<Rightarrow> nat \<Rightarrow> Hop_Man \<Rightarrow> Hop_Man res" where
  "Hop_ConeMark_rec 0 pObj p = Inl OutOfFuel"
| "Hop_ConeMark_rec (Suc fuel) pObj p =
    (if Hop_IsComplement pObj then Inl AssertFailed
     else if \<not> Hop_ObjIsNode (deref p pObj) \<or> Hop_ObjIsMarkA (deref p pObj) then Inr p
     else
       res_bind (Hop_ConeMark_rec fuel (Hop_ObjFanin0 (deref p pObj)) p) (\<lambda>p.
       res_bind (Hop_ConeMark_rec fuel (Hop_ObjFanin1 (deref p pObj)) p) (\<lambda>p.
       if Hop_ObjIsMarkA (deref p pObj) then Inl AssertFailed else Inr (Hop_ObjSetMarkA pObj p))))"

primrec Hop_ConeCleanAndMark_rec :: "nat \<Rightarrow> nat \<Rightarrow> Hop_Man \<Rightarrow> Hop_Man res" where
  "Hop_ConeCleanAndMark_rec 0 pObj p = Inl OutOfFuel"
| "Hop_ConeCleanAndMark_rec (Suc fuel) pObj p =
    (if Hop_IsComplement pObj then Inl AssertFailed
     else if \<not> Hop_ObjIsNode (deref p pObj) \<or> Hop_ObjIsMarkA (deref p pObj) then Inr p
     else
       res_bind (Hop_ConeCleanAndMark_rec fuel (Hop_ObjFanin0 (deref p pObj)) p) (\<lambda>p.
       res_bind (Hop_ConeCleanAndMark_rec fuel (Hop_ObjFanin1 (deref p pObj)) p) (\<lambda>p.
       if Hop_ObjIsMarkA (deref p pObj) then Inl AssertFailed
       else Inr (set_data pObj 0 (Hop_ObjSetMarkA pObj p)))))"

primrec Hop_ConeCountAndMark_rec :: "nat \<Rightarrow> nat \<Rightarrow> Hop_Man \<Rightarrow> (nat \<times> Hop_Man) res" where
  "Hop_ConeCountAndMark_rec 0 pObj p = Inl OutOfFuel"
| "Hop_ConeCountAndMark_rec (Suc fuel) pObj p =
    (if Hop_IsComplement pObj then Inl AssertFailed
     else if \<not> Hop_ObjIsNode (deref p pObj) \<or> Hop_ObjIsMarkA (deref p pObj) then Inr (0, p)
     else
       res_bind (Hop_ConeCountAndMark_rec fuel (Hop_ObjFanin0 (deref p pObj)) p) (\<lambda>(c0, p).
       res_bind (Hop_ConeCountAndMark_rec fuel (Hop_ObjFanin1 (deref p pObj)) p) (\<lambda>(c1, p).
       let Counter = 1 + c0 + c1 in
       if Hop_ObjIsMarkA (deref p pObj) then Inl AssertFailed else Inr (Counter, Hop_ObjSetMarkA pObj p))))"

primrec Hop_ConeUnmark_rec :: "nat \<Rightarrow> nat \<Rightarrow> Hop_Man \<Rightarrow> Hop_Man res" where
  "Hop_ConeUnmark_rec 0 pObj p = Inl OutOfFuel"
| "Hop_ConeUnmark_rec (Suc fuel) pObj p =
    (if Hop_IsComplement pObj then Inl AssertFailed
     else if \<not> Hop_ObjIsNode (deref p pObj) \<or> \<not> Hop_ObjIsMarkA (deref p pObj) then Inr p
     else
       res_bind (Hop_ConeUnmark_rec fuel (Hop_ObjFanin0 (deref p pObj)) p) (\<lambda>p.
       res_bind (Hop_ConeUnmark_rec fuel (Hop_ObjFanin1 (deref p pObj)) p) (\<lambda>p.
       if \<not> Hop_ObjIsMarkA (deref p pObj) then Inl AssertFailed else Inr (Hop_ObjClearMarkA pObj p))))"

definition Hop_DagSize :: "Hop_Man \<Rightarrow> nat \<Rightarrow> (nat \<times> Hop_Man) res" where
  "Hop_DagSize p pObj =
    res_bind (Hop_ConeCountAndMark_rec (length (Objs p)) (Hop_Regular pObj) p) (\<lambda>(Counter, p).
    res_bind (Hop_ConeUnmark_rec (length (Objs p)) (Hop_Regular pObj) p) (\<lambda>p. Inr (Counter, p)))"

primrec Hop_ObjFanoutCount_rec :: "nat \<Rightarrow> nat \<Rightarrow> nat \<Rightarrow> Hop_Man \<Rightarrow> (nat \<times> Hop_Man) res" where
  "Hop_ObjFanoutCount_rec 0 pObj pPivot p = Inl OutOfFuel"
| "Hop_ObjFanoutCount_rec (Suc fuel) pObj pPivot p =
    (if Hop_IsComplement pObj then Inl AssertFailed
     else if \<not> Hop_ObjIsNode (deref p pObj) \<or> Hop_ObjIsMarkA (deref p pObj) then Inr (of_bool (pObj = pPivot), p)
     else
       res_bind (Hop_ObjFanoutCount_rec fuel (Hop_ObjFanin0 (deref p pObj)) pPivot p) (\<lambda>(c0, p).
       res_bind (Hop_ObjFanoutCount_rec fuel (Hop_ObjFanin1 (deref p pObj)) pPivot p) (\<lambda>(c1, p).
       if Hop_ObjIsMarkA (deref p pObj) then Inl AssertFailed else Inr (c0 + c1, Hop_ObjSetMarkA pObj p))))"

definition Hop_ObjFanoutCount :: "Hop_Man \<Rightarrow> nat \<Rightarrow> nat \<Rightarrow> (nat \<times> Hop_Man) res" where
  "Hop_ObjFanoutCount p pObj pPivot =
    (if Hop_IsComplement pPivot then Inl AssertFailed
     else res_bind (Hop_ObjFanoutCount_rec (length (Objs p)) (Hop_Regular pObj) pPivot p) (\<lambda>(Counter, p).
       res_bind (Hop_ConeUnmark_rec (length (Objs p)) (Hop_Regular pObj) p) (\<lambda>p. Inr (Counter, p))))"

text \<open>The levels are kept in the data fields.\<close>

definition Hop_ManCountLevels :: "Hop_Man \<Rightarrow> (nat \<times> Hop_Man) res" where
  "Hop_ManCountLevels p =
    (let p = set_data (Hop_ManConst1 p) 0 p;
         p = fold (\<lambda>pObj. set_data pObj 0) (vPis p) p
     in res_bind (Hop_ManDfs p) (\<lambda>(vNodes, p).
        let p = fold (\<lambda>pObj p.
              let Level0 = pData (deref p (Hop_ObjFanin0 (deref p pObj)));
                  Level1 = pData (deref p (Hop_ObjFanin1 (deref p pObj)))
              in set_data pObj (1 + of_bool (Hop_ObjIsExor (deref p pObj)) + max Level0 Level1) p) vNodes p
        in Inr (fold (\<lambda>pObj LevelsMax. max LevelsMax (pData (deref p (Hop_ObjFanin0 (deref p pObj))))) (vPos p) 0, p)))"

section \<open>Marks taken away\<close>

definition unmarked :: "Hop_Man \<Rightarrow> Hop_Man" where
  "unmarked m = m\<lparr>Objs := map (\<lambda>obj. obj\<lparr>fMarkA := False\<rparr>) (Objs m)\<rparr>"

lemma unmarked_ops [simp]: "unmarked (Hop_ObjSetMarkA p m) = unmarked m" "unmarked (Hop_ObjClearMarkA p m) = unmarked m"
proof -
  have "map (\<lambda>obj. obj\<lparr>fMarkA := False\<rparr>) ((Objs m)[index p := (deref m p)\<lparr>fMarkA := b\<rparr>]) = map (\<lambda>obj. obj\<lparr>fMarkA := False\<rparr>) (Objs m)" for b
    by (cases "index p < length (Objs m)")
      (auto intro!: nth_equalityI simp: nth_list_update deref_def)
  then show "unmarked (Hop_ObjSetMarkA p m) = unmarked m" "unmarked (Hop_ObjClearMarkA p m) = unmarked m"
    by (simp_all add: unmarked_def Hop_ObjSetMarkA_def Hop_ObjClearMarkA_def update_def)
qed

lemma unmarked_eq:
  assumes "unmarked m = unmarked m'" "marks m = marks m'"
  shows "m = m'"
proof -
  have len: "length (Objs m) = length (Objs m')" and rest: "m\<lparr>Objs := Objs m'\<rparr> = m'"
  proof -
    have "map (\<lambda>obj. obj\<lparr>fMarkA := False\<rparr>) (Objs m) = map (\<lambda>obj. obj\<lparr>fMarkA := False\<rparr>) (Objs m')"
      using arg_cong [OF assms(1), of Objs] by (simp add: unmarked_def)
    then show "length (Objs m) = length (Objs m')" by (rule map_eq_imp_length_eq)
    show "m\<lparr>Objs := Objs m'\<rparr> = m'" using assms(1) by (cases m, cases m') (simp add: unmarked_def)
  qed
  have "Objs m = Objs m'"
  proof (rule nth_equalityI [OF len])
    fix i assume i: "i < length (Objs m)"
    have "(Objs m ! i)\<lparr>fMarkA := False\<rparr> = (Objs m' ! i)\<lparr>fMarkA := False\<rparr>"
      using arg_cong [OF assms(1), of "\<lambda>m. Objs m ! i"] i len by (simp add: unmarked_def)
    moreover have "fMarkA (Objs m ! i) = fMarkA (Objs m' ! i)"
    proof -
      have "addr i \<in> marks m \<longleftrightarrow> addr i \<in> marks m'" by (simp add: assms(2))
      then show ?thesis using i len by (simp add: marks_def deref_addr)
    qed
    ultimately show "Objs m ! i = Objs m' ! i"
      by (cases "Objs m ! i", cases "Objs m' ! i") simp
  qed
  then show ?thesis using rest by (cases m) simp
qed


definition only_marks :: "Hop_Man \<Rightarrow> Hop_Man \<Rightarrow> bool" where
  "only_marks p m \<longleftrightarrow> redecorated p m \<and> unmarked m = unmarked p"

lemma only_marks_ops [intro]: "only_marks p m \<Longrightarrow> only_marks p (Hop_ObjSetMarkA x m)" "only_marks p m \<Longrightarrow> only_marks p (Hop_ObjClearMarkA x m)"
  using redecorated_trans redecorated_ops by (auto simp: only_marks_def)

lemma only_marks_refl: "only_marks p p"
  by (simp add: only_marks_def redecorated_refl)

lemma only_marks_trans: "only_marks p m \<Longrightarrow> only_marks m q \<Longrightarrow> only_marks p q"
  using redecorated_trans by (auto simp: only_marks_def)

lemma only_marks_eq: "only_marks p m \<Longrightarrow> marks m = marks p \<Longrightarrow> m = p"
  using unmarked_eq by (auto simp: only_marks_def)

lemma only_marks_data:
  assumes "only_marks p m" "obj_at p x"
  shows "pData (deref m x) = pData (deref p x)"
proof -
  have "Objs (unmarked m) = Objs (unmarked p)" using assms(1) by (simp add: only_marks_def)
  then have eq: "map (\<lambda>obj. obj\<lparr>fMarkA := False\<rparr>) (Objs m) = map (\<lambda>obj. obj\<lparr>fMarkA := False\<rparr>) (Objs p)" by (simp add: unmarked_def)
  have i: "index x < length (Objs p)" "index x < length (Objs m)"
    using assms redecorated_fields(9) by (auto simp: obj_at_def only_marks_def)
  have "(Objs m ! index x)\<lparr>fMarkA := False\<rparr> = (Objs p ! index x)\<lparr>fMarkA := False\<rparr>"
    using i arg_cong [OF eq, of "\<lambda>xs. xs ! index x"] by simp
  from arg_cong [OF this, of pData] show ?thesis by (simp add: deref_def)
qed

lemma only_marksD:
  assumes "only_marks p m" "hop_ok p"
  shows "hop_ok m" "extends p m" "nodes m = nodes p" "live m x = live p x" "obj_at m x = obj_at p x"
    "live p x \<Longrightarrow> cone m x = cone p x"
proof -
  have r: "redecorated p m" using assms(1) by (simp add: only_marks_def)
  show "hop_ok m" "extends p m" "nodes m = nodes p" "live m x = live p x" "obj_at m x = obj_at p x"
    using redecorated_ok [OF r assms(2)] redecorated_extends [OF r] redecorated_parts [OF r] redecorated_fields [OF r] by simp_all
  then show "live p x \<Longrightarrow> cone m x = cone p x" using extends_cone [OF assms(2)] by blast
qed

text \<open>The guards of the recursions.\<close>

lemma node_guards:
  assumes "x \<in> nodes m"
  shows "\<not> Hop_IsComplement x" "Hop_ObjIsNode (deref m x)" "Hop_ObjIsMarkA (deref m x) \<longleftrightarrow> x \<in> marks m"
    "Hop_ObjFanin0 (deref m x) = fan0 m x" "Hop_ObjFanin1 (deref m x) = fan1 m x"
  using assms by (auto simp: nodes_def marks_def Hop_ObjIsNode_def Hop_ObjIsMarkA_def Hop_ObjFanin0_def Hop_ObjFanin1_def)

lemma leaf_guards:
  assumes "hop_ok m" "live m x" "x \<notin> nodes m"
  shows "\<not> Hop_IsComplement x" "\<not> Hop_ObjIsNode (deref m x)"
  using assms by (auto simp: nodes_def live_def Hop_ObjIsNode_def)

section \<open>The traversals as instances of the interface\<close>

definition topological :: "Hop_Man \<Rightarrow> nat list \<Rightarrow> bool" where
  "topological m xs \<longleftrightarrow> distinct xs \<and> (\<forall>i<length xs. cone m (xs ! i) \<subseteq> set (take (Suc i) xs))"

lemma topological_snoc:
  assumes "topological m xs" "x \<notin> set xs" "cone m x \<subseteq> insert x (set xs)"
  shows "topological m (xs @ [x])"
  using assms by (auto simp: topological_def nth_append less_Suc_eq)

text \<open>The mark of a node set when the traversal leaves it.\<close>

lemma mark_facts:
  assumes "hop_ok m" "x \<in> nodes m" "x \<notin> marks m"
    "cone m (fan0 m x) \<union> cone m (fan1 m x) \<subseteq> marks m" "only_marks p m" "hop_ok p"
  shows "cone p x \<subseteq> insert x (marks m)" "marks (Hop_ObjSetMarkA x m) = insert x (marks m)" "keeps m m"
    "only_marks p (Hop_ObjSetMarkA x m)"
proof -
  have x: "obj_at m x" "live m x" using assms(2) by (auto simp: nodes_def live_def)
  have "cone p x = cone m x" using only_marksD [OF assms(5,6)] x(2) by simp
  then show "cone p x \<subseteq> insert x (marks m)" using cone_node [OF assms(1,2)] assms(4) by blast
  show "marks (Hop_ObjSetMarkA x m) = insert x (marks m)" by (rule marked_ops [OF x(1)])
qed (use assms in \<open>auto simp: keeps_def extends_refl\<close>)

interpretation dfs: traversal Hop_ManDfs_rec "\<lambda>x (m, s). Inr (m, s @ [x])"
  "\<lambda>C (m, s). hop_ok p \<and> only_marks p m \<and> topological p s \<and> set s = marks m" "\<lambda>_ _. True" for p
proof (unfold_locales, goal_cases)
  case (1 x m n s)
  then show ?case using node_guards [of x m] by simp
next
  case (2 m x C s n)
  then show ?case using leaf_guards [OF 2(1-3)] by (simp add: keeps_def extends_refl)
next
  case (3 x m n s)
  then show ?case
    using node_guards [of x m]
    by (simp add: split_beta Hop_ObjFanin0_def Hop_ObjFanin1_def Hop_ObjIsMarkA_def cong: if_cong)
next
  case (4 m x C s)
  then show ?case using mark_facts [OF 4(1,2,3,6)] topological_snoc [of p s x] by (auto simp: only_marks_ops)
qed


interpretation mark: traversal "\<lambda>n x (m, u). res_bind (Hop_ConeMark_rec n x m) (\<lambda>m. Inr (m, u))" "\<lambda>x (m, u). Inr (m, u)"
  "\<lambda>C (m, u :: unit). hop_ok p \<and> only_marks p m" "\<lambda>_ _. True" for p
proof (unfold_locales, goal_cases)
  case (1 x m s n)
  then show ?case using node_guards [of x m] by simp
next
  case (2 m x C s n)
  then show ?case using leaf_guards [OF 2(1-3)] by (simp add: keeps_def extends_refl)
next
  case (3 x m n s)
  then show ?case
    using node_guards [of x m]
    by (simp add: res_bind_assoc Hop_ObjFanin0_def Hop_ObjFanin1_def Hop_ObjIsMarkA_def if_distrib [of "\<lambda>r. res_bind r f" for f] cong: if_cong)
next
  case (4 m x C s)
  then show ?case using mark_facts [OF 4(1,2,3,6)] by auto
qed

interpretation count: traversal "\<lambda>n x (m, s). res_bind (Hop_ConeCountAndMark_rec n x m) (\<lambda>(c, m). Inr (m, s + c))" "\<lambda>x (m, s). Inr (m, s + 1)"
  "\<lambda>C (m, s). hop_ok p \<and> only_marks p m \<and> s = card (marks m)" "\<lambda>_ _. True" for p
proof (unfold_locales, goal_cases)
  case (1 x m n s)
  then show ?case using node_guards [of x m] by simp
next
  case (2 m x C s n)
  then show ?case using leaf_guards [OF 2(1-3)] by (simp add: keeps_def extends_refl)
next
  case (3 x m n s)
  then show ?case
    using node_guards [of x m]
    by (simp add: res_bind_assoc split_beta Let_def Hop_ObjFanin0_def Hop_ObjFanin1_def Hop_ObjIsMarkA_def ac_simps if_distrib [of "\<lambda>r. res_bind r f" for f] cong: if_cong)
next
  case (4 m x C s)
  have "finite (marks m)" using 4(1,5) finite_nodes finite_subset unfolding marks_closed_def by metis
  then show ?case using 4 mark_facts [OF 4(1,2,3,6)] by auto
qed


section \<open>What the traversals return\<close>

lemma Hop_ManDfs_rec_val:
  assumes ok: "hop_ok p" and m: "only_marks p m" "marks_closed m" and x: "live p x" and s: "topological p s" "set s = marks m"
    and n: "index x < n"
  shows "\<exists>m' s'. Hop_ManDfs_rec n x (m, s) = Inr (m', s') \<and> only_marks p m' \<and> marks_closed m' \<and> topological p s' \<and>
    set s' = marks m' \<and> marks m' = marks m \<union> cone p x"
proof -
  note o = only_marksD [OF m(1) ok]
  have "live m x" "cone m x = cone p x" using o(4,6) x by simp_all
  then show ?thesis
    using dfs.visit_val [of m x UNIV p s n, OF o(1) _ m(2) _ _ n] ok m(1) s by fastforce
qed

lemma Hop_ConeMark_rec_val:
  assumes ok: "hop_ok p" and closed: "marks_closed p" and x: "live p x" and n: "index x < n"
  shows "\<exists>m. Hop_ConeMark_rec n x p = Inr m \<and> only_marks p m \<and> marks_closed m \<and> marks m = marks p \<union> cone p x"
proof -
  obtain m u where "res_bind (Hop_ConeMark_rec n x p) (\<lambda>m. Inr (m, ())) = Inr (m, u)" "only_marks p m" "marks_closed m"
      "marks m = marks p \<union> cone p x"
    using mark.visit_val [of p x UNIV p "()" n, OF ok x closed _ _ n] ok only_marks_refl by fastforce
  then show ?thesis by (auto simp: res_bind_Inr)
qed

lemma Hop_ConeCountAndMark_rec_val:
  assumes ok: "hop_ok p" and closed: "marks_closed p" and x: "live p x" and n: "index x < n"
  shows "\<exists>m. Hop_ConeCountAndMark_rec n x p = Inr (card (cone p x - marks p), m) \<and> only_marks p m \<and> marks_closed m \<and>
    marks m = marks p \<union> cone p x"
proof -
  let ?k = "card (marks p)"
  obtain m s where v: "res_bind (Hop_ConeCountAndMark_rec n x p) (\<lambda>(c, m). Inr (m, ?k + c)) = Inr (m, s)" "only_marks p m" "marks_closed m"
      "marks m = marks p \<union> cone p x" "s = card (marks m)"
    using count.visit_val [of p x UNIV p ?k n, OF ok x closed _ _ n] ok only_marks_refl by fastforce
  obtain c where c: "Hop_ConeCountAndMark_rec n x p = Inr (c, m)" "?k + c = s"
    using v(1) by (cases "Hop_ConeCountAndMark_rec n x p") auto
  have fin: "finite (marks p)" using closed finite_nodes ok finite_subset unfolding marks_closed_def by metis
  have "card (marks p \<union> cone p x) = ?k + card (cone p x - marks p)"
    by (metis card_Un_disjoint Diff_disjoint Un_Diff_cancel fin cone_finite [OF ok x] finite_Diff)
  then show ?thesis using c v by auto
qed

lemma Hop_ConeUnmark_rec_val:
  assumes "hop_ok m" "live m x" "\<And>y. y \<in> cone m x \<Longrightarrow> y \<notin> marks m \<Longrightarrow> cone m y \<inter> marks m = {}" "index x < n"
  shows "\<exists>m'. Hop_ConeUnmark_rec n x m = Inr m' \<and> only_marks m m' \<and> marks m' = marks m - cone m x"
  using assms
proof (induction n arbitrary: m x)
  case (Suc n)
  note ok = Suc.prems(1) and live = Suc.prems(2) and low = Suc.prems(3)
  consider "x \<notin> nodes m" | "x \<in> nodes m" "x \<notin> marks m" | "x \<in> nodes m" "x \<in> marks m" by blast
  then show ?case
  proof cases
    case 1
    then show ?thesis using leaf_guards [OF ok live 1] cone_leaf [OF 1] live only_marks_refl by (simp add: live_def)
  next
    case 2
    then have "cone m x \<inter> marks m = {}" using low cone_node [OF ok 2(1)] by blast
    then show ?thesis using node_guards [OF 2(1)] 2 only_marks_refl by (simp add: Diff_triv Int_commute)
  next
    case 3
    note f = fanin_facts [OF ok 3(1)]
    note c = cone_node [OF ok 3(1)] and self = cone_self [OF ok 3(1)]
    have idx: "index (fan0 m x) < n" "index (fan1 m x) < n" using f(5,6) Suc.prems(4) by simp_all
    have low0: "\<And>y. y \<in> cone m (fan0 m x) \<Longrightarrow> y \<notin> marks m \<Longrightarrow> cone m y \<inter> marks m = {}" using low c by blast
    obtain m0 where v0: "Hop_ConeUnmark_rec n (fan0 m x) m = Inr m0" "only_marks m m0" "marks m0 = marks m - cone m (fan0 m x)"
      using Suc.IH [OF ok f(1) low0 idx(1)] by blast
    note o0 = only_marksD [OF v0(2) ok]
    have fan: "fan0 m0 x = fan0 m x" "fan1 m0 x = fan1 m x" using extends_fan [OF o0(2)] live by (simp_all add: live_def)
    have c1: "cone m0 (fan1 m x) = cone m (fan1 m x)" "live m0 (fan1 m x)" using o0(4,6) f(2) by simp_all
    have low1: "cone m0 y \<inter> marks m0 = {}" if y: "y \<in> cone m0 (fan1 m x)" "y \<notin> marks m0" for y
    proof -
      have y1: "y \<in> cone m (fan1 m x)" using y(1) c1 by simp
      then have yl: "live m y" using cone_sub(1) [OF ok f(2)] by (auto simp: nodes_def live_def)
      have "cone m y \<inter> marks m0 = {}"
      proof (cases "y \<in> marks m")
        case True
        then have "y \<in> cone m (fan0 m x)" using y(2) v0(3) by simp
        then show ?thesis using cone_sub(3) [OF ok f(1)] v0(3) by blast
      next
        case False
        then show ?thesis using low y1 c v0(3) by blast
      qed
      then show ?thesis using o0(6) [OF yl] by simp
    qed
    obtain m1 where v1: "Hop_ConeUnmark_rec n (fan1 m x) m0 = Inr m1" "only_marks m0 m1" "marks m1 = marks m0 - cone m (fan1 m x)"
      using Suc.IH [OF o0(1) c1(2) low1 idx(2)] unfolding c1(1) by blast
    have o1: "only_marks m m1" by (rule only_marks_trans [OF v0(2) v1(2)])
    have x1: "x \<in> nodes m1" "x \<in> marks m1" "obj_at m1 x"
      using only_marksD(3,5) [OF o1 ok] 3 live self v0(3) v1(3) by (auto simp: live_def)
    have "Hop_ConeUnmark_rec (Suc n) x m = Inr (Hop_ObjClearMarkA x m1)"
      using node_guards [OF 3(1)] node_guards(2,3) [OF x1(1)] 3(2) v0(1) v1(1) x1(2) fan o0(3) node_guards(5) [of x m0] 3(1) by simp
    moreover have "marks (Hop_ObjClearMarkA x m1) = marks m - cone m x"
      unfolding marked_ops(2) [OF x1(3)] v1(3) v0(3) c by blast
    ultimately show ?thesis using o1 by blast
  qed
qed simp

lemma clear_marks:
  assumes "\<And>x. x \<in> set xs \<Longrightarrow> obj_at m x"
  shows "marks (fold Hop_ObjClearMarkA xs m) = marks m - set xs \<and> (only_marks p m \<longrightarrow> only_marks p (fold Hop_ObjClearMarkA xs m))"
  using assms
proof (induction xs arbitrary: m)
  case (Cons x xs)
  have at: "obj_at (Hop_ObjClearMarkA x m) y = obj_at m y" for y by (simp add: Hop_ObjClearMarkA_def)
  show ?case using Cons.IH [of "Hop_ObjClearMarkA x m"] Cons.prems at marked_ops(2) [of m x] by auto
qed simp


lemma marks_closed_none: "marks m = {} \<Longrightarrow> marks_closed m"
  by (simp add: marks_closed_def)

lemma fuel_nodes: "live m x \<Longrightarrow> index x < length (Objs m)"
  by (simp add: live_def obj_at_def)

text \<open>The end of a traversal whose marks are the cone.\<close>

lemma Hop_ConeUnmark_cone:
  assumes ok: "hop_ok m" and x: "live m x" and marks: "marks m = cone m x"
  shows "\<exists>m'. Hop_ConeUnmark_rec (length (Objs m)) x m = Inr m' \<and> only_marks m m' \<and> marks m' = {}"
  using Hop_ConeUnmark_rec_val [OF ok x _ fuel_nodes [OF x]] by (auto simp: marks)

lemma Hop_ConeUnmark_back:
  assumes ok: "hop_ok p" and none: "marks p = {}" and x: "live p x" and m: "only_marks p m" "marks m = cone p x"
  shows "Hop_ConeUnmark_rec (length (Objs m)) x m = Inr p"
proof -
  note o = only_marksD [OF m(1) ok]
  have xm: "live m x" "marks m = cone m x" using o(4,6) x m(2) by simp_all
  obtain m' where m': "Hop_ConeUnmark_rec (length (Objs m)) x m = Inr m'" "only_marks m m'" "marks m' = {}"
    using Hop_ConeUnmark_cone [OF o(1) xm] by blast
  have "m' = p" using only_marks_eq [OF only_marks_trans [OF m(1) m'(2)]] none m'(3) by simp
  then show ?thesis using m'(1) by simp
qed

text \<open>The size of a cone, with the manager left as it was.\<close>

lemma Hop_DagSize_val:
  assumes ok: "hop_ok p" and none: "marks p = {}" and q: "hop_valid p q"
  shows "Hop_DagSize p q = Inr (card (cone p (Hop_Regular q)), p)"
proof -
  let ?x = "Hop_Regular q"
  have x: "live p ?x" using q by (simp add: hop_valid_def)
  obtain m where m: "Hop_ConeCountAndMark_rec (length (Objs p)) ?x p = Inr (card (cone p ?x), m)" "only_marks p m"
      "marks m = cone p ?x"
    using Hop_ConeCountAndMark_rec_val [OF ok marks_closed_none [OF none] x fuel_nodes [OF x]] by (auto simp: none)
  then have "Hop_ConeUnmark_rec (length (Objs m)) ?x m = Inr p" by (intro Hop_ConeUnmark_back [OF ok none x])
  then show ?thesis using m(1) by (simp add: Hop_DagSize_def)
qed

text \<open>The nodes of a cone in topological order, with the manager left as it was.\<close>

lemma Hop_ManDfsNode_val:
  assumes ok: "hop_ok p" and none: "marks p = {}" and x: "live p x"
  shows "\<exists>vNodes. Hop_ManDfsNode p x = Inr (vNodes, p) \<and> set vNodes = cone p x \<and> topological p vNodes"
proof -
  obtain m s where m: "Hop_ManDfs_rec (length (Objs p)) x (p, []) = Inr (m, s)" "only_marks p m" "topological p s"
      "set s = marks m" "marks m = cone p x"
    using Hop_ManDfs_rec_val [OF ok only_marks_refl marks_closed_none [OF none] x _ _ fuel_nodes [OF x], of "[]"]
    by (auto simp: none topological_def)
  have "obj_at m y" if "y \<in> set s" for y using that m(4) by (simp add: marks_def)
  then have "fold Hop_ObjClearMarkA s m = p"
    using clear_marks [of s m p] m(2,4) none only_marks_eq by simp
  moreover have "\<not> Hop_IsComplement x" using x by (auto simp: live_def)
  ultimately show ?thesis using m by (auto simp: Hop_ManDfsNode_def)
qed

text \<open>The traversal of the whole manager starts from the first node of each list of the table: it finds
  their cones, and it leaves the marks of the nodes that are not the first of a list.\<close>

lemma Hop_ManDfs_val:
  assumes ok: "hop_ok p" and none: "marks p = {}"
  shows "\<exists>vNodes M. Hop_ManDfs p = Inr (vNodes, M) \<and> topological p vNodes \<and>
    set vNodes = (\<Union>x\<in>nodes p \<inter> set (pTable p). cone p x) \<and> only_marks p M \<and> marks M = set vNodes - set (pTable p)"
proof -
  let ?H = "Hop_ManForEachNode p"
  have H: "set ?H = nodes p \<inter> set (pTable p)" using heads(1) [OF hop_okD(9) [OF ok]] by auto
  define I where "I xs ms \<longleftrightarrow> (case ms of (m, s) \<Rightarrow> only_marks p m \<and> marks_closed m \<and> topological p s \<and> set s = marks m \<and>
      set xs \<subseteq> set ?H \<and> marks m \<union> (\<Union>x\<in>set xs. cone p x) = (\<Union>x\<in>set ?H. cone p x))" for xs ms
  have "\<exists>ms. run_loop ?H (\<lambda>pObj (p, vNodes). Hop_ManDfs_rec (length (Objs p)) pObj (p, vNodes)) (p, []) = Inr ms \<and> I [] ms"
  proof (rule run_loop_inv)
    show "I ?H (p, [])" using only_marks_refl marks_closed_none [OF none] by (simp add: I_def none topological_def)
    fix x xs and ms :: "Hop_Man \<times> nat list"
    assume i: "I (x # xs) ms"
    obtain m s where ms: "ms = (m, s)" by (cases ms)
    have m: "only_marks p m" "marks_closed m" "topological p s" "set s = marks m" and xH: "x \<in> set ?H"
      using i by (simp_all add: I_def ms)
    have x: "live p x" using xH H by (auto simp: nodes_def live_def)
    have n: "index x < length (Objs m)" using only_marksD(4) [OF m(1) ok] x fuel_nodes [of m x] by simp
    obtain m' s' where v: "Hop_ManDfs_rec (length (Objs m)) x (m, s) = Inr (m', s')" "only_marks p m'" "marks_closed m'"
        "topological p s'" "set s' = marks m'" "marks m' = marks m \<union> cone p x"
      using Hop_ManDfs_rec_val [OF ok m(1,2) x m(3,4) n] by blast
    have "set xs \<subseteq> set ?H" "marks m \<union> (cone p x \<union> (\<Union>x\<in>set xs. cone p x)) = (\<Union>x\<in>set ?H. cone p x)"
      using i by (simp_all add: I_def ms)
    then have "I xs (m', s')" using v(2-6) by (simp add: I_def Un_assoc)
    then show "\<exists>s'. (case ms of (p, vNodes) \<Rightarrow> Hop_ManDfs_rec (length (Objs p)) x (p, vNodes)) = Inr s' \<and> I xs s'"
      using v(1) by (auto simp: ms)
  qed
  then obtain ms where ms: "run_loop ?H (\<lambda>pObj (p, vNodes). Hop_ManDfs_rec (length (Objs p)) pObj (p, vNodes)) (p, []) = Inr ms"
      "I [] ms" by blast
  obtain m s where "ms = (m, s)" by (cases ms)
  with ms have m: "run_loop ?H (\<lambda>pObj (p, vNodes). Hop_ManDfs_rec (length (Objs p)) pObj (p, vNodes)) (p, []) = Inr (m, s)"
      "I [] (m, s)" by simp_all
  then have i: "only_marks p m" "topological p s" "set s = marks m" "marks m = (\<Union>x\<in>set ?H. cone p x)" by (simp_all add: I_def)
  have tab: "Hop_ManForEachNode m = ?H"
    using i(1) redecorated_fields(16,17) unfolding Hop_ManForEachNode_def by (auto simp: only_marks_def)
  have at: "obj_at m x" if "x \<in> set ?H" for x using that H only_marksD(5) [OF i(1) ok] by (auto simp: nodes_def)
  let ?M = "fold Hop_ObjClearMarkA ?H m"
  have M: "marks ?M = set s - set ?H" "only_marks p ?M" using clear_marks [of ?H m p] at i(1,3) by simp_all
  have "cone p x \<subseteq> nodes p" if "x \<in> set ?H" for x
    using that H cone_sub(1) [OF ok, of x] by (simp add: nodes_def live_def)
  then have "set s \<subseteq> nodes p" unfolding i(3,4) by blast
  then have "marks ?M = set s - set (pTable p)" using M(1) H by blast
  moreover have "Hop_ManDfs p = Inr (s, ?M)" using m(1) tab by (simp add: Hop_ManDfs_def)
  moreover have "set s = (\<Union>x\<in>nodes p \<inter> set (pTable p). cone p x)" using i(3,4) H by simp
  ultimately show ?thesis using i(2) M(2) by blast
qed


section \<open>Counting the fanouts of a pivot\<close>

text \<open>The fanouts of \<open>z\<close> among the nodes of a set.\<close>

definition fanouts_in :: "Hop_Man \<Rightarrow> nat set \<Rightarrow> nat \<Rightarrow> nat set" where
  "fanouts_in m C z = {y \<in> C. fan0 m y = z \<or> fan1 m y = z}"

lemma fanouts_in_Un: "fanouts_in m (C \<union> D) z = fanouts_in m C z \<union> fanouts_in m D z"
  by (auto simp: fanouts_in_def)

lemma finite_fanouts_in: "finite C \<Longrightarrow> finite (fanouts_in m C z)"
  by (simp add: fanouts_in_def)

text \<open>The recursion counts the reference that leads to it when it stops at once, so the first visit of a
  pivot that is a node is not counted.\<close>

lemma Hop_ObjFanoutCount_rec_val:
  assumes ok: "hop_ok p" and m: "only_marks p m" "marks_closed m" and x: "live p x" and n: "index x < n"
  shows "\<exists>c m'. Hop_ObjFanoutCount_rec n x z m = Inr (c, m') \<and> only_marks p m' \<and> marks_closed m' \<and> marks m' = marks m \<union> cone p x \<and>
    c + card (marks m' \<inter> {z}) = card (fanouts_in p (cone p x - marks m) z) + card (marks m \<inter> {z}) + of_bool (x = z)"
  using m x n
proof (induction n arbitrary: m x)
  case (Suc n)
  note o = only_marksD [OF Suc.prems(1) ok]
  have live: "live m x" using o(4) Suc.prems(3) by simp
  then have "obj_at m x" by (simp add: live_def)
  note live = live this
  consider "x \<notin> nodes m" | "x \<in> nodes m" "x \<in> marks m" | "x \<in> nodes m" "x \<notin> marks m" by blast
  then show ?case
  proof cases
    case 1
    then have "cone p x = {}" using cone_leaf [OF 1 live(2)] o(6) Suc.prems(3) by simp
    then show ?thesis using leaf_guards [OF o(1) live(1) 1] Suc.prems by (simp add: fanouts_in_def)
  next
    case 2
    then have "cone m x \<subseteq> marks m" using Suc.prems(2) by (simp add: marks_closed_def)
    then have "cone p x \<subseteq> marks m" using o(6) [OF Suc.prems(3)] by simp
    then show ?thesis using node_guards [OF 2(1)] 2(2) Suc.prems(1,2)
      by (simp add: fanouts_in_def Un_absorb2 Diff_eq_empty_iff [THEN iffD2])
  next
    case 3
    have xp: "x \<in> nodes p" using 3(1) o(3) by simp
    note f = fanin_facts [OF ok xp] and c = cone_node [OF ok xp] and self = cone_self [OF ok xp]
    have fan: "fan0 q x = fan0 p x" "fan1 q x = fan1 p x" if "only_marks p q" for q
      using extends_fan [OF only_marksD(2) [OF that ok], of x] xp by (auto simp: nodes_def)
    have idx: "index (fan0 p x) < n" "index (fan1 p x) < n" using f(5,6) Suc.prems(4) by simp_all
    let ?A = "cone p (fan0 p x) - marks m" and ?B = "cone p (fan1 p x) - (marks m \<union> cone p (fan0 p x))"
    obtain c0 m0 where v0: "Hop_ObjFanoutCount_rec n (fan0 p x) z m = Inr (c0, m0)" "only_marks p m0" "marks_closed m0"
        "marks m0 = marks m \<union> cone p (fan0 p x)"
        "c0 + card (marks m0 \<inter> {z}) = card (fanouts_in p ?A z) + card (marks m \<inter> {z}) + of_bool (fan0 p x = z)"
      using Suc.IH [OF Suc.prems(1,2) f(1) idx(1)] by blast
    obtain c1 m1 where v1: "Hop_ObjFanoutCount_rec n (fan1 p x) z m0 = Inr (c1, m1)" "only_marks p m1" "marks_closed m1"
        "marks m1 = marks m0 \<union> cone p (fan1 p x)"
        "c1 + card (marks m1 \<inter> {z}) = card (fanouts_in p ?B z) + card (marks m0 \<inter> {z}) + of_bool (fan1 p x = z)"
      using Suc.IH [OF v0(2,3) f(2) idx(2)] unfolding v0(4) by blast
    have x1: "x \<in> nodes m1" "x \<notin> marks m1" "obj_at m1 x" "live m1 x"
      using only_marksD(3,5) [OF v1(2) ok] xp 3(2) self by (auto simp: v1(4) v0(4) nodes_def live_def)
    let ?M = "Hop_ObjSetMarkA x m1"
    have x0: "x \<in> nodes m0" using only_marksD(3) [OF v0(2) ok] xp by simp
    have eq: "Hop_ObjFanoutCount_rec (Suc n) x z m = Inr (c0 + c1, ?M)"
      using node_guards [OF 3(1)] node_guards(5) [OF x0] node_guards(3) [OF x1(1)] x1(2) 3(2) v0(1) v1(1) fan [OF Suc.prems(1)] fan [OF v0(2)]
      by simp
    have M: "marks ?M = marks m \<union> cone p x" unfolding marked_ops(1) [OF x1(3)] v1(4) v0(4) c by blast
    have oM: "only_marks p ?M" using v1(2) by blast
    have cM: "marks_closed ?M"
      unfolding marks_closed_def
    proof (intro conjI ballI)
      show "marks ?M \<subseteq> nodes ?M" using v1(3) x1(1) only_marksD(3) [OF oM ok] only_marksD(3) [OF v1(2) ok]
        unfolding marked_ops(1) [OF x1(3)] marks_closed_def by blast
      fix y assume y: "y \<in> marks ?M"
      then have ly: "live p y" using \<open>marks ?M \<subseteq> nodes ?M\<close> only_marksD(3) [OF oM ok] by (auto simp: nodes_def live_def)
      have "cone p y \<subseteq> marks m \<union> cone p x"
        using y Suc.prems(2) cone_sub(3) [OF ok Suc.prems(3)] o(6) [OF ly] unfolding M marks_closed_def by blast
      then show "cone ?M y \<subseteq> marks ?M" using only_marksD(6) [OF oM ok ly] M by simp
    qed
    have parts: "cone p x - marks m = insert x (?A \<union> ?B)" using c 3(2) by blast
    have fin: "finite ?A" "finite ?B" using cone_finite [OF ok] f(1,2) by simp_all
    have "card (fanouts_in p (cone p x - marks m) z) = card (fanouts_in p ?A z) + card (fanouts_in p ?B z) + of_bool (fan0 p x = z) + of_bool (fan1 p x = z)"
    proof -
      have "fanouts_in p (insert x (?A \<union> ?B)) z = fanouts_in p {x} z \<union> (fanouts_in p ?A z \<union> fanouts_in p ?B z)"
        using fanouts_in_Un by (metis insert_is_Un)
      moreover have "card (fanouts_in p {x} z) = of_bool (fan0 p x = z) + of_bool (fan1 p x = z)"
        using f(7) by (auto simp: fanouts_in_def Collect_conv_if conj_commute)
      moreover have "finite (fanouts_in p ?A z)" "finite (fanouts_in p ?B z)" "finite (fanouts_in p {x} z)"
        using fin by (simp_all add: finite_fanouts_in)
      moreover have "fanouts_in p ?A z \<inter> fanouts_in p ?B z = {}" "fanouts_in p {x} z \<inter> (fanouts_in p ?A z \<union> fanouts_in p ?B z) = {}"
        using self by (auto simp: fanouts_in_def)
      ultimately show ?thesis unfolding parts by (simp add: card_Un_disjoint)
    qed
    moreover have "card (marks ?M \<inter> {z}) = card (marks m1 \<inter> {z}) + of_bool (x = z)"
      using x1(2) unfolding marked_ops(1) [OF x1(3)] by (cases "x = z") (auto simp: Int_insert_left)
    ultimately have "c0 + c1 + card (marks ?M \<inter> {z}) =
        card (fanouts_in p (cone p x - marks m) z) + card (marks m \<inter> {z}) + of_bool (x = z)"
      using v0(5) v1(5) by linarith
    then show ?thesis using eq M oM cM by blast
  qed
qed simp


lemma Hop_ObjFanoutCount_val:
  assumes ok: "hop_ok p" and none: "marks p = {}" and q: "hop_valid p q" and z: "\<not> Hop_IsComplement z"
    and qz: "Hop_Regular q \<noteq> z"
  shows "Hop_ObjFanoutCount p q z =
    Inr (card (fanouts_in p (cone p (Hop_Regular q)) z) - of_bool (z \<in> cone p (Hop_Regular q)), p)"
proof -
  let ?x = "Hop_Regular q"
  have x: "live p ?x" using q by (simp add: hop_valid_def)
  obtain c m where m: "Hop_ObjFanoutCount_rec (length (Objs p)) ?x z p = Inr (c, m)" "only_marks p m" "marks m = cone p ?x"
      "c + card (cone p ?x \<inter> {z}) = card (fanouts_in p (cone p ?x) z)"
    using Hop_ObjFanoutCount_rec_val [OF ok only_marks_refl marks_closed_none [OF none] x fuel_nodes [OF x], of z] qz none by auto
  then have "Hop_ConeUnmark_rec (length (Objs m)) ?x m = Inr p" by (intro Hop_ConeUnmark_back [OF ok none x])
  moreover have "c = card (fanouts_in p (cone p ?x) z) - of_bool (z \<in> cone p ?x)"
    using m(4) by (cases "z \<in> cone p ?x") auto
  ultimately show ?thesis using m(1) z by (simp add: Hop_ObjFanoutCount_def)
qed

end
