(* ===== verification/Hop_Refs.thy ===== *)
theory Hop_Refs
  imports Hop_Dfs
begin

text \<open>
  What the passes of \<open>src/abc-master/src/aig/hop/hopDfs.c\<close> write in the fields of the objects: the levels of
  \<open>Hop_ManCountLevels\<close>, the cleared data of \<open>Hop_ConeCleanAndMark_rec\<close>, and the reference counters that
  \<open>Hop_ManCreateRefs\<close> makes anew for a manager that has been built without them.
\<close>

section \<open>Operations\<close>

definition Hop_ObjClearRef :: "nat \<Rightarrow> Hop_Man \<Rightarrow> Hop_Man" where
  "Hop_ObjClearRef p = update p (\<lambda>pObj. pObj\<lparr>nRefs := 0\<rparr>)"

definition Hop_ManCreateRefs :: "Hop_Man \<Rightarrow> Hop_Man" where
  "Hop_ManCreateRefs p =
    (if fRefCount p then p
     else
       let p = p\<lparr>fRefCount := True\<rparr>;
           p = Hop_ObjClearRef (Hop_ManConst1 p) p;
           p = fold Hop_ObjClearRef (vPis p) p;
           p = fold Hop_ObjClearRef (Hop_ManForEachNode p) p;
           p = fold Hop_ObjClearRef (vPos p) p;
           p = fold (\<lambda>pObj p.
                 let p = Hop_ObjRef (Hop_ObjFanin0 (deref p pObj)) p
                 in Hop_ObjRef (Hop_ObjFanin1 (deref p pObj)) p) (Hop_ManForEachNode p) p
       in fold (\<lambda>pObj p. Hop_ObjRef (Hop_ObjFanin0 (deref p pObj)) p) (vPos p) p)"

section \<open>Managers that differ in the counters\<close>

definition recounted :: "Hop_Man \<Rightarrow> Hop_Man \<Rightarrow> bool" where
  "recounted m m' \<longleftrightarrow> vPis m' = vPis m \<and> vPos m' = vPos m \<and> pConst1 m' = pConst1 m \<and> pTable m' = pTable m \<and>
     nTableSize m' = nTableSize m \<and> length (Objs m') = length (Objs m) \<and>
     (\<forall>q. pFanin0 (deref m' q) = pFanin0 (deref m q) \<and> pFanin1 (deref m' q) = pFanin1 (deref m q))"

lemma recounted_refl: "recounted m m"
  by (simp add: recounted_def)

lemma recounted_trans: "recounted m m1 \<Longrightarrow> recounted m1 m2 \<Longrightarrow> recounted m m2"
  by (simp add: recounted_def)

lemma recounted_ops: "recounted m (Hop_ObjClearRef p m)" "recounted m (Hop_ObjRef p m)" "recounted m (m\<lparr>fRefCount := b\<rparr>)"
proof -
  have "pFanin0 (deref (update p (\<lambda>x. x\<lparr>nRefs := h x\<rparr>) m) q) = pFanin0 (deref m q)"
    "pFanin1 (deref (update p (\<lambda>x. x\<lparr>nRefs := h x\<rparr>) m) q) = pFanin1 (deref m q)" for h q
    by (rule deref_update_frame; simp)+
  then show "recounted m (Hop_ObjClearRef p m)" "recounted m (Hop_ObjRef p m)"
    by (simp_all add: recounted_def Hop_ObjClearRef_def Hop_ObjRef_def)
qed (simp add: recounted_def deref_def)

lemma recounted_at: "recounted m m' \<Longrightarrow> obj_at m' q = obj_at m q"
  by (simp add: recounted_def obj_at_def)

lemma clear_refs:
  assumes "\<And>x. x \<in> set xs \<Longrightarrow> obj_at m x" "obj_at m q"
  shows "recounted m (fold Hop_ObjClearRef xs m) \<and> nRefs (deref (fold Hop_ObjClearRef xs m) q) = (if q \<in> set xs then 0 else nRefs (deref m q))"
  using assms
proof (induction xs arbitrary: m)
  case (Cons x xs)
  let ?m = "Hop_ObjClearRef x m"
  have at: "obj_at ?m y = obj_at m y" for y by (rule recounted_at [OF recounted_ops(1)])
  have "nRefs (deref ?m q) = (if q = x then 0 else nRefs (deref m q))"
    using Cons.prems deref_update [of m x q] by (simp add: Hop_ObjClearRef_def)
  then show ?case using Cons.IH [of ?m] Cons.prems at recounted_trans [OF recounted_ops(1)] by auto
qed (simp add: recounted_refl)

lemma ref_one:
  assumes "obj_at m x" "obj_at m q"
  shows "nRefs (deref (Hop_ObjRef x m) q) = nRefs (deref m q) + of_bool (q = x)"
  using deref_update [OF assms] by (simp add: Hop_ObjRef_def)

text \<open>A loop in which each object adds one reference to each of its fanins in \<open>G\<close>.\<close>

lemma add_refs:
  assumes step: "\<And>k x. recounted m k \<Longrightarrow> x \<in> S \<Longrightarrow> recounted k (F x k) \<and> nRefs (deref (F x k) q) = nRefs (deref k q) + of_nat (card (G x \<inter> {q}))"
    and xs: "set xs \<subseteq> S" "distinct xs" and fin: "\<And>x. x \<in> S \<Longrightarrow> finite (G x)" and k: "recounted m k"
  shows "recounted m (fold F xs k) \<and> nRefs (deref (fold F xs k) q) = nRefs (deref k q) + of_nat (card {x \<in> set xs. q \<in> G x})"
  using xs k
proof (induction xs arbitrary: k)
  case (Cons x xs)
  have s: "recounted k (F x k)" "nRefs (deref (F x k) q) = nRefs (deref k q) + of_nat (card (G x \<inter> {q}))"
    using step [OF Cons.prems(3), of x] Cons.prems(1) by simp_all
  have "card {y \<in> set (x # xs). q \<in> G y} = card (G x \<inter> {q}) + card {y \<in> set xs. q \<in> G y}"
  proof (cases "q \<in> G x")
    case True
    then have "{y \<in> set (x # xs). q \<in> G y} = insert x {y \<in> set xs. q \<in> G y}" "G x \<inter> {q} = {q}" by auto
    then show ?thesis using Cons.prems(2) by simp
  next
    case False
    then have "{y \<in> set (x # xs). q \<in> G y} = {y \<in> set xs. q \<in> G y}" "G x \<inter> {q} = {}" by auto
    then show ?thesis by simp
  qed
  then show ?case using Cons.IH [of "F x k"] Cons.prems recounted_trans [OF Cons.prems(3) s(1)] s(2) by simp
qed simp

text \<open>Only the first nodes of the lists of the table are visited.\<close>

lemma Hop_ManCreateRefs_val:
  assumes ok: "hop_ok m" and no: "\<not> fRefCount m" and q: "obj_at m q"
  defines "H \<equiv> nodes m \<inter> set (pTable m)"
  shows "nRefs (deref (Hop_ManCreateRefs m) q) =
    (if q \<in> {pConst1 m} \<union> set (vPis m) \<union> H \<union> set (vPos m) then 0 else nRefs (deref m q)) +
    of_nat (card {y \<in> H. q \<in> {fan0 m y, fan1 m y}}) + of_nat (card {y \<in> set (vPos m). q = fan0 m y})"
proof -
  have H: "set (Hop_ManForEachNode k) = H" "distinct (Hop_ManForEachNode k)" if "recounted m k" for k
  proof -
    have "Hop_ManForEachNode k = Hop_ManForEachNode m" using that by (simp add: recounted_def Hop_ManForEachNode_def)
    then show "set (Hop_ManForEachNode k) = H" "distinct (Hop_ManForEachNode k)"
      using heads [OF hop_okD(9) [OF ok]] by (auto simp: H_def)
  qed
  have pis: "obj_at m x" if "x \<in> set (vPis m)" for x using inputs_set(1) [OF ok] that by auto
  have pos: "obj_at m x" "Type_o (deref m x) = AIG_PO" if "x \<in> set (vPos m)" for x
    using hop_okD(13) [OF ok] that by (auto simp: counts_ok_def)
  have dpos: "distinct (vPos m)" using hop_okD(13) [OF ok] by (simp add: counts_ok_def)
  have Hat: "obj_at m x" if "x \<in> H" for x using that by (simp add: H_def nodes_def)
  let ?m0 = "m\<lparr>fRefCount := True\<rparr>"
  let ?m1 = "Hop_ObjClearRef (Hop_ManConst1 ?m0) ?m0"
  let ?m2 = "fold Hop_ObjClearRef (vPis ?m1) ?m1"
  let ?m3 = "fold Hop_ObjClearRef (Hop_ManForEachNode ?m2) ?m2"
  let ?m4 = "fold Hop_ObjClearRef (vPos ?m3) ?m3"
  have r0: "recounted m ?m0" by (rule recounted_ops)
  have c: "Hop_ManConst1 ?m0 = pConst1 m" "obj_at ?m0 (pConst1 m)" "obj_at ?m0 q"
    using const_live [OF ok] recounted_at [OF r0] q by (simp_all add: Hop_ManConst1_def live_def)
  have r1: "recounted m ?m1" "nRefs (deref ?m1 q) = (if q = pConst1 m then 0 else nRefs (deref m q))"
    using recounted_trans [OF r0 recounted_ops(1)] deref_update [OF c(2,3)] by (simp_all add: Hop_ObjClearRef_def c(1), simp add: deref_def)
  have "vPis ?m1 = vPis m" using r1(1) by (simp only: recounted_def)
  then have r2: "recounted m ?m2" "nRefs (deref ?m2 q) = (if q \<in> set (vPis m) then 0 else nRefs (deref ?m1 q))"
    using clear_refs [of "vPis ?m1" ?m1 q] recounted_at [OF r1(1)] pis q recounted_trans [OF r1(1)] by auto
  have r3: "recounted m ?m3" "nRefs (deref ?m3 q) = (if q \<in> H then 0 else nRefs (deref ?m2 q))"
    using clear_refs [of "Hop_ManForEachNode ?m2" ?m2 q] H(1) [OF r2(1)] recounted_at [OF r2(1)] Hat q recounted_trans [OF r2(1)] by auto
  have "vPos ?m3 = vPos m" using r3(1) by (simp only: recounted_def)
  then have r4: "recounted m ?m4" "nRefs (deref ?m4 q) = (if q \<in> set (vPos m) then 0 else nRefs (deref ?m3 q))"
    using clear_refs [of "vPos ?m3" ?m3 q] recounted_at [OF r3(1)] pos(1) q recounted_trans [OF r3(1)] by auto
  let ?F = "\<lambda>pObj p. let p = Hop_ObjRef (Hop_ObjFanin0 (deref p pObj)) p in Hop_ObjRef (Hop_ObjFanin1 (deref p pObj)) p"
  let ?P = "\<lambda>pObj p. Hop_ObjRef (Hop_ObjFanin0 (deref p pObj)) p"
  have one: "recounted k (?F x k) \<and> nRefs (deref (?F x k) q) = nRefs (deref k q) + of_nat (card ({fan0 m x, fan1 m x} \<inter> {q}))"
    if k: "recounted m k" and x: "x \<in> H" for k x
  proof -
    note f = fanin_facts [OF ok, of x]
    have xn: "x \<in> nodes m" using x by (simp add: H_def)
    have fan: "Hop_ObjFanin0 (deref k x) = fan0 m x" "Hop_ObjFanin1 (deref (Hop_ObjRef (fan0 m x) k) x) = fan1 m x"
      using k recounted_trans [OF k recounted_ops(2)] by (simp_all add: recounted_def Hop_ObjFanin0_def Hop_ObjFanin1_def)
    have at: "obj_at k (fan0 m x)" "obj_at k q" "obj_at (Hop_ObjRef (fan0 m x) k) (fan1 m x)" "obj_at (Hop_ObjRef (fan0 m x) k) q"
      using f(1,2) xn q recounted_at [OF k] recounted_at [OF recounted_ops(2)] by (auto simp: live_def)
    have "nRefs (deref (?F x k) q) = nRefs (deref k q) + of_bool (q = fan0 m x) + of_bool (q = fan1 m x)"
      using ref_one [OF at(1,2)] ref_one [OF at(3,4)] by (simp add: fan Let_def)
    moreover have "card ({fan0 m x, fan1 m x} \<inter> {q}) = of_bool (q = fan0 m x) + of_bool (q = fan1 m x)"
      using f(7) [OF xn] by auto
    moreover have "recounted k (?F x k)" using recounted_trans [OF recounted_ops(2) recounted_ops(2)] by (simp add: Let_def)
    ultimately show ?thesis by (simp only: of_nat_add of_nat_of_bool add.assoc simp_thms)
  qed
  let ?m5 = "fold ?F (Hop_ManForEachNode ?m4) ?m4"
  have r5: "recounted m ?m5" "nRefs (deref ?m5 q) = nRefs (deref ?m4 q) + of_nat (card {y \<in> H. q \<in> {fan0 m y, fan1 m y}})"
    using add_refs [of m H ?F q "\<lambda>x. {fan0 m x, fan1 m x}", OF one _ H(2) [OF r4(1)] _ r4(1)] H(1) [OF r4(1)] by simp_all
  have two: "recounted k (?P x k) \<and> nRefs (deref (?P x k) q) = nRefs (deref k q) + of_nat (card ({fan0 m x} \<inter> {q}))"
    if k: "recounted m k" and x: "x \<in> set (vPos m)" for k x
  proof -
    have fan: "Hop_ObjFanin0 (deref k x) = fan0 m x" using k by (simp add: recounted_def Hop_ObjFanin0_def)
    have "live m (fan0 m x)" using hop_okD(5) [OF ok pos(1) [OF x]] pos(2) [OF x] by (simp add: obj_ok_def)
    then have at: "obj_at k (fan0 m x)" "obj_at k q" using q recounted_at [OF k] by (simp_all add: live_def)
    show ?thesis using ref_one [OF at] recounted_ops(2) by (auto simp: fan)
  qed
  have vp: "vPos ?m5 = vPos m" using r5(1) by (simp only: recounted_def)
  have "nRefs (deref (fold ?P (vPos ?m5) ?m5) q) = nRefs (deref ?m5 q) + of_nat (card {y \<in> set (vPos m). q \<in> {fan0 m y}})"
    using add_refs [of m "set (vPos m)" ?P q "\<lambda>x. {fan0 m x}", OF two _ _ _ r5(1), of "vPos m"] dpos unfolding vp by simp
  moreover have "Hop_ManCreateRefs m = fold ?P (vPos ?m5) ?m5" using no by (simp add: Hop_ManCreateRefs_def Let_def)
  ultimately show ?thesis using r5(2) r4(2) r3(2) r2(2) r1(2) by auto
qed


section \<open>Cleared data\<close>

lemma set_data_mark: "set_data x v (Hop_ObjSetMarkA x m) = Hop_ObjSetMarkA x (set_data x v m)"
  by (cases "index x < length (Objs m)"; cases "Objs m ! index x")
    (simp_all add: set_data_def Hop_ObjSetMarkA_def update_def deref_def list_update_beyond)

lemma deref_data_mark: "fMarkA (deref (set_data p v m) q) = fMarkA (deref m q)"
  unfolding set_data_def by (rule deref_update_frame) simp

interpretation clean: traversal "\<lambda>n x (m, u). res_bind (Hop_ConeCleanAndMark_rec n x m) (\<lambda>m. Inr (m, u))"
  "\<lambda>x (m, u). Inr (set_data x 0 m, u)"
  "\<lambda>C (m, u :: unit). hop_ok p \<and> redecorated p m \<and> (\<forall>y\<in>marks m - marks p. pData (deref m y) = 0)" "\<lambda>_ _. True" for p
proof (unfold_locales, goal_cases)
  case (1 x m s n)
  then show ?case using node_guards [of x m] by simp
next
  case (2 m x C s n)
  then show ?case using leaf_guards [OF 2(1-3)] by (simp add: keeps_def extends_refl)
next
  case (3 x m n s)
  then show ?case
    using node_guards [of x m]
    by (simp add: res_bind_assoc set_data_mark deref_data_mark Hop_ObjFanin0_def Hop_ObjFanin1_def Hop_ObjIsMarkA_def
        if_distrib [of "\<lambda>r. res_bind r f" for f] cong: if_cong)
next
  case (4 m x C s)
  let ?d = "set_data x 0 m"
  have x: "obj_at m x" "obj_at ?d x" using 4(2) redecorated_fields(8) [OF redecorated_ops(3)] by (auto simp: nodes_def)
  have inv: "hop_ok p" "redecorated p m" "\<And>y. y \<in> marks m - marks p \<Longrightarrow> pData (deref m y) = 0" using 4(8) by simp_all
  have mark: "marks (Hop_ObjSetMarkA x ?d) = insert x (marks m)" using marked_ops(1) [OF x(2)] marked_ops(3) [OF x(1)] by simp
  have "pData (deref (Hop_ObjSetMarkA x ?d) y) = 0" if "y \<in> insert x (marks m) - marks p" for y
  proof -
    have y: "obj_at m y" "obj_at ?d y" using that x redecorated_fields(8) [OF redecorated_ops(3)] by (auto simp: marks_def)
    show ?thesis using marks_deref(2) [OF x(2) y(2)] marks_deref(6) [OF x(1) y(1), of 0] inv(3) [of y] that by auto
  qed
  moreover have "redecorated p (Hop_ObjSetMarkA x ?d)" using redecorated_trans [OF inv(2) redecorated_trans [OF redecorated_ops(3,1)]] .
  moreover have "keeps m ?d" using keeps_redecorated [OF 4(1) redecorated_ops(3)] marked_ops(3) [OF x(1)] by blast
  ultimately show ?case using inv(1) by (simp add: mark)
qed

lemma Hop_ConeCleanAndMark_rec_val:
  assumes ok: "hop_ok p" and closed: "marks_closed p" and x: "live p x" and n: "index x < n"
  shows "\<exists>m. Hop_ConeCleanAndMark_rec n x p = Inr m \<and> redecorated p m \<and> marks m = marks p \<union> cone p x \<and>
    (\<forall>y\<in>cone p x - marks p. pData (deref m y) = 0)"
proof -
  obtain m u where "res_bind (Hop_ConeCleanAndMark_rec n x p) (\<lambda>m. Inr (m, ())) = Inr (m, u)" "redecorated p m"
      "marks m = marks p \<union> cone p x" "\<forall>y\<in>marks m - marks p. pData (deref m y) = 0"
    using clean.visit_val [of p x UNIV p "()" n, OF ok x closed _ _ n] ok redecorated_refl by auto
  then show ?thesis by (auto simp: res_bind_Inr)
qed

section \<open>Levels\<close>

function level :: "Hop_Man \<Rightarrow> nat \<Rightarrow> nat" where
  "level m x =
    (if Type_o (deref m x) = AIG_AND then
       if index (Hop_Regular (pFanin0 (deref m x))) < index x \<and> index (Hop_Regular (pFanin1 (deref m x))) < index x then
         1 + max (level m (Hop_Regular (pFanin0 (deref m x)))) (level m (Hop_Regular (pFanin1 (deref m x))))
       else 0
     else 0)"
  by pat_completeness auto
termination
  by (relation "measure (\<lambda>(m, x). index x)") auto

declare level.simps [simp del]

lemma level_node: "hop_ok m \<Longrightarrow> x \<in> nodes m \<Longrightarrow> level m x = 1 + max (level m (fan0 m x)) (level m (fan1 m x))"
  by (subst level.simps) (simp add: fanin_facts, simp add: nodes_def)

lemma level_leaf: "x \<notin> nodes m \<Longrightarrow> obj_at m x \<Longrightarrow> level m x = 0"
  by (subst level.simps) (simp add: nodes_def)


lemma level_fold:
  assumes ok: "hop_ok m" and m: "redecorated m k" and vs: "topological m vs" "set vs \<subseteq> nodes m"
    and leaves: "\<And>y. live m y \<Longrightarrow> y \<notin> nodes m \<Longrightarrow> pData (deref k y) = 0"
  defines "body \<equiv> \<lambda>pObj p.
      let Level0 = pData (deref p (Hop_ObjFanin0 (deref p pObj))); Level1 = pData (deref p (Hop_ObjFanin1 (deref p pObj)))
      in set_data pObj (1 + of_bool (Hop_ObjIsExor (deref p pObj)) + max Level0 Level1) p"
  shows "i \<le> length vs \<Longrightarrow> redecorated m (fold body (take i vs) k) \<and>
    (\<forall>y. live m y \<longrightarrow> y \<notin> nodes m \<or> y \<in> set (take i vs) \<longrightarrow> pData (deref (fold body (take i vs) k) y) = level m y)"
proof (induction i)
  case 0
  then show ?case using m leaves level_leaf by (simp add: live_def)
next
  case (Suc i)
  let ?k = "fold body (take i vs) k" and ?x = "vs ! i"
  have IH: "redecorated m ?k" "\<And>y. live m y \<Longrightarrow> y \<notin> nodes m \<or> y \<in> set (take i vs) \<Longrightarrow> pData (deref ?k y) = level m y"
    using Suc by simp_all
  have i: "i < length vs" using Suc.prems by simp
  then have take: "take (Suc i) vs = take i vs @ [?x]" by (rule take_Suc_conv_app_nth)
  have x: "?x \<in> nodes m" using vs(2) nth_mem [OF i] by blast
  then have "obj_at m ?x" by (simp add: nodes_def)
  note x = x this
  note f = fanin_facts [OF ok x(1)]
  note fields = redecorated_fields [OF IH(1)]
  have lev: "pData (deref ?k q) = level m q" if q: "q = fan0 m ?x \<or> q = fan1 m ?x" for q
  proof -
    have ql: "live m q" using q f(1,2) by blast
    have "q \<in> set (take i vs)" if qn: "q \<in> nodes m"
    proof -
      have "q \<in> cone m ?x" using cone_node [OF ok x(1)] cone_node [OF ok qn] q by blast
      then have "q \<in> set (take (Suc i) vs)" using vs(1) i by (auto simp: topological_def)
      moreover have "q \<noteq> ?x" using q f(5,6) by auto
      ultimately show ?thesis by (simp add: take)
    qed
    then show ?thesis using IH(2) [OF ql] by blast
  qed
  have "Hop_ObjFanin0 (deref ?k ?x) = fan0 m ?x" "Hop_ObjFanin1 (deref ?k ?x) = fan1 m ?x" "\<not> Hop_ObjIsExor (deref ?k ?x)"
    using x(1) by (simp_all add: Hop_ObjFanin0_def Hop_ObjFanin1_def Hop_ObjIsExor_def fields nodes_def)
  then have step: "body ?x ?k = set_data ?x (level m ?x) ?k"
    using lev level_node [OF ok x(1)] by (simp add: body_def Let_def)
  have at: "obj_at ?k ?x" using x(2) fields(8) by simp
  have "pData (deref (set_data ?x (level m ?x) ?k) y) = level m y" if "live m y" "y \<notin> nodes m \<or> y \<in> set (take (Suc i) vs)" for y
  proof -
    have "obj_at ?k y" using that(1) fields(8) by (simp add: live_def)
    from marks_deref(6) [OF at this] show ?thesis using IH(2) [OF that(1)] that(2) take by auto
  qed
  then show ?case using step redecorated_trans [OF IH(1) redecorated_ops(3)] by (simp add: take)
qed


lemma clear_data:
  assumes "\<And>x. x \<in> set xs \<Longrightarrow> obj_at m x"
  shows "redecorated m (fold (\<lambda>x. set_data x 0) xs m) \<and> marks (fold (\<lambda>x. set_data x 0) xs m) = marks m \<and>
    (\<forall>y. obj_at m y \<longrightarrow> pData (deref (fold (\<lambda>x. set_data x 0) xs m) y) = (if y \<in> set xs then 0 else pData (deref m y)))"
  using assms
proof (induction xs arbitrary: m)
  case (Cons x xs)
  let ?m = "set_data x 0 m"
  have x: "obj_at m x" using Cons.prems by simp
  have at: "obj_at ?m y = obj_at m y" for y by (rule redecorated_fields(8) [OF redecorated_ops(3)])
  have IH: "redecorated ?m (fold (\<lambda>x. set_data x 0) xs ?m)" "marks (fold (\<lambda>x. set_data x 0) xs ?m) = marks ?m"
    "\<And>y. obj_at m y \<Longrightarrow> pData (deref (fold (\<lambda>x. set_data x 0) xs ?m) y) = (if y \<in> set xs then 0 else pData (deref ?m y))"
    using Cons.IH [of ?m] Cons.prems at by simp_all
  then show ?case using redecorated_trans [OF redecorated_ops(3)] marked_ops(3) [OF x] marks_deref(6) [OF x] by simp
qed (simp add: redecorated_refl)

lemma fold_max: "fold (\<lambda>x k. max k (g x)) xs (n :: nat) = Max (insert n (g ` set xs))"
proof (induction xs arbitrary: n)
  case (Cons x xs)
  have "Max (insert (max n (g x)) (g ` set xs)) = Max (insert n (insert (g x) (g ` set xs)))"
    by (cases "g ` set xs = {}") (simp_all add: max.assoc)
  then show ?case using Cons by simp
qed simp

lemma Hop_ManCountLevels_val:
  assumes ok: "hop_ok p" and none: "marks p = {}"
    and seen: "\<And>y. y \<in> set (vPos p) \<Longrightarrow> fan0 p y \<in> nodes p \<Longrightarrow> fan0 p y \<in> (\<Union>x\<in>nodes p \<inter> set (pTable p). cone p x)"
  shows "\<exists>M. Hop_ManCountLevels p = Inr (Max (insert 0 ((\<lambda>y. level p (fan0 p y)) ` set (vPos p))), M) \<and> redecorated p M"
proof -
  let ?p1 = "set_data (Hop_ManConst1 p) 0 p"
  let ?p2 = "fold (\<lambda>pObj. set_data pObj 0) (vPis ?p1) ?p1"
  have c: "obj_at p (pConst1 p)" using const_live [OF ok] by (simp add: live_def)
  have r1: "redecorated p ?p1" by (rule redecorated_ops)
  have pis: "vPis ?p1 = vPis p" "\<And>x. x \<in> set (vPis p) \<Longrightarrow> obj_at ?p1 x"
    using redecorated_fields(8,10) [OF r1] inputs_set(1) [OF ok] by auto
  have p2: "redecorated ?p1 ?p2" "marks ?p2 = marks ?p1"
    "\<And>y. obj_at p y \<Longrightarrow> pData (deref ?p2 y) = (if y \<in> set (vPis p) then 0 else pData (deref ?p1 y))"
    using clear_data [of "vPis ?p1" ?p1] pis redecorated_fields(8) [OF r1] by simp_all
  have r2: "redecorated p ?p2" by (rule redecorated_trans [OF r1 p2(1)])
  have m2: "marks ?p2 = {}" using p2(2) marked_ops(3) [OF c] none by (simp add: Hop_ManConst1_def)
  have ok2: "hop_ok ?p2" by (rule redecorated_ok [OF r2 ok])
  have cone2: "cone ?p2 x = cone p x" if "live p x" for x using extends_cone [OF ok ok2 redecorated_extends [OF r2] that] .
  have zero: "pData (deref ?p2 y) = 0" if "live p y" "y \<notin> nodes p" for y
  proof (cases "y = pConst1 p")
    case True
    then show ?thesis using p2(3) [OF c] marks_deref(6) [OF c c, of 0] by (simp add: Hop_ManConst1_def)
  next
    case False
    then have "Type_o (deref p y) = AIG_PI" using that hop_okD(5) [OF ok, of y] by (auto simp: live_def nodes_def obj_ok_def)
    then have "y \<in> set (vPis p)" using inputs_set(1) [OF ok] that(1) by (simp add: live_def)
    then show ?thesis using p2(3) [of y] that(1) by (simp add: live_def)
  qed
  obtain vs M1 where d: "Hop_ManDfs ?p2 = Inr (vs, M1)" "topological ?p2 vs"
      "set vs = (\<Union>x\<in>nodes ?p2 \<inter> set (pTable ?p2). cone ?p2 x)" "only_marks ?p2 M1"
    using Hop_ManDfs_val [OF ok2 m2] by blast
  note parts = redecorated_parts [OF r2] and fields = redecorated_fields [OF r2]
  have vs: "set vs \<subseteq> nodes ?p2" using d(3) cone_sub(1) [OF ok2] by (fastforce simp: nodes_def live_def)
  have leaves: "pData (deref M1 y) = 0" if "live ?p2 y" "y \<notin> nodes ?p2" for y
    using that zero [of y] only_marks_data [OF d(4), of y] parts(1,3) by (simp add: live_def)
  let ?body = "\<lambda>pObj p.
      let Level0 = pData (deref p (Hop_ObjFanin0 (deref p pObj))); Level1 = pData (deref p (Hop_ObjFanin1 (deref p pObj)))
      in set_data pObj (1 + of_bool (Hop_ObjIsExor (deref p pObj)) + max Level0 Level1) p"
  have rM: "redecorated ?p2 M1" using d(4) by (simp add: only_marks_def)
  define M where "M = fold ?body vs M1"
  have M: "redecorated ?p2 M" "\<And>y. live ?p2 y \<Longrightarrow> y \<notin> nodes ?p2 \<or> y \<in> set vs \<Longrightarrow> pData (deref M y) = level ?p2 y"
    using level_fold [OF ok2 rM d(2) vs leaves, of "length vs"] unfolding M_def by simp_all
  have lev: "level ?p2 x = level p x" for x
  proof (induction "index x" arbitrary: x rule: less_induct)
    case less
    show ?case using less [of "fan0 p x"] less [of "fan1 p x"] by (subst (1 2) level.simps) (simp add: fields)
  qed
  have rp: "redecorated p M" by (rule redecorated_trans [OF r2 M(1)])
  note fM = redecorated_fields [OF rp]
  have "pData (deref M (Hop_ObjFanin0 (deref M y))) = level p (fan0 p y)" if y: "y \<in> set (vPos p)" for y
  proof -
    have "obj_at p y" "Type_o (deref p y) = AIG_PO" using hop_okD(13) [OF ok] y by (auto simp: counts_ok_def)
    then have l: "live p (fan0 p y)" using hop_okD(5) [OF ok, of y] by (simp add: obj_ok_def)
    have "fan0 p y \<notin> nodes ?p2 \<or> fan0 p y \<in> set vs"
    proof (cases "fan0 p y \<in> nodes p")
      case True
      from seen [OF y True] obtain x where x: "x \<in> nodes p" "x \<in> set (pTable p)" "fan0 p y \<in> cone p x" by blast
      then have "live p x" by (simp add: nodes_def live_def)
      then have "fan0 p y \<in> cone ?p2 x" using x(3) cone2 by simp
      moreover have "x \<in> nodes ?p2 \<inter> set (pTable ?p2)" using x(1,2) parts(1) fields(16) by simp
      ultimately have "fan0 p y \<in> set vs" unfolding d(3) by blast
      then show ?thesis by simp
    next
      case False
      then show ?thesis using parts(1) by simp
    qed
    then show ?thesis using M(2) [of "fan0 p y"] l parts(3) lev by (simp add: Hop_ObjFanin0_def fM)
  qed
  then have "(\<lambda>y. pData (deref M (Hop_ObjFanin0 (deref M y)))) ` set (vPos p) = (\<lambda>y. level p (fan0 p y)) ` set (vPos p)"
    by (intro image_cong refl)
  then have "fold (\<lambda>pObj LevelsMax. max LevelsMax (pData (deref M (Hop_ObjFanin0 (deref M pObj))))) (vPos M) 0 =
      Max (insert 0 ((\<lambda>y. level p (fan0 p y)) ` set (vPos p)))"
    using fold_max [of "\<lambda>y. pData (deref M (Hop_ObjFanin0 (deref M y)))" "vPos p" 0] fM(11) by simp
  moreover have "Hop_ManCountLevels p =
      Inr (fold (\<lambda>pObj LevelsMax. max LevelsMax (pData (deref M (Hop_ObjFanin0 (deref M pObj))))) (vPos M) 0, M)"
    using d(1) unfolding Hop_ManCountLevels_def Let_def M_def by simp
  ultimately show ?thesis using rp by simp
qed

end
