(* ===== verification/Hop_Util.thy ===== *)
theory Hop_Util
  imports Hop_Refs
begin

text \<open>
  Utilities of the AIG package (\<open>src/abc-master/src/aig/hop/hopUtil.c\<close>): clearing the data fields, collecting
  the inputs of a multi-input gate, and recognising exclusive ors and multiplexers. What a function
  writes through pointer arguments is part of its result.
\<close>

section \<open>Operations\<close>

definition Hop_ManCleanData :: "Hop_Man \<Rightarrow> Hop_Man" where
  "Hop_ManCleanData p =
    (let p = p\<lparr>nTravIds := 1\<rparr>;
         p = set_data (Hop_ManConst1 p) 0 p;
         p = fold (\<lambda>pObj. set_data pObj 0) (vPis p) p;
         p = fold (\<lambda>pObj. set_data pObj 0) (vPos p) p
     in fold (\<lambda>pObj. set_data pObj 0) (Hop_ManForEachNode p) p)"

definition Hop_ManIncrementTravId :: "Hop_Man \<Rightarrow> Hop_Man" where
  "Hop_ManIncrementTravId p =
    (let p = (if 2 ^ 30 - 1 \<le> nTravIds p then Hop_ManCleanData p else p)
     in p\<lparr>nTravIds := nTravIds p + 1\<rparr>)"

primrec Hop_ObjCleanData_rec :: "nat \<Rightarrow> nat \<Rightarrow> Hop_Man \<Rightarrow> Hop_Man res" where
  "Hop_ObjCleanData_rec 0 pObj p = Inl OutOfFuel"
| "Hop_ObjCleanData_rec (Suc fuel) pObj p =
    (if Hop_IsComplement pObj then Inl AssertFailed
     else if Hop_ObjIsPo (deref p pObj) then Inl AssertFailed
     else
       res_bind (if Hop_ObjIsAnd (deref p pObj)
         then res_bind (Hop_ObjCleanData_rec fuel (Hop_ObjFanin0 (deref p pObj)) p) (\<lambda>p.
              Hop_ObjCleanData_rec fuel (Hop_ObjFanin1 (deref p pObj)) p)
         else Inr p) (\<lambda>p. Inr (set_data pObj 0 p)))"

definition Vec_PtrPushUnique :: "nat list \<Rightarrow> nat \<Rightarrow> nat \<times> nat list" where
  "Vec_PtrPushUnique p q = (if q \<in> set p then (1, p) else (0, p @ [q]))"

primrec Hop_ObjCollectMulti_rec :: "nat \<Rightarrow> Hop_Man \<Rightarrow> nat \<Rightarrow> nat \<Rightarrow> nat list \<Rightarrow> nat list res" where
  "Hop_ObjCollectMulti_rec 0 m pRoot pObj vSuper = Inl OutOfFuel"
| "Hop_ObjCollectMulti_rec (Suc fuel) m pRoot pObj vSuper =
    (if pObj = 0 then Inl Undefined
     else if pRoot \<noteq> pObj \<and> (Hop_IsComplement pObj \<or> Hop_ObjIsPi (deref m pObj) \<or> Type_o (deref m pRoot) \<noteq> Type_o (deref m pObj)) then
       Inr (snd (Vec_PtrPushUnique vSuper pObj))
     else
       res_bind (Hop_ObjCollectMulti_rec fuel m pRoot (Hop_ObjChild0 (deref m pObj)) vSuper) (\<lambda>vSuper.
       Hop_ObjCollectMulti_rec fuel m pRoot (Hop_ObjChild1 (deref m pObj)) vSuper))"

definition Hop_ObjCollectMulti :: "Hop_Man \<Rightarrow> nat \<Rightarrow> nat list res" where
  "Hop_ObjCollectMulti m pRoot =
    (if Hop_IsComplement pRoot then Inl AssertFailed else Hop_ObjCollectMulti_rec (length (Objs m)) m pRoot pRoot [])"

definition Hop_ObjIsMuxType :: "Hop_Man \<Rightarrow> nat \<Rightarrow> bool res" where
  "Hop_ObjIsMuxType m pNode =
    (if Hop_IsComplement pNode then Inl AssertFailed
     else if \<not> Hop_ObjIsAnd (deref m pNode) then Inr False
     else if \<not> Hop_ObjFaninC0 (deref m pNode) \<or> \<not> Hop_ObjFaninC1 (deref m pNode) then Inr False
     else
       let pNode0 = deref m (Hop_ObjFanin0 (deref m pNode));
           pNode1 = deref m (Hop_ObjFanin1 (deref m pNode))
       in if \<not> Hop_ObjIsAnd pNode0 \<or> \<not> Hop_ObjIsAnd pNode1 then Inr False
          else Inr ((Hop_ObjFanin0 pNode0 = Hop_ObjFanin0 pNode1 \<and> (Hop_ObjFaninC0 pNode0 \<noteq> Hop_ObjFaninC0 pNode1)) \<or>
                    (Hop_ObjFanin0 pNode0 = Hop_ObjFanin1 pNode1 \<and> (Hop_ObjFaninC0 pNode0 \<noteq> Hop_ObjFaninC1 pNode1)) \<or>
                    (Hop_ObjFanin1 pNode0 = Hop_ObjFanin0 pNode1 \<and> (Hop_ObjFaninC1 pNode0 \<noteq> Hop_ObjFaninC0 pNode1)) \<or>
                    (Hop_ObjFanin1 pNode0 = Hop_ObjFanin1 pNode1 \<and> (Hop_ObjFaninC1 pNode0 \<noteq> Hop_ObjFaninC1 pNode1))))"

definition Hop_ObjRecognizeExor :: "Hop_Man \<Rightarrow> nat \<Rightarrow> (nat \<times> nat) option res" where
  "Hop_ObjRecognizeExor m pObj =
    (if Hop_IsComplement pObj then Inl AssertFailed
     else if \<not> Hop_ObjIsNode (deref m pObj) then Inr None
     else if Hop_ObjIsExor (deref m pObj) then Inr (Some (Hop_ObjChild0 (deref m pObj), Hop_ObjChild1 (deref m pObj)))
     else if \<not> Hop_ObjIsAnd (deref m pObj) then Inl AssertFailed
     else
       let p0 = Hop_ObjChild0 (deref m pObj);
           p1 = Hop_ObjChild1 (deref m pObj)
       in if \<not> Hop_IsComplement p0 \<or> \<not> Hop_IsComplement p1 then Inr None
          else
            let p0 = deref m (Hop_Regular p0);
                p1 = deref m (Hop_Regular p1)
            in if \<not> Hop_ObjIsAnd p0 \<or> \<not> Hop_ObjIsAnd p1 then Inr None
               else if Hop_ObjFanin0 p0 \<noteq> Hop_ObjFanin0 p1 \<or> Hop_ObjFanin1 p0 \<noteq> Hop_ObjFanin1 p1 then Inr None
               else if Hop_ObjFaninC0 p0 = Hop_ObjFaninC0 p1 \<or> Hop_ObjFaninC1 p0 = Hop_ObjFaninC1 p1 then Inr None
               else Inr (Some (Hop_ObjChild0 p0, Hop_ObjChild1 p0)))"

text \<open>The result is the control, the then and the else pointer.\<close>

definition Hop_ObjRecognizeMux :: "Hop_Man \<Rightarrow> nat \<Rightarrow> (nat \<times> nat \<times> nat) res" where
  "Hop_ObjRecognizeMux m pNode =
    (if Hop_IsComplement pNode then Inl AssertFailed
     else if Hop_ObjIsMuxType m pNode \<noteq> Inr True then Inl AssertFailed
     else
       let pNode0 = deref m (Hop_ObjFanin0 (deref m pNode));
           pNode1 = deref m (Hop_ObjFanin1 (deref m pNode))
       in if Hop_ObjFanin1 pNode0 = Hop_ObjFanin1 pNode1 \<and> (Hop_ObjFaninC1 pNode0 \<noteq> Hop_ObjFaninC1 pNode1) then
            (if Hop_ObjFaninC1 pNode0
             then Inr (Hop_ObjChild1 pNode1, Hop_Not (Hop_ObjChild0 pNode1), Hop_Not (Hop_ObjChild0 pNode0))
             else Inr (Hop_ObjChild1 pNode0, Hop_Not (Hop_ObjChild0 pNode0), Hop_Not (Hop_ObjChild0 pNode1)))
          else if Hop_ObjFanin0 pNode0 = Hop_ObjFanin0 pNode1 \<and> (Hop_ObjFaninC0 pNode0 \<noteq> Hop_ObjFaninC0 pNode1) then
            (if Hop_ObjFaninC0 pNode0
             then Inr (Hop_ObjChild0 pNode1, Hop_Not (Hop_ObjChild1 pNode1), Hop_Not (Hop_ObjChild1 pNode0))
             else Inr (Hop_ObjChild0 pNode0, Hop_Not (Hop_ObjChild1 pNode0), Hop_Not (Hop_ObjChild1 pNode1)))
          else if Hop_ObjFanin0 pNode0 = Hop_ObjFanin1 pNode1 \<and> (Hop_ObjFaninC0 pNode0 \<noteq> Hop_ObjFaninC1 pNode1) then
            (if Hop_ObjFaninC0 pNode0
             then Inr (Hop_ObjChild1 pNode1, Hop_Not (Hop_ObjChild0 pNode1), Hop_Not (Hop_ObjChild1 pNode0))
             else Inr (Hop_ObjChild0 pNode0, Hop_Not (Hop_ObjChild1 pNode0), Hop_Not (Hop_ObjChild0 pNode1)))
          else if Hop_ObjFanin1 pNode0 = Hop_ObjFanin0 pNode1 \<and> (Hop_ObjFaninC1 pNode0 \<noteq> Hop_ObjFaninC0 pNode1) then
            (if Hop_ObjFaninC1 pNode0
             then Inr (Hop_ObjChild0 pNode1, Hop_Not (Hop_ObjChild1 pNode1), Hop_Not (Hop_ObjChild0 pNode0))
             else Inr (Hop_ObjChild1 pNode0, Hop_Not (Hop_ObjChild0 pNode0), Hop_Not (Hop_ObjChild1 pNode1)))
          else Inl AssertFailed)"

section \<open>Recognised gates\<close>

lemma node_reads:
  "x \<in> nodes m \<Longrightarrow> Hop_ObjIsAnd (deref m x)" "x \<in> nodes m \<Longrightarrow> \<not> Hop_ObjIsExor (deref m x)"
  by (simp_all add: nodes_def Hop_ObjIsAnd_def Hop_ObjIsExor_def)

lemma ptr_val_split: "ptr_val f m p \<longleftrightarrow> ptr_val f m (Hop_Regular p) \<noteq> Hop_IsComplement p"
  by (simp add: ptr_val_def)

text \<open>A node with two complemented nodes as fanins.\<close>

definition two_levels :: "Hop_Man \<Rightarrow> nat \<Rightarrow> bool" where
  "two_levels m x \<longleftrightarrow> x \<in> nodes m \<and> Hop_IsComplement (pFanin0 (deref m x)) \<and> Hop_IsComplement (pFanin1 (deref m x)) \<and>
     Type_o (deref m (fan0 m x)) = AIG_AND \<and> Type_o (deref m (fan1 m x)) = AIG_AND"

lemma two_levels_val:
  assumes ok: "hop_ok m" and x: "two_levels m x"
  shows "obj_val f m x \<longleftrightarrow>
    \<not> (ptr_val f m (pFanin0 (deref m (fan0 m x))) \<and> ptr_val f m (pFanin1 (deref m (fan0 m x)))) \<and>
    \<not> (ptr_val f m (pFanin0 (deref m (fan1 m x))) \<and> ptr_val f m (pFanin1 (deref m (fan1 m x))))"
proof -
  have x: "x \<in> nodes m" "Hop_IsComplement (pFanin0 (deref m x))" "Hop_IsComplement (pFanin1 (deref m x))"
    and n: "Type_o (deref m (fan0 m x)) = AIG_AND" "Type_o (deref m (fan1 m x)) = AIG_AND"
    using x by (simp_all add: two_levels_def)
  have nn: "fan0 m x \<in> nodes m" "fan1 m x \<in> nodes m" using fanin_facts(1,2) [OF ok x(1)] n by (simp_all add: nodes_def live_def)
  show ?thesis using obj_val_node [OF ok x(1)] x(2,3) obj_val_node [OF ok nn(1)] obj_val_node [OF ok nn(2)]
    by (simp add: ptr_val_def [of f m "pFanin0 (deref m x)"] ptr_val_def [of f m "pFanin1 (deref m x)"])
qed

lemmas field_reads = Hop_ObjFanin0_def Hop_ObjFanin1_def Hop_ObjFaninC0_def Hop_ObjFaninC1_def Hop_ObjChild0_def Hop_ObjChild1_def
  Hop_ObjIsAnd_def Hop_ObjIsPi_def

text \<open>The two children agree in their fanins, with opposite marks.\<close>

lemma Hop_ObjRecognizeExor_eq:
  assumes x: "x \<in> nodes m"
  shows "Hop_ObjRecognizeExor m x = Inr (
    if two_levels m x \<and> fan0 m (fan0 m x) = fan0 m (fan1 m x) \<and> fan1 m (fan0 m x) = fan1 m (fan1 m x) \<and>
       Hop_IsComplement (pFanin0 (deref m (fan0 m x))) \<noteq> Hop_IsComplement (pFanin0 (deref m (fan1 m x))) \<and>
       Hop_IsComplement (pFanin1 (deref m (fan0 m x))) \<noteq> Hop_IsComplement (pFanin1 (deref m (fan1 m x)))
    then Some (pFanin0 (deref m (fan0 m x)), pFanin1 (deref m (fan0 m x))) else None)"
  using x node_guards(1,2) [OF x] node_reads [OF x]
  by (simp add: Hop_ObjRecognizeExor_def two_levels_def Let_def field_reads)

lemma Hop_ObjRecognizeExor_val:
  assumes ok: "hop_ok m" and x: "live m x"
  shows "\<exists>r. Hop_ObjRecognizeExor m x = Inr r \<and>
    (case r of None \<Rightarrow> True | Some (a, b) \<Rightarrow> \<forall>f. obj_val f m x = (ptr_val f m a \<noteq> ptr_val f m b))"
proof (cases "x \<in> nodes m")
  case False
  then show ?thesis using leaf_guards [OF ok x False] by (simp add: Hop_ObjRecognizeExor_def)
next
  case True
  let ?q0 = "deref m (fan0 m x)" and ?q1 = "deref m (fan1 m x)"
  have "obj_val f m x = (ptr_val f m (pFanin0 ?q0) \<noteq> ptr_val f m (pFanin1 ?q0))"
    if "two_levels m x" "fan0 m (fan0 m x) = fan0 m (fan1 m x)" "fan1 m (fan0 m x) = fan1 m (fan1 m x)"
      "Hop_IsComplement (pFanin0 ?q0) \<noteq> Hop_IsComplement (pFanin0 ?q1)" "Hop_IsComplement (pFanin1 ?q0) \<noteq> Hop_IsComplement (pFanin1 ?q1)" for f
    using two_levels_val [OF ok that(1), of f] that(2-) unfolding ptr_val_def by auto
  then show ?thesis by (auto simp: Hop_ObjRecognizeExor_eq [OF True])
qed

lemma Hop_ObjIsMuxType_eq:
  assumes x: "x \<in> nodes m"
  shows "Hop_ObjIsMuxType m x = Inr (two_levels m x \<and> (
    let q0 = deref m (fan0 m x); q1 = deref m (fan1 m x) in
      pFanin0 q0 = Hop_Not (pFanin0 q1) \<or> pFanin0 q0 = Hop_Not (pFanin1 q1) \<or>
      pFanin1 q0 = Hop_Not (pFanin0 q1) \<or> pFanin1 q0 = Hop_Not (pFanin1 q1)))"
proof (cases "two_levels m x")
  case True
  then show ?thesis using node_guards(1,2) [OF x] node_reads [OF x]
    by (simp add: Hop_ObjIsMuxType_def two_levels_def Let_def field_reads Hop_pointer_eq [of _ "Hop_Not _"])
next
  case False
  then show ?thesis using node_guards(1,2) [OF x] node_reads [OF x] x
    by (auto simp: Hop_ObjIsMuxType_def two_levels_def Let_def field_reads)
qed

lemma Hop_ObjRecognizeMux_val:
  assumes ok: "hop_ok m" and x: "live m x" and mux: "Hop_ObjIsMuxType m x = Inr True"
  shows "\<exists>c t e. Hop_ObjRecognizeMux m x = Inr (c, t, e) \<and> \<not> Hop_IsComplement c \<and>
    (\<forall>f. obj_val f m x = (if ptr_val f m c then ptr_val f m t else ptr_val f m e))"
proof -
  have xn: "x \<in> nodes m"
    using mux x by (auto simp: Hop_ObjIsMuxType_def nodes_def live_def Hop_ObjIsAnd_def split: if_splits)
  let ?q0 = "deref m (fan0 m x)" and ?q1 = "deref m (fan1 m x)"
  have two: "two_levels m x" and pair: "pFanin0 ?q0 = Hop_Not (pFanin0 ?q1) \<or> pFanin0 ?q0 = Hop_Not (pFanin1 ?q1) \<or>
      pFanin1 ?q0 = Hop_Not (pFanin0 ?q1) \<or> pFanin1 ?q0 = Hop_Not (pFanin1 ?q1)"
    using mux by (simp_all add: Hop_ObjIsMuxType_eq [OF xn] Let_def)
  note val = two_levels_val [OF ok two]
  have rec: "Hop_ObjRecognizeMux m x =
      (let m0 = \<lambda>a b c d. if Hop_IsComplement a then Inr (b, Hop_Not d, Hop_Not c) else Inr (a, Hop_Not c, Hop_Not d) in
       if pFanin1 ?q0 = Hop_Not (pFanin1 ?q1) then m0 (pFanin1 ?q0) (pFanin1 ?q1) (pFanin0 ?q0) (pFanin0 ?q1)
       else if pFanin0 ?q0 = Hop_Not (pFanin0 ?q1) then m0 (pFanin0 ?q0) (pFanin0 ?q1) (pFanin1 ?q0) (pFanin1 ?q1)
       else if pFanin0 ?q0 = Hop_Not (pFanin1 ?q1) then m0 (pFanin0 ?q0) (pFanin1 ?q1) (pFanin1 ?q0) (pFanin0 ?q1)
       else if pFanin1 ?q0 = Hop_Not (pFanin0 ?q1) then m0 (pFanin1 ?q0) (pFanin0 ?q1) (pFanin0 ?q0) (pFanin1 ?q1)
       else Inl AssertFailed)"
    using node_guards(1) [OF xn] mux
    by (simp add: Hop_ObjRecognizeMux_def Let_def field_reads Hop_pointer_eq [of _ "Hop_Not _"])
  have one: "\<exists>c' t e. (if Hop_IsComplement a then Inr (b, Hop_Not d, Hop_Not c) else Inr (a, Hop_Not c, Hop_Not d)) = (Inr (c', t, e) :: (nat \<times> nat \<times> nat) res) \<and>
      \<not> Hop_IsComplement c' \<and> (\<forall>f. F f = (if ptr_val f m c' then ptr_val f m t else ptr_val f m e))"
    if "a = Hop_Not b" "\<And>f. F f = (\<not> (ptr_val f m a \<and> ptr_val f m c) \<and> \<not> (ptr_val f m b \<and> ptr_val f m d))" for a b c d F
    using that by auto
  note order = rec [unfolded Let_def]
  consider (a) "pFanin1 ?q0 = Hop_Not (pFanin1 ?q1)" | (b) "pFanin1 ?q0 \<noteq> Hop_Not (pFanin1 ?q1)" "pFanin0 ?q0 = Hop_Not (pFanin0 ?q1)"
    | (c) "pFanin1 ?q0 \<noteq> Hop_Not (pFanin1 ?q1)" "pFanin0 ?q0 \<noteq> Hop_Not (pFanin0 ?q1)" "pFanin0 ?q0 = Hop_Not (pFanin1 ?q1)"
    | (d) "pFanin1 ?q0 \<noteq> Hop_Not (pFanin1 ?q1)" "pFanin0 ?q0 \<noteq> Hop_Not (pFanin0 ?q1)" "pFanin0 ?q0 \<noteq> Hop_Not (pFanin1 ?q1)"
        "pFanin1 ?q0 = Hop_Not (pFanin0 ?q1)"
    using pair by blast
  then show ?thesis
  proof cases
    case a
    show ?thesis unfolding order if_P [OF a] by (rule one [OF a]) (unfold val, blast)
  next
    case b
    show ?thesis unfolding order if_not_P [OF b(1)] if_P [OF b(2)] by (rule one [OF b(2)]) (unfold val, blast)
  next
    case c
    show ?thesis unfolding order if_not_P [OF c(1)] if_not_P [OF c(2)] if_P [OF c(3)] by (rule one [OF c(3)]) (unfold val, blast)
  next
    case d
    show ?thesis unfolding order if_not_P [OF d(1)] if_not_P [OF d(2)] if_not_P [OF d(3)] if_P [OF d(4)]
      by (rule one [OF d(4)]) (unfold val, blast)
  qed
qed

section \<open>Multi-input gates\<close>

text \<open>The inputs collected for a conjunction, together with what was collected before.\<close>

definition gathered :: "Hop_Man \<Rightarrow> nat list \<Rightarrow> nat \<Rightarrow> nat list \<Rightarrow> bool" where
  "gathered m v p v' \<longleftrightarrow> set v \<subseteq> set v' \<and> (distinct v \<longrightarrow> distinct v') \<and>
     (\<forall>q\<in>set v' - set v. hop_valid m q \<and> (Hop_IsComplement q \<or> q \<notin> nodes m)) \<and>
     (\<forall>f. (\<forall>q\<in>set v'. ptr_val f m q) \<longleftrightarrow> (\<forall>q\<in>set v. ptr_val f m q) \<and> ptr_val f m p)"

lemma gathered_leaf:
  assumes "hop_valid m p" "Hop_IsComplement p \<or> p \<notin> nodes m"
  shows "gathered m v p (snd (Vec_PtrPushUnique v p))"
  using assms by (auto simp: gathered_def Vec_PtrPushUnique_def)

lemma gathered_node:
  assumes "hop_ok m" "p \<in> nodes m" "gathered m v (pFanin0 (deref m p)) v1" "gathered m v1 (pFanin1 (deref m p)) v2"
  shows "gathered m v p v2"
proof -
  have "Hop_Regular p = p" "\<not> Hop_IsComplement p" using assms(2) by (auto simp: nodes_def)
  then have "ptr_val f m p \<longleftrightarrow> ptr_val f m (pFanin0 (deref m p)) \<and> ptr_val f m (pFanin1 (deref m p))" for f
    using obj_val_node [OF assms(1,2)] by (simp add: ptr_val_def)
  moreover have "q \<in> set v2 - set v1 \<or> q \<in> set v1 - set v" if "q \<in> set v2 - set v" for q using that by blast
  ultimately show ?thesis using assms(3,4) unfolding gathered_def by (meson subset_trans)
qed

lemma Hop_ObjCollectMulti_rec_val:
  assumes ok: "hop_ok m" and x: "x \<in> nodes m"
  shows "hop_valid m p \<Longrightarrow> index (Hop_Regular p) < n \<Longrightarrow> \<exists>v'. Hop_ObjCollectMulti_rec n m x p v = Inr v' \<and> gathered m v p v'"
proof (induction n arbitrary: p v)
  case (Suc n)
  have root: "Type_o (deref m x) = AIG_AND" "Hop_Regular x = x" using x by (auto simp: nodes_def)
  have live: "live m (Hop_Regular p)" using Suc.prems(1) by (simp add: hop_valid_def)
  then have nz: "p \<noteq> 0" by (auto simp: live_def obj_at_def Hop_Regular_arith)
  show ?case
  proof (cases "Hop_IsComplement p \<or> p \<notin> nodes m")
    case True
    then have "p \<noteq> x" using x by (auto simp: nodes_def)
    moreover have "Hop_Regular p = p" if "\<not> Hop_IsComplement p" using that Hop_pointer_eq [of p "Hop_Regular p"] by simp
    ultimately have "Hop_ObjCollectMulti_rec (Suc n) m x p v = Inr (snd (Vec_PtrPushUnique v p))"
      using True nz live root(1) by (auto simp: nodes_def live_def)
    then show ?thesis using gathered_leaf [OF Suc.prems(1) True] by blast
  next
    case False
    then have p: "p \<in> nodes m" "\<not> Hop_IsComplement p" "Hop_Regular p = p" by (auto simp: nodes_def)
    note f = fanin_facts [OF ok p(1)]
    have leaf: "\<not> (x \<noteq> p \<and> (Hop_IsComplement p \<or> Hop_ObjIsPi (deref m p) \<or> Type_o (deref m x) \<noteq> Type_o (deref m p)))"
      using p root(1) by (simp add: Hop_ObjIsPi_def nodes_def)
    have idx: "index (fan0 m p) < n" "index (fan1 m p) < n" using f(5,6) Suc.prems(2) p(3) by simp_all
    obtain v1 where 1: "Hop_ObjCollectMulti_rec n m x (pFanin0 (deref m p)) v = Inr v1" "gathered m v (pFanin0 (deref m p)) v1"
      using Suc.IH [OF _ idx(1)] f(1) unfolding hop_valid_def by blast
    obtain v2 where 2: "Hop_ObjCollectMulti_rec n m x (pFanin1 (deref m p)) v1 = Inr v2" "gathered m v1 (pFanin1 (deref m p)) v2"
      using Suc.IH [OF _ idx(2)] f(2) unfolding hop_valid_def by blast
    have "Hop_ObjCollectMulti_rec (Suc n) m x p v = Inr v2"
      using nz 1(1) 2(1) by (simp add: if_not_P [OF leaf] Hop_ObjChild0_def Hop_ObjChild1_def del: de_Morgan_conj)
    then show ?thesis using gathered_node [OF ok p(1) 1(2) 2(2)] by blast
  qed
qed simp

lemma Hop_ObjCollectMulti_val:
  assumes ok: "hop_ok m" and x: "x \<in> nodes m"
  shows "\<exists>v. Hop_ObjCollectMulti m x = Inr v \<and> distinct v \<and> (\<forall>q\<in>set v. hop_valid m q \<and> (Hop_IsComplement q \<or> q \<notin> nodes m)) \<and>
    (\<forall>f. obj_val f m x = (\<forall>q\<in>set v. ptr_val f m q))"
proof -
  have r: "Hop_Regular x = x" "\<not> Hop_IsComplement x" "live m x" using x by (auto simp: nodes_def live_def)
  have v: "hop_valid m x" "index (Hop_Regular x) < length (Objs m)" using r fuel_nodes by (simp_all add: hop_valid_def)
  obtain v where v: "Hop_ObjCollectMulti_rec (length (Objs m)) m x x [] = Inr v" "gathered m [] x v"
    using Hop_ObjCollectMulti_rec_val [OF ok x v] by blast
  then have "(\<forall>q\<in>set v. ptr_val f m q) = obj_val f m x" for f using r by (simp add: gathered_def ptr_val_def [of f m x])
  then show ?thesis using v r(2) by (auto simp: Hop_ObjCollectMulti_def gathered_def)
qed

section \<open>Clean data\<close>

lemma fold_data:
  assumes "set xs \<subseteq> {x. obj_at m x}" "obj_at m q"
  shows "redecorated m (fold (\<lambda>x. set_data x v) xs m) \<and> pData (deref (fold (\<lambda>x. set_data x v) xs m) q) = (if q \<in> set xs then v else pData (deref m q)) \<and>
    marks (fold (\<lambda>x. set_data x v) xs m) = marks m"
  using assms
proof (induction xs arbitrary: m)
  case (Cons x xs)
  let ?m = "set_data x v m"
  have r: "redecorated m ?m" "obj_at ?m = obj_at m" by (simp_all add: fun_eq_iff redecorated_fields(8) [OF redecorated_ops(3)])
  have "obj_at m x" using Cons.prems by simp
  then have "pData (deref ?m q) = (if q = x then v else pData (deref m q))" "marks ?m = marks m"
    using marks_deref(6) Cons.prems(2) marked_ops(3) by simp_all
  moreover have "redecorated ?m (fold (\<lambda>x. set_data x v) xs ?m) \<and> pData (deref (fold (\<lambda>x. set_data x v) xs ?m) q) = (if q \<in> set xs then v else pData (deref ?m q)) \<and>
      marks (fold (\<lambda>x. set_data x v) xs ?m) = marks ?m"
    using Cons.IH [of ?m] Cons.prems r(2) by simp
  ultimately show ?case using redecorated_trans [OF r(1)] by auto
qed (simp add: redecorated_refl)

lemma with_travids [simp]:
  "obj_at (m\<lparr>nTravIds := k\<rparr>) = obj_at m" "deref (m\<lparr>nTravIds := k\<rparr>) = deref m" "nx (m\<lparr>nTravIds := k\<rparr>) = nx m"
  "node_key (m\<lparr>nTravIds := k\<rparr>) = node_key m" "live (m\<lparr>nTravIds := k\<rparr>) = live m" "nodes (m\<lparr>nTravIds := k\<rparr>) = nodes m"
  "fanouts (m\<lparr>nTravIds := k\<rparr>) = fanouts m" "marks (m\<lparr>nTravIds := k\<rparr>) = marks m"
  by (auto simp: fun_eq_iff deref_def obj_at_def nx_def node_key_def Hop_Hash_def live_def nodes_def fanouts_def marks_def)

lemma with_travids_ok: "hop_ok m \<Longrightarrow> hop_ok (m\<lparr>nTravIds := k\<rparr>)"
proof -
  assume ok: "hop_ok m"
  have fan: "fanins_ok (m\<lparr>nTravIds := k\<rparr>) = fanins_ok m" by (simp add: fun_eq_iff fanins_ok_def)
  have "table_rep (m\<lparr>nTravIds := k\<rparr>) = table_rep m" by (simp add: fun_eq_iff table_rep_def)
  moreover from fan have "obj_ok (m\<lparr>nTravIds := k\<rparr>) = obj_ok m"
    by (simp add: fun_eq_iff obj_ok_def split: Hop_Type.split)
  moreover have "counts_ok (m\<lparr>nTravIds := k\<rparr>) = counts_ok m" by (simp add: counts_ok_def)
  moreover have "refs_ok (m\<lparr>nTravIds := k\<rparr>) = refs_ok m" by (simp add: fun_eq_iff refs_ok_def)
  ultimately show ?thesis using ok by (simp add: hop_ok_def)
qed

text \<open>The nodes that are not the first of their list in the hash table keep their data.\<close>

lemma Hop_ManCleanData_val:
  assumes ok: "hop_ok m"
  shows "redecorated (m\<lparr>nTravIds := 1\<rparr>) (Hop_ManCleanData m)" "marks (Hop_ManCleanData m) = marks m"
    "obj_at m q \<Longrightarrow> pData (deref (Hop_ManCleanData m) q) =
      (if q \<in> nodes m - set (pTable m) \<or> Type_o (deref m q) = AIG_NONE then pData (deref m q) else 0)"
proof -
  let ?m = "m\<lparr>nTravIds := 1\<rparr>"
  let ?xs = "Hop_ManConst1 m # vPis m @ vPos m @ Hop_ManForEachNode m"
  have H: "set (Hop_ManForEachNode m) = nodes m \<inter> set (pTable m)" using heads(1) [OF hop_okD(9) [OF ok]] by auto
  have po: "set (vPos m) = {x. obj_at m x \<and> Type_o (deref m x) = AIG_PO}" using hop_okD(13) [OF ok] by (simp add: counts_ok_def)
  have each: "Hop_ManForEachNode k = Hop_ManForEachNode m" if "redecorated ?m k" for k
    using redecorated_fields(16,17) [OF that] by (simp add: Hop_ManForEachNode_def)
  have at: "set ?xs \<subseteq> {x. obj_at ?m x}"
    using const_live [OF ok] inputs_set(1) [OF ok] po H by (auto simp: Hop_ManConst1_def live_def nodes_def)
  have const: "Hop_ManConst1 ?m = Hop_ManConst1 m" by (simp add: Hop_ManConst1_def)
  have f: "vPis k = vPis m" "vPos k = vPos m" "Hop_ManForEachNode k = Hop_ManForEachNode m" if "redecorated ?m k" for k
    using redecorated_fields(10,11) [OF that] each [OF that] by simp_all
  have r: "redecorated ?m (fold (\<lambda>x. set_data x v) xs ?m)" if "set xs \<subseteq> {x. obj_at ?m x}" for xs v
    using fold_data [OF that, of "Hop_ManConst1 m"] at by simp
  have "Hop_ManCleanData m = fold (\<lambda>x. set_data x 0) ?xs ?m"
    using r [of "[Hop_ManConst1 m]" 0] r [of "Hop_ManConst1 m # vPis m" 0] r [of "Hop_ManConst1 m # vPis m @ vPos m" 0] at
    by (simp add: Hop_ManCleanData_def Let_def const f del: redecorated_ops(3) with_travids One_nat_def)
  then have *: "redecorated ?m (Hop_ManCleanData m) \<and> marks (Hop_ManCleanData m) = marks m \<and>
      (obj_at m q \<longrightarrow> pData (deref (Hop_ManCleanData m) q) = (if q \<in> set ?xs then 0 else pData (deref m q)))"
    using fold_data [OF at, of _ 0] r [OF at, of 0] at by fastforce
  then show "redecorated ?m (Hop_ManCleanData m)" "marks (Hop_ManCleanData m) = marks m" by blast+
  assume q: "obj_at m q"
  have "q \<in> set ?xs \<longleftrightarrow> \<not> (q \<in> nodes m - set (pTable m) \<or> Type_o (deref m q) = AIG_NONE)"
    using hop_okD(2,4) [OF ok] hop_okD(5) [OF ok q] po H inputs_set(1) [OF ok] q
    by (cases "Type_o (deref m q)") (auto simp: obj_ok_def nodes_def Hop_ManConst1_def)
  then show "pData (deref (Hop_ManCleanData m) q) = (if q \<in> nodes m - set (pTable m) \<or> Type_o (deref m q) = AIG_NONE then pData (deref m q) else 0)"
    using * q by metis
qed

text \<open>The recursive version clears the object, its cone and the fanins of the cone.\<close>

definition region :: "Hop_Man \<Rightarrow> nat \<Rightarrow> nat set" where
  "region m x = insert x (cone m x \<union> (\<Union>z\<in>cone m x. {fan0 m z, fan1 m z}))"

lemma region_node: "hop_ok m \<Longrightarrow> x \<in> nodes m \<Longrightarrow> region m x = insert x (region m (fan0 m x) \<union> region m (fan1 m x))"
  by (auto simp: region_def cone_node)

lemma Hop_ObjCleanData_rec_val:
  assumes ok: "hop_ok m" and x: "live m x"
  shows "index x < n \<Longrightarrow> redecorated m k \<Longrightarrow> \<exists>k'. Hop_ObjCleanData_rec n x k = Inr k' \<and> redecorated m k' \<and>
    (\<forall>y. obj_at m y \<longrightarrow> pData (deref k' y) = (if y \<in> region m x then 0 else pData (deref k y)))"
  using x
proof (induction n arbitrary: x k)
  case (Suc n)
  have at: "obj_at m x" using Suc.prems(3) by (simp add: live_def)
  have reg: "\<not> Hop_IsComplement x" "\<not> Hop_ObjIsPo (deref k x)"
    using Suc.prems(3) at by (auto simp: live_def Hop_ObjIsPo_def redecorated_fields [OF Suc.prems(2)])
  have clear: "redecorated m (set_data x 0 j) \<and>
      (\<forall>y. obj_at m y \<longrightarrow> pData (deref (set_data x 0 j) y) = (if y = x then 0 else pData (deref j y)))" if "redecorated m j" for j
    using that at redecorated_trans [OF that redecorated_ops(3)] marks_deref(6) [of j x] by (simp add: redecorated_fields(8) [OF that])
  show ?case
  proof (cases "x \<in> nodes m")
    case True
    note f = fanin_facts [OF ok True]
    have fields: "Hop_ObjIsAnd (deref j x)" "Hop_ObjFanin0 (deref j x) = fan0 m x" "Hop_ObjFanin1 (deref j x) = fan1 m x" if "redecorated m j" for j
      using True by (simp_all add: redecorated_fields [OF that] Hop_ObjIsAnd_def Hop_ObjFanin0_def Hop_ObjFanin1_def nodes_def)
    have idx: "index (fan0 m x) < n" "index (fan1 m x) < n" using f(5,6) Suc.prems(1) by simp_all
    obtain j where j: "Hop_ObjCleanData_rec n (fan0 m x) k = Inr j" "redecorated m j"
        "\<And>y. obj_at m y \<Longrightarrow> pData (deref j y) = (if y \<in> region m (fan0 m x) then 0 else pData (deref k y))"
      using Suc.IH [OF idx(1) Suc.prems(2) f(1)] by blast
    obtain l where l: "Hop_ObjCleanData_rec n (fan1 m x) j = Inr l" "redecorated m l"
        "\<And>y. obj_at m y \<Longrightarrow> pData (deref l y) = (if y \<in> region m (fan1 m x) then 0 else pData (deref j y))"
      using Suc.IH [OF idx(2) j(2) f(2)] by blast
    have "Hop_ObjCleanData_rec (Suc n) x k = Inr (set_data x 0 l)"
      using reg fields [OF Suc.prems(2)] fields(3) [OF j(2)] j(1) l(1) by simp
    then show ?thesis using clear [OF l(2)] l(3) j(3) by (auto simp: region_node [OF ok True])
  next
    case False
    then have "\<not> Hop_ObjIsAnd (deref k x)" using at by (simp add: nodes_def Hop_ObjIsAnd_def redecorated_fields [OF Suc.prems(2)])
    then have "Hop_ObjCleanData_rec (Suc n) x k = Inr (set_data x 0 k)" using reg by simp
    then show ?thesis using clear [OF Suc.prems(2)] by (simp add: region_def cone_leaf [OF False at])
  qed
qed simp

end
