(* ===== verification/Hop_Hashing.thy ===== *)
theory Hop_Hashing
  imports Hop_Oper
begin

text \<open>
  Structural hashing of the AIG package (\<open>src/abc-master/src/aig/hop/hopOper.c\<close>, \<open>hopTable.c\<close>): the result of a
  conjunction is determined by its two arguments, in either order, from its first call on.
\<close>

section \<open>What the code returns for two arguments\<close>

definition and_result :: "Hop_Man \<Rightarrow> nat \<Rightarrow> nat \<Rightarrow> nat \<Rightarrow> bool" where
  "and_result m a b r \<longleftrightarrow>
    (if a = b then r = a
     else if a = Hop_Not b then r = Hop_Not (pConst1 m)
     else if Hop_Regular a = pConst1 m then r = (if a = pConst1 m then b else Hop_Not (pConst1 m))
     else if Hop_Regular b = pConst1 m then r = (if b = pConst1 m then a else Hop_Not (pConst1 m))
     else r \<in> nodes m \<and> (pFanin0 (deref m r) = a \<and> pFanin1 (deref m r) = b \<or> pFanin0 (deref m r) = b \<and> pFanin1 (deref m r) = a))"

lemma and_result_extends: "and_result m a b r \<Longrightarrow> extends m m' \<Longrightarrow> and_result m' a b r"
  by (auto simp: and_result_def extends_def nodes_def split: if_splits)

lemma and_result_swap: "hop_ok m \<Longrightarrow> and_result m a b r \<Longrightarrow> and_result m b a r"
proof -
  assume ok: "hop_ok m" and r: "and_result m a b r"
  have not: "a = Hop_Not b \<longleftrightarrow> b = Hop_Not a" by auto
  have both: "a = b \<or> a = Hop_Not b" if "Hop_Regular a = pConst1 m" "Hop_Regular b = pConst1 m"
    using that Hop_pointer_eq [of a b] Hop_pointer_eq [of a "Hop_Not b"] by auto
  show "and_result m b a r" using r both unfolding and_result_def by (auto simp: not split: if_splits)
qed

text \<open>A call that finds the node in the table returns it and only writes the ghost.\<close>

lemma Hop_And_again:
  assumes ok: "hop_ok m" and ab: "hop_valid m a" "hop_valid m b" and r: "and_result m a b r"
  shows "\<exists>g. Hop_And m a b = Inr (r, m\<lparr>Ghost := g\<rparr>)"
proof (cases "a = b \<or> a = Hop_Not b \<or> Hop_Regular a = pConst1 m \<or> Hop_Regular b = pConst1 m")
  case True
  have "m = m\<lparr>Ghost := Ghost m\<rparr>" by simp
  moreover have "Hop_And m a b = Inr (r, m)"
    using True r Hop_pointer_eq [of "Hop_Not b" b] unfolding Hop_And_def and_result_def by auto
  ultimately show ?thesis by metis
next
  case False
  then have n: "a \<noteq> b" "a \<noteq> Hop_Not b" "Hop_Regular a \<noteq> pConst1 m" "Hop_Regular b \<noteq> pConst1 m" by simp_all
  then have ne: "Hop_Regular a \<noteq> Hop_Regular b" using Hop_pointer_eq [of a b] Hop_pointer_eq [of a "Hop_Not b"] by auto
  have rn: "r \<in> nodes m" "pFanin0 (deref m r) = a \<and> pFanin1 (deref m r) = b \<or> pFanin0 (deref m r) = b \<and> pFanin1 (deref m r) = a"
    using r n by (auto simp: and_result_def)
  obtain g c d where g: "Hop_ObjCreateGhost m a b AIG_AND = Inr (m\<lparr>Ghost := g\<rparr>)" "Type_o g = AIG_AND"
    "pFanin0 g = c" "pFanin1 g = d" "and_pair m c d" "c = a \<and> d = b \<or> c = b \<and> d = a"
    using Hop_ObjCreateGhost_val [OF ok ab n(3,4) ne] by blast
  have order: "index (Hop_Regular (pFanin0 (deref m r))) < index (Hop_Regular (pFanin1 (deref m r)))"
    using node_fanins [OF ok rn(1)] by (simp add: fanins_ok_def Let_def)
  have fan: "pFanin0 (deref m r) = c \<and> pFanin1 (deref m r) = d"
    using rn(2) g(6) order and_pairD(8) [OF g(5)] by auto
  obtain s where s: "Hop_TableLookup m g = Inr s"
    "if s = 0 then \<forall>y\<in>nodes m. \<not> (pFanin0 (deref m y) = c \<and> pFanin1 (deref m y) = d)
     else s \<in> nodes m \<and> pFanin0 (deref m s) = c \<and> pFanin1 (deref m s) = d"
    using lookup_pair [OF ok, of g] g by auto
  have "s \<noteq> 0" using s(2) rn(1) fan by (auto split: if_splits)
  then have "s \<in> nodes m" "pFanin0 (deref m s) = c" "pFanin1 (deref m s) = d" using s(2) by simp_all
  then have "same_node (deref m s) (deref m r)"
    using fan rn(1) by (simp add: same_node_def Hop_ObjChild0_def Hop_ObjChild1_def nodes_def)
  then have "s = r" using hop_okD(12) [OF ok] \<open>s \<in> nodes m\<close> rn(1) by blast
  then have "Hop_And m a b = Inr (r, m\<lparr>Ghost := g\<rparr>)"
    using n g(1) s(1) \<open>s \<noteq> 0\<close> by (simp add: Hop_And_def lookup_ghost)
  then show ?thesis by blast
qed

lemma Hop_And_first:
  assumes ok: "hop_ok m" and room: "hop_room m 1" and ab: "hop_valid m a" "hop_valid m b"
    and r: "Hop_And m a b = Inr (r, m')"
  shows "and_result m' a b r"
proof (cases "a = b \<or> a = Hop_Not b \<or> Hop_Regular a = pConst1 m \<or> Hop_Regular b = pConst1 m")
  case True
  then consider "a = b" | "a \<noteq> b" "a = Hop_Not b" | "a \<noteq> b" "a \<noteq> Hop_Not b" "Hop_Regular a = pConst1 m \<or> Hop_Regular b = pConst1 m"
    by blast
  then show ?thesis
  proof cases
    case 3
    then have "m' = m" using r by (auto simp: Hop_And_def split: if_splits)
    then show ?thesis using 3 r unfolding Hop_And_def and_result_def by (auto split: if_splits)
  qed (use r in \<open>auto simp: Hop_And_def and_result_def\<close>)
next
  case False
  then have n: "a \<noteq> b" "a \<noteq> Hop_Not b" "Hop_Regular a \<noteq> pConst1 m" "Hop_Regular b \<noteq> pConst1 m" by simp_all
  then have ne: "Hop_Regular a \<noteq> Hop_Regular b" using Hop_pointer_eq [of a b] Hop_pointer_eq [of a "Hop_Not b"] by auto
  obtain g c d where g: "Hop_ObjCreateGhost m a b AIG_AND = Inr (m\<lparr>Ghost := g\<rparr>)" "Type_o g = AIG_AND"
    "pFanin0 g = c" "pFanin1 g = d" "and_pair m c d" "c = a \<and> d = b \<or> c = b \<and> d = a"
    using Hop_ObjCreateGhost_val [OF ok ab n(3,4) ne] by blast
  obtain s where s: "Hop_TableLookup m g = Inr s"
    "if s = 0 then \<forall>y\<in>nodes m. \<not> (pFanin0 (deref m y) = c \<and> pFanin1 (deref m y) = d)
     else s \<in> nodes m \<and> pFanin0 (deref m s) = c \<and> pFanin1 (deref m s) = d"
    using lookup_pair [OF ok, of g] g by auto
  have start: "Hop_And m a b = (if s \<noteq> 0 then Inr (s, m\<lparr>Ghost := g\<rparr>) else Hop_ObjCreate (m\<lparr>Ghost := g\<rparr>) g)"
    using n g(1) s(1) by (simp add: Hop_And_def lookup_ghost)
  have "pConst1 m' = pConst1 m \<and> r \<in> nodes m' \<and> pFanin0 (deref m' r) = c \<and> pFanin1 (deref m' r) = d"
  proof (cases "s = 0")
    case False
    then show ?thesis using start r s(2) by auto
  next
    case True
    have "hop_ok (m\<lparr>Ghost := g\<rparr>)" "hop_room (m\<lparr>Ghost := g\<rparr>) 1" "and_pair (m\<lparr>Ghost := g\<rparr>) c d"
      "\<forall>y\<in>nodes (m\<lparr>Ghost := g\<rparr>). \<not> (pFanin0 (deref (m\<lparr>Ghost := g\<rparr>) y) = c \<and> pFanin1 (deref (m\<lparr>Ghost := g\<rparr>) y) = d)"
      using ok room g(5) True s(2) by (simp_all add: ghost_and_pair)
    from Hop_ObjCreate_val [OF this g(2-4)] show ?thesis using True start r by (auto simp: extends_def)
  qed
  then show ?thesis using n g(6) by (auto simp: and_result_def)
qed

end
