(* ===== verification/Hop_Subst.thy ===== *)
theory Hop_Subst
  imports Hop_Dfs Hop_Build Kit_Swap
begin

text \<open>
  Substitution in the functions of the AIG package (\<open>src/abc-master/src/aig/hop/hopDfs.c\<close>): composition with a
  function, complementing a variable, changing and permuting the support. Each traverses the cone of a
  function, with the function that replaces a node in the node's field \<open>pData\<close>, and adds nodes to the
  same manager on the way. An array of \<open>int\<close> that the caller gives is a list.
\<close>

section \<open>Operations\<close>

text \<open>The statement \<open>pObj->pData = Hop_And( p, Hop_ObjChild0Copy(pObj), Hop_ObjChild1Copy(pObj) )\<close>.\<close>

definition copy_node :: "nat \<Rightarrow> Hop_Man \<Rightarrow> Hop_Man res" where
  "copy_node pObj p =
    res_bind (Hop_ObjChild0Copy p pObj) (\<lambda>c0. res_bind (Hop_ObjChild1Copy p pObj) (\<lambda>c1.
    res_bind (Hop_And p c0 c1) (\<lambda>(r, p). Inr (set_data pObj r p))))"

primrec Hop_Compose_rec :: "nat \<Rightarrow> nat \<Rightarrow> nat \<Rightarrow> nat \<Rightarrow> Hop_Man \<Rightarrow> Hop_Man res" where
  "Hop_Compose_rec 0 pObj pFunc pVar p = Inl OutOfFuel"
| "Hop_Compose_rec (Suc fuel) pObj pFunc pVar p =
    (if Hop_IsComplement pObj then Inl AssertFailed
     else if Hop_ObjIsMarkA (deref p pObj) then Inr p
     else if Hop_ObjIsConst1 (deref p pObj) \<or> Hop_ObjIsPi (deref p pObj) then
       Inr (set_data pObj (if pObj = pVar then pFunc else pObj) p)
     else
       res_bind (Hop_Compose_rec fuel (Hop_ObjFanin0 (deref p pObj)) pFunc pVar p) (\<lambda>p.
       res_bind (Hop_Compose_rec fuel (Hop_ObjFanin1 (deref p pObj)) pFunc pVar p) (\<lambda>p.
       res_bind (copy_node pObj p) (\<lambda>p.
       if Hop_ObjIsMarkA (deref p pObj) then Inl AssertFailed else Inr (Hop_ObjSetMarkA pObj p)))))"

text \<open>The end of these operations: the marks are taken away, and the replacement of the root is returned.\<close>

definition copy_root :: "nat \<Rightarrow> Hop_Man \<Rightarrow> (nat \<times> Hop_Man) res" where
  "copy_root pRoot p =
    res_bind (Hop_ConeUnmark_rec (length (Objs p)) (Hop_Regular pRoot) p) (\<lambda>p.
    Inr (Hop_NotCond (pData (deref p (Hop_Regular pRoot))) (Hop_IsComplement pRoot), p))"

definition Hop_Compose :: "Hop_Man \<Rightarrow> nat \<Rightarrow> nat \<Rightarrow> nat \<Rightarrow> (nat \<times> Hop_Man) res" where
  "Hop_Compose p pRoot pFunc iVar =
    (if Hop_ManPiNum p \<le> iVar then Inr (0, p)
     else res_bind (Hop_Compose_rec (length (Objs p)) (Hop_Regular pRoot) pFunc (Hop_ManPi p iVar) p) (copy_root pRoot))"

primrec Hop_Complement_rec :: "nat \<Rightarrow> nat \<Rightarrow> nat \<Rightarrow> Hop_Man \<Rightarrow> Hop_Man res" where
  "Hop_Complement_rec 0 pObj pVar p = Inl OutOfFuel"
| "Hop_Complement_rec (Suc fuel) pObj pVar p =
    (if Hop_IsComplement pObj then Inl AssertFailed
     else if Hop_ObjIsMarkA (deref p pObj) then Inr p
     else if Hop_ObjIsConst1 (deref p pObj) \<or> Hop_ObjIsPi (deref p pObj) then
       Inr (set_data pObj (if pObj = pVar then Hop_Not pObj else pObj) p)
     else
       res_bind (Hop_Complement_rec fuel (Hop_ObjFanin0 (deref p pObj)) pVar p) (\<lambda>p.
       res_bind (Hop_Complement_rec fuel (Hop_ObjFanin1 (deref p pObj)) pVar p) (\<lambda>p.
       res_bind (copy_node pObj p) (\<lambda>p.
       if Hop_ObjIsMarkA (deref p pObj) then Inl AssertFailed else Inr (Hop_ObjSetMarkA pObj p)))))"

definition Hop_Complement :: "Hop_Man \<Rightarrow> nat \<Rightarrow> nat \<Rightarrow> (nat \<times> Hop_Man) res" where
  "Hop_Complement p pRoot iVar =
    (if Hop_ManPiNum p \<le> iVar then Inr (0, p)
     else res_bind (Hop_Complement_rec (length (Objs p)) (Hop_Regular pRoot) (Hop_ManPi p iVar) p) (copy_root pRoot))"

primrec Hop_Remap_rec :: "nat \<Rightarrow> nat \<Rightarrow> Hop_Man \<Rightarrow> Hop_Man res" where
  "Hop_Remap_rec 0 pObj p = Inl OutOfFuel"
| "Hop_Remap_rec (Suc fuel) pObj p =
    (if Hop_IsComplement pObj then Inl AssertFailed
     else if \<not> Hop_ObjIsNode (deref p pObj) \<or> Hop_ObjIsMarkA (deref p pObj) then Inr p
     else
       res_bind (Hop_Remap_rec fuel (Hop_ObjFanin0 (deref p pObj)) p) (\<lambda>p.
       res_bind (Hop_Remap_rec fuel (Hop_ObjFanin1 (deref p pObj)) p) (\<lambda>p.
       res_bind (copy_node pObj p) (\<lambda>p.
       if Hop_ObjIsMarkA (deref p pObj) then Inl AssertFailed else Inr (Hop_ObjSetMarkA pObj p)))))"

definition Hop_Remap :: "Hop_Man \<Rightarrow> nat \<Rightarrow> u32 \<Rightarrow> nat \<Rightarrow> (nat \<times> Hop_Man) res" where
  "Hop_Remap p pRoot uSupp nVars =
    (if Hop_ManPiNum p < nVars then Inr (0, p)
     else if Hop_ObjIsConst1 (deref p (Hop_Regular pRoot)) then Inr (pRoot, p)
     else if uSupp = 0 then Inr (Hop_NotCond (Hop_ManConst0 p) (Hop_ObjPhaseCompl p pRoot), p)
     else
       res_bind (run_loop [0..<min nVars (length (vPis p))] (\<lambda>i (k, p).
           if 32 \<le> i then Inl Undefined
           else if uSupp AND push_bit i 1 \<noteq> 0 then
             res_bind (Hop_IthVar p k) (\<lambda>(v, p). Inr (Suc k, set_data (Hop_ManPi p i) v p))
           else Inr (k, set_data (Hop_ManPi p i) (Hop_ManConst0 p) p)) (0, p)) (\<lambda>(k, p).
       if \<not> (0 < k \<and> k < nVars) then Inl AssertFailed
       else res_bind (Hop_Remap_rec (length (Objs p)) (Hop_Regular pRoot) p) (copy_root pRoot)))"

definition Hop_Permute :: "Hop_Man \<Rightarrow> nat \<Rightarrow> nat \<Rightarrow> int list \<Rightarrow> (nat \<times> Hop_Man) res" where
  "Hop_Permute p pRoot nRootVars pPermute =
    (if Hop_ObjIsConst1 (deref p (Hop_Regular pRoot)) then Inr (pRoot, p)
     else
       res_bind (run_loop [0..<min nRootVars (length (vPis p))] (\<lambda>i p.
           if \<not> i < length pPermute then Inl Undefined
           else if \<not> (0 \<le> pPermute ! i \<and> nat (pPermute ! i) < Hop_ManPiNum p) then Inl AssertFailed
           else res_bind (Hop_IthVar p (nat (pPermute ! i))) (\<lambda>(v, p). Inr (set_data (Hop_ManPi p i) v p))) p) (\<lambda>p.
       res_bind (Hop_Remap_rec (length (Objs p)) (Hop_Regular pRoot) p) (copy_root pRoot)))"

section \<open>Copies\<close>

text \<open>The data of \<open>y\<close> in \<open>m\<close> is a pointer whose value is that of \<open>y\<close> in \<open>p\<close> with other values of the inputs.\<close>

definition copy_ok :: "((nat \<Rightarrow> bool) \<Rightarrow> nat \<Rightarrow> bool) \<Rightarrow> Hop_Man \<Rightarrow> Hop_Man \<Rightarrow> nat \<Rightarrow> bool" where
  "copy_ok F p m y \<longleftrightarrow> hop_valid m (pData (deref m y)) \<and> (\<forall>f. ptr_val f m (pData (deref m y)) = obj_val (F f) p y)"

lemma copy_ok_extends:
  assumes "hop_ok m" "extends m m'" "pData (deref m' y) = pData (deref m y)" "copy_ok F p m y"
  shows "copy_ok F p m' y"
  using assms extends_ptr_val [OF assms(1,2)] by (simp add: copy_ok_def)

lemma copy_ok_redecorated:
  assumes "redecorated m m'" "pData (deref m' y) = pData (deref m y)"
  shows "copy_ok F p m' y = copy_ok F p m y"
  using redecorated_ptr_val [OF assms(1)] redecorated_parts(5) [OF assms(1)] by (simp add: copy_ok_def assms(2))

lemma copy_ok_set:
  assumes "obj_at m x" "obj_at m y"
  shows "copy_ok F p (set_data x v m) y =
    (if y = x then hop_valid m v \<and> (\<forall>f. ptr_val f m v = obj_val (F f) p y) else copy_ok F p m y)"
  using marks_deref(6) [OF assms] redecorated_ptr_val [OF redecorated_ops(3)] redecorated_parts(5) [OF redecorated_ops(3)]
  by (simp add: copy_ok_def)

lemma copy_ok_mark:
  assumes "obj_at m x" "obj_at m y"
  shows "copy_ok F p (Hop_ObjSetMarkA x m) y = copy_ok F p m y" "copy_ok F p (Hop_ObjClearMarkA x m) y = copy_ok F p m y"
  using marks_deref(2,4) [OF assms] by (simp_all add: copy_ok_redecorated)

text \<open>A node whose fanins have copies gets one.\<close>

lemma copy_node_val:
  assumes p: "hop_ok p" "x \<in> nodes p" and m: "hop_ok m" "extends p m" "hop_room m 1"
    and c: "copy_ok F p m (fan0 p x)" "copy_ok F p m (fan1 p x)"
  shows "\<exists>r m'. copy_node x m = Inr (set_data x r m') \<and> hop_ok m' \<and> extends m m' \<and> length (Objs m') \<le> length (Objs m) + 1 \<and>
    vPis m' = vPis m \<and> same_data m m' \<and> hop_valid m' r \<and> (\<forall>f. ptr_val f m' r = obj_val (F f) p x)"
proof -
  have x: "obj_at p x" "obj_at m x" using p(2) extends_live [OF m(2), of x] by (auto simp: nodes_def live_def)
  have fan: "pFanin0 (deref m x) = pFanin0 (deref p x)" "pFanin1 (deref m x) = pFanin1 (deref p x)"
    using m(2) x(1) by (simp_all add: extends_def)
  have nz: "fan0 p x \<noteq> 0" "fan1 p x \<noteq> 0" using fanin_facts(1,2) [OF p] by (auto simp: live_def obj_at_def)
  let ?c0 = "Hop_NotCond (pData (deref m (fan0 p x))) (Hop_IsComplement (pFanin0 (deref p x)))"
  let ?c1 = "Hop_NotCond (pData (deref m (fan1 p x))) (Hop_IsComplement (pFanin1 (deref p x)))"
  have copies: "Hop_ObjChild0Copy m x = Inr ?c0" "Hop_ObjChild1Copy m x = Inr ?c1"
    using nz obj_at_regular(2) [OF x(1)]
    by (simp_all add: Hop_ObjChild0Copy_def Hop_ObjChild1Copy_def Hop_ObjFanin0_def Hop_ObjFanin1_def Hop_ObjFaninC0_def Hop_ObjFaninC1_def fan)
  have v: "hop_valid m ?c0" "hop_valid m ?c1" using c by (simp_all add: copy_ok_def)
  have val: "ptr_val f m ?c0 = ptr_val (F f) p (pFanin0 (deref p x))" "ptr_val f m ?c1 = ptr_val (F f) p (pFanin1 (deref p x))" for f
    using c by (simp_all add: copy_ok_def ptr_val_def [of "F f"])
  obtain r m' where a: "Hop_And m ?c0 ?c1 = Inr (r, m')" "hop_new 1 m (r, m') (\<lambda>f. ptr_val f m ?c0 \<and> ptr_val f m ?c1)"
    using Hop_And_new [OF m(1,3) v] by (auto elim: returnsE)
  show ?thesis
    using a(1) a(2) [unfolded val obj_val_node [OF p, symmetric]]
    by (intro exI [of _ r] exI [of _ m']) (simp add: copy_node_def copies hop_new_def)
qed


section \<open>The invariant of a substitution\<close>

text \<open>The nodes with a mark have copies, and the manager has at most one new object for each of them. The
  copies of the inputs are those whose numbers are in \<open>V\<close>.\<close>

definition subst_inv :: "((nat \<Rightarrow> bool) \<Rightarrow> nat \<Rightarrow> bool) \<Rightarrow> nat set \<Rightarrow> Hop_Man \<Rightarrow> nat set \<Rightarrow> Hop_Man \<Rightarrow> bool" where
  "subst_inv F V p C m \<longleftrightarrow> hop_ok p \<and> extends p m \<and> vPis m = vPis p \<and>
     C \<subseteq> nodes p \<and> hop_room p (card C) \<and> marks m \<subseteq> C \<and> length (Objs m) \<le> length (Objs p) + card (marks m) \<and>
     (\<forall>x\<in>C. obj_supp p x \<subseteq> V) \<and> (\<forall>x\<in>marks m. copy_ok F p m x)"

definition leaf_copy :: "((nat \<Rightarrow> bool) \<Rightarrow> nat \<Rightarrow> bool) \<Rightarrow> nat set \<Rightarrow> Hop_Man \<Rightarrow> Hop_Man \<Rightarrow> nat \<Rightarrow> bool" where
  "leaf_copy F V p m y \<longleftrightarrow> (obj_at p y \<longrightarrow> Type_o (deref p y) = AIG_PI \<longrightarrow> pNext (deref p y) \<in> V \<longrightarrow> copy_ok F p m y)"

lemma supp_pi: "Type_o (deref m x) = AIG_PI \<Longrightarrow> obj_supp m x = {pNext (deref m x)}"
  by (subst obj_supp.simps) simp

lemma supp_node:
  assumes "hop_ok m" "x \<in> nodes m"
  shows "obj_supp m x = obj_supp m (fan0 m x) \<union> obj_supp m (fan1 m x)"
  using fanin_facts [OF assms] assms(2) by (subst obj_supp.simps) (simp add: nodes_def)

lemma same_data_marked: "same_data m m' \<Longrightarrow> extends m m' \<Longrightarrow> marks m' = marks m"
  unfolding same_data_def marks_def extends_def by blast

lemma redecorated_supp:
  assumes r: "redecorated m m'"
  shows "obj_supp m' x = obj_supp m x"
proof (induction "index x" arbitrary: x rule: less_induct)
  case less
  note f = redecorated_fields [OF r]
  show ?case
    using less [of "fan0 m x"] less [of "fan1 m x"] by (subst (1 2) obj_supp.simps) (auto simp: f split: Hop_Type.split)
qed

lemma leaf_pi: "hop_ok m \<Longrightarrow> live m x \<Longrightarrow> x \<notin> nodes m \<Longrightarrow> x \<noteq> pConst1 m \<Longrightarrow> Type_o (deref m x) = AIG_PI"
  using hop_okD(5) [of m x] by (auto simp: live_def nodes_def obj_ok_def)

text \<open>One node.\<close>

lemma subst_node:
  assumes m: "hop_ok m" "x \<in> nodes m" "x \<notin> marks m" "x \<in> C" and inv: "subst_inv F V p C m"
    and below: "cone m (fan0 m x) \<union> cone m (fan1 m x) \<subseteq> marks m"
    and leaves: "\<And>q. q = fan0 m x \<or> q = fan1 m x \<Longrightarrow> q \<notin> nodes m \<Longrightarrow> leaf_copy F V p m q"
  shows "\<exists>m'. copy_node x m = Inr m' \<and> keeps m m' \<and> subst_inv F V p C (Hop_ObjSetMarkA x m') \<and>
    (\<forall>y. live m y \<longrightarrow> leaf_copy F V p m y \<longrightarrow> leaf_copy F V p (Hop_ObjSetMarkA x m') y)"
proof -
  have i: "hop_ok p" "extends p m" "vPis m = vPis p" "C \<subseteq> nodes p" "hop_room p (card C)" "marks m \<subseteq> C"
    "length (Objs m) \<le> length (Objs p) + card (marks m)" "\<And>x. x \<in> C \<Longrightarrow> obj_supp p x \<subseteq> V" "\<And>x. x \<in> marks m \<Longrightarrow> copy_ok F p m x"
    using inv by (auto simp: subst_inv_def)
  have xp: "x \<in> nodes p" "obj_at p x" using m(4) i(4) by (auto simp: nodes_def)
  note f = fanin_facts [OF i(1) xp(1)]
  have fan: "fan0 m x = fan0 p x" "fan1 m x = fan1 p x" using extends_fan [OF i(2) xp(2)] by simp_all
  have finC: "finite C" by (rule finite_subset [OF i(4) finite_nodes])
  have "card (marks m) < card C" using m(3,4) i(6) by (intro psubset_card_mono finC) auto
  then have room: "hop_room m 1" using i(5,7) by (simp add: hop_room_def)
  have copy: "copy_ok F p m q" if q: "q = fan0 p x \<or> q = fan1 p x" for q
  proof (cases "q \<in> nodes m")
    case True
    then have "q \<in> marks m" using below cone_node [OF m(1) True] q fan by auto
    then show ?thesis by (rule i(9))
  next
    case False
    have ql: "live p q" "obj_at p q" "q \<noteq> pConst1 p" using q f by (auto simp: live_def)
    then have "q \<notin> nodes p" using False extends_nodes [OF i(2) ql(2)] by simp
    then have pi: "Type_o (deref p q) = AIG_PI" using leaf_pi [OF i(1) ql(1)] ql(3) by blast
    then have "pNext (deref p q) \<in> V" using i(8) [OF m(4)] supp_node [OF i(1) xp(1)] supp_pi [OF pi] q by auto
    then show ?thesis using leaves [of q] q False ql pi by (simp add: leaf_copy_def fan)
  qed
  obtain r m1 where a: "copy_node x m = Inr (set_data x r m1)" "hop_ok m1" "extends m m1" "length (Objs m1) \<le> length (Objs m) + 1"
      "vPis m1 = vPis m" "same_data m m1" "hop_valid m1 r" "\<forall>f. ptr_val f m1 r = obj_val (F f) p x"
    using copy_node_val [OF i(1) xp(1) m(1) i(2) room copy copy] by blast
  let ?d = "set_data x r m1" and ?M = "Hop_ObjSetMarkA x (set_data x r m1)"
  have at1: "obj_at m1 y" if "obj_at m y" for y using that a(3) by (simp add: extends_def)
  have x1: "obj_at m x" "obj_at m1 x" "obj_at ?d x" using m(2) at1 redecorated_fields(8) [OF redecorated_ops(3)] by (auto simp: nodes_def)
  have mark1: "marks m1 = marks m" by (rule same_data_marked [OF a(6,3)])
  have keeps: "keeps m ?d"
    using extends_trans [OF a(3) redecorated_extends] redecorated_ok [OF _ a(2)] marked_ops(3) [OF x1(2)] mark1 by (simp add: keeps_def)
  have mark: "marks ?M = insert x (marks m)" using marked_ops(1) [OF x1(3)] marked_ops(3) [OF x1(2)] mark1 by simp
  have copyM: "copy_ok F p ?M y" if y: "obj_at m y" "y = x \<or> copy_ok F p m y" for y
  proof -
    have yd: "obj_at ?d y" using redecorated_fields(8) [OF redecorated_ops(3)] at1 [OF y(1)] by simp
    have "pData (deref m1 y) = pData (deref m y)" using a(6) y(1) by (simp add: same_data_def)
    then have "copy_ok F p m1 y" if "y \<noteq> x" using copy_ok_extends [OF m(1) a(3)] y(2) that by blast
    then have "copy_ok F p ?d y" unfolding copy_ok_set [OF x1(2) at1 [OF y(1)]] using a(7,8) by simp
    then show ?thesis using copy_ok_mark(1) [OF x1(3) yd] by simp
  qed
  have "obj_at m y" if "y \<in> marks m" for y using that by (simp add: marks_def)
  then have "\<forall>y\<in>insert x (marks m). copy_ok F p ?M y" using copyM x1(1) i(9) by blast
  moreover have "length (Objs ?M) \<le> length (Objs p) + card (insert x (marks m))"
    using i(7) a(4) m(3) finite_subset [OF i(6) finC] redecorated_fields(9) [OF redecorated_trans [OF redecorated_ops(3) redecorated_ops(1)]]
    by (simp add: card_insert_if)
  moreover have "vPis ?M = vPis p" using i(3) a(5) redecorated_fields(10) [OF redecorated_trans [OF redecorated_ops(3) redecorated_ops(1)]] by simp
  moreover have "extends p ?M"
    using extends_trans [OF i(2) extends_trans [OF a(3) redecorated_extends]] redecorated_trans [OF redecorated_ops(3) redecorated_ops(1)] by blast
  ultimately have "subst_inv F V p C ?M" unfolding subst_inv_def mark using i(1,4,5,6,8) m(4) by blast
  moreover have "leaf_copy F V p ?M y" if "live m y" "leaf_copy F V p m y" for y
    using that copyM [of y] by (simp add: leaf_copy_def live_def)
  ultimately show ?thesis using a(1) keeps by blast
qed


lemma subst_data:
  assumes inv: "subst_inv F V p C m" and m: "hop_ok m" "obj_at m x" "x \<notin> marks m"
  shows "subst_inv F V p C (set_data x v m)" "keeps m (set_data x v m)"
proof -
  have "copy_ok F p (set_data x v m) y" if "y \<in> marks m" for y
    using that copy_ok_set [OF m(2), of y F p v] m(3) inv by (auto simp: subst_inv_def marks_def)
  then show "subst_inv F V p C (set_data x v m)"
    using inv extends_trans [OF _ redecorated_extends [OF redecorated_ops(3)]] redecorated_fields(9,10) [OF redecorated_ops(3)]
    unfolding subst_inv_def marked_ops(3) [OF m(2)] by auto
  show "keeps m (set_data x v m)" using keeps_redecorated [OF m(1) redecorated_ops(3)] marked_ops(3) [OF m(2)] by blast
qed

lemma leaf_copy_set:
  assumes "obj_at m x" "obj_at m y" "y \<noteq> x"
  shows "leaf_copy F V p (set_data x v m) y = leaf_copy F V p m y"
  using copy_ok_set [OF assms(1,2)] assms(3) by (simp add: leaf_copy_def)

section \<open>The recursions as instances of the interface of the traversals\<close>

text \<open>What the inputs become in a composition.\<close>

definition composed :: "Hop_Man \<Rightarrow> nat \<Rightarrow> nat \<Rightarrow> (nat \<Rightarrow> bool) \<Rightarrow> nat \<Rightarrow> bool" where
  "composed p pFunc pVar f = f(pNext (deref p pVar) := ptr_val f p pFunc)"

definition compose_args :: "Hop_Man \<Rightarrow> nat \<Rightarrow> nat \<Rightarrow> bool" where
  "compose_args p pFunc pVar \<longleftrightarrow> hop_valid p pFunc \<and> obj_at p pVar \<and> Type_o (deref p pVar) = AIG_PI"

lemma pi_val: "Type_o (deref m x) = AIG_PI \<Longrightarrow> obj_val f m x = f (pNext (deref m x))"
  by (subst obj_val.simps) simp

lemma pi_unique:
  assumes "hop_ok m" "obj_at m x" "Type_o (deref m x) = AIG_PI" "obj_at m y" "Type_o (deref m y) = AIG_PI"
  shows "pNext (deref m x) = pNext (deref m y) \<longleftrightarrow> x = y"
proof -
  have "vPis m ! pNext (deref m x) = x" "vPis m ! pNext (deref m y) = y"
    using hop_okD(5) [OF assms(1,2)] hop_okD(5) [OF assms(1,4)] assms(3,5) by (simp_all add: obj_ok_def nx_def)
  then show ?thesis by metis
qed

lemma compose_leaf:
  assumes m: "hop_ok m" "live m x" "x \<notin> nodes m" "x \<notin> marks m" and inv: "subst_inv (composed p pFunc pVar) UNIV p C m"
    and args: "compose_args p pFunc pVar"
  shows "leaf_copy (composed p pFunc pVar) UNIV p (set_data x (if x = pVar then pFunc else x) m) x"
  unfolding leaf_copy_def
proof (intro impI)
  let ?v = "if x = pVar then pFunc else x"
  assume x: "obj_at p x" "Type_o (deref p x) = AIG_PI"
  have p: "hop_ok p" "extends p m" using inv by (simp_all add: subst_inv_def)
  have a: "hop_valid p pFunc" "obj_at p pVar" "Type_o (deref p pVar) = AIG_PI" using args by (simp_all add: compose_args_def)
  have xv: "hop_valid p x" using x obj_at_regular(1) [OF x(1)] by (simp add: hop_valid_def live_def)
  then have pv: "hop_valid p ?v" using a(1) by simp
  have "ptr_val f p ?v = obj_val (composed p pFunc pVar f) p x" for f
  proof (cases "x = pVar")
    case True
    then show ?thesis using pi_val [OF x(2)] by (simp add: composed_def)
  next
    case False
    then have "pNext (deref p x) \<noteq> pNext (deref p pVar)" using pi_unique [OF p(1) x a(2,3)] by blast
    then show ?thesis using False pi_val [OF x(2)] obj_at_regular [OF x(1)] by (simp add: composed_def ptr_val_def)
  qed
  then have v: "hop_valid m ?v \<and> (\<forall>f. ptr_val f m ?v = obj_val (composed p pFunc pVar f) p x)"
    using extends_ptr_val [OF p pv] by metis
  have at: "obj_at m x" using m(2) by (simp add: live_def)
  show "copy_ok (composed p pFunc pVar) p (set_data x ?v m) x"
    using v by (simp only: copy_ok_set [OF at at] refl if_True simp_thms)
qed

interpretation compose: traversal "\<lambda>n x (m, u). res_bind (Hop_Compose_rec n x pFunc pVar m) (\<lambda>m. Inr (m, u))"
  "\<lambda>x (m, u). res_bind (copy_node x m) (\<lambda>m. Inr (m, u))"
  "\<lambda>C (m, u :: unit). compose_args p pFunc pVar \<and> subst_inv (composed p pFunc pVar) UNIV p C m"
  "\<lambda>(m, u). leaf_copy (composed p pFunc pVar) UNIV p m" for p pFunc pVar
proof (unfold_locales, goal_cases)
  case (1 x m s n)
  then show ?case using node_guards [of x m] by simp
next
  case (2 m x C s n)
  let ?v = "if x = pVar then pFunc else x"
  have x: "obj_at m x" "\<not> Hop_IsComplement x" using 2(2) by (auto simp: live_def)
  have "\<not> Hop_ObjIsMarkA (deref m x)" using 2(4) x by (simp add: marks_def Hop_ObjIsMarkA_def)
  moreover have "Hop_ObjIsConst1 (deref m x) \<or> Hop_ObjIsPi (deref m x)"
    using 2(2,3) by (auto simp: live_def nodes_def Hop_ObjIsConst1_def Hop_ObjIsPi_def)
  ultimately have eq: "Hop_Compose_rec (Suc n) x pFunc pVar m = Inr (set_data x ?v m)" using x(2) by simp
  have inv: "compose_args p pFunc pVar" "subst_inv (composed p pFunc pVar) UNIV p C m" using 2(5) by simp_all
  note leaf = compose_leaf [OF 2(1-4) inv(2,1)]
  have "leaf_copy (composed p pFunc pVar) UNIV p (set_data x ?v m) y"
    if "live m y" "leaf_copy (composed p pFunc pVar) UNIV p m y" for y
    using that leaf leaf_copy_set [OF x(1), of y] by (cases "y = x") (simp_all add: live_def)
  then show ?case using eq subst_data [OF inv(2) 2(1) x(1) 2(4)] leaf inv(1) by simp
next
  case (3 x m n s)
  then have "\<not> Hop_ObjIsConst1 (deref m x)" "\<not> Hop_ObjIsPi (deref m x)" by (simp_all add: nodes_def Hop_ObjIsConst1_def Hop_ObjIsPi_def)
  then show ?case
    using node_guards [of x m] 3
    by (simp add: res_bind_assoc Hop_ObjFanin0_def Hop_ObjFanin1_def Hop_ObjIsMarkA_def if_distrib [of "\<lambda>r. res_bind r f" for f] cong: if_cong)
next
  case (4 m x C s)
  then have inv: "compose_args p pFunc pVar" "subst_inv (composed p pFunc pVar) UNIV p C m" by simp_all
  have "leaf_copy (composed p pFunc pVar) UNIV p m q" if "q = fan0 m x \<or> q = fan1 m x" "q \<notin> nodes m" for q
    using 4(7) [OF that] by simp
  then obtain m' where "copy_node x m = Inr m'" "keeps m m'" "subst_inv (composed p pFunc pVar) UNIV p C (Hop_ObjSetMarkA x m')"
      "\<forall>y. live m y \<longrightarrow> leaf_copy (composed p pFunc pVar) UNIV p m y \<longrightarrow> leaf_copy (composed p pFunc pVar) UNIV p (Hop_ObjSetMarkA x m') y"
    using subst_node [OF 4(1-4) inv(2) 4(6)] by blast
  then show ?case using inv(1) by simp
qed


interpretation remap: traversal "\<lambda>n x (m, u). res_bind (Hop_Remap_rec n x m) (\<lambda>m. Inr (m, u))"
  "\<lambda>x (m, u). res_bind (copy_node x m) (\<lambda>m. Inr (m, u))"
  "\<lambda>C (m, u :: unit). subst_inv F V p C m \<and> (\<forall>y. leaf_copy F V p m y)" "\<lambda>(m, u). leaf_copy F V p m" for F V p
proof (unfold_locales, goal_cases)
  case (1 x m s n)
  then show ?case using node_guards [of x m] by simp
next
  case (2 m x C s n)
  then show ?case using leaf_guards [OF 2(1-3)] by (auto simp: keeps_def extends_refl)
next
  case (3 x m n s)
  then show ?case
    using node_guards [of x m]
    by (simp add: res_bind_assoc Hop_ObjFanin0_def Hop_ObjFanin1_def Hop_ObjIsMarkA_def if_distrib [of "\<lambda>r. res_bind r f" for f] cong: if_cong)
next
  case (4 m x C s)
  then have inv: "subst_inv F V p C m" "\<And>y. leaf_copy F V p m y" by simp_all
  then have ext: "extends p m" by (simp add: subst_inv_def)
  obtain m' where m': "copy_node x m = Inr m'" "keeps m m'" "subst_inv F V p C (Hop_ObjSetMarkA x m')"
      "\<And>y. live m y \<Longrightarrow> leaf_copy F V p m y \<Longrightarrow> leaf_copy F V p (Hop_ObjSetMarkA x m') y"
    using subst_node [OF 4(1-4) inv(1) 4(6) inv(2)] by blast
  have "leaf_copy F V p (Hop_ObjSetMarkA x m') y" for y
  proof (cases "obj_at p y \<and> Type_o (deref p y) = AIG_PI")
    case True
    then have "live p y" by (simp add: live_def)
    then show ?thesis using m'(4) inv(2) extends_live [OF ext] by blast
  qed (auto simp: leaf_copy_def)
  then show ?case using m'(1-3) by auto
qed

section \<open>What the substitutions return\<close>

lemma cone_supp: "hop_ok p \<Longrightarrow> live p x \<Longrightarrow> y \<in> cone p x \<Longrightarrow> obj_supp p y \<subseteq> obj_supp p x"
proof (induction "index x" arbitrary: x rule: less_induct)
  case less
  note ok = less.prems(1)
  show ?case
  proof (cases "x \<in> nodes p")
    case True
    note f = fanin_facts [OF ok True]
    show ?thesis using less.prems(3) less.hyps [OF f(5) ok f(1)] less.hyps [OF f(6) ok f(2)]
      unfolding cone_node [OF ok True] supp_node [OF ok True]
      by (metis Un_iff insertE le_supI1 le_supI2 order_refl supp_node [OF ok True])
  next
    case False
    then show ?thesis using less.prems cone_leaf [OF False] by (simp add: live_def)
  qed
qed

lemma subst_start:
  assumes "hop_ok p" "extends p m" "vPis m = vPis p" "length (Objs m) = length (Objs p)" "marks m = {}"
    "live p x" "hop_room p (card (cone p x))" "obj_supp p x \<subseteq> V"
  shows "subst_inv F V p (cone p x) m"
  using assms cone_supp [OF assms(1,6)] cone_sub(1) [OF assms(1,6)] unfolding subst_inv_def by auto

lemma copy_root_val:
  assumes m: "hop_ok m" "hop_valid m q" "marks m = cone m (Hop_Regular q)" and c: "copy_ok F p m (Hop_Regular q)"
  shows "\<exists>r M. copy_root q m = Inr (r, M) \<and> only_marks m M \<and> marks M = {} \<and> hop_valid M r \<and>
    (\<forall>f. ptr_val f M r = ptr_val (F f) p q)"
proof -
  let ?x = "Hop_Regular q"
  have x: "live m ?x" using m(2) by (simp add: hop_valid_def)
  obtain M where M: "Hop_ConeUnmark_rec (length (Objs m)) ?x m = Inr M" "only_marks m M" "marks M = {}"
    using Hop_ConeUnmark_cone [OF m(1) x m(3)] by blast
  have "pData (deref M ?x) = pData (deref m ?x)" using only_marks_data [OF M(2)] x by (simp add: live_def)
  moreover have "redecorated m M" using M(2) by (simp add: only_marks_def)
  ultimately have "copy_ok F p M ?x" using copy_ok_redecorated c by blast
  then show ?thesis using M by (simp add: copy_root_def copy_ok_def ptr_val_def [of "F f" for f])
qed


text \<open>What a substitution promises of its result: the manager extended by at most the size of the cone,
  without marks, and a pointer whose value is that of the root with other values of the inputs.\<close>

definition substituted :: "Hop_Man \<Rightarrow> nat \<Rightarrow> ((nat \<Rightarrow> bool) \<Rightarrow> nat \<Rightarrow> bool) \<Rightarrow> nat \<times> Hop_Man \<Rightarrow> bool" where
  "substituted p q F r \<longleftrightarrow> hop_ok (snd r) \<and> extends p (snd r) \<and> vPis (snd r) = vPis p \<and>
     length (Objs (snd r)) \<le> length (Objs p) + card (cone p (Hop_Regular q)) \<and> marks (snd r) = {} \<and>
     hop_valid (snd r) (fst r) \<and> (\<forall>f. ptr_val f (snd r) (fst r) = ptr_val (F f) p q)"

lemma substituted_root:
  assumes p: "hop_ok p" "hop_valid p q" and m: "hop_ok m" "extends p m" "vPis m = vPis p" "marks m = cone p (Hop_Regular q)"
    "length (Objs m) \<le> length (Objs p) + card (cone p (Hop_Regular q))" and c: "copy_ok F p m (Hop_Regular q)"
  shows "returns (copy_root q m) (substituted p q F)"
proof -
  have x: "live p (Hop_Regular q)" "hop_valid m q" using p(2) extends_live [OF m(2)] by (simp_all add: hop_valid_def)
  have "marks m = cone m (Hop_Regular q)" using extends_cone [OF p(1) m(1,2) x(1)] m(4) by simp
  then obtain r M where M: "copy_root q m = Inr (r, M)" "only_marks m M" "marks M = {}" "hop_valid M r"
      "\<And>f. ptr_val f M r = ptr_val (F f) p q"
    using copy_root_val [OF m(1) x(2) _ c] by blast
  have "redecorated m M" using M(2) by (simp add: only_marks_def)
  then have "length (Objs M) = length (Objs m)" "vPis M = vPis m" "extends m M" "hop_ok M"
    using redecorated_fields(9,10) redecorated_extends redecorated_ok m(1) by blast+
  then show ?thesis using M m extends_trans [OF m(2)] by (simp add: substituted_def)
qed

lemma Hop_Compose_rec_val:
  assumes p: "hop_ok p" "marks p = {}" "hop_valid p q" "hop_room p (card (cone p (Hop_Regular q)))" and a: "compose_args p g z"
    and nc: "Hop_Regular q \<noteq> pConst1 p"
  shows "returns (res_bind (Hop_Compose_rec (length (Objs p)) (Hop_Regular q) g z p) (copy_root q)) (substituted p q (composed p g z))"
proof -
  let ?x = "Hop_Regular q" and ?F = "composed p g z"
  have x: "live p ?x" "obj_at p ?x" using p(3) by (simp_all add: hop_valid_def live_def)
  have start: "subst_inv ?F UNIV p (cone p ?x) p"
    by (rule subst_start [OF p(1) extends_refl refl refl p(2) x(1) p(4) subset_UNIV])
  obtain m u where v: "res_bind (Hop_Compose_rec (length (Objs p)) ?x g z p) (\<lambda>m. Inr (m, ())) = Inr (m, u)" "hop_ok m" "extends p m"
      "marks m = cone p ?x" "subst_inv ?F UNIV p (cone p ?x) m" "?x \<notin> nodes p \<Longrightarrow> leaf_copy ?F UNIV p m ?x"
    using compose.visit_val [of p ?x "cone p ?x" p g z "()" "length (Objs p)", OF p(1) x(1) marks_closed_none [OF p(2)] order_refl _ fuel_nodes [OF x(1)]]
      start a p(2) by auto
  have "copy_ok ?F p m ?x"
  proof (cases "?x \<in> nodes p")
    case True
    then show ?thesis using v(5) cone_node [OF p(1) True] v(4) by (simp add: subst_inv_def)
  next
    case False
    then have "Type_o (deref p ?x) = AIG_PI" using leaf_pi [OF p(1) x(1) _ nc] by blast
    then show ?thesis using v(6) [OF False] x(2) by (simp add: leaf_copy_def)
  qed
  moreover have "vPis m = vPis p" "length (Objs m) \<le> length (Objs p) + card (cone p ?x)" using v(4,5) by (simp_all add: subst_inv_def)
  moreover have "Hop_Compose_rec (length (Objs p)) ?x g z p = Inr m" using v(1) by (auto simp: res_bind_Inr)
  ultimately show ?thesis using substituted_root [OF p(1,3) v(2,3) _ v(4)] by simp
qed

lemma Hop_Compose_val:
  assumes p: "hop_ok p" "marks p = {}" "hop_valid p q" "hop_room p (card (cone p (Hop_Regular q)))"
    and g: "hop_valid p g" and i: "i < Hop_ManPiNum p"
  shows "returns (Hop_Compose p q g i) (substituted p q (\<lambda>f. f(i := ptr_val f p g)))"
proof -
  have i': "i < length (vPis p)" using i hop_okD(6) [OF p(1)] by (simp add: Hop_ManPiNum_def)
  have z: "obj_at p (Hop_ManPi p i)" "Type_o (deref p (Hop_ManPi p i)) = AIG_PI" "pNext (deref p (Hop_ManPi p i)) = i"
    using hop_okD(11) [OF p(1) i'] by (simp_all add: Hop_ManPi_def nx_def)
  then have a: "compose_args p g (Hop_ManPi p i)" using g by (simp add: compose_args_def)
  have F: "composed p g (Hop_ManPi p i) = (\<lambda>f. f(i := ptr_val f p g))" by (simp add: fun_eq_iff composed_def z(3))
  show ?thesis
  proof (cases "Hop_Regular q = pConst1 p")
    case False
    then show ?thesis using Hop_Compose_rec_val [OF p a] i by (simp add: Hop_Compose_def F)
  next
    case True
    have c: "obj_at p (pConst1 p)" "Type_o (deref p (pConst1 p)) = AIG_CONST1" "live p (pConst1 p)" "cone p (pConst1 p) = {}"
      using const_live [OF p(1)] hop_okD(2,4) [OF p(1)] cone_leaf [of "pConst1 p" p] by (auto simp: live_def nodes_def)
    have len: "length (Objs p) = Suc (length (Objs p) - 1)" using hop_okD(3) [OF p(1)] by simp
    let ?m = "set_data (pConst1 p) (pConst1 p) p"
    have ne: "pConst1 p \<noteq> Hop_ManPi p i" using c(2) z(2) by auto
    have eq: "Hop_Compose_rec (length (Objs p)) (pConst1 p) g (Hop_ManPi p i) p = Inr ?m"
      using c(1,2) ne obj_at_regular(2) [OF c(1)] p(2)
      by (subst len) (simp add: Hop_ObjIsMarkA_def Hop_ObjIsConst1_def, auto simp: marks_def)
    have "copy_ok (\<lambda>f. f(i := ptr_val f p g)) p ?m (pConst1 p)"
      using copy_ok_set [OF c(1,1)] c(3) obj_at_regular [OF c(1)] hop_okD(2) [OF p(1)] obj_val_const [OF p(1)]
      by (simp add: hop_valid_def ptr_val_def)
    then have "returns (copy_root q ?m) (substituted p q (\<lambda>f. f(i := ptr_val f p g)))"
      using substituted_root [OF p(1,3), of ?m] redecorated_ok [OF redecorated_ops(3) p(1)] redecorated_extends [OF redecorated_ops(3)]
        redecorated_fields(9,10) [OF redecorated_ops(3)] marked_ops(3) [OF c(1)] p(2) c(4) True by simp
    then show ?thesis using eq i True by (simp add: Hop_Compose_def)
  qed
qed


text \<open>Complementing a variable is composition with its complement.\<close>

lemma Hop_Complement_rec_compose: "Hop_Complement_rec n x z m = Hop_Compose_rec n x (Hop_Not z) z m"
  by (induction n arbitrary: x m) (simp_all cong: res_bind_cong)

lemma Hop_Complement_val:
  assumes p: "hop_ok p" "marks p = {}" "hop_valid p q" "hop_room p (card (cone p (Hop_Regular q)))" and i: "i < Hop_ManPiNum p"
  shows "returns (Hop_Complement p q i) (substituted p q (\<lambda>f. f(i := \<not> f i)))"
proof -
  let ?z = "Hop_ManPi p i"
  have "i < length (vPis p)" using i hop_okD(6) [OF p(1)] by (simp add: Hop_ManPiNum_def)
  then have z: "obj_at p ?z" "Type_o (deref p ?z) = AIG_PI" "pNext (deref p ?z) = i"
    using hop_okD(11) [OF p(1)] by (simp_all add: Hop_ManPi_def nx_def)
  have "hop_valid p (Hop_Not ?z)" using z obj_at_regular [OF z(1)] by (simp add: hop_valid_def live_def)
  moreover have "ptr_val f p (Hop_Not ?z) = (\<not> f i)" for f
    using pi_val [OF z(2)] z(3) obj_at_regular [OF z(1)] by (simp add: ptr_val_def)
  ultimately have "returns (Hop_Compose p q (Hop_Not ?z) i) (substituted p q (\<lambda>f. f(i := \<not> f i)))"
    using Hop_Compose_val [OF p _ i, of "Hop_Not ?z"] by simp
  then show ?thesis using i by (simp add: Hop_Complement_def Hop_Compose_def Hop_Complement_rec_compose)
qed

text \<open>The copies of the inputs with numbers below \<open>n\<close> are in place.\<close>

definition leaves_set :: "Hop_Man \<Rightarrow> nat \<Rightarrow> (nat \<Rightarrow> nat) \<Rightarrow> Hop_Man \<Rightarrow> bool" where
  "leaves_set p n T m \<longleftrightarrow> redecorated p m \<and> marks m = marks p \<and> (\<forall>j<n. pData (deref m (vPis p ! j)) = T j)"

lemma leaves_set_Suc:
  assumes "hop_ok p" "leaves_set p n T m" "n < length (vPis p)"
  shows "leaves_set p (Suc n) T (set_data (vPis p ! n) (T n) m)"
proof -
  have m: "redecorated p m" "marks m = marks p" using assms(2) by (simp_all add: leaves_set_def)
  have at: "obj_at m (vPis p ! j)" "vPis p ! j = vPis p ! n \<longleftrightarrow> j = n" if "j \<le> n" for j
  proof -
    have j: "j < length (vPis p)" using assms(3) that by simp
    have a: "obj_at p (vPis p ! j)" "nx p (vPis p ! j) = j" "nx p (vPis p ! n) = n"
      using hop_okD(11) [OF assms(1) j] hop_okD(11) [OF assms(1,3)] by simp_all
    show "obj_at m (vPis p ! j)" using a(1) redecorated_fields(8) [OF m(1)] by simp
    show "vPis p ! j = vPis p ! n \<longleftrightarrow> j = n" using a(2,3) by metis
  qed
  have "pData (deref (set_data (vPis p ! n) (T n) m) (vPis p ! j)) = T j" if "j < Suc n" for j
  proof -
    have j: "j \<le> n" using that by simp
    show ?thesis
      unfolding marks_deref(6) [OF at(1) [OF order_refl] at(1) [OF j]] at(2) [OF j]
      using assms(2) j by (cases "j = n") (simp_all add: leaves_set_def)
  qed
  then show ?thesis
    using redecorated_trans [OF m(1) redecorated_ops(3)] marked_ops(3) [OF at(1) [OF order_refl]] m(2) by (simp add: leaves_set_def)
qed

lemma leaves_set_copy:
  assumes p: "hop_ok p" and m: "leaves_set p n T m" and T: "\<And>i. i < n \<Longrightarrow> i < length (vPis p) \<Longrightarrow> hop_valid p (T i) \<and> (\<forall>f. ptr_val f p (T i) = F f i)"
  shows "leaf_copy F {..<n} p m y"
  unfolding leaf_copy_def
proof (intro impI)
  let ?i = "pNext (deref p y)"
  assume y: "obj_at p y" "Type_o (deref p y) = AIG_PI" "?i \<in> {..<n}"
  have i: "?i < length (vPis p)" "vPis p ! ?i = y" using hop_okD(5) [OF p y(1)] y(2) by (simp_all add: obj_ok_def nx_def)
  have r: "redecorated p m" and d: "pData (deref m y) = T ?i" using m y(3) i(2) by (auto simp: leaves_set_def)
  show "copy_ok F p m y"
    using T [of ?i] y(3) i(1) pi_val [OF y(2)] by (simp add: copy_ok_def d redecorated_ptr_val [OF r] redecorated_parts(5) [OF r])
qed

lemma Hop_IthVar_old: "hop_ok m \<Longrightarrow> i < length (vPis m) \<Longrightarrow> Hop_IthVar m i = Inr (vPis m ! i, m)"
  using hop_okD(6) [of m] by (simp add: Hop_IthVar_def Hop_ManPiNum_def Hop_ManPi_def)

lemma Hop_Remap_rec_val:
  assumes p: "hop_ok p" "marks p = {}" "hop_valid p q" "hop_room p (card (cone p (Hop_Regular q)))"
    and nc: "Hop_Regular q \<noteq> pConst1 p" and V: "obj_supp p (Hop_Regular q) \<subseteq> {..<n}"
    and m0: "leaves_set p k T m0" "n \<le> k \<or> length (vPis p) \<le> k"
    and T: "\<And>i. i < k \<Longrightarrow> i < length (vPis p) \<Longrightarrow> hop_valid p (T i) \<and> (\<forall>f. ptr_val f p (T i) = F f i)"
  shows "returns (res_bind (Hop_Remap_rec (length (Objs m0)) (Hop_Regular q) m0) (copy_root q)) (substituted p q F)"
proof -
  let ?x = "Hop_Regular q"
  have x: "live p ?x" "obj_at p ?x" using p(3) by (simp_all add: hop_valid_def live_def)
  have r: "redecorated p m0" "marks m0 = {}" using m0(1) p(2) by (simp_all add: leaves_set_def)
  note fields = redecorated_fields [OF r(1)] and ext = redecorated_extends [OF r(1)] and ok0 = redecorated_ok [OF r(1) p(1)]
  have start: "subst_inv F {..<n} p (cone p ?x) m0"
    by (rule subst_start [OF p(1) ext fields(10,9) r(2) x(1) p(4) V])
  have leaves: "leaf_copy F {..<n} p m0 y" for y
  proof -
    have "leaf_copy F {..<k} p m0 y" by (rule leaves_set_copy [OF p(1) m0(1) T])
    moreover have "pNext (deref p y) < length (vPis p)" if "obj_at p y" "Type_o (deref p y) = AIG_PI"
      using hop_okD(5) [OF p(1) that(1)] that(2) by (simp add: obj_ok_def nx_def)
    ultimately show ?thesis using m0(2) unfolding leaf_copy_def by fastforce
  qed
  have x0: "live m0 ?x" "cone m0 ?x = cone p ?x" using extends_live [OF ext x(1)] extends_cone [OF p(1) ok0 ext x(1)] by simp_all
  obtain m u where v: "res_bind (Hop_Remap_rec (length (Objs m0)) ?x m0) (\<lambda>m. Inr (m, ())) = Inr (m, u)" "hop_ok m" "extends m0 m"
      "marks m = cone p ?x" "subst_inv F {..<n} p (cone p ?x) m" "\<forall>y. leaf_copy F {..<n} p m y"
    using remap.visit_val [of m0 ?x "cone p ?x" F "{..<n}" p "()" "length (Objs m0)", OF ok0 x0(1) marks_closed_none [OF r(2)] _ _ fuel_nodes [OF x0(1)]]
      start leaves r(2) x0(2) by auto
  have "copy_ok F p m ?x"
  proof (cases "?x \<in> nodes p")
    case True
    then show ?thesis using v(5) cone_node [OF p(1) True] v(4) by (simp add: subst_inv_def)
  next
    case False
    then have pi: "Type_o (deref p ?x) = AIG_PI" using leaf_pi [OF p(1) x(1) _ nc] by blast
    then show ?thesis using v(6) x(2) V supp_pi [OF pi] by (auto simp: leaf_copy_def)
  qed
  moreover have "vPis m = vPis p" "length (Objs m) \<le> length (Objs p) + card (cone p ?x)" using v(4,5) by (simp_all add: subst_inv_def)
  moreover have "Hop_Remap_rec (length (Objs m0)) ?x m0 = Inr m" using v(1) by (auto simp: res_bind_Inr)
  ultimately show ?thesis using substituted_root [OF p(1,3) v(2) extends_trans [OF ext v(3)] _ v(4)] by simp
qed


text \<open>The inputs of a support are numbered from 0 by the rank of their bits.\<close>

lemma remap_loop:
  assumes p: "hop_ok p" and n: "n \<le> length (vPis p)" "n \<le> 32"
  shows "\<exists>m. run_loop [0..<n] (\<lambda>i (k, p).
      if 32 \<le> i then Inl Undefined
      else if s AND push_bit i 1 \<noteq> 0 then res_bind (Hop_IthVar p k) (\<lambda>(v, p). Inr (Suc k, set_data (Hop_ManPi p i) v p))
      else Inr (k, set_data (Hop_ManPi p i) (Hop_ManConst0 p) p)) (0, p) = Inr (rank s n, m) \<and>
    leaves_set p n (\<lambda>i. if bit s i then vPis p ! rank s i else Hop_ManConst0 p) m"
  using n
proof (induction n)
  case 0
  then show ?case using redecorated_refl by (simp add: leaves_set_def)
next
  case (Suc n)
  let ?T = "\<lambda>i. if bit s i then vPis p ! rank s i else Hop_ManConst0 p"
  from Suc obtain m where m: "run_loop [0..<n] (\<lambda>i (k, p).
      if 32 \<le> i then Inl Undefined
      else if s AND push_bit i 1 \<noteq> 0 then res_bind (Hop_IthVar p k) (\<lambda>(v, p). Inr (Suc k, set_data (Hop_ManPi p i) v p))
      else Inr (k, set_data (Hop_ManPi p i) (Hop_ManConst0 p) p)) (0, p) = Inr (rank s n, m)" "leaves_set p n ?T m"
    by auto
  have nl: "n < length (vPis p)" "n < 32" using Suc.prems by simp_all
  have r: "redecorated p m" using m(2) by (simp add: leaves_set_def)
  have f: "vPis m = vPis p" "Hop_ManConst0 m = Hop_ManConst0 p" "hop_ok m"
    using redecorated_fields(10,12) [OF r] redecorated_ok [OF r p] by (simp_all add: Hop_ManConst0_def)
  have "rank s n < length (vPis m)" using rank_le [of s n] nl f by simp
  then have var: "Hop_IthVar m (rank s n) = Inr (vPis p ! rank s n, m)" using Hop_IthVar_old [OF f(3)] f(1) by simp
  have b: "s AND push_bit n 1 \<noteq> 0 \<longleftrightarrow> bit s n" by (rule and_bit_nonzero)
  show ?case
    using m(1) leaves_set_Suc [OF p m(2) nl(1)] nl(2)
    by (cases "bit s n") (simp_all add: run_loop_append b var Hop_ManPi_def f del: push_bit_of_1)
qed

lemma Hop_Remap_val:
  assumes p: "hop_ok p" "marks p = {}" "hop_valid p q" "hop_room p (card (cone p (Hop_Regular q)))"
    and n: "n \<le> Hop_ManPiNum p" "n \<le> 32" and V: "obj_supp p (Hop_Regular q) \<subseteq> {..<n}"
    and k: "Hop_Regular q = pConst1 p \<or> s = 0 \<or> 0 < rank s n \<and> rank s n < n"
  shows "returns (Hop_Remap p q s n) (substituted p q (\<lambda>f i. bit s i \<and> f (rank s i)))"
proof -
  let ?F = "\<lambda>f i. bit s i \<and> f (rank s i)" and ?x = "Hop_Regular q"
  have len: "n \<le> length (vPis p)" "length (vPis p) = Hop_ManPiNum p" using n(1) hop_okD(6) [OF p(1)] by (simp_all add: Hop_ManPiNum_def)
  have x: "live p ?x" "obj_at p ?x" using p(3) by (simp_all add: hop_valid_def live_def)
  have c: "hop_valid p (pConst1 p)" "\<And>f. ptr_val f p (pConst1 p)" "Type_o (deref p (pConst1 p)) = AIG_CONST1"
    using const_live [OF p(1)] hop_okD(2,4) [OF p(1)] ptr_val_const [OF p(1)] by (simp_all add: hop_valid_def)
  have const: "Hop_ObjIsConst1 (deref p ?x) \<longleftrightarrow> ?x = pConst1 p"
    using hop_okD(5) [OF p(1) x(2)] c(3) by (auto simp: Hop_ObjIsConst1_def obj_ok_def)
  consider "?x = pConst1 p" | "?x \<noteq> pConst1 p" "s = 0" | "?x \<noteq> pConst1 p" "s \<noteq> 0" "0 < rank s n" "rank s n < n"
    using k by metis
  then show ?thesis
  proof cases
    case 1
    then have "ptr_val f p q = ptr_val g p q" for f g using obj_val_const [OF p(1)] by (simp add: ptr_val_def)
    then have "substituted p q ?F (q, p)" using p extends_refl by (auto simp: substituted_def)
    then show ?thesis using 1 const n(1) by (simp add: Hop_Remap_def)
  next
    case 2
    have "Hop_ObjPhaseCompl p q = ptr_val (\<lambda>_. False) p q"
      using phase_val [OF p(1) x(1)] by (cases "Hop_IsComplement q") (auto simp: Hop_ObjPhaseCompl_def ptr_val_def Hop_Regular_arith Hop_IsComplement_odd)
    moreover have "hop_valid p (Hop_ManConst0 p)" "\<And>f. \<not> ptr_val f p (Hop_ManConst0 p)" using c(1,2) by (simp_all add: Hop_ManConst0_def)
    ultimately have "substituted p q ?F (Hop_NotCond (Hop_ManConst0 p) (Hop_ObjPhaseCompl p q), p)"
      using p 2(2) extends_refl by (simp add: substituted_def)
    then show ?thesis using 2 const n(1) by (simp add: Hop_Remap_def)
  next
    case 3
    let ?T = "\<lambda>i. if bit s i then vPis p ! rank s i else Hop_ManConst0 p"
    obtain m where m: "run_loop [0..<n] (\<lambda>i (k, p).
        if 32 \<le> i then Inl Undefined
        else if s AND push_bit i 1 \<noteq> 0 then res_bind (Hop_IthVar p k) (\<lambda>(v, p). Inr (Suc k, set_data (Hop_ManPi p i) v p))
        else Inr (k, set_data (Hop_ManPi p i) (Hop_ManConst0 p) p)) (0, p) = Inr (rank s n, m)" "leaves_set p n ?T m"
      using remap_loop [OF p(1) len(1) n(2)] by blast
    have T: "hop_valid p (?T i) \<and> (\<forall>f. ptr_val f p (?T i) = ?F f i)" if "i < length (vPis p)" for i
    proof (cases "bit s i")
      case True
      have "rank s i < length (vPis p)" using rank_le [of s i] that by simp
      then show ?thesis using True hop_okD(11) [OF p(1), of "rank s i"] obj_at_regular [of p "vPis p ! rank s i"]
        by (auto simp: hop_valid_def live_def ptr_val_def pi_val nx_def)
    qed (use c in \<open>simp add: Hop_ManConst0_def\<close>)
    have "returns (res_bind (Hop_Remap_rec (length (Objs m)) ?x m) (copy_root q)) (substituted p q ?F)"
      by (rule Hop_Remap_rec_val [OF p 3(1) V m(2) disjI1 [OF order_refl] T])
    then show ?thesis using 3 const n(1) len(1) m(1) by (simp add: Hop_Remap_def min_absorb1)
  qed
qed


lemma permute_loop:
  assumes p: "hop_ok p" and n: "n \<le> length (vPis p)" "n \<le> length \<pi>" "\<forall>i<n. 0 \<le> \<pi> ! i \<and> nat (\<pi> ! i) < Hop_ManPiNum p"
  shows "\<exists>m. run_loop [0..<n] (\<lambda>i p.
      if \<not> i < length \<pi> then Inl Undefined
      else if \<not> (0 \<le> \<pi> ! i \<and> nat (\<pi> ! i) < Hop_ManPiNum p) then Inl AssertFailed
      else res_bind (Hop_IthVar p (nat (\<pi> ! i))) (\<lambda>(v, p). Inr (set_data (Hop_ManPi p i) v p))) p = Inr m \<and>
    leaves_set p n (\<lambda>i. vPis p ! nat (\<pi> ! i)) m"
  using n
proof (induction n)
  case 0
  then show ?case using redecorated_refl by (simp add: leaves_set_def)
next
  case (Suc n)
  from Suc obtain m where m: "run_loop [0..<n] (\<lambda>i p.
      if \<not> i < length \<pi> then Inl Undefined
      else if \<not> (0 \<le> \<pi> ! i \<and> nat (\<pi> ! i) < Hop_ManPiNum p) then Inl AssertFailed
      else res_bind (Hop_IthVar p (nat (\<pi> ! i))) (\<lambda>(v, p). Inr (set_data (Hop_ManPi p i) v p))) p = Inr m"
      "leaves_set p n (\<lambda>i. vPis p ! nat (\<pi> ! i)) m" by auto
  have nl: "n < length (vPis p)" "n < length \<pi>" "0 \<le> \<pi> ! n" "nat (\<pi> ! n) < Hop_ManPiNum p" using Suc.prems by simp_all
  have r: "redecorated p m" using m(2) by (simp add: leaves_set_def)
  have f: "vPis m = vPis p" "Hop_ManPiNum m = Hop_ManPiNum p" "hop_ok m"
    using redecorated_fields(10,13) [OF r] redecorated_ok [OF r p] by (simp_all add: Hop_ManPiNum_def)
  have "nat (\<pi> ! n) < length (vPis m)" using nl(4) hop_okD(6) [OF p] f(1) by (simp add: Hop_ManPiNum_def)
  then have "Hop_IthVar m (nat (\<pi> ! n)) = Inr (vPis p ! nat (\<pi> ! n), m)" using Hop_IthVar_old [OF f(3)] f(1) by simp
  then show ?case using m(1) leaves_set_Suc [OF p m(2) nl(1)] nl by (simp add: run_loop_append Hop_ManPi_def f)
qed

lemma Hop_Permute_val:
  assumes p: "hop_ok p" "marks p = {}" "hop_valid p q" "hop_room p (card (cone p (Hop_Regular q)))"
    and n: "n \<le> Hop_ManPiNum p" "n \<le> length \<pi>" "\<forall>i<n. 0 \<le> \<pi> ! i \<and> nat (\<pi> ! i) < Hop_ManPiNum p"
    and V: "obj_supp p (Hop_Regular q) \<subseteq> {..<n}"
  shows "returns (Hop_Permute p q n \<pi>) (substituted p q (\<lambda>f i. f (nat (\<pi> ! i))))"
proof -
  let ?F = "\<lambda>f i. f (nat (\<pi> ! i))" and ?x = "Hop_Regular q"
  have len: "n \<le> length (vPis p)" "length (vPis p) = Hop_ManPiNum p" using n(1) hop_okD(6) [OF p(1)] by (simp_all add: Hop_ManPiNum_def)
  have x: "live p ?x" "obj_at p ?x" using p(3) by (simp_all add: hop_valid_def live_def)
  have const: "Hop_ObjIsConst1 (deref p ?x) \<longleftrightarrow> ?x = pConst1 p"
    using hop_okD(5) [OF p(1) x(2)] hop_okD(2,4) [OF p(1)] by (auto simp: Hop_ObjIsConst1_def obj_ok_def)
  show ?thesis
  proof (cases "?x = pConst1 p")
    case True
    then have "ptr_val f p q = ptr_val g p q" for f g using obj_val_const [OF p(1)] by (simp add: ptr_val_def)
    then have "substituted p q ?F (q, p)" using p extends_refl by (auto simp: substituted_def)
    then show ?thesis using True const by (simp add: Hop_Permute_def)
  next
    case False
    let ?T = "\<lambda>i. vPis p ! nat (\<pi> ! i)"
    obtain m where m: "run_loop [0..<n] (\<lambda>i p.
        if \<not> i < length \<pi> then Inl Undefined
        else if \<not> (0 \<le> \<pi> ! i \<and> nat (\<pi> ! i) < Hop_ManPiNum p) then Inl AssertFailed
        else res_bind (Hop_IthVar p (nat (\<pi> ! i))) (\<lambda>(v, p). Inr (set_data (Hop_ManPi p i) v p))) p = Inr m" "leaves_set p n ?T m"
      using permute_loop [OF p(1) len(1) n(2,3)] by blast
    have T: "hop_valid p (?T i) \<and> (\<forall>f. ptr_val f p (?T i) = ?F f i)" if "i < n" for i
      using n(3) that len(2) hop_okD(11) [OF p(1), of "nat (\<pi> ! i)"] obj_at_regular [of p "?T i"]
      by (auto simp: hop_valid_def live_def ptr_val_def pi_val nx_def)
    have "returns (res_bind (Hop_Remap_rec (length (Objs m)) ?x m) (copy_root q)) (substituted p q ?F)"
      by (rule Hop_Remap_rec_val [OF p False V m(2) disjI1 [OF order_refl] T])
    then show ?thesis using False const len(1) m(1) by (simp add: Hop_Permute_def min_absorb1)
  qed
qed

end
