(* ===== verification/Hop_Copy.thy ===== *)
theory Hop_Copy
  imports Hop_Subst
begin

text \<open>
  Copying a function from one AIG manager to another (\<open>Hop_Transfer\<close> in \<open>src/abc-master/src/aig/hop/hopDfs.c\<close>).
  The two managers are two values; the comparison of their addresses is an argument. The data fields of
  the source point to objects of the destination.
\<close>

section \<open>Operations\<close>

definition copy_across :: "nat \<Rightarrow> Hop_Man \<times> Hop_Man \<Rightarrow> (Hop_Man \<times> Hop_Man) res" where
  "copy_across pObj s =
    (case s of (pSour, pDest) \<Rightarrow>
     res_bind (Hop_ObjChild0Copy pSour pObj) (\<lambda>c0. res_bind (Hop_ObjChild1Copy pSour pObj) (\<lambda>c1.
     res_bind (Hop_And pDest c0 c1) (\<lambda>(r, pDest). Inr (set_data pObj r pSour, pDest)))))"

primrec Hop_Transfer_rec :: "nat \<Rightarrow> nat \<Rightarrow> Hop_Man \<times> Hop_Man \<Rightarrow> (Hop_Man \<times> Hop_Man) res" where
  "Hop_Transfer_rec 0 pObj s = Inl OutOfFuel"
| "Hop_Transfer_rec (Suc fuel) pObj s =
    (case s of (pSour, pDest) \<Rightarrow>
     if Hop_IsComplement pObj then Inl AssertFailed
     else if \<not> Hop_ObjIsNode (deref pSour pObj) \<or> Hop_ObjIsMarkA (deref pSour pObj) then Inr (pSour, pDest)
     else
       res_bind (Hop_Transfer_rec fuel (Hop_ObjFanin0 (deref pSour pObj)) (pSour, pDest)) (\<lambda>(pSour, pDest).
       res_bind (Hop_Transfer_rec fuel (Hop_ObjFanin1 (deref pSour pObj)) (pSour, pDest)) (\<lambda>(pSour, pDest).
       res_bind (copy_across pObj (pSour, pDest)) (\<lambda>(pSour, pDest).
       if Hop_ObjIsMarkA (deref pSour pObj) then Inl AssertFailed else Inr (Hop_ObjSetMarkA pObj pSour, pDest)))))"

definition Hop_Transfer :: "bool \<Rightarrow> Hop_Man \<Rightarrow> Hop_Man \<Rightarrow> nat \<Rightarrow> nat \<Rightarrow> (nat \<times> Hop_Man \<times> Hop_Man) res" where
  "Hop_Transfer same pSour pDest pRoot nVars =
    (if same then Inr (pRoot, pSour, pDest)
     else if Hop_ObjIsConst1 (deref pSour (Hop_Regular pRoot)) then
       Inr (Hop_NotCond (Hop_ManConst1 pDest) (Hop_IsComplement pRoot), pSour, pDest)
     else
       res_bind (run_loop [0..<min nVars (length (vPis pSour))] (\<lambda>i (pSour, pDest).
           res_bind (Hop_IthVar pDest i) (\<lambda>(v, pDest). Inr (set_data (Hop_ManPi pSour i) v pSour, pDest))) (pSour, pDest)) (\<lambda>(pSour, pDest).
       res_bind (Hop_Transfer_rec (length (Objs pSour)) (Hop_Regular pRoot) (pSour, pDest)) (\<lambda>(pSour, pDest).
       res_bind (copy_root pRoot pSour) (\<lambda>(r, pSour). Inr (r, pSour, pDest)))))"

section \<open>The invariant\<close>

definition twin :: "Hop_Man \<Rightarrow> Hop_Man \<Rightarrow> Hop_Man \<Rightarrow> nat \<Rightarrow> bool" where
  "twin p d m y \<longleftrightarrow> hop_valid d (pData (deref m y)) \<and> (\<forall>f. ptr_val f d (pData (deref m y)) = obj_val f p y)"

definition twin_leaf :: "nat set \<Rightarrow> Hop_Man \<Rightarrow> Hop_Man \<Rightarrow> Hop_Man \<Rightarrow> nat \<Rightarrow> bool" where
  "twin_leaf V p d m y \<longleftrightarrow> (obj_at p y \<longrightarrow> Type_o (deref p y) = AIG_PI \<longrightarrow> pNext (deref p y) \<in> V \<longrightarrow> twin p d m y)"

lemma twin_extends:
  assumes "hop_ok d" "extends d d'" "pData (deref m' y) = pData (deref m y)" "twin p d m y"
  shows "twin p d' m' y"
  using assms extends_ptr_val [OF assms(1,2)] by (simp add: twin_def)

definition transfer_inv :: "nat set \<Rightarrow> Hop_Man \<Rightarrow> Hop_Man \<Rightarrow> nat set \<Rightarrow> Hop_Man \<Rightarrow> Hop_Man \<Rightarrow> bool" where
  "transfer_inv V p d0 C m d \<longleftrightarrow> hop_ok p \<and> redecorated p m \<and> hop_ok d \<and> extends d0 d \<and>
     C \<subseteq> nodes p \<and> hop_room d0 (card C) \<and> marks m \<subseteq> C \<and> length (Objs d) \<le> length (Objs d0) + card (marks m) \<and>
     (\<forall>x\<in>C. obj_supp p x \<subseteq> V) \<and> (\<forall>x\<in>marks m. twin p d m x) \<and> (\<forall>y. twin_leaf V p d m y)"

lemma transfer_node:
  assumes m: "hop_ok m" "x \<in> nodes m" "x \<notin> marks m" "x \<in> C" and inv: "transfer_inv V p d0 C m d"
    and below: "cone m (fan0 m x) \<union> cone m (fan1 m x) \<subseteq> marks m"
  shows "\<exists>m' d'. copy_across x (m, d) = Inr (m', d') \<and> keeps m m' \<and> transfer_inv V p d0 C (Hop_ObjSetMarkA x m') d'"
proof -
  have i: "hop_ok p" "redecorated p m" "hop_ok d" "extends d0 d" "C \<subseteq> nodes p" "hop_room d0 (card C)" "marks m \<subseteq> C"
    "length (Objs d) \<le> length (Objs d0) + card (marks m)" "\<And>x. x \<in> C \<Longrightarrow> obj_supp p x \<subseteq> V" "\<And>x. x \<in> marks m \<Longrightarrow> twin p d m x"
    "\<And>y. twin_leaf V p d m y"
    using inv by (simp_all add: transfer_inv_def)
  note fields = redecorated_fields [OF i(2)] and parts = redecorated_parts [OF i(2)]
  have xp: "x \<in> nodes p" "obj_at p x" "obj_at m x" using m(2) parts(1) by (simp_all add: nodes_def fields)
  note f = fanin_facts [OF i(1) xp(1)]
  have finC: "finite C" by (rule finite_subset [OF i(5) finite_nodes])
  have "card (marks m) < card C" using m(3,4) i(7) by (intro psubset_card_mono finC) auto
  then have room: "hop_room d 1" using i(6,8) by (simp add: hop_room_def)
  have copy: "twin p d m q" if q: "q = fan0 p x \<or> q = fan1 p x" for q
  proof (cases "q \<in> nodes m")
    case True
    then have "q \<in> marks m" using below cone_node [OF m(1) True] q by (auto simp: fields)
    then show ?thesis by (rule i(10))
  next
    case False
    have ql: "live p q" "obj_at p q" "q \<noteq> pConst1 p" using q f by (auto simp: live_def)
    then have pi: "Type_o (deref p q) = AIG_PI" using leaf_pi [OF i(1) ql(1)] False parts(1) ql(3) by blast
    then have "pNext (deref p q) \<in> V" using i(9) [OF m(4)] supp_node [OF i(1) xp(1)] supp_pi [OF pi] q by auto
    then show ?thesis using i(11) [of q] ql pi by (simp add: twin_leaf_def)
  qed
  let ?c0 = "Hop_NotCond (pData (deref m (fan0 p x))) (Hop_IsComplement (pFanin0 (deref p x)))"
  let ?c1 = "Hop_NotCond (pData (deref m (fan1 p x))) (Hop_IsComplement (pFanin1 (deref p x)))"
  have nz: "fan0 p x \<noteq> 0" "fan1 p x \<noteq> 0" using f(1,2) by (auto simp: live_def obj_at_def)
  have copies: "Hop_ObjChild0Copy m x = Inr ?c0" "Hop_ObjChild1Copy m x = Inr ?c1"
    using nz obj_at_regular(2) [OF xp(2)]
    by (simp_all add: Hop_ObjChild0Copy_def Hop_ObjChild1Copy_def Hop_ObjFanin0_def Hop_ObjFanin1_def Hop_ObjFaninC0_def Hop_ObjFaninC1_def fields)
  have v: "hop_valid d ?c0" "hop_valid d ?c1" using copy by (simp_all add: twin_def)
  have val: "ptr_val g d ?c0 = ptr_val g p (pFanin0 (deref p x))" "ptr_val g d ?c1 = ptr_val g p (pFanin1 (deref p x))" for g
    using copy [of "fan0 p x"] copy [of "fan1 p x"] by (simp_all add: twin_def ptr_val_def [of g p])
  obtain r d1 where a: "Hop_And d ?c0 ?c1 = Inr (r, d1)" "hop_new 1 d (r, d1) (\<lambda>g. ptr_val g d ?c0 \<and> ptr_val g d ?c1)"
    using Hop_And_new [OF i(3) room v] by (auto elim: returnsE)
  note n = a(2) [unfolded val obj_val_node [OF i(1) xp(1), symmetric] hop_new_def, simplified]
  let ?d = "set_data x r m" and ?M = "Hop_ObjSetMarkA x (set_data x r m)"
  have xd: "obj_at ?d x" using redecorated_fields(8) [OF redecorated_ops(3)] xp(3) by simp
  have mark: "marks ?M = insert x (marks m)" using marked_ops(1) [OF xd] marked_ops(3) [OF xp(3)] by simp
  have data: "pData (deref ?M y) = (if y = x then r else pData (deref m y))" if "obj_at m y" for y
    using marks_deref(2) [OF xd, of y] marks_deref(6) [OF xp(3) that, of r] redecorated_fields(8) [OF redecorated_ops(3)] that by simp
  have twins: "twin p d1 ?M y" if y: "obj_at m y" "y = x \<or> twin p d m y" for y
  proof (cases "y = x")
    case True
    then show ?thesis using n data [OF y(1)] by (simp add: twin_def)
  next
    case False
    then show ?thesis using twin_extends [OF i(3)] n y data [OF y(1)] by simp
  qed
  have mm: "obj_at m y" if "y \<in> marks m" for y using that by (simp add: marks_def)
  have "\<forall>y\<in>insert x (marks m). twin p d1 ?M y" using twins xp(3) i(10) mm by blast
  moreover have "twin_leaf V p d1 ?M y" for y
    using twins [of y] i(11) [of y] fields(8) by (simp add: twin_leaf_def)
  moreover have "length (Objs d1) \<le> length (Objs d0) + card (insert x (marks m))"
    using i(8) n m(3) finite_subset [OF i(7) finC] by (simp add: card_insert_if)
  moreover have "extends d0 d1" using extends_trans [OF i(4)] n by blast
  moreover have "redecorated p ?M" using redecorated_trans [OF i(2) redecorated_trans [OF redecorated_ops(3) redecorated_ops(1)]] .
  moreover have "hop_ok d1" using n by blast
  ultimately have "transfer_inv V p d0 C ?M d1" unfolding transfer_inv_def mark using i(1,5,6,7,9) m(4) by blast
  moreover have "keeps m ?d" using keeps_redecorated [OF m(1) redecorated_ops(3)] marked_ops(3) [OF xp(3)] by blast
  moreover have "copy_across x (m, d) = Inr (?d, d1)" by (simp add: copy_across_def copies a(1))
  ultimately show ?thesis by blast
qed

interpretation transfer: traversal Hop_Transfer_rec copy_across "\<lambda>C (m, d). transfer_inv V p d0 C m d" "\<lambda>_ _. True" for V p d0
proof (unfold_locales, goal_cases)
  case (1 x m s n)
  then show ?case using node_guards [of x m] by simp
next
  case (2 m x C s n)
  then show ?case using leaf_guards [OF 2(1-3)] by (auto simp: keeps_def extends_refl)
next
  case (3 x m n s)
  then show ?case
    using node_guards [of x m] by (simp add: Hop_ObjFanin0_def Hop_ObjFanin1_def Hop_ObjIsMarkA_def split_beta)
next
  case (4 m x C s)
  then show ?case using transfer_node [OF 4(1-4) _ 4(6)] by simp
qed


section \<open>What the copy is\<close>

text \<open>The inputs of the destination.\<close>

lemma transfer_loop:
  assumes p: "hop_ok p" and d: "hop_ok d" and n: "n \<le> length (vPis p)"
  shows "\<exists>m e. run_loop [0..<n] (\<lambda>i (pSour, pDest).
      res_bind (Hop_IthVar pDest i) (\<lambda>(v, pDest). Inr (set_data (Hop_ManPi pSour i) v pSour, pDest))) (p, d) = Inr (m, e) \<and>
    hop_ok e \<and> extends d e \<and> length (Objs e) = length (Objs d) + (n - Hop_ManPiNum d) \<and> length (vPis e) = max (Hop_ManPiNum d) n \<and>
    leaves_set p n (\<lambda>i. vPis e ! i) m"
  using n
proof (induction n)
  case 0
  then show ?case using d redecorated_refl extends_refl hop_okD(6) [OF d] by (simp add: leaves_set_def Hop_ManPiNum_def)
next
  case (Suc n)
  from Suc obtain m e where m: "run_loop [0..<n] (\<lambda>i (pSour, pDest).
      res_bind (Hop_IthVar pDest i) (\<lambda>(v, pDest). Inr (set_data (Hop_ManPi pSour i) v pSour, pDest))) (p, d) = Inr (m, e)"
      "hop_ok e" "extends d e" "length (Objs e) = length (Objs d) + (n - Hop_ManPiNum d)" "length (vPis e) = max (Hop_ManPiNum d) n"
      "leaves_set p n (\<lambda>i. vPis e ! i) m" by auto
  have pe: "Hop_ManPiNum e = max (Hop_ManPiNum d) n" using hop_okD(6) [OF m(2)] m(5) by (simp add: Hop_ManPiNum_def)
  define e' where "e' = fold (\<lambda>v p. snd (Hop_ObjCreatePi p)) [Hop_ManPiNum e..<Suc n] e"
  have e': "hop_ok e'" "extends e e'" "length (Objs e') = length (Objs e) + (Suc n - Hop_ManPiNum e)"
      "length (vPis e') = max (Hop_ManPiNum e) (Suc n)"
    using create_inputs [OF m(2), of "Suc n"] unfolding e'_def by blast+
  have var: "Hop_IthVar e n = Inr (vPis e' ! n, e')" 
    using e'(4) unfolding Hop_IthVar_def Let_def e'_def [symmetric] by (simp add: Hop_ManPi_def)
  have old: "vPis e' ! i = vPis e ! i" if "i < n" for i
  proof -
    have i: "i < length (vPis e)" using that m(5) by simp
    note a = hop_okD(11) [OF m(2) i]
    have at: "obj_at e' (vPis e ! i)" "Type_o (deref e' (vPis e ! i)) = AIG_PI" "nx e' (vPis e ! i) = i"
      using a e'(2) by (simp_all add: extends_def)
    then show ?thesis using hop_okD(5) [OF e'(1) at(1)] by (simp add: obj_ok_def)
  qed
  have r: "redecorated p m" using m(6) by (simp add: leaves_set_def)
  have "leaves_set p n (\<lambda>i. vPis e' ! i) m" using m(6) old by (simp add: leaves_set_def)
  then have "leaves_set p (Suc n) (\<lambda>i. vPis e' ! i) (set_data (vPis p ! n) (vPis e' ! n) m)"
    using leaves_set_Suc [OF p _, of n "\<lambda>i. vPis e' ! i" m] Suc.prems by simp
  moreover have "length (Objs e') = length (Objs d) + (Suc n - Hop_ManPiNum d)" using e'(3) m(4) pe by auto
  moreover have "length (vPis e') = max (Hop_ManPiNum d) (Suc n)" using e'(4) pe by auto
  moreover have "extends d e'" by (rule extends_trans [OF m(3) e'(2)])
  ultimately show ?case using m(1) e'(1) by (simp add: run_loop_append var Hop_ManPi_def redecorated_fields(10) [OF r])
qed

lemma Hop_Transfer_val:
  assumes p: "hop_ok p" "marks p = {}" "hop_valid p q" and d: "hop_ok d" "hop_room d (n + card (cone p (Hop_Regular q)))"
    and n: "n \<le> Hop_ManPiNum p" and V: "obj_supp p (Hop_Regular q) \<subseteq> {..<n}"
  shows "\<exists>r P D. Hop_Transfer False p d q n = Inr (r, P, D) \<and> redecorated p P \<and> marks P = {} \<and>
    hop_made (n + card (cone p (Hop_Regular q))) d (r, D) (\<lambda>f. ptr_val f p q)"
proof -
  let ?x = "Hop_Regular q"
  have x: "live p ?x" "obj_at p ?x" using p(3) by (simp_all add: hop_valid_def live_def)
  have const: "Hop_ObjIsConst1 (deref p ?x) \<longleftrightarrow> ?x = pConst1 p"
    using hop_okD(5) [OF p(1) x(2)] hop_okD(2,4) [OF p(1)] by (auto simp: Hop_ObjIsConst1_def obj_ok_def)
  have len: "n \<le> length (vPis p)" using n hop_okD(6) [OF p(1)] by (simp add: Hop_ManPiNum_def)
  show ?thesis
  proof (cases "?x = pConst1 p")
    case True
    let ?r = "Hop_NotCond (Hop_ManConst1 d) (Hop_IsComplement q)"
    have "hop_made (n + card (cone p ?x)) d (?r, d) (\<lambda>f. ptr_val f p q)"
      using True const_live [OF d(1)] hop_okD(2) [OF d(1)] ptr_val_const [OF d(1)] obj_val_const [OF p(1)]
      by (intro hop_made_same [OF d(1)]) (simp_all add: Hop_ManConst1_def hop_valid_def ptr_val_def [of _ p q])
    then show ?thesis using True const p(2) redecorated_refl by (auto simp: Hop_Transfer_def)
  next
    case False
    obtain m e where m: "run_loop [0..<n] (\<lambda>i (pSour, pDest).
        res_bind (Hop_IthVar pDest i) (\<lambda>(v, pDest). Inr (set_data (Hop_ManPi pSour i) v pSour, pDest))) (p, d) = Inr (m, e)"
        "hop_ok e" "extends d e" "length (Objs e) = length (Objs d) + (n - Hop_ManPiNum d)" "length (vPis e) = max (Hop_ManPiNum d) n"
        "leaves_set p n (\<lambda>i. vPis e ! i) m"
      using transfer_loop [OF p(1) d(1) len] by blast
    have r: "redecorated p m" "marks m = {}" using m(6) p(2) by (simp_all add: leaves_set_def)
    note ok0 = redecorated_ok [OF r(1) p(1)] and ext = redecorated_extends [OF r(1)]
    have leaves: "twin_leaf {..<n} p e m y" for y
      unfolding twin_leaf_def
    proof (intro impI)
      let ?i = "pNext (deref p y)"
      assume y: "obj_at p y" "Type_o (deref p y) = AIG_PI" "?i \<in> {..<n}"
      have "vPis p ! ?i = y" using hop_okD(5) [OF p(1) y(1)] y(2) by (simp add: obj_ok_def nx_def)
      then have dat: "pData (deref m y) = vPis e ! ?i" using m(6) y(3) by (auto simp: leaves_set_def)
      have "?i < length (vPis e)" using y(3) m(5) by simp
      from hop_okD(11) [OF m(2) this] have e: "obj_at e (vPis e ! ?i)" "Type_o (deref e (vPis e ! ?i)) = AIG_PI" "pNext (deref e (vPis e ! ?i)) = ?i"
        by (simp_all add: nx_def)
      then show "twin p e m y" using pi_val [OF y(2)] pi_val [OF e(2)] obj_at_regular [OF e(1)]
        by (simp add: twin_def dat hop_valid_def live_def ptr_val_def)
    qed
    have room: "hop_room e (card (cone p ?x))" using d(2) m(4) by (simp add: hop_room_def)
    have "\<forall>y\<in>cone p ?x. obj_supp p y \<subseteq> {..<n}" using cone_supp [OF p(1) x(1)] V by blast
    then have start: "transfer_inv {..<n} p e (cone p ?x) m e"
      using p(1) r m(2) extends_refl cone_sub(1) [OF p(1) x(1)] room leaves
      unfolding transfer_inv_def by auto
    have x0: "live m ?x" "cone m ?x = cone p ?x" using extends_live [OF ext x(1)] extends_cone [OF p(1) ok0 ext x(1)] by simp_all
    obtain m1 d1 where v: "Hop_Transfer_rec (length (Objs m)) ?x (m, e) = Inr (m1, d1)" "hop_ok m1" "marks m1 = cone p ?x"
        "transfer_inv {..<n} p e (cone p ?x) m1 d1"
      using transfer.visit_val [of m ?x "cone p ?x" "{..<n}" p e e "length (Objs m)", OF ok0 x0(1) marks_closed_none [OF r(2)] _ _ fuel_nodes [OF x0(1)]]
        start r(2) x0(2) by auto
    have i: "redecorated p m1" "hop_ok d1" "extends e d1" "length (Objs d1) \<le> length (Objs e) + card (cone p ?x)"
      "\<And>x. x \<in> marks m1 \<Longrightarrow> twin p d1 m1 x" "\<And>y. twin_leaf {..<n} p d1 m1 y"
      using v(3,4) by (simp_all add: transfer_inv_def)
    have tw: "twin p d1 m1 ?x"
    proof (cases "?x \<in> nodes p")
      case True
      then show ?thesis using i(5) cone_node [OF p(1) True] v(3) by simp
    next
      case no: False
      then have pi: "Type_o (deref p ?x) = AIG_PI" using leaf_pi [OF p(1) x(1)] False by blast
      then show ?thesis using i(6) [of ?x] x(2) V supp_pi [OF pi] by (auto simp: twin_leaf_def)
    qed
    have xm1: "live m1 ?x" "marks m1 = cone m1 ?x"
      using redecorated_parts(3) [OF i(1)] x(1) v(3) extends_cone [OF p(1) v(2) redecorated_extends [OF i(1)] x(1)] by simp_all
    obtain P where P: "Hop_ConeUnmark_rec (length (Objs m1)) ?x m1 = Inr P" "only_marks m1 P" "marks P = {}"
      using Hop_ConeUnmark_cone [OF v(2) xm1] by blast
    let ?r = "Hop_NotCond (pData (deref P ?x)) (Hop_IsComplement q)"
    have dat: "pData (deref P ?x) = pData (deref m1 ?x)" using only_marks_data [OF P(2)] xm1(1) by (simp add: live_def)
    have "hop_made (n + card (cone p ?x)) d (?r, d1) (\<lambda>f. ptr_val f p q)"
      using tw m(4) i(4) by (intro hop_made_extends [OF d(1) i(2) extends_trans [OF m(3) i(3)]])
        (simp_all add: dat twin_def ptr_val_def [of _ p q])
    moreover have "redecorated p P" using redecorated_trans [OF i(1)] P(2) by (simp add: only_marks_def)
    moreover have "Hop_Transfer False p d q n = Inr (?r, P, d1)"
      using False const m(1) len v(1) P(1) by (simp add: Hop_Transfer_def min_absorb1 copy_root_def)
    ultimately show ?thesis using P(3) by blast
  qed
qed

end
