(* ===== verification/Hop_Truth.thy ===== *)
theory Hop_Truth
  imports Hop_Subst
begin

text \<open>
  Truth tables of the functions of at most six variables in the AIG package
  (\<open>Hop_ManComputeTruth6\<close> in \<open>src/abc-master/src/aig/hop/hopTruth.c\<close>). The recursion visits a node once for
  each path that leads to it and uses no marks.
\<close>

section \<open>Operations\<close>

type_synonym u64 = "64 word"

definition Truth6 :: "u64 list" where
  "Truth6 = [0xAAAAAAAAAAAAAAAA, 0xCCCCCCCCCCCCCCCC, 0xF0F0F0F0F0F0F0F0, 0xFF00FF00FF00FF00,
    0xFFFF0000FFFF0000, 0xFFFFFFFF00000000, 0x0000000000000000, 0xFFFFFFFFFFFFFFFF]"

primrec Hop_ManComputeTruth6_rec :: "nat \<Rightarrow> Hop_Man \<Rightarrow> nat \<Rightarrow> u64 res" where
  "Hop_ManComputeTruth6_rec 0 p pObj = Inl OutOfFuel"
| "Hop_ManComputeTruth6_rec (Suc fuel) p pObj =
    (if Hop_ObjIsPi (deref p pObj) then
       if pData (deref p pObj) < length Truth6 then Inr (Truth6 ! pData (deref p pObj)) else Inl Undefined
     else if \<not> Hop_ObjIsNode (deref p pObj) then Inl AssertFailed
     else
       res_bind (Hop_ManComputeTruth6_rec fuel p (Hop_ObjFanin0 (deref p pObj))) (\<lambda>Truth0.
       res_bind (Hop_ManComputeTruth6_rec fuel p (Hop_ObjFanin1 (deref p pObj))) (\<lambda>Truth1.
       let Truth0 = if Hop_ObjFaninC0 (deref p pObj) then NOT Truth0 else Truth0;
           Truth1 = if Hop_ObjFaninC1 (deref p pObj) then NOT Truth1 else Truth1
       in Inr (Truth0 AND Truth1))))"

definition Hop_ManComputeTruth6 :: "Hop_Man \<Rightarrow> nat \<Rightarrow> nat \<Rightarrow> (u64 \<times> Hop_Man) res" where
  "Hop_ManComputeTruth6 p pObj nVars =
    (if Hop_ObjIsConst1 (deref p (Hop_Regular pObj)) then Inr (if Hop_IsComplement pObj then 0 else NOT 0, p)
     else
       res_bind (run_loop [0..<nVars] (\<lambda>i p.
           if \<not> i < length (vPis p) then Inl AssertFailed else Inr (set_data (Hop_ManPi p i) i p)) p) (\<lambda>p.
       res_bind (Hop_ManComputeTruth6_rec (length (Objs p)) p (Hop_Regular pObj)) (\<lambda>Truth.
       Inr (if Hop_IsComplement pObj then NOT Truth else Truth, p))))"

section \<open>What the table is\<close>

lemma Truth6_bit_all: "list_all (\<lambda>i. list_all (\<lambda>k. bit (Truth6 ! i) k = bit k i) [0..<64]) [0..<6]"
  by code_simp

lemma Truth6_bit: "i < 6 \<Longrightarrow> k < 64 \<Longrightarrow> bit (Truth6 ! i) k = bit k i"
  using Truth6_bit_all by (simp only: list_all_iff set_upt) (metis atLeastLessThan_iff zero_le)

lemma Hop_ManComputeTruth6_rec_val:
  assumes ok: "hop_ok m" and x: "live m x" "x \<noteq> pConst1 m" "index x < n"
    and leaves: "\<And>y. obj_at m y \<Longrightarrow> Type_o (deref m y) = AIG_PI \<Longrightarrow> pNext (deref m y) \<in> V \<Longrightarrow> pData (deref m y) = pNext (deref m y)"
    and V: "obj_supp m x \<subseteq> V" "V \<subseteq> {..<6}"
  shows "\<exists>t. Hop_ManComputeTruth6_rec n m x = Inr t \<and> (\<forall>k<64. bit t k = obj_val (bit k) m x)"
  using x V(1)
proof (induction n arbitrary: x)
  case (Suc n)
  show ?case
  proof (cases "x \<in> nodes m")
    case True
    note f = fanin_facts [OF ok True]
    have sub: "obj_supp m (fan0 m x) \<subseteq> V" "obj_supp m (fan1 m x) \<subseteq> V" using Suc.prems(4) supp_node [OF ok True] by simp_all
    have idx: "index (fan0 m x) < n" "index (fan1 m x) < n" using f(5,6) Suc.prems(3) by simp_all
    obtain t0 where t0: "Hop_ManComputeTruth6_rec n m (fan0 m x) = Inr t0" "\<And>k. k < 64 \<Longrightarrow> bit t0 k = obj_val (bit k) m (fan0 m x)"
      using Suc.IH [OF f(1,3) idx(1) sub(1)] by blast
    obtain t1 where t1: "Hop_ManComputeTruth6_rec n m (fan1 m x) = Inr t1" "\<And>k. k < 64 \<Longrightarrow> bit t1 k = obj_val (bit k) m (fan1 m x)"
      using Suc.IH [OF f(2,4) idx(2) sub(2)] by blast
    have "\<not> Hop_ObjIsPi (deref m x)" "Hop_ObjIsNode (deref m x)" using True by (simp_all add: nodes_def Hop_ObjIsPi_def Hop_ObjIsNode_def)
    then show ?thesis
      using t0 t1 obj_val_node [OF ok True]
      by (simp add: Hop_ObjFanin0_def Hop_ObjFanin1_def Hop_ObjFaninC0_def Hop_ObjFaninC1_def ptr_val_def bit_and_iff bit_not_iff)
  next
    case False
    then have pi: "Type_o (deref m x) = AIG_PI" using leaf_pi [OF ok Suc.prems(1) _ Suc.prems(2)] by blast
    have at: "obj_at m x" using Suc.prems(1) by (simp add: live_def)
    have i: "pNext (deref m x) \<in> V" "pNext (deref m x) < 6" using Suc.prems(4) V(2) supp_pi [OF pi] by auto
    then show ?thesis
      using pi pi_val [OF pi] leaves [OF at pi i(1)] Truth6_bit [OF i(2)] by (simp add: Hop_ObjIsPi_def) (simp add: Truth6_def)
  qed
qed simp

lemma truth6_loop:
  assumes p: "hop_ok p" and n: "n \<le> length (vPis p)"
  shows "\<exists>m. run_loop [0..<n] (\<lambda>i p. if \<not> i < length (vPis p) then Inl AssertFailed else Inr (set_data (Hop_ManPi p i) i p)) p = Inr m \<and>
    leaves_set p n (\<lambda>i. i) m"
  using n
proof (induction n)
  case 0
  then show ?case using redecorated_refl by (simp add: leaves_set_def)
next
  case (Suc n)
  from Suc obtain m where m: "run_loop [0..<n] (\<lambda>i p. if \<not> i < length (vPis p) then Inl AssertFailed else Inr (set_data (Hop_ManPi p i) i p)) p = Inr m"
      "leaves_set p n (\<lambda>i. i) m" by auto
  have r: "redecorated p m" using m(2) by (simp add: leaves_set_def)
  show ?case using m(1) leaves_set_Suc [OF p m(2)] Suc.prems by (simp add: run_loop_append Hop_ManPi_def redecorated_fields(10) [OF r])
qed

lemma Hop_ManComputeTruth6_val:
  assumes p: "hop_ok p" "hop_valid p q" and n: "n \<le> Hop_ManPiNum p" "n \<le> 6" and V: "obj_supp p (Hop_Regular q) \<subseteq> {..<n}"
  shows "\<exists>t P. Hop_ManComputeTruth6 p q n = Inr (t, P) \<and> redecorated p P \<and> marks P = marks p \<and>
    (\<forall>k<64. bit t k = ptr_val (bit k) p q)"
proof -
  let ?x = "Hop_Regular q"
  have x: "live p ?x" "obj_at p ?x" using p(2) by (simp_all add: hop_valid_def live_def)
  have const: "Hop_ObjIsConst1 (deref p ?x) \<longleftrightarrow> ?x = pConst1 p"
    using hop_okD(5) [OF p(1) x(2)] hop_okD(2,4) [OF p(1)] by (auto simp: Hop_ObjIsConst1_def obj_ok_def)
  show ?thesis
  proof (cases "?x = pConst1 p")
    case True
    then show ?thesis using const redecorated_refl obj_val_const [OF p(1)] by (simp add: Hop_ManComputeTruth6_def ptr_val_def)
  next
    case False
    have "n \<le> length (vPis p)" using n(1) hop_okD(6) [OF p(1)] by (simp add: Hop_ManPiNum_def)
    from truth6_loop [OF p(1) this] obtain m where
      m: "run_loop [0..<n] (\<lambda>i p. if \<not> i < length (vPis p) then Inl AssertFailed else Inr (set_data (Hop_ManPi p i) i p)) p = Inr m"
        "leaves_set p n (\<lambda>i. i) m" by blast
    have r: "redecorated p m" "marks m = marks p" using m(2) by (simp_all add: leaves_set_def)
    note f = redecorated_fields [OF r(1)] and ok = redecorated_ok [OF r(1) p(1)]
    have supp: "obj_supp m ?x = obj_supp p ?x" by (rule redecorated_supp [OF r(1)])
    have leaves: "pData (deref m y) = pNext (deref m y)"
      if "obj_at m y" "Type_o (deref m y) = AIG_PI" "pNext (deref m y) \<in> {..<n}" for y
    proof -
      have y: "vPis p ! pNext (deref m y) = y" using hop_okD(5) [OF ok that(1)] that(2) f(10) by (simp add: obj_ok_def nx_def)
      have "pData (deref m (vPis p ! pNext (deref m y))) = pNext (deref m y)" using m(2) that(3) by (simp add: leaves_set_def)
      then show ?thesis unfolding y .
    qed
    have xm: "live m ?x" "?x \<noteq> pConst1 m" using redecorated_parts(3) [OF r(1)] x(1) False f(12) by simp_all
    have sub: "obj_supp m ?x \<subseteq> {..<n}" "{..<n} \<subseteq> {..<6}" using V supp n(2) by auto
    obtain t where t: "Hop_ManComputeTruth6_rec (length (Objs m)) m ?x = Inr t" "\<And>k. k < 64 \<Longrightarrow> bit t k = obj_val (bit k) m ?x"
      using Hop_ManComputeTruth6_rec_val [OF ok xm fuel_nodes [OF xm(1)] leaves sub] by blast
    then show ?thesis
      using False const m(1) r redecorated_val [OF r(1)] by (simp add: Hop_ManComputeTruth6_def ptr_val_def bit_not_iff)
  qed
qed

end
