(* ===== verification/Hop_Life.thy ===== *)
theory Hop_Life
  imports Hop_Hashing Hop_Copy Hop_Truth
begin

text \<open>
  The life of an AIG manager: the states that it can reach from \<open>Hop_ManStart\<close> by creating inputs and
  outputs, building conjunctions and cleaning up. An argument of an operation is a pointer to an object
  that is still there, and there is room for one more object.
\<close>

section \<open>Steps\<close>

inductive hop_step :: "Hop_Man \<Rightarrow> Hop_Man \<Rightarrow> bool" where
  create_pi: "Hop_ObjCreatePi m = (x, m') \<Longrightarrow> hop_step m m'"
| create_po: "hop_room m 1 \<Longrightarrow> hop_valid m d \<Longrightarrow> Hop_ObjCreatePo m d = (x, m') \<Longrightarrow> hop_step m m'"
| conj: "hop_room m 1 \<Longrightarrow> hop_valid m a \<Longrightarrow> hop_valid m b \<Longrightarrow> Hop_And m a b = Inr (r, m') \<Longrightarrow> hop_step m m'"
| cleanup: "Hop_ManCleanup m = Inr (n, m') \<Longrightarrow> hop_step m m'"

inductive hop_reach :: "Hop_Man \<Rightarrow> bool" where
  start: "hop_reach Hop_ManStart"
| step: "hop_reach m \<Longrightarrow> hop_step m m' \<Longrightarrow> hop_reach m'"

section \<open>The invariant of all reachable states\<close>

lemma hop_step_ok:
  assumes "hop_step m m'" "hop_ok m" "fRefCount m"
  shows "hop_ok m' \<and> fRefCount m'"
  using assms(1)
proof (cases rule: hop_step.cases)
  case (create_pi x)
  then show ?thesis using Hop_ObjCreatePi_val(2,3) [OF assms(2)] assms(3) by (simp add: extends_def)
next
  case (create_po d x)
  then show ?thesis using Hop_ObjCreatePo_val(1,2) [OF assms(2)] assms(3) by (simp add: extends_def)
next
  case (conj a b r)
  then show ?thesis using Hop_And_new [OF assms(2), of a b] assms(3) by (simp add: hop_new_def extends_def)
next
  case (cleanup n)
  then show ?thesis using Hop_ManCleanup_val [OF assms(2,3)] assms(3) by (auto simp: shrinks_def)
qed

lemma hop_reach_ok: "hop_reach m \<Longrightarrow> hop_ok m \<and> fRefCount m"
proof (induction rule: hop_reach.induct)
  case start
  then show ?case using Hop_ManStart_ok by (simp add: Hop_ManStart_eq)
next
  case (step m m')
  then show ?case using hop_step_ok by blast
qed

end
