(* ===== verification/Kit_Hop.thy ===== *)
theory Kit_Hop
  imports Kit_Factor Hop_Build
begin

text \<open>
  The translation of factored graphs, truth tables and covers to the AIG package
  (\<open>src/abc-master/src/bool/kit/kitHop.c\<close>, the functions for \<open>Hop\<close>).

  The field \<open>pFunc\<close> of a node of the graph holds a pointer of the AIG. The two managers meet here: the
  clients of \<open>Kit_Manager\<close> that build the graph, and the one that rebuilds it with \<open>Hop_And\<close>.
\<close>

section \<open>Operations\<close>

definition hop_node_step :: "nat \<Rightarrow> Kit_Node list \<times> Hop_Man \<Rightarrow> (Kit_Node list \<times> Hop_Man) res" where
  "hop_node_step i = (\<lambda>(ns, pMan).
    let pNode = ns ! i;
        pAnd0 = Hop_NotCond (pFunc (ns ! Node (eEdge0 pNode))) (fCompl (eEdge0 pNode));
        pAnd1 = Hop_NotCond (pFunc (ns ! Node (eEdge1 pNode))) (fCompl (eEdge1 pNode))
    in res_bind (Hop_And pMan pAnd0 pAnd1) (\<lambda>(r, pMan). Inr (ns[i := pNode\<lparr>pFunc := r\<rparr>], pMan)))"

definition Kit_GraphToHopInternal :: "Hop_Man \<Rightarrow> Kit_Graph \<Rightarrow> (nat \<times> Kit_Graph \<times> Hop_Man) res" where
  "Kit_GraphToHopInternal pMan pGraph =
    (if Kit_GraphIsConst pGraph then
       Inr (Hop_NotCond (Hop_ManConst1 pMan) (Kit_GraphIsComplement pGraph), pGraph, pMan)
     else if Kit_GraphIsVar pGraph then
       res_bind (Kit_GraphVarInt pGraph) (\<lambda>v.
         Inr (Hop_NotCond (pFunc (pNodes pGraph ! v)) (Kit_GraphIsComplement pGraph), pGraph, pMan))
     else
       res_bind (run_loop [nLeaves pGraph..<nSize_g pGraph] hop_node_step (pNodes pGraph, pMan)) (\<lambda>(ns, pMan).
         if \<not> nLeaves pGraph < nSize_g pGraph then Inl Undefined
         else Inr (Hop_NotCond (pFunc (ns ! (nSize_g pGraph - 1))) (Kit_GraphIsComplement pGraph), pGraph\<lparr>pNodes := ns\<rparr>, pMan)))"

definition Kit_GraphToHop :: "Hop_Man \<Rightarrow> Kit_Graph \<Rightarrow> (nat \<times> Kit_Graph \<times> Hop_Man) res" where
  "Kit_GraphToHop pMan pGraph =
    res_bind (run_loop [0..<nLeaves pGraph] (\<lambda>i (ns, pMan).
        res_bind (Hop_IthVar pMan i) (\<lambda>(r, pMan). Inr (ns[i := (ns ! i)\<lparr>pFunc := r\<rparr>], pMan))) (pNodes pGraph, pMan)) (\<lambda>(ns, pMan).
      Kit_GraphToHopInternal pMan (pGraph\<lparr>pNodes := ns\<rparr>))"

text \<open>Without memory of the caller, a vector of capacity 0 is used. The null graph is dereferenced.\<close>

definition Kit_TruthToHop :: "Hop_Man \<Rightarrow> words \<Rightarrow> nat \<Rightarrow> nat option \<Rightarrow> (nat \<times> words \<times> Hop_Man) res" where
  "Kit_TruthToHop pMan pTruth nVars vMemory =
    res_bind (Kit_TruthToGraph pTruth nVars (case vMemory of None \<Rightarrow> 0 | Some cap \<Rightarrow> cap)) (\<lambda>(pGraph, pTruth).
      case pGraph of
        None \<Rightarrow> Inl Undefined
      | Some pGraph \<Rightarrow> res_bind (Kit_GraphToHop pMan pGraph) (\<lambda>(pObj, pGraph, pMan). Inr (pObj, pTruth, pMan)))"

definition Kit_CoverToHop :: "Hop_Man \<Rightarrow> u32 list \<Rightarrow> nat \<Rightarrow> Vec_Int \<Rightarrow> (nat \<times> Vec_Int \<times> Hop_Man) res" where
  "Kit_CoverToHop pMan vCover nVars vMemory =
    res_bind (Kit_SopFactor vCover False nVars (vMemory\<lparr>nSize := 0\<rparr>)) (\<lambda>(pGraph, vMemory).
    res_bind (Kit_GraphToHop pMan pGraph) (\<lambda>(pFunc, pGraph, pMan). Inr (pFunc, vMemory, pMan)))"

section \<open>Graphs\<close>

text \<open>What the nodes before \<open>i\<close> hold when the leaves have the functions \<open>L\<close>.\<close>

definition hop_done :: "((nat \<Rightarrow> bool) \<Rightarrow> nat \<Rightarrow> bool) \<Rightarrow> Kit_Graph \<Rightarrow> nat \<Rightarrow> Kit_Node list \<times> Hop_Man \<Rightarrow> bool" where
  "hop_done L g i s \<longleftrightarrow> length (fst s) = nSize_g g \<and> same_edges (nSize_g g) (pNodes g) (fst s) \<and>
     (\<forall>j<i. hop_valid (snd s) (pFunc (fst s ! j)) \<and>
       (\<forall>f. ptr_val f (snd s) (pFunc (fst s ! j)) = node_val (L f) (nLeaves g) (pNodes g) j))"

lemma hop_made_const: "hop_ok m \<Longrightarrow> hop_made 0 m (pConst1 m, m) (\<lambda>_. True)"
  using const_live hop_okD(2) ptr_val_const by (intro hop_made_same) (simp_all add: hop_valid_def)

lemma hop_node_step_done:
  assumes g: "graph_ok g" and i: "nLeaves g \<le> i" "i < nSize_g g"
    and m: "hop_ok p" "hop_room p 1" and d: "hop_done L g i (ns, p)"
  shows "returns (hop_node_step i (ns, p)) (\<lambda>s. hop_done L g (Suc i) s \<and>
    (\<exists>r F. hop_made 1 p (r, snd s) F) \<and> vPis (snd s) = vPis p)"
proof -
  have nodes: "nodes_ok (nLeaves g) (pNodes g)" "i < length (pNodes g)"
    using g i by (auto simp: graph_ok_def nSize_g_def)
  define e0 where "e0 = eEdge0 (pNodes g ! i)"
  define e1 where "e1 = eEdge1 (pNodes g ! i)"
  have e: "eEdge0 (ns ! i) = e0" "eEdge1 (ns ! i) = e1" "length ns = nSize_g g" "same_edges (nSize_g g) (pNodes g) ns"
    using d i by (auto simp: hop_done_def same_edges_def e0_def e1_def)
  have lt: "Node e0 < i" "Node e1 < i"
    using nodes i(1) by (auto simp: nodes_ok_def e0_def e1_def)
  have old: "hop_valid p (pFunc (ns ! j))" "ptr_val f p (pFunc (ns ! j)) = node_val (L f) (nLeaves g) (pNodes g) j" if "j < i" for j f
    using d that by (auto simp: hop_done_def)
  let ?a = "Hop_NotCond (pFunc (ns ! Node e0)) (fCompl e0)" and ?b = "Hop_NotCond (pFunc (ns ! Node e1)) (fCompl e1)"
  have v: "hop_valid p ?a" "hop_valid p ?b" using old(1) lt by simp_all
  obtain r q where rn: "Hop_And p ?a ?b = Inr (r, q)" "hop_new 1 p (r, q) (\<lambda>f. ptr_val f p ?a \<and> ptr_val f p ?b)"
    using Hop_And_new [OF m v] by (auto elim: returnsE)
  note r = rn(1) hop_new_made [OF m(1) rn(2)]
  have pis: "vPis q = vPis p" using rn(2) by (simp add: hop_new_def)
  note D = hop.buildsD [OF r(2)]
  have s: "hop_node_step i (ns, p) = Inr (ns[i := (ns ! i)\<lparr>pFunc := r\<rparr>], q)"
    by (simp add: hop_node_step_def Let_def e r(1))
  have "hop_done L g (Suc i) (ns[i := (ns ! i)\<lparr>pFunc := r\<rparr>], q)"
    unfolding hop_done_def fst_conv snd_conv
  proof (intro conjI allI impI)
    show "length (ns[i := (ns ! i)\<lparr>pFunc := r\<rparr>]) = nSize_g g" using e by simp
    show "same_edges (nSize_g g) (pNodes g) (ns[i := (ns ! i)\<lparr>pFunc := r\<rparr>])"
      using e(4) i e(3) by (auto simp: same_edges_def nth_list_update)
    fix j assume j: "j < Suc i"
    show "hop_valid q (pFunc (ns[i := (ns ! i)\<lparr>pFunc := r\<rparr>] ! j))"
      using j D(3) D(5) [OF old(1) [of j]] i e(3) by (cases "j = i") simp_all
    show "ptr_val f q (pFunc (ns[i := (ns ! i)\<lparr>pFunc := r\<rparr>] ! j)) = node_val (L f) (nLeaves g) (pNodes g) j" for f
    proof (cases "j = i")
      case True
      then show ?thesis
        using D(4) [of f] old(2) lt i e(3) node_val_node [OF nodes(1) i(1) nodes(2), of "L f"] by (simp add: e0_def e1_def)
    next
      case False
      then show ?thesis using j D(6) [OF old(1)] old(2) by simp
    qed
  qed
  then show ?thesis using s r(2) pis by auto
qed

text \<open>The chain of operations is followed with the constant, a pointer that every manager has.\<close>

abbreviation hop_after :: "nat \<Rightarrow> Hop_Man \<Rightarrow> Hop_Man \<Rightarrow> bool" where
  "hop_after k m p \<equiv> hop_made k m (pConst1 m, p) (\<lambda>_. True)"

lemma hop_after_step:
  assumes a: "hop_after j m p" and b: "hop_made k p (r, q) F"
  shows "hop_after (j + k) m q"
proof -
  have "hop_made (j + k) m (r, q) F" by (rule hop.builds_seq [OF a b refl])
  moreover note D = hop.buildsD [OF a] and E = hop.buildsD [OF b]
  ultimately show ?thesis using E(5,6) [OF D(3)] D(4) by (simp add: made_def)
qed

lemma hop_after_made: "hop_after j m p \<Longrightarrow> hop_valid p r \<Longrightarrow> (\<And>f. ptr_val f p r = F f) \<Longrightarrow> hop_made j m (r, p) F"
  by (simp add: made_def)

lemma Kit_GraphToHopInternal_val:
  assumes g: "graph_ok g" "\<not> fConst g" "edge_ok g (eRoot g)" "root_ok g"
    and m: "hop_ok m" "hop_room m (nSize_g g - nLeaves g)"
    and d: "hop_done L g (nLeaves g) (pNodes g, m)"
  shows "returns (Kit_GraphToHopInternal m g) (\<lambda>(r, g', m'). hop_made (nSize_g g - nLeaves g) m (r, m') (\<lambda>f. graph_val (L f) g) \<and>
    vPis m' = vPis m)"
proof (cases "Kit_GraphIsVar g")
  case True
  then have v: "Node (eRoot g) < nLeaves g" by (simp add: Kit_GraphIsVar_def)
  then have "hop_valid m (pFunc (pNodes g ! Node (eRoot g)))" "\<And>f. ptr_val f m (pFunc (pNodes g ! Node (eRoot g))) = L f (Node (eRoot g))"
    using d by (simp_all add: hop_done_def)
  then have "hop_made (nSize_g g - nLeaves g) m (Hop_NotCond (pFunc (pNodes g ! Node (eRoot g))) (fCompl (eRoot g)), m) (\<lambda>f. graph_val (L f) g)"
    using v g(2) by (intro hop_made_same [OF m(1)]) (simp_all add: graph_val_def edge_val_def)
  then show ?thesis
    using True g(2) by (simp add: Kit_GraphToHopInternal_def Kit_GraphIsConst_def Kit_GraphVarInt_def Kit_GraphIsComplement_def)
next
  case False
  then have root: "Suc (Node (eRoot g)) = nSize_g g" "nLeaves g < nSize_g g"
    using g by (auto simp: root_ok_def Kit_GraphIsVar_def edge_ok_def)
  let ?I = "\<lambda>i s. hop_done L g i s \<and> hop_after (i - nLeaves g) m (snd s) \<and> vPis (snd s) = vPis m"
  have "returns (run_loop [nLeaves g..<nSize_g g] hop_node_step (pNodes g, m)) (?I (nSize_g g))"
  proof (rule run_loop_up [where I = ?I])
    show "?I (nLeaves g) (pNodes g, m)" using d hop_made_const [OF m(1)] by simp
    fix i s assume i: "nLeaves g \<le> i" "i < nSize_g g" and s: "?I i s"
    obtain ns p where sp: "s = (ns, p)" by force
    have a: "hop_after (i - nLeaves g) m p" using s by (simp add: sp)
    note D = hop.buildsD [OF a]
    have r: "hop_room p 1" using D(2) [of 1] hop_room_less [OF m(2), of "i - nLeaves g + 1"] i by simp
    have "returns (hop_node_step i (ns, p)) (\<lambda>s. hop_done L g (Suc i) s \<and> (\<exists>r F. hop_made 1 p (r, snd s) F) \<and> vPis (snd s) = vPis p)"
      using s by (intro hop_node_step_done [OF g(1) i D(1) r]) (simp add: sp)
    then show "returns (hop_node_step i s) (?I (Suc i))"
      unfolding sp
    proof (rule returns_mono, elim conjE exE)
      fix s' r F assume s': "hop_done L g (Suc i) s'" "hop_made 1 p (r, snd s') F" "vPis (snd s') = vPis p"
      have n: "Suc i - nLeaves g = i - nLeaves g + 1" using i by simp
      have "vPis p = vPis m" using s by (simp add: sp)
      then show "?I (Suc i) s'" unfolding n using s'(1,3) hop_after_step [OF a s'(2)] by simp
    qed
  qed (use root in simp)
  then obtain ns p where loop: "run_loop [nLeaves g..<nSize_g g] hop_node_step (pNodes g, m) = Inr (ns, p)"
    "hop_done L g (nSize_g g) (ns, p)" "hop_after (nSize_g g - nLeaves g) m p" "vPis p = vPis m"
    by (fastforce elim: returnsE)
  let ?r = "pFunc (ns ! (nSize_g g - 1))"
  have n: "nSize_g g - 1 < nSize_g g" "nSize_g g - 1 = Node (eRoot g)" using root by simp_all
  have "hop_valid p ?r" "\<And>f. ptr_val f p ?r = node_val (L f) (nLeaves g) (pNodes g) (Node (eRoot g))"
    using loop(2) n by (simp_all add: hop_done_def)
  then have "hop_made (nSize_g g - nLeaves g) m (Hop_NotCond ?r (fCompl (eRoot g)), p) (\<lambda>f. graph_val (L f) g)"
    using g(2) by (intro hop_after_made [OF loop(3)]) (simp_all add: graph_val_def edge_val_def)
  then show ?thesis
    using False g(2) loop(1,4) root
    by (simp add: Kit_GraphToHopInternal_def Kit_GraphIsConst_def Kit_GraphIsComplement_def)
qed

text \<open>The leaves become the elementary variables.\<close>

lemma hop_leaves_done:
  assumes g: "graph_ok g" and m: "hop_ok m"
  shows "returns (run_loop [0..<nLeaves g] (\<lambda>i (ns, pMan).
        res_bind (Hop_IthVar pMan i) (\<lambda>(r, pMan). Inr (ns[i := (ns ! i)\<lparr>pFunc := r\<rparr>], pMan))) (pNodes g, m))
    (\<lambda>s. hop_done (\<lambda>f. f) g (nLeaves g) s \<and> hop_after (nLeaves g) m (snd s) \<and>
      Hop_ManPiNum (snd s) = max (Hop_ManPiNum m) (nLeaves g))"
proof -
  let ?I = "\<lambda>i s. hop_done (\<lambda>f. f) g i s \<and> hop_after i m (snd s) \<and> Hop_ManPiNum (snd s) = max (Hop_ManPiNum m) i"
  have "returns (run_loop [0..<nLeaves g] (\<lambda>i (ns, pMan).
        res_bind (Hop_IthVar pMan i) (\<lambda>(r, pMan). Inr (ns[i := (ns ! i)\<lparr>pFunc := r\<rparr>], pMan))) (pNodes g, m)) (?I (nLeaves g))"
  proof (rule run_loop_up [where I = ?I])
    show "?I 0 (pNodes g, m)" using hop_made_const [OF m] by (simp add: hop_done_def same_edges_def nSize_g_def)
    fix i s assume i: "0 \<le> i" "i < nLeaves g" and s: "?I i s"
    obtain ns p where sp: "s = (ns, p)" by force
    have a: "hop_after i m p" "Hop_ManPiNum p = max (Hop_ManPiNum m) i" "hop_done (\<lambda>f. f) g i (ns, p)" using s by (simp_all add: sp)
    have size: "length ns = nSize_g g" "same_edges (nSize_g g) (pNodes g) ns" "i < nSize_g g"
      using a(3) g i by (auto simp: hop_done_def graph_ok_def nodes_ok_def nSize_g_def)
    note D = hop.buildsD [OF a(1)]
    show "returns (case s of (ns, pMan) \<Rightarrow>
        res_bind (Hop_IthVar pMan i) (\<lambda>(r, pMan). Inr (ns[i := (ns ! i)\<lparr>pFunc := r\<rparr>], pMan))) (?I (Suc i))"
      unfolding sp prod.case
    proof (rule returns_bind [OF Hop_IthVar_val [OF D(1), of i]], elim conjE)
      fix x assume x: "hop_made (Suc i - Hop_ManPiNum p) p x (\<lambda>f. f i)" "Hop_ManPiNum (snd x) = max (Hop_ManPiNum p) (Suc i)"
      obtain r q where xr: "x = (r, q)" by force
      have b: "hop_made 1 p (r, q) (\<lambda>f. f i)"
        by (rule hop.builds_mono [OF x(1) [unfolded xr]]) (use a(2) in simp)
      note E = hop.buildsD [OF b]
      let ?ns = "ns[i := (ns ! i)\<lparr>pFunc := r\<rparr>]"
      have old: "hop_valid p (pFunc (ns ! j))" "ptr_val f p (pFunc (ns ! j)) = node_val f (nLeaves g) (pNodes g) j" if "j < i" for j f
        using a(3) that by (auto simp: hop_done_def)
      have val: "hop_valid q (pFunc (?ns ! j)) \<and> (\<forall>f. ptr_val f q (pFunc (?ns ! j)) = node_val f (nLeaves g) (pNodes g) j)" if "j < Suc i" for j
      proof (cases "j = i")
        case True
        then show ?thesis using E(3,4) size i by simp
      next
        case False
        then show ?thesis using that old [of j] E(5,6) by simp
      qed
      have "same_edges (nSize_g g) (pNodes g) ?ns" using size by (auto simp: same_edges_def nth_list_update)
      then have "hop_done (\<lambda>f. f) g (Suc i) (?ns, q)" using val size by (simp add: hop_done_def)
      moreover have "hop_after (Suc i) m q" using hop_after_step [OF a(1) b] by simp
      ultimately show "returns (case x of (r, pMan) \<Rightarrow> Inr (ns[i := (ns ! i)\<lparr>pFunc := r\<rparr>], pMan)) (?I (Suc i))"
        using x(2) a(2) by (simp add: xr max_def)
    qed
  qed simp
  then show ?thesis by (rule returns_mono) simp
qed

lemma node_val_same: "same_edges (nSize_g g) (pNodes g) ns \<Longrightarrow> i < nSize_g g \<Longrightarrow>
   node_val f (nLeaves g) ns i = node_val f (nLeaves g) (pNodes g) i"
  by (rule node_val_frame)

lemma Kit_GraphToHop_val:
  assumes g: "form_ok n g" and m: "hop_ok m" "hop_room m (nSize_g g)"
  shows "returns (Kit_GraphToHop m g) (\<lambda>(r, g', m'). hop_made (nSize_g g) m (r, m') (\<lambda>f. graph_val f g) \<and>
    Hop_ManPiNum m' = max (Hop_ManPiNum m) (nLeaves g))"
proof (cases "fConst g")
  case True
  then have leaves: "nLeaves g = 0" "pNodes g = []" using g by (simp_all add: form_ok_def)
  have "hop_made (nSize_g g) m (Hop_NotCond (pConst1 m) (fCompl (eRoot g)), m) (\<lambda>f. graph_val f g)"
    using const_live [OF m(1)] hop_okD(2) [OF m(1)] ptr_val_const [OF m(1)] True
    by (intro hop_made_same [OF m(1)]) (simp_all add: hop_valid_def graph_val_def)
  then show ?thesis
    using True leaves by (simp add: Kit_GraphToHop_def Kit_GraphToHopInternal_def Kit_GraphIsConst_def Kit_GraphIsComplement_def
      Hop_ManConst1_def nSize_g_def)
next
  case False
  then have ok: "graph_ok g" "edge_ok g (eRoot g)" "root_ok g" using g by (simp_all add: form_ok_def)
  have le: "nLeaves g \<le> nSize_g g" using ok(1) by (simp add: graph_ok_def nodes_ok_def nSize_g_def)
  show ?thesis
    unfolding Kit_GraphToHop_def
  proof (rule returns_bind [OF hop_leaves_done [OF ok(1) m(1)]], elim conjE)
    fix s assume s: "hop_done (\<lambda>f. f) g (nLeaves g) s" "hop_after (nLeaves g) m (snd s)"
      and pi: "Hop_ManPiNum (snd s) = max (Hop_ManPiNum m) (nLeaves g)"
    obtain ns p where sp: "s = (ns, p)" by force
    have ns: "length ns = nSize_g g" "same_edges (nSize_g g) (pNodes g) ns" using s(1) by (simp_all add: hop_done_def sp)
    note D = hop.buildsD [OF s(2) [unfolded sp snd_conv]]
    let ?g = "g\<lparr>pNodes := ns\<rparr>"
    have size: "nSize_g ?g = nSize_g g" using ns(1) by (simp add: nSize_g_def)
    have okg: "graph_ok ?g" using ok(1) ns by (auto simp: graph_ok_def nodes_ok_def nSize_g_def same_edges_def)
    have val: "node_val f (nLeaves g) ns i = node_val f (nLeaves g) (pNodes g) i" if "i < nSize_g g" for f i
      using node_val_same [OF ns(2) that] .
    have gv: "graph_val f ?g = graph_val f g" for f
      using ok(2) False val by (simp add: graph_val_def edge_val_def edge_ok_def)
    have dn: "hop_done (\<lambda>f. f) ?g (nLeaves ?g) (pNodes ?g, p)"
      using s(1) le val ns by (simp add: hop_done_def sp size same_edges_def)
    have r: "hop_room p (nSize_g ?g - nLeaves ?g)" using D(2) [of "nSize_g g - nLeaves g"] m(2) le by (simp add: size)
    have rest: "edge_ok ?g (eRoot ?g)" "root_ok ?g" "\<not> fConst ?g"
      using ok False size by (simp_all add: edge_ok_def root_ok_def)
    show "returns (case s of (ns, pMan) \<Rightarrow> Kit_GraphToHopInternal pMan (g\<lparr>pNodes := ns\<rparr>))
        (\<lambda>(r, g', m'). hop_made (nSize_g g) m (r, m') (\<lambda>f. graph_val f g) \<and> Hop_ManPiNum m' = max (Hop_ManPiNum m) (nLeaves g))"
      unfolding sp prod.case
    proof (rule returns_mono [OF Kit_GraphToHopInternal_val [OF okg rest(3,1,2) D(1) r dn]], clarify)
      fix r g' q assume h: "hop_made (nSize_g ?g - nLeaves ?g) p (r, q) (\<lambda>f. graph_val f ?g)" and v: "vPis q = vPis p"
      from h have b: "hop_made (nSize_g g - nLeaves g) p (r, q) (\<lambda>f. graph_val f g)"
        unfolding size gv by simp
      have "hop_made (nSize_g g) m (r, q) (\<lambda>f. graph_val f g)"
        by (rule hop.builds_seq [OF s(2) [unfolded sp snd_conv] b]) (use le in simp)
      moreover have "Hop_ManPiNum q = Hop_ManPiNum p"
        using hop_okD(6) [OF D(1)] hop_okD(6) [OF hop.buildsD(1) [OF h]] v by (simp add: Hop_ManPiNum_def)
      ultimately show "hop_made (nSize_g g) m (r, q) (\<lambda>f. graph_val f g) \<and> Hop_ManPiNum q = max (Hop_ManPiNum m) (nLeaves g)"
        using pi by (simp add: sp)
    qed
  qed
qed

section \<open>Truth tables and covers\<close>

lemma Kit_TruthToHop_val:
  assumes p: "n \<le> 6" "tt_ok t n" "fun_dep n (tt_fun t n)" and m: "hop_ok m" "hop_room m (n + n * 2 ^ n)"
  shows "\<exists>r m'. Kit_TruthToHop m t n mem = Inr (r, t, m') \<and>
    hop_made (n + n * 2 ^ n) m (r, m') (\<lambda>f. ptr_val f m' r) \<and> (\<forall>i. ptr_val (bit i) m' r = tt_fun t n i) \<and>
    Hop_ManPiNum m' \<le> max (Hop_ManPiNum m) n"
proof -
  let ?cap = "case mem of None \<Rightarrow> 0 | Some cap \<Rightarrow> cap"
  obtain g where g: "Kit_TruthToGraph t n ?cap = Inr (Some g, t)" "form_ok n g" "nSize_g g \<le> n + n * 2 ^ n"
    "\<And>i. graph_val (bit i) g = tt_fun t n i"
    using Kit_TruthToGraph_form [of n t ?cap] p by (auto split: sum.splits option.splits prod.splits)
  have "hop_room m (nSize_g g)" by (rule hop_room_less [OF m(2) g(3)])
  from Kit_GraphToHop_val [OF g(2) m(1) this] obtain r g' m' where h: "Kit_GraphToHop m g = Inr (r, g', m')"
    "hop_made (nSize_g g) m (r, m') (\<lambda>f. graph_val f g)" "Hop_ManPiNum m' = max (Hop_ManPiNum m) (nLeaves g)"
    by (fastforce elim: returnsE)
  note D = hop.buildsD [OF h(2)]
  have "hop_made (n + n * 2 ^ n) m (r, m') (\<lambda>f. ptr_val f m' r)"
    using hop.builds_mono [OF h(2) g(3)] by (rule hop.builds_cong) (simp add: D(4))
  moreover have "nLeaves g \<le> n" using g(2) by (auto simp: form_ok_def)
  ultimately show ?thesis using g(1,4) h(1,3) D(4) by (simp add: Kit_TruthToHop_def)
qed

lemma Kit_CoverToHop_val:
  assumes c: "isop_of n h cs" "n < 16" "length cs + 4 * weight cs * (weight cs + 1) \<le> 2 ^ 20"
    and m: "hop_ok m" "hop_room m (n + weight cs)"
  shows "\<exists>r st' m'. Kit_CoverToHop m cs n st = Inr (r, st', m') \<and>
    hop_made (n + weight cs) m (r, m') (\<lambda>f. ptr_val f m' r) \<and> (\<forall>i. ptr_val (bit i) m' r = h i)"
proof -
  let ?st = "st\<lparr>nSize := 0\<rparr>"
  have "\<not> lacks (Vec_IntGrow ?st KIT_FACTOR_MEM_LIMIT) (length cs + fmem (weight cs))"
    using c(3) by (auto simp: lacks_def Vec_IntGrow_def KIT_FACTOR_MEM_LIMIT_def fmem_def)
  with Kit_SopFactor_form [OF c(1,2), of ?st False] obtain g st' where g: "Kit_SopFactor cs False n ?st = Inr (g, st')"
    "form_ok n g" "nSize_g g \<le> n + weight cs" "\<And>i. graph_val (bit i) g = h i"
    by (auto simp: res_ok_def split: sum.splits)
  have "hop_room m (nSize_g g)" by (rule hop_room_less [OF m(2) g(3)])
  from Kit_GraphToHop_val [OF g(2) m(1) this] obtain r g' m' where h: "Kit_GraphToHop m g = Inr (r, g', m')"
    "hop_made (nSize_g g) m (r, m') (\<lambda>f. graph_val f g)" "Hop_ManPiNum m' = max (Hop_ManPiNum m) (nLeaves g)"
    by (fastforce elim: returnsE)
  note D = hop.buildsD [OF h(2)]
  have "hop_made (n + weight cs) m (r, m') (\<lambda>f. ptr_val f m' r)"
    using hop.builds_mono [OF h(2) g(3)] by (rule hop.builds_cong) (simp add: D(4))
  then show ?thesis using g(1,4) h(1) D(4) by (simp add: Kit_CoverToHop_def)
qed

end
