(* ===== verification/Hop_Promises.thy ===== *)
theory Hop_Promises
  imports Hop_Life Hop_Refs Hop_Check Kit_Hop
begin

text \<open>
  What the AIG package promises to its users: the properties of its operations, each with an instance
  on a manager made by the package itself. The managers of the instances have two inputs, and then the
  conjunction of the two.
\<close>

section \<open>Two managers\<close>

definition two_inputs :: Hop_Man where
  "two_inputs = snd (Hop_ObjCreatePi (snd (Hop_ObjCreatePi Hop_ManStart)))"

definition gate :: "nat \<times> Hop_Man" where
  "gate = projr (Hop_And two_inputs (addr 1) (addr 2))"

lemma Objs_start: "Objs Hop_ManStart = [zero_obj\<lparr>Type_o := AIG_CONST1, fPhase := True\<rparr>]"
  by (simp add: Hop_ManStart_eq zero_obj_def)

lemma Objs_create_pi:
  "Objs (snd (Hop_ObjCreatePi m)) = Objs m @ [zero_obj\<lparr>Id_o := nCreated m, Type_o := AIG_PI, pNext := length (vPis m)\<rparr>]"
  by (simp add: Hop_ObjCreatePi_def Hop_ManFetchMemory_def Let_def update_def deref_addr)

lemma two_inputs:
  shows "hop_ok two_inputs" "length (Objs two_inputs) = 3" "vPis two_inputs = [addr 1, addr 2]" "marks two_inputs = {}"
    "hop_reach two_inputs" "nodes two_inputs = {}"
proof -
  obtain x1 m1 where 1: "Hop_ObjCreatePi Hop_ManStart = (x1, m1)" by force
  obtain x2 m2 where 2: "Hop_ObjCreatePi m1 = (x2, m2)" by force
  have eq: "two_inputs = m2" by (simp add: two_inputs_def 1 2)
  note v1 = Hop_ObjCreatePi_val [OF Hop_ManStart_ok 1]
  note v2 = Hop_ObjCreatePi_val [OF v1(2) 2]
  have start: "length (Objs Hop_ManStart) = 1" "vPis Hop_ManStart = []" by (simp_all add: Hop_ManStart_eq)
  have x: "x1 = addr 1" "x2 = addr 2" using v1(1) v2(1) v1(4) start by (simp_all add: numeral_2_eq_2)
  show ok: "hop_ok two_inputs" using v2(2) eq by simp
  show "length (Objs two_inputs) = 3" "vPis two_inputs = [addr 1, addr 2]"
    using v2(4,5) v1(4,5) start eq x by simp_all
  show "hop_reach two_inputs" unfolding eq
    by (rule hop_reach.step [OF hop_reach.step [OF hop_reach.start hop_step.create_pi [OF 1]] hop_step.create_pi [OF 2]])
  have objs: "Objs two_inputs = [zero_obj\<lparr>Type_o := AIG_CONST1, fPhase := True\<rparr>,
      zero_obj\<lparr>Id_o := nCreated Hop_ManStart, Type_o := AIG_PI, pNext := 0\<rparr>,
      zero_obj\<lparr>Id_o := nCreated m1, Type_o := AIG_PI, pNext := 1\<rparr>]"
    using Objs_create_pi [of Hop_ManStart] Objs_create_pi [of m1] 1 v1(5) start by (simp add: two_inputs_def 2 Objs_start)
  have "index x = 0 \<or> index x = 1 \<or> index x = 2" if "obj_at two_inputs x" for x
    using that by (auto simp: obj_at_def objs)
  then have "\<not> fMarkA (deref two_inputs x) \<and> Type_o (deref two_inputs x) \<noteq> AIG_AND" if "obj_at two_inputs x" for x
    using that by (fastforce simp: deref_def objs zero_obj_def)
  then show "marks two_inputs = {}" "nodes two_inputs = {}" by (auto simp: marks_def nodes_def)
qed

lemma two_inputs_pointers:
  "hop_valid two_inputs (addr 1)" "hop_valid two_inputs (addr 2)" "ptr_val f two_inputs (addr 1) = f 0" "ptr_val f two_inputs (addr 2) = f 1"
proof -
  have 0: "obj_at two_inputs (addr 1) \<and> Type_o (deref two_inputs (addr 1)) = AIG_PI \<and> pNext (deref two_inputs (addr 1)) = 0"
    and 1: "obj_at two_inputs (addr 2) \<and> Type_o (deref two_inputs (addr 2)) = AIG_PI \<and> pNext (deref two_inputs (addr 2)) = 1"
    using hop_okD(11) [OF two_inputs(1), of 0] hop_okD(11) [OF two_inputs(1), of 1] by (simp_all add: two_inputs(3) nx_def)
  show "hop_valid two_inputs (addr 1)" "hop_valid two_inputs (addr 2)" using 0 1 by (simp_all add: hop_valid_def live_def)
  show "ptr_val f two_inputs (addr 1) = f 0" "ptr_val f two_inputs (addr 2) = f 1"
    using 0 1 by (simp_all add: ptr_val_def pi_val)
qed

lemma two_inputs_room: "k < 1000 \<Longrightarrow> hop_room two_inputs k" "Hop_ManPiNum two_inputs = 2" "fRefCount two_inputs"
  using hop_okD(6) [OF two_inputs(1)] hop_reach_ok [OF two_inputs(5)] by (simp_all add: hop_room_def two_inputs Hop_ManPiNum_def)

lemma supp_inputs: "hop_ok m \<Longrightarrow> live m x \<Longrightarrow> obj_supp m x \<subseteq> {..<Hop_ManPiNum m}"
proof (induction "index x" arbitrary: x rule: less_induct)
  case less
  note ok = less.prems(1)
  consider "x \<in> nodes m" | "x \<notin> nodes m" "x = pConst1 m" | "x \<notin> nodes m" "x \<noteq> pConst1 m" by blast
  then show ?case
  proof cases
    case 1
    then show ?thesis using supp_node [OF ok 1] less.hyps fanin_facts [OF ok 1] ok by simp
  next
    case 2
    then show ?thesis using hop_okD(2,4) [OF ok] by (subst obj_supp.simps) simp
  next
    case 3
    then have pi: "Type_o (deref m x) = AIG_PI" using leaf_pi [OF ok less.prems(2)] by blast
    have "pNext (deref m x) < length (vPis m)" using hop_okD(5) [OF ok, of x] pi less.prems(2) by (simp add: live_def obj_ok_def nx_def)
    then show ?thesis using hop_okD(6) [OF ok] by (simp add: supp_pi [OF pi] Hop_ManPiNum_def)
  qed
qed

lemma gate:
  shows "Hop_And two_inputs (addr 1) (addr 2) = Inr gate" "hop_ok (snd gate)" "marks (snd gate) = {}" "hop_valid (snd gate) (fst gate)"
    "ptr_val f (snd gate) (fst gate) = (f 0 \<and> f 1)" "Hop_ManPiNum (snd gate) = 2" "hop_reach (snd gate)" "k < 1000 \<Longrightarrow> hop_room (snd gate) k"
    "obj_supp (snd gate) (Hop_Regular (fst gate)) \<subseteq> {..<2}" "card (cone (snd gate) (Hop_Regular (fst gate))) \<le> 1"
    "hop_valid (snd gate) (addr 1)" "ptr_val f (snd gate) (addr 1) = f 0"
proof -
  note room = two_inputs_room(1)
  obtain r m where a: "Hop_And two_inputs (addr 1) (addr 2) = Inr (r, m)"
    "hop_new 1 two_inputs (r, m) (\<lambda>f. ptr_val f two_inputs (addr 1) \<and> ptr_val f two_inputs (addr 2))"
    using Hop_And_new [OF two_inputs(1) room two_inputs_pointers(1,2)] by (auto elim: returnsE)
  show eq: "Hop_And two_inputs (addr 1) (addr 2) = Inr gate" unfolding gate_def a(1) by simp
  have g: "gate = (r, m)" unfolding gate_def a(1) by simp
  have n: "hop_ok m" "extends two_inputs m" "length (Objs m) \<le> 4" "hop_valid m r" "\<And>f. ptr_val f m r = (f 0 \<and> f 1)"
      "vPis m = vPis two_inputs" "same_data two_inputs m"
    using a(2) [unfolded two_inputs_pointers] by (simp_all add: hop_new_def two_inputs(2))
  show "hop_ok (snd gate)" "hop_valid (snd gate) (fst gate)" "ptr_val f (snd gate) (fst gate) = (f 0 \<and> f 1)" using n by (simp_all add: g)
  show "marks (snd gate) = {}" using same_data_marked [OF n(7,2)] two_inputs(4) by (simp add: g)
  show "hop_valid (snd gate) (addr 1)" "ptr_val f (snd gate) (addr 1) = f 0"
    using extends_ptr_val [OF two_inputs(1) n(2) two_inputs_pointers(1)] two_inputs_pointers(3) unfolding g by simp_all
  show pis: "Hop_ManPiNum (snd gate) = 2" using hop_okD(6) [OF n(1)] n(6) two_inputs(3) by (simp add: g Hop_ManPiNum_def)
  show "hop_reach (snd gate)" unfolding g snd_conv
    by (rule hop_reach.step [OF two_inputs(5) hop_step.conj [OF room two_inputs_pointers(1,2) a(1)]]) simp
  show "k < 1000 \<Longrightarrow> hop_room (snd gate) k" using n(3) by (simp add: g hop_room_def)
  have x: "live m (Hop_Regular r)" using n(4) by (simp add: hop_valid_def)
  show "obj_supp (snd gate) (Hop_Regular (fst gate)) \<subseteq> {..<2}" using supp_inputs [OF n(1) x] pis by (simp add: g)
  have "nodes m \<subseteq> {addr 3}"
  proof
    fix y assume "y \<in> nodes m"
    then have y: "obj_at m y" "Type_o (deref m y) = AIG_AND" by (simp_all add: nodes_def)
    have "\<not> obj_at two_inputs y" using y two_inputs(6) n(2) by (auto simp: nodes_def extends_def)
    then have "index y = 3" using y(1) n(3) two_inputs(2) by (auto simp: obj_at_def)
    then show "y \<in> {addr 3}" using addr_index [OF y(1)] by simp
  qed
  then have "cone m (Hop_Regular r) \<subseteq> {addr 3}" using cone_sub(1) [OF n(1) x] by blast
  then show "card (cone (snd gate) (Hop_Regular (fst gate))) \<le> 1" using card_mono [of "{addr 3}"] by (simp add: g)
qed

lemma gate_node: "Hop_Regular (fst gate) \<in> nodes (snd gate)"
proof (rule ccontr)
  let ?m = "snd gate" and ?x = "Hop_Regular (fst gate)" and ?c = "Hop_IsComplement (fst gate)"
  assume leaf: "?x \<notin> nodes ?m"
  have x: "live ?m ?x" using gate(4) by (simp add: hop_valid_def)
  have val: "obj_val f ?m ?x = ((f 0 \<and> f 1) \<noteq> ?c)" for f using gate(5) [of f] by (auto simp: ptr_val_def)
  show False
  proof (cases "?x = pConst1 ?m")
    case True
    then have "obj_val f ?m ?x" for f using obj_val_const [OF gate(2)] by simp
    then show False using val [of "\<lambda>_. True"] val [of "\<lambda>_. False"] by simp
  next
    case False
    then have pi: "Type_o (deref ?m ?x) = AIG_PI" using leaf_pi [OF gate(2) x leaf] by blast
    let ?k = "pNext (deref ?m ?x)"
    show False using val [of "\<lambda>_. True"] val [of "\<lambda>_. False"] val [of "\<lambda>i. i = ?k"] by (auto simp: pi_val [OF pi])
  qed
qed

lemma hop_made_value: "hop_made k m r F \<Longrightarrow> ptr_val f (snd r) (fst r) = F f"
  by (simp add: made_def)

lemmas two_inputs_values = two_inputs_pointers(3,4) two_inputs_pointers(3) [simplified One_nat_def]

text \<open>A manager without reference counting.\<close>

lemma uncounted [simp]:
  "obj_at (m\<lparr>fRefCount := b\<rparr>) = obj_at m" "deref (m\<lparr>fRefCount := b\<rparr>) = deref m" "nx (m\<lparr>fRefCount := b\<rparr>) = nx m"
  "node_key (m\<lparr>fRefCount := b\<rparr>) = node_key m" "live (m\<lparr>fRefCount := b\<rparr>) = live m" "nodes (m\<lparr>fRefCount := b\<rparr>) = nodes m"
  by (auto simp: fun_eq_iff deref_def obj_at_def nx_def node_key_def Hop_Hash_def live_def nodes_def)

lemma uncounted_ok:
  assumes "hop_ok m"
  shows "hop_ok (m\<lparr>fRefCount := False\<rparr>)"
proof -
  have fan: "fanins_ok (m\<lparr>fRefCount := False\<rparr>) = fanins_ok m" by (simp add: fun_eq_iff fanins_ok_def)
  have "table_rep (m\<lparr>fRefCount := False\<rparr>) = table_rep m" by (simp add: fun_eq_iff table_rep_def)
  moreover from fan have "obj_ok (m\<lparr>fRefCount := False\<rparr>) = obj_ok m"
    by (simp add: fun_eq_iff obj_ok_def split: Hop_Type.split)
  moreover have "counts_ok (m\<lparr>fRefCount := False\<rparr>) = counts_ok m" by (simp add: counts_ok_def)
  ultimately show ?thesis using assms by (simp add: hop_ok_def)
qed

lemma two_inputs_outputs: "vPos two_inputs = []"
  by (simp add: two_inputs_def Hop_ObjCreatePi_def Hop_ManFetchMemory_def Let_def update_def Hop_ManStart_eq)

section \<open>Functions in and out\<close>

text \<open>
  C1. A truth table of at most six variables goes through the whole path and back: sum of products,
  factored graph, AIG nodes, and the table that \<open>Hop_ManComputeTruth6\<close> reads from the nodes is the table
  that came in. Every step returns, for every manager with at most six inputs and room for the nodes.
\<close>

theorem Kit_TruthToHop_roundtrip:
  assumes "n \<le> 6" "tt_ok t n" "fun_dep n (tt_fun t n)" "hop_ok m" "hop_room m (n + n * 2 ^ n)" "Hop_ManPiNum m \<le> 6"
  shows "\<exists>r m' T P. Kit_TruthToHop m t n mem = Inr (r, t, m') \<and>
    Hop_ManComputeTruth6 m' r (Hop_ManPiNum m') = Inr (T, P) \<and> (\<forall>k\<in>{..<64}. bit T k = tt_fun t n k)"
proof -
  obtain r m' where h: "Kit_TruthToHop m t n mem = Inr (r, t, m')" "hop_made (n + n * 2 ^ n) m (r, m') (\<lambda>f. ptr_val f m' r)"
      "\<forall>i. ptr_val (bit i) m' r = tt_fun t n i" "Hop_ManPiNum m' \<le> max (Hop_ManPiNum m) n"
    using Kit_TruthToHop_val [OF assms(1-5), of mem] by blast
  note D = hop.buildsD [OF h(2)]
  have "live m' (Hop_Regular r)" using D(3) by (simp add: hop_valid_def)
  moreover have "Hop_ManPiNum m' \<le> 6" using h(4) assms(1,6) by simp
  ultimately show ?thesis
    using Hop_ManComputeTruth6_val [OF D(1,3) order_refl _ supp_inputs [OF D(1)]] h(1,3) by fastforce
qed

theorem Kit_TruthToHop_roundtrip_witness:
  "\<exists>r m' T P. Kit_TruthToHop two_inputs [0x96696996, 0x69969669] 6 None = Inr (r, [0x96696996, 0x69969669], m') \<and>
    Hop_ManComputeTruth6 m' r (Hop_ManPiNum m') = Inr (T, P) \<and> bit T 1 = tt_fun [0x96696996, 0x69969669] 6 1"
  using Kit_TruthToHop_roundtrip [of 6 "[0x96696996, 0x69969669]" two_inputs None] two_inputs(1) two_inputs_room
  by (fastforce simp: tt_ok_def Kit_TruthWordNum_def fun_dep_tt_fun)

text \<open>
  C9. The nodes that are made for a factored graph have the function of the graph: the AIG refines the
  graph, and what was in the manager before keeps its value.
\<close>

theorem Kit_GraphToHop_refines:
  assumes "form_ok n g" "hop_ok m" "hop_room m (nSize_g g)"
  shows "\<exists>r g' m'. Kit_GraphToHop m g = Inr (r, g', m') \<and> hop_ok m' \<and> hop_valid m' r \<and> (\<forall>f. ptr_val f m' r = graph_val f g) \<and>
    (\<forall>p\<in>{p. hop_valid m p}. hop_valid m' p \<and> (\<forall>f. ptr_val f m' p = ptr_val f m p))"
proof -
  obtain r g' m' where h: "Kit_GraphToHop m g = Inr (r, g', m')" "hop_made (nSize_g g) m (r, m') (\<lambda>f. graph_val f g)"
    using Kit_GraphToHop_val [OF assms] by (fastforce elim: returnsE)
  then show ?thesis using hop.buildsD [OF h(2)] by blast
qed

theorem Kit_GraphToHop_refines_witness:
  "\<exists>r g' m'. Kit_GraphToHop two_inputs sample_graph = Inr (r, g', m') \<and> (\<forall>f. ptr_val f m' r = graph_val f sample_graph)"
proof -
  have "\<not> fConst sample_graph" "edge_ok sample_graph (eRoot sample_graph)" "nSize_g sample_graph < 1000"
    by (simp_all add: sample_graph_def Kit_GraphAddNodeXor_def Kit_GraphAddNodeAnd_eq Kit_GraphAddNodeOr_eq Kit_GraphCreate_def
        Kit_EdgeCreate_def Kit_GraphSetRoot_def edge_ok_def zero_edge_def nSize_g_def graph_ok_def)
  then have "form_ok 2 sample_graph" "hop_room two_inputs (nSize_g sample_graph)"
    using sample_graph_ok two_inputs_room(1) by (simp_all add: form_ok_def)
  from Kit_GraphToHop_refines [OF this(1) two_inputs(1) this(2)] show ?thesis by blast
qed

section \<open>Conjunctions\<close>

text \<open>
  C2. The conjunction of two pointers of a well-formed manager is always made: the result is a pointer of
  a well-formed manager with at most one new object, its value is the conjunction under all inputs, and
  every pointer that was valid before is still valid with the same value.
\<close>

theorem Hop_And_correct:
  assumes "hop_ok m" "hop_room m 1" "hop_valid m a" "hop_valid m b"
  shows "\<exists>r m'. Hop_And m a b = Inr (r, m') \<and> hop_ok m' \<and> hop_valid m' r \<and> length (Objs m') \<le> length (Objs m) + 1 \<and>
    (\<forall>f. ptr_val f m' r \<longleftrightarrow> ptr_val f m a \<and> ptr_val f m b) \<and>
    (\<forall>p\<in>{p. hop_valid m p}. hop_valid m' p \<and> (\<forall>f. ptr_val f m' p = ptr_val f m p))"
proof -
  obtain r m' where a: "Hop_And m a b = Inr (r, m')" "hop_new 1 m (r, m') (\<lambda>f. ptr_val f m a \<and> ptr_val f m b)"
    using Hop_And_new [OF assms] by (auto elim: returnsE)
  then show ?thesis using extends_ptr_val [OF assms(1)] by (auto simp: hop_new_def)
qed

theorem Hop_And_correct_witness:
  "\<exists>r m'. Hop_And (snd gate) (Hop_Not (fst gate)) (addr 1) = Inr (r, m') \<and> (\<forall>f. ptr_val f m' r \<longleftrightarrow> f 0 \<and> \<not> f 1)"
  using Hop_And_correct [OF gate(2) gate(8) _ gate(11), of "Hop_Not (fst gate)"] gate(4,5,12) by auto

text \<open>
  C3. Structural hashing is canonical: the conjunction of the same two pointers, in either order, in any
  later manager that still has the objects, is the same pointer, and nothing but the scratch object is written.
\<close>

theorem Hop_And_canonical:
  assumes "hop_ok m" "hop_room m 1" "hop_valid m a" "hop_valid m b" "Hop_And m a b = Inr (r, m')" "hop_ok k" "extends m' k"
  shows "\<exists>g h. Hop_And k a b = Inr (r, k\<lparr>Ghost := g\<rparr>) \<and> Hop_And k b a = Inr (r, k\<lparr>Ghost := h\<rparr>)"
proof -
  have "extends m m'" using Hop_And_new [OF assms(1-4)] assms(5) by (simp add: hop_new_def)
  then have e: "extends m k" using assms(7) extends_trans by blast
  have v: "hop_valid k a" "hop_valid k b" using extends_ptr_val [OF assms(1) e] assms(3,4) by simp_all
  have r: "and_result k a b r" using and_result_extends [OF Hop_And_first [OF assms(1-5)] assms(7)] .
  show ?thesis using Hop_And_again [OF assms(6) v r] Hop_And_again [OF assms(6) v(2,1) and_result_swap [OF assms(6) r]] by blast
qed

theorem Hop_And_canonical_witness:
  "\<exists>g. Hop_And (snd gate) (addr 2) (addr 1) = Inr (fst gate, (snd gate)\<lparr>Ghost := g\<rparr>)"
proof -
  have "Hop_And two_inputs (addr 1) (addr 2) = Inr (fst gate, snd gate)" using gate(1) by simp
  from Hop_And_canonical [OF two_inputs(1) two_inputs_room(1) two_inputs_pointers(1,2) this gate(2) extends_refl]
  show ?thesis by auto
qed

section \<open>Other gates\<close>

text \<open>
  C38. The exclusive or, the multiplexer and the majority return, keep the manager well-formed with what
  it had, make at most 3, 3 and 5 nodes, and have the values of the gates.
\<close>

theorem Hop_gates_correct:
  assumes "hop_ok m" "hop_room m 5" "hop_valid m a" "hop_valid m b" "hop_valid m c"
  shows "returns (Hop_Exor m a b) (\<lambda>r. hop_made 3 m r (\<lambda>f. ptr_val f m a \<noteq> ptr_val f m b)) \<and>
    returns (Hop_Mux m c a b) (\<lambda>r. hop_made 3 m r (\<lambda>f. if ptr_val f m c then ptr_val f m a else ptr_val f m b)) \<and>
    returns (Hop_Maj m a b c) (\<lambda>r. hop_made 5 m r
      (\<lambda>f. 2 \<le> length (filter (\<lambda>p. ptr_val f m p) [a, b, c])))"
proof -
  have 3: "hop_room m 3" using assms(2) by (simp add: hop_room_def)
  have "returns (Hop_Maj m a b c) (\<lambda>r. hop_made 5 m r (\<lambda>f. 2 \<le> length (filter (\<lambda>p. ptr_val f m p) [a, b, c])))"
    by (rule returns_mono [OF Hop_Maj_val [OF assms]]) (auto elim!: hop.builds_cong)
  then show ?thesis using Hop_Exor_val [OF assms(1) 3 assms(3,4)] Hop_Mux_val [OF assms(1) 3 assms(5,3,4)] by blast
qed

theorem Hop_gates_correct_witness:
  "returns (Hop_Mux two_inputs (Hop_Not (addr 2)) (addr 1) (addr 2)) (\<lambda>(r, m). \<forall>f. ptr_val f m r = (f 0 \<or> f 1))"
proof -
  have m: "hop_ok two_inputs" "hop_room two_inputs 5" "hop_valid two_inputs (Hop_Not (addr 2))"
    using two_inputs(1) two_inputs_room(1) two_inputs_pointers(2) by simp_all
  have "returns (Hop_Mux two_inputs (Hop_Not (addr 2)) (addr 1) (addr 2)) (\<lambda>r. hop_made 3 two_inputs r
      (\<lambda>f. if ptr_val f two_inputs (Hop_Not (addr 2)) then ptr_val f two_inputs (addr 1) else ptr_val f two_inputs (addr 2)))"
    using Hop_gates_correct [OF m(1,2) two_inputs_pointers(1,2) m(3)] by blast
  then show ?thesis
    by (rule returns_mono) (simp add: split_beta hop_made_value two_inputs_values)
qed

text \<open>
  C37. The balanced conjunction or exclusive or of a list of pointers is that of the whole list, and the
  miter of a list of pairs is true where some pair differs.
\<close>

theorem Hop_Multi_Miter_correct:
  assumes "hop_ok m" "Type = AIG_AND \<or> Type = AIG_EXOR" "length ps = 2 * k" "0 < k" "\<forall>p\<in>set ps. hop_valid m p" "hop_room m (6 * k)"
  shows "returns (Hop_Multi m ps Type) (\<lambda>r. hop_made (3 * (2 * k - 1)) m r (\<lambda>f. multi_val Type (map (ptr_val f m) ps))) \<and>
    returns (Hop_Miter m ps) (\<lambda>(r, vs, m'). hop_made (6 * k) m (r, m')
      (\<lambda>f. \<exists>i\<in>{..<k}. ptr_val f m (ps ! (2 * i)) \<noteq> ptr_val f m (ps ! (2 * i + 1))))"
proof -
  have ps: "ps \<noteq> []" "0 < length ps" using assms(3,4) by auto
  have room: "hop_room m (3 * (length ps - 1))" using assms(3,6) by (simp add: hop_room_def)
  have "returns (Hop_Multi m ps Type) (\<lambda>r. hop_made (3 * (2 * k - 1)) m r (\<lambda>f. multi_val Type (map (ptr_val f m) ps)))"
    using Hop_Multi_rec_val [OF assms(1,2) ps(1) assms(5) room] assms(2,3) ps(2) by (simp add: Hop_Multi_def)
  then show ?thesis using Hop_Miter_val [OF assms(1,5,3,4,6)] by (simp add: Bex_def)
qed

theorem Hop_Multi_Miter_correct_witness:
  "returns (Hop_Miter two_inputs [addr 1, addr 2]) (\<lambda>(r, vs, m). \<forall>f. ptr_val f m r = (f 0 \<noteq> f 1))"
proof -
  have "\<forall>p\<in>set [addr 1, addr 2]. hop_valid two_inputs p" using two_inputs_pointers(1,2) by simp
  then have "returns (Hop_Miter two_inputs [addr 1, addr 2]) (\<lambda>(r, vs, m'). hop_made (6 * 1) two_inputs (r, m')
      (\<lambda>f. \<exists>i\<in>{..<1}. ptr_val f two_inputs ([addr 1, addr 2] ! (2 * i)) \<noteq> ptr_val f two_inputs ([addr 1, addr 2] ! (2 * i + 1))))"
    using Hop_Multi_Miter_correct [OF two_inputs(1) disjI1 [OF refl], of "[addr 1, addr 2]" 1] two_inputs_room(1) by simp
  then show ?thesis by (rule returns_mono) (auto simp: hop_made_value [of _ _ "(a, b)" for a b, simplified] two_inputs_values)
qed

section \<open>Every reachable manager\<close>

text \<open>
  C4. In every manager that the operations can reach from the start, the consistency check passes, no two
  nodes have the same fanins, and the phase of an object is its value when all inputs are 0.
\<close>

theorem hop_reach_safe:
  assumes "hop_reach m"
  shows "Hop_ManCheck m = Inr 1 \<and>
    inj_on (\<lambda>x. (pFanin0 (deref m x), pFanin1 (deref m x))) (nodes m) \<and>
    (\<forall>x\<in>{x. live m x}. fPhase (deref m x) = obj_val (\<lambda>_. False) m x)"
proof -
  have ok: "hop_ok m" using hop_reach_ok [OF assms] by simp
  have "inj_on (\<lambda>x. (pFanin0 (deref m x), pFanin1 (deref m x))) (nodes m)"
    using hop_okD(12) [OF ok] by (auto simp: inj_on_def nodes_def same_node_def Hop_ObjChild0_def Hop_ObjChild1_def)
  then show ?thesis using Hop_ManCheck_val [OF ok] phase_val [OF ok] by blast
qed

theorem hop_reach_safe_witness: "Hop_ManCheck (snd gate) = Inr 1"
  using hop_reach_safe [OF gate(7)] by blast

text \<open>
  C13. In every reachable manager each object has the fields of its type: the constant is the one object
  of its type, an input has no fanins and stands at its number in the array of inputs, an output has one
  driver and stands in the array of outputs, and a node has two different older fanins, neither the constant.
\<close>

theorem hop_reach_typed:
  assumes "hop_reach m" "obj_at m x"
  shows "case Type_o (deref m x) of
      AIG_NONE \<Rightarrow> True
    | AIG_CONST1 \<Rightarrow> x = pConst1 m
    | AIG_PI \<Rightarrow> pFanin0 (deref m x) = 0 \<and> pFanin1 (deref m x) = 0 \<and> vPis m ! pNext (deref m x) = x
    | AIG_PO \<Rightarrow> live m (fan0 m x) \<and> pFanin1 (deref m x) = 0 \<and> x \<in> set (vPos m)
    | AIG_AND \<Rightarrow> live m (fan0 m x) \<and> live m (fan1 m x) \<and> fan0 m x \<noteq> fan1 m x \<and>
        pConst1 m \<notin> {fan0 m x, fan1 m x} \<and> index (fan0 m x) < index x \<and> index (fan1 m x) < index x
    | _ \<Rightarrow> False"
proof -
  have ok: "hop_ok m" using hop_reach_ok [OF assms(1)] by simp
  show ?thesis
  proof (cases "Type_o (deref m x) = AIG_AND")
    case True
    then show ?thesis using fanin_facts [OF ok, of x] assms(2) by (auto simp: nodes_def)
  next
    case False
    then show ?thesis using hop_okD(5) [OF ok assms(2)] hop_okD(13) [OF ok] assms(2)
      by (auto simp: obj_ok_def nx_def counts_ok_def split: Hop_Type.split)
  qed
qed

theorem hop_reach_typed_witness: "vPis two_inputs ! pNext (deref two_inputs (addr 2)) = addr 2"
proof -
  have x: "obj_at two_inputs (addr 2)" "Type_o (deref two_inputs (addr 2)) = AIG_PI"
    using hop_okD(11) [OF two_inputs(1), of 1] by (simp_all add: two_inputs(3))
  show ?thesis using hop_reach_typed [OF two_inputs(5) x(1)] by (simp only: x(2) Hop_Type.case simp_thms)
qed

text \<open>
  C33. No reachable manager is stuck: the conjunction of valid pointers and the cleanup return, and they
  lead to reachable managers again.
\<close>

theorem hop_reach_progress:
  assumes "hop_reach m" "hop_room m 1" "hop_valid m a" "hop_valid m b"
  shows "(\<exists>r m'. Hop_And m a b = Inr (r, m') \<and> hop_reach m') \<and> (\<exists>n m'. Hop_ManCleanup m = Inr (n, m') \<and> hop_reach m')"
proof -
  have ok: "hop_ok m" "fRefCount m" using hop_reach_ok [OF assms(1)] by simp_all
  obtain r m' where "Hop_And m a b = Inr (r, m')" using Hop_And_new [OF ok(1) assms(2-4)] by (auto elim: returnsE)
  moreover obtain n M where "Hop_ManCleanup m = Inr (n, M)" using Hop_ManCleanup_val [OF ok] by blast
  ultimately show ?thesis using hop_reach.step [OF assms(1)] hop_step.conj [OF assms(2-4)] hop_step.cleanup by blast
qed

theorem hop_reach_progress_witness: "\<exists>n m'. Hop_ManCleanup (snd gate) = Inr (n, m') \<and> hop_reach m'"
  using hop_reach_progress [OF gate(7) gate(8) gate(11,11)] by simp

section \<open>Deletion\<close>

text \<open>
  C8. The cleanup returns a well-formed manager in which all inputs and outputs are left and every output
  has the value it had, and the number of nodes it removed. A node without references stays exactly when
  it had none before and was not the first of a list of the hash table: the loop visits the first nodes only.
\<close>

theorem Hop_ManCleanup_correct:
  assumes "hop_ok m" "fRefCount m"
  shows "\<exists>n M. Hop_ManCleanup m = Inr (n, M) \<and> hop_ok M \<and> vPis M = vPis m \<and> vPos M = vPos m \<and>
    n = card (nodes m) - card (nodes M) \<and>
    (\<forall>y\<in>set (vPos m). \<forall>f. ptr_val f M (pFanin0 (deref M y)) = ptr_val f m (pFanin0 (deref m y))) \<and>
    {x \<in> nodes M. nRefs (deref M x) = 0} = {x \<in> nodes m. nRefs (deref m x) = 0 \<and> x \<notin> set (pTable m)}"
proof -
  obtain n M where c: "Hop_ManCleanup m = Inr (n, M)" "hop_ok M" "shrinks m M" "n = card (nodes m) - card (nodes M)"
      "dangling M = {x \<in> dangling m. x \<notin> set (pTable m)}"
    using Hop_ManCleanup_val [OF assms] by blast
  have out: "ptr_val f M (pFanin0 (deref M y)) = ptr_val f m (pFanin0 (deref m y))" if y: "y \<in> set (vPos m)" for y f
  proof -
    have po: "obj_at m y" "Type_o (deref m y) = AIG_PO" using hop_okD(13) [OF assms(1)] y by (auto simp: counts_ok_def)
    then have same: "Type_o (deref M y) = AIG_PO" "pFanin0 (deref M y) = pFanin0 (deref m y)" using c(3) by (auto simp: shrinks_def)
    have "obj_at M y" using po(1) c(3) by (simp add: shrinks_def obj_at_def)
    then have "live M (fan0 M y)" using hop_okD(5) [OF c(2), of y] same(1) by (simp add: obj_ok_def)
    then show ?thesis using shrinks_val [OF c(2,3)] by (simp add: ptr_val_def same(2))
  qed
  show ?thesis using c out by (auto simp: shrinks_def dangling_def)
qed

theorem Hop_ManCleanup_correct_witness:
  "\<exists>n M. Hop_ManCleanup (snd gate) = Inr (n, M) \<and> hop_ok M \<and> vPis M = vPis (snd gate)"
proof -
  have "fRefCount (snd gate)" using hop_reach_ok [OF gate(7)] by blast
  from Hop_ManCleanup_correct [OF gate(2) this] show ?thesis by blast
qed

section \<open>Substitution\<close>

text \<open>
  C10. The composition of a function with another one in the place of an input has the value of the
  function where that input has the value of the other; complementing an input is the composition with
  its complement. The manager stays well-formed, grows by at most the size of the cone, and has no marks left.
\<close>

theorem Hop_Compose_correct:
  assumes "hop_ok p" "marks p = {}" "hop_valid p q" "hop_room p (card (cone p (Hop_Regular q)))" "hop_valid p g" "i < Hop_ManPiNum p"
  shows "returns (Hop_Compose p q g i) (substituted p q (\<lambda>f. f(i := ptr_val f p g))) \<and>
    returns (Hop_Complement p q i) (substituted p q (\<lambda>f. f(i := \<not> f i)))"
  using Hop_Compose_val [OF assms] Hop_Complement_val [OF assms(1-4,6)] by blast

theorem Hop_Compose_correct_witness:
  "returns (Hop_Compose (snd gate) (fst gate) (Hop_Not (fst gate)) 1) (\<lambda>(r, m). \<forall>f. ptr_val f m r = (f 0 \<and> \<not> f 1))"
proof -
  have "hop_room (snd gate) (card (cone (snd gate) (Hop_Regular (fst gate))))" by (rule gate(8)) (use gate(10) in simp)
  then have "returns (Hop_Compose (snd gate) (fst gate) (Hop_Not (fst gate)) 1)
      (substituted (snd gate) (fst gate) (\<lambda>f. f(1 := ptr_val f (snd gate) (Hop_Not (fst gate)))))"
    using Hop_Compose_correct [OF gate(2,3,4), of "Hop_Not (fst gate)" 1] gate(4,6) by simp
  then show ?thesis by (rule returns_mono) (auto simp: substituted_def gate(5))
qed

text \<open>
  C12. The change of the support: the inputs of the support are read at their ranks, the others are 0. The
  function must not depend on inputs past the number given, and the support must be a proper part of them,
  or empty, or the function constant.
\<close>

theorem Hop_Remap_correct:
  assumes "hop_ok p" "marks p = {}" "hop_valid p q" "hop_room p (card (cone p (Hop_Regular q)))"
    "n \<le> Hop_ManPiNum p" "n \<le> 32" "obj_supp p (Hop_Regular q) \<subseteq> {..<n}"
    "Hop_Regular q = pConst1 p \<or> s = 0 \<or> rank s n \<in> {0<..<n}"
  shows "returns (Hop_Remap p q s n) (substituted p q (\<lambda>f i. bit s i \<and> f (rank s i)))"
  using Hop_Remap_val [OF assms(1-7), of s] assms(8) by auto

theorem Hop_Remap_correct_witness:
  "returns (Hop_Remap (snd gate) (Hop_Not (fst gate)) 1 2) (\<lambda>(r, m). \<forall>f. ptr_val f m r)"
proof -
  have room: "hop_room (snd gate) (card (cone (snd gate) (Hop_Regular (Hop_Not (fst gate)))))" by (rule gate(8)) (use gate(10) in simp)
  have rank: "rank 1 2 = 1" by (simp add: numeral_2_eq_2)
  have "returns (Hop_Remap (snd gate) (Hop_Not (fst gate)) 1 2)
      (substituted (snd gate) (Hop_Not (fst gate)) (\<lambda>f i. bit (1 :: u32) i \<and> f (rank 1 i)))"
    using Hop_Remap_correct [OF gate(2,3) _ room, of 2 1] gate(4,6,9) rank by simp
  then show ?thesis by (rule returns_mono) (auto simp: substituted_def gate(5) bit_1_iff)
qed

text \<open>
  C11. The copy of a function in another manager has the same value under all inputs; the destination is
  well-formed with what it had, the source has other data but the same objects and no marks.
\<close>

theorem Hop_Transfer_correct:
  assumes "hop_ok p" "marks p = {}" "hop_valid p q" "hop_ok d" "hop_room d (n + card (cone p (Hop_Regular q)))"
    "n \<le> Hop_ManPiNum p" "obj_supp p (Hop_Regular q) \<subseteq> {..<n}"
  shows "\<exists>r P D. Hop_Transfer False p d q n = Inr (r, P, D) \<and> hop_ok D \<and> hop_valid D r \<and> (\<forall>f. ptr_val f D r = ptr_val f p q) \<and>
    (\<forall>a\<in>{a. hop_valid d a}. hop_valid D a \<and> (\<forall>f. ptr_val f D a = ptr_val f d a)) \<and>
    hop_ok P \<and> marks P = {} \<and> (\<forall>a f. ptr_val f P a = ptr_val f p a)"
proof -
  obtain r P D where t: "Hop_Transfer False p d q n = Inr (r, P, D)" "redecorated p P" "marks P = {}"
      "hop_made (n + card (cone p (Hop_Regular q))) d (r, D) (\<lambda>f. ptr_val f p q)"
    using Hop_Transfer_val [OF assms] by blast
  show ?thesis using t(1,3) hop.buildsD [OF t(4)] redecorated_ok [OF t(2) assms(1)] redecorated_ptr_val [OF t(2)] by blast
qed

theorem Hop_Transfer_correct_witness:
  "\<exists>r P D. Hop_Transfer False (snd gate) Hop_ManStart (fst gate) 2 = Inr (r, P, D) \<and> (\<forall>f. ptr_val f D r = (f 0 \<and> f 1))"
proof -
  have "hop_room Hop_ManStart (2 + card (cone (snd gate) (Hop_Regular (fst gate))))"
    using gate(10) by (simp add: hop_room_def Hop_ManStart_eq)
  from Hop_Transfer_correct [OF gate(2,3,4) Hop_ManStart_ok this _ gate(9)] show ?thesis using gate(5,6) by fastforce
qed

section \<open>Traversals\<close>

text \<open>
  C34. The size of a cone is the number of the nodes that the pointer depends on, their list is complete,
  without repetition and in topological order, and both leave the manager exactly as it was, marks included.
\<close>

theorem Hop_cone_correct:
  assumes "hop_ok p" "marks p = {}" "hop_valid p q"
  shows "Hop_DagSize p q = Inr (card (cone p (Hop_Regular q)), p) \<and>
    (\<exists>xs. Hop_ManDfsNode p (Hop_Regular q) = Inr (xs, p) \<and> set xs = cone p (Hop_Regular q) \<and> distinct xs \<and>
      (\<forall>i\<in>{..<length xs}. cone p (xs ! i) \<subseteq> set (take (Suc i) xs)))"
proof -
  have "live p (Hop_Regular q)" using assms(3) by (simp add: hop_valid_def)
  from Hop_ManDfsNode_val [OF assms(1,2) this] show ?thesis using Hop_DagSize_val [OF assms] by (auto simp: topological_def)
qed

theorem Hop_cone_correct_witness: "\<exists>k. Hop_DagSize (snd gate) (Hop_Not (fst gate)) = Inr (k, snd gate)"
  using Hop_cone_correct [OF gate(2,3), of "Hop_Not (fst gate)"] gate(4) by simp

text \<open>
  C35. The traversal of the whole manager collects the cones of the nodes that are the first of their lists
  in the hash table, in topological order, and leaves a mark on every node of these cones that is not the
  first of its list.
\<close>

theorem Hop_ManDfs_marks:
  assumes "hop_ok p" "marks p = {}"
  shows "\<exists>xs M. Hop_ManDfs p = Inr (xs, M) \<and> distinct xs \<and> set xs = (\<Union>x\<in>nodes p \<inter> set (pTable p). cone p x) \<and>
    (\<forall>i\<in>{..<length xs}. cone p (xs ! i) \<subseteq> set (take (Suc i) xs)) \<and> marks M = set xs - set (pTable p)"
  using Hop_ManDfs_val [OF assms] by (auto simp: topological_def)

theorem Hop_ManDfs_marks_witness:
  "\<exists>xs M. Hop_ManDfs (snd gate) = Inr (xs, M) \<and> marks M = set xs - set (pTable (snd gate))"
  using Hop_ManDfs_marks [OF gate(2,3)] by blast

text \<open>
  C36. The count of the fanouts of a pivot in a cone is the number of nodes of the cone with the pivot as a
  fanin when the pivot is an input, and one less when the pivot is a node of the cone. The manager is left as it was.
\<close>

theorem Hop_ObjFanoutCount_correct:
  assumes "hop_ok p" "marks p = {}" "hop_valid p q" "\<not> Hop_IsComplement z" "Hop_Regular q \<noteq> z"
  shows "Hop_ObjFanoutCount p q z =
    Inr (card {y \<in> cone p (Hop_Regular q). z \<in> {fan0 p y, fan1 p y}} - of_bool (z \<in> cone p (Hop_Regular q)), p)"
proof -
  have "fanouts_in p (cone p (Hop_Regular q)) z = {y \<in> cone p (Hop_Regular q). z \<in> {fan0 p y, fan1 p y}}"
    by (auto simp: fanouts_in_def)
  then show ?thesis using Hop_ObjFanoutCount_val [OF assms] by simp
qed

theorem Hop_ObjFanoutCount_correct_witness: "\<exists>k. Hop_ObjFanoutCount two_inputs (addr 1) (addr 2) = Inr (k, two_inputs)"
proof -
  have "Hop_Regular (addr 1) \<noteq> addr 2" unfolding addr_regular by (simp add: addr_def)
  from Hop_ObjFanoutCount_correct [OF two_inputs(1,4) two_inputs_pointers(1) _ this] show ?thesis by simp
qed

section \<open>The hash table and the counters\<close>

lemma node_referenced:
  assumes ok: "hop_ok m" and x: "x \<in> nodes m" and counted: "fRefCount m"
  shows "nRefs (deref m (fan0 m x)) \<noteq> 0" "nRefs (deref m (fan1 m x)) \<noteq> 0"
proof -
  have "nRefs (deref m q) \<noteq> 0" if q: "q = fan0 m x \<or> q = fan1 m x" for q
  proof -
    have "obj_at m q" using q fanin_facts(1,2) [OF ok x] by (auto simp: live_def)
    then have "card (fanouts m q) \<le> unat (nRefs (deref m q))" using hop_okD(10) [OF ok counted] by (simp add: refs_ok_def)
    moreover have "x \<in> fanouts m q" using q x by (auto simp: fanouts_def nodes_def)
    then have "0 < card (fanouts m q)" using finite_fanouts card_gt_0_iff by blast
    ultimately show ?thesis by auto
  qed
  then show "nRefs (deref m (fan0 m x)) \<noteq> 0" "nRefs (deref m (fan1 m x)) \<noteq> 0" by simp_all
qed

lemma resized_lookup:
  assumes ok: "hop_ok m" and k: "table_rep k (nodes m)" "relinked (nodes m) m k" and x: "x \<in> nodes m"
  shows "Hop_TableLookup k (deref k x) = Inr x"
proof -
  note R = relinked_fields [OF k(2)]
  have h: "hashable k (deref k x)" using hashable_relinked [OF k(2)] node_hashable [OF ok x] by (simp add: R hashable_def)
  have refs: "nRefs (deref k (Hop_Regular (pFanin0 (deref k x)))) \<noteq> 0 \<and> nRefs (deref k (Hop_Regular (pFanin1 (deref k x)))) \<noteq> 0" if "fRefCount k"
    using node_referenced [OF ok x] that by (simp add: R)
  obtain r where r: "Hop_TableLookup k (deref k x) = Inr r" "if r = 0 then \<forall>y\<in>nodes m. \<not> same_node (deref k y) (deref k x)
      else r \<in> nodes m \<and> same_node (deref k r) (deref k x)"
    using Hop_TableLookup_val [OF k(1) h refs] by blast
  have same: "same_node (deref k y) (deref k x) \<longleftrightarrow> same_node (deref m y) (deref m x)" for y
    by (simp add: same_node_def Hop_ObjChild0_def Hop_ObjChild1_def R)
  have "same_node (deref m x) (deref m x)" by (simp add: same_node_def)
  then have "r \<in> nodes m \<and> same_node (deref m r) (deref m x)" using r(2) x by (auto simp: same split: if_splits)
  then show ?thesis using hop_okD(12) [OF ok _ x] r(1) by blast
qed

text \<open>
  C39. The resized hash table holds the nodes it held, and the lookup of each of them finds it; nothing but
  the links of the lists changes in the objects. The new size is the least odd number without proper
  divisors (1, or an odd prime) from twice the number of nodes on.
\<close>

theorem Hop_TableResize_correct:
  assumes "hop_ok m"
  shows "\<exists>m'. Hop_TableResize m = Inr m' \<and> (\<forall>x\<in>nodes m. Hop_TableLookup m' (deref m' x) = Inr x) \<and>
    (\<forall>x\<in>{x. obj_at m x}. (deref m' x)\<lparr>pNext := 0\<rparr> = (deref m x)\<lparr>pNext := 0\<rparr>) \<and>
    table_rep m' (nodes m) \<and> length (pTable m') = nTableSize m' \<and>
    2 * card (nodes m) \<le> nTableSize m' \<and> odd_prime (nTableSize m') \<and>
    (\<forall>q\<in>{2 * card (nodes m)..<nTableSize m'}. \<not> odd_prime q)"
proof -
  have n: "card (nodes m) = Hop_ManNodeNum m" using hop_okD(7,8) [OF assms] by (simp add: Hop_ManNodeNum_def)
  obtain k where k: "Hop_TableResize m = Inr k" "table_rep k (nodes m)" "relinked (nodes m) m k" "nTableSize k = Abc_PrimeCudd (2 * card (nodes m))"
    using Hop_TableResize_val [OF hop_okD(9) [OF assms]] node_hashable [OF assms] n by auto
  then show ?thesis using Abc_PrimeCudd_val [of "2 * card (nodes m)"] resized_lookup [OF assms k(2,3)]
    by (auto simp: table_rep_def relinked_def)
qed

theorem Hop_TableResize_correct_witness:
  "\<exists>m'. Hop_TableResize (snd gate) = Inr m' \<and> odd_prime (nTableSize m') \<and>
    Hop_TableLookup m' (deref m' (Hop_Regular (fst gate))) = Inr (Hop_Regular (fst gate))"
  using Hop_TableResize_correct [OF gate(2)] gate_node by blast

text \<open>
  C40. The counters made anew are the numbers of references from the outputs and from the nodes that are the
  first of their lists in the hash table; other nodes are neither counted nor cleared.
\<close>

theorem Hop_ManCreateRefs_counts:
  assumes "hop_ok m" "\<not> fRefCount m" "obj_at m q"
  shows "nRefs (deref (Hop_ManCreateRefs m) q) =
    (if q \<in> nodes m - set (pTable m) \<or> Type_o (deref m q) = AIG_NONE then nRefs (deref m q) else 0) +
    of_nat (card {y \<in> nodes m \<inter> set (pTable m). q \<in> {fan0 m y, fan1 m y}} + card {y \<in> set (vPos m). q = fan0 m y})"
proof -
  have "q \<in> {pConst1 m} \<union> set (vPis m) \<union> (nodes m \<inter> set (pTable m)) \<union> set (vPos m) \<longleftrightarrow>
      \<not> (q \<in> nodes m - set (pTable m) \<or> Type_o (deref m q) = AIG_NONE)"
    using hop_okD(2,4) [OF assms(1)] hop_okD(5) [OF assms(1,3)] hop_okD(13) [OF assms(1)] inputs_set(1) [OF assms(1)] assms(3)
    by (cases "Type_o (deref m q)") (auto simp: obj_ok_def counts_ok_def nodes_def)
  then have "(if q \<in> {pConst1 m} \<union> set (vPis m) \<union> (nodes m \<inter> set (pTable m)) \<union> set (vPos m) then 0 else nRefs (deref m q)) =
      (if q \<in> nodes m - set (pTable m) \<or> Type_o (deref m q) = AIG_NONE then nRefs (deref m q) else 0)"
    by presburger
  then show ?thesis using Hop_ManCreateRefs_val [OF assms] by (simp only: of_nat_add add.assoc)
qed

theorem Hop_ManCreateRefs_counts_witness:
  "nRefs (deref (Hop_ManCreateRefs (two_inputs\<lparr>fRefCount := False\<rparr>)) (addr 1)) = 0"
proof -
  let ?m = "two_inputs\<lparr>fRefCount := False\<rparr>"
  have m: "hop_ok ?m" "\<not> fRefCount ?m" using uncounted_ok [OF two_inputs(1)] by simp_all
  have x: "obj_at ?m (addr 1)" "Type_o (deref ?m (addr 1)) = AIG_PI" "nodes ?m = {}" "vPos ?m = []"
    using hop_okD(11) [OF two_inputs(1), of 0] two_inputs(3,6) by (simp_all add: uncounted two_inputs_outputs)
  show ?thesis using Hop_ManCreateRefs_counts [OF m x(1)] by (simp only: x(2-4)) simp
qed

end
