(* ===== verification/Spec2Isabelle.thy ===== *)
theory Spec2Isabelle
  imports Kit_Count Kit_Ops Kit_Truth Kit_Support Kit_Isop Kit_Sop Kit_Factor Kit_Permute Kit_Cofs Kit_Minterms Kit_Canon Hop_Util Hop_Promises
begin

text \<open>
  A model of two parts of ABC that work together: the Boolean function kit (\<open>src/abc-master/src/bool/kit\<close>),
  which computes with truth tables, sums of products and factored forms, and the package of and-inverter
  graphs (\<open>src/abc-master/src/aig/hop\<close>), in which the kit builds the functions of the nodes of a network.

  \<^bold>\<open>The program.\<close> A Boolean function of up to 16 variables is an array of 32-bit words, its truth table.
  \<open>kit.h\<close> has the word-level operations, \<open>kitTruth.c\<close> the operations on variables, \<open>kitIsop.c\<close> computes an
  irredundant sum of products, \<open>kitSop.c\<close> divides such covers algebraically, \<open>kitFactor.c\<close> factors them,
  \<open>kitGraph.c\<close> holds the factored form as a graph of AND nodes. \<open>Kit_TruthToGraph\<close> is the path through all
  of them: from a table over its cover to a graph. \<open>Kit_TruthToHop\<close> goes on to nodes of the AIG package:
  \<open>hop.h\<close>, \<open>hopObj.c\<close> and \<open>hopMan.c\<close> have its objects and managers, \<open>hopTable.c\<close> the structural hash table,
  \<open>hopOper.c\<close> the operations on functions, \<open>hopDfs.c\<close> the traversals and substitutions, \<open>hopCheck.c\<close> the
  consistency check, \<open>hopTruth.c\<close> the truth tables of functions, \<open>hopUtil.c\<close> clearing of data and
  recognition of gates.

  \<^bold>\<open>The theories.\<close>
  \<^item> \<open>Kit_Prelude\<close>: results that may fail, loops as folds over their indices, bits of minterms.
  \<^item> \<open>Kit_Words\<close>, \<open>Kit_Count\<close>: cubes, masks, bits of one word, counting and searching bits (\<open>kit.h\<close>).
  \<^item> \<open>Kit_Ops\<close>: bitwise operations, comparison, counting and search in tables (\<open>kit.h\<close>).
  \<^item> \<open>Kit_Truth\<close>: cofactors, quantifiers, multiplexers, phase, difference (\<open>kitTruth.c\<close>), each with the
    switch of the code over the variables inside a word and the loop nest over the others.
  \<^item> \<open>Kit_Support\<close>: support, sets of quantifiers, symmetry, choice of cofactoring variables.
  \<^item> \<open>Kit_Cofs\<close>: the minterm counts of all cofactors in one pass.
  \<^item> \<open>Kit_Minterms\<close>: the byte-wise count of the minterms of the negative cofactors, and hashing.
  \<^item> \<open>Kit_Swap\<close>, \<open>Kit_Exchange\<close>, \<open>Kit_Permute\<close>: swaps of adjacent variables, stretching, shrinking, permuting;
    \<open>Kit_Exchange\<close> is the interface of the loops that exchange neighbours until nothing changes.
  \<^item> \<open>Kit_Canon\<close>: semi-canonical forms, by the counts of the cofactors and the exchange of neighbours.
  \<^item> \<open>Kit_Isop\<close>: the Minato-Morreale recursion on words and on tables (\<open>kitIsop.c\<close>).
  \<^item> \<open>Kit_Sop\<close>: covers, division, common cubes, kernels, divisors (\<open>kitSop.c\<close>).
  \<^item> \<open>Kit_Manager\<close>: the interface of managers of AND nodes, with its clients' lemmas.
  \<^item> \<open>Kit_Graph\<close>: factored graphs (\<open>kitGraph.c\<close>), which provide that interface.
  \<^item> \<open>Kit_Factor\<close>: factoring and the path from tables to graphs (\<open>kitFactor.c\<close>, \<open>kitGraph.c\<close>).
  \<^item> \<open>Kit_Hop\<close>: graphs, tables and covers as AIG nodes (\<open>kitHop.c\<close>).
  \<^item> \<open>Hop_Base\<close>, \<open>Hop_Table\<close>: objects in memory and pointers; the hash table and its invariant \<open>table_rep\<close>.
  \<^item> \<open>Hop_Oper\<close>: the creation of objects, the operations on functions, the invariant \<open>hop_ok\<close> of a manager
    and the meaning \<open>ptr_val\<close> of a pointer; \<open>Hop_And\<close> provides the interface of \<open>Kit_Manager\<close>.
  \<^item> \<open>Hop_Build\<close>, \<open>Hop_Hashing\<close>: the first manager, inputs, balanced trees, miters; equal nodes are found again.
  \<^item> \<open>Hop_Delete\<close>, \<open>Hop_Check\<close>: deletion and cleanup (\<open>shrinks\<close>), outputs, the consistency check.
  \<^item> \<open>Hop_Marks\<close>, \<open>Hop_Cone\<close>: the fields for traversals (\<open>redecorated\<close>), cones, and the interface \<open>traversal\<close> of
    the marking recursions with one induction for all of them.
  \<^item> \<open>Hop_Dfs\<close>, \<open>Hop_Refs\<close>: orders, sizes, fanouts, levels, counters (\<open>hopDfs.c\<close>); the recursions are instances
    of \<open>traversal\<close>.
  \<^item> \<open>Hop_Subst\<close>, \<open>Hop_Copy\<close>: composition, change of the support, transfer between managers, instances too.
  \<^item> \<open>Hop_Truth\<close>: the table of a function of at most six inputs.
  \<^item> \<open>Hop_Util\<close>: clearing the data fields, the inputs of multi-input gates, exclusive ors and multiplexers
    recognised in two levels of nodes (\<open>hopUtil.c\<close>).
  \<^item> \<open>Hop_Life\<close>: the states that a manager can reach, as a step relation.
  \<^item> \<open>Hop_Promises\<close>: the properties of the package and of the two parts together, with instances.

  \<^bold>\<open>State and operations.\<close> Tables are lists of words (\<open>words\<close>); an operation that writes a buffer
  returns its new contents. The fetches of \<open>Vec_IntFetch\<close> from the growing memory become a capacity and
  a size (\<open>Vec_Int\<close>), the regions handed out being passed by value, as they never overlap. A graph is a
  record with its node array; edges are node numbers of 30 bits with a complement bit. Results are
  \<open>kit_error + 'a\<close>: a failed assertion, memory that runs out, undefined behaviour and the end of the fuel
  are distinct errors. The assertion \<open>iVar < nVars\<close> at the start of the one-variable operations of
  \<open>kitTruth.c\<close> is a hypothesis of their lemmas instead.

  A manager of the AIG package is a record with the list of its objects as memory; a pointer is a number
  whose lowest bit is the complement mark of the code, and the null pointer is \<open>0\<close>. Calls in one expression
  are evaluated from left to right. Reference counters are words of 26 bits as in the code, products in
  the hash function wrap around as the \<open>int\<close> of the usual compilers does; \<open>hop_room\<close> says that the counters
  do not overflow. The recursions over nodes have the number of objects as fuel, which is enough because
  the fanins of a node are older than the node.

  \<^bold>\<open>What is shown.\<close> The function of a table is \<open>tt_bit\<close> (\<open>tt_fun\<close> for the ISOP); each operation on tables has
  one equation over minterms (the collection \<open>tt_simps\<close>). Covers have two readings, \<open>isop_cover\<close> for the
  literals of the ISOP and \<open>cover_val\<close> for those of factoring, related by \<open>Kit_SopCreateInverse\<close>. The
  graphs have \<open>edge_val\<close> and \<open>graph_val\<close>. The main results compose these: for at most six variables
  \<open>Kit_TruthToGraph\<close> returns a well-formed graph of the function of the table, and the nodes that
  \<open>Kit_TruthToHop\<close> makes for it give the table back. Every operation of the AIG package keeps \<open>hop_ok\<close> and
  the values of the pointers that were there (\<open>extends\<close>), the traversals leave the manager as they found
  it (\<open>only_marks_eq\<close>), substitutions have the value of the function under other values of its inputs
  (\<open>substituted\<close>), and every reachable manager passes the consistency check. The iterator over the nodes
  visits the first node of each list of the hash table only; the theorems on the cleanup, the traversal
  of the whole manager and the counters say what follows.

  \<^bold>\<open>Fuel and bounds.\<close> \<open>Kit_SopFactor_rec\<close> calls itself with covers of fewer literals; it has one call of fuel
  for each literal and one more, and \<open>Kit_SopFactor_rec_bounds\<close> shows that this is enough. The ISOP of
  \<open>n\<close> variables needs at most \<open>5 * 3 ^ n\<close> words, a number that does not depend on the capacity (\<open>metered\<close>),
  factoring a cover of \<open>w\<close> literals at most \<open>4 * w * (w + 1)\<close>;
  the memory is \<open>2 ^ 20\<close> words, and the theorems say when that is enough. Loops whose end is not evident
  (permuting, the depth of a leaf) are partial functions with a theorem that they end.

  \<^bold>\<open>Not modelled.\<close> Counters of type \<open>int\<close> are natural numbers: they stay far below \<open>2 ^ 31\<close>, as a table has at
  most \<open>2 ^ 20\<close> minterms. Memory that is allocated but not written is not read by the code and has no
  contents here. Of the AIG package the pages of memory and the list of free objects are left out (a new
  object has a new address), the optional array of all objects, choice nodes, the balancing, the
  printing and file output of \<open>hopUtil.c\<close>, and \<open>Hop_ManConvertAigToTruth\<close>, which keeps the addresses of arrays of
  words in the data fields. Printing, timing, the conversion to decision diagrams, the disjoint decomposition
  (\<open>kitDsd.c\<close>), the rest of ABC around the kit (network database, command interpreter, mapping, SAT
  solvers) and the third-party packages in its tree are left out; the manifest lists them.
\<close>

end
